(* ===== verification/Linked_List.thy ===== *)
theory Linked_List
  imports Kernel_Prelude
begin

text \<open>
  The kernel's singly linked list, class \<^verbatim>\<open>List\<close> of \<^verbatim>\<open>inc/list.hh\<close> and \<^verbatim>\<open>src/list.cpp\<close>, which
  holds the scheduler's tasks, the open files, the registered file systems and the mounts.

  The nodes live in an explicit store \<open>nodes\<close>, so that the model shows the aliasing the code
  relies on: \<open>m_first\<close>, \<open>m_last\<close>, the \<open>next\<close> fields and the cache \<open>m_freed\<close> of retired nodes
  all point into it.  \<open>m_freed\<close> is the live part of the array of the same name, top first, and
  its length is \<open>m_freed_idx\<close>: the code never reads the array at or above that index.
  \<open>fresh\<close> stands for \<^verbatim>\<open>operator new\<close>: an address no node has had before.  Allocation is
  taken to succeed, as the code takes it.

  \<open>List_is l vs\<close> says that \<open>l\<close> is a well-formed list that holds the pointers \<open>vs\<close>.  The
  lemmas show which operation on \<open>vs\<close> each member function implements and under which
  condition it keeps the list well formed.
\<close>

section \<open>The data\<close>

record listobject =
  lo_next :: ptr
  lo_ptr :: ptr

record klist =
  m_first :: ptr
  m_last :: ptr
  m_size :: u32
  m_freed :: "nat list"
  nodes :: "nat \<rightharpoonup> listobject"
  fresh :: nat

definition LIST_MAX_FREED :: nat where
  "LIST_MAX_FREED = 32"

definition List_new :: klist where
  "List_new = \<lparr>m_first = nullptr, m_last = nullptr, m_size = 0, m_freed = [],
     nodes = Map.empty, fresh = 0\<rparr>"

section \<open>Reading and writing a node through a pointer\<close>

definition lo_read :: "klist \<Rightarrow> ptr \<Rightarrow> listobject option" where
  "lo_read l p = do { a \<leftarrow> p; nodes l a }"

definition get_next :: "klist \<Rightarrow> ptr \<Rightarrow> ptr option" where
  "get_next l p = do { x \<leftarrow> lo_read l p; Some (lo_next x) }"

definition get_ptr :: "klist \<Rightarrow> ptr \<Rightarrow> ptr option" where
  "get_ptr l p = do { x \<leftarrow> lo_read l p; Some (lo_ptr x) }"

definition set_next :: "ptr \<Rightarrow> ptr \<Rightarrow> klist \<Rightarrow> klist option" where
  "set_next p v l = do {
     a \<leftarrow> p;
     x \<leftarrow> nodes l a;
     Some (l\<lparr>nodes := (nodes l)(a \<mapsto> x\<lparr>lo_next := v\<rparr>)\<rparr>) }"

section \<open>The operations\<close>

text \<open>The destructor deletes the cached nodes, and no others.\<close>

definition List_destroy :: "klist \<Rightarrow> klist" where
  "List_destroy l = l\<lparr>nodes := nodes l |` (- set (m_freed l))\<rparr>"

definition List_getFree :: "ptr \<Rightarrow> klist \<Rightarrow> (ptr \<times> klist) option" where
  "List_getFree val l =
     (case m_freed l of
        a # rest \<Rightarrow> do {
          _ \<leftarrow> nodes l a;
          Some (Some a, l\<lparr>m_freed := rest,
            nodes := (nodes l)(a \<mapsto> \<lparr>lo_next = nullptr, lo_ptr = val\<rparr>)\<rparr>) }
      | [] \<Rightarrow>
          Some (Some (fresh l), l\<lparr>fresh := Suc (fresh l),
            nodes := (nodes l)(fresh l \<mapsto> \<lparr>lo_next = nullptr, lo_ptr = val\<rparr>)\<rparr>))"

definition List_free :: "ptr \<Rightarrow> klist \<Rightarrow> klist option" where
  "List_free obj l = do {
     a \<leftarrow> obj;
     _ \<leftarrow> nodes l a;
     (if length (m_freed l) + 1 \<ge> LIST_MAX_FREED
      then Some (l\<lparr>nodes := (nodes l)(a := None)\<rparr>)
      else Some (l\<lparr>m_freed := a # m_freed l\<rparr>)) }"

definition List_addFirst :: "ptr \<Rightarrow> klist \<Rightarrow> klist option" where
  "List_addFirst val l = do {
     (obj, l) \<leftarrow> List_getFree val l;
     l \<leftarrow> (if m_first l \<noteq> nullptr then set_next obj (m_first l) l
           else Some (l\<lparr>m_last := obj\<rparr>));
     Some (l\<lparr>m_first := obj, m_size := m_size l + 1\<rparr>) }"

definition List_append :: "ptr \<Rightarrow> klist \<Rightarrow> klist option" where
  "List_append val l =
     (if m_last l = nullptr then List_addFirst val l
      else do {
        (obj, l) \<leftarrow> List_getFree val l;
        l \<leftarrow> set_next (m_last l) obj l;
        Some (l\<lparr>m_last := obj, m_size := m_size l + 1\<rparr>) })"

definition List_first :: "klist \<Rightarrow> ptr option" where
  "List_first l = (if m_first l = nullptr then Some nullptr else get_ptr l (m_first l))"

definition List_last :: "klist \<Rightarrow> ptr option" where
  "List_last l = (if m_last l = nullptr then Some nullptr else get_ptr l (m_last l))"

definition List_rotateFirstLast :: "klist \<Rightarrow> klist option" where
  "List_rotateFirstLast l =
     (if m_first l = nullptr then Some l
      else if m_first l = m_last l then Some l
      else do {
        let tmp = m_first l;
        nx \<leftarrow> get_next l tmp;
        l \<leftarrow> set_next (m_last l) tmp (l\<lparr>m_first := nx\<rparr>);
        l \<leftarrow> set_next tmp nullptr l;
        Some (l\<lparr>m_last := tmp\<rparr>) })"

definition List_takeFirst :: "klist \<Rightarrow> (ptr \<times> klist) option" where
  "List_takeFirst l =
     (if m_first l = nullptr then Some (nullptr, l)
      else do {
        let tmp = m_first l;
        nx \<leftarrow> get_next l tmp;
        let l = (if nx \<noteq> nullptr then l\<lparr>m_first := nx\<rparr>
                 else l\<lparr>m_first := nullptr, m_last := nullptr\<rparr>);
        val \<leftarrow> get_ptr l tmp;
        l \<leftarrow> List_free tmp (l\<lparr>m_size := m_size l - 1\<rparr>);
        Some (val, l) })"

text \<open>
  The loop of \<^verbatim>\<open>deleteAll\<close>.  After a node is unlinked the code continues at \<^verbatim>\<open>prev->next\<close>,
  whatever \<^verbatim>\<open>prev\<close> is, and both branches then step \<^verbatim>\<open>obj\<close> once more.
\<close>

partial_function (option) List_deleteAll_loop :: "ptr \<Rightarrow> ptr \<Rightarrow> ptr \<Rightarrow> klist \<Rightarrow> klist option" where
  "List_deleteAll_loop val obj prev l =
     (if obj = nullptr then Some l
      else do {
        x \<leftarrow> lo_read l obj;
        (obj, l) \<leftarrow>
          (if lo_ptr x = val then do {
             l \<leftarrow> (if prev = nullptr then Some (l\<lparr>m_first := lo_next x\<rparr>)
                   else set_next prev (lo_next x) l);
             l \<leftarrow> (if m_last l = obj then set_next prev nullptr (l\<lparr>m_last := prev\<rparr>)
                   else Some l);
             l \<leftarrow> List_free obj (l\<lparr>m_size := m_size l - 1\<rparr>);
             obj \<leftarrow> get_next l prev;
             Some (obj, l) }
           else Some (obj, l));
        nx \<leftarrow> (if obj \<noteq> nullptr then get_next l obj else Some nullptr);
        List_deleteAll_loop val nx obj l })"

definition List_deleteAll :: "ptr \<Rightarrow> klist \<Rightarrow> klist option" where
  "List_deleteAll val l =
     (if m_first l = nullptr then Some l
      else List_deleteAll_loop val (m_first l) nullptr l)"

definition List_size :: "klist \<Rightarrow> u32" where
  "List_size l = m_size l"

definition List_begin :: "klist \<Rightarrow> ptr" where
  "List_begin l = m_first l"

definition List_next :: "klist \<Rightarrow> ptr \<Rightarrow> ptr option" where
  "List_next l iter = (if iter = nullptr then Some nullptr else get_next l iter)"

definition List_item :: "klist \<Rightarrow> ptr \<Rightarrow> ptr option" where
  "List_item l iter = (if iter = nullptr then Some nullptr else get_ptr l iter)"

text \<open>
  The loop \<^verbatim>\<open>while (c < i && obj->next != nullptr) { c++; obj = obj->next; }\<close>, with
  \<open>n\<close> the iterations \<^verbatim>\<open>i - c\<close> still allowed.
\<close>

fun List_seek :: "klist \<Rightarrow> nat \<Rightarrow> ptr \<Rightarrow> nat \<Rightarrow> (ptr \<times> nat) option" where
  "List_seek l 0 obj c = Some (obj, c)"
| "List_seek l (Suc n) obj c = do {
     nx \<leftarrow> get_next l obj;
     (if nx = nullptr then Some (obj, c) else List_seek l n nx (Suc c)) }"

definition List_at :: "u32 \<Rightarrow> klist \<Rightarrow> ptr option" where
  "List_at i l =
     (if m_first l = nullptr then Some nullptr
      else do {
        (obj, c) \<leftarrow> List_seek l (unat i) (m_first l) 0;
        (if c \<noteq> unat i then Some nullptr else get_ptr l obj) })"

definition List_appendAfter :: "u32 \<Rightarrow> ptr \<Rightarrow> klist \<Rightarrow> (bool \<times> klist) option" where
  "List_appendAfter i val l =
     (if val = nullptr then Some (False, l)
      else if m_first l = nullptr then do { l \<leftarrow> List_addFirst val l; Some (True, l) }
      else do {
        (obj, c) \<leftarrow> List_seek l (unat i) (m_first l) 0;
        (another_obj, l) \<leftarrow> List_getFree val l;
        nx \<leftarrow> get_next l obj;
        l \<leftarrow> (if nx \<noteq> nullptr then set_next another_obj nx l
              else Some (l\<lparr>m_last := another_obj\<rparr>));
        l \<leftarrow> set_next obj another_obj l;
        Some (True, l\<lparr>m_size := m_size l + 1\<rparr>) })"

definition List_addAt :: "u32 \<Rightarrow> ptr \<Rightarrow> klist \<Rightarrow> (bool \<times> klist) option" where
  "List_addAt i val l =
     (if val = nullptr then Some (False, l)
      else if m_first l = nullptr \<or> i = 0 then do { l \<leftarrow> List_addFirst val l; Some (True, l) }
      else do {
        (obj, c) \<leftarrow> List_seek l (unat i - 1) (m_first l) 0;
        (another_obj, l) \<leftarrow> List_getFree val l;
        nx \<leftarrow> get_next l obj;
        l \<leftarrow> (if nx \<noteq> nullptr then set_next another_obj nx l else Some l);
        l \<leftarrow> set_next obj another_obj l;
        Some (True, l\<lparr>m_size := m_size l + 1\<rparr>) })"

definition List_deleteAt :: "u32 \<Rightarrow> klist \<Rightarrow> (bool \<times> klist) option" where
  "List_deleteAt i l =
     (if m_first l = nullptr then Some (False, l)
      else if i = 0 then do {
        nx \<leftarrow> get_next l (m_first l);
        (if nx = nullptr
         then Some (True, l\<lparr>m_first := nullptr, m_last := nullptr, m_size := 0\<rparr>)
         else Some (True, l\<lparr>m_first := nx, m_size := m_size l - 1\<rparr>)) }
      else do {
        (obj, c) \<leftarrow> List_seek l (unat i - 1) (m_first l) 0;
        (if c + 1 \<noteq> unat i then Some (False, l)
         else do {
           nx \<leftarrow> get_next l obj;
           (if nx \<noteq> nullptr then do {
              tnx \<leftarrow> get_next l nx;
              l \<leftarrow> set_next obj tnx l;
              obj_nx \<leftarrow> get_next l obj;
              let l = (if nx = m_last l then l\<lparr>m_last := obj_nx\<rparr> else l);
              let l = (if tnx = nullptr then l\<lparr>m_last := obj\<rparr> else l);
              l \<leftarrow> List_free nx (l\<lparr>m_size := m_size l - 1\<rparr>);
              Some (True, l) }
            else do {
              l \<leftarrow> List_free obj
                (l\<lparr>m_first := nullptr, m_last := nullptr, m_size := 0\<rparr>);
              Some (True, l) }) }) })"


section \<open>What a well-formed list is\<close>

text \<open>
  \<open>lseg h p xs q\<close>: from \<open>p\<close> the \<open>next\<close> fields in \<open>h\<close> lead through the nodes \<open>xs\<close>, given as
  pairs of address and stored pointer, to \<open>q\<close>.
\<close>

fun lseg :: "(nat \<rightharpoonup> listobject) \<Rightarrow> ptr \<Rightarrow> (nat \<times> ptr) list \<Rightarrow> ptr \<Rightarrow> bool" where
  "lseg h p [] q \<longleftrightarrow> p = q"
| "lseg h p ((a, v) # xs) q \<longleftrightarrow>
     p = Some a \<and> (\<exists>n. h a = Some \<lparr>lo_next = n, lo_ptr = v\<rparr> \<and> lseg h n xs q)"

text \<open>The node cache and the allocator are consistent with the nodes \<open>A\<close> in use.\<close>

definition cache_ok :: "klist \<Rightarrow> nat set \<Rightarrow> bool" where
  "cache_ok l A \<longleftrightarrow>
     A \<subseteq> dom (nodes l) \<and> set (m_freed l) \<subseteq> dom (nodes l) \<and> A \<inter> set (m_freed l) = {} \<and>
     distinct (m_freed l) \<and> length (m_freed l) < LIST_MAX_FREED \<and>
     (\<forall>a \<in> dom (nodes l). a < fresh l)"

definition last_ptr :: "(nat \<times> ptr) list \<Rightarrow> ptr" where
  "last_ptr xs = (if xs = [] then nullptr else Some (fst (last xs)))"

definition List_rep :: "klist \<Rightarrow> (nat \<times> ptr) list \<Rightarrow> bool" where
  "List_rep l xs \<longleftrightarrow>
     lseg (nodes l) (m_first l) xs nullptr \<and> distinct (map fst xs) \<and>
     m_last l = last_ptr xs \<and> m_size l = of_nat (length xs) \<and> cache_ok l (fst ` set xs)"

definition List_is :: "klist \<Rightarrow> ptr list \<Rightarrow> bool" where
  "List_is l vs \<longleftrightarrow> (\<exists>xs. List_rep l xs \<and> map snd xs = vs)"

section \<open>Segments\<close>

lemma lseg_append:
  "lseg h p (xs @ ys) q \<longleftrightarrow> (\<exists>r. lseg h p xs r \<and> lseg h r ys q)"
  by (induction h p xs q rule: lseg.induct) auto

lemma lseg_upd [simp]:
  "a \<notin> fst ` set xs \<Longrightarrow> lseg (h(a := y)) p xs q = lseg h p xs q"
  by (induction h p xs q rule: lseg.induct) auto

lemma lseg_null: "lseg h p xs nullptr \<Longrightarrow> p = nullptr \<longleftrightarrow> xs = []"
  by (cases xs) auto

lemma lseg_head:
  "lseg h p xs q \<Longrightarrow> xs \<noteq> [] \<Longrightarrow>
   p = Some (fst (hd xs)) \<and> (\<exists>n. h (fst (hd xs)) = Some \<lparr>lo_next = n, lo_ptr = snd (hd xs)\<rparr> \<and>
     lseg h n (tl xs) q)"
  by (cases xs) auto

lemma lseg_mid:
  "lseg h p (ys @ (b, w) # zs) q \<longleftrightarrow>
     lseg h p ys (Some b) \<and> (\<exists>n. h b = Some \<lparr>lo_next = n, lo_ptr = w\<rparr> \<and> lseg h n zs q)"
  by (auto simp: lseg_append)

lemma lo_read_Some [simp]: "lo_read l (Some a) = nodes l a"
  by (simp add: lo_read_def)

lemma lo_read_null [simp]: "lo_read l nullptr = None"
  by (simp add: lo_read_def)

lemma get_next_Some [simp]: "get_next l (Some a) = map_option lo_next (nodes l a)"
  by (cases "nodes l a") (simp_all add: get_next_def)

lemma get_ptr_Some [simp]: "get_ptr l (Some a) = map_option lo_ptr (nodes l a)"
  by (cases "nodes l a") (simp_all add: get_ptr_def)

lemma get_next_null [simp]: "get_next l nullptr = None"
  by (simp add: get_next_def)

lemma set_next_null [simp]: "set_next nullptr v l = None"
  by (simp add: set_next_def)

lemma set_next_Some [simp]:
  "nodes l a = Some \<lparr>lo_next = n, lo_ptr = w\<rparr> \<Longrightarrow>
   set_next (Some a) v l = Some (l\<lparr>nodes := (nodes l)(a \<mapsto> \<lparr>lo_next = v, lo_ptr = w\<rparr>)\<rparr>)"
  by (simp add: set_next_def)

lemma klist_upd_order [store_simps]:
  "l\<lparr>nodes := h, m_last := p\<rparr> = l\<lparr>m_last := p, nodes := h\<rparr>"
  by simp

lemma last_ptr_simps [simp]:
  "last_ptr [] = nullptr"
  "last_ptr (xs @ [x]) = Some (fst x)"
  "last_ptr (xs @ y # ys) = last_ptr (y # ys)"
  "last_ptr (x # y # ys) = last_ptr (y # ys)"
  "last_ptr [x] = Some (fst x)"
  "last_ptr (x # xs @ [y]) = Some (fst y)"
  by (simp_all add: last_ptr_def)

lemma last_ptr_null: "last_ptr xs = nullptr \<longleftrightarrow> xs = []"
  by (simp add: last_ptr_def)

section \<open>The node cache\<close>

lemma cache_ok_cong:
  "cache_ok l A \<Longrightarrow> dom (nodes l') = dom (nodes l) \<Longrightarrow> m_freed l' = m_freed l \<Longrightarrow>
   fresh l' = fresh l \<Longrightarrow> B \<subseteq> A \<Longrightarrow> cache_ok l' B"
  by (auto simp: cache_ok_def)

lemma List_getFree_ok:
  assumes "cache_ok l A"
  obtains a l' where "List_getFree v l = Some (Some a, l')" "a \<notin> A"
    "nodes l' = (nodes l)(a \<mapsto> \<lparr>lo_next = nullptr, lo_ptr = v\<rparr>)"
    "m_first l' = m_first l" "m_last l' = m_last l" "m_size l' = m_size l"
    "cache_ok l' (insert a A)"
proof (cases "m_freed l")
  case Nil
  with assms have "fresh l \<notin> A"
    by (auto simp: cache_ok_def)
  with assms Nil show ?thesis
    by (intro that [of "fresh l" "l\<lparr>fresh := Suc (fresh l),
      nodes := (nodes l)(fresh l \<mapsto> \<lparr>lo_next = nullptr, lo_ptr = v\<rparr>)\<rparr>"])
       (auto simp: List_getFree_def cache_ok_def less_Suc_eq)
next
  case (Cons a rest)
  with assms show ?thesis
    by (intro that [of a "l\<lparr>m_freed := rest,
      nodes := (nodes l)(a \<mapsto> \<lparr>lo_next = nullptr, lo_ptr = v\<rparr>)\<rparr>"])
       (auto simp: List_getFree_def cache_ok_def)
qed

lemma List_free_ok:
  assumes "cache_ok l (insert a A)" "a \<notin> A"
  obtains l' where "List_free (Some a) l = Some l'" "cache_ok l' A"
    "\<And>b. b \<noteq> a \<Longrightarrow> nodes l' b = nodes l b"
    "m_first l' = m_first l" "m_last l' = m_last l" "m_size l' = m_size l"
proof (cases "length (m_freed l) + 1 \<ge> LIST_MAX_FREED")
  case True
  have "a \<notin> set (m_freed l)" "a \<in> dom (nodes l)"
    using assms by (auto simp: cache_ok_def)
  with assms True show ?thesis
    by (intro that [of "l\<lparr>nodes := (nodes l)(a := None)\<rparr>"])
       (auto simp: List_free_def cache_ok_def)
next
  case False
  with assms show ?thesis
    by (intro that [of "l\<lparr>m_freed := a # m_freed l\<rparr>"])
       (auto simp: List_free_def cache_ok_def)
qed

lemma lseg_cong:
  "(\<And>b. b \<in> fst ` set xs \<Longrightarrow> h' b = h b) \<Longrightarrow> lseg h' p xs q = lseg h p xs q"
  by (induction h p xs q rule: lseg.induct) auto


section \<open>The operations on well-formed lists\<close>

lemma List_rep_new: "List_rep List_new []"
  by (simp add: List_rep_def List_new_def cache_ok_def LIST_MAX_FREED_def)

lemma List_rep_null: "List_rep l xs \<Longrightarrow> m_first l = nullptr \<longleftrightarrow> xs = []"
  by (auto simp: List_rep_def dest: lseg_null)

lemma List_rep_last_null: "List_rep l xs \<Longrightarrow> m_last l = nullptr \<longleftrightarrow> xs = []"
  by (auto simp: List_rep_def last_ptr_null)

lemma List_rep_dom: "List_rep l xs \<Longrightarrow> fst ` set xs \<subseteq> dom (nodes l)"
  by (simp add: List_rep_def cache_ok_def)

lemma List_addFirst_rep:
  assumes "List_rep l xs"
  shows "\<exists>a l'. List_addFirst v l = Some l' \<and> List_rep l' ((a, v) # xs)"
proof -
  from assms have "cache_ok l (fst ` set xs)"
    by (simp add: List_rep_def)
  then obtain a l1 where g: "List_getFree v l = Some (Some a, l1)" and a: "a \<notin> fst ` set xs"
    and n: "nodes l1 = (nodes l)(a \<mapsto> \<lparr>lo_next = nullptr, lo_ptr = v\<rparr>)"
    and f: "m_first l1 = m_first l" "m_last l1 = m_last l" "m_size l1 = m_size l"
    and c: "cache_ok l1 (insert a (fst ` set xs))"
    by (rule List_getFree_ok)
  show ?thesis
  proof (cases xs)
    case Nil
    with assms c n f show ?thesis
      by (auto simp: List_addFirst_def g List_rep_def elim: cache_ok_cong)
  next
    case (Cons y ys)
    have "m_first l \<noteq> nullptr"
      using assms Cons List_rep_null by auto
    with assms a c n f Cons show ?thesis
      by (cases y) (auto simp: List_addFirst_def g List_rep_def elim!: cache_ok_cong)
  qed
qed

lemma List_append_rep:
  assumes "List_rep l xs"
  shows "\<exists>a l'. List_append v l = Some l' \<and> List_rep l' (xs @ [(a, v)])"
proof (cases xs rule: rev_cases)
  case Nil
  with assms List_addFirst_rep [OF assms, of v] show ?thesis
    by (auto simp: List_append_def List_rep_last_null)
next
  case (snoc ys y)
  obtain b w where y: "y = (b, w)"
    by (cases y)
  from assms have "cache_ok l (fst ` set xs)"
    by (simp add: List_rep_def)
  then obtain a l1 where g: "List_getFree v l = Some (Some a, l1)" and a: "a \<notin> fst ` set xs"
    and n: "nodes l1 = (nodes l)(a \<mapsto> \<lparr>lo_next = nullptr, lo_ptr = v\<rparr>)"
    and f: "m_first l1 = m_first l" "m_last l1 = m_last l" "m_size l1 = m_size l"
    and c: "cache_ok l1 (insert a (fst ` set xs))"
    by (rule List_getFree_ok)
  have last: "m_last l = Some b"
    using assms snoc y by (simp add: List_rep_def)
  have b: "nodes l b = Some \<lparr>lo_next = nullptr, lo_ptr = w\<rparr>" "b \<noteq> a" "b \<notin> fst ` set ys"
    using assms snoc y a by (auto simp: List_rep_def lseg_append)
  let ?l' = "l1\<lparr>nodes := (nodes l1)(b \<mapsto> \<lparr>lo_next = Some a, lo_ptr = w\<rparr>),
    m_last := Some a, m_size := m_size l1 + 1\<rparr>"
  have "List_append v l = Some ?l'"
    using n f b by (simp add: List_append_def last g)
  moreover have "cache_ok ?l' (fst ` set (xs @ [(a, v)]))"
    by (rule cache_ok_cong [OF c]) (use n b in auto)
  then have "List_rep ?l' (xs @ [(a, v)])"
    using assms snoc y a n f b by (auto simp: List_rep_def lseg_append)
  ultimately show ?thesis by blast
qed

lemma List_first_rep:
  "List_rep l xs \<Longrightarrow> List_first l = Some (if xs = [] then nullptr else snd (hd xs))"
  by (cases xs) (auto simp: List_first_def List_rep_def)

lemma List_last_rep:
  "List_rep l xs \<Longrightarrow> List_last l = Some (if xs = [] then nullptr else snd (last xs))"
  by (cases xs rule: rev_cases) (auto simp: List_last_def List_rep_def lseg_append)

lemma List_rotate_rep:
  assumes "List_rep l (x # xs)"
  shows "\<exists>l'. List_rotateFirstLast l = Some l' \<and> List_rep l' (xs @ [x])"
proof (cases xs rule: rev_cases)
  case Nil
  with assms show ?thesis
    by (cases x) (auto simp: List_rotateFirstLast_def List_rep_def)
next
  case (snoc ys y)
  obtain a v b w where x: "x = (a, v)" and y: "y = (b, w)"
    by (cases x, cases y)
  obtain n where n: "nodes l a = Some \<lparr>lo_next = n, lo_ptr = v\<rparr>"
      "lseg (nodes l) n (ys @ [(b, w)]) nullptr" "m_first l = Some a"
    and b: "nodes l b = Some \<lparr>lo_next = nullptr, lo_ptr = w\<rparr>" "m_last l = Some b"
    and d: "a \<noteq> b" "a \<notin> fst ` set ys" "b \<notin> fst ` set ys"
    using assms snoc x y by (auto simp: List_rep_def lseg_append)
  let ?l' = "l\<lparr>m_first := n, nodes := (nodes l)(b \<mapsto> \<lparr>lo_next = Some a, lo_ptr = w\<rparr>,
    a \<mapsto> \<lparr>lo_next = nullptr, lo_ptr = v\<rparr>), m_last := Some a\<rparr>"
  have "List_rotateFirstLast l = Some ?l'"
    using n b d by (simp add: List_rotateFirstLast_def Let_def)
  moreover have "dom (nodes ?l') = dom (nodes l)"
    using n b by auto
  then have "cache_ok ?l' (fst ` set (xs @ [x]))"
    using assms by (auto simp: List_rep_def elim!: cache_ok_cong)
  then have "List_rep ?l' (xs @ [x])"
    using assms snoc x y n b d by (auto simp: List_rep_def lseg_append)
  ultimately show ?thesis by blast
qed

lemma List_takeFirst_rep:
  assumes "List_rep l (x # xs)"
  shows "\<exists>l'. List_takeFirst l = Some (snd x, l') \<and> List_rep l' xs"
proof -
  obtain a v where x: "x = (a, v)"
    by (cases x)
  obtain n where n: "nodes l a = Some \<lparr>lo_next = n, lo_ptr = v\<rparr>"
      "lseg (nodes l) n xs nullptr" "m_first l = Some a" "a \<notin> fst ` set xs"
    using assms x by (auto simp: List_rep_def)
  let ?l1 = "(if n \<noteq> nullptr then l\<lparr>m_first := n\<rparr>
    else l\<lparr>m_first := nullptr, m_last := nullptr\<rparr>)\<lparr>m_size := m_size l - 1\<rparr>"
  have "cache_ok ?l1 (insert a (fst ` set xs))"
    using assms x by (auto simp: List_rep_def elim: cache_ok_cong)
  then obtain l2 where f: "List_free (Some a) ?l1 = Some l2"
    and l2: "cache_ok l2 (fst ` set xs)" "\<And>b. b \<noteq> a \<Longrightarrow> nodes l2 b = nodes ?l1 b"
      "m_first l2 = m_first ?l1" "m_last l2 = m_last ?l1" "m_size l2 = m_size ?l1"
    using n by (elim List_free_ok) auto
  have "nodes l2 b = nodes l b" if "b \<noteq> a" for b
    using l2(2) [OF that] by simp
  then have "lseg (nodes l2) n xs nullptr = lseg (nodes l) n xs nullptr"
    using n(4) by (intro lseg_cong) metis
  then have "List_rep l2 xs"
    using assms x n l2(1,3-) by (cases xs) (auto simp: List_rep_def)
  then show ?thesis
    using f n x by (auto simp: List_takeFirst_def Let_def split: if_splits)
qed


text \<open>The counted walk stops at the wanted position or at the last node.\<close>

lemma List_seek_lseg:
  "lseg (nodes l) p xs nullptr \<Longrightarrow> xs \<noteq> [] \<Longrightarrow>
   List_seek l n p c = Some (Some (fst (xs ! min n (length xs - 1))), c + min n (length xs - 1))"
proof (induction l n p c arbitrary: xs rule: List_seek.induct)
  case (1 l obj c)
  then show ?case by (cases xs) auto
next
  case (2 l n obj c)
  obtain a v ys where xs: "xs = (a, v) # ys"
    using "2.prems"(2) by (cases xs) auto
  obtain m where m: "obj = Some a" "nodes l a = Some \<lparr>lo_next = m, lo_ptr = v\<rparr>"
      "lseg (nodes l) m ys nullptr"
    using "2.prems"(1) xs by auto
  show ?case
  proof (cases "ys = []")
    case True
    with m xs show ?thesis by simp
  next
    case False
    moreover from this m(3) have "m \<noteq> nullptr"
      by (simp add: lseg_null)
    ultimately have "List_seek l n m (Suc c) =
        Some (Some (fst (ys ! min n (length ys - 1))), Suc c + min n (length ys - 1))"
      using m by (intro "2.IH") auto
    moreover have "min (Suc n) (length xs - 1) = Suc (min n (length ys - 1))"
      using False xs by (cases ys) auto
    ultimately show ?thesis
      using m xs \<open>m \<noteq> nullptr\<close> by simp
  qed
qed

lemma List_seek_rep:
  "List_rep l xs \<Longrightarrow> xs \<noteq> [] \<Longrightarrow>
   List_seek l n (m_first l) 0 =
     Some (Some (fst (xs ! min n (length xs - 1))), min n (length xs - 1))"
  using List_seek_lseg [of l "m_first l" xs n 0] by (simp add: List_rep_def)

text \<open>A well-formed list, seen from the node at position \<open>k\<close>.\<close>

lemma List_rep_split:
  assumes "List_rep l xs" "k < length xs"
  obtains ys b w zs n where "xs = ys @ (b, w) # zs" "length ys = k"
    "nodes l b = Some \<lparr>lo_next = n, lo_ptr = w\<rparr>" "n = nullptr \<longleftrightarrow> zs = []"
    "lseg (nodes l) (m_first l) ys (Some b)" "lseg (nodes l) n zs nullptr"
proof -
  have xs: "xs = take k xs @ (fst (xs ! k), snd (xs ! k)) # drop (Suc k) xs"
    using assms(2) by (simp add: id_take_nth_drop [symmetric])
  moreover from this assms(1) obtain n
    where "nodes l (fst (xs ! k)) = Some \<lparr>lo_next = n, lo_ptr = snd (xs ! k)\<rparr>"
      "lseg (nodes l) (m_first l) (take k xs) (Some (fst (xs ! k)))"
      "lseg (nodes l) n (drop (Suc k) xs) nullptr"
    unfolding List_rep_def by (metis lseg_mid)
  moreover from this have "n = nullptr \<longleftrightarrow> drop (Suc k) xs = []"
    by (intro lseg_null)
  moreover have "length (take k xs) = k"
    using assms(2) by simp
  ultimately show ?thesis
    using that by blast
qed

lemma List_at_rep:
  assumes "List_rep l xs"
  shows "List_at i l = Some (if unat i < length xs then snd (xs ! unat i) else nullptr)"
proof (cases "xs = []")
  case True
  with assms show ?thesis by (simp add: List_at_def List_rep_def)
next
  case False
  let ?k = "min (unat i) (length xs - 1)"
  have "?k < length xs"
    using False by (cases xs) auto
  with assms obtain ys b w zs n where "xs = ys @ (b, w) # zs" "length ys = ?k"
    and n: "nodes l b = Some \<lparr>lo_next = n, lo_ptr = w\<rparr>"
    by (rule List_rep_split)
  then have "xs ! ?k = (b, w)"
    by (metis nth_append_length)
  moreover have "List_at i l = (if ?k \<noteq> unat i then Some nullptr else get_ptr l (Some (fst (xs ! ?k))))"
    using assms False by (simp add: List_at_def List_seek_rep List_rep_null)
  ultimately show ?thesis
    using False n by (auto simp: min_def split: if_splits)
qed

text \<open>Linking a new node \<open>a\<close> behind the node \<open>b\<close>.\<close>

lemma List_link_after_rep:
  assumes rep: "List_rep l (ys @ (b, w) # zs)"
    and l1: "nodes l1 = (nodes l)(a \<mapsto> x)" "a \<notin> fst ` set (ys @ (b, w) # zs)"
      "cache_ok l1 (insert a (fst ` set (ys @ (b, w) # zs)))"
    and b: "nodes l b = Some \<lparr>lo_next = n, lo_ptr = w\<rparr>"
    and l': "nodes l' = (nodes l1)(a \<mapsto> \<lparr>lo_next = n, lo_ptr = v\<rparr>,
        b \<mapsto> \<lparr>lo_next = Some a, lo_ptr = w\<rparr>)"
      "m_first l' = m_first l" "m_freed l' = m_freed l1" "fresh l' = fresh l1"
      "m_last l' = last_ptr ((a, v) # zs)" "m_size l' = m_size l + 1"
  shows "List_rep l' (ys @ (b, w) # (a, v) # zs)"
proof -
  have "dom (nodes l') = dom (nodes l1)"
    using l'(1) l1(1) b by auto
  then have "cache_ok l' (fst ` set (ys @ (b, w) # (a, v) # zs))"
    using l1(3) l' by (elim cache_ok_cong) auto
  then show ?thesis
    using rep l1 b l' by (auto simp: List_rep_def lseg_mid image_Un)
qed

lemma insert_at_split: "insert_at (Suc (length ys)) x (ys @ y # zs) = ys @ y # x # zs"
  by (simp add: insert_at_def)

lemma List_appendAfter_rep:
  assumes rep: "List_rep l xs" and "v \<noteq> nullptr" "xs \<noteq> []"
  shows "\<exists>a l'. List_appendAfter i v l = Some (True, l') \<and>
    List_rep l' (insert_at (Suc (min (unat i) (length xs - 1))) (a, v) xs)"
proof -
  let ?k = "min (unat i) (length xs - 1)"
  have k: "?k < length xs"
    using assms(3) by (cases xs) auto
  from rep k obtain ys b w zs n where xs: "xs = ys @ (b, w) # zs" and ys: "length ys = ?k"
    and n: "nodes l b = Some \<lparr>lo_next = n, lo_ptr = w\<rparr>" "n = nullptr \<longleftrightarrow> zs = []"
    by (rule List_rep_split)
  from rep have "cache_ok l (fst ` set xs)"
    by (simp add: List_rep_def)
  then obtain a l1 where g: "List_getFree v l = Some (Some a, l1)" and a: "a \<notin> fst ` set xs"
    and l1: "nodes l1 = (nodes l)(a \<mapsto> \<lparr>lo_next = nullptr, lo_ptr = v\<rparr>)"
      "m_first l1 = m_first l" "m_last l1 = m_last l" "m_size l1 = m_size l"
      "cache_ok l1 (insert a (fst ` set xs))"
    by (rule List_getFree_ok)
  let ?l2 = "if n \<noteq> nullptr
    then l1\<lparr>nodes := (nodes l1)(a \<mapsto> \<lparr>lo_next = n, lo_ptr = v\<rparr>)\<rparr> else l1\<lparr>m_last := Some a\<rparr>"
  let ?l' = "?l2\<lparr>nodes := (nodes ?l2)(b \<mapsto> \<lparr>lo_next = Some a, lo_ptr = w\<rparr>),
    m_size := m_size l1 + 1\<rparr>"
  have "xs ! ?k = (b, w)"
    using xs ys by (metis nth_append_length)
  then have "List_appendAfter i v l = Some (True, ?l')"
    using rep assms(2,3) g n l1 a xs
    by (cases "n = nullptr") (simp_all add: List_appendAfter_def List_rep_null List_seek_rep)
  moreover have "m_last ?l' = last_ptr ((a, v) # zs)"
    using rep xs l1 n(2) by (cases zs) (auto simp: List_rep_def)
  then have "List_rep ?l' (ys @ (b, w) # (a, v) # zs)"
    using rep l1 a n xs
    by (intro List_link_after_rep [where l = l and ?l1.0 = l1 and n = n]) auto
  ultimately show ?thesis
    using xs ys by (metis insert_at_split)
qed

lemma List_addAt_rep:
  assumes rep: "List_rep l xs" and "v \<noteq> nullptr" "0 < unat i" "unat i < length xs"
  shows "\<exists>a l'. List_addAt i v l = Some (True, l') \<and> List_rep l' (insert_at (unat i) (a, v) xs)"
proof -
  let ?k = "unat i - 1"
  have k: "?k < length xs"
    using assms by simp
  from rep k obtain ys b w zs n where xs: "xs = ys @ (b, w) # zs" and ys: "length ys = ?k"
    and n: "nodes l b = Some \<lparr>lo_next = n, lo_ptr = w\<rparr>" "n = nullptr \<longleftrightarrow> zs = []"
    by (rule List_rep_split)
  from rep have "cache_ok l (fst ` set xs)"
    by (simp add: List_rep_def)
  then obtain a l1 where g: "List_getFree v l = Some (Some a, l1)" and a: "a \<notin> fst ` set xs"
    and l1: "nodes l1 = (nodes l)(a \<mapsto> \<lparr>lo_next = nullptr, lo_ptr = v\<rparr>)"
      "m_first l1 = m_first l" "m_last l1 = m_last l" "m_size l1 = m_size l"
      "cache_ok l1 (insert a (fst ` set xs))"
    by (rule List_getFree_ok)
  have zs: "zs \<noteq> []"
    using assms(3,4) xs ys by (cases zs) auto
  let ?l' = "l1\<lparr>nodes := (nodes l1)(a \<mapsto> \<lparr>lo_next = n, lo_ptr = v\<rparr>,
    b \<mapsto> \<lparr>lo_next = Some a, lo_ptr = w\<rparr>), m_size := m_size l1 + 1\<rparr>"
  have "min (unat i - 1) (length xs - 1) = ?k" "xs \<noteq> []" "i \<noteq> 0"
    using assms by auto
  moreover have "xs ! ?k = (b, w)"
    using xs ys by (metis nth_append_length)
  ultimately have "List_addAt i v l = Some (True, ?l')"
    using rep assms(2) g n l1 a xs zs
    by (simp add: List_addAt_def List_rep_null List_seek_rep del: min_diff)
  moreover have "m_last ?l' = last_ptr ((a, v) # zs)"
    using rep xs l1 zs by (cases zs) (auto simp: List_rep_def)
  then have "List_rep ?l' (ys @ (b, w) # (a, v) # zs)"
    using rep l1 a n xs
    by (intro List_link_after_rep [where l = l and ?l1.0 = l1 and n = n]) auto
  moreover have "unat i = Suc (length ys)"
    using assms(3) ys by simp
  ultimately show ?thesis
    using xs by (metis insert_at_split)
qed


text \<open>Unlinking the node \<open>a\<close> behind \<open>b\<close> and retiring it.\<close>

lemma List_unlink_rep:
  assumes rep: "List_rep l (ys @ (b, w) # (a, v) # zs)"
    and a: "nodes l a = Some \<lparr>lo_next = n, lo_ptr = v\<rparr>"
    and l1: "nodes l1 = (nodes l)(b \<mapsto> \<lparr>lo_next = n, lo_ptr = w\<rparr>)" "m_first l1 = m_first l"
      "m_last l1 = last_ptr ((b, w) # zs)" "m_size l1 = m_size l - 1"
      "m_freed l1 = m_freed l" "fresh l1 = fresh l"
  shows "\<exists>l'. List_free (Some a) l1 = Some l' \<and> List_rep l' (ys @ (b, w) # zs) \<and>
    nodes l' b = Some \<lparr>lo_next = n, lo_ptr = w\<rparr>"
proof -
  let ?A = "fst ` set (ys @ (b, w) # zs)"
  have seg: "lseg (nodes l) (m_first l) ys (Some b)" "lseg (nodes l) n zs nullptr"
    and b: "\<exists>m. nodes l b = Some \<lparr>lo_next = m, lo_ptr = w\<rparr>"
    and d: "distinct (map fst (ys @ (b, w) # (a, v) # zs))" and c: "cache_ok l (insert a ?A)"
    and sz: "m_size l = of_nat (length ys + length zs + 2)"
    using rep a by (auto simp: List_rep_def lseg_mid insert_commute)
  have "dom (nodes l1) = dom (nodes l)"
    using l1(1) b by auto
  then have "cache_ok l1 (insert a ?A)"
    using c l1 by (elim cache_ok_cong) auto
  then obtain l' where f: "List_free (Some a) l1 = Some l'"
    and l': "cache_ok l' ?A" "\<And>x. x \<noteq> a \<Longrightarrow> nodes l' x = nodes l1 x"
      "m_first l' = m_first l1" "m_last l' = m_last l1" "m_size l' = m_size l1"
    using d by (elim List_free_ok) auto
  have n: "nodes l' x = nodes l x" if "x \<noteq> a" "x \<noteq> b" for x
    using l'(2) l1(1) that by simp
  have "lseg (nodes l') (m_first l) ys (Some b) = lseg (nodes l) (m_first l) ys (Some b)"
    "lseg (nodes l') n zs nullptr = lseg (nodes l) n zs nullptr"
    using d by (auto intro!: lseg_cong n)
  moreover have nb: "nodes l' b = Some \<lparr>lo_next = n, lo_ptr = w\<rparr>"
    using l'(2) [of b] l1(1) d by auto
  ultimately have "List_rep l' (ys @ (b, w) # zs)"
    using seg d l'(1,3-) l1 sz by (auto simp: List_rep_def lseg_mid)
  with f nb show ?thesis by blast
qed

lemma List_unlink_node:
  assumes rep: "List_rep l (ys @ (b, w) # (a, v) # zs)"
    and a: "nodes l a = Some \<lparr>lo_next = n, lo_ptr = v\<rparr>"
  obtains l' where
    "List_free (Some a) ((if zs = [] then l\<lparr>m_last := Some b\<rparr> else l)
       \<lparr>nodes := (nodes l)(b \<mapsto> \<lparr>lo_next = n, lo_ptr = w\<rparr>), m_size := m_size l - 1\<rparr>) = Some l'"
    "List_rep l' (ys @ (b, w) # zs)" "nodes l' b = Some \<lparr>lo_next = n, lo_ptr = w\<rparr>"
    "m_last l = Some a \<longleftrightarrow> zs = []" "n = nullptr \<longleftrightarrow> zs = []" "a \<noteq> b"
    "nodes l b = Some \<lparr>lo_next = Some a, lo_ptr = w\<rparr>"
proof -
  let ?l1 = "(if zs = [] then l\<lparr>m_last := Some b\<rparr> else l)
    \<lparr>nodes := (nodes l)(b \<mapsto> \<lparr>lo_next = n, lo_ptr = w\<rparr>), m_size := m_size l - 1\<rparr>"
  have last: "m_last l = last_ptr ((a, v) # zs)" and d: "a \<notin> fst ` set zs" "a \<noteq> b"
    and n: "lseg (nodes l) n zs nullptr" "nodes l b = Some \<lparr>lo_next = Some a, lo_ptr = w\<rparr>"
    using rep a by (auto simp: List_rep_def lseg_mid)
  have "m_last ?l1 = last_ptr ((b, w) # zs)"
    using last by (cases zs) auto
  then have "\<exists>l'. List_free (Some a) ?l1 = Some l' \<and> List_rep l' (ys @ (b, w) # zs) \<and>
      nodes l' b = Some \<lparr>lo_next = n, lo_ptr = w\<rparr>"
    using List_unlink_rep [of l ys b w a v zs n ?l1] rep a by (cases zs) auto
  moreover have "m_last l = Some a \<longleftrightarrow> zs = []"
    using last d by (auto simp: last_ptr_def split: if_splits dest!: last_in_set)
  ultimately show ?thesis
    using that lseg_null [OF n(1)] n d by blast
qed

lemma remove_at_split: "remove_at (Suc (length ys)) (ys @ y # x # zs) = ys @ y # zs"
  by (simp add: remove_at_def)

lemma List_deleteAt_0_rep:
  assumes "List_rep l (x # xs)"
  shows "\<exists>l'. List_deleteAt 0 l = Some (True, l') \<and> List_rep l' xs"
proof -
  obtain a v where x: "x = (a, v)"
    by (cases x)
  with assms obtain n where n: "m_first l = Some a" "nodes l a = Some \<lparr>lo_next = n, lo_ptr = v\<rparr>"
      "lseg (nodes l) n xs nullptr"
    by (auto simp: List_rep_def)
  show ?thesis
  proof (cases "xs = []")
    case True
    then have "n = nullptr" using n by simp
    with True assms x n show ?thesis
      by (auto simp: List_deleteAt_def List_rep_def elim!: cache_ok_cong)
  next
    case False
    then have "n \<noteq> nullptr" using n by (simp add: lseg_null)
    with False assms x n show ?thesis
      by (cases xs) (auto simp: List_deleteAt_def List_rep_def elim!: cache_ok_cong)
  qed
qed

lemma List_deleteAt_rep:
  assumes rep: "List_rep l xs" and i: "0 < unat i" "unat i < length xs"
  shows "\<exists>l'. List_deleteAt i l = Some (True, l') \<and> List_rep l' (remove_at (unat i) xs)"
proof -
  let ?k = "unat i - 1"
  have k: "?k < length xs"
    using i by simp
  from rep k obtain ys b w zs' n where xs': "xs = ys @ (b, w) # zs'" and ys: "length ys = ?k"
    and n: "nodes l b = Some \<lparr>lo_next = n, lo_ptr = w\<rparr>" "lseg (nodes l) n zs' nullptr"
    by (rule List_rep_split)
  then obtain a v zs where zs': "zs' = (a, v) # zs"
    using i by (cases zs') auto
  then have xs: "xs = ys @ (b, w) # (a, v) # zs"
    using xs' by simp
  from n zs' obtain m where na: "n = Some a" and m: "nodes l a = Some \<lparr>lo_next = m, lo_ptr = v\<rparr>"
      "lseg (nodes l) m zs nullptr"
    by auto
  from rep [unfolded xs] m(1) obtain l' where
    l': "List_free (Some a) ((if zs = [] then l\<lparr>m_last := Some b\<rparr> else l)
       \<lparr>nodes := (nodes l)(b \<mapsto> \<lparr>lo_next = m, lo_ptr = w\<rparr>), m_size := m_size l - 1\<rparr>) = Some l'"
      "List_rep l' (ys @ (b, w) # zs)" "m_last l = Some a \<longleftrightarrow> zs = []" "m = nullptr \<longleftrightarrow> zs = []"
      "a \<noteq> b"
    by (rule List_unlink_node)
  have "min ?k (length xs - 1) = ?k" "xs \<noteq> []" "i \<noteq> 0" "Suc ?k = unat i"
    using i by auto
  moreover have "xs ! ?k = (b, w)"
    using xs ys by (metis nth_append_length)
  ultimately have "List_deleteAt i l = Some (True, l')"
    using rep n na m l'
    by (cases "zs = []") (auto simp: List_deleteAt_def List_rep_null List_seek_rep Let_def
        store_simps simp del: min_diff)
  moreover have "unat i = Suc (length ys)"
    using i ys by simp
  ultimately show ?thesis
    using l' xs by (metis remove_at_split)
qed


text \<open>
  What \<^verbatim>\<open>deleteAll\<close> does behind a kept node: an element is dropped when it matches, and the
  element after a dropped one is kept without being looked at.
\<close>

fun deleteAll_behind :: "('a \<Rightarrow> bool) \<Rightarrow> 'a list \<Rightarrow> 'a list" where
  "deleteAll_behind P [] = []"
| "deleteAll_behind P [x] = (if P x then [] else [x])"
| "deleteAll_behind P (x # y # xs) =
     (if P x then y # deleteAll_behind P xs else x # deleteAll_behind P (y # xs))"

lemma deleteAll_behind_filter:
  "successively (\<lambda>x y. \<not> (P x \<and> P y)) xs \<Longrightarrow> deleteAll_behind P xs = filter (\<lambda>x. \<not> P x) xs"
  by (induction P xs rule: deleteAll_behind.induct) (auto simp: successively_Cons split: list.splits)

lemma map_deleteAll_behind:
  "map f (deleteAll_behind (\<lambda>x. P (f x)) xs) = deleteAll_behind P (map f xs)"
  by (induction "\<lambda>x. P (f x)" xs rule: deleteAll_behind.induct) auto

lemma List_deleteAll_loop_rep:
  assumes "List_rep l (ys @ (b, w) # zs)" "nodes l b = Some \<lparr>lo_next = n, lo_ptr = w\<rparr>"
  shows "\<exists>l'. List_deleteAll_loop val n (Some b) l = Some l' \<and>
    List_rep l' (ys @ (b, w) # deleteAll_behind (\<lambda>x. snd x = val) zs)"
  using assms
proof (induction "length zs" arbitrary: ys b w zs n l rule: less_induct)
  case less
  show ?case
  proof (cases zs)
    case Nil
    with less.prems have "n = nullptr" by (auto simp: List_rep_def lseg_mid)
    with Nil less.prems show ?thesis
      by (subst List_deleteAll_loop.simps) simp
  next
    case (Cons z zs')
    obtain a u where z: "z = (a, u)" by (cases z)
    obtain m where n: "n = Some a" and m: "nodes l a = Some \<lparr>lo_next = m, lo_ptr = u\<rparr>"
        "lseg (nodes l) m zs' nullptr"
      using less.prems Cons z by (auto simp: List_rep_def lseg_mid)
    show ?thesis
    proof (cases "u = val")
      case False
      have "\<exists>l'. List_deleteAll_loop val m (Some a) l = Some l' \<and>
          List_rep l' ((ys @ [(b, w)]) @ (a, u) # deleteAll_behind (\<lambda>x. snd x = val) zs')"
        by (rule less.hyps) (use less.prems Cons z m in auto)
      then obtain l' where l': "List_deleteAll_loop val m (Some a) l = Some l'"
          "List_rep l' (ys @ (b, w) # (a, u) # deleteAll_behind (\<lambda>x. snd x = val) zs')"
        by auto
      have "List_deleteAll_loop val n (Some b) l = Some l'"
        using n m l' False by (subst List_deleteAll_loop.simps) simp
      moreover have "deleteAll_behind (\<lambda>x. snd x = val) zs =
          (a, u) # deleteAll_behind (\<lambda>x. snd x = val) zs'"
        using Cons z False by (cases zs') auto
      ultimately show ?thesis using l' by auto
    next
      case True
      from less.prems(1) [unfolded Cons z] m(1) obtain l2 where
        l2: "List_free (Some a) ((if zs' = [] then l\<lparr>m_last := Some b\<rparr> else l)
           \<lparr>nodes := (nodes l)(b \<mapsto> \<lparr>lo_next = m, lo_ptr = w\<rparr>), m_size := m_size l - 1\<rparr>) = Some l2"
          "List_rep l2 (ys @ (b, w) # zs')" "nodes l2 b = Some \<lparr>lo_next = m, lo_ptr = w\<rparr>"
          "m_last l = Some a \<longleftrightarrow> zs' = []" "m = nullptr \<longleftrightarrow> zs' = []"
        by (rule List_unlink_node)
      have step: "List_deleteAll_loop val n (Some b) l =
          do { nx \<leftarrow> (if m \<noteq> nullptr then get_next l2 m else Some nullptr);
               List_deleteAll_loop val nx m l2 }"
        using n m l2 True less.prems(2)
        by (subst List_deleteAll_loop.simps) (cases "zs' = []"; simp)
      show ?thesis
      proof (cases zs')
        case Nil
        with m l2 step Cons z True show ?thesis
          by (simp add: List_deleteAll_loop.simps)
      next
        fix y zs'' assume zs': "zs' = y # zs''"
        obtain c x where y: "y = (c, x)" by (cases y)
        obtain k where mc: "m = Some c" and k: "nodes l2 c = Some \<lparr>lo_next = k, lo_ptr = x\<rparr>"
          using l2(2,3) zs' y by (auto simp: List_rep_def lseg_mid)
        have "\<exists>l'. List_deleteAll_loop val k (Some c) l2 = Some l' \<and>
            List_rep l' ((ys @ [(b, w)]) @ (c, x) # deleteAll_behind (\<lambda>x. snd x = val) zs'')"
          by (rule less.hyps) (use l2 Cons zs' y k in auto)
        with step mc k z True Cons zs' y show ?thesis by auto
      qed
    qed
  qed
qed


section \<open>The operations, seen from outside\<close>

lemma List_isI [rep_intros]: "List_rep l xs \<Longrightarrow> map snd xs = vs \<Longrightarrow> List_is l vs"
  by (auto simp: List_is_def)

lemma List_is_new: "List_is List_new []"
  using List_rep_new by (auto simp: List_is_def)

lemma List_is_addFirst:
  "List_is l vs \<Longrightarrow> \<exists>l'. List_addFirst v l = Some l' \<and> List_is l' (v # vs)"
  unfolding List_is_def using List_addFirst_rep by fastforce

lemma List_is_append:
  "List_is l vs \<Longrightarrow> \<exists>l'. List_append v l = Some l' \<and> List_is l' (vs @ [v])"
  unfolding List_is_def using List_append_rep by fastforce

lemma List_is_first:
  "List_is l vs \<Longrightarrow> List_first l = Some (if vs = [] then nullptr else hd vs)"
  unfolding List_is_def by (cases vs) (auto simp: List_first_rep hd_map)

lemma List_is_last:
  "List_is l vs \<Longrightarrow> List_last l = Some (if vs = [] then nullptr else last vs)"
  unfolding List_is_def by (cases vs rule: rev_cases) (auto simp: List_last_rep map_eq_append_conv)

lemma List_is_takeFirst:
  "List_is l (v # vs) \<Longrightarrow> \<exists>l'. List_takeFirst l = Some (v, l') \<and> List_is l' vs"
  unfolding List_is_def using List_takeFirst_rep by (fastforce simp: Cons_eq_map_conv)

lemma List_is_takeFirst_empty:
  "List_is l [] \<Longrightarrow> List_takeFirst l = Some (nullptr, l)"
  by (auto simp: List_is_def List_takeFirst_def List_rep_null)

lemma List_is_rotate:
  "List_is l vs \<Longrightarrow> \<exists>l'. List_rotateFirstLast l = Some l' \<and> List_is l' (rotate1 vs)"
proof (cases vs)
  case Nil
  moreover assume "List_is l vs"
  ultimately show ?thesis
    by (auto simp: List_is_def List_rotateFirstLast_def List_rep_null)
next
  case (Cons v vs')
  moreover assume "List_is l vs"
  ultimately obtain x xs where "List_rep l (x # xs)" "map snd (x # xs) = v # vs'"
    by (auto simp: List_is_def Cons_eq_map_conv)
  with List_rotate_rep [of l x xs] Cons show ?thesis
    by (fastforce simp: List_is_def)
qed

lemma List_is_size: "List_is l vs \<Longrightarrow> List_size l = of_nat (length vs)"
  by (auto simp: List_is_def List_rep_def List_size_def)

lemma List_is_at:
  "List_is l vs \<Longrightarrow> List_at i l = Some (if unat i < length vs then vs ! unat i else nullptr)"
  by (auto simp: List_is_def List_at_rep)

lemma List_is_appendAfter:
  assumes "List_is l vs" "v \<noteq> nullptr" "vs \<noteq> []"
  shows "\<exists>l'. List_appendAfter i v l = Some (True, l') \<and>
    List_is l' (insert_at (Suc (min (unat i) (length vs - 1))) v vs)"
proof -
  obtain xs where xs: "List_rep l xs" "map snd xs = vs" "xs \<noteq> []"
    using assms by (auto simp: List_is_def)
  then obtain a l' where l': "List_appendAfter i v l = Some (True, l')"
      "List_rep l' (insert_at (Suc (min (unat i) (length xs - 1))) (a, v) xs)"
    using List_appendAfter_rep assms(2) by blast
  have "List_is l' (insert_at (Suc (min (unat i) (length vs - 1))) v vs)"
    using l'(2) xs by (intro List_isI) (auto simp: map_insert_at)
  with l'(1) show ?thesis by blast
qed

lemma List_is_addAt:
  assumes "List_is l vs" "v \<noteq> nullptr" "unat i < length vs"
  shows "\<exists>l'. List_addAt i v l = Some (True, l') \<and> List_is l' (insert_at (unat i) v vs)"
proof (cases "i = 0")
  case True
  with assms List_is_addFirst [OF assms(1), of v] show ?thesis
    by (auto simp: List_addAt_def)
next
  case False
  then have "0 < unat i"
    by (simp add: unat_gt_0)
  moreover obtain xs where xs: "List_rep l xs" "map snd xs = vs"
    using assms by (auto simp: List_is_def)
  ultimately obtain a l' where l': "List_addAt i v l = Some (True, l')"
      "List_rep l' (insert_at (unat i) (a, v) xs)"
    using List_addAt_rep assms(2,3) by (metis length_map)
  have "List_is l' (insert_at (unat i) v vs)"
    using l'(2) xs by (intro List_isI) (auto simp: map_insert_at)
  with l'(1) show ?thesis by blast
qed

lemma List_is_deleteAt:
  assumes "List_is l vs" "unat i < length vs"
  shows "\<exists>l'. List_deleteAt i l = Some (True, l') \<and> List_is l' (remove_at (unat i) vs)"
proof (cases "i = 0")
  case True
  with assms obtain x xs where "List_rep l (x # xs)" "map snd (x # xs) = vs"
    by (cases vs) (auto simp: List_is_def Cons_eq_map_conv)
  with True List_deleteAt_0_rep show ?thesis
    by (fastforce simp: List_is_def)
next
  case False
  then have "0 < unat i"
    by (simp add: unat_gt_0)
  moreover obtain xs where xs: "List_rep l xs" "map snd xs = vs"
    using assms by (auto simp: List_is_def)
  ultimately obtain l' where l': "List_deleteAt i l = Some (True, l')"
      "List_rep l' (remove_at (unat i) xs)"
    using List_deleteAt_rep assms(2) by (metis length_map)
  have "List_is l' (remove_at (unat i) vs)"
    using l'(2) xs by (intro List_isI) (auto simp: map_remove_at)
  with l'(1) show ?thesis by blast
qed

lemma List_is_deleteAll:
  assumes "List_is l (v # vs)" "v \<noteq> val"
  shows "\<exists>l'. List_deleteAll val l = Some l' \<and>
    List_is l' (v # deleteAll_behind (\<lambda>x. x = val) vs)"
proof -
  obtain a xs where rep: "List_rep l ((a, v) # xs)" and vs: "map snd xs = vs"
    using assms(1) by (auto simp: List_is_def Cons_eq_map_conv)
  obtain n where n: "m_first l = Some a" "nodes l a = Some \<lparr>lo_next = n, lo_ptr = v\<rparr>"
    using rep by (auto simp: List_rep_def)
  obtain l' where l': "List_deleteAll_loop val n (Some a) l = Some l'"
      "List_rep l' ((a, v) # deleteAll_behind (\<lambda>x. snd x = val) xs)"
    using List_deleteAll_loop_rep [of l "[]" a v xs n val] rep n by auto
  have "List_deleteAll val l = Some l'"
    using n l' assms(2) by (simp add: List_deleteAll_def List_deleteAll_loop.simps [of val "Some a"])
  moreover have "map snd ((a, v) # deleteAll_behind (\<lambda>x. snd x = val) xs) =
      v # deleteAll_behind (\<lambda>x. x = val) vs"
    using map_deleteAll_behind [of snd "\<lambda>x. x = val" xs] vs by simp
  ultimately show ?thesis
    using l' by (auto simp: List_is_def)
qed

text \<open>A list with given contents, built by appending.\<close>

definition klist_from :: "ptr list \<Rightarrow> klist" where
  "klist_from vs = foldl (\<lambda>l v. the (List_append v l)) List_new vs"

lemma List_is_klist_from: "List_is (klist_from vs) vs"
proof (induction vs rule: rev_induct)
  case Nil
  show ?case by (simp add: klist_from_def List_is_new)
next
  case (snoc v vs)
  then show ?case
    using List_is_append [of "klist_from vs" vs v] by (auto simp: klist_from_def)
qed

section \<open>The interface the users of a list rely on\<close>

text \<open>
  The shape of every lookup loop of \<^verbatim>\<open>src/fs/filesystem.cpp\<close>,
  \<^verbatim>\<open>for (i = 0; i < size(); ++i) { tmp = at(i); if (...) return ...; }\<close>:
  the first index and element that satisfy the test, with \<open>n\<close> iterations left.
\<close>

fun search_loop :: "(u32 \<Rightarrow> ptr option) \<Rightarrow> (ptr \<Rightarrow> bool option) \<Rightarrow> nat \<Rightarrow> u32 \<Rightarrow>
    (u32 \<times> ptr) option option" where
  "search_loop get P 0 i = Some None"
| "search_loop get P (Suc n) i = do {
     tmp \<leftarrow> get i;
     hit \<leftarrow> P tmp;
     (if hit then Some (Some (i, tmp)) else search_loop get P n (i + 1)) }"

locale pointer_sequence =
  fixes is_seq :: "'s \<Rightarrow> ptr list \<Rightarrow> bool"
    and append_s :: "ptr \<Rightarrow> 's \<Rightarrow> 's option"
    and size_s :: "'s \<Rightarrow> u32"
    and at_s :: "u32 \<Rightarrow> 's \<Rightarrow> ptr option"
    and remove_s :: "u32 \<Rightarrow> 's \<Rightarrow> (bool \<times> 's) option"
  assumes is_append: "is_seq s vs \<Longrightarrow> \<exists>s'. append_s v s = Some s' \<and> is_seq s' (vs @ [v])"
    and size_is: "is_seq s vs \<Longrightarrow> size_s s = of_nat (length vs)"
    and at_is: "is_seq s vs \<Longrightarrow>
      at_s i s = Some (if unat i < length vs then vs ! unat i else nullptr)"
    and remove_is: "is_seq s vs \<Longrightarrow> unat i < length vs \<Longrightarrow>
      \<exists>s'. remove_s i s = Some (True, s') \<and> is_seq s' (remove_at (unat i) vs)"
begin

lemma search_from:
  assumes "is_seq s vs" "length vs < 2 ^ 32" "\<And>v. v \<in> set vs \<Longrightarrow> P v = Some (Q v)"
  shows "k + n = length vs \<Longrightarrow> (\<forall>v \<in> set (take k vs). \<not> Q v) \<Longrightarrow>
    search_loop (\<lambda>i. at_s i s) P n (of_nat k) =
      (let j = length (takeWhile (\<lambda>v. \<not> Q v) vs)
       in Some (if j < length vs then Some (of_nat j, vs ! j) else None))"
proof (induction n arbitrary: k)
  case 0
  then have "takeWhile (\<lambda>v. \<not> Q v) vs = vs"
    by (simp add: takeWhile_eq_all_conv)
  then show ?case unfolding Let_def by (simp only: less_irrefl search_loop.simps if_False)
next
  case (Suc n)
  then have k: "k < length vs" by simp
  then have "unat (of_nat k :: u32) = k"
    using assms(2) by (intro unat_of_nat_u32) simp
  then have at: "at_s (of_nat k) s = Some (vs ! k)"
    using at_is [OF assms(1), of "of_nat k"] k by simp
  show ?case
  proof (cases "Q (vs ! k)")
    case True
    have "takeWhile (\<lambda>v. \<not> Q v) vs = take k vs"
      using True k Suc.prems(2) by (intro takeWhile_eq_take_P_nth) (auto simp: set_conv_nth)
    then show ?thesis
      using True k at assms(3) by (simp add: Let_def)
  next
    case False
    then have "\<forall>v \<in> set (take (Suc k) vs). \<not> Q v"
      using Suc.prems(2) k by (auto simp: take_Suc_conv_app_nth)
    then have "search_loop (\<lambda>i. at_s i s) P n (of_nat (Suc k)) =
        (let j = length (takeWhile (\<lambda>v. \<not> Q v) vs)
         in Some (if j < length vs then Some (of_nat j, vs ! j) else None))"
      using Suc.prems(1) by (intro Suc.IH) simp_all
    then show ?thesis
      using False k at assms(3) by (simp add: add.commute)
  qed
qed

lemma search_first:
  assumes "is_seq s vs" "length vs < 2 ^ 32" "\<And>v. v \<in> set vs \<Longrightarrow> P v = Some (Q v)"
  shows "search_loop (\<lambda>i. at_s i s) P (unat (size_s s)) 0 =
      (let j = length (takeWhile (\<lambda>v. \<not> Q v) vs)
       in Some (if j < length vs then Some (of_nat j, vs ! j) else None))"
  using search_from [OF assms, where n = "length vs" and k = 0] assms(2)
    size_is [OF assms(1)] unat_of_nat_u32 [of "length vs"]
  by simp

end

locale rotating_sequence = pointer_sequence +
  fixes first_s :: "'a \<Rightarrow> ptr option"
    and rotate_s :: "'a \<Rightarrow> 'a option"
  assumes first_is: "is_seq s vs \<Longrightarrow> first_s s = Some (if vs = [] then nullptr else hd vs)"
    and rotate_is: "is_seq s vs \<Longrightarrow> \<exists>s'. rotate_s s = Some s' \<and> is_seq s' (rotate1 vs)"
begin

fun rotate_times :: "nat \<Rightarrow> 'a \<Rightarrow> 'a option" where
  "rotate_times 0 s = Some s"
| "rotate_times (Suc n) s = do { s' \<leftarrow> rotate_s s; rotate_times n s' }"

lemma rotate_times_is:
  "is_seq s vs \<Longrightarrow> \<exists>s'. rotate_times n s = Some s' \<and> is_seq s' (rotate n vs)"
proof (induction n arbitrary: s vs)
  case 0
  then show ?case by simp
next
  case (Suc n)
  then obtain s1 where "rotate_s s = Some s1" "is_seq s1 (rotate1 vs)"
    using rotate_is by blast
  with Suc.IH [of s1 "rotate1 vs"] show ?case
    by (simp add: rotate1_rotate_swap)
qed

lemma every_element_comes_first:
  assumes "is_seq s vs" "k < length vs"
  shows "\<exists>s'. rotate_times k s = Some s' \<and> first_s s' = Some (vs ! k)"
proof -
  obtain s' where "rotate_times k s = Some s'" "is_seq s' (rotate k vs)"
    using rotate_times_is [OF assms(1)] by blast
  moreover have "vs \<noteq> []"
    using assms(2) by auto
  then have "hd (rotate k vs) = vs ! k"
    using assms(2) by (simp add: hd_rotate_conv_nth)
  ultimately show ?thesis
    using first_is [of s' "rotate k vs"] assms(2) by auto
qed

end

interpretation kl: rotating_sequence List_is List_append List_size List_at List_deleteAt
    List_first List_rotateFirstLast
  by unfold_locales
     (rule List_is_append List_is_size List_is_at List_is_deleteAt List_is_first List_is_rotate;
      assumption)+


section \<open>Where the list does not do what its interface says\<close>

lemma List_deleteAt_size:
  assumes "List_is l vs" "vs \<noteq> []" "unat i = length vs"
  shows "\<exists>l'. List_deleteAt i l = Some (True, l') \<and> List_is l' []"
proof -
  obtain xs where rep: "List_rep l xs" and vs: "map snd xs = vs"
    using assms by (auto simp: List_is_def)
  then have xs0: "xs \<noteq> []" and len: "unat i = length xs"
    using assms by auto
  then have k: "unat i - 1 < length xs" and i0: "i \<noteq> 0"
    by (cases xs; auto)+
  from rep k obtain ys b w zs n where xs: "xs = ys @ (b, w) # zs" and ys: "length ys = unat i - 1"
    and n: "nodes l b = Some \<lparr>lo_next = n, lo_ptr = w\<rparr>" "n = nullptr \<longleftrightarrow> zs = []"
    by (rule List_rep_split)
  have "zs = []"
    using xs ys vs assms by auto
  let ?l1 = "l\<lparr>m_first := nullptr, m_last := nullptr, m_size := 0\<rparr>"
  have "cache_ok ?l1 (insert b {})"
    using rep xs by (auto simp: List_rep_def elim!: cache_ok_cong)
  then obtain l' where l': "List_free (Some b) ?l1 = Some l'" "cache_ok l' {}"
      "m_first l' = nullptr" "m_last l' = nullptr" "m_size l' = 0"
    by (rule List_free_ok) auto
  have "xs ! (unat i - 1) = (b, w)"
    using xs ys by (metis nth_append_length)
  moreover have "min (unat i - 1) (length xs - 1) = unat i - 1" "Suc (unat i - 1) = unat i"
    using k vs assms by (auto simp: Suc_pred)
  ultimately have "List_deleteAt i l = Some (True, l')"
    using rep xs0 i0 n \<open>zs = []\<close> l'(1)
    by (simp add: List_deleteAt_def List_rep_null List_seek_rep del: min_diff)
  moreover have "List_is l' []"
    using l' by (intro List_isI [of _ "[]"]) (simp_all add: List_rep_def)
  ultimately show ?thesis by blast
qed

lemma List_deleteAll_head:
  assumes "List_is l (val # vs)"
  shows "List_deleteAll val l = None"
proof -
  obtain a n where "m_first l = Some a" "nodes l a = Some \<lparr>lo_next = n, lo_ptr = val\<rparr>"
    using assms by (auto simp: List_is_def List_rep_def Cons_eq_map_conv)
  then show ?thesis
    by (auto simp: List_deleteAll_def List_deleteAll_loop.simps bind_None_iff)
qed

lemma List_deleteAll_adjacent:
  assumes l: "List_is l (v # val # val # vs)" "v \<noteq> val" and vs: "val \<notin> set vs"
  shows "\<exists>l'. List_deleteAll val l = Some l' \<and> List_is l' (v # val # vs)"
proof -
  have "filter (\<lambda>x. x \<noteq> val) vs = vs" "successively (\<lambda>x y. \<not> (x = val \<and> y = val)) vs"
    using vs by (auto simp: filter_id_conv successively_conv_nth)
  then have "deleteAll_behind (\<lambda>x. x = val) (val # val # vs) = val # vs"
    using deleteAll_behind_filter [of "\<lambda>x. x = val" vs] by simp
  with List_is_deleteAll [OF l] show ?thesis
    by simp
qed

section \<open>Properties\<close>

text \<open>
  C1: on a well-formed list the queue operations of the class do what their names say and
  keep the list well formed: \<^verbatim>\<open>addFirst\<close> and \<^verbatim>\<open>append\<close> put the element at the front and at
  the end, \<^verbatim>\<open>takeFirst\<close> removes and returns the first element (and returns \<^verbatim>\<open>nullptr\<close> on an
  empty list), \<^verbatim>\<open>rotateFirstLast\<close> moves the first element to the end, \<^verbatim>\<open>first\<close> and \<^verbatim>\<open>last\<close>
  read the ends and \<^verbatim>\<open>size\<close> counts the elements modulo \<open>2 ^ 32\<close>.  None of them touches a
  node that is not in use.
\<close>

theorem List_queue_operations:
  assumes "List_is l vs"
  shows "(\<exists>l'. List_addFirst v l = Some l' \<and> List_is l' (v # vs)) \<and>
    (\<exists>l'. List_append v l = Some l' \<and> List_is l' (vs @ [v])) \<and>
    (\<exists>l'. List_rotateFirstLast l = Some l' \<and> List_is l' (rotate1 vs)) \<and>
    (\<exists>l'. List_takeFirst l = Some (if vs = [] then nullptr else hd vs, l') \<and>
      List_is l' (tl vs)) \<and>
    List_first l = Some (if vs = [] then nullptr else hd vs) \<and>
    List_last l = Some (if vs = [] then nullptr else last vs) \<and>
    List_size l = of_nat (length vs)"
proof -
  have "\<exists>l'. List_takeFirst l = Some (if vs = [] then nullptr else hd vs, l') \<and> List_is l' (tl vs)"
    using assms List_is_takeFirst List_is_takeFirst_empty by (cases vs) auto
  with assms show ?thesis
    by (simp only: List_is_addFirst List_is_append List_is_rotate List_is_size List_is_first
        List_is_last simp_thms)
qed

theorem List_queue_operations_witness:
  "\<exists>l'. List_takeFirst (klist_from [Some 3, Some 5]) = Some (Some 3, l') \<and> List_is l' [Some 5]"
  using List_queue_operations [OF List_is_klist_from [of "[Some 3, Some 5]"]] by simp

text \<open>
  the positional operations agree with list indexing where the index is in range:
  \<^verbatim>\<open>at(i)\<close> returns the element at \<open>i\<close> and \<^verbatim>\<open>nullptr\<close> past the end, \<^verbatim>\<open>addAt(i, v)\<close> inserts
  before position \<open>i\<close>, \<^verbatim>\<open>appendAfter(i, v)\<close> inserts behind position \<open>i\<close> or behind the last
  element, and \<^verbatim>\<open>deleteAt(i)\<close> removes position \<open>i\<close>; each keeps the list well formed.
\<close>

theorem List_positional_operations:
  assumes "List_is l vs" "v \<noteq> nullptr" "unat i < length vs"
  shows "List_at i l = Some (vs ! unat i) \<and>
    (\<exists>l'. List_addAt i v l = Some (True, l') \<and> List_is l' (insert_at (unat i) v vs)) \<and>
    (\<exists>l'. List_appendAfter i v l = Some (True, l') \<and>
      List_is l' (insert_at (Suc (unat i)) v vs)) \<and>
    (\<exists>l'. List_deleteAt i l = Some (True, l') \<and> List_is l' (remove_at (unat i) vs))"
proof -
  have "min (unat i) (length vs - 1) = unat i" "vs \<noteq> []"
    using assms(3) by auto
  then have "\<exists>l'. List_appendAfter i v l = Some (True, l') \<and>
      List_is l' (insert_at (Suc (unat i)) v vs)"
    using List_is_appendAfter [OF assms(1,2), of i] by metis
  with assms show ?thesis
    by (simp add: List_is_at List_is_addAt List_is_deleteAt)
qed

theorem List_positional_operations_witness:
  "\<exists>l'. List_deleteAt 1 (klist_from [Some 3, Some 5, Some 7]) = Some (True, l') \<and>
    List_is l' [Some 3, Some 7]"
  using List_positional_operations [OF List_is_klist_from [of "[Some 3, Some 5, Some 7]"],
      of "Some 1" 1]
  by (simp add: remove_at_def)

text \<open>
  \<^verbatim>\<open>deleteAll(val)\<close> on a list whose first element is not \<open>val\<close>, and in which \<open>val\<close> does
  not occur twice in a row, terminates and removes exactly the occurrences of \<open>val\<close>.
\<close>

theorem List_deleteAll_removes:
  assumes "List_is l (v # vs)" "v \<noteq> val" "successively (\<lambda>x y. \<not> (x = val \<and> y = val)) vs"
  shows "\<exists>l'. List_deleteAll val l = Some l' \<and> List_is l' (filter (\<lambda>x. x \<noteq> val) (v # vs))"
  using List_is_deleteAll [OF assms(1,2)] deleteAll_behind_filter [OF assms(3)] assms(2) by auto

theorem List_deleteAll_removes_witness:
  "\<exists>l'. List_deleteAll (Some 5) (klist_from [Some 3, Some 5, Some 7, Some 5]) = Some l' \<and>
    List_is l' [Some 3, Some 7]"
  using List_deleteAll_removes [OF List_is_klist_from [of "[Some 3, Some 5, Some 7, Some 5]"],
      of "Some 5"]
  by simp

text \<open>
  three inputs on which the class misbehaves.  \<^verbatim>\<open>deleteAll\<close> of the first element
  dereferences \<^verbatim>\<open>nullptr\<close>; of two adjacent occurrences \<^verbatim>\<open>deleteAll\<close> removes only the first;
  and \<^verbatim>\<open>deleteAt(size())\<close>, an index one past the end, reports success and empties the list.
\<close>

theorem List_deletion_faults:
  "(List_is l (val # vs) \<longrightarrow> List_deleteAll val l = None) \<and>
   (List_is l (v # val # val # vs) \<and> v \<noteq> val \<and> val \<notin> set vs \<longrightarrow>
     (\<exists>l'. List_deleteAll val l = Some l' \<and> List_is l' (v # val # vs))) \<and>
   (List_is l vs \<and> vs \<noteq> [] \<and> unat i = length vs \<longrightarrow>
     (\<exists>l'. List_deleteAt i l = Some (True, l') \<and> List_is l' []))"
  by (auto intro: List_deleteAll_head List_deleteAll_adjacent List_deleteAt_size)

theorem List_deletion_faults_witness:
  "List_deleteAll (Some 3) (klist_from [Some 3, Some 5]) = None \<and>
   (\<exists>l'. List_deleteAll (Some 5) (klist_from [Some 3, Some 5, Some 5]) = Some l' \<and>
     List_is l' [Some 3, Some 5]) \<and>
   (\<exists>l'. List_deleteAt 2 (klist_from [Some 3, Some 5]) = Some (True, l') \<and> List_is l' [])"
  using List_deletion_faults [of "klist_from [Some 3, Some 5]" "Some 3" "[Some 5]"]
    List_deletion_faults [of "klist_from [Some 3, Some 5, Some 5]" "Some 5" "[]" "Some 3"]
    List_deletion_faults [of "klist_from [Some 3, Some 5]" _ "[Some 3, Some 5]" _ 2]
  by (simp add: List_is_klist_from)

end
