(* ===== verification/Bitmap.thy ===== *)
theory Bitmap
  imports Kernel_Prelude
begin

text \<open>
  The bitmap \<^verbatim>\<open>Bits\<close> of \<^verbatim>\<open>inc/bits.h\<close> and \<^verbatim>\<open>src/bits.cpp\<close>, in which paging records the
  physical frames in use.  The array \<open>bits\<close> is a list of 32-bit words; an access outside it is
  undefined behaviour (\<^term>\<open>None\<close>).  \<open>Bits_inv\<close> is what the constructor establishes and every
  operation keeps; \<open>Bits_abs\<close> is the set of set bits.  \<open>Bits_low\<close> adds what \<^verbatim>\<open>findUnset\<close> relies on:
  below the word index \<open>m_last\<close>, the first 31 bits of every word are set.
\<close>

section \<open>The data and the operations\<close>

record bitmap =
  bits :: "u32 list"
  m_len :: u32
  m_cnt :: u32
  m_last_word :: u32

definition BIT_CONVERT :: nat where
  "BIT_CONVERT = 8 * 4"

definition Bits_clearAll :: "bitmap \<Rightarrow> bitmap" where
  "Bits_clearAll b = b\<lparr>bits := replicate (unat (m_len b)) 0 @ drop (unat (m_len b)) (bits b)\<rparr>"

text \<open>The constructor: \<open>junk\<close> is what \<^verbatim>\<open>new uint32_t[m_len]\<close> holds before it is cleared.\<close>

definition Bits_new :: "(nat \<Rightarrow> u32) \<Rightarrow> u32 \<Rightarrow> bitmap" where
  "Bits_new junk cnt =
     (let len = unat cnt div BIT_CONVERT + (if unat cnt mod BIT_CONVERT \<noteq> 0 then 1 else 0)
      in Bits_clearAll \<lparr>bits = map junk [0..<len], m_len = of_nat len, m_cnt = cnt, m_last_word = 0\<rparr>)"

definition word_get :: "bitmap \<Rightarrow> nat \<Rightarrow> u32 option" where
  "word_get b k = (if k < length (bits b) then Some (bits b ! k) else None)"

definition Bits_set :: "u32 \<Rightarrow> bitmap \<Rightarrow> (bool \<times> bitmap) option" where
  "Bits_set i b =
     (if i \<ge> m_cnt b then Some (False, b)
      else do {
        let num = unat i div BIT_CONVERT;
        let modulus = unat i mod BIT_CONVERT;
        w \<leftarrow> word_get b num;
        Some (True, b\<lparr>bits := (bits b)[num := w OR push_bit modulus 1]\<rparr>) })"

definition Bits_clear :: "u32 \<Rightarrow> bitmap \<Rightarrow> (bool \<times> bitmap) option" where
  "Bits_clear i b =
     (if i \<ge> m_cnt b then Some (False, b)
      else do {
        let num = unat i div BIT_CONVERT;
        let modulus = unat i mod BIT_CONVERT;
        w \<leftarrow> word_get b num;
        Some (True, b\<lparr>bits := (bits b)[num := w AND NOT (push_bit modulus 1)],
          m_last_word := 0\<rparr>) })"

definition Bits_isSet :: "u32 \<Rightarrow> bitmap \<Rightarrow> bool option" where
  "Bits_isSet i b =
     (if i \<ge> m_cnt b then Some False
      else do {
        let num = unat i div BIT_CONVERT;
        let modulus = unat i mod BIT_CONVERT;
        w \<leftarrow> word_get b num;
        Some (w AND push_bit modulus 1 \<noteq> 0) })"

text \<open>The inner loop of \<^verbatim>\<open>findUnset\<close>, \<^verbatim>\<open>for (j = 0; j < 31; j++)\<close>, from \<open>j\<close> with \<open>n\<close> steps left.\<close>

fun findUnset_bit :: "u32 \<Rightarrow> nat \<Rightarrow> nat \<Rightarrow> nat option" where
  "findUnset_bit w 0 j = None"
| "findUnset_bit w (Suc n) j =
     (if w AND push_bit j 1 = 0 then Some j else findUnset_bit w n (Suc j))"

text \<open>
  The outer loop, from word \<open>i\<close> with \<open>n\<close> words left.  The block after the inner loop that would
  restart at word 0 asks for \<^verbatim>\<open>i >= m_len\<close>, which the loop condition excludes, so \<^verbatim>\<open>cc\<close> stays 0
  and neither of its branches is ever taken.
\<close>

fun findUnset_word :: "bitmap \<Rightarrow> nat \<Rightarrow> nat \<Rightarrow> (u32 \<times> u32) option option" where
  "findUnset_word b 0 i = Some None"
| "findUnset_word b (Suc n) i = do {
     w \<leftarrow> word_get b i;
     (case (if NOT w \<noteq> 0 then findUnset_bit w 31 0 else None) of
        Some j \<Rightarrow> Some (Some (of_nat i, of_nat i * of_nat BIT_CONVERT + of_nat j))
      | None \<Rightarrow> findUnset_word b n (Suc i)) }"

text \<open>The value returned with \<^verbatim>\<open>*ok\<close>, and the bitmap with \<open>m_last\<close> moved.\<close>

definition Bits_findUnset :: "bitmap \<Rightarrow> ((bool \<times> u32) \<times> bitmap) option" where
  "Bits_findUnset b = do {
     r \<leftarrow> findUnset_word b (unat (m_len b) - unat (m_last_word b)) (unat (m_last_word b));
     (case r of
        Some (i, v) \<Rightarrow> Some ((True, v), b\<lparr>m_last_word := i\<rparr>)
      | None \<Rightarrow> Some ((False, 0), b)) }"

definition Bits_copyFrom :: "u32 list \<Rightarrow> bitmap \<Rightarrow> bitmap option" where
  "Bits_copyFrom from b =
     (if unat (m_len b) \<le> length from \<and> unat (m_len b) \<le> length (bits b)
      then Some (b\<lparr>bits := take (unat (m_len b)) from @ drop (unat (m_len b)) (bits b)\<rparr>)
      else None)"

section \<open>The set of set bits\<close>

definition Bits_inv :: "bitmap \<Rightarrow> bool" where
  "Bits_inv b \<longleftrightarrow> length (bits b) = unat (m_len b) \<and> unat (m_len b) \<le> 2 ^ 27 \<and>
     unat (m_cnt b) \<le> 32 * unat (m_len b) \<and> 32 * unat (m_len b) < unat (m_cnt b) + 32"

definition Bits_bit :: "bitmap \<Rightarrow> nat \<Rightarrow> bool" where
  "Bits_bit b i \<longleftrightarrow> bit (bits b ! (i div 32)) (i mod 32)"

definition Bits_abs :: "bitmap \<Rightarrow> nat set" where
  "Bits_abs b = {i. i < unat (m_cnt b) \<and> Bits_bit b i}"

definition Bits_low :: "bitmap \<Rightarrow> bool" where
  "Bits_low b \<longleftrightarrow>
     (\<forall>i < 32 * min (unat (m_last_word b)) (unat (m_len b)). i mod 32 \<noteq> 31 \<longrightarrow> Bits_bit b i)"

section \<open>Lemmas\<close>

lemma bit_mask_iff_u32: "bit (2 ^ j :: u32) k \<longleftrightarrow> j < 32 \<and> j = k"
  by (auto simp: bit_exp_iff)

lemma and_push_bit_eq_0: "(w :: u32) AND 2 ^ j = 0 \<longleftrightarrow> \<not> (j < 32 \<and> bit w j)"
  by (auto simp: bit_eq_iff [where 'a = u32] bit_and_iff bit_mask_iff_u32)

lemma Bits_index: "Bits_inv b \<Longrightarrow> i < m_cnt b \<Longrightarrow> unat i div 32 < length (bits b)"
  by (auto simp: Bits_inv_def word_less_nat_alt)

lemma word_get_index [simp]:
  "Bits_inv b \<Longrightarrow> i < m_cnt b \<Longrightarrow> word_get b (unat i div 32) = Some (bits b ! (unat i div 32))"
  using Bits_index by (simp add: word_get_def)

lemma Bits_words:
  assumes "n = 32 * q + r" "r < 32" "n < 2 ^ 32"
  shows "q + (if r \<noteq> 0 then 1 else 0) \<le> 2 ^ 27 \<and> n \<le> 32 * (q + (if r \<noteq> 0 then 1 else 0)) \<and>
    32 * (q + (if r \<noteq> 0 then 1 else 0)) < n + (32 :: nat)"
  using assms by (cases "r = 0") auto

lemma Bits_new_inv: "Bits_inv (Bits_new junk cnt)"
proof -
  define len where "len = unat cnt div 32 + (if unat cnt mod 32 \<noteq> 0 then 1 else 0)"
  have "unat cnt < 2 ^ 32"
    by (rule unat_u32_less)
  then have len: "len \<le> 2 ^ 27" "unat cnt \<le> 32 * len" "32 * len < unat cnt + 32"
    using Bits_words [of "unat cnt" "unat cnt div 32" "unat cnt mod 32"]
    by (simp_all add: len_def)
  then have "unat (of_nat len :: u32) = len"
    by (simp add: unat_of_nat_u32)
  moreover have "Bits_new junk cnt =
      Bits_clearAll \<lparr>bits = map junk [0..<len], m_len = of_nat len, m_cnt = cnt, m_last_word = 0\<rparr>"
    by (simp add: Bits_new_def BIT_CONVERT_def Let_def len_def)
  ultimately show ?thesis
    using len by (simp add: Bits_inv_def Bits_clearAll_def)
qed

lemma Bits_new_abs: "Bits_abs (Bits_new junk cnt) = {}"
proof -
  let ?b = "Bits_new junk cnt"
  have b: "bits ?b = replicate (unat (m_len ?b)) 0 @ drop (unat (m_len ?b)) (bits ?b)"
    by (simp add: Bits_new_def Bits_clearAll_def Let_def)
  have inv: "Bits_inv ?b"
    by (rule Bits_new_inv)
  then have "bits ?b = replicate (unat (m_len ?b)) 0"
    by (subst b) (simp add: Bits_inv_def)
  with inv show ?thesis
    by (auto simp: Bits_abs_def Bits_bit_def Bits_inv_def)
qed

lemma Bits_new_low: "Bits_low (Bits_new junk cnt)"
  by (simp add: Bits_low_def Bits_new_def Bits_clearAll_def Let_def)

lemma Bits_isSet_abs: "Bits_inv b \<Longrightarrow> Bits_isSet i b = Some (unat i \<in> Bits_abs b)"
  by (auto simp: Bits_isSet_def Bits_abs_def Bits_bit_def BIT_CONVERT_def Let_def
      and_push_bit_eq_0 not_le word_less_nat_alt word_le_nat_alt)

lemma Bits_upd_bit:
  assumes "Bits_inv b" "i < m_cnt b"
  shows "Bits_bit (b\<lparr>bits := (bits b)[unat i div 32 := w]\<rparr>) k =
    (if k div 32 = unat i div 32 then bit w (k mod 32) else Bits_bit b k)"
  using Bits_index [OF assms] by (auto simp: Bits_bit_def)

lemma Bits_set_abs:
  assumes "Bits_inv b" "i < m_cnt b"
  obtains b' where "Bits_set i b = Some (True, b')" "Bits_inv b'"
    "\<And>k. Bits_bit b' k \<longleftrightarrow> k = unat i \<or> Bits_bit b k"
    "m_cnt b' = m_cnt b" "m_last_word b' = m_last_word b" "m_len b' = m_len b"
proof -
  let ?b' = "b\<lparr>bits := (bits b)[unat i div 32 :=
    bits b ! (unat i div 32) OR push_bit (unat i mod 32) 1]\<rparr>"
  have "Bits_bit ?b' k \<longleftrightarrow> k = unat i \<or> Bits_bit b k" for k
  proof -
    have "k = unat i \<longleftrightarrow> k div 32 = unat i div 32 \<and> k mod 32 = unat i mod 32"
      by (metis div_mult_mod_eq)
    moreover have "Bits_bit ?b' k = (if k div 32 = unat i div 32
        then bit (bits b ! (unat i div 32) OR push_bit (unat i mod 32) 1) (k mod 32)
        else Bits_bit b k)"
      by (rule Bits_upd_bit [OF assms])
    ultimately show ?thesis
      by (auto simp: bit_or_iff bit_mask_iff_u32 Bits_bit_def)
  qed
  moreover have "Bits_set i b = Some (True, ?b')"
    using assms by (simp add: Bits_set_def BIT_CONVERT_def Let_def not_le)
  moreover have "Bits_inv ?b'"
    using assms by (simp add: Bits_inv_def)
  ultimately show ?thesis
    using that by simp
qed

lemma Bits_clear_abs:
  assumes "Bits_inv b" "i < m_cnt b"
  obtains b' where "Bits_clear i b = Some (True, b')" "Bits_inv b'"
    "\<And>k. Bits_bit b' k \<longleftrightarrow> k \<noteq> unat i \<and> Bits_bit b k"
    "m_cnt b' = m_cnt b" "m_last_word b' = 0" "m_len b' = m_len b"
proof -
  let ?b1 = "b\<lparr>bits := (bits b)[unat i div 32 :=
    bits b ! (unat i div 32) AND NOT (push_bit (unat i mod 32) 1)]\<rparr>"
  let ?b' = "?b1\<lparr>m_last_word := 0\<rparr>"
  have "Bits_bit ?b' k \<longleftrightarrow> k \<noteq> unat i \<and> Bits_bit b k" for k
  proof -
    have "k = unat i \<longleftrightarrow> k div 32 = unat i div 32 \<and> k mod 32 = unat i mod 32"
      by (metis div_mult_mod_eq)
    moreover have "Bits_bit ?b1 k = (if k div 32 = unat i div 32
        then bit (bits b ! (unat i div 32) AND NOT (push_bit (unat i mod 32) 1)) (k mod 32)
        else Bits_bit b k)"
      by (rule Bits_upd_bit [OF assms])
    ultimately show ?thesis
      by (auto simp: bit_and_iff bit_not_iff bit_mask_iff_u32 Bits_bit_def)
  qed
  moreover have "Bits_clear i b = Some (True, ?b')"
    using assms by (simp add: Bits_clear_def BIT_CONVERT_def Let_def not_le)
  moreover have "Bits_inv ?b'"
    using assms by (simp add: Bits_inv_def)
  ultimately show ?thesis
    using that by simp
qed

text \<open>What \<^verbatim>\<open>findUnset\<close> looks for: an index with a clear bit that is not the last one of its word.\<close>

lemma all_less_Suc_shift:
  "(\<forall>k. j \<le> k \<and> k < j + Suc n \<longrightarrow> P k) \<longleftrightarrow> P j \<and> (\<forall>k. Suc j \<le> k \<and> k < Suc j + n \<longrightarrow> P k)"
proof -
  have "j \<le> k \<and> k < j + Suc n \<longleftrightarrow> k = j \<or> Suc j \<le> k \<and> k < Suc j + n" for k
    by auto
  then show ?thesis
    by auto
qed

lemma findUnset_bit_None:
  "findUnset_bit w n j = None \<longleftrightarrow> (\<forall>k. j \<le> k \<and> k < j + n \<longrightarrow> k < 32 \<and> bit w k)"
proof (induction n arbitrary: j)
  case (Suc n)
  show ?case
    unfolding all_less_Suc_shift Suc.IH [symmetric] by (auto simp: and_push_bit_eq_0)
qed auto

lemma findUnset_bit_Some:
  "findUnset_bit w n j = Some k \<Longrightarrow>
     j \<le> k \<and> k < j + n \<and> \<not> (k < 32 \<and> bit w k) \<and> (\<forall>m. j \<le> m \<and> m < k \<longrightarrow> bit w m)"
proof (induction n arbitrary: j)
  case (Suc n)
  show ?case
  proof (cases "w AND push_bit j 1 = 0")
    case True
    with Suc.prems show ?thesis
      by (auto simp: and_push_bit_eq_0)
  next
    case False
    with Suc.prems have "findUnset_bit w n (Suc j) = Some k"
      by simp
    from Suc.IH [OF this] False show ?thesis
      by (auto simp: and_push_bit_eq_0) (metis le_antisym not_less_eq_eq)+
  qed
qed simp

text \<open>One word of the bitmap, searched by the inner loop guarded by \<^verbatim>\<open>~bits[i] != 0\<close>.\<close>

lemma findUnset_one:
  "(case (if NOT w \<noteq> 0 then findUnset_bit w 31 0 else None) of
     None \<Rightarrow> \<forall>k < 31. bit w k
   | Some j \<Rightarrow> j < 31 \<and> \<not> bit w j \<and> (\<forall>m < j. bit w m))"
proof (cases "NOT w = 0")
  case True
  then have "w = NOT 0"
    by (metis bit.double_compl)
  then show ?thesis
    using True by (simp add: bit_not_iff)
next
  case False
  then show ?thesis
    using findUnset_bit_None [of w 31 0] findUnset_bit_Some [of w 31 0]
    by (cases "findUnset_bit w 31 0") auto
qed

definition covered :: "bitmap \<Rightarrow> nat \<Rightarrow> nat \<Rightarrow> bool" where
  "covered b m n \<longleftrightarrow> (\<forall>k. m \<le> k \<and> k < n \<and> k mod 32 \<noteq> 31 \<longrightarrow> Bits_bit b k)"

lemma covered_trans: "covered b l m \<Longrightarrow> covered b m n \<Longrightarrow> covered b l n"
  by (metis covered_def not_le)

lemma covered_in_word:
  assumes "\<forall>k < j. bit (bits b ! i) k" "j \<le> 32"
  shows "covered b (32 * i) (32 * i + j)"
  unfolding covered_def Bits_bit_def
proof (intro allI impI)
  fix k
  assume k: "32 * i \<le> k \<and> k < 32 * i + j \<and> k mod 32 \<noteq> 31"
  then have i: "k div 32 = i"
    using assms(2) by auto
  then have "k mod 32 < j"
    using k mult_div_mod_eq [of 32 k] by linarith
  then show "bit (bits b ! (k div 32)) (k mod 32)"
    using assms(1) i by simp
qed

lemma covered_word:
  assumes "\<forall>k < 31. bit (bits b ! i) k"
  shows "covered b (32 * i) (32 * Suc i)"
proof -
  have "covered b (32 * i) (32 * i + 31)"
    using assms by (rule covered_in_word) simp
  moreover have "k mod 32 = 31" if "32 * i + 31 \<le> k" "k < 32 * Suc i" for k
  proof -
    from that have "k = 32 * i + 31"
      by simp
    then show ?thesis
      by simp
  qed
  then have "covered b (32 * i + 31) (32 * Suc i)"
    by (auto simp: covered_def)
  ultimately show ?thesis
    by (blast intro: covered_trans)
qed

lemma findUnset_word_spec:
  assumes "i + n \<le> length (bits b)" "length (bits b) \<le> 2 ^ 27"
  shows "findUnset_word b n i = Some None \<and> covered b (32 * i) (32 * (i + n)) \<or>
    (\<exists>w j. findUnset_word b n i = Some (Some (of_nat w, of_nat (32 * w + j))) \<and>
      i \<le> w \<and> w < i + n \<and> j < 31 \<and> \<not> Bits_bit b (32 * w + j) \<and>
      covered b (32 * i) (32 * w + j))"
  using assms(1)
proof (induction n arbitrary: i)
  case 0
  then show ?case
    by (auto simp: covered_def)
next
  case (Suc n)
  let ?w = "bits b ! i"
  have get: "word_get b i = Some ?w"
    using Suc.prems by (simp add: word_get_def)
  show ?case
  proof (cases "if NOT ?w \<noteq> 0 then findUnset_bit ?w 31 0 else None")
    case None
    then have "covered b (32 * i) (32 * Suc i)"
      using findUnset_one [of ?w] by (intro covered_word) auto
    then have more: "covered b (32 * Suc i) m \<Longrightarrow> covered b (32 * i) m" for m
      by (rule covered_trans)
    have "findUnset_word b (Suc n) i = findUnset_word b n (Suc i)"
      using get None by simp
    moreover have "Suc i + n \<le> length (bits b)" "Suc i + n = i + Suc n"
      using Suc.prems by simp_all
    ultimately show ?thesis
      using Suc.IH [of "Suc i"] by (metis more Suc_leD)
  next
    case (Some j)
    then have j: "j < 31" "\<not> bit ?w j" "\<forall>m < j. bit ?w m"
      using findUnset_one [of ?w] by auto
    then have "covered b (32 * i) (32 * i + j)"
      by (intro covered_in_word) auto
    moreover have "findUnset_word b (Suc n) i = Some (Some (of_nat i, of_nat (32 * i + j)))"
      using get Some by (simp add: BIT_CONVERT_def mult.commute)
    moreover have "\<not> Bits_bit b (32 * i + j)"
      using j by (simp add: Bits_bit_def)
    moreover have "i \<le> i" "i < i + Suc n"
      by simp_all
    ultimately show ?thesis
      using j(1) by blast
  qed
qed

lemma covered_0: "covered b 0 n \<longleftrightarrow> (\<forall>k < n. k mod 32 \<noteq> 31 \<longrightarrow> Bits_bit b k)"
  by (auto simp: covered_def)

lemma Bits_low_covered:
  "Bits_low b \<longleftrightarrow> covered b 0 (32 * min (unat (m_last_word b)) (unat (m_len b)))"
  by (auto simp: Bits_low_def covered_0)

lemma findUnset_cases:
  assumes "Bits_inv b" "Bits_low b"
  obtains (full) "Bits_findUnset b = Some ((False, 0), b)" "covered b 0 (32 * unat (m_len b))"
  | (found) w j where
      "Bits_findUnset b = Some ((True, of_nat (32 * w + j)), b\<lparr>m_last_word := of_nat w\<rparr>)"
      "w < unat (m_len b)" "j < 31" "\<not> Bits_bit b (32 * w + j)" "covered b 0 (32 * w + j)"
proof (cases "unat (m_last_word b) < unat (m_len b)")
  case True
  let ?l = "unat (m_last_word b)" and ?n = "unat (m_len b)"
  have low: "covered b 0 (32 * ?l)"
    using assms(2) True by (simp add: Bits_low_covered)
  have "findUnset_word b (?n - ?l) ?l = Some None \<and> covered b (32 * ?l) (32 * ?n) \<or>
    (\<exists>w j. findUnset_word b (?n - ?l) ?l = Some (Some (of_nat w, of_nat (32 * w + j))) \<and>
      w < ?n \<and> j < 31 \<and> \<not> Bits_bit b (32 * w + j) \<and> covered b (32 * ?l) (32 * w + j))"
    using findUnset_word_spec [of ?l "?n - ?l" b] assms(1) True
    by (auto simp: Bits_inv_def)
  then show ?thesis
    using full found covered_trans [OF low] by (auto simp: Bits_findUnset_def)
next
  case False
  then show ?thesis
    using full assms(2) by (simp add: Bits_findUnset_def Bits_low_covered)
qed

lemma Bits_found_unat:
  assumes "Bits_inv b" "w < unat (m_len b)" "j < 31"
  shows "unat (of_nat (32 * w + j) :: u32) = 32 * w + j" "unat (of_nat w :: u32) = w"
proof -
  have "32 * w + j < 2 ^ 32" "w < 2 ^ 32"
    using assms by (simp_all add: Bits_inv_def)
  then show "unat (of_nat (32 * w + j) :: u32) = 32 * w + j" "unat (of_nat w :: u32) = w"
    by (blast intro: unat_of_nat_u32)+
qed

lemma Bits_findUnset_low:
  assumes "Bits_inv b" "Bits_low b" "Bits_findUnset b = Some (r, b')"
  shows "Bits_inv b' \<and> Bits_low b' \<and> bits b' = bits b \<and> m_cnt b' = m_cnt b \<and> m_len b' = m_len b"
  using assms(1,2)
proof (cases rule: findUnset_cases)
  case (found w j)
  have "covered b 0 (32 * w)"
    using found(5) by (auto simp: covered_0)
  then show ?thesis
    using found assms(1,3) Bits_found_unat [OF assms(1) found(2,3)]
    by (auto simp: Bits_low_def covered_0 Bits_inv_def Bits_bit_def)
qed (use assms in simp)

lemma Bits_bit_cong: "bits b' = bits b \<Longrightarrow> Bits_bit b' = Bits_bit b"
  by (simp add: Bits_bit_def fun_eq_iff)

lemma Bits_set_low:
  assumes "Bits_inv b" "Bits_low b" "Bits_set i b = Some (r, b')"
  shows "Bits_inv b' \<and> Bits_low b'"
proof (cases "i < m_cnt b")
  case True
  then obtain b2 where "Bits_set i b = Some (True, b2)" "Bits_inv b2"
    "\<And>k. Bits_bit b2 k \<longleftrightarrow> k = unat i \<or> Bits_bit b k"
    "m_last_word b2 = m_last_word b" "m_len b2 = m_len b"
    using Bits_set_abs [OF assms(1)] by metis
  then show ?thesis
    using assms(2,3) by (simp add: Bits_low_def)
next
  case False
  then show ?thesis
    using assms by (simp add: Bits_set_def not_less)
qed

lemma Bits_clear_low:
  assumes "Bits_inv b" "Bits_low b" "Bits_clear i b = Some (r, b')"
  shows "Bits_inv b' \<and> Bits_low b'"
proof (cases "i < m_cnt b")
  case True
  then obtain b2 where "Bits_clear i b = Some (True, b2)" "Bits_inv b2" "m_last_word b2 = 0"
    using Bits_clear_abs [OF assms(1)] by metis
  then show ?thesis
    using assms(3) by (simp add: Bits_low_def)
next
  case False
  then show ?thesis
    using assms by (simp add: Bits_clear_def not_less)
qed

lemma Bits_set_reject: "m_cnt b \<le> i \<Longrightarrow> Bits_set i b = Some (False, b)"
  by (simp add: Bits_set_def)

lemma Bits_clear_reject: "m_cnt b \<le> i \<Longrightarrow> Bits_clear i b = Some (False, b)"
  by (simp add: Bits_clear_def)

lemma Bits_abs_iff: "i < m_cnt b \<Longrightarrow> unat i \<in> Bits_abs b \<longleftrightarrow> Bits_bit b (unat i)"
  by (simp add: Bits_abs_def word_less_nat_alt)

section \<open>Properties\<close>

text \<open>
  C2: the bitmap refines a finite set of indices.  A new bitmap is the empty set; \<^verbatim>\<open>isSet\<close> is
  membership; below the capacity, \<^verbatim>\<open>set\<close> inserts and \<^verbatim>\<open>clear\<close> removes exactly the index given, and
  both return \<^verbatim>\<open>true\<close>; at or beyond the capacity both return \<^verbatim>\<open>false\<close> and change nothing.  No
  operation reads outside the word array, and each keeps the bitmap well formed.
\<close>

theorem Bits_refines_set:
  assumes "Bits_inv b"
  shows "Bits_inv (Bits_new junk n) \<and> Bits_abs (Bits_new junk n) = {} \<and>
    Bits_isSet i b = Some (unat i \<in> Bits_abs b) \<and>
    (\<exists>b'. Bits_set i b = Some (i < m_cnt b, b') \<and> Bits_inv b' \<and> m_cnt b' = m_cnt b \<and>
       Bits_abs b' = (if i < m_cnt b then insert (unat i) (Bits_abs b) else Bits_abs b)) \<and>
    (\<exists>b'. Bits_clear i b = Some (i < m_cnt b, b') \<and> Bits_inv b' \<and> m_cnt b' = m_cnt b \<and>
       Bits_abs b' = Bits_abs b - {unat i})"
proof (cases "i < m_cnt b")
  case True
  obtain b1 where b1: "Bits_set i b = Some (True, b1)" "Bits_inv b1"
      "\<And>k. Bits_bit b1 k \<longleftrightarrow> k = unat i \<or> Bits_bit b k" "m_cnt b1 = m_cnt b"
    using Bits_set_abs [OF assms True] by metis
  obtain b2 where b2: "Bits_clear i b = Some (True, b2)" "Bits_inv b2"
      "\<And>k. Bits_bit b2 k \<longleftrightarrow> k \<noteq> unat i \<and> Bits_bit b k" "m_cnt b2 = m_cnt b"
    using Bits_clear_abs [OF assms True] by metis
  have "Bits_abs b1 = insert (unat i) (Bits_abs b)" "Bits_abs b2 = Bits_abs b - {unat i}"
    using True by (auto simp: Bits_abs_def b1(3,4) b2(3,4) word_less_nat_alt)
  with True b1 b2 show ?thesis
    by (simp add: Bits_new_inv Bits_new_abs Bits_isSet_abs [OF assms])
next
  case False
  then have "unat i \<notin> Bits_abs b"
    by (simp add: Bits_abs_def word_less_nat_alt)
  moreover have "m_cnt b \<le> i"
    using False by simp
  ultimately show ?thesis
    using assms
    by (simp add: Bits_new_inv Bits_new_abs Bits_isSet_abs Bits_set_reject Bits_clear_reject leD)
qed

theorem Bits_refines_set_witness:
  "\<exists>b'. Bits_set 40 (Bits_new (\<lambda>_. 7) 64) = Some (True, b') \<and> Bits_abs b' = {40}"
proof -
  have "m_cnt (Bits_new (\<lambda>_. 7) 64) = 64"
    by (simp add: Bits_new_def Bits_clearAll_def Let_def)
  then show ?thesis
    using Bits_refines_set [OF Bits_new_inv [of "\<lambda>_. 7" 64], of "\<lambda>_. 7" 64 40]
    by (auto simp: Bits_new_abs)
qed

text \<open>
  what \<^verbatim>\<open>findUnset\<close> returns.  With the words below \<open>m_last\<close> full (which a new bitmap has and
  \<^verbatim>\<open>set\<close>, \<^verbatim>\<open>clear\<close> and \<^verbatim>\<open>findUnset\<close> keep) it always returns; it reports success exactly when the word
  array has a clear bit other than the last one of its word, and then its result is the lowest
  such index.
\<close>

theorem Bits_findUnset_lowest:
  assumes "Bits_inv b" "Bits_low b"
  shows "\<exists>ok v b'. Bits_findUnset b = Some ((ok, v), b') \<and> Bits_inv b' \<and> Bits_low b' \<and>
    Bits_abs b' = Bits_abs b \<and>
    (ok \<longleftrightarrow> (\<exists>k < 32 * unat (m_len b). k mod 32 \<noteq> 31 \<and> \<not> Bits_bit b k)) \<and>
    (ok \<longrightarrow> unat v = (LEAST k. k mod 32 \<noteq> 31 \<and> \<not> Bits_bit b k)) \<and>
    (\<forall>i r b2. Bits_set i b = Some (r, b2) \<longrightarrow> Bits_low b2) \<and>
    (\<forall>i r b2. Bits_clear i b = Some (r, b2) \<longrightarrow> Bits_low b2)"
  using assms
proof (cases rule: findUnset_cases)
  case full
  then show ?thesis
    using assms Bits_set_low [OF assms] Bits_clear_low [OF assms] by (auto simp: covered_0)
next
  case (found w j)
  let ?k = "32 * w + j"
  note keep = Bits_findUnset_low [OF assms found(1)]
  have "Bits_abs (b\<lparr>m_last_word := of_nat w\<rparr>) = Bits_abs b"
    by (simp add: Bits_abs_def Bits_bit_def)
  moreover have k: "?k < 32 * unat (m_len b)" "?k mod 32 \<noteq> 31"
    using found(2,3) by auto
  moreover have "?k = (LEAST k. k mod 32 \<noteq> 31 \<and> \<not> Bits_bit b k)"
    using found(4,5) k(2) by (intro Least_equality [symmetric]) (auto simp: covered_0 not_less [symmetric])
  then have "unat (of_nat ?k :: u32) = (LEAST k. k mod 32 \<noteq> 31 \<and> \<not> Bits_bit b k)"
    using Bits_found_unat(1) [OF assms(1) found(2,3)] by argo
  ultimately show ?thesis
    using found(1,4) keep Bits_set_low [OF assms] Bits_clear_low [OF assms]
    by (intro exI [of _ True] exI [of _ "of_nat ?k"] exI [of _ "b\<lparr>m_last_word := of_nat w\<rparr>"]) blast
qed

theorem Bits_findUnset_lowest_witness:
  "\<exists>v b'. Bits_findUnset (Bits_new (\<lambda>_. 7) 64) = Some ((True, v), b') \<and> v = 0"
proof -
  let ?b = "Bits_new (\<lambda>_. 7) 64"
  have len: "m_len ?b = 2" "m_cnt ?b = 64"
    by (simp_all add: Bits_new_def Bits_clearAll_def Let_def BIT_CONVERT_def)
  have "\<not> Bits_bit ?b 0"
    using Bits_abs_iff [of 0 ?b] len by (simp add: Bits_new_abs)
  moreover from this have "(LEAST k. k mod 32 \<noteq> 31 \<and> \<not> Bits_bit ?b k) = 0"
    by (intro Least_equality) simp_all
  ultimately show ?thesis
    using Bits_findUnset_lowest [OF Bits_new_inv Bits_new_low, of "\<lambda>_. 7" 64] len
    by (auto simp: unat_eq_0 intro!: exI [of _ 0])
qed

text \<open>
  where \<^verbatim>\<open>findUnset\<close> is wrong for its callers.  When the capacity is not a multiple of 32 (nor
  one less), every frame that \<^verbatim>\<open>findUnset\<close> looks at is taken and the bits above the capacity are
  clear (as the constructor leaves them), it reports success with the index \<open>m_cnt\<close> itself, one
  past the last frame; \<^verbatim>\<open>set\<close> refuses that index and leaves the bitmap unchanged, so the next call
  reports the same index again.
\<close>

theorem Bits_findUnset_beyond_capacity:
  assumes "Bits_inv b" "Bits_low b" "\<forall>k < unat (m_cnt b). k mod 32 \<noteq> 31 \<longrightarrow> Bits_bit b k"
    "\<not> Bits_bit b (unat (m_cnt b))" "unat (m_cnt b) mod 32 \<notin> {0, 31}"
  shows "\<exists>b'. Bits_findUnset b = Some ((True, m_cnt b), b') \<and>
    Bits_set (m_cnt b) b' = Some (False, b') \<and>
    Bits_findUnset b' = Some ((True, m_cnt b), b')"
proof -
  have least: "w' = unat (m_cnt c)" if "covered c 0 w'" "\<not> Bits_bit c w'" "w' mod 32 \<noteq> 31"
      "bits c = bits b" "m_cnt c = m_cnt b" for c w'
    using that assms(3,4,5) Bits_bit_cong [of c b] unfolding covered_0
    by (metis insertCI linorder_neqE_nat)
  have lt: "unat (m_cnt b) < 32 * unat (m_len b)"
    using assms(1,5) by (auto simp: Bits_inv_def le_less)
  have step: "\<exists>w. Bits_findUnset c = Some ((True, m_cnt b), c\<lparr>m_last_word := of_nat w\<rparr>) \<and>
      w = unat (m_cnt b) div 32"
    if "Bits_inv c" "Bits_low c" "bits c = bits b" "m_cnt c = m_cnt b" "m_len c = m_len b" for c
    using that(1,2)
  proof (cases rule: findUnset_cases)
    case full
    then show ?thesis
      using lt that assms(4,5) Bits_bit_cong [of c b] by (auto simp: covered_0)
  next
    case (found w j)
    then have "32 * w + j = unat (m_cnt c)"
      using that by (intro least) auto
    moreover from this have "w = unat (m_cnt b) div 32"
      using found(3) that(4) by auto
    ultimately show ?thesis
      using found(1) that(4) by (metis of_nat_unat unsigned_id_u32)
  qed
  obtain w where w: "Bits_findUnset b = Some ((True, m_cnt b), b\<lparr>m_last_word := of_nat w\<rparr>)"
      "w = unat (m_cnt b) div 32"
    using step [of b] assms(1,2) by blast
  from Bits_findUnset_low [OF assms(1,2) w(1)] step [of "b\<lparr>m_last_word := of_nat w\<rparr>"] w
  show ?thesis
    by (auto simp: Bits_set_reject)
qed

theorem Bits_findUnset_beyond_capacity_witness:
  "\<exists>b'. Bits_findUnset \<lparr>bits = [0xFFFFF], m_len = 1, m_cnt = 20, m_last_word = 0\<rparr> =
      Some ((True, 20), b') \<and> Bits_set 20 b' = Some (False, b')"
proof -
  let ?b = "\<lparr>bits = [0xFFFFF], m_len = 1, m_cnt = 20, m_last_word = 0\<rparr>"
  have mask: "(0xFFFFF :: u32) = mask 20"
    by (simp add: mask_eq_exp_minus_1)
  have b: "Bits_bit ?b k \<longleftrightarrow> k < 20" if "k < 32" for k
    using that unfolding Bits_bit_def mask by (simp add: bit_mask_iff)
  show ?thesis
    using Bits_findUnset_beyond_capacity [of ?b] b
    by (auto simp: Bits_inv_def Bits_low_def)
qed

end
