(* ===== verification/Soft_Math.thy ===== *)
theory Soft_Math
  imports Kernel_Prelude "HOL-Library.Signed_Division"
begin

text \<open>
  The software division of \<^verbatim>\<open>src/math.cpp\<close>: 64-bit division by shift and subtract, its signed
  wrappers, and the 32-bit division by repeated addition that the ARM build calls.  A division by
  zero faults, a signed negation of the least value overflows and a loop may not end; all three
  are \<^term>\<open>None\<close>.
\<close>

section \<open>The operations\<close>

text \<open>\<^verbatim>\<open>while ((int64_t)den >= 0) { den <<= 1; qbit <<= 1; }\<close>\<close>

partial_function (option) udivmod_justify :: "u64 \<Rightarrow> u64 \<Rightarrow> (u64 \<times> u64) option" where
  "udivmod_justify den qbit =
     (if 0 \<le> sint den then udivmod_justify (push_bit 1 den) (push_bit 1 qbit)
      else Some (den, qbit))"

text \<open>The loop \<^verbatim>\<open>while (qbit)\<close>; it returns the final \<open>quot\<close> and \<open>num\<close>.\<close>

function udivmod_loop :: "u64 \<Rightarrow> u64 \<Rightarrow> u64 \<Rightarrow> u64 \<Rightarrow> u64 \<times> u64" where
  "udivmod_loop num den qbit quot =
     (if qbit = 0 then (quot, num)
      else if den \<le> num then udivmod_loop (num - den) (drop_bit 1 den) (drop_bit 1 qbit) (quot + qbit)
      else udivmod_loop num (drop_bit 1 den) (drop_bit 1 qbit) quot)"
  by pat_completeness auto
termination
  by (relation "measure (\<lambda>(_, _, qbit, _). unat qbit)")
    (auto simp: unat_drop_bit_eq drop_bit_eq_div [where 'a = nat] unat_gt_0)

definition my__udivmoddi4 :: "u64 \<Rightarrow> u64 \<Rightarrow> (u64 \<times> u64) option" where
  "my__udivmoddi4 num den =
     (if den = 0 then None
      else do { (d, q) \<leftarrow> udivmod_justify den 1; Some (udivmod_loop num d q 0) })"

definition my__udivdi3 :: "u64 \<Rightarrow> u64 \<Rightarrow> u64 option" where
  "my__udivdi3 num den = do { (q, _) \<leftarrow> my__udivmoddi4 num den; Some q }"

definition my__umoddi3 :: "u64 \<Rightarrow> u64 \<Rightarrow> u64 option" where
  "my__umoddi3 num den = do { (_, r) \<leftarrow> my__udivmoddi4 num den; Some r }"

text \<open>Unary minus on \<^verbatim>\<open>int64_t\<close>: the least value has no negation.\<close>

definition neg64 :: "u64 \<Rightarrow> u64 option" where
  "neg64 x = (if x = push_bit 63 1 then None else Some (- x))"

text \<open>The sign handling the two signed wrappers share: the magnitudes and the flag \<^verbatim>\<open>minus\<close>.\<close>

definition signed_args :: "u64 \<Rightarrow> u64 \<Rightarrow> (u64 \<times> u64 \<times> bool) option" where
  "signed_args num den = do {
     (num, minus) \<leftarrow> (if sint num < 0 then do { n \<leftarrow> neg64 num; Some (n, True) } else Some (num, False));
     (den, minus) \<leftarrow> (if sint den < 0 then do { d \<leftarrow> neg64 den; Some (d, \<not> minus) }
                      else Some (den, minus));
     Some (num, den, minus) }"

definition my__divdi3 :: "u64 \<Rightarrow> u64 \<Rightarrow> u64 option" where
  "my__divdi3 num den = do {
     (n, d, minus) \<leftarrow> signed_args num den;
     (v, _) \<leftarrow> my__udivmoddi4 n d;
     (if minus then neg64 v else Some v) }"

definition my__moddi3 :: "u64 \<Rightarrow> u64 \<Rightarrow> u64 option" where
  "my__moddi3 num den = do {
     (n, d, minus) \<leftarrow> signed_args num den;
     (_, v) \<leftarrow> my__udivmoddi4 n d;
     (if minus then neg64 v else Some v) }"

text \<open>The counting loops; they return \<open>c\<close>.\<close>

partial_function (option) uidiv_loop :: "u32 \<Rightarrow> u32 \<Rightarrow> u32 \<Rightarrow> u32 \<Rightarrow> u32 option" where
  "uidiv_loop num den x c = (if x \<le> num then uidiv_loop num den (x + den) (c + 1) else Some c)"

partial_function (option) uidivmod_count :: "u32 \<Rightarrow> u32 \<Rightarrow> u32 \<Rightarrow> u32 \<Rightarrow> u32 option" where
  "uidivmod_count num den x c =
     (if x < num then uidivmod_count num den (x + den) (c + 1) else Some c)"

definition aeabi_uidiv :: "u32 \<Rightarrow> u32 \<Rightarrow> u32 option" where
  "aeabi_uidiv num den = uidiv_loop num den den 0"

definition aeabi_uidivmod :: "u32 \<Rightarrow> u32 \<Rightarrow> u32 option" where
  "aeabi_uidivmod num den = do { c \<leftarrow> uidivmod_count num den den 0; Some (num - c * den) }"

text \<open>The signed entry points pass their arguments on unchanged.\<close>

definition aeabi_idiv :: "u32 \<Rightarrow> u32 \<Rightarrow> u32 option" where
  "aeabi_idiv num den = aeabi_uidiv num den"

definition aeabi_idivmod :: "u32 \<Rightarrow> u32 \<Rightarrow> u32 option" where
  "aeabi_idivmod num den = aeabi_uidivmod num den"

section \<open>Unsigned 64-bit division\<close>

lemma sint_uint_u64: "sint (w :: u64) = (if uint w < 2 ^ 63 then uint w else uint w - 2 ^ 64)"
proof (cases "uint w < 2 ^ 63")
  case True
  have "- (2 ^ 63) \<le> uint w"
    by (rule order_trans [OF _ uint_ge_0]) simp
  then have "signed_take_bit 63 (uint w) = uint w"
    using True by (rule signed_take_bit_int_eq_self)
  then show ?thesis
    using True by (simp add: sint_uint)
next
  case False
  have lt: "uint w < 2 ^ 64"
    using uint_bounded [of w] by simp
  have "take_bit 64 (uint w - 2 ^ 64) = take_bit 64 (uint w)"
    by (simp add: take_bit_eq_mod)
  then have "signed_take_bit 63 (uint w) = signed_take_bit 63 (uint w - 2 ^ 64)"
    by (simp add: signed_take_bit_eq_iff_take_bit_eq)
  also have "\<dots> = uint w - 2 ^ 64"
    by (rule signed_take_bit_int_eq_self) (use False lt in simp_all)
  finally show ?thesis
    using False by (simp add: sint_uint)
qed

lemma unat_less_u64: "unat (w :: u64) < 2 ^ 64"
  using unsigned_less [of w, where 'a = nat] by simp

lemma sint_u64:
  "sint (w :: u64) = (if unat w < 2 ^ 63 then int (unat w) else int (unat w) - 2 ^ 64)"
proof -
  have "uint w = int (unat w)"
    by simp
  moreover have "int (unat w) < 2 ^ 63 \<longleftrightarrow> unat w < 2 ^ 63"
    using of_nat_less_iff [of "unat w" "2 ^ 63", where 'a = int]
    by (simp only: of_nat_power of_nat_numeral)
  ultimately show ?thesis
    unfolding sint_uint_u64 by presburger
qed

lemma sint_nonneg_u64: "0 \<le> sint (w :: u64) \<longleftrightarrow> unat w < 2 ^ 63"
proof -
  have "int (unat w) < 2 ^ 64"
    using uint_bounded [of w] by simp
  then show ?thesis
    unfolding sint_u64 by auto
qed

lemma unat_double_u64: "unat (w :: u64) < 2 ^ 63 \<Longrightarrow> unat (push_bit 1 w) = 2 * unat w"
  by (simp add: unat_mult_lem [THEN iffD1] push_bit_eq_mult)

lemma udivmod_justify_ok:
  assumes "unat den = D * 2 ^ k" "unat qbit = 2 ^ k" "0 < D"
  shows "\<exists>m d q. udivmod_justify den qbit = Some (d, q) \<and> unat d = D * 2 ^ m \<and> unat q = 2 ^ m \<and>
    2 ^ 63 \<le> unat d"
  using assms
proof (induction "2 ^ 64 - unat den" arbitrary: den qbit k rule: less_induct)
  case less
  show ?case
  proof (cases "unat den < 2 ^ 63")
    case True
    have "unat qbit \<le> unat den"
      using less.prems by simp
    with True have "unat qbit < 2 ^ 63"
      by linarith
    then have d: "unat (push_bit 1 den) = D * 2 ^ Suc k" "unat (push_bit 1 qbit) = 2 ^ Suc k"
      using True less.prems unat_double_u64 [of den] unat_double_u64 [of qbit] by simp_all
    moreover have "unat den < unat (push_bit 1 den)"
      using True less.prems unat_double_u64 [of den] by simp
    ultimately have "\<exists>m d q. udivmod_justify (push_bit 1 den) (push_bit 1 qbit) = Some (d, q) \<and>
        unat d = D * 2 ^ m \<and> unat q = 2 ^ m \<and> 2 ^ 63 \<le> unat d"
      using True less.prems(3) by (intro less.hyps [where k = "Suc k"]) auto
    then show ?thesis
      using True by (subst udivmod_justify.simps) (simp add: sint_nonneg_u64)
  next
    case False
    then have "udivmod_justify den qbit = Some (den, qbit)"
      by (subst udivmod_justify.simps) (simp add: sint_nonneg_u64)
    with False less.prems show ?thesis
      by auto
  qed
qed

declare udivmod_loop.simps [simp del]

text \<open>One round of the loop, before the two shifts.\<close>

lemma udivmod_round:
  assumes "unat num < 2 * unat den" "unat quot * D + unat num = N" "N < 2 ^ 64"
    "unat den = D * unat qbit" "0 < D" "qbit \<noteq> 0"
  obtains num' quot' where
    "udivmod_loop num den qbit quot = udivmod_loop num' (drop_bit 1 den) (drop_bit 1 qbit) quot'"
    "unat num' < unat den" "unat quot' * D + unat num' = N"
proof (cases "den \<le> num")
  case True
  then have n: "unat (num - den) = unat num - unat den" "unat den \<le> unat num"
    by (simp_all add: unat_sub word_le_nat_alt)
  have "(unat quot + unat qbit) * D + unat (num - den) = N"
    using n assms(2,4) by (simp add: algebra_simps)
  moreover from this have "unat quot + unat qbit \<le> N"
    using assms(5) by (metis le_add1 le_trans mult_le_mono2 nat_mult_1_right One_nat_def Suc_leI)
  then have "unat (quot + qbit) = unat quot + unat qbit"
    using assms(3) by (intro unat_add_lem [THEN iffD1]) simp
  moreover have "udivmod_loop num den qbit quot =
      udivmod_loop (num - den) (drop_bit 1 den) (drop_bit 1 qbit) (quot + qbit)"
    using True assms(6) by (subst udivmod_loop.simps) simp
  ultimately show ?thesis
    using that assms(1) n by simp
next
  case False
  then have "udivmod_loop num den qbit quot =
      udivmod_loop num (drop_bit 1 den) (drop_bit 1 qbit) quot"
    using assms(6) by (subst udivmod_loop.simps) simp
  then show ?thesis
    using that False assms(2) by (simp add: word_le_nat_alt)
qed

lemma udivmod_loop_ok:
  assumes "unat den = D * 2 ^ k" "unat qbit = 2 ^ k" "unat num < 2 * unat den"
    "unat quot * D + unat num = N" "N < 2 ^ 64" "0 < D"
  shows "udivmod_loop num den qbit quot = (of_nat (N div D), of_nat (N mod D))"
  using assms(1-4)
proof (induction k arbitrary: num den qbit quot)
  case 0
  then have q: "qbit = 1"
    by (simp add: word_eq_iff_unsigned [where 'a = nat])
  then obtain num' quot' where r: "udivmod_loop num den qbit quot =
      udivmod_loop num' (drop_bit 1 den) (drop_bit 1 qbit) quot'"
    "unat num' < unat den" "unat quot' * D + unat num' = N"
    using udivmod_round [OF 0(3,4) assms(5), of qbit] 0(1) assms(6) by auto
  then have "N div D = unat quot'" "N mod D = unat num'"
    using 0(1) by auto
  moreover have "udivmod_loop num den qbit quot = (quot', num')"
    using r(1) q by (simp add: udivmod_loop.simps)
  ultimately show ?case
    by (simp add: ucast_id)
next
  case (Suc k)
  then have "qbit \<noteq> 0"
    by auto
  then obtain num' quot' where r: "udivmod_loop num den qbit quot =
      udivmod_loop num' (drop_bit 1 den) (drop_bit 1 qbit) quot'"
    "unat num' < unat den" "unat quot' * D + unat num' = N"
    using udivmod_round [OF Suc.prems(3,4) assms(5), of qbit] Suc.prems assms(6) by auto
  have "unat (drop_bit 1 den) = D * 2 ^ k" "unat (drop_bit 1 qbit) = 2 ^ k"
    using Suc.prems by (simp_all add: unat_drop_bit_eq drop_bit_eq_div [where 'a = nat])
  with r show ?case
    using Suc.IH [of "drop_bit 1 den" "drop_bit 1 qbit" num' quot'] Suc.prems(1) by simp
qed

lemma my__udivmoddi4_ok:
  assumes "den \<noteq> 0"
  shows "my__udivmoddi4 num den = Some (num div den, num mod den)"
proof -
  have den: "0 < unat den"
    using assms by (simp add: unat_gt_0)
  then obtain m d q where j: "udivmod_justify den 1 = Some (d, q)" "unat d = unat den * 2 ^ m"
      "unat q = 2 ^ m" "2 ^ 63 \<le> unat d"
    using udivmod_justify_ok [of den "unat den" 0 1] by auto
  have lt: "unat num < 2 ^ 64"
    using unsigned_less [of num, where 'a = nat] by simp
  then have "unat num < 2 * unat d"
    using j(4) by simp
  then have "udivmod_loop num d q 0 = (of_nat (unat num div unat den), of_nat (unat num mod unat den))"
    using udivmod_loop_ok [OF j(2,3), of num 0 "unat num"] lt den by simp
  then show ?thesis
    using assms j(1) by (simp add: my__udivmoddi4_def word_div_def word_mod_def flip: unat_div unat_mod)
qed

section \<open>Signed 64-bit division\<close>

definition mag64 :: "u64 \<Rightarrow> u64" where
  "mag64 w = (if sint w < 0 then - w else w)"

lemma unat_minus_u64:
  assumes "(w :: u64) \<noteq> 0"
  shows "unat (- w) = 2 ^ 64 - unat w"
proof -
  have pos: "0 < unat w"
    using assms by (simp add: unat_gt_0)
  have "(of_nat (2 ^ 64 - unat w) :: u64) = of_nat (2 ^ 64) - of_nat (unat w)"
    using unat_less_u64 [of w] by (intro of_nat_diff) simp
  also have "\<dots> = - w"
    by (simp add: ucast_id)
  finally have "unat (- w) = unat (of_nat (2 ^ 64 - unat w) :: u64)"
    by simp
  also have "\<dots> = 2 ^ 64 - unat w"
    unfolding unat_of_nat using pos by (intro mod_less) simp
  finally show ?thesis .
qed

lemma unat_mag64: "int (unat (mag64 w)) = \<bar>sint w\<bar>"
proof (cases "unat w < 2 ^ 63")
  case True
  then show ?thesis
    by (simp add: mag64_def sint_u64)
next
  case False
  then have "w \<noteq> 0"
    by auto
  then have "unat (- w) = 2 ^ 64 - unat w"
    by (rule unat_minus_u64)
  then have "int (unat (- w)) = 2 ^ 64 - int (unat w)"
    using unat_less_u64 [of w] by (simp add: of_nat_diff)
  moreover have "sint w < 0" "sint w = int (unat w) - 2 ^ 64"
    using False sint_nonneg_u64 [of w] by (simp_all add: sint_u64)
  ultimately show ?thesis
    by (simp add: mag64_def)
qed

lemma signed_args_ok:
  assumes "num \<noteq> push_bit 63 1" "den \<noteq> push_bit 63 1"
  shows "signed_args num den = Some (mag64 num, mag64 den, (sint num < 0) \<noteq> (sint den < 0))"
  using assms by (auto simp: signed_args_def neg64_def mag64_def)

text \<open>A quotient or remainder of magnitudes, with the sign the flag asks for.\<close>

lemma neg_result:
  assumes "unat v < 2 ^ 63"
  shows "\<exists>r. (if neg then neg64 v else Some v) = Some r \<and>
    sint r = (if neg then - int (unat v) else int (unat v))"
proof (cases "neg \<and> v \<noteq> 0")
  case True
  have v: "v \<noteq> push_bit 63 1"
    using assms by auto
  have "\<bar>sint (- v)\<bar> = int (unat (mag64 (- v)))"
    by (rule unat_mag64 [symmetric])
  have u: "unat (- v) = 2 ^ 64 - unat v"
    using True by (intro unat_minus_u64) simp
  moreover have "0 < unat v"
    using True by (simp add: unat_gt_0)
  ultimately have "\<not> unat (- v) < 2 ^ 63"
    using assms by simp
  then have "sint (- v) = int (unat (- v)) - 2 ^ 64"
    by (simp add: sint_u64)
  also have "\<dots> = - int (unat v)"
    unfolding u using assms by (simp add: of_nat_diff)
  finally show ?thesis
    using True v by (simp add: neg64_def)
next
  case False
  then show ?thesis
    using assms by (auto simp: neg64_def sint_u64)
qed

lemma mag64_less:
  assumes "w \<noteq> push_bit 63 1"
  shows "unat (mag64 w) < 2 ^ 63"
proof -
  have "sint w \<noteq> - (2 ^ 63)"
  proof
    assume "sint w = - (2 ^ 63)"
    then have "sint w = sint (push_bit 63 1 :: u64)"
      by simp
    then show False
      using assms signed_word_eqI by blast
  qed
  moreover have "- (2 ^ 63) \<le> sint w" "sint w < 2 ^ 63"
    using sint_ge [of w] sint_less [of w] by simp_all
  ultimately have "\<bar>sint w\<bar> < 2 ^ 63"
    by linarith
  then have "int (unat (mag64 w)) < int (2 ^ 63)"
    unfolding unat_mag64 by simp
  then show ?thesis
    by (simp only: of_nat_less_iff)
qed

lemma mag64_0: "mag64 w = 0 \<longleftrightarrow> w = 0"
  by (simp add: mag64_def)

text \<open>C++ division truncates: the quotient and remainder of magnitudes, with signs.\<close>

lemma trunc_parts:
  "a sdiv b = (if (a < 0) \<noteq> (b < 0) then - (\<bar>a\<bar> div \<bar>b\<bar>) else \<bar>a\<bar> div \<bar>b\<bar>)"
  "a smod b = (if a < 0 then - (\<bar>a\<bar> mod \<bar>b\<bar>) else \<bar>a\<bar> mod \<bar>b\<bar>)" for a b :: int
  by (auto simp: signed_divide_int_def signed_modulo_int_def sgn_if)

lemma signed_parts:
  assumes "den \<noteq> 0" "num \<noteq> push_bit 63 1" "den \<noteq> push_bit 63 1"
  shows "\<exists>q r. my__divdi3 num den = Some q \<and> sint q = sint num sdiv sint den \<and>
    my__moddi3 num den = Some r \<and>
    sint r = (if sint den < 0 then - (sint num smod sint den) else sint num smod sint den)"
proof -
  let ?n = "mag64 num" and ?d = "mag64 den" and ?minus = "(sint num < 0) \<noteq> (sint den < 0)"
  have d: "?d \<noteq> 0"
    using assms(1) by (simp add: mag64_0)
  have "unat (?n div ?d) \<le> unat ?n" "unat (?n mod ?d) \<le> unat ?n"
    by (simp_all add: unat_div unat_mod)
  then have lt: "unat (?n div ?d) < 2 ^ 63" "unat (?n mod ?d) < 2 ^ 63"
    using mag64_less [OF assms(2)] by linarith+
  have i: "int (unat (?n div ?d)) = \<bar>sint num\<bar> div \<bar>sint den\<bar>"
      "int (unat (?n mod ?d)) = \<bar>sint num\<bar> mod \<bar>sint den\<bar>"
    by (simp_all only: unat_div unat_mod zdiv_int zmod_int unat_mag64)
  have "my__divdi3 num den = (if ?minus then neg64 (?n div ?d) else Some (?n div ?d))"
    "my__moddi3 num den = (if ?minus then neg64 (?n mod ?d) else Some (?n mod ?d))"
    using assms(2,3) d by (simp_all add: my__divdi3_def my__moddi3_def signed_args_ok my__udivmoddi4_ok)
  then show ?thesis
    using neg_result [OF lt(1), of ?minus] neg_result [OF lt(2), of ?minus] i
    by (auto simp: trunc_parts)
qed

section \<open>32-bit division by counting\<close>

lemma unat_add_u32: "unat x + unat y < 2 ^ 32 \<Longrightarrow> unat (x + y :: u32) = unat x + unat y"
  by (intro unat_add_lem [THEN iffD1]) simp

lemma uidiv_loop_ok:
  assumes "unat x = unat den * Suc n" "c = of_nat n" "0 < unat den" "n \<le> unat num div unat den"
    "unat num + unat den < 2 ^ 32"
  shows "uidiv_loop num den x c = Some (of_nat (unat num div unat den))"
  using assms(1,2,4)
proof (induction "unat num div unat den - n" arbitrary: n x c)
  case 0
  then have n: "n = unat num div unat den"
    by simp
  have "unat num < unat den * Suc n"
    unfolding n using assms(3) dividend_less_times_div [of "unat den" "unat num"] by simp
  then show ?case
    using 0 n by (subst uidiv_loop.simps) (simp add: word_le_nat_alt)
next
  case (Suc k)
  then have "Suc n \<le> unat num div unat den"
    by linarith
  then have le: "unat den * Suc n \<le> unat num"
    by (metis less_eq_div_iff_mult_less_eq assms(3) mult.commute)
  then have "unat (x + den) = unat den * Suc (Suc n)"
    using Suc.prems(1) assms(5) by (subst unat_add_u32) simp_all
  then have "uidiv_loop num den (x + den) (c + 1) = Some (of_nat (unat num div unat den))"
    using Suc.hyps(2) Suc.prems \<open>Suc n \<le> _\<close> by (intro Suc.hyps(1) [of "Suc n"]) simp_all
  then show ?case
    using le Suc.prems(1) by (subst uidiv_loop.simps) (simp add: word_le_nat_alt)
qed

lemma uidivmod_count_ok:
  assumes "unat x = unat den * Suc n" "c = of_nat n" "0 < unat den" "n \<le> (unat num - 1) div unat den"
    "unat num + unat den < 2 ^ 32"
  shows "uidivmod_count num den x c = Some (of_nat ((unat num - 1) div unat den))"
  using assms(1,2,4)
proof (induction "(unat num - 1) div unat den - n" arbitrary: n x c)
  case 0
  then have n: "n = (unat num - 1) div unat den"
    by simp
  have "unat num - 1 < unat den * Suc n"
    unfolding n using assms(3) dividend_less_times_div [of "unat den" "unat num - 1"] by simp
  then have "\<not> x < num"
    using 0(2) by (simp add: word_less_nat_alt)
  then show ?case
    using 0 n by (subst uidivmod_count.simps) simp
next
  case (Suc k)
  then have "Suc n \<le> (unat num - 1) div unat den"
    by linarith
  then have le: "unat den * Suc n \<le> unat num - 1"
    by (metis less_eq_div_iff_mult_less_eq assms(3) mult.commute)
  moreover have "0 < unat den * Suc n"
    using assms(3) by simp
  ultimately have lt: "unat den * Suc n < unat num"
    by linarith
  then have "unat (x + den) = unat den * Suc (Suc n)"
    using Suc.prems(1) assms(5) by (subst unat_add_u32) simp_all
  then have "uidivmod_count num den (x + den) (c + 1) = Some (of_nat ((unat num - 1) div unat den))"
    using Suc.hyps(2) Suc.prems \<open>Suc n \<le> _\<close> by (intro Suc.hyps(1) [of "Suc n"]) simp_all
  then show ?case
    using lt Suc.prems(1) by (subst uidivmod_count.simps) (simp add: word_less_nat_alt)
qed

lemma uidiv_loop_returns:
  assumes "uidiv_loop num den x c = Some r"
  shows "den = 0 \<longrightarrow> \<not> x \<le> num"
proof (rule uidiv_loop.raw_induct [where P = "\<lambda>num den x c r. den = 0 \<longrightarrow> \<not> x \<le> num"
      and xa = "(((num, den), x), c)", unfolded prod.case, OF _ assms])
  fix loop and num den x c r :: u32
  assume "\<And>num den x c r. loop num den x c = Some r \<Longrightarrow> den = 0 \<longrightarrow> \<not> x \<le> num"
    "(if x \<le> num then loop num den (x + den) (c + 1) else Some c) = Some r"
  then show "den = 0 \<longrightarrow> \<not> x \<le> num"
    by (metis add.right_neutral)
qed

lemma count_remainder:
  assumes "0 < (d :: nat)"
  shows "n - (n - 1) div d * d = (if n \<noteq> 0 \<and> n mod d = 0 then d else n mod d)"
    and "(n - 1) div d * d \<le> n"
proof -
  show le: "(n - 1) div d * d \<le> n"
    by (metis diff_le_self div_times_less_eq_dividend le_trans)
  show "n - (n - 1) div d * d = (if n \<noteq> 0 \<and> n mod d = 0 then d else n mod d)"
  proof (cases "n = 0")
    case False
    then obtain m where n: "n = Suc m"
      by (cases n) auto
    have "Suc m - m div d * d = Suc (m mod d)"
      by (metis Suc_diff_le div_times_less_eq_dividend minus_div_mult_eq_mod)
    then show ?thesis
      using n assms by (simp add: mod_Suc)
  qed simp
qed

lemma unat_eq_0_iff_u32: "unat (w :: u32) = 0 \<longleftrightarrow> w = 0"
  by (simp add: unat_eq_0)

lemma uidivmod_result:
  assumes "0 < unat den"
  shows "num - of_nat ((unat num - 1) div unat den) * den =
    (if num \<noteq> 0 \<and> num mod den = 0 then den else num mod den :: u32)"
proof -
  let ?c = "(unat num - 1) div unat den"
  have "num - of_nat ?c * den = of_nat (unat num) - of_nat (?c * unat den)"
    by (simp add: ucast_id)
  also have "\<dots> = of_nat (unat num - ?c * unat den)"
    using count_remainder(2) [OF assms] by (simp only: of_nat_diff)
  also have "\<dots> = of_nat (if unat num \<noteq> 0 \<and> unat num mod unat den = 0 then unat den
      else unat num mod unat den)"
    by (simp only: count_remainder(1) [OF assms])
  also have "\<dots> = (if num \<noteq> 0 \<and> num mod den = 0 then den else num mod den)"
    by (simp only: flip: unat_mod) (simp add: ucast_id unat_eq_0_iff_u32)
  finally show ?thesis .
qed

section \<open>Properties\<close>

text \<open>
  C3: the shift-and-subtract routine is unsigned 64-bit division.  For a non-zero denominator
  both loops end and \<^verbatim>\<open>my__udivmoddi4\<close> yields the quotient and the remainder, which
  \<^verbatim>\<open>my__udivdi3\<close> and \<^verbatim>\<open>my__umoddi3\<close> return; for a zero denominator all of them fault.
\<close>

theorem udivmoddi4_is_division:
  "my__udivmoddi4 num den = (if den = 0 then None else Some (num div den, num mod den)) \<and>
   my__udivdi3 num den = (if den = 0 then None else Some (num div den)) \<and>
   my__umoddi3 num den = (if den = 0 then None else Some (num mod den))"
  using my__udivmoddi4_ok [of den num]
  by (simp add: my__udivdi3_def my__umoddi3_def) (simp add: my__udivmoddi4_def)

text \<open>
  the signed wrappers, for operands whose magnitude is representable: \<^verbatim>\<open>my__divdi3\<close> is the
  truncating quotient of C++, but \<^verbatim>\<open>my__moddi3\<close> is the truncating remainder only for a positive
  denominator; for a negative one its sign is reversed.
\<close>

theorem divdi3_truncates:
  assumes "den \<noteq> 0" "num \<noteq> push_bit 63 1" "den \<noteq> push_bit 63 1"
  shows "\<exists>q r. my__divdi3 num den = Some q \<and> sint q = sint num sdiv sint den \<and>
    my__moddi3 num den = Some r \<and>
    sint r = (if sint den < 0 then - (sint num smod sint den) else sint num smod sint den)"
  using signed_parts [OF assms] .

theorem divdi3_truncates_witness:
  "\<exists>q r. my__divdi3 7 (- 2) = Some q \<and> sint q = - 3 \<and> my__moddi3 7 (- 2) = Some r \<and> sint r = - 1"
  using divdi3_truncates [of "- 2" 7] by simp

text \<open>
  32-bit division by counting.  When the numerator plus the denominator fits 32 bits,
  \<^verbatim>\<open>__aeabi_uidiv\<close> returns the quotient, and \<^verbatim>\<open>__aeabi_uidivmod\<close> returns the remainder except
  that it returns the denominator itself when that divides a non-zero numerator.  With a zero
  denominator \<^verbatim>\<open>__aeabi_uidiv\<close> never returns.
\<close>

theorem aeabi_division:
  assumes "0 < den" "unat num + unat den < 2 ^ 32"
  shows "aeabi_uidiv num den = Some (num div den) \<and>
    aeabi_uidivmod num den =
      Some (if num \<noteq> 0 \<and> num mod den = 0 then den else num mod den) \<and>
    aeabi_uidiv num 0 = None"
proof -
  have d: "0 < unat den"
    using assms(1) by (simp add: word_less_nat_alt)
  have "aeabi_uidiv num den = Some (num div den)"
    using uidiv_loop_ok [of den den 0 0 num] d assms(2)
    by (simp add: aeabi_uidiv_def ucast_id flip: unat_div)
  moreover have "aeabi_uidivmod num den =
      Some (if num \<noteq> 0 \<and> num mod den = 0 then den else num mod den)"
    using uidivmod_count_ok [of den den 0 0 num] d assms(2)
    by (simp add: aeabi_uidivmod_def flip: uidivmod_result [OF d])
  moreover have "aeabi_uidiv num 0 = None"
    using uidiv_loop_returns [of num 0 0 0] by (cases "aeabi_uidiv num 0") (auto simp: aeabi_uidiv_def)
  ultimately show ?thesis
    by blast
qed

theorem aeabi_division_witness:
  "aeabi_uidiv 12 4 = Some 3 \<and> aeabi_uidivmod 12 4 = Some 4 \<and> aeabi_uidivmod 13 4 = Some 1"
  using aeabi_division [of 4 12] aeabi_division [of 4 13] by simp

end
