(* ===== verification/Kernel_String.thy ===== *)
theory Kernel_String
  imports Kernel_Prelude
begin

text \<open>
  \<^verbatim>\<open>src/string.cpp\<close>: the raw memory routines of class \<^verbatim>\<open>Mem\<close> over a byte store, and class
  \<^verbatim>\<open>String\<close>.

  A byte store maps addresses to bytes; an address outside its domain is not accessible, and
  touching it is undefined behaviour (\<^term>\<open>None\<close>).

  A \<^verbatim>\<open>String\<close> is its length, its buffer and the byte \<open>m_null\<close>.  The length is \<^term>\<open>None\<close> while
  it is indeterminate: \<^verbatim>\<open>init(nullptr)\<close> does not write it, so an object constructed that way has
  none.  The buffer is \<^term>\<open>None\<close> for \<^verbatim>\<open>nullptr\<close> and otherwise the list of its bytes.  The
  argument \<open>junk\<close> of the operations that allocate gives the bytes a new block holds; allocation
  is taken to succeed (on failure the code writes through \<^verbatim>\<open>nullptr\<close>).
\<close>

section \<open>Raw memory\<close>

type_synonym byte_store = "nat \<rightharpoonup> u8"

definition mem_write :: "nat \<Rightarrow> u8 \<Rightarrow> byte_store \<Rightarrow> byte_store option" where
  "mem_write a v h = (if a \<in> dom h then Some (h(a \<mapsto> v)) else None)"

text \<open>\<^verbatim>\<open>*d++ = *s++\<close>, \<open>n\<close> times.\<close>

fun copy_up :: "nat \<Rightarrow> nat \<Rightarrow> nat \<Rightarrow> byte_store \<Rightarrow> byte_store option" where
  "copy_up 0 d s h = Some h"
| "copy_up (Suc n) d s h = do { v \<leftarrow> h s; h' \<leftarrow> mem_write d v h; copy_up n (Suc d) (Suc s) h' }"

text \<open>\<^verbatim>\<open>*d-- = *s--\<close>, \<open>n\<close> times, starting at \<^verbatim>\<open>dest + n - 1\<close> and \<^verbatim>\<open>src + n - 1\<close>.\<close>

fun copy_down :: "nat \<Rightarrow> nat \<Rightarrow> nat \<Rightarrow> byte_store \<Rightarrow> byte_store option" where
  "copy_down 0 d s h = Some h"
| "copy_down (Suc n) d s h = do { v \<leftarrow> h (s + n); h' \<leftarrow> mem_write (d + n) v h; copy_down n d s h' }"

definition Mem_copy :: "ptr \<Rightarrow> ptr \<Rightarrow> nat \<Rightarrow> byte_store \<Rightarrow> (ptr \<times> byte_store) option" where
  "Mem_copy dest src n h =
     (if dest = src then Some (dest, h)
      else case (dest, src) of
        (Some d, Some s) \<Rightarrow> do { h' \<leftarrow> copy_up n d s h; Some (dest, h') }
      | _ \<Rightarrow> Some (nullptr, h))"

definition Mem_move :: "ptr \<Rightarrow> ptr \<Rightarrow> nat \<Rightarrow> byte_store \<Rightarrow> (ptr \<times> byte_store) option" where
  "Mem_move dest src n h =
     (case (dest, src) of
        (Some d, Some s) \<Rightarrow>
          (if d = s then Some (dest, h)
           else if s < d then do { h' \<leftarrow> copy_down n d s h; Some (dest, h') }
           else Mem_copy dest src n h)
      | _ \<Rightarrow> Some (nullptr, h))"

fun set_loop :: "nat \<Rightarrow> nat \<Rightarrow> u8 \<Rightarrow> byte_store \<Rightarrow> byte_store option" where
  "set_loop 0 d c h = Some h"
| "set_loop (Suc n) d c h = do { h' \<leftarrow> mem_write d c h; set_loop n (Suc d) c h' }"

text \<open>\<^verbatim>\<open>Mem::set\<close> does not test for \<^verbatim>\<open>nullptr\<close>.\<close>

definition Mem_set :: "ptr \<Rightarrow> u8 \<Rightarrow> nat \<Rightarrow> byte_store \<Rightarrow> (ptr \<times> byte_store) option" where
  "Mem_set s c n h =
     (case s of Some d \<Rightarrow> do { h' \<leftarrow> set_loop n d c h; Some (s, h') }
      | None \<Rightarrow> if n = 0 then Some (s, h) else None)"

text \<open>\<^verbatim>\<open>Mem::setw\<close> stores 16-bit values, low byte first.\<close>

fun setw_loop :: "nat \<Rightarrow> nat \<Rightarrow> u16 \<Rightarrow> byte_store \<Rightarrow> byte_store option" where
  "setw_loop 0 d c h = Some h"
| "setw_loop (Suc n) d c h = do {
     h1 \<leftarrow> mem_write d (ucast c) h;
     h2 \<leftarrow> mem_write (Suc d) (ucast (drop_bit 8 c)) h1;
     setw_loop n (d + 2) c h2 }"

definition Mem_setw :: "ptr \<Rightarrow> u16 \<Rightarrow> nat \<Rightarrow> byte_store \<Rightarrow> (ptr \<times> byte_store) option" where
  "Mem_setw s c n h =
     (case s of Some d \<Rightarrow> do { h' \<leftarrow> setw_loop n d c h; Some (s, h') }
      | None \<Rightarrow> if n = 0 then Some (s, h) else None)"

text \<open>The bytes are compared as \<^verbatim>\<open>char\<close>, which is signed.\<close>

fun cmp_loop :: "nat \<Rightarrow> nat \<Rightarrow> nat \<Rightarrow> byte_store \<Rightarrow> int option" where
  "cmp_loop 0 a b h = Some 0"
| "cmp_loop (Suc n) a b h = do {
     x \<leftarrow> h a;
     y \<leftarrow> h b;
     (if sint x < sint y then Some (- 1)
      else if sint x > sint y then Some 1
      else cmp_loop n (Suc a) (Suc b) h) }"

definition Mem_cmp :: "ptr \<Rightarrow> ptr \<Rightarrow> nat \<Rightarrow> byte_store \<Rightarrow> int option" where
  "Mem_cmp s1 s2 n h =
     (case (s1, s2) of
        (None, _) \<Rightarrow> Some (- 1)
      | (Some _, None) \<Rightarrow> Some 1
      | (Some a, Some b) \<Rightarrow> cmp_loop n a b h)"

definition memcpy :: "ptr \<Rightarrow> ptr \<Rightarrow> nat \<Rightarrow> byte_store \<Rightarrow> (ptr \<times> byte_store) option" where
  "memcpy dest src n h = Mem_move dest src n h"

definition memmove :: "ptr \<Rightarrow> ptr \<Rightarrow> nat \<Rightarrow> byte_store \<Rightarrow> (ptr \<times> byte_store) option" where
  "memmove dest src n h = Mem_move dest src n h"

definition memset :: "ptr \<Rightarrow> u32 \<Rightarrow> nat \<Rightarrow> byte_store \<Rightarrow> (ptr \<times> byte_store) option" where
  "memset s c n h = Mem_set s (ucast c) n h"

section \<open>Class String\<close>

record kstring =
  m_length :: "u32 option"
  m_str :: "u8 list option"
  m_null :: u8

definition String_empty :: kstring where
  "String_empty = \<lparr>m_length = Some 0, m_str = None, m_null = 0\<rparr>"

text \<open>An object whose constructor has initialised only \<open>m_null\<close>.\<close>

definition String_raw :: kstring where
  "String_raw = \<lparr>m_length = None, m_str = None, m_null = 0\<rparr>"

definition new_buffer :: "(nat \<Rightarrow> u8) \<Rightarrow> u32 \<Rightarrow> u8 list" where
  "new_buffer junk n = map junk [0..<unat n]"

definition buf_put :: "nat \<Rightarrow> u8 \<Rightarrow> u8 list \<Rightarrow> u8 list option" where
  "buf_put i c b = (if i < length b then Some (b[i := c]) else None)"

definition buf_get :: "u8 list option \<Rightarrow> nat \<Rightarrow> u8 option" where
  "buf_get s i = do { b \<leftarrow> s; (if i < length b then Some (b ! i) else None) }"

text \<open>\<open>n\<close> bytes of \<open>src\<close> stored from position \<open>i\<close> of \<open>b\<close>; \<^verbatim>\<open>nullptr\<close> as source stores nothing.\<close>

definition buf_store :: "nat \<Rightarrow> u8 list option \<Rightarrow> nat \<Rightarrow> u8 list \<Rightarrow> u8 list option" where
  "buf_store i src n b =
     (case src of None \<Rightarrow> Some b
      | Some s \<Rightarrow> if n \<le> length s \<and> i + n \<le> length b
                 then Some (take i b @ take n s @ drop (i + n) b) else None)"

text \<open>\<^verbatim>\<open>String::length(const char *)\<close>: the position of the terminating zero.\<close>

fun cstr_scan :: "u8 list \<Rightarrow> u32 \<Rightarrow> u32 option" where
  "cstr_scan [] cnt = None"
| "cstr_scan (c # cs) cnt = (if c = 0 then Some cnt else cstr_scan cs (cnt + 1))"

definition String_length_cstr :: "u8 list option \<Rightarrow> u32 option" where
  "String_length_cstr str = (case str of None \<Rightarrow> Some 0 | Some b \<Rightarrow> cstr_scan b 0)"

definition String_init :: "(nat \<Rightarrow> u8) \<Rightarrow> u8 list option \<Rightarrow> u32 \<Rightarrow> kstring \<Rightarrow> kstring option" where
  "String_init junk str len this =
     (case str of
        Some b \<Rightarrow> do {
          n \<leftarrow> (if 0 \<le> sint len then Some len else String_length_cstr str);
          buf \<leftarrow> buf_store 0 str (unat n) (new_buffer junk (n + 1));
          buf \<leftarrow> buf_put (unat n) 0 buf;
          Some (this\<lparr>m_length := Some n, m_str := Some buf\<rparr>) }
      | None \<Rightarrow> Some (this\<lparr>m_str := None\<rparr>))"

definition String_from_cstr :: "(nat \<Rightarrow> u8) \<Rightarrow> u8 list option \<Rightarrow> kstring option" where
  "String_from_cstr junk str = String_init junk str (- 1) String_raw"

definition String_copy :: "(nat \<Rightarrow> u8) \<Rightarrow> kstring \<Rightarrow> kstring option" where
  "String_copy junk str = do { n \<leftarrow> m_length str; String_init junk (m_str str) n String_raw }"

definition String_from_char :: "(nat \<Rightarrow> u8) \<Rightarrow> u8 \<Rightarrow> kstring option" where
  "String_from_char junk c = do {
     buf \<leftarrow> buf_put 0 c (new_buffer junk 2);
     buf \<leftarrow> buf_put 1 0 buf;
     Some (String_raw\<lparr>m_length := Some 1, m_str := Some buf\<rparr>) }"

definition String_destroy :: "kstring \<Rightarrow> kstring" where
  "String_destroy this = this\<lparr>m_str := None\<rparr>"

definition String_length :: "kstring \<Rightarrow> u32 option" where
  "String_length this = m_length this"

definition String_at :: "u32 \<Rightarrow> kstring \<Rightarrow> u8 option" where
  "String_at pos this = do {
     n \<leftarrow> m_length this;
     (if pos \<ge> n then Some (m_null this) else buf_get (m_str this) (unat pos)) }"

text \<open>\<^verbatim>\<open>MM::realloc\<close> on a buffer: the old bytes are kept as far as they fit.\<close>

definition realloc_buffer :: "(nat \<Rightarrow> u8) \<Rightarrow> u8 list option \<Rightarrow> u32 \<Rightarrow> u8 list" where
  "realloc_buffer junk old n =
     (let b = (case old of None \<Rightarrow> [] | Some b \<Rightarrow> b)
      in take (unat n) b @ drop (length b) (new_buffer junk n))"

definition String_append_bytes ::
  "(nat \<Rightarrow> u8) \<Rightarrow> u8 list option \<Rightarrow> u32 \<Rightarrow> kstring \<Rightarrow> kstring option" where
  "String_append_bytes junk str len this = do {
     n \<leftarrow> m_length this;
     let new_length = n + len;
     let tmp = realloc_buffer junk (m_str this) (new_length + 1);
     tmp \<leftarrow> buf_store (unat n) str (unat len) tmp;
     tmp \<leftarrow> buf_put (unat new_length) 0 tmp;
     Some (this\<lparr>m_str := Some tmp, m_length := Some new_length\<rparr>) }"

definition String_append :: "(nat \<Rightarrow> u8) \<Rightarrow> kstring \<Rightarrow> kstring \<Rightarrow> kstring option" where
  "String_append junk str this = do {
     len \<leftarrow> m_length str; String_append_bytes junk (m_str str) len this }"

definition String_append_cstr :: "(nat \<Rightarrow> u8) \<Rightarrow> u8 list option \<Rightarrow> kstring \<Rightarrow> kstring option" where
  "String_append_cstr junk str this = do {
     len \<leftarrow> String_length_cstr str; String_append_bytes junk str len this }"

text \<open>\<^verbatim>\<open>operator=\<close> on an object other than its argument.\<close>

definition String_assign :: "(nat \<Rightarrow> u8) \<Rightarrow> kstring \<Rightarrow> kstring \<Rightarrow> kstring option" where
  "String_assign junk str this = do {
     n \<leftarrow> m_length str; String_init junk (m_str str) n this }"

definition String_add :: "(nat \<Rightarrow> u8) \<Rightarrow> kstring \<Rightarrow> kstring \<Rightarrow> kstring option" where
  "String_add junk str this = do {
     len \<leftarrow> m_length str; String_append_bytes junk (m_str str) len this }"

definition String_add_cstr :: "(nat \<Rightarrow> u8) \<Rightarrow> u8 list option \<Rightarrow> kstring \<Rightarrow> kstring option" where
  "String_add_cstr junk str this = do {
     s \<leftarrow> String_from_cstr junk str; String_append junk s this }"

definition String_add_char :: "(nat \<Rightarrow> u8) \<Rightarrow> u8 \<Rightarrow> kstring \<Rightarrow> kstring option" where
  "String_add_char junk c this = do {
     n \<leftarrow> m_length this;
     let tmp = realloc_buffer junk (m_str this) (n + 2);
     tmp \<leftarrow> buf_put (unat n) c tmp;
     tmp \<leftarrow> buf_put (unat (n + 1)) 0 tmp;
     Some (this\<lparr>m_str := Some tmp, m_length := Some (n + 1)\<rparr>) }"

text \<open>The comparison loop from position \<open>i\<close> with \<open>k\<close> bytes left.\<close>

fun same_bytes :: "u8 list option \<Rightarrow> u8 list option \<Rightarrow> nat \<Rightarrow> nat \<Rightarrow> bool option" where
  "same_bytes s t 0 i = Some True"
| "same_bytes s t (Suc k) i = do {
     x \<leftarrow> buf_get s i;
     y \<leftarrow> buf_get t i;
     (if x \<noteq> y then Some False else same_bytes s t k (Suc i)) }"

definition String_eq :: "kstring \<Rightarrow> kstring \<Rightarrow> bool option" where
  "String_eq this other = do {
     n \<leftarrow> m_length other;
     m \<leftarrow> m_length this;
     (if n \<noteq> m then Some False else same_bytes (m_str this) (m_str other) (unat m) 0) }"

definition String_startsWith :: "kstring \<Rightarrow> kstring \<Rightarrow> bool option" where
  "String_startsWith this other = do {
     len \<leftarrow> m_length other;
     m \<leftarrow> m_length this;
     (if m < len then Some False else same_bytes (m_str this) (m_str other) (unat len) 0) }"

text \<open>The loop \<^verbatim>\<open>res += m_str[i]\<close> from \<open>i\<close> with \<open>k\<close> bytes left.\<close>

fun right_loop :: "(nat \<Rightarrow> u8) \<Rightarrow> u8 list option \<Rightarrow> nat \<Rightarrow> nat \<Rightarrow> kstring \<Rightarrow> kstring option" where
  "right_loop junk s 0 i res = Some res"
| "right_loop junk s (Suc k) i res = do {
     c \<leftarrow> buf_get s i;
     res \<leftarrow> String_add_char junk c res;
     right_loop junk s k (Suc i) res }"

definition String_right :: "(nat \<Rightarrow> u8) \<Rightarrow> u32 \<Rightarrow> kstring \<Rightarrow> kstring option" where
  "String_right junk index this = do {
     n \<leftarrow> m_length this;
     right_loop junk (m_str this) (unat n - unat index) (unat index) String_empty }"

text \<open>The loop of \<^verbatim>\<open>left\<close>, which advances \<open>index\<close> and never \<open>cnt\<close>.\<close>

fun left_loop :: "(nat \<Rightarrow> u8) \<Rightarrow> u8 list option \<Rightarrow> nat \<Rightarrow> nat \<Rightarrow> u32 \<Rightarrow> u32 \<Rightarrow> kstring \<Rightarrow> kstring option" where
  "left_loop junk s 0 i cnt index res = Some res"
| "left_loop junk s (Suc k) i cnt index res = do {
     c \<leftarrow> buf_get s i;
     res \<leftarrow> String_add_char junk c res;
     (if cnt \<ge> index then Some res else left_loop junk s k (Suc i) cnt (index + 1) res) }"

definition String_left :: "(nat \<Rightarrow> u8) \<Rightarrow> u32 \<Rightarrow> kstring \<Rightarrow> kstring option" where
  "String_left junk index this = do {
     n \<leftarrow> m_length this; left_loop junk (m_str this) (unat n) 0 0 index String_empty }"

section \<open>Raw memory: correctness\<close>

definition mapped :: "byte_store \<Rightarrow> nat \<Rightarrow> nat \<Rightarrow> bool" where
  "mapped h a n \<longleftrightarrow> (\<forall>i. a \<le> i \<and> i < a + n \<longrightarrow> i \<in> dom h)"

text \<open>The store in which the range at \<open>d\<close> holds what the range at \<open>s\<close> held.\<close>

definition moved :: "nat \<Rightarrow> nat \<Rightarrow> nat \<Rightarrow> byte_store \<Rightarrow> byte_store" where
  "moved n d s h = (\<lambda>a. if d \<le> a \<and> a < d + n then h (s + (a - d)) else h a)"

lemma mapped_at: "mapped h a n \<Longrightarrow> a \<le> i \<Longrightarrow> i < a + n \<Longrightarrow> \<exists>v. h i = Some v"
  by (auto simp: mapped_def)

lemma mapped_upd: "mapped h a n \<Longrightarrow> mapped (h(i \<mapsto> v)) a n"
  by (auto simp: mapped_def)

lemma mapped_sub: "mapped h a n \<Longrightarrow> a \<le> b \<Longrightarrow> b + m \<le> a + n \<Longrightarrow> mapped h b m"
  by (auto simp: mapped_def)

lemma copy_up_moved:
  assumes "mapped h s n" "mapped h d n" "d \<le> s \<or> s + n \<le> d"
  shows "copy_up n d s h = Some (moved n d s h)"
  using assms
proof (induction n arbitrary: d s h)
  case 0
  then show ?case
    by (auto simp: moved_def fun_eq_iff)
next
  case (Suc n)
  obtain v w where v: "h s = Some v" "h d = Some w"
    using Suc.prems mapped_at [of h s "Suc n" s] mapped_at [of h d "Suc n" d] by auto
  let ?h = "h(d \<mapsto> v)"
  have "mapped ?h (Suc s) n" "mapped ?h (Suc d) n"
    using Suc.prems(1,2) by (auto intro!: mapped_upd elim: mapped_sub)
  moreover have "Suc d \<le> Suc s \<or> Suc s + n \<le> Suc d"
    using Suc.prems(3) by auto
  ultimately have "copy_up n (Suc d) (Suc s) ?h = Some (moved n (Suc d) (Suc s) ?h)"
    by (rule Suc.IH)
  moreover have "moved n (Suc d) (Suc s) ?h = moved (Suc n) d s h"
  proof
    fix a
    have "Suc s + (a - Suc d) = s + (a - d)" if "Suc d \<le> a"
      using that by simp
    then show "moved n (Suc d) (Suc s) ?h a = moved (Suc n) d s h a"
      using v Suc.prems(3) by (cases "a = d") (auto simp: moved_def)
  qed
  ultimately show ?case
    using v by (simp add: mem_write_def domI)
qed

lemma copy_down_moved:
  assumes "mapped h s n" "mapped h d n" "s < d"
  shows "copy_down n d s h = Some (moved n d s h)"
  using assms
proof (induction n arbitrary: h)
  case 0
  then show ?case
    by (auto simp: moved_def fun_eq_iff)
next
  case (Suc n)
  obtain v w where v: "h (s + n) = Some v" "h (d + n) = Some w"
    using Suc.prems mapped_at [of h s "Suc n" "s + n"] mapped_at [of h d "Suc n" "d + n"] by auto
  let ?h = "h(d + n \<mapsto> v)"
  have "mapped ?h s n" "mapped ?h d n"
    using Suc.prems(1,2) by (auto intro!: mapped_upd elim: mapped_sub)
  then have "copy_down n d s ?h = Some (moved n d s ?h)"
    using Suc.prems(3) by (rule Suc.IH)
  moreover have "moved n d s ?h = moved (Suc n) d s h"
    using v Suc.prems(3) by (auto simp: moved_def fun_eq_iff less_Suc_eq)
  ultimately show ?case
    using v by (simp add: mem_write_def domI)
qed

lemma moved_self: "moved n d d h = h"
  by (auto simp: moved_def fun_eq_iff)

lemma set_loop_ok:
  "mapped h d n \<Longrightarrow> set_loop n d c h = Some (\<lambda>a. if d \<le> a \<and> a < d + n then Some c else h a)"
proof (induction n arbitrary: d h)
  case (Suc n)
  have "mapped (h(d \<mapsto> c)) (Suc d) n" "d \<in> dom h"
    using Suc.prems by (auto intro!: mapped_upd elim: mapped_sub simp: mapped_def)
  moreover from this(1) have "set_loop n (Suc d) c (h(d \<mapsto> c)) =
      Some (\<lambda>a. if Suc d \<le> a \<and> a < Suc d + n then Some c else (h(d \<mapsto> c)) a)"
    by (rule Suc.IH)
  ultimately show ?case
    by (simp add: mem_write_def domIff) (auto simp: fun_eq_iff)
qed (auto simp: fun_eq_iff)

lemma cmp_loop_ok:
  assumes "\<And>i. i < length xs \<Longrightarrow> h (a + i) = Some (xs ! i)" "\<And>i. i < length ys \<Longrightarrow> h (b + i) = Some (ys ! i)"
    "length xs = n" "length ys = n"
  shows "cmp_loop n a b h = Some (if xs = ys then 0
    else if (map sint xs, map sint ys) \<in> lexord {(x, y). x < y} then - 1 else 1)"
  using assms
proof (induction n arbitrary: xs ys a b)
  case (Suc n)
  obtain x xs' y ys' where [simp]: "xs = x # xs'" "ys = y # ys'"
    using Suc.prems(3,4) by (meson length_Suc_conv)
  have "h a = Some x" "h b = Some y"
    using Suc.prems(1) [of 0] Suc.prems(2) [of 0] by simp_all
  moreover have "cmp_loop n (Suc a) (Suc b) h = Some (if xs' = ys' then 0
      else if (map sint xs', map sint ys') \<in> lexord {(x, y). x < y} then - 1 else 1)"
    using Suc.prems(1) [of "Suc _"] Suc.prems(2) [of "Suc _"] Suc.prems(3,4)
    by (intro Suc.IH) auto
  moreover have "sint x = sint y \<longleftrightarrow> x = y"
    by (metis signed_word_eqI)
  ultimately show ?case
    by auto
qed simp

section \<open>Strings: correctness\<close>

text \<open>The object holds the bytes \<open>bs\<close>, followed by a terminating zero.\<close>

definition String_is :: "kstring \<Rightarrow> u8 list \<Rightarrow> bool" where
  "String_is k bs \<longleftrightarrow> length bs < 2 ^ 31 \<and> m_length k = Some (of_nat (length bs)) \<and>
     (case m_str k of None \<Rightarrow> bs = []
      | Some b \<Rightarrow> length bs < length b \<and> take (Suc (length bs)) b = bs @ [0])"

lemma String_is_empty: "String_is String_empty []"
  by (simp add: String_is_def String_empty_def)

lemma length_new_buffer [simp]: "length (new_buffer junk n) = unat n"
  by (simp add: new_buffer_def)

lemma length_realloc [simp]: "length (realloc_buffer junk old n) = unat n"
  by (auto simp: realloc_buffer_def split: option.splits)

lemma take_realloc:
  "k \<le> unat n \<Longrightarrow> k \<le> length b \<Longrightarrow> take k (realloc_buffer junk (Some b) n) = take k b"
  by (simp add: realloc_buffer_def min_def)

lemma String_is_bytes:
  "String_is k bs \<Longrightarrow> length bs \<le> unat n \<Longrightarrow> take (length bs) (realloc_buffer junk (m_str k) n) = bs"
  by (cases "m_str k") (auto simp: String_is_def take_realloc take_Suc_conv_app_nth)

lemma nth_of_take: "take (length bs) a = bs \<Longrightarrow> i < length bs \<Longrightarrow> a ! i = bs ! i"
  by (metis nth_take)

lemma String_is_get:
  "String_is k bs \<Longrightarrow> i < length bs \<Longrightarrow> buf_get (m_str k) i = Some (bs ! i)"
  by (cases "m_str k") (auto simp: String_is_def buf_get_def take_Suc_conv_app_nth dest: nth_of_take)

lemma unat_of_nat_31 [simp]: "n < 2 ^ 31 \<Longrightarrow> unat (of_nat n :: u32) = n"
  by (rule unat_of_nat_u32) simp

text \<open>A buffer built from a prefix, a stored piece and the terminating zero is a string.\<close>

lemma String_is_built:
  assumes "length buf = Suc (length bs)" "take (length bs) buf = bs" "length bs < 2 ^ 31"
    "m_length k = Some (of_nat (length bs))" "m_str k = Some (buf[length bs := 0])"
  shows "String_is k bs"
proof -
  have "take (Suc (length bs)) (buf[length bs := 0]) = bs @ [0]"
    using assms(1,2) by (subst take_Suc_conv_app_nth) simp_all
  with assms show ?thesis
    by (simp add: String_is_def)
qed

lemma String_is_append_bytes:
  assumes k: "String_is k bs" and src: "String_is t cs" and len: "length bs + length cs < 2 ^ 31"
  shows "\<exists>k'. String_append_bytes junk (m_str t) (of_nat (length cs)) k = Some k' \<and>
    String_is k' (bs @ cs) \<and> m_null k' = m_null k"
proof -
  let ?n = "length bs + length cs"
  let ?r = "realloc_buffer junk (m_str k) (of_nat (Suc ?n))"
  have u: "unat (of_nat (Suc ?n) :: u32) = Suc ?n"
    using len by (intro unat_of_nat_u32) simp
  then have r: "length ?r = Suc ?n" "take (length bs) ?r = bs"
    using String_is_bytes [OF k, of "of_nat (Suc ?n)" junk] by simp_all
  obtain buf where buf: "buf_store (length bs) (m_str t) (length cs) ?r = Some buf"
      "length buf = Suc ?n" "take ?n buf = bs @ cs"
  proof (cases "m_str t")
    case None
    then have "cs = []"
      using src by (simp add: String_is_def)
    then show ?thesis
      using None r that [of ?r] by (simp add: buf_store_def)
  next
    case (Some b)
    then have "length cs \<le> length b" "take (length cs) b = cs"
      using src by (auto simp: String_is_def take_Suc_conv_app_nth)
    then show ?thesis
      using Some r that [of "take (length bs) ?r @ take (length cs) b @ drop ?n ?r"]
      by (simp add: buf_store_def)
  qed
  have lt: "length bs < 2 ^ 31"
    using len by simp
  have "String_append_bytes junk (m_str t) (of_nat (length cs)) k =
      Some (k\<lparr>m_str := Some (buf[?n := 0]), m_length := Some (of_nat ?n)\<rparr>)"
    using buf k len unat_of_nat_31 [OF len] unat_of_nat_31 [OF lt] unat_of_nat_31 [of "length cs"]
    by (simp add: String_append_bytes_def String_is_def Let_def buf_put_def add.commute add.left_commute)
  moreover have "String_is (k\<lparr>m_str := Some (buf[?n := 0]), m_length := Some (of_nat ?n)\<rparr>) (bs @ cs)"
    using buf len by (intro String_is_built [of buf]) simp_all
  ultimately show ?thesis
    by simp
qed

lemma String_is_add_char:
  assumes k: "String_is k bs" and len: "Suc (length bs) < 2 ^ 31"
  shows "\<exists>k'. String_add_char junk c k = Some k' \<and> String_is k' (bs @ [c]) \<and> m_null k' = m_null k"
proof -
  let ?r = "realloc_buffer junk (m_str k) (of_nat (length bs + 2))"
  have u: "unat (of_nat (length bs + 2) :: u32) = length bs + 2"
    using len by (intro unat_of_nat_u32) simp
  then have r: "length ?r = length bs + 2" "take (length bs) ?r = bs"
    using String_is_bytes [OF k, of "of_nat (length bs + 2)" junk] by simp_all
  have "String_add_char junk c k = Some (k\<lparr>m_str := Some (?r[length bs := c, Suc (length bs) := 0]),
      m_length := Some (of_nat (Suc (length bs)))\<rparr>)"
    using r k len unat_of_nat_31 [OF len] unat_of_nat_31 [of "length bs"]
    by (simp add: String_add_char_def String_is_def Let_def buf_put_def add.commute)
  moreover have "String_is (k\<lparr>m_str := Some (?r[length bs := c, Suc (length bs) := 0]),
      m_length := Some (of_nat (Suc (length bs)))\<rparr>) (bs @ [c])"
    using r len
    by (intro String_is_built [of "?r[length bs := c]"]) (simp_all add: take_Suc_conv_app_nth)
  ultimately show ?thesis
    by simp
qed

text \<open>A C string: the bytes \<open>bs\<close>, none of them zero, then a zero.\<close>

definition cstr :: "u8 list \<Rightarrow> u8 list option" where
  "cstr bs = Some (bs @ [0])"

lemma cstr_scan_ok: "0 \<notin> set bs \<Longrightarrow> cstr_scan (bs @ [0]) n = Some (n + of_nat (length bs))"
  by (induction bs arbitrary: n) (auto simp: algebra_simps)

lemma String_length_cstr_ok: "0 \<notin> set bs \<Longrightarrow> String_length_cstr (cstr bs) = Some (of_nat (length bs))"
  by (simp add: String_length_cstr_def cstr_def cstr_scan_ok)

lemma sint_len_nonneg: "n < 2 ^ 31 \<Longrightarrow> 0 \<le> sint (of_nat n :: u32)"
  by (simp add: sint_uint take_bit_nat_eq_self uint_nat signed_take_bit_int_eq_self unsigned_of_nat)

lemma buf_store_0_ok:
  "length bs \<le> length b \<Longrightarrow> take (length bs) b = bs \<Longrightarrow> length new = Suc (length bs) \<Longrightarrow>
   buf_store 0 (Some b) (length bs) new = Some (bs @ drop (length bs) new)"
  by (simp add: buf_store_def)

lemma String_init_ok:
  assumes "length bs < 2 ^ 31" "length bs \<le> length b" "take (length bs) b = bs"
    "len = of_nat (length bs) \<or> sint len < 0 \<and> String_length_cstr (Some b) = Some (of_nat (length bs))"
  shows "\<exists>k'. String_init junk (Some b) len k = Some k' \<and> String_is k' bs \<and> m_null k' = m_null k"
proof -
  let ?n = "length bs"
  have n: "(if 0 \<le> sint len then Some len else String_length_cstr (Some b)) = Some (of_nat ?n)"
    using assms(4) sint_len_nonneg [OF assms(1)] by auto
  have u: "unat (of_nat (Suc ?n) :: u32) = Suc ?n"
    using assms(1) by (intro unat_of_nat_u32) simp
  let ?buf = "bs @ drop ?n (new_buffer junk (of_nat (Suc ?n)))"
  have "buf_store 0 (Some b) ?n (new_buffer junk (of_nat (Suc ?n))) = Some ?buf"
    using assms(2,3) u by (intro buf_store_0_ok) simp_all
  then have "String_init junk (Some b) len k =
      Some (k\<lparr>m_length := Some (of_nat ?n), m_str := Some (?buf[?n := 0])\<rparr>)"
    using n u unat_of_nat_31 [OF assms(1)]
    by (simp add: String_init_def buf_put_def add.commute del: of_nat_add)
  moreover have "String_is (k\<lparr>m_length := Some (of_nat ?n), m_str := Some (?buf[?n := 0])\<rparr>) bs"
    using u assms(1) by (intro String_is_built [of ?buf]) simp_all
  ultimately show ?thesis
    by simp
qed

lemma String_is_from_cstr:
  assumes "0 \<notin> set bs" "length bs < 2 ^ 31"
  shows "\<exists>k. String_from_cstr junk (cstr bs) = Some k \<and> String_is k bs"
  using String_init_ok [of bs "bs @ [0]" "- 1" junk String_raw] assms String_length_cstr_ok [OF assms(1)]
  by (auto simp: String_from_cstr_def cstr_def)

lemma String_is_copy:
  assumes "String_is t bs" "m_str t \<noteq> None"
  shows "\<exists>k. String_copy junk t = Some k \<and> String_is k bs"
    and "\<exists>k'. String_assign junk t k = Some k' \<and> String_is k' bs"
proof -
  obtain b where b: "m_str t = Some b" "length bs \<le> length b" "take (length bs) b = bs"
      "length bs < 2 ^ 31" "m_length t = Some (of_nat (length bs))"
    using assms by (auto simp: String_is_def take_Suc_conv_app_nth)
  then show "\<exists>k. String_copy junk t = Some k \<and> String_is k bs"
      "\<exists>k'. String_assign junk t k = Some k' \<and> String_is k' bs"
    using String_init_ok [of bs b "of_nat (length bs)" junk]
    by (auto simp: String_copy_def String_assign_def)
qed

lemma same_bytes_ok:
  assumes "String_is s xs" "String_is t ys" "i + n \<le> length xs" "i + n \<le> length ys"
  shows "same_bytes (m_str s) (m_str t) n i = Some (take n (drop i xs) = take n (drop i ys))"
  using assms(3,4)
proof (induction n arbitrary: i)
  case (Suc n)
  then have "buf_get (m_str s) i = Some (xs ! i)" "buf_get (m_str t) i = Some (ys ! i)"
    using String_is_get assms(1,2) by auto
  moreover have "drop i xs = xs ! i # drop (Suc i) xs" "drop i ys = ys ! i # drop (Suc i) ys"
    using Suc.prems by (simp_all add: drop_nth_Cons)
  ultimately show ?case
    using Suc by simp
qed simp

lemma String_is_length: "String_is k bs \<Longrightarrow> m_length k = Some (of_nat (length bs)) \<and> length bs < 2 ^ 31"
  by (simp add: String_is_def)

lemma String_eq_ok:
  assumes "String_is s xs" "String_is t ys"
  shows "String_eq s t = Some (xs = ys)"
proof -
  have "(of_nat (length ys) :: u32) = of_nat (length xs) \<longleftrightarrow> length ys = length xs"
    using String_is_length [OF assms(1)] String_is_length [OF assms(2)]
    by (intro of_nat_u32_eq_iff) simp_all
  then show ?thesis
    using String_is_length [OF assms(1)] String_is_length [OF assms(2)]
      same_bytes_ok [OF assms, of 0 "length xs"]
    by (auto simp: String_eq_def)
qed

lemma String_startsWith_ok:
  assumes "String_is s xs" "String_is t ys"
  shows "String_startsWith s t = Some (\<exists>zs. xs = ys @ zs)"
proof -
  note l = String_is_length [OF assms(1)] String_is_length [OF assms(2)]
  have "(of_nat (length xs) :: u32) < of_nat (length ys) \<longleftrightarrow> length xs < length ys"
    using l by (simp add: word_less_nat_alt)
  moreover have "take (length ys) xs = ys \<longleftrightarrow> (\<exists>zs. xs = ys @ zs)"
    by (metis append_eq_conv_conj append_take_drop_id)
  ultimately show ?thesis
    using l same_bytes_ok [OF assms, of 0 "length ys"] by (auto simp: String_startsWith_def)
qed

lemma right_loop_ok:
  assumes "String_is s xs" "String_is res rs" "i + n = length xs" "length rs + n < 2 ^ 31"
  shows "\<exists>k. right_loop junk (m_str s) n i res = Some k \<and> String_is k (rs @ drop i xs)"
  using assms(2-4)
proof (induction n arbitrary: i res rs)
  case (Suc n)
  then have "buf_get (m_str s) i = Some (xs ! i)"
    using String_is_get assms(1) by auto
  moreover obtain k where k: "String_add_char junk (xs ! i) res = Some k" "String_is k (rs @ [xs ! i])"
    using String_is_add_char [OF Suc.prems(1)] Suc.prems(3) by auto
  moreover have "drop i xs = xs ! i # drop (Suc i) xs"
    using Suc.prems(2) by (simp add: drop_nth_Cons)
  ultimately show ?case
    using Suc.IH [OF k(2), of "Suc i"] Suc.prems by simp
qed auto

lemma String_right_ok:
  assumes "String_is s xs"
  shows "\<exists>k. String_right junk n s = Some k \<and> String_is k (drop (unat n) xs)"
proof (cases "unat n \<le> length xs")
  case True
  then show ?thesis
    using right_loop_ok [OF assms String_is_empty, of "unat n" "length xs - unat n" junk]
      String_is_length [OF assms]
    by (auto simp: String_right_def)
next
  case False
  then show ?thesis
    using String_is_length [OF assms] String_is_empty by (auto simp: String_right_def)
qed

lemma String_at_ok:
  assumes "String_is s xs"
  shows "String_at n s = Some (if unat n < length xs then xs ! unat n else m_null s)"
  using String_is_length [OF assms] String_is_get [OF assms, of "unat n"]
  by (auto simp: String_at_def word_le_nat_alt)

lemma left_loop_ok:
  assumes "String_is s xs" "String_is res rs" "i + n = length xs" "length rs + n < 2 ^ 31"
    "0 < index" "unat index + n < 2 ^ 32"
  shows "\<exists>k. left_loop junk (m_str s) n i 0 index res = Some k \<and> String_is k (rs @ drop i xs)"
  using assms(2-6)
proof (induction n arbitrary: i res rs index)
  case (Suc n)
  then have "buf_get (m_str s) i = Some (xs ! i)"
    using String_is_get assms(1) by auto
  moreover obtain k where k: "String_add_char junk (xs ! i) res = Some k" "String_is k (rs @ [xs ! i])"
    using String_is_add_char [OF Suc.prems(1)] Suc.prems(3) by auto
  moreover have "drop i xs = xs ! i # drop (Suc i) xs"
    using Suc.prems(2) by (simp add: drop_nth_Cons)
  moreover have u: "unat (index + 1) = Suc (unat index)"
    using Suc.prems(5) unat_add_lem [of index 1] by simp
  then have "0 < index + 1" "unat (index + 1) + n < 2 ^ 32"
    using Suc.prems(5) by (simp_all add: word_less_nat_alt)
  ultimately show ?case
    using Suc.IH [OF k(2), of "Suc i" "index + 1"] Suc.prems by (simp add: word_le_nat_alt word_less_nat_alt)
qed auto

section \<open>Properties\<close>

text \<open>
  C4: \<^verbatim>\<open>Mem::move\<close> (hence \<^verbatim>\<open>memmove\<close> and \<^verbatim>\<open>memcpy\<close>) copies correctly however the two ranges
  overlap: when both are accessible, afterwards the destination holds what the source held
  before, and no other byte has changed.  \<^verbatim>\<open>Mem::copy\<close>, which always copies upwards, has the same
  result unless the destination starts inside the source range.
\<close>

theorem Mem_move_correct:
  assumes "mapped h s n" "mapped h d n"
  shows "Mem_move (Some d) (Some s) n h = Some (Some d, moved n d s h) \<and>
    memmove (Some d) (Some s) n h = Some (Some d, moved n d s h) \<and>
    memcpy (Some d) (Some s) n h = Some (Some d, moved n d s h) \<and>
    (d \<le> s \<or> s + n \<le> d \<longrightarrow> Mem_copy (Some d) (Some s) n h = Some (Some d, moved n d s h))"
proof -
  have copy: "Mem_copy (Some d) (Some s) n h = Some (Some d, moved n d s h)" if "d \<le> s \<or> s + n \<le> d"
    using copy_up_moved [OF assms that] moved_self by (simp add: Mem_copy_def)
  have "Mem_move (Some d) (Some s) n h = Some (Some d, moved n d s h)"
    using copy copy_down_moved [OF assms] moved_self by (auto simp: Mem_move_def not_less)
  with copy show ?thesis
    by (simp add: memmove_def memcpy_def)
qed

definition sample_store :: byte_store where
  "sample_store = (\<lambda>a. if a < 8 then Some (of_nat a) else None)"

lemma mapped_sample: "a + n \<le> 8 \<Longrightarrow> mapped sample_store a n"
  by (auto simp: mapped_def sample_store_def)

theorem Mem_move_correct_witness:
  "\<exists>h. Mem_move (Some 2) (Some 0) 4 sample_store = Some (Some 2, h) \<and>
    h 2 = Some 0 \<and> h 5 = Some 3 \<and> h 6 = Some 6"
  using Mem_move_correct [of sample_store 0 4 2] mapped_sample [of 0 4] mapped_sample [of 2 4]
  by (simp add: moved_def sample_store_def)

text \<open>
  \<^verbatim>\<open>Mem::cmp\<close> on two accessible ranges is the lexicographic comparison of their bytes read
  as signed characters: 0 exactly for equal ranges, otherwise -1 or 1.
\<close>

theorem Mem_cmp_lexicographic:
  assumes "\<And>i. i < n \<Longrightarrow> h (a + i) = Some (xs ! i)" "\<And>i. i < n \<Longrightarrow> h (b + i) = Some (ys ! i)"
    "length xs = n" "length ys = n"
  shows "Mem_cmp (Some a) (Some b) n h = Some (if xs = ys then 0
    else if (map sint xs, map sint ys) \<in> lexord {(x, y). x < y} then - 1 else 1)"
  using cmp_loop_ok [of xs h a ys b n] assms by (simp add: Mem_cmp_def)

theorem Mem_cmp_lexicographic_witness:
  "Mem_cmp (Some 1) (Some 3) 2 sample_store = Some (- 1)"
proof -
  have "sample_store (1 + i) = Some ([1, 2] ! i)" "sample_store (3 + i) = Some ([3, 4] ! i)"
    if "i < 2" for i
    using that by (auto simp: less_2_cases_iff sample_store_def)
  then show ?thesis
    using Mem_cmp_lexicographic [of 2 sample_store 1 "[1, 2]" 3 "[3, 4]"] by simp
qed

text \<open>
  C5: strings refine byte lists.  The constructor from a C string, concatenation by \<^verbatim>\<open>append\<close>
  and \<^verbatim>\<open>+=\<close>, \<^verbatim>\<open>right\<close>, equality, the prefix test, \<^verbatim>\<open>length\<close> and \<^verbatim>\<open>at\<close> compute the
  corresponding list operations, as long as the lengths stay below \<open>2 ^ 31\<close>; every buffer stays
  zero terminated.
\<close>

theorem String_refines_list:
  assumes "String_is s xs" "String_is t ys" "length xs + length ys < 2 ^ 31"
    "Suc (length xs) < 2 ^ 31" "0 \<notin> set zs" "length zs < 2 ^ 31"
  shows "(\<exists>k. String_from_cstr junk (cstr zs) = Some k \<and> String_is k zs) \<and>
    (\<exists>k. String_append junk t s = Some k \<and> String_is k (xs @ ys)) \<and>
    (\<exists>k. String_add junk t s = Some k \<and> String_is k (xs @ ys)) \<and>
    (\<exists>k. String_add_char junk c s = Some k \<and> String_is k (xs @ [c])) \<and>
    (\<exists>k. String_right junk i s = Some k \<and> String_is k (drop (unat i) xs)) \<and>
    String_eq s t = Some (xs = ys) \<and>
    String_startsWith s t = Some (\<exists>ws. xs = ys @ ws) \<and>
    String_length s = Some (of_nat (length xs)) \<and>
    String_at i s = Some (if unat i < length xs then xs ! unat i else m_null s)"
proof -
  have "\<exists>k. String_append_bytes junk (m_str t) (of_nat (length ys)) s = Some k \<and> String_is k (xs @ ys)"
    using String_is_append_bytes [OF assms(1,2,3)] by blast
  then have "\<exists>k. String_append junk t s = Some k \<and> String_is k (xs @ ys)"
      "\<exists>k. String_add junk t s = Some k \<and> String_is k (xs @ ys)"
    using String_is_length [OF assms(2)] by (simp_all add: String_append_def String_add_def)
  moreover have "\<exists>k. String_add_char junk c s = Some k \<and> String_is k (xs @ [c])"
    using String_is_add_char [OF assms(1,4)] by blast
  ultimately show ?thesis
    using String_is_from_cstr [OF assms(5,6)] String_right_ok [OF assms(1)] String_eq_ok [OF assms(1,2)]
      String_startsWith_ok [OF assms(1,2)] String_at_ok [OF assms(1)] String_is_length [OF assms(1)]
    by (simp add: String_length_def)
qed

definition sample_string :: "u8 list \<Rightarrow> kstring" where
  "sample_string bs = \<lparr>m_length = Some (of_nat (length bs)), m_str = Some (bs @ [0]), m_null = 0\<rparr>"

lemma String_is_sample: "length bs < 2 ^ 31 \<Longrightarrow> String_is (sample_string bs) bs"
  by (simp add: String_is_def sample_string_def)

theorem String_refines_list_witness:
  "(\<exists>k. String_append (\<lambda>_. 9) (sample_string [3]) (sample_string [1, 2]) = Some k \<and>
     String_is k [1, 2, 3]) \<and>
   String_startsWith (sample_string [1, 2]) (sample_string [3]) = Some False"
  using String_refines_list [of "sample_string [1, 2]" "[1, 2]" "sample_string [3]" "[3]" "[]" "\<lambda>_. 9"]
  by (simp add: String_is_sample)

text \<open>
  three defects of the class.  \<^verbatim>\<open>left(n)\<close> returns the whole string for every positive \<open>n\<close>
  that does not overflow the counter, because the loop advances \<open>index\<close> instead of \<open>cnt\<close>, and one
  character for \<open>n = 0\<close>.  Copying an empty string without a buffer leaves the length of the copy
  indeterminate, so that comparing the copy has no defined result.  Assigning such a string to a
  non-empty one keeps the old length with no buffer: the next read of its first byte
  dereferences \<^verbatim>\<open>nullptr\<close>.
\<close>

theorem String_defects:
  assumes "String_is s (x # xs)"
  shows "(0 < n \<and> unat n + length (x # xs) < 2 ^ 32 \<longrightarrow>
      (\<exists>k. String_left junk n s = Some k \<and> String_is k (x # xs))) \<and>
    (\<exists>k. String_left junk 0 s = Some k \<and> String_is k [x]) \<and>
    (\<exists>k. String_copy junk String_empty = Some k \<and> String_length k = None \<and> String_eq k s = None) \<and>
    (\<exists>k. String_assign junk String_empty s = Some k \<and>
      String_length k = Some (of_nat (length (x # xs))) \<and> String_at 0 k = None)"
proof -
  note l = String_is_length [OF assms]
  have "\<exists>k. String_left junk n s = Some k \<and> String_is k (x # xs)"
    if "0 < n" "unat n + length (x # xs) < 2 ^ 32"
  proof -
    have "\<exists>k. left_loop junk (m_str s) (length (x # xs)) 0 0 n String_empty = Some k \<and>
        String_is k ([] @ drop 0 (x # xs))"
      using l that by (intro left_loop_ok [OF assms String_is_empty]) simp_all
    moreover have "String_left junk n s = left_loop junk (m_str s) (length (x # xs)) 0 0 n String_empty"
      using l by (simp add: String_left_def del: of_nat_Suc left_loop.simps list.size)
    ultimately show ?thesis
      by simp
  qed
  moreover have "\<exists>k. String_left junk 0 s = Some k \<and> String_is k [x]"
  proof -
    obtain k where "String_add_char junk x String_empty = Some k" "String_is k [x]"
      using String_is_add_char [OF String_is_empty, of junk x] by auto
    moreover have "unat (of_nat (length (x # xs)) :: u32) = Suc (length xs)"
      using l by (simp only: unat_of_nat_31) simp
    ultimately show ?thesis
      using l String_is_get [OF assms, of 0] by (simp add: String_left_def del: of_nat_Suc)
  qed
  moreover have "\<not> (of_nat (length (x # xs)) :: u32) \<le> 0"
    using l of_nat_u32_eq_iff [of "length (x # xs)" 0] by simp
  ultimately show ?thesis
    using l by (simp add: String_copy_def String_init_def String_empty_def String_raw_def String_eq_def
        String_length_def String_assign_def String_at_def buf_get_def del: of_nat_Suc)
qed

theorem String_defects_witness:
  "\<exists>k. String_left (\<lambda>_. 9) 1 (sample_string [5, 6, 7]) = Some k \<and> String_is k [5, 6, 7]"
  using String_defects [of "sample_string [5, 6, 7]" 5 "[6, 7]" 1 "\<lambda>_. 9"] by (simp add: String_is_sample)

end
