(* ===== verification/Allocator.thy ===== *)
theory Allocator
  imports Kernel_Prelude "HOL-Library.Tree"
begin

text \<open>
  The memory manager \<^verbatim>\<open>MM\<close> of \<^verbatim>\<open>src/mm.cpp\<close> on the 32-bit target.

  Pointers are 32-bit values with 0 for \<^verbatim>\<open>nullptr\<close>, so that the address arithmetic wraps as it
  does in the code.  The state has the three bump pointers, the root of the tree of free blocks
  (\<^verbatim>\<open>__mm_last_free\<close>), the block headers by address, and the bytes of memory.  Reading a header
  where there is none is undefined behaviour (\<^term>\<open>None\<close>), and so is a walk through a cyclic tree,
  which never ends.  The pages come from \<^verbatim>\<open>Paging::alloc\<close>: the argument \<open>page\<close> of an operation is
  what that call returns if the operation makes it.  The lock around the operations is the
  subject of theory \<open>Task_Sync\<close>.
\<close>

section \<open>The state\<close>

datatype ptr_state = PtrStateNone | PtrStateUsed | PtrStateFreed

record ptr_info =
  pi_prev :: u32
  pi_next :: u32
  pi_size :: u32
  pi_ressize :: u32
  pi_state :: ptr_state
  pi_used :: bool

record mm =
  m_lastPage :: u32
  m_freeTop :: u32
  m_freeMax :: u32
  mm_last_free :: u32
  headers :: "u32 \<rightharpoonup> ptr_info"
  mm_bytes :: "u32 \<Rightarrow> u8"

datatype alloc_type = AllocNormal | AllocFast | AllocClear | AllocPage

definition SIZEMASK :: u32 where
  "SIZEMASK = 0xFFFFFFFF"

text \<open>Four words and the bit fields.\<close>

definition sizeof_PtrInfo :: u32 where
  "sizeof_PtrInfo = 20"

definition ptr_to_ptrinfo :: "u32 \<Rightarrow> u32" where
  "ptr_to_ptrinfo p = p - sizeof_PtrInfo"

definition ptrinfo_to_ptr :: "u32 \<Rightarrow> u32" where
  "ptrinfo_to_ptr a = a + sizeof_PtrInfo"

definition MM_new :: "(u32 \<Rightarrow> u8) \<Rightarrow> mm" where
  "MM_new bytes = \<lparr>m_lastPage = 0, m_freeTop = 0, m_freeMax = 0, mm_last_free = 0,
     headers = Map.empty, mm_bytes = bytes\<rparr>"

definition upd_header :: "u32 \<Rightarrow> (ptr_info \<Rightarrow> ptr_info) \<Rightarrow> mm \<Rightarrow> mm option" where
  "upd_header a f s = do { i \<leftarrow> headers s a; Some (s\<lparr>headers := (headers s)(a \<mapsto> f i)\<rparr>) }"

section \<open>The tree of free blocks\<close>

text \<open>The loop of \<^verbatim>\<open>treeAdd\<close> at the node \<open>tmp\<close>, for the block \<open>cur\<close>.\<close>

partial_function (option) treeAdd_walk :: "u32 \<Rightarrow> u32 \<Rightarrow> mm \<Rightarrow> mm option" where
  "treeAdd_walk cur tmp s =
     (if tmp = 0 then Some s
      else do {
        c \<leftarrow> headers s cur;
        t \<leftarrow> headers s tmp;
        (if pi_size c < pi_size t
         then if pi_prev t = 0 then upd_header tmp (pi_prev_update (\<lambda>_. ptrinfo_to_ptr cur)) s
              else treeAdd_walk cur (ptr_to_ptrinfo (pi_prev t)) s
         else if pi_next t = 0 then upd_header tmp (pi_next_update (\<lambda>_. ptrinfo_to_ptr cur)) s
              else treeAdd_walk cur (ptr_to_ptrinfo (pi_next t)) s) })"

definition MM_treeAdd :: "u32 \<Rightarrow> mm \<Rightarrow> mm option" where
  "MM_treeAdd cur s =
     (if cur = 0 then Some s
      else do {
        s \<leftarrow> upd_header cur (\<lambda>i. i\<lparr>pi_next := 0, pi_prev := 0\<rparr>) s;
        (if mm_last_free s = 0 then Some (s\<lparr>mm_last_free := ptrinfo_to_ptr cur\<rparr>)
         else treeAdd_walk cur (ptr_to_ptrinfo (mm_last_free s)) s) })"

text \<open>\<open>p\<close> and \<open>parent\<close> are header addresses; the result is \<open>p\<close>.\<close>

definition MM_releaseFree :: "u32 \<Rightarrow> u32 \<Rightarrow> mm \<Rightarrow> (u32 \<times> mm) option" where
  "MM_releaseFree p parent s =
     (if p = 0 then Some (0, s)
      else do {
        i \<leftarrow> headers s p;
        s \<leftarrow> (if parent = 0
              then if pi_prev i = 0 \<and> pi_next i \<noteq> 0 then Some (s\<lparr>mm_last_free := pi_next i\<rparr>)
                   else if pi_prev i \<noteq> 0 \<and> pi_next i = 0 then Some (s\<lparr>mm_last_free := pi_prev i\<rparr>)
                   else if pi_prev i \<noteq> 0 \<and> pi_next i \<noteq> 0
                   then MM_treeAdd (ptr_to_ptrinfo (pi_prev i)) (s\<lparr>mm_last_free := pi_next i\<rparr>)
                   else Some (s\<lparr>mm_last_free := 0\<rparr>)
              else do {
                q \<leftarrow> headers s parent;
                s \<leftarrow> (if pi_prev q = ptrinfo_to_ptr p
                      then upd_header parent (pi_prev_update (\<lambda>_. 0)) s
                      else if pi_next q = ptrinfo_to_ptr p
                      then upd_header parent (pi_next_update (\<lambda>_. 0)) s
                      else Some s);
                s \<leftarrow> (if pi_prev i \<noteq> 0 then MM_treeAdd (ptr_to_ptrinfo (pi_prev i)) s else Some s);
                j \<leftarrow> headers s p;
                (if pi_next j \<noteq> 0 then MM_treeAdd (ptr_to_ptrinfo (pi_next j)) s else Some s) });
        s \<leftarrow> upd_header p (\<lambda>i. i\<lparr>pi_next := 0, pi_prev := 0\<rparr>) s;
        Some (p, s) })"

partial_function (option) findAvail_walk :: "u32 \<Rightarrow> u32 \<Rightarrow> u32 \<Rightarrow> mm \<Rightarrow> (u32 \<times> mm) option" where
  "findAvail_walk sz tmp tmp2 s =
     (if tmp = 0 then Some (0, s)
      else do {
        t \<leftarrow> headers s tmp;
        (if pi_size t = sz then MM_releaseFree tmp tmp2 s
         else if sz < pi_size t
         then if pi_prev t \<noteq> 0 then findAvail_walk sz (ptr_to_ptrinfo (pi_prev t)) tmp s
              else if pi_next t = 0 then Some (0, s)
              else do {
                n \<leftarrow> headers s (ptr_to_ptrinfo (pi_next t));
                (if sz \<le> pi_size n then findAvail_walk sz (ptr_to_ptrinfo (pi_next t)) tmp s
                 else Some (0, s)) }
         else if pi_next t \<noteq> 0 then findAvail_walk sz (ptr_to_ptrinfo (pi_next t)) tmp s
              else if pi_prev t = 0 then Some (0, s)
              else do {
                n \<leftarrow> headers s (ptr_to_ptrinfo (pi_prev t));
                (if sz \<ge> pi_size n then findAvail_walk sz (ptr_to_ptrinfo (pi_prev t)) tmp s
                 else Some (0, s)) }) })"

definition MM_findAvail :: "u32 \<Rightarrow> mm \<Rightarrow> (u32 \<times> mm) option" where
  "MM_findAvail sz s =
     (if mm_last_free s = 0 then Some (0, s)
      else findAvail_walk sz (ptr_to_ptrinfo (mm_last_free s)) 0 s)"

section \<open>Allocation and release\<close>

definition MM_freeNoLock :: "u32 \<Rightarrow> mm \<Rightarrow> (bool \<times> mm) option" where
  "MM_freeNoLock p s =
     (if p = 0 then Some (False, s)
      else do {
        let cur = ptr_to_ptrinfo p;
        i \<leftarrow> headers s cur;
        (if \<not> pi_used i then Some (False, s)
         else if pi_state i = PtrStateFreed then Some (False, s)
         else if pi_state i \<noteq> PtrStateUsed then Some (False, s)
         else do {
           s \<leftarrow> upd_header cur (\<lambda>i. i\<lparr>pi_prev := 0, pi_next := 0, pi_state := PtrStateFreed,
                  pi_used := False\<rparr>) s;
           s \<leftarrow> MM_treeAdd cur s;
           Some (True, s) }) })"

text \<open>A header written over raw memory.\<close>

definition put_header :: "u32 \<Rightarrow> u32 \<Rightarrow> u32 \<Rightarrow> mm \<Rightarrow> mm" where
  "put_header a sz ressz s = s\<lparr>headers := (headers s)(a \<mapsto> \<lparr>pi_prev = 0, pi_next = 0,
     pi_size = sz AND SIZEMASK, pi_ressize = ressz AND SIZEMASK, pi_state = PtrStateUsed,
     pi_used = True\<rparr>)\<rparr>"

text \<open>The remaining end of the last pages, turned into a free block.\<close>

definition recycle_tail :: "mm \<Rightarrow> mm option" where
  "recycle_tail s =
     (if m_lastPage s \<noteq> 0 \<and> m_freeTop s \<noteq> 0 \<and> m_freeMax s \<noteq> 0 \<and>
         m_freeTop s + sizeof_PtrInfo + 4 < m_freeMax s
      then do {
        let diff = m_freeMax s - m_freeTop s;
        (_, s) \<leftarrow> MM_freeNoLock (ptrinfo_to_ptr (m_freeTop s))
                   (put_header (m_freeTop s) (diff - sizeof_PtrInfo) diff s);
        Some s }
      else Some s)"

text \<open>The part of \<^verbatim>\<open>allocMem\<close> that takes the block from the bump area or from new pages.\<close>

definition alloc_fresh :: "u32 \<Rightarrow> u32 \<Rightarrow> mm \<Rightarrow> (u32 \<times> mm) option" where
  "alloc_fresh page size2 s = do {
     let cnt = size2 div PAGE_SIZE + (if size2 mod PAGE_SIZE \<noteq> 0 then 1 else 0);
     (ptr, s) \<leftarrow> (if m_lastPage s = 0 \<or> m_freeTop s = 0 \<or> m_freeMax s = 0 \<or>
                     m_freeTop s + size2 \<ge> m_freeMax s
       then do {
         s \<leftarrow> recycle_tail s;
         (if page = 0 then Some (0, s)
          else Some (page, s\<lparr>m_lastPage := page, m_freeTop := page,
                           m_freeMax := page + cnt * PAGE_SIZE\<rparr>)) }
       else Some (m_freeTop s, s));
     (if ptr = 0 then Some (0, s)
      else Some (ptr, if m_freeTop s \<noteq> 0 then s\<lparr>m_freeTop := m_freeTop s + size2\<rparr> else s)) }"

definition MM_allocMem :: "u32 \<Rightarrow> u32 \<Rightarrow> alloc_type \<Rightarrow> mm \<Rightarrow> (u32 \<times> mm) option" where
  "MM_allocMem page sz t s = do {
     let size2 = sz + sizeof_PtrInfo;
     (ptr, s) \<leftarrow> (if t = AllocNormal then MM_findAvail sz s else Some (0, s));
     (ptr, s) \<leftarrow> (if ptr \<noteq> 0 then Some (ptr, s) else alloc_fresh page size2 s);
     (if ptr = 0 then Some (0, s)
      else Some (ptrinfo_to_ptr ptr, put_header ptr sz size2 s)) }"

definition clear_bytes :: "u32 \<Rightarrow> u32 \<Rightarrow> (u32 \<Rightarrow> u8) \<Rightarrow> u32 \<Rightarrow> u8" where
  "clear_bytes p n m = (\<lambda>a. if a - p < n then 0 else m a)"

definition MM_allocMemClear :: "u32 \<Rightarrow> u32 \<Rightarrow> mm \<Rightarrow> (u32 \<times> mm) option" where
  "MM_allocMemClear page sz s = do {
     (ptr, s) \<leftarrow> MM_allocMem page sz AllocNormal s;
     (if ptr = 0 then Some (0, s)
      else Some (ptr, s\<lparr>mm_bytes := clear_bytes ptr sz (mm_bytes s)\<rparr>)) }"

definition MM_alloc :: "u32 \<Rightarrow> u32 \<Rightarrow> alloc_type \<Rightarrow> mm \<Rightarrow> (u32 \<times> mm) option" where
  "MM_alloc page sz t s =
     (if sz > SIZEMASK - sizeof_PtrInfo then Some (0, s)
      else case t of
        AllocNormal \<Rightarrow> MM_allocMem page sz t s
      | AllocFast \<Rightarrow> MM_allocMem page sz t s
      | AllocClear \<Rightarrow> MM_allocMemClear page sz s
      | AllocPage \<Rightarrow> Some (page, s))"

definition MM_free :: "u32 \<Rightarrow> mm \<Rightarrow> (bool \<times> mm) option" where
  "MM_free p s = MM_freeNoLock p s"

text \<open>\<^verbatim>\<open>Mem::move\<close> of \<open>n\<close> bytes between two blocks.\<close>

definition move_bytes :: "u32 \<Rightarrow> u32 \<Rightarrow> u32 \<Rightarrow> (u32 \<Rightarrow> u8) \<Rightarrow> u32 \<Rightarrow> u8" where
  "move_bytes d p n m = (\<lambda>a. if a - d < n then m (p + (a - d)) else m a)"

definition MM_realloc :: "u32 \<Rightarrow> u32 \<Rightarrow> u32 \<Rightarrow> mm \<Rightarrow> (u32 \<times> mm) option" where
  "MM_realloc page ptr sz s =
     (if sz = 0 \<and> ptr \<noteq> 0 then do { (_, s) \<leftarrow> MM_free ptr s; Some (0, s) }
      else if ptr = 0 then MM_alloc page sz AllocNormal s
      else do {
        old \<leftarrow> headers s (ptr_to_ptrinfo ptr);
        (if pi_size old = sz then Some (ptr, s)
         else do {
           (tmp, s) \<leftarrow> MM_alloc page sz AllocNormal s;
           (if tmp = 0 then Some (0, s)
            else if pi_state old = PtrStateFreed then Some (tmp, s)
            else do {
              old \<leftarrow> headers s (ptr_to_ptrinfo ptr);
              let s = s\<lparr>mm_bytes := move_bytes tmp ptr (min (pi_size old) sz) (mm_bytes s)\<rparr>;
              (_, s) \<leftarrow> MM_freeNoLock ptr s;
              Some (tmp, s) }) }) })"

definition malloc :: "u32 \<Rightarrow> u32 \<Rightarrow> mm \<Rightarrow> (u32 \<times> mm) option" where
  "malloc page sz s = MM_alloc page sz AllocNormal s"

definition calloc :: "u32 \<Rightarrow> u32 \<Rightarrow> u32 \<Rightarrow> mm \<Rightarrow> (u32 \<times> mm) option" where
  "calloc page cnt sz s = MM_alloc page (cnt * sz) AllocClear s"

definition realloc :: "u32 \<Rightarrow> u32 \<Rightarrow> u32 \<Rightarrow> mm \<Rightarrow> (u32 \<times> mm) option" where
  "realloc page ptr sz s = MM_realloc page ptr sz s"

definition free :: "u32 \<Rightarrow> mm \<Rightarrow> mm option" where
  "free ptr s = map_option snd (MM_free ptr s)"

section \<open>The tree the pointers form\<close>

text \<open>
  \<open>tree_at h p t\<close>: from the user pointer \<open>p\<close> the links \<open>prev\<close> and \<open>next\<close> form the tree \<open>t\<close> of
  header addresses.  \<open>size_bst\<close> is the order \<^verbatim>\<open>treeAdd\<close> keeps, and \<open>tree_add\<close> what it does.
\<close>

fun tree_at :: "(u32 \<rightharpoonup> ptr_info) \<Rightarrow> u32 \<Rightarrow> u32 tree \<Rightarrow> bool" where
  "tree_at h p Leaf \<longleftrightarrow> p = 0"
| "tree_at h p (Node l a r) \<longleftrightarrow> p = ptrinfo_to_ptr a \<and> p \<noteq> 0 \<and> a \<noteq> 0 \<and>
     (\<exists>i. h a = Some i \<and> tree_at h (pi_prev i) l \<and> tree_at h (pi_next i) r)"

lemma tree_at_NodeI [rep_intros]:
  "p = ptrinfo_to_ptr a \<Longrightarrow> p \<noteq> 0 \<Longrightarrow> a \<noteq> 0 \<Longrightarrow> h a = Some i \<Longrightarrow> tree_at h (pi_prev i) l \<Longrightarrow>
   tree_at h (pi_next i) r \<Longrightarrow> tree_at h p (Node l a r)"
  by auto

definition hsize :: "(u32 \<rightharpoonup> ptr_info) \<Rightarrow> u32 \<Rightarrow> u32" where
  "hsize h a = (case h a of Some i \<Rightarrow> pi_size i | None \<Rightarrow> 0)"

fun size_bst :: "(u32 \<Rightarrow> u32) \<Rightarrow> u32 tree \<Rightarrow> bool" where
  "size_bst sz Leaf \<longleftrightarrow> True"
| "size_bst sz (Node l a r) \<longleftrightarrow> (\<forall>x \<in> set_tree l. sz x < sz a) \<and> (\<forall>x \<in> set_tree r. sz a \<le> sz x) \<and>
     size_bst sz l \<and> size_bst sz r"

fun tree_add :: "(u32 \<Rightarrow> u32) \<Rightarrow> u32 \<Rightarrow> u32 tree \<Rightarrow> u32 tree" where
  "tree_add sz c Leaf = Node Leaf c Leaf"
| "tree_add sz c (Node l a r) =
     (if sz c < sz a then Node (tree_add sz c l) a r else Node l a (tree_add sz c r))"

lemma size_bst_cong: "(\<And>b. b \<in> set_tree t \<Longrightarrow> f b = g b) \<Longrightarrow> size_bst g t \<Longrightarrow> size_bst f t"
  by (induction t) auto

lemma set_tree_add [simp]: "set_tree (tree_add sz c t) = insert c (set_tree t)"
  by (induction t) auto

lemma size_bst_add: "size_bst sz t \<Longrightarrow> size_bst sz (tree_add sz c t)"
  by (induction t) auto

definition distinct_tree :: "u32 tree \<Rightarrow> bool" where
  "distinct_tree t \<longleftrightarrow> distinct (inorder t)"

lemma distinct_tree_simps [simp]:
  "distinct_tree Leaf"
  "distinct_tree (Node l a r) \<longleftrightarrow> distinct_tree l \<and> distinct_tree r \<and> a \<notin> set_tree l \<and>
     a \<notin> set_tree r \<and> set_tree l \<inter> set_tree r = {}"
  by (auto simp: distinct_tree_def)

lemma distinct_tree_add: "distinct_tree t \<Longrightarrow> c \<notin> set_tree t \<Longrightarrow> distinct_tree (tree_add sz c t)"
  by (induction t) auto

lemma ptr_conv [simp]: "ptr_to_ptrinfo (ptrinfo_to_ptr a) = a"
  by (simp add: ptr_to_ptrinfo_def ptrinfo_to_ptr_def)

lemma ptr_conv2: "ptrinfo_to_ptr (ptr_to_ptrinfo p) = p"
  by (simp add: ptr_to_ptrinfo_def ptrinfo_to_ptr_def)

lemma tree_at_cong:
  "tree_at h p t \<Longrightarrow> (\<And>a. a \<in> set_tree t \<Longrightarrow> h' a = h a) \<Longrightarrow> tree_at h' p t"
  by (induction t arbitrary: p) (auto 4 4)

lemma tree_at_upd [simp]: "a \<notin> set_tree t \<Longrightarrow> tree_at (h(a \<mapsto> i)) p t \<longleftrightarrow> tree_at h p t"
  by (metis fun_upd_other tree_at_cong)

lemma tree_at_null: "tree_at h p t \<Longrightarrow> p = 0 \<longleftrightarrow> t = Leaf"
  by (cases t) auto

lemma tree_at_dom: "tree_at h p t \<Longrightarrow> set_tree t \<subseteq> dom h"
  by (induction t arbitrary: p) (auto, blast+)

lemma tree_at_nonzero: "tree_at h p t \<Longrightarrow> a \<in> set_tree t \<Longrightarrow> a \<noteq> 0"
  by (induction t arbitrary: p) auto

lemma hsize_Some: "h a = Some i \<Longrightarrow> hsize h a = pi_size i"
  by (simp add: hsize_def)

text \<open>Headers that differ in their links only.\<close>

definition same_blocks :: "mm \<Rightarrow> mm \<Rightarrow> bool" where
  "same_blocks s s' \<longleftrightarrow> (\<forall>a. map_option (\<lambda>i. i\<lparr>pi_prev := 0, pi_next := 0\<rparr>) (headers s' a) =
       map_option (\<lambda>i. i\<lparr>pi_prev := 0, pi_next := 0\<rparr>) (headers s a)) \<and>
     m_lastPage s' = m_lastPage s \<and> m_freeTop s' = m_freeTop s \<and> m_freeMax s' = m_freeMax s \<and>
     mm_bytes s' = mm_bytes s"

lemma same_blocks_refl [simp]: "same_blocks s s"
  by (simp add: same_blocks_def)

lemma same_blocks_trans [trans]: "same_blocks s s' \<Longrightarrow> same_blocks s' s'' \<Longrightarrow> same_blocks s s''"
  by (simp add: same_blocks_def)

lemma same_blocks_link:
  "headers s a = Some i \<Longrightarrow> j\<lparr>pi_prev := 0, pi_next := 0\<rparr> = i\<lparr>pi_prev := 0, pi_next := 0\<rparr> \<Longrightarrow>
   same_blocks s (s\<lparr>headers := (headers s)(a \<mapsto> j)\<rparr>)"
  by (simp add: same_blocks_def)

lemma treeAdd_walk_ok:
  assumes "tree_at (headers s) (ptrinfo_to_ptr tmp) t" "t \<noteq> Leaf" "headers s cur = Some c"
    "pi_prev c = 0" "pi_next c = 0" "cur \<noteq> 0" "ptrinfo_to_ptr cur \<noteq> 0" "cur \<notin> set_tree t" "distinct_tree t"
  shows "\<exists>h. treeAdd_walk cur tmp s = Some (s\<lparr>headers := h\<rparr>) \<and>
    tree_at h (ptrinfo_to_ptr tmp) (tree_add (hsize (headers s)) cur t) \<and>
    (\<forall>a. a \<notin> set_tree t \<longrightarrow> h a = headers s a) \<and> same_blocks s (s\<lparr>headers := h\<rparr>)"
  using assms(1,2,8,9)
proof (induction t arbitrary: tmp)
  case (Node l a r)
  note c = assms(3-7)
  have inj: "ptrinfo_to_ptr tmp = ptrinfo_to_ptr a \<Longrightarrow> tmp = a"
    by (simp add: ptrinfo_to_ptr_def)
  then obtain i where i: "tmp = a" "a \<noteq> 0" "ptrinfo_to_ptr a \<noteq> 0" "headers s a = Some i"
      "tree_at (headers s) (pi_prev i) l" "tree_at (headers s) (pi_next i) r"
    using Node.prems(1) by auto
  have sizes: "hsize (headers s) cur = pi_size c" "hsize (headers s) a = pi_size i"
    using c(1) i(4) by (simp_all add: hsize_Some)
  have ne: "cur \<noteq> a" "cur \<notin> set_tree l" "cur \<notin> set_tree r" "a \<notin> set_tree l" "a \<notin> set_tree r"
      "set_tree l \<inter> set_tree r = {}" "distinct_tree l" "distinct_tree r"
    using Node.prems by auto
  show ?case
  proof (cases "pi_size c < pi_size i")
    case less: True
    show ?thesis
    proof (cases "l = Leaf")
      case True
      let ?h = "(headers s)(a \<mapsto> i\<lparr>pi_prev := ptrinfo_to_ptr cur\<rparr>)"
      have "treeAdd_walk cur tmp s = Some (s\<lparr>headers := ?h\<rparr>)"
        using i c less True by (subst treeAdd_walk.simps) (simp add: upd_header_def)
      moreover have "same_blocks s (s\<lparr>headers := ?h\<rparr>)"
        using i(4) by (intro same_blocks_link) simp_all
      moreover have "tree_at ?h (ptrinfo_to_ptr tmp) (tree_add (hsize (headers s)) cur (Node l a r))"
        using i c less True ne sizes by simp
      moreover have "\<forall>b. b \<notin> set_tree (Node l a r) \<longrightarrow> ?h b = headers s b"
        by simp
      ultimately show ?thesis
        by blast
    next
      case False
      then have p: "pi_prev i \<noteq> 0" "ptrinfo_to_ptr (ptr_to_ptrinfo (pi_prev i)) = pi_prev i"
        using i(5) tree_at_null by (auto simp: ptrinfo_to_ptr_def ptr_to_ptrinfo_def)
      then obtain h where h: "treeAdd_walk cur (ptr_to_ptrinfo (pi_prev i)) s = Some (s\<lparr>headers := h\<rparr>)"
        "tree_at h (pi_prev i) (tree_add (hsize (headers s)) cur l)"
        "\<forall>a. a \<notin> set_tree l \<longrightarrow> h a = headers s a" "same_blocks s (s\<lparr>headers := h\<rparr>)"
        using Node.IH(1) [of "ptr_to_ptrinfo (pi_prev i)"] i(5) False ne by auto
      have "treeAdd_walk cur tmp s = Some (s\<lparr>headers := h\<rparr>)"
        using i c less p(1) h(1) by (subst treeAdd_walk.simps) simp
      moreover have "h a = Some i" "tree_at h (pi_next i) r"
        using h(3) ne i tree_at_cong [OF i(6), of h] by auto
      ultimately show ?thesis
        using i h less ne sizes by auto
    qed
  next
    case ge: False
    show ?thesis
    proof (cases "r = Leaf")
      case True
      let ?h = "(headers s)(a \<mapsto> i\<lparr>pi_next := ptrinfo_to_ptr cur\<rparr>)"
      have "treeAdd_walk cur tmp s = Some (s\<lparr>headers := ?h\<rparr>)"
        using i c ge True by (subst treeAdd_walk.simps) (simp add: upd_header_def)
      moreover have "same_blocks s (s\<lparr>headers := ?h\<rparr>)"
        using i(4) by (intro same_blocks_link) simp_all
      moreover have "tree_at ?h (ptrinfo_to_ptr tmp) (tree_add (hsize (headers s)) cur (Node l a r))"
        using i c ge True ne sizes by simp
      moreover have "\<forall>b. b \<notin> set_tree (Node l a r) \<longrightarrow> ?h b = headers s b"
        by simp
      ultimately show ?thesis
        by blast
    next
      case False
      then have p: "pi_next i \<noteq> 0" "ptrinfo_to_ptr (ptr_to_ptrinfo (pi_next i)) = pi_next i"
        using i(6) tree_at_null by (auto simp: ptrinfo_to_ptr_def ptr_to_ptrinfo_def)
      then obtain h where h: "treeAdd_walk cur (ptr_to_ptrinfo (pi_next i)) s = Some (s\<lparr>headers := h\<rparr>)"
        "tree_at h (pi_next i) (tree_add (hsize (headers s)) cur r)"
        "\<forall>a. a \<notin> set_tree r \<longrightarrow> h a = headers s a" "same_blocks s (s\<lparr>headers := h\<rparr>)"
        using Node.IH(2) [of "ptr_to_ptrinfo (pi_next i)"] i(6) False ne by auto
      have "treeAdd_walk cur tmp s = Some (s\<lparr>headers := h\<rparr>)"
        using i c ge p(1) h(1) by (subst treeAdd_walk.simps) simp
      moreover have "h a = Some i" "tree_at h (pi_prev i) l"
        using h(3) ne i tree_at_cong [OF i(5), of h] by auto
      ultimately show ?thesis
        using i h ge ne sizes by auto
    qed
  qed
qed simp

lemma unlinked_eq:
  "i\<lparr>pi_prev := 0, pi_next := 0\<rparr> = j\<lparr>pi_prev := 0, pi_next := 0\<rparr> \<longleftrightarrow>
     pi_size i = pi_size j \<and> pi_ressize i = pi_ressize j \<and> pi_state i = pi_state j \<and> pi_used i = pi_used j"
  for i j :: ptr_info
  by (cases i; cases j) auto

lemma same_blocks_at:
  assumes "same_blocks s s'"
  shows "headers s' a = None \<longleftrightarrow> headers s a = None"
    and "headers s a = Some i \<Longrightarrow> \<exists>j. headers s' a = Some j \<and> pi_size j = pi_size i \<and>
      pi_ressize j = pi_ressize i \<and> pi_state j = pi_state i \<and> pi_used j = pi_used i"
proof -
  have "map_option (\<lambda>i. i\<lparr>pi_prev := 0, pi_next := 0\<rparr>) (headers s' a) =
      map_option (\<lambda>i. i\<lparr>pi_prev := 0, pi_next := 0\<rparr>) (headers s a)"
    using assms by (simp add: same_blocks_def)
  then show "headers s' a = None \<longleftrightarrow> headers s a = None"
      "headers s a = Some i \<Longrightarrow> \<exists>j. headers s' a = Some j \<and> pi_size j = pi_size i \<and>
      pi_ressize j = pi_ressize i \<and> pi_state j = pi_state i \<and> pi_used j = pi_used i"
    by (cases "headers s' a"; cases "headers s a"; simp add: unlinked_eq)+
qed

lemma same_blocks_hsize: "same_blocks s s' \<Longrightarrow> hsize (headers s') = hsize (headers s)"
proof
  fix a
  assume "same_blocks s s'"
  then show "hsize (headers s') a = hsize (headers s) a"
    using same_blocks_at [of s s' a] by (cases "headers s a") (auto simp: hsize_def)
qed

lemma ptr_inj [simp]: "ptrinfo_to_ptr a = ptrinfo_to_ptr b \<longleftrightarrow> a = b"
  by (simp add: ptrinfo_to_ptr_def)

text \<open>What the free list is: a tree, distinct, ordered by size.\<close>

definition free_tree :: "mm \<Rightarrow> u32 tree \<Rightarrow> bool" where
  "free_tree s t \<longleftrightarrow> tree_at (headers s) (mm_last_free s) t \<and> distinct_tree t \<and> size_bst (hsize (headers s)) t"

lemma free_tree_header: "free_tree s t \<Longrightarrow> a \<in> set_tree t \<Longrightarrow> \<exists>i. headers s a = Some i"
  using tree_at_dom [of "headers s" "mm_last_free s" t] by (auto simp: free_tree_def)

lemma MM_treeAdd_ok:
  assumes "free_tree s t" "headers s cur = Some c" "cur \<noteq> 0" "ptrinfo_to_ptr cur \<noteq> 0" "cur \<notin> set_tree t"
  obtains s' where "MM_treeAdd cur s = Some s'" "free_tree s' (tree_add (hsize (headers s)) cur t)"
    "same_blocks s s'" "\<And>a. a \<notin> insert cur (set_tree t) \<Longrightarrow> headers s' a = headers s a"
proof -
  let ?c = "c\<lparr>pi_next := 0, pi_prev := 0\<rparr>"
  let ?s = "s\<lparr>headers := (headers s)(cur \<mapsto> ?c)\<rparr>"
  have sb: "same_blocks s ?s"
    using assms(2) by (intro same_blocks_link) simp_all
  have t: "tree_at (headers ?s) (mm_last_free ?s) t" "distinct_tree t"
    using assms(1,5) by (simp_all add: free_tree_def)
  have bst: "size_bst (hsize (headers s)) (tree_add (hsize (headers s)) cur t)"
      "distinct_tree (tree_add (hsize (headers s)) cur t)"
    using assms(1,5) by (auto simp: free_tree_def intro: size_bst_add distinct_tree_add)
  show ?thesis
  proof (cases "t = Leaf")
    case True
    let ?s' = "?s\<lparr>mm_last_free := ptrinfo_to_ptr cur\<rparr>"
    have "MM_treeAdd cur s = Some ?s'"
      using assms True by (simp add: MM_treeAdd_def upd_header_def free_tree_def)
    moreover have "same_blocks s ?s'"
      using sb by (simp add: same_blocks_def)
    moreover from this have "free_tree ?s' (tree_add (hsize (headers s)) cur t)"
      using True assms(3,4) bst same_blocks_hsize [of s ?s'] by (simp add: free_tree_def)
    ultimately show ?thesis
      using that by simp
  next
    case False
    have p: "mm_last_free s \<noteq> 0" "ptrinfo_to_ptr (ptr_to_ptrinfo (mm_last_free s)) = mm_last_free s"
      using False assms(1) tree_at_null
      by (auto simp: free_tree_def ptrinfo_to_ptr_def ptr_to_ptrinfo_def)
    then obtain h where h: "treeAdd_walk cur (ptr_to_ptrinfo (mm_last_free s)) ?s = Some (?s\<lparr>headers := h\<rparr>)"
      "tree_at h (mm_last_free s) (tree_add (hsize (headers ?s)) cur t)"
      "\<forall>a. a \<notin> set_tree t \<longrightarrow> h a = headers ?s a" "same_blocks ?s (?s\<lparr>headers := h\<rparr>)"
      using treeAdd_walk_ok [of ?s "ptr_to_ptrinfo (mm_last_free s)" t cur ?c] t False assms(3-5) by auto
    have "MM_treeAdd cur s = Some (?s\<lparr>headers := h\<rparr>)"
      using assms(2,3) p(1) h(1) by (simp add: MM_treeAdd_def upd_header_def)
    moreover have "same_blocks s (?s\<lparr>headers := h\<rparr>)"
      using sb h(4) by (rule same_blocks_trans)
    moreover have "free_tree (?s\<lparr>headers := h\<rparr>) (tree_add (hsize (headers s)) cur t)"
      using h(2) bst same_blocks_hsize [OF sb] same_blocks_hsize [OF calculation(2)]
      by (simp add: free_tree_def)
    ultimately show ?thesis
      using that h(3) by simp
  qed
qed

text \<open>Cutting the subtree at a node off its parent.\<close>

fun cut :: "u32 \<Rightarrow> u32 tree \<Rightarrow> u32 tree" where
  "cut a Leaf = Leaf"
| "cut a (Node l b r) = (if b = a then Leaf else Node (cut a l) b (cut a r))"

fun subtree :: "u32 \<Rightarrow> u32 tree \<Rightarrow> u32 tree" where
  "subtree a Leaf = Leaf"
| "subtree a (Node l b r) =
     (if b = a then Node l b r else if a \<in> set_tree l then subtree a l else subtree a r)"

lemma cut_id [simp]: "a \<notin> set_tree t \<Longrightarrow> cut a t = t"
  by (induction t) auto

lemma set_cut: "set_tree (cut a t) \<subseteq> set_tree t"
  by (induction t) auto

lemma cut_bst: "size_bst sz t \<Longrightarrow> size_bst sz (cut a t)"
  using set_cut by (induction t) (auto, blast+)

lemma distinct_cut: "distinct_tree t \<Longrightarrow> distinct_tree (cut a t)"
proof (induction t)
  case (Node l b r)
  then show ?case
    using set_cut [of a l] set_cut [of a r] by auto
qed simp

lemma set_subtree: "set_tree (subtree a t) \<subseteq> set_tree t"
  by (induction t) auto

lemma subtree_Leaf [simp]: "a \<notin> set_tree t \<Longrightarrow> subtree a t = Leaf"
  by (induction t) auto

lemma set_cut_subtree: "distinct_tree t \<Longrightarrow> set_tree (cut a t) = set_tree t - set_tree (subtree a t)"
proof (induction t)
  case (Node l b r)
  then show ?case
    using set_subtree [of a l] set_subtree [of a r]
    by (cases "a \<in> set_tree l"; cases "a \<in> set_tree r") auto
qed simp

lemma subtree_node:
  "tree_at h p t \<Longrightarrow> a \<in> set_tree t \<Longrightarrow> \<exists>l r i. subtree a t = Node l a r \<and> h a = Some i \<and> a \<noteq> 0 \<and>
     ptrinfo_to_ptr a \<noteq> 0 \<and> tree_at h (pi_prev i) l \<and> tree_at h (pi_next i) r"
proof (induction t arbitrary: p)
  case (Node l b r)
  then obtain i where i: "h b = Some i" "b \<noteq> 0" "ptrinfo_to_ptr b \<noteq> 0"
      "tree_at h (pi_prev i) l" "tree_at h (pi_next i) r"
    by auto
  then show ?case
    using Node.IH(1) [OF i(4)] Node.IH(2) [OF i(5)] Node.prems(2)
    by (cases "a = b") (auto split: if_splits)
qed simp

lemma child_in:
  assumes "tree_at h p t" "q \<in> set_tree t" "h q = Some j" "pi_prev j = c \<or> pi_next j = c" "c \<noteq> 0"
  shows "ptr_to_ptrinfo c \<in> set_tree t"
  using assms
proof (induction t arbitrary: p)
  case (Node l b r)
  obtain i where i: "h b = Some i" "tree_at h (pi_prev i) l" "tree_at h (pi_next i) r"
    using Node.prems(1) by auto
  consider "q = b" | "q \<in> set_tree l" | "q \<in> set_tree r"
    using Node.prems(2) by auto
  then show ?case
  proof cases
    case 1
    then have "j = i"
      using i Node.prems by simp
    then show ?thesis
      using i Node.prems(4,5) by (cases l; cases r) auto
  qed (use Node i in auto)
qed simp

lemma cut_ok:
  assumes "tree_at h p t" "distinct_tree t" "q \<in> set_tree t" "h q = Some j" "a \<noteq> 0" "ptrinfo_to_ptr a \<noteq> 0"
    "pi_prev j = ptrinfo_to_ptr a \<and> j' = j\<lparr>pi_prev := 0\<rparr> \<or>
     pi_prev j \<noteq> ptrinfo_to_ptr a \<and> pi_next j = ptrinfo_to_ptr a \<and> j' = j\<lparr>pi_next := 0\<rparr>"
  shows "tree_at (h(q \<mapsto> j')) p (cut a t)"
  using assms(1-3)
proof (induction t arbitrary: p)
  case (Node l b r)
  obtain i where i: "h b = Some i" "b \<noteq> 0" "p = ptrinfo_to_ptr b" "p \<noteq> 0"
      "tree_at h (pi_prev i) l" "tree_at h (pi_next i) r"
    using Node.prems(1) by auto
  have child: "a \<in> set_tree t'" if "tree_at h p' t'" "q \<in> set_tree t'" for p' t'
    using child_in [OF that assms(4), of "ptrinfo_to_ptr a"] assms(6,7) by auto
  consider "q = b" | "q \<in> set_tree l" "q \<notin> set_tree r" "q \<noteq> b" | "q \<in> set_tree r" "q \<notin> set_tree l" "q \<noteq> b"
    using Node.prems(2,3) by auto
  then show ?case
  proof cases
    case 1
    then have j: "j = i"
      using i(1) assms(4) by simp
    show ?thesis
    proof (cases "pi_prev j = ptrinfo_to_ptr a")
      case True
      then obtain l1 l2 where "l = Node l1 a l2"
        using i(5) j assms(6) by (cases l) auto
      then show ?thesis
        using True 1 i j assms(7) Node.prems(2) by (auto elim: tree_at_cong)
    next
      case False
      then obtain l1 l2 where "r = Node l1 a l2"
        using i(6) j assms(6,7) by (cases r) auto
      then show ?thesis
        using False 1 i j assms(7) Node.prems(2) by (auto elim: tree_at_cong)
    qed
  next
    case 2
    then have "a \<in> set_tree l" "a \<notin> set_tree r" "b \<noteq> a"
      using child i(5) Node.prems(2) by auto
    moreover have "tree_at (h(q \<mapsto> j')) (pi_prev i) (cut a l)"
      using 2 Node.prems(2) by (intro Node.IH(1) [OF i(5)]) simp_all
    moreover have "tree_at (h(q \<mapsto> j')) (pi_next i) (cut a r)"
      using 2 i(6) calculation(2) by simp
    moreover have "(h(q \<mapsto> j')) b = Some i"
      using 2 i(1) by simp
    ultimately have "b \<noteq> a" "tree_at (h(q \<mapsto> j')) p (Node (cut a l) b (cut a r))"
      using tree_at_NodeI [OF i(3,4,2)] by blast+
    then show ?thesis
      by (simp only: cut.simps if_False)
  next
    case 3
    then have "a \<in> set_tree r" "a \<notin> set_tree l" "b \<noteq> a"
      using child i(6) Node.prems(2) by auto
    moreover have "tree_at (h(q \<mapsto> j')) (pi_next i) (cut a r)"
      using 3 Node.prems(2) by (intro Node.IH(2) [OF i(6)]) simp_all
    moreover have "tree_at (h(q \<mapsto> j')) (pi_prev i) (cut a l)"
      using 3 i(5) calculation(2) by simp
    moreover have "(h(q \<mapsto> j')) b = Some i"
      using 3 i(1) by simp
    ultimately have "b \<noteq> a" "tree_at (h(q \<mapsto> j')) p (Node (cut a l) b (cut a r))"
      using tree_at_NodeI [OF i(3,4,2)] by blast+
    then show ?thesis
      by (simp only: cut.simps if_False)
  qed
qed simp

text \<open>Adding the root of a detached subtree, when there is one.\<close>

definition root_set :: "u32 tree \<Rightarrow> u32 set" where
  "root_set t = (case t of Leaf \<Rightarrow> {} | Node _ a _ \<Rightarrow> {a})"

lemma root_set_sub: "root_set t \<subseteq> set_tree t"
  by (cases t) (auto simp: root_set_def)

lemma add_root_ok:
  assumes "free_tree s t" "tree_at (headers s) p u" "set_tree u \<inter> set_tree t = {}"
  obtains s' t' where
    "(if p \<noteq> 0 then MM_treeAdd (ptr_to_ptrinfo p) s else Some s) = Some s'" "free_tree s' t'"
    "set_tree t' = root_set u \<union> set_tree t" "same_blocks s s'"
    "\<And>a. a \<notin> set_tree u \<union> set_tree t \<Longrightarrow> headers s' a = headers s a"
proof (cases u)
  case Leaf
  then show ?thesis
    using that [of s t] assms by (simp add: root_set_def)
next
  case (Node l a r)
  then obtain i where i: "p = ptrinfo_to_ptr a" "p \<noteq> 0" "a \<noteq> 0" "headers s a = Some i" "a \<notin> set_tree t"
    using assms(2,3) by auto
  obtain s' where "MM_treeAdd a s = Some s'" "free_tree s' (tree_add (hsize (headers s)) a t)"
    "same_blocks s s'" "\<And>b. b \<notin> insert a (set_tree t) \<Longrightarrow> headers s' b = headers s b"
    using MM_treeAdd_ok [OF assms(1) i(4,3)] i by metis
  then show ?thesis
    using that [of s' "tree_add (hsize (headers s)) a t"] i Node by (simp add: root_set_def)
qed

definition parent_ok :: "mm \<Rightarrow> u32 tree \<Rightarrow> u32 \<Rightarrow> u32 \<Rightarrow> bool" where
  "parent_ok s t a q \<longleftrightarrow> (q = 0 \<and> mm_last_free s = ptrinfo_to_ptr a \<or>
     q \<in> set_tree t \<and> (\<exists>j. headers s q = Some j \<and>
       (pi_prev j = ptrinfo_to_ptr a \<or> pi_next j = ptrinfo_to_ptr a)))"

lemma free_tree_unlink:
  assumes "free_tree s t" "a \<notin> set_tree t" "headers s a = Some i"
  shows "free_tree (s\<lparr>headers := (headers s)(a \<mapsto> i\<lparr>pi_next := 0, pi_prev := 0\<rparr>)\<rparr>) t"
proof -
  have "same_blocks s (s\<lparr>headers := (headers s)(a \<mapsto> i\<lparr>pi_next := 0, pi_prev := 0\<rparr>)\<rparr>)"
    using assms(3) by (intro same_blocks_link) simp_all
  from same_blocks_hsize [OF this] assms(1,2) show ?thesis
    by (simp add: free_tree_def)
qed

lemma distinct_subtree: "distinct_tree t \<Longrightarrow> distinct_tree (subtree a t)"
  by (induction t) auto

lemma no_back_link:
  assumes "tree_at h p (Node l a r)" "distinct_tree (Node l a r)" "q \<in> set_tree (Node l a r)"
    "h q = Some j" "pi_prev j = ptrinfo_to_ptr a \<or> pi_next j = ptrinfo_to_ptr a"
  shows False
proof -
  obtain i where i: "h a = Some i" "tree_at h (pi_prev i) l" "tree_at h (pi_next i) r" "ptrinfo_to_ptr a \<noteq> 0"
    using assms(1) by auto
  consider "q = a" | "q \<in> set_tree l" | "q \<in> set_tree r"
    using assms(3) by auto
  then show False
  proof cases
    case 1
    then have "j = i"
      using i(1) assms(4) by simp
    then show False
      using i assms(2,5) by (cases l; cases r) auto
  next
    case 2
    then show False
      using child_in [OF i(2) _ assms(4,5) i(4)] assms(2) by simp
  next
    case 3
    then show False
      using child_in [OF i(3) _ assms(4,5) i(4)] assms(2) by simp
  qed
qed

text \<open>
  Releasing the block \<open>a\<close> from the tree keeps a free tree.  Of the blocks below \<open>a\<close> it keeps only
  the two children; when \<open>a\<close> is the root, its right subtree stays whole.
\<close>

lemma release_inner:
  assumes "free_tree s t" "a \<in> set_tree t" "q \<noteq> 0" "parent_ok s t a q"
    "subtree a t = Node l a r"
  obtains s' t' where "MM_releaseFree a q s = Some (a, s')" "free_tree s' t'" "same_blocks s s'"
    "set_tree t' = set_tree t - (insert a (set_tree l \<union> set_tree r)) \<union> root_set l \<union> root_set r"
proof -
  have tr: "tree_at (headers s) (mm_last_free s) t" "distinct_tree t"
    using assms(1) by (simp_all add: free_tree_def)
  obtain i where i: "headers s a = Some i" "a \<noteq> 0" "ptrinfo_to_ptr a \<noteq> 0"
      "tree_at (headers s) (pi_prev i) l" "tree_at (headers s) (pi_next i) r"
    using subtree_node [OF tr(1) assms(2)] assms(5) by auto
  obtain j where j: "q \<in> set_tree t" "headers s q = Some j"
      "pi_prev j = ptrinfo_to_ptr a \<or> pi_next j = ptrinfo_to_ptr a"
    using assms(3,4) by (auto simp: parent_ok_def)
  define j' where "j' = (if pi_prev j = ptrinfo_to_ptr a then j\<lparr>pi_prev := 0\<rparr> else j\<lparr>pi_next := 0\<rparr>)"
  let ?s1 = "s\<lparr>headers := (headers s)(q \<mapsto> j')\<rparr>"
  have s1: "(if pi_prev j = ptrinfo_to_ptr a then upd_header q (pi_prev_update (\<lambda>_. 0)) s
      else if pi_next j = ptrinfo_to_ptr a then upd_header q (pi_next_update (\<lambda>_. 0)) s
      else Some s) = Some ?s1"
    using j by (auto simp: j'_def upd_header_def)
  have sb1: "same_blocks s ?s1"
    by (rule same_blocks_link [OF j(2)]) (simp add: j'_def unlinked_eq)
  have d: "distinct_tree (Node l a r)"
    using distinct_subtree [OF tr(2), of a] assms(5) by simp
  moreover have "q \<notin> set_tree (Node l a r)"
    using no_back_link [of "headers s" "ptrinfo_to_ptr a" l a r q j] d j(2,3) i by auto
  ultimately have disj: "a \<notin> set_tree l" "a \<notin> set_tree r" "set_tree l \<inter> set_tree r = {}" "q \<noteq> a"
      "q \<notin> set_tree l" "q \<notin> set_tree r"
    using assms(5) by auto
  have set1: "set_tree (cut a t) = set_tree t - insert a (set_tree l \<union> set_tree r)"
    using set_cut_subtree [OF tr(2), of a] assms(5) by auto
  have "tree_at (headers ?s1) (mm_last_free ?s1) (cut a t)"
    using cut_ok [OF tr j(1,2) i(2,3), of j'] j(3) by (auto simp: j'_def)
  then have ft1: "free_tree ?s1 (cut a t)"
    using assms(1) same_blocks_hsize [OF sb1] by (simp add: free_tree_def distinct_cut cut_bst)
  have l1: "tree_at (headers ?s1) (pi_prev i) l" "tree_at (headers ?s1) (pi_next i) r"
    using i(4,5) disj by simp_all
  have "set_tree l \<inter> set_tree (cut a t) = {}"
    using set1 by auto
  then obtain s2 t2 where s2:
    "(if pi_prev i \<noteq> 0 then MM_treeAdd (ptr_to_ptrinfo (pi_prev i)) ?s1 else Some ?s1) = Some s2"
    "free_tree s2 t2" "set_tree t2 = root_set l \<union> set_tree (cut a t)" "same_blocks ?s1 s2"
    "\<And>b. b \<notin> set_tree l \<union> set_tree (cut a t) \<Longrightarrow> headers s2 b = headers ?s1 b"
    using add_root_ok [OF ft1 l1(1)] by metis
  have same2: "headers s2 b = headers s b" if "b = a \<or> b \<in> set_tree r" for b
  proof -
    have "b \<notin> set_tree l \<union> set_tree (cut a t)" "b \<noteq> q"
      using that disj set1 by auto
    then show ?thesis
      using s2(5) [of b] by simp
  qed
  then have "tree_at (headers s2) (pi_next i) r"
    using tree_at_cong [OF i(5)] by simp
  moreover have "set_tree r \<inter> set_tree t2 = {}"
    using s2(3) set1 disj(3) root_set_sub [of l] by auto
  ultimately obtain s3 t3 where s3:
    "(if pi_next i \<noteq> 0 then MM_treeAdd (ptr_to_ptrinfo (pi_next i)) s2 else Some s2) = Some s3"
    "free_tree s3 t3" "set_tree t3 = root_set r \<union> set_tree t2" "same_blocks s2 s3"
    "\<And>b. b \<notin> set_tree r \<union> set_tree t2 \<Longrightarrow> headers s3 b = headers s2 b"
    using add_root_ok [OF s2(2)] by metis
  have a3: "a \<notin> set_tree t2" "headers s3 a = Some i" "a \<notin> set_tree t3"
    using s3(5) [of a] s3(3) s2(3) same2 [of a] i(1) disj set1 root_set_sub [of l] root_set_sub [of r] by auto
  let ?s4 = "s3\<lparr>headers := (headers s3)(a \<mapsto> i\<lparr>pi_next := 0, pi_prev := 0\<rparr>)\<rparr>"
  have "MM_releaseFree a q s = Some (a, ?s4)"
    using i(1,2) j(2) assms(3) s1 s2(1) s3(1) same2 [of a] a3(2)
    by (simp add: MM_releaseFree_def upd_header_def [of a])
  moreover have "same_blocks s3 ?s4"
    by (rule same_blocks_link [OF a3(2)]) (simp add: unlinked_eq)
  then have "same_blocks s ?s4"
    using sb1 s2(4) s3(4) by (blast intro: same_blocks_trans)
  moreover have "set_tree t3 =
      set_tree t - (insert a (set_tree l \<union> set_tree r)) \<union> root_set l \<union> root_set r"
    using s3(3) s2(3) set1 by auto
  ultimately show ?thesis
    using that free_tree_unlink [OF s3(2) a3(3,2)] by blast
qed

lemma release_root:
  assumes "free_tree s t" "parent_ok s t a 0" "0 \<notin> set_tree t" "t = Node l a r"
  obtains s' t' where "MM_releaseFree a 0 s = Some (a, s')" "free_tree s' t'" "same_blocks s s'"
    "set_tree t' = (if r = Leaf then set_tree l else root_set l \<union> set_tree r)"
proof -
  have tr: "tree_at (headers s) (mm_last_free s) t" "distinct_tree t" "size_bst (hsize (headers s)) t"
    using assms(1) by (simp_all add: free_tree_def)
  obtain i where i: "headers s a = Some i" "a \<noteq> 0" "ptrinfo_to_ptr a \<noteq> 0"
      "tree_at (headers s) (pi_prev i) l" "tree_at (headers s) (pi_next i) r"
    using tr(1) assms(4) by auto
  have z: "pi_prev i = 0 \<longleftrightarrow> l = Leaf" "pi_next i = 0 \<longleftrightarrow> r = Leaf"
    using i(4,5) tree_at_null by blast+
  have d: "a \<notin> set_tree l" "a \<notin> set_tree r" "set_tree l \<inter> set_tree r = {}"
      "distinct_tree l" "distinct_tree r" "size_bst (hsize (headers s)) l" "size_bst (hsize (headers s)) r"
    using tr(2,3) assms(4) by auto
  define p1 where "p1 = (if r = Leaf then pi_prev i else pi_next i)"
  let ?t1 = "if r = Leaf then l else r"
  let ?s1 = "s\<lparr>mm_last_free := p1\<rparr>"
  have sb1: "same_blocks s ?s1"
    by (simp add: same_blocks_def)
  have ft1: "free_tree ?s1 ?t1"
    using i d by (auto simp: free_tree_def p1_def)
  obtain s2 t2 where s2:
    "(if l \<noteq> Leaf \<and> r \<noteq> Leaf then MM_treeAdd (ptr_to_ptrinfo (pi_prev i)) ?s1 else Some ?s1) = Some s2"
    "free_tree s2 t2" "set_tree t2 = (if r = Leaf then set_tree l else root_set l \<union> set_tree r)"
    "same_blocks ?s1 s2" "headers s2 a = headers s a" "a \<notin> set_tree t2"
  proof (cases "l \<noteq> Leaf \<and> r \<noteq> Leaf")
    case True
    then have "free_tree ?s1 r" "tree_at (headers ?s1) (pi_prev i) l"
      using ft1 i by simp_all
    then obtain s2 t2 where
      "(if pi_prev i \<noteq> 0 then MM_treeAdd (ptr_to_ptrinfo (pi_prev i)) ?s1 else Some ?s1) = Some s2"
      "free_tree s2 t2" "set_tree t2 = root_set l \<union> set_tree r" "same_blocks ?s1 s2"
      "\<And>b. b \<notin> set_tree l \<union> set_tree r \<Longrightarrow> headers s2 b = headers ?s1 b"
      using add_root_ok d(3) by metis
    then show ?thesis
      using that [of s2 t2] True z d root_set_sub [of l] by auto
  next
    case False
    then show ?thesis
      using that [of ?s1 ?t1] ft1 d by (auto simp: root_set_def)
  qed
  let ?s3 = "s2\<lparr>headers := (headers s2)(a \<mapsto> i\<lparr>pi_next := 0, pi_prev := 0\<rparr>)\<rparr>"
  have a2: "headers s2 a = Some i"
    using s2(5) i(1) by simp
  have "MM_releaseFree a 0 s = Some (a, ?s3)"
    using i(1,2) s2(1) z a2 by (auto simp: MM_releaseFree_def upd_header_def p1_def split: if_splits)
  moreover have "same_blocks s2 ?s3"
    by (rule same_blocks_link [OF a2]) (simp add: unlinked_eq)
  then have "same_blocks s ?s3"
    using sb1 s2(4) by (blast intro: same_blocks_trans)
  ultimately show ?thesis
    using that free_tree_unlink [OF s2(2,6) a2] s2(3) by blast
qed

lemma tree_at_0: "tree_at h p t \<Longrightarrow> 0 \<notin> set_tree t"
  using tree_at_nonzero by blast

lemma release_ok:
  assumes "free_tree s t" "a \<in> set_tree t" "parent_ok s t a q"
  obtains s' t' where "MM_releaseFree a q s = Some (a, s')" "free_tree s' t'" "same_blocks s s'"
    "set_tree t' \<subseteq> set_tree t - {a}"
proof -
  have tr: "tree_at (headers s) (mm_last_free s) t" "distinct_tree t"
    using assms(1) by (simp_all add: free_tree_def)
  obtain l r where sub: "subtree a t = Node l a r"
    using subtree_node [OF tr(1) assms(2)] by auto
  then have d: "distinct_tree (Node l a r)" "set_tree (Node l a r) \<subseteq> set_tree t"
    using distinct_subtree [OF tr(2), of a] set_subtree [of a t] by simp_all
  have lr: "root_set l \<subseteq> set_tree l" "root_set r \<subseteq> set_tree r"
    by (rule root_set_sub)+
  show ?thesis
  proof (cases "q = 0")
    case True
    then have "mm_last_free s = ptrinfo_to_ptr a"
      using assms(3) tree_at_0 [OF tr(1)] by (auto simp: parent_ok_def)
    then obtain l' r' where t: "t = Node l' a r'"
      using tr(1) assms(2) by (cases t) auto
    then have lr': "l' = l" "r' = r"
      using sub by simp_all
    obtain s' t' where "MM_releaseFree a 0 s = Some (a, s')" "free_tree s' t'" "same_blocks s s'"
        "set_tree t' = (if r = Leaf then set_tree l else root_set l \<union> set_tree r)"
      using release_root [OF assms(1) _ tree_at_0 [OF tr(1)] t] assms(3) True lr' by metis
    then show ?thesis
      using that [of s' t'] True d lr t lr' by (auto split: if_splits)
  next
    case False
    then obtain s' t' where "MM_releaseFree a q s = Some (a, s')" "free_tree s' t'" "same_blocks s s'"
        "set_tree t' = set_tree t - (insert a (set_tree l \<union> set_tree r)) \<union> root_set l \<union> root_set r"
      using release_inner [OF assms(1,2) False assms(3) sub] by metis
    moreover from this(4) have "set_tree t' \<subseteq> set_tree t - {a}"
      using d lr by auto
    ultimately show ?thesis
      using that by blast
  qed
qed

lemma tree_root:
  "tree_at h p u \<Longrightarrow> u \<noteq> Leaf \<Longrightarrow> \<exists>j. h (ptr_to_ptrinfo p) = Some j \<and>
     hsize h (ptr_to_ptrinfo p) = pi_size j \<and> ptr_to_ptrinfo p \<in> set_tree u"
  by (cases u) (auto simp: hsize_Some)

text \<open>One step of the search, at a node of an ordered tree.\<close>

lemma findAvail_step:
  assumes "headers s b = Some i" "b \<noteq> 0" "tree_at (headers s) (pi_prev i) l" "tree_at (headers s) (pi_next i) r"
    "\<forall>x \<in> set_tree l. hsize (headers s) x < pi_size i" "\<forall>x \<in> set_tree r. pi_size i \<le> hsize (headers s) x"
  shows "findAvail_walk n b q s =
    (if pi_size i = n then MM_releaseFree b q s
     else if (n < pi_size i \<and> l \<noteq> Leaf) \<or> (pi_size i < n \<and> r = Leaf \<and> l \<noteq> Leaf)
     then findAvail_walk n (ptr_to_ptrinfo (pi_prev i)) b s
     else if r \<noteq> Leaf then findAvail_walk n (ptr_to_ptrinfo (pi_next i)) b s
     else Some (0, s))"
proof -
  have z: "pi_prev i = 0 \<longleftrightarrow> l = Leaf" "pi_next i = 0 \<longleftrightarrow> r = Leaf"
    using assms(3,4) tree_at_null by blast+
  have l: "\<exists>j. headers s (ptr_to_ptrinfo (pi_prev i)) = Some j \<and> pi_size j < pi_size i" if "l \<noteq> Leaf"
    using tree_root [OF assms(3) that] assms(5) by auto
  have r: "\<exists>j. headers s (ptr_to_ptrinfo (pi_next i)) = Some j \<and> pi_size i \<le> pi_size j" if "r \<noteq> Leaf"
    using tree_root [OF assms(4) that] assms(6) by auto
  note walk = findAvail_walk.simps [of n b q s]
  consider "pi_size i = n" | "n < pi_size i" "pi_size i \<noteq> n" | "pi_size i < n" "\<not> n < pi_size i" "pi_size i \<noteq> n"
    by (metis less_linear)
  then show ?thesis
  proof cases
    case 1
    then show ?thesis
      using assms(1,2) walk by simp
  next
    case 2
    then have "\<exists>j. headers s (ptr_to_ptrinfo (pi_next i)) = Some j \<and> n \<le> pi_size j" if "r \<noteq> Leaf"
      using r [OF that] by auto
    then show ?thesis
      using 2 assms(1,2) walk z by (cases "l = Leaf"; cases "r = Leaf") auto
  next
    case 3
    then have "\<exists>j. headers s (ptr_to_ptrinfo (pi_prev i)) = Some j \<and> pi_size j \<le> n" if "l \<noteq> Leaf"
      using l [OF that] by auto
    then show ?thesis
      using 3 assms(1,2) walk z by (cases "l = Leaf"; cases "r = Leaf") auto
  qed
qed

definition search_result :: "mm \<Rightarrow> u32 tree \<Rightarrow> u32 tree \<Rightarrow> u32 \<Rightarrow> (u32 \<times> mm) option \<Rightarrow> bool" where
  "search_result s t0 t n res \<longleftrightarrow>
     res = Some (0, s) \<and> (\<forall>a \<in> set_tree t. hsize (headers s) a \<noteq> n) \<or>
     (\<exists>a q. a \<in> set_tree t \<and> hsize (headers s) a = n \<and> parent_ok s t0 a q \<and> res = MM_releaseFree a q s)"

lemma search_result_sub:
  "search_result s t0 u n res \<Longrightarrow> set_tree u \<subseteq> set_tree t \<Longrightarrow>
   (\<And>a. a \<in> set_tree t - set_tree u \<Longrightarrow> hsize (headers s) a \<noteq> n) \<Longrightarrow> search_result s t0 t n res"
  unfolding search_result_def by blast

lemma findAvail_walk_ok:
  assumes "tree_at (headers s) (ptrinfo_to_ptr tmp) t" "t \<noteq> Leaf"
    "set_tree t \<subseteq> set_tree t0" "size_bst (hsize (headers s)) t" "parent_ok s t0 tmp tmp2"
  shows "search_result s t0 t n (findAvail_walk n tmp tmp2 s)"
  using assms
proof (induction t arbitrary: tmp tmp2)
  case (Node l b r)
  then obtain i where i: "tmp = b" "b \<noteq> 0" "headers s b = Some i"
      "tree_at (headers s) (pi_prev i) l" "tree_at (headers s) (pi_next i) r"
    by auto
  have hs: "hsize (headers s) b = pi_size i" "b \<in> set_tree t0"
    using i(3) Node.prems(3) by (simp_all add: hsize_Some)
  have par: "parent_ok s t0 (ptr_to_ptrinfo (pi_prev i)) b" "parent_ok s t0 (ptr_to_ptrinfo (pi_next i)) b"
    using i(3) hs(2) by (simp_all add: parent_ok_def ptr_conv2)
  have ord: "\<forall>x \<in> set_tree l. hsize (headers s) x < pi_size i" "\<forall>x \<in> set_tree r. pi_size i \<le> hsize (headers s) x"
      "size_bst (hsize (headers s)) l" "size_bst (hsize (headers s)) r"
    using Node.prems(4) hs(1) by auto
  note step = findAvail_step [OF i(3,2,4,5) ord(1,2), of n tmp2]
  have IHl: "search_result s t0 l n (findAvail_walk n (ptr_to_ptrinfo (pi_prev i)) b s)" if "l \<noteq> Leaf"
    using that i(4) par(1) ord(3) Node.prems(3) by (intro Node.IH(1)) (auto simp: ptr_conv2)
  have IHr: "search_result s t0 r n (findAvail_walk n (ptr_to_ptrinfo (pi_next i)) b s)" if "r \<noteq> Leaf"
    using that i(5) par(2) ord(4) Node.prems(3) by (intro Node.IH(2)) (auto simp: ptr_conv2)
  have gol: "search_result s t0 (Node l b r) n (findAvail_walk n (ptr_to_ptrinfo (pi_prev i)) b s)"
    if "n < pi_size i \<and> l \<noteq> Leaf \<or> pi_size i < n \<and> r = Leaf \<and> l \<noteq> Leaf"
  proof (rule search_result_sub [OF IHl])
    fix a
    assume "a \<in> set_tree (Node l b r) - set_tree l"
    then have "a = b \<or> a \<in> set_tree r"
      by auto
    then show "hsize (headers s) a \<noteq> n"
      using that hs(1) ord(2) by (metis empty_iff less_irrefl not_le tree.set(1))
  qed (use that in auto)
  have gor: "search_result s t0 (Node l b r) n (findAvail_walk n (ptr_to_ptrinfo (pi_next i)) b s)"
    if "r \<noteq> Leaf" "pi_size i \<noteq> n" "\<not> (n < pi_size i \<and> l \<noteq> Leaf)"
  proof (rule search_result_sub [OF IHr])
    fix a
    assume "a \<in> set_tree (Node l b r) - set_tree r"
    then have "a = b \<or> a \<in> set_tree l"
      by auto
    then show "hsize (headers s) a \<noteq> n"
      using that hs(1) ord(1) by (metis empty_iff tree.set(1))
  qed (use that in auto)
  show ?case
  proof (cases "pi_size i = n")
    case True
    then show ?thesis
      using step hs(1) Node.prems(5) i(1) by (auto simp: search_result_def)
  next
    case False
    then have leaf: "search_result s t0 (Node Leaf b Leaf) n (Some (0, s))"
      using hs(1) by (simp add: search_result_def)
    let ?left = "n < pi_size i \<and> l \<noteq> Leaf \<or> pi_size i < n \<and> r = Leaf \<and> l \<noteq> Leaf"
    show ?thesis
    proof (cases ?left)
      case True
      then show ?thesis
        unfolding i(1) step if_not_P [OF False] if_P [OF True] by (rule gol)
    next
      case noleft: False
      show ?thesis
      proof (cases "r = Leaf")
        case True
        then have "l = Leaf"
          using False noleft by (metis less_linear)
        then show ?thesis
          unfolding i(1) step using False True leaf by simp
      next
        case r: False
        then show ?thesis
          unfolding i(1) step if_not_P [OF False] if_not_P [OF noleft] using False gor noleft by simp
      qed
    qed
  qed
qed simp

lemma findAvail_ok:
  assumes "free_tree s t"
  obtains (none) "MM_findAvail n s = Some (0, s)" "\<forall>a \<in> set_tree t. hsize (headers s) a \<noteq> n"
  | (found) a s' t' where "MM_findAvail n s = Some (a, s')" "a \<in> set_tree t" "hsize (headers s) a = n"
      "a \<noteq> 0" "free_tree s' t'" "same_blocks s s'" "set_tree t' \<subseteq> set_tree t - {a}"
proof (cases "t = Leaf")
  case True
  then show ?thesis
    using none assms by (simp add: MM_findAvail_def free_tree_def)
next
  case False
  have tr: "tree_at (headers s) (mm_last_free s) t" "size_bst (hsize (headers s)) t"
    using assms by (simp_all add: free_tree_def)
  then have nz: "mm_last_free s \<noteq> 0"
    using False tree_at_null by blast
  have "parent_ok s t (ptr_to_ptrinfo (mm_last_free s)) 0"
    by (simp add: parent_ok_def ptr_conv2)
  from findAvail_walk_ok [OF _ False _ tr(2) this, of n] tr(1)
  consider "MM_findAvail n s = Some (0, s)" "\<forall>a \<in> set_tree t. hsize (headers s) a \<noteq> n"
    | a q where "a \<in> set_tree t" "hsize (headers s) a = n" "parent_ok s t a q"
        "MM_findAvail n s = MM_releaseFree a q s"
    using nz by (auto simp: MM_findAvail_def ptr_conv2 search_result_def)
  then show ?thesis
  proof cases
    case 1
    then show ?thesis
      by (rule none)
  next
    case 2
    then obtain s' t' where "MM_releaseFree a q s = Some (a, s')" "free_tree s' t'" "same_blocks s s'"
        "set_tree t' \<subseteq> set_tree t - {a}"
      using release_ok [OF assms 2(1,3)] by metis
    then show ?thesis
      using found 2 tree_at_nonzero [OF tr(1) 2(1)] by metis
  qed
qed

section \<open>The heap: disjoint blocks\<close>

definition block :: "u32 \<Rightarrow> u32 \<Rightarrow> nat set" where
  "block a n = {unat a ..< unat a + 20 + unat n}"

definition block_ok :: "u32 \<Rightarrow> ptr_info \<Rightarrow> bool" where
  "block_ok a i \<longleftrightarrow> a \<noteq> 0 \<and> unat a + 20 + unat (pi_size i) < 2 ^ 32 \<and>
     (pi_state i = PtrStateUsed \<and> pi_used i \<or> pi_state i = PtrStateFreed \<and> \<not> pi_used i)"

definition live :: "mm \<Rightarrow> u32 set" where
  "live s = {a. \<exists>i. headers s a = Some i \<and> pi_state i = PtrStateUsed}"

definition MM_blocks :: "mm \<Rightarrow> u32 tree \<Rightarrow> bool" where
  "MM_blocks s t \<longleftrightarrow> free_tree s t \<and> set_tree t \<inter> live s = {} \<and>
     (\<forall>a i. headers s a = Some i \<longrightarrow> block_ok a i) \<and>
     (\<forall>a b i j. headers s a = Some i \<longrightarrow> headers s b = Some j \<longrightarrow> a \<noteq> b \<longrightarrow>
        block a (pi_size i) \<inter> block b (pi_size j) = {})"

definition apart :: "mm \<Rightarrow> nat set \<Rightarrow> bool" where
  "apart s A \<longleftrightarrow> (\<forall>a i. headers s a = Some i \<longrightarrow> block a (pi_size i) \<inter> A = {})"

definition bump :: "mm \<Rightarrow> nat set" where
  "bump s = {unat (m_freeTop s) ..< unat (m_freeMax s)}"

definition MM_inv :: "mm \<Rightarrow> u32 tree \<Rightarrow> bool" where
  "MM_inv s t \<longleftrightarrow> MM_blocks s t \<and> apart s (bump s) \<and> m_freeTop s \<le> m_freeMax s \<and>
     unat (m_freeMax s) + 24 < 2 ^ 32 \<and>
     (m_lastPage s = 0 \<longleftrightarrow> m_freeTop s = 0) \<and> (m_freeMax s = 0 \<longleftrightarrow> m_freeTop s = 0)"

lemma MM_inv_new: "MM_inv (MM_new m) Leaf"
  by (simp add: MM_inv_def MM_blocks_def MM_new_def free_tree_def apart_def live_def)

lemma sizemask [simp]: "x AND SIZEMASK = x"
proof -
  have mask: "SIZEMASK = - 1"
    by (simp add: SIZEMASK_def)
  show ?thesis
    by (subst mask) simp
qed

lemma block_ptr_nonzero: "block_ok a i \<Longrightarrow> ptrinfo_to_ptr a \<noteq> 0"
proof
  assume ok: "block_ok a i" "ptrinfo_to_ptr a = 0"
  then have "unat (a + 20) = unat a + unat (20 :: u32)"
    by (intro unat_add_lem [THEN iffD1]) (simp add: block_ok_def)
  then show False
    using ok(2) by (simp add: ptrinfo_to_ptr_def sizeof_PtrInfo_def)
qed

lemma same_blocks_rev:
  assumes "same_blocks s s'" "headers s' a = Some j"
  obtains i where "headers s a = Some i" "pi_size j = pi_size i" "pi_state j = pi_state i" "pi_used j = pi_used i"
  using same_blocks_at [OF assms(1), of a] assms(2) by (cases "headers s a") auto

lemma same_blocks_live: "same_blocks s s' \<Longrightarrow> live s' = live s"
proof -
  assume sb: "same_blocks s s'"
  show ?thesis
    unfolding live_def using same_blocks_at(2) [OF sb] same_blocks_rev [OF sb] by (metis (lifting))
qed

lemma same_blocks_apart: "same_blocks s s' \<Longrightarrow> apart s A \<Longrightarrow> apart s' A"
  unfolding apart_def by (metis same_blocks_rev)

lemma MM_blocks_same:
  assumes "MM_blocks s t" "same_blocks s s'" "free_tree s' t'" "set_tree t' \<inter> live s = {}"
  shows "MM_blocks s' t'"
proof -
  have ok: "\<And>a i. headers s a = Some i \<Longrightarrow> block_ok a i"
    and disj: "\<And>a b i j. headers s a = Some i \<Longrightarrow> headers s b = Some j \<Longrightarrow> a \<noteq> b \<Longrightarrow>
      block a (pi_size i) \<inter> block b (pi_size j) = {}"
    using assms(1) unfolding MM_blocks_def by blast+
  have "block_ok a j" if j: "headers s' a = Some j" for a j
  proof -
    obtain i where "headers s a = Some i" "pi_size j = pi_size i" "pi_state j = pi_state i" "pi_used j = pi_used i"
      by (rule same_blocks_rev [OF assms(2) j])
    then show ?thesis
      using ok [of a i] by (simp add: block_ok_def)
  qed
  moreover have "block a (pi_size i') \<inter> block b (pi_size j') = {}"
    if i': "headers s' a = Some i'" and j': "headers s' b = Some j'" and ne: "a \<noteq> b" for a b i' j'
  proof -
    obtain i where i: "headers s a = Some i" "pi_size i' = pi_size i"
      by (rule same_blocks_rev [OF assms(2) i'])
    obtain j where j: "headers s b = Some j" "pi_size j' = pi_size j"
      by (rule same_blocks_rev [OF assms(2) j'])
    show ?thesis
      unfolding i(2) j(2) using i(1) j(1) ne by (rule disj)
  qed
  ultimately show ?thesis
    using assms(3,4) same_blocks_live [OF assms(2)] unfolding MM_blocks_def by blast
qed

lemma live_put [simp]: "live (put_header a n m s) = insert a (live s)"
  by (auto simp: live_def put_header_def)

lemma live_new [simp]: "live (MM_new m) = {}"
  by (simp add: live_def MM_new_def)

lemma MM_blocks_put:
  assumes "MM_blocks s t" "a \<notin> set_tree t" "a \<noteq> 0" "unat a + 20 + unat n < 2 ^ 32"
    "\<And>b i. headers s b = Some i \<Longrightarrow> b \<noteq> a \<Longrightarrow> block b (pi_size i) \<inter> block a n = {}"
  shows "MM_blocks (put_header a n m s) t"
proof -
  let ?s = "put_header a n m s"
  have h: "headers ?s = (headers s)(a \<mapsto> \<lparr>pi_prev = 0, pi_next = 0, pi_size = n, pi_ressize = m,
      pi_state = PtrStateUsed, pi_used = True\<rparr>)"
    by (simp add: put_header_def)
  have t: "tree_at (headers s) (mm_last_free s) t" "distinct_tree t" "size_bst (hsize (headers s)) t"
    using assms(1) by (simp_all add: MM_blocks_def free_tree_def)
  have "hsize (headers ?s) b = hsize (headers s) b" if "b \<in> set_tree t" for b
    using that assms(2) by (auto simp: hsize_def h)
  then have "size_bst (hsize (headers ?s)) t"
    using t(3) by (rule size_bst_cong)
  moreover have "tree_at (headers ?s) (mm_last_free ?s) t"
    unfolding h using t(1) assms(2) by (simp add: put_header_def)
  ultimately have "free_tree ?s t"
    using t(2) by (simp add: free_tree_def)
  moreover have "block_ok b i" if "headers ?s b = Some i" for b i
    using that assms(1,3,4) by (auto simp: h MM_blocks_def block_ok_def split: if_splits)
  moreover have "block b (pi_size i) \<inter> block c (pi_size j) = {}"
    if "headers ?s b = Some i" "headers ?s c = Some j" "b \<noteq> c" for b c i j
    using that assms(1) assms(5) [of b i] assms(5) [of c j]
    by (auto simp: h MM_blocks_def split: if_splits)
  moreover have "set_tree t \<inter> live ?s = {}"
    using assms(1,2) by (simp add: MM_blocks_def)
  ultimately show ?thesis
    unfolding MM_blocks_def by blast
qed

text \<open>Freeing a block in use.\<close>

lemma free_mark:
  assumes "MM_blocks s t" "headers s a = Some i" "pi_state i = PtrStateUsed"
  defines "s' \<equiv> s\<lparr>headers := (headers s)(a \<mapsto> i\<lparr>pi_prev := 0, pi_next := 0, pi_state := PtrStateFreed,
    pi_used := False\<rparr>)\<rparr>"
  shows "MM_blocks s' t" "live s' = live s - {a}"
proof -
  show live: "live s' = live s - {a}"
    using assms(2) by (auto simp: live_def s'_def)
  have at: "a \<notin> set_tree t"
    using assms(1-3) by (auto simp: MM_blocks_def live_def)
  have hs: "hsize (headers s') = hsize (headers s)"
    using assms(2) by (auto simp: hsize_def s'_def fun_eq_iff)
  have "free_tree s' t"
    using assms(1) at hs by (simp add: MM_blocks_def free_tree_def s'_def)
  moreover have "block_ok b j" if "headers s' b = Some j" for b j
    using that assms(1,2) by (auto simp: s'_def MM_blocks_def block_ok_def split: if_splits)
  moreover have "block b (pi_size j) \<inter> block c (pi_size k) = {}"
    if "headers s' b = Some j" "headers s' c = Some k" "b \<noteq> c" for b c j k
    using that assms(1,2) by (auto simp: s'_def MM_blocks_def split: if_splits) fastforce+
  moreover have "set_tree t \<inter> live s' = {}"
    using assms(1) live by (auto simp: MM_blocks_def)
  ultimately show "MM_blocks s' t"
    unfolding MM_blocks_def by blast
qed

lemma freeNoLock_ok:
  assumes "MM_blocks s t" "headers s a = Some i" "pi_state i = PtrStateUsed"
  obtains s' t' where "MM_freeNoLock (ptrinfo_to_ptr a) s = Some (True, s')" "MM_blocks s' t'"
    "set_tree t' = insert a (set_tree t)" "live s' = live s - {a}"
    "hsize (headers s') = hsize (headers s)" "dom (headers s') = dom (headers s)"
    "\<And>A. apart s A \<Longrightarrow> apart s' A"
    "m_freeTop s' = m_freeTop s" "m_freeMax s' = m_freeMax s" "m_lastPage s' = m_lastPage s"
    "mm_bytes s' = mm_bytes s"
proof -
  define i' where "i' = i\<lparr>pi_prev := 0, pi_next := 0, pi_state := PtrStateFreed, pi_used := False\<rparr>"
  define s1 where "s1 = s\<lparr>headers := (headers s)(a \<mapsto> i')\<rparr>"
  have ok: "block_ok a i"
    using assms(1,2) by (simp add: MM_blocks_def)
  have b1: "MM_blocks s1 t" "live s1 = live s - {a}"
    unfolding s1_def i'_def using free_mark [OF assms] by simp_all
  have at: "a \<notin> set_tree t" "a \<noteq> 0" "ptrinfo_to_ptr a \<noteq> 0" "headers s1 a = Some i'" "pi_used i"
    using assms ok block_ptr_nonzero [OF ok] by (auto simp: MM_blocks_def live_def block_ok_def s1_def)
  have "free_tree s1 t"
    using b1(1) by (simp add: MM_blocks_def)
  then obtain s' where s': "MM_treeAdd a s1 = Some s'" "free_tree s' (tree_add (hsize (headers s1)) a t)"
      "same_blocks s1 s'"
    using MM_treeAdd_ok [OF _ at(4,2,3,1)] by metis
  have "MM_freeNoLock (ptrinfo_to_ptr a) s = Some (True, s')"
    using at assms(2,3) s'(1) by (simp add: MM_freeNoLock_def upd_header_def s1_def i'_def)
  moreover have live': "live s' = live s - {a}"
    using same_blocks_live [OF s'(3)] b1(2) by simp
  moreover have "MM_blocks s' (tree_add (hsize (headers s1)) a t)"
    using b1 by (intro MM_blocks_same [OF b1(1) s'(3,2)]) (auto simp: MM_blocks_def)
  moreover have "hsize (headers s1) = hsize (headers s)"
    using assms(2) by (auto simp: hsize_def s1_def i'_def fun_eq_iff)
  moreover have "dom (headers s') = dom (headers s1)"
    using same_blocks_at(1) [OF s'(3)] by (auto simp: dom_def)
  moreover have "dom (headers s1) = dom (headers s)"
    using assms(2) by (auto simp: s1_def)
  moreover have "apart s' A" if "apart s A" for A
    using that assms(2) by (intro same_blocks_apart [OF s'(3)]) (auto simp: apart_def s1_def i'_def)
  moreover have "m_freeTop s' = m_freeTop s" "m_freeMax s' = m_freeMax s" "m_lastPage s' = m_lastPage s"
      "mm_bytes s' = mm_bytes s"
    using s'(3) by (simp_all add: same_blocks_def s1_def)
  ultimately show ?thesis
    using that same_blocks_hsize [OF s'(3)] by auto
qed

text \<open>The end of the last pages as a free block: nothing in use is touched.\<close>

lemma recycle_ok:
  assumes "MM_inv s t"
  obtains s' t' where "recycle_tail s = Some s'" "MM_blocks s' t'" "live s' = live s"
    "\<And>A. apart s A \<Longrightarrow> A \<inter> bump s = {} \<Longrightarrow> apart s' A" "mm_bytes s' = mm_bytes s"
    "\<And>a. a \<in> live s \<Longrightarrow> hsize (headers s') a = hsize (headers s) a"
proof (cases "m_lastPage s \<noteq> 0 \<and> m_freeTop s \<noteq> 0 \<and> m_freeMax s \<noteq> 0 \<and>
    m_freeTop s + sizeof_PtrInfo + 4 < m_freeMax s")
  case False
  then have "recycle_tail s = Some s"
    by (auto simp: recycle_tail_def)
  then show ?thesis
    using assms that [of s t] by (auto simp: MM_inv_def)
next
  case True
  let ?a = "m_freeTop s" and ?m = "m_freeMax s"
  let ?n = "?m - ?a - sizeof_PtrInfo"
  let ?s1 = "put_header ?a ?n (?m - ?a) s"
  have top: "?a \<le> ?m" "unat ?m + 24 < 2 ^ 32" "unat ?a \<le> unat ?m"
    using assms by (simp_all add: MM_inv_def word_le_nat_alt)
  have "unat (?a + 24) = unat ?a + 24"
    using top unat_add_lem [of ?a 24] by simp
  then have gap: "unat ?a + 24 < unat ?m"
    using True by (simp add: sizeof_PtrInfo_def word_less_nat_alt add.assoc)
  have "unat (?m - ?a) = unat ?m - unat ?a"
    using top(1) by (rule unat_sub)
  moreover from this have "unat ?n = unat (?m - ?a) - 20"
    using gap unat_sub [of 20 "?m - ?a"] by (simp add: sizeof_PtrInfo_def word_le_nat_alt)
  ultimately have n: "unat ?n = unat ?m - unat ?a - 20"
    by simp
  then have blk: "block ?a ?n = bump s"
    using gap by (simp add: block_def bump_def)
  have blocks: "MM_blocks s t" "apart s (bump s)"
    using assms by (simp_all add: MM_inv_def)
  have fresh: "headers s ?a = None"
  proof (rule ccontr)
    assume "headers s ?a \<noteq> None"
    then obtain i where "headers s ?a = Some i"
      by auto
    then have "block ?a (pi_size i) \<inter> bump s = {}"
      using blocks(2) by (simp add: apart_def)
    moreover have "unat ?a \<in> block ?a (pi_size i)"
      by (simp add: block_def)
    ultimately have "unat ?a \<notin> bump s"
      by blast
    then show False
      using gap by (simp add: bump_def)
  qed
  have "set_tree t \<subseteq> dom (headers s)"
    using blocks(1) by (metis MM_blocks_def free_tree_def tree_at_dom)
  then have "?a \<notin> set_tree t"
    using fresh by auto
  then have b1: "MM_blocks ?s1 t"
    using True gap n top(2) blocks
    by (intro MM_blocks_put [OF blocks(1)]) (auto simp: blk apart_def)
  have h1: "headers ?s1 ?a = Some \<lparr>pi_prev = 0, pi_next = 0, pi_size = ?n, pi_ressize = ?m - ?a,
      pi_state = PtrStateUsed, pi_used = True\<rparr>"
    by (simp add: put_header_def)
  obtain s' t' where s': "MM_freeNoLock (ptrinfo_to_ptr ?a) ?s1 = Some (True, s')" "MM_blocks s' t'"
    "live s' = live ?s1 - {?a}" "hsize (headers s') = hsize (headers ?s1)"
    "\<And>A. apart ?s1 A \<Longrightarrow> apart s' A" "mm_bytes s' = mm_bytes ?s1"
    using freeNoLock_ok [OF b1 h1] by (metis ptr_info.select_convs(5))
  have notlive: "?a \<notin> live s"
    using fresh by (auto simp: live_def)
  have "recycle_tail s = Some s'"
    using True s'(1) by (simp add: recycle_tail_def Let_def)
  moreover have "live s' = live s"
    using s'(3) notlive by auto
  moreover have "apart ?s1 A" if "apart s A" "A \<inter> bump s = {}" for A
    using that blk by (auto simp: apart_def put_header_def)
  moreover have "hsize (headers s') a = hsize (headers s) a" if "a \<in> live s" for a
    using s'(4) that notlive by (auto simp: hsize_def put_header_def)
  moreover have "mm_bytes s' = mm_bytes s"
    using s'(6) by (simp add: put_header_def)
  ultimately show ?thesis
    using that s'(2,5) by blast
qed

text \<open>
  What \<^verbatim>\<open>Paging::alloc\<close> promises about the pages it returns for a request of \<open>n\<close> bytes: they lie
  below the end of the address space and overlap neither a block nor the current pages.
\<close>

definition pages_for :: "u32 \<Rightarrow> nat" where
  "pages_for n = (unat n + 20) div 4096 + (if (unat n + 20) mod 4096 \<noteq> 0 then 1 else 0)"

definition page_range :: "u32 \<Rightarrow> u32 \<Rightarrow> nat set" where
  "page_range page n = {unat page ..< unat page + pages_for n * 4096}"

definition fresh_pages :: "u32 \<Rightarrow> u32 \<Rightarrow> mm \<Rightarrow> bool" where
  "fresh_pages page n s \<longleftrightarrow> page \<noteq> 0 \<and> unat page + pages_for n * 4096 + 24 < 2 ^ 32 \<and>
     apart s (page_range page n) \<and> page_range page n \<inter> bump s = {}"

text \<open>The request fits the address space above the bump pointer, so that the bound test does not wrap.\<close>

definition no_wrap :: "u32 \<Rightarrow> mm \<Rightarrow> bool" where
  "no_wrap n s \<longleftrightarrow> unat (m_freeTop s) + unat n + 20 < 2 ^ 32"

lemma round_up_pages:
  "n = q * 4096 + r \<Longrightarrow> r < 4096 \<Longrightarrow> n \<le> (q + (if r \<noteq> 0 then 1 else 0)) * (4096 :: nat)"
  by (cases "r = 0") auto

lemma pages_cover: "unat n + 20 \<le> pages_for n * 4096"
  unfolding pages_for_def
  by (rule round_up_pages [OF div_mult_mod_eq [symmetric] mod_less_divisor]) simp

lemma pages_count:
  assumes "unat page + pages_for n * 4096 + 24 < 2 ^ 32"
  defines "size2 \<equiv> n + sizeof_PtrInfo"
  shows "unat size2 = unat n + 20"
    "unat (page + (size2 div PAGE_SIZE + (if size2 mod PAGE_SIZE \<noteq> 0 then 1 else 0)) * PAGE_SIZE) =
       unat page + pages_for n * 4096"
proof -
  have n: "unat n + 20 < 2 ^ 32"
    using pages_cover [of n] assms(1) by linarith
  then show s2: "unat size2 = unat n + 20"
    unfolding size2_def sizeof_PtrInfo_def using unat_add_lem [of n 20] by simp
  have "(size2 div PAGE_SIZE + (if size2 mod PAGE_SIZE \<noteq> 0 then 1 else 0)) = (of_nat (pages_for n) :: u32)"
  proof -
    have "of_nat (unat (size2 div PAGE_SIZE)) = size2 div PAGE_SIZE"
        "of_nat (unat (size2 mod PAGE_SIZE)) = size2 mod PAGE_SIZE"
      by (simp_all add: ucast_id)
    moreover have "unat (size2 div PAGE_SIZE) = (unat n + 20) div 4096"
        "unat (size2 mod PAGE_SIZE) = (unat n + 20) mod 4096"
      unfolding s2 [symmetric] by (simp_all add: PAGE_SIZE_def unat_div unat_mod)
    ultimately have "size2 div PAGE_SIZE = of_nat ((unat n + 20) div 4096)"
        "size2 mod PAGE_SIZE = of_nat ((unat n + 20) mod 4096)"
      by metis+
    moreover have "(of_nat ((unat n + 20) mod 4096) :: u32) = 0 \<longleftrightarrow> (unat n + 20) mod 4096 = 0"
      using of_nat_u32_eq_iff [of "(unat n + 20) mod 4096" 0] by (simp add: order_less_trans [OF mod_less_divisor])
    ultimately show ?thesis
      by (simp add: pages_for_def)
  qed
  then have "page + (size2 div PAGE_SIZE + (if size2 mod PAGE_SIZE \<noteq> 0 then 1 else 0)) * PAGE_SIZE =
      of_nat (unat page + pages_for n * 4096)"
    by (simp add: PAGE_SIZE_def ucast_id)
  then show "unat (page + (size2 div PAGE_SIZE + (if size2 mod PAGE_SIZE \<noteq> 0 then 1 else 0)) * PAGE_SIZE) =
       unat page + pages_for n * 4096"
    using assms(1) by (simp only: unat_of_nat_u32)
qed

text \<open>What an allocation of \<open>n\<close> bytes yields: a block of that size that was not in use.\<close>

definition alloc_result :: "mm \<Rightarrow> u32 \<Rightarrow> u32 \<times> mm \<Rightarrow> bool" where
  "alloc_result s n res \<longleftrightarrow> (\<exists>a i s' t'. res = (ptrinfo_to_ptr a, s') \<and> ptrinfo_to_ptr a \<noteq> 0 \<and> MM_inv s' t' \<and> a \<notin> live s \<and>
     live s' = insert a (live s) \<and> headers s' a = Some i \<and> pi_size i = n \<and>
     (\<forall>b \<in> live s. hsize (headers s') b = hsize (headers s) b) \<and> mm_bytes s' = mm_bytes s)"

lemma MM_blocks_ptrs:
  "MM_blocks (s\<lparr>m_lastPage := x, m_freeTop := y, m_freeMax := z\<rparr>) t \<longleftrightarrow> MM_blocks s t"
  "MM_blocks (s\<lparr>m_freeTop := y\<rparr>) t \<longleftrightarrow> MM_blocks s t"
  by (simp_all add: MM_blocks_def free_tree_def live_def)

lemma live_ptrs [simp]:
  "live (s\<lparr>m_lastPage := x, m_freeTop := y, m_freeMax := z\<rparr>) = live s" "live (s\<lparr>m_freeTop := y\<rparr>) = live s"
  by (simp_all add: live_def)

lemma apart_ptrs [simp]:
  "apart (s\<lparr>m_lastPage := x, m_freeTop := y, m_freeMax := z\<rparr>) A = apart s A" "apart (s\<lparr>m_freeTop := y\<rparr>) A = apart s A"
  by (simp_all add: apart_def)

lemma apart_mono: "apart s A \<Longrightarrow> B \<subseteq> A \<Longrightarrow> apart s B"
  unfolding apart_def by blast

text \<open>A new block cut off the bump area or off new pages.\<close>

definition cut_block :: "mm \<Rightarrow> u32 \<Rightarrow> u32 \<Rightarrow> mm \<Rightarrow> bool" where
  "cut_block s n a s' \<longleftrightarrow> a \<noteq> 0 \<and> (\<exists>t'. MM_inv s' t') \<and> apart s' (block a n) \<and> unat a + 20 + unat n < 2 ^ 32 \<and>
     block a n \<inter> bump s' = {} \<and> live s' = live s \<and> mm_bytes s' = mm_bytes s \<and>
     (\<forall>b \<in> live s. hsize (headers s') b = hsize (headers s) b)"

lemma alloc_fresh_bump:
  assumes "MM_inv s t" "no_wrap n s" "m_freeTop s \<noteq> 0" "m_freeTop s + (n + sizeof_PtrInfo) < m_freeMax s"
  shows "cut_block s n (m_freeTop s) (s\<lparr>m_freeTop := m_freeTop s + (n + sizeof_PtrInfo)\<rparr>)"
proof -
  let ?s = "s\<lparr>m_freeTop := m_freeTop s + (n + sizeof_PtrInfo)\<rparr>"
  have n: "unat (n + sizeof_PtrInfo) = unat n + 20"
    using assms(2) unat_add_lem [of n 20] by (simp add: no_wrap_def sizeof_PtrInfo_def)
  then have u: "unat (m_freeTop s + (n + sizeof_PtrInfo)) = unat (m_freeTop s) + unat n + 20"
    using assms(2) unat_add_lem [of "m_freeTop s" "n + sizeof_PtrInfo"] by (simp add: no_wrap_def)
  then have lt: "unat (m_freeTop s) + unat n + 20 < unat (m_freeMax s)"
    using assms(4) by (simp add: word_less_nat_alt)
  have sub: "bump ?s \<subseteq> bump s" "block (m_freeTop s) n \<subseteq> bump s" "block (m_freeTop s) n \<inter> bump ?s = {}"
    using lt by (auto simp: bump_def block_def u)
  have ap: "apart s (bump s)"
    using assms(1) by (simp add: MM_inv_def)
  have "m_freeTop ?s \<noteq> 0"
  proof
    assume "m_freeTop ?s = 0"
    then have "unat (m_freeTop s + (n + sizeof_PtrInfo)) = 0"
      by simp
    then show False
      using u by linarith
  qed
  moreover have "apart ?s (bump ?s)" "apart ?s (block (m_freeTop s) n)"
    using apart_mono [OF ap] sub by (metis apart_ptrs(2))+
  ultimately have "MM_inv ?s t"
    using assms(1,3) lt u by (auto simp: MM_inv_def MM_blocks_ptrs word_le_nat_alt)
  then show ?thesis
    using assms(2,3) sub \<open>apart ?s (block (m_freeTop s) n)\<close>
    by (auto simp: cut_block_def no_wrap_def)
qed

lemma alloc_fresh_pages:
  assumes "MM_blocks s t" "page \<noteq> 0" "unat page + pages_for n * 4096 + 24 < 2 ^ 32" "apart s (page_range page n)"
  defines "size2 \<equiv> n + sizeof_PtrInfo"
  defines "s' \<equiv> s\<lparr>m_lastPage := page, m_freeTop := page + size2,
    m_freeMax := page + (size2 div PAGE_SIZE + (if size2 mod PAGE_SIZE \<noteq> 0 then 1 else 0)) * PAGE_SIZE\<rparr>"
  shows "cut_block s n page s'"
proof -
  have c: "unat size2 = unat n + 20" "unat (m_freeMax s') = unat page + pages_for n * 4096"
    unfolding s'_def size2_def using pages_count [OF assms(3)] by simp_all
  have lt: "unat n + 20 \<le> pages_for n * 4096"
    by (rule pages_cover)
  have top: "unat (m_freeTop s') = unat page + unat n + 20"
    using c(1) lt assms(3) unat_add_lem [of page size2] by (simp add: s'_def)
  have sub: "bump s' \<subseteq> page_range page n" "block page n \<subseteq> page_range page n" "block page n \<inter> bump s' = {}"
    using lt by (auto simp: bump_def block_def page_range_def c top)
  have ap: "apart s' (page_range page n)" "MM_blocks s' t" "live s' = live s" "headers s' = headers s"
      "mm_bytes s' = mm_bytes s" "m_lastPage s' = page"
    using assms(1,4) by (simp_all add: s'_def MM_blocks_ptrs)
  have "m_freeTop s' \<noteq> 0" "m_freeMax s' \<noteq> 0"
    using top c(2) lt by (metis add_is_0 le_zero_eq unat_0 zero_neq_numeral)+
  then have "MM_inv s' t"
    using ap(2) apart_mono [OF ap(1) sub(1)] c(2) top lt assms(2,3) ap(6)
    by (auto simp: MM_inv_def word_le_nat_alt)
  then show ?thesis
    using apart_mono [OF ap(1) sub(2)] sub(3) ap lt assms(2,3) by (auto simp: cut_block_def)
qed

lemma alloc_fresh_ok:
  assumes "MM_inv s t" "fresh_pages page n s" "no_wrap n s"
  obtains a s' where "alloc_fresh page (n + sizeof_PtrInfo) s = Some (a, s')" "cut_block s n a s'"
proof (cases "m_lastPage s = 0 \<or> m_freeTop s = 0 \<or> m_freeMax s = 0 \<or>
    m_freeTop s + (n + sizeof_PtrInfo) \<ge> m_freeMax s")
  case False
  then have "cut_block s n (m_freeTop s) (s\<lparr>m_freeTop := m_freeTop s + (n + sizeof_PtrInfo)\<rparr>)"
    by (intro alloc_fresh_bump [OF assms(1,3)]) auto
  then show ?thesis
    using that False by (auto simp: alloc_fresh_def Let_def)
next
  case True
  obtain s1 t1 where s1: "recycle_tail s = Some s1" "MM_blocks s1 t1" "live s1 = live s"
    "\<And>A. apart s A \<Longrightarrow> A \<inter> bump s = {} \<Longrightarrow> apart s1 A" "mm_bytes s1 = mm_bytes s"
    "\<And>a. a \<in> live s \<Longrightarrow> hsize (headers s1) a = hsize (headers s) a"
    by (rule recycle_ok [OF assms(1)]) blast
  have p: "page \<noteq> 0" "unat page + pages_for n * 4096 + 24 < 2 ^ 32" "apart s1 (page_range page n)"
    using assms(2) s1(4) by (auto simp: fresh_pages_def)
  let ?z = "n + sizeof_PtrInfo"
  let ?s' = "s1\<lparr>m_lastPage := page, m_freeTop := page + ?z,
    m_freeMax := page + (?z div PAGE_SIZE + (if ?z mod PAGE_SIZE \<noteq> 0 then 1 else 0)) * PAGE_SIZE\<rparr>"
  have "cut_block s1 n page ?s'"
    using alloc_fresh_pages [OF s1(2) p] .
  then have "cut_block s n page ?s'"
    using s1(3,5,6) by (auto simp: cut_block_def)
  moreover have "alloc_fresh page ?z s = Some (page, ?s')"
    using True s1(1) p(1) by (simp add: alloc_fresh_def Let_def)
  ultimately show ?thesis
    using that by blast
qed

lemma put_inv:
  assumes "MM_inv s t" "a \<notin> set_tree t" "a \<noteq> 0" "unat a + 20 + unat n < 2 ^ 32"
    "\<And>b i. headers s b = Some i \<Longrightarrow> b \<noteq> a \<Longrightarrow> block b (pi_size i) \<inter> block a n = {}" "block a n \<inter> bump s = {}"
  shows "MM_inv (put_header a n m s) t"
proof -
  have "MM_blocks (put_header a n m s) t"
    using assms by (intro MM_blocks_put) (auto simp: MM_inv_def)
  moreover have "bump (put_header a n m s) = bump s"
    by (simp add: bump_def put_header_def)
  moreover have "apart (put_header a n m s) (bump s)"
    using assms(1,6) by (auto simp: MM_inv_def apart_def put_header_def split: if_splits)
  ultimately show ?thesis
    using assms(1) by (simp add: MM_inv_def) (simp add: put_header_def)
qed

lemma alloc_result_put:
  assumes "MM_inv s' t'" "a \<notin> set_tree t'" "a \<noteq> 0" "unat a + 20 + unat n < 2 ^ 32"
    "\<And>b i. headers s' b = Some i \<Longrightarrow> b \<noteq> a \<Longrightarrow> block b (pi_size i) \<inter> block a n = {}" "block a n \<inter> bump s' = {}"
    "live s' = live s" "a \<notin> live s" "mm_bytes s' = mm_bytes s"
    "\<forall>b \<in> live s. hsize (headers s') b = hsize (headers s) b"
  shows "alloc_result s n (ptrinfo_to_ptr a, put_header a n m s')"
proof -
  have "MM_inv (put_header a n m s') t'"
    using assms(1-6) by (rule put_inv)
  moreover have h: "headers (put_header a n m s') = (headers s')(a \<mapsto> \<lparr>pi_prev = 0, pi_next = 0,
      pi_size = n, pi_ressize = m, pi_state = PtrStateUsed, pi_used = True\<rparr>)"
      "mm_bytes (put_header a n m s') = mm_bytes s'"
    by (simp_all add: put_header_def)
  moreover have "\<forall>b \<in> live s. hsize (headers (put_header a n m s')) b = hsize (headers s) b"
    unfolding h using assms(8,10) by (auto simp: hsize_def)
  moreover have "block_ok a \<lparr>pi_prev = 0, pi_next = 0, pi_size = n, pi_ressize = m,
      pi_state = PtrStateUsed, pi_used = True\<rparr>"
    using assms(3,4) by (simp add: block_ok_def)
  note block_ptr_nonzero [OF this]
  ultimately show ?thesis
    unfolding alloc_result_def using assms(7-9)
    by (intro exI [of _ a] exI [of _ "put_header a n m s'"]) auto
qed

lemma allocMem_ok:
  assumes "MM_inv s t" "fresh_pages page n s" "no_wrap n s"
  shows "\<exists>res. MM_allocMem page n ty s = Some res \<and> alloc_result s n res"
proof -
  have fresh: "\<exists>res. (do { (ptr, s) \<leftarrow> alloc_fresh page (n + sizeof_PtrInfo) s;
      (if ptr = 0 then Some (0, s) else Some (ptrinfo_to_ptr ptr, put_header ptr n (n + sizeof_PtrInfo) s)) })
      = Some res \<and> alloc_result s n res"
  proof -
    obtain a s' where a: "alloc_fresh page (n + sizeof_PtrInfo) s = Some (a, s')" "cut_block s n a s'"
      using alloc_fresh_ok [OF assms] by metis
    then obtain t' where t': "MM_inv s' t'" "a \<noteq> 0" "apart s' (block a n)" "unat a + 20 + unat n < 2 ^ 32"
        "block a n \<inter> bump s' = {}" "live s' = live s" "mm_bytes s' = mm_bytes s"
        "\<forall>b \<in> live s. hsize (headers s') b = hsize (headers s) b"
      by (auto simp: cut_block_def)
    have "headers s' a = None"
    proof (rule ccontr)
      assume "headers s' a \<noteq> None"
      then obtain i where "headers s' a = Some i"
        by auto
      then have "block a (pi_size i) \<inter> block a n = {}"
        using t'(3) by (simp add: apart_def)
      moreover have "unat a \<in> block a (pi_size i) \<inter> block a n"
        by (simp add: block_def)
      ultimately show False
        by blast
    qed
    moreover from this have "a \<notin> live s"
      unfolding t'(6) [symmetric] by (simp add: live_def)
    moreover have "set_tree t' \<subseteq> dom (headers s')"
      using t'(1) by (metis MM_inv_def MM_blocks_def free_tree_def tree_at_dom)
    ultimately have "a \<notin> set_tree t'" "a \<notin> live s"
      by auto
    then have "alloc_result s n (ptrinfo_to_ptr a, put_header a n (n + sizeof_PtrInfo) s')"
      using t' by (intro alloc_result_put) (auto simp: apart_def)
    then show ?thesis
      using a t'(2) by simp
  qed
  show ?thesis
  proof (cases "ty = AllocNormal")
    case False
    then show ?thesis
      using fresh by (simp add: MM_allocMem_def Let_def)
  next
    case True
    have blocks: "MM_blocks s t" "free_tree s t"
      using assms(1) by (simp_all add: MM_inv_def MM_blocks_def)
    from blocks(2) show ?thesis
    proof (cases rule: findAvail_ok [where n = n])
      case none
      then show ?thesis
        using fresh True by (simp add: MM_allocMem_def Let_def)
    next
      case (found a s' t')
      have sl: "live s' = live s" "hsize (headers s') = hsize (headers s)" "bump s' = bump s"
          "mm_bytes s' = mm_bytes s"
        using found(6) same_blocks_live same_blocks_hsize by (auto simp: same_blocks_def bump_def)
      have "set_tree t' \<inter> live s = {}" "a \<notin> live s"
        using found(2,7) blocks(1) by (auto simp: MM_blocks_def)
      then have b': "MM_blocks s' t'"
        using MM_blocks_same [OF blocks(1) found(6,5)] by simp
      have ap': "apart s' (bump s')"
        using same_blocks_apart [OF found(6)] assms(1) sl(3) by (simp add: MM_inv_def)
      then have inv': "MM_inv s' t'"
        using assms(1) b' found(6) by (simp add: MM_inv_def same_blocks_def)
      obtain j where j: "headers s a = Some j"
        using free_tree_header [OF blocks(2) found(2)] by blast
      then obtain i where i: "headers s' a = Some i" "pi_size i = n"
        using same_blocks_at(2) [OF found(6) j] found(3) by (auto simp: hsize_def)
      have "block_ok a i" "\<And>b j. headers s' b = Some j \<Longrightarrow> b \<noteq> a \<Longrightarrow> block b (pi_size j) \<inter> block a n = {}"
        using b' i unfolding MM_blocks_def by blast+
      moreover have "block a n \<inter> bump s' = {}"
        using ap' i by (auto simp: apart_def)
      ultimately have "alloc_result s n (ptrinfo_to_ptr a, put_header a n (n + sizeof_PtrInfo) s')"
        using i(2) found(4,7) sl \<open>a \<notin> live s\<close>
        by (intro alloc_result_put [OF inv']) (auto simp: block_ok_def)
      then show ?thesis
        using found(1,4) True by (simp add: MM_allocMem_def Let_def)
    qed
  qed
qed

lemma size_limit: "no_wrap n s \<Longrightarrow> \<not> n > SIZEMASK - sizeof_PtrInfo"
proof -
  assume "no_wrap n s"
  then have "unat n \<le> unat (SIZEMASK - sizeof_PtrInfo)"
    by (simp add: no_wrap_def SIZEMASK_def sizeof_PtrInfo_def)
  then show ?thesis
    by (simp add: word_less_nat_alt)
qed

lemma MM_inv_bytes: "MM_inv (s\<lparr>mm_bytes := m\<rparr>) t \<longleftrightarrow> MM_inv s t"
  by (simp add: MM_inv_def MM_blocks_def free_tree_def live_def apart_def bump_def)

lemma live_bytes [simp]: "live (s\<lparr>mm_bytes := m\<rparr>) = live s"
  by (simp add: live_def)

lemma MM_free_inv:
  assumes "MM_inv s t" "a \<in> live s"
  obtains s' t' where "MM_freeNoLock (ptrinfo_to_ptr a) s = Some (True, s')" "MM_inv s' t'"
    "set_tree t' = insert a (set_tree t)" "live s' = live s - {a}"
    "hsize (headers s') = hsize (headers s)" "mm_bytes s' = mm_bytes s" "bump s' = bump s"
proof -
  obtain i where i: "headers s a = Some i" "pi_state i = PtrStateUsed"
    using assms(2) by (auto simp: live_def)
  have blocks: "MM_blocks s t"
    using assms(1) by (simp add: MM_inv_def)
  obtain s' t' where s': "MM_freeNoLock (ptrinfo_to_ptr a) s = Some (True, s')" "MM_blocks s' t'"
    "set_tree t' = insert a (set_tree t)" "live s' = live s - {a}"
    "hsize (headers s') = hsize (headers s)" "\<And>A. apart s A \<Longrightarrow> apart s' A"
    "m_freeTop s' = m_freeTop s" "m_freeMax s' = m_freeMax s" "m_lastPage s' = m_lastPage s"
    "mm_bytes s' = mm_bytes s"
    using freeNoLock_ok [OF blocks i] by metis
  moreover have "bump s' = bump s"
    using s'(7,8) by (simp add: bump_def)
  moreover have "MM_inv s' t'"
    using assms(1) s'(2,6-9) calculation(11) by (simp add: MM_inv_def)
  ultimately show ?thesis
    using that by metis
qed

lemma freed_again:
  assumes "MM_blocks s t" "headers s a = Some i" "a \<notin> live s"
  shows "MM_freeNoLock (ptrinfo_to_ptr a) s = Some (False, s)"
proof -
  have "block_ok a i"
    using assms(1,2) by (simp add: MM_blocks_def)
  then show ?thesis
    using assms(2,3) by (auto simp: MM_freeNoLock_def block_ok_def live_def)
qed

section \<open>Properties\<close>

text \<open>
  C6: allocation is safe.  In a well-formed heap, when \<^verbatim>\<open>Paging::alloc\<close> provides fresh pages if
  asked and the request does not wrap the address space, \<^verbatim>\<open>alloc\<close> returns a non-null block of
  exactly the requested size that was not in use; every block in use before stays in use with its
  size, the heap stays well formed (all blocks pairwise disjoint and apart from the bump area, the
  free blocks an ordered tree), and no user byte changes.
\<close>

theorem MM_alloc_safe:
  assumes "MM_inv s t" "fresh_pages page n s" "no_wrap n s" "ty = AllocNormal \<or> ty = AllocFast"
  shows "\<exists>a i s' t'. MM_alloc page n ty s = Some (ptrinfo_to_ptr a, s') \<and> ptrinfo_to_ptr a \<noteq> 0 \<and>
    MM_inv s' t' \<and> a \<notin> live s \<and> live s' = insert a (live s) \<and> headers s' a = Some i \<and> pi_size i = n \<and>
    (\<forall>b \<in> live s. hsize (headers s') b = hsize (headers s) b) \<and> mm_bytes s' = mm_bytes s"
  using allocMem_ok [OF assms(1-3), of ty] assms(4) size_limit [OF assms(3)]
  by (auto simp: MM_alloc_def alloc_result_def)

theorem MM_alloc_safe_witness:
  "\<exists>a s' t'. MM_alloc 0x400000 100 AllocNormal (MM_new (\<lambda>_. 0)) = Some (ptrinfo_to_ptr a, s') \<and>
    MM_inv s' t' \<and> live s' = {a}"
proof -
  have "fresh_pages 0x400000 100 (MM_new (\<lambda>_. 0))" "no_wrap 100 (MM_new (\<lambda>_. 0))"
    by (simp_all add: fresh_pages_def no_wrap_def MM_new_def pages_for_def apart_def bump_def)
  moreover have "live (MM_new (\<lambda>_. 0)) = {}"
    by (simp add: live_def MM_new_def)
  ultimately show ?thesis
    using MM_alloc_safe [of "MM_new (\<lambda>_. 0)" Leaf "0x400000" 100 AllocNormal] MM_inv_new by auto
qed

text \<open>
  C7: release.  Freeing a block in use succeeds, removes exactly that block from those in use and
  adds it to the free tree; freeing it a second time, or freeing \<^verbatim>\<open>nullptr\<close>, reports failure and
  changes nothing.
\<close>

theorem MM_free_releases:
  assumes "MM_inv s t" "a \<in> live s"
  shows "\<exists>s' t'. MM_free (ptrinfo_to_ptr a) s = Some (True, s') \<and> MM_inv s' t' \<and>
    live s' = live s - {a} \<and> set_tree t' = insert a (set_tree t) \<and> mm_bytes s' = mm_bytes s \<and>
    MM_free (ptrinfo_to_ptr a) s' = Some (False, s') \<and> MM_free 0 s = Some (False, s)"
proof -
  obtain s' t' where s': "MM_freeNoLock (ptrinfo_to_ptr a) s = Some (True, s')" "MM_inv s' t'"
      "set_tree t' = insert a (set_tree t)" "live s' = live s - {a}" "mm_bytes s' = mm_bytes s"
    using MM_free_inv [OF assms] by metis
  have b: "MM_blocks s' t'"
    using s'(2) by (simp add: MM_inv_def)
  then obtain i where "headers s' a = Some i"
    using s'(3) free_tree_header [of s' t' a] by (auto simp: MM_blocks_def)
  then have "MM_freeNoLock (ptrinfo_to_ptr a) s' = Some (False, s')"
    using freed_again [OF b] s'(4) by blast
  moreover have "MM_freeNoLock 0 s = Some (False, s)"
    by (simp add: MM_freeNoLock_def)
  ultimately show ?thesis
    unfolding MM_free_def using s' by blast
qed

theorem MM_free_releases_witness:
  "\<exists>s' t'. MM_free 0x1014 (put_header 0x1000 8 28 (MM_new (\<lambda>_. 0))) = Some (True, s') \<and>
    MM_inv s' t' \<and> live s' = {} \<and> set_tree t' = {0x1000}"
proof -
  let ?s = "put_header 0x1000 8 28 (MM_new (\<lambda>_. 0))"
  have "MM_inv ?s Leaf"
    by (rule put_inv [OF MM_inv_new]) (simp_all add: MM_new_def bump_def)
  moreover have l: "live ?s = {0x1000}"
    by simp
  ultimately show ?thesis
    using MM_free_releases [of ?s Leaf "0x1000"] by (auto simp: ptrinfo_to_ptr_def sizeof_PtrInfo_def)
qed

text \<open>
  C8: recycling.  After a block of \<open>n\<close> bytes has been freed, the next normal allocation of \<open>n\<close>
  bytes is served from the free tree: it returns a block that was free, asks for no pages (the
  argument \<open>page\<close> is arbitrary) and leaves the bump area as it was.
\<close>

theorem MM_alloc_recycles:
  assumes "MM_inv s t" "a \<in> live s" "hsize (headers s) a = n" "n \<le> SIZEMASK - sizeof_PtrInfo"
  shows "\<exists>s1 t1 b s2. MM_free (ptrinfo_to_ptr a) s = Some (True, s1) \<and> MM_inv s1 t1 \<and>
    MM_alloc page n AllocNormal s1 = Some (ptrinfo_to_ptr b, s2) \<and> b \<in> set_tree t1 \<and>
    hsize (headers s1) b = n \<and> bump s2 = bump s \<and> live s2 = insert b (live s - {a})"
proof -
  obtain s1 t1 where s1: "MM_freeNoLock (ptrinfo_to_ptr a) s = Some (True, s1)" "MM_inv s1 t1"
      "set_tree t1 = insert a (set_tree t)" "live s1 = live s - {a}"
      "hsize (headers s1) = hsize (headers s)" "bump s1 = bump s"
    using MM_free_inv [OF assms(1,2)] by metis
  have "free_tree s1 t1"
    using s1(2) by (simp add: MM_inv_def MM_blocks_def)
  then show ?thesis
  proof (cases rule: findAvail_ok [where n = n])
    case none
    then show ?thesis
      using s1(3,5) assms(3) by auto
  next
    case (found b s2 t2)
    have alloc: "MM_alloc page n AllocNormal s1 =
        Some (ptrinfo_to_ptr b, put_header b n (n + sizeof_PtrInfo) s2)"
      using found(1,4) assms(4) by (simp add: MM_alloc_def MM_allocMem_def Let_def not_less [symmetric])
    moreover have "bump (put_header b n (n + sizeof_PtrInfo) s2) = bump s"
      using found(6) s1(6) by (simp add: same_blocks_def bump_def put_header_def)
    moreover have "live s2 = live s - {a}"
      using same_blocks_live [OF found(6)] s1(4) by simp
    ultimately show ?thesis
      using s1(1,2) found(2,3) by (auto simp: MM_free_def)
  qed
qed

theorem MM_alloc_recycles_witness:
  "\<exists>s1 b s2. MM_free 0x1014 (put_header 0x1000 8 28 (MM_new (\<lambda>_. 0))) = Some (True, s1) \<and>
    MM_alloc 0 8 AllocNormal s1 = Some (ptrinfo_to_ptr b, s2) \<and> live s2 = {b}"
proof -
  let ?s = "put_header 0x1000 8 28 (MM_new (\<lambda>_. 0))"
  have "MM_inv ?s Leaf"
    by (rule put_inv [OF MM_inv_new]) (simp_all add: MM_new_def bump_def)
  moreover have l: "live ?s = {0x1000}" "hsize (headers ?s) 0x1000 = 8"
    by (simp, simp add: hsize_def put_header_def)
  ultimately show ?thesis
    using MM_alloc_recycles [of ?s Leaf "0x1000" 8 0]
    by (auto simp: ptrinfo_to_ptr_def sizeof_PtrInfo_def SIZEMASK_def)
qed

text \<open>
  \<^verbatim>\<open>realloc\<close> to a different non-zero size moves a block in use: the new block has the new size
  and holds the first \<open>min\<close> of both sizes bytes of the old one, the old block is no longer in use,
  every other block keeps its size, and the heap stays well formed.
\<close>

theorem MM_realloc_moves:
  assumes "MM_inv s t" "fresh_pages page n s" "no_wrap n s" "a \<in> live s" "hsize (headers s) a \<noteq> n" "n \<noteq> 0"
  shows "\<exists>b s' t'. MM_realloc page (ptrinfo_to_ptr a) n s = Some (ptrinfo_to_ptr b, s') \<and> MM_inv s' t' \<and>
    live s' = insert b (live s - {a}) \<and> b \<notin> live s \<and> hsize (headers s') b = n \<and>
    (\<forall>c \<in> live s - {a}. hsize (headers s') c = hsize (headers s) c) \<and>
    (\<forall>k < min (hsize (headers s) a) n.
       mm_bytes s' (ptrinfo_to_ptr b + k) = mm_bytes s (ptrinfo_to_ptr a + k))"
proof -
  obtain i where i: "headers s a = Some i" "pi_state i = PtrStateUsed" "pi_size i \<noteq> n"
    using assms(4,5) by (auto simp: live_def hsize_def)
  have "block_ok a i"
    using assms(1) i(1) by (auto simp: MM_inv_def MM_blocks_def)
  then have nz: "ptrinfo_to_ptr a \<noteq> 0"
    by (rule block_ptr_nonzero)
  obtain b j s1 t1 where s1: "MM_allocMem page n AllocNormal s = Some (ptrinfo_to_ptr b, s1)" "ptrinfo_to_ptr b \<noteq> 0"
      "MM_inv s1 t1" "b \<notin> live s" "live s1 = insert b (live s)" "headers s1 b = Some j" "pi_size j = n"
      "\<forall>c \<in> live s. hsize (headers s1) c = hsize (headers s) c" "mm_bytes s1 = mm_bytes s"
    using allocMem_ok [OF assms(1-3), of AllocNormal] by (auto simp: alloc_result_def)
  have alloc: "MM_alloc page n AllocNormal s = Some (ptrinfo_to_ptr b, s1)"
    using s1(1) size_limit [OF assms(3)] by (simp add: MM_alloc_def)
  have "a \<in> live s1"
    using s1(5) assms(4) by simp
  then obtain i1 where i1: "headers s1 a = Some i1" "pi_size i1 = hsize (headers s) a"
    using s1(8) assms(4) by (auto simp: live_def hsize_def)
  let ?s2 = "s1\<lparr>mm_bytes := move_bytes (ptrinfo_to_ptr b) (ptrinfo_to_ptr a) (min (pi_size i1) n) (mm_bytes s1)\<rparr>"
  have s2: "MM_inv ?s2 t1" "a \<in> live ?s2"
    using \<open>a \<in> live s1\<close> s1(3) by (simp_all add: MM_inv_bytes)
  obtain s' t' where s': "MM_freeNoLock (ptrinfo_to_ptr a) ?s2 = Some (True, s')" "MM_inv s' t'"
      "live s' = live ?s2 - {a}" "hsize (headers s') = hsize (headers ?s2)" "mm_bytes s' = mm_bytes ?s2"
    by (rule MM_free_inv [OF s2]) blast
  have "MM_realloc page (ptrinfo_to_ptr a) n s = Some (ptrinfo_to_ptr b, s')"
    using assms(6) nz i alloc s1(2) i1(1) s'(1) by (simp add: MM_realloc_def Let_def)
  moreover have "b \<noteq> a"
    using s1(4) assms(4) by auto
  ultimately show ?thesis
    using s' s1 i1 assms(4)
    by (intro exI [of _ b] exI [of _ s'] exI [of _ t']) (auto simp: hsize_Some move_bytes_def)
qed

theorem MM_realloc_moves_witness:
  "\<exists>b s'. MM_realloc 0x400000 0x1014 16 (put_header 0x1000 8 28 (MM_new (\<lambda>x. ucast x))) =
      Some (ptrinfo_to_ptr b, s') \<and> live s' = {b} \<and> mm_bytes s' (ptrinfo_to_ptr b + 3) = 0x17"
proof -
  let ?s = "put_header 0x1000 8 28 (MM_new (\<lambda>x. ucast x))"
  have "MM_inv ?s Leaf"
    by (rule put_inv [OF MM_inv_new]) (simp_all add: MM_new_def bump_def)
  moreover have "live ?s = {0x1000}" "hsize (headers ?s) 0x1000 = 8" "mm_bytes ?s 0x1017 = 0x17"
    by (simp, simp add: hsize_def put_header_def, simp add: put_header_def MM_new_def)
  moreover have "fresh_pages 0x400000 16 ?s" "no_wrap 16 ?s"
    by (auto simp: fresh_pages_def no_wrap_def MM_new_def pages_for_def apart_def bump_def put_header_def
        page_range_def block_def)
  ultimately obtain b s' where b: "MM_realloc 0x400000 0x1014 16 ?s = Some (ptrinfo_to_ptr b, s')" "live s' = {b}"
      "\<forall>k < 8. mm_bytes s' (ptrinfo_to_ptr b + k) = mm_bytes ?s (0x1014 + k)"
    using MM_realloc_moves [of ?s Leaf "0x400000" 16 "0x1000"]
    by (auto simp: ptrinfo_to_ptr_def sizeof_PtrInfo_def)
  from b(3) have "mm_bytes s' (ptrinfo_to_ptr b + 3) = mm_bytes ?s (0x1014 + 3)"
    by simp
  also have "\<dots> = 0x17"
    by (simp add: put_header_def MM_new_def)
  finally show ?thesis
    using b(1,2) by blast
qed

text \<open>
  two defects of the allocator.  A request so large that the bump pointer plus its size wraps
  around the address space passes the bound test: \<^verbatim>\<open>alloc\<close> returns the bump pointer and moves it
  backwards, below memory already handed out.  And when a block with two subtrees is taken from
  the root of the free tree, only the root of its left subtree is added back: the other blocks of
  the left subtree are neither in use nor free any more.
\<close>

theorem MM_alloc_defects:
  "(m_lastPage s \<noteq> 0 \<and> m_freeTop s \<noteq> 0 \<and> m_freeMax s \<noteq> 0 \<and> n \<le> SIZEMASK - sizeof_PtrInfo \<and>
      2 ^ 32 \<le> unat (m_freeTop s) + unat n + 20 \<and> m_freeTop s + (n + sizeof_PtrInfo) < m_freeMax s \<longrightarrow>
      (\<exists>s'. MM_alloc page n AllocFast s = Some (ptrinfo_to_ptr (m_freeTop s), s') \<and>
         m_freeTop s' < m_freeTop s)) \<and>
   (free_tree s (Node l a r) \<and> l \<noteq> Leaf \<and> r \<noteq> Leaf \<longrightarrow>
      (\<exists>s' t'. MM_findAvail (hsize (headers s) a) s = Some (a, s') \<and> free_tree s' t' \<and>
         set_tree t' = root_set l \<union> set_tree r))"
proof (intro conjI impI)
  assume a: "m_lastPage s \<noteq> 0 \<and> m_freeTop s \<noteq> 0 \<and> m_freeMax s \<noteq> 0 \<and> n \<le> SIZEMASK - sizeof_PtrInfo \<and>
      2 ^ 32 \<le> unat (m_freeTop s) + unat n + 20 \<and> m_freeTop s + (n + sizeof_PtrInfo) < m_freeMax s"
  then have "unat n \<le> unat (SIZEMASK - sizeof_PtrInfo)"
    by (simp add: word_le_nat_alt)
  then have n: "unat (n + sizeof_PtrInfo) = unat n + 20"
    using unat_add_lem [of n 20] by (simp add: SIZEMASK_def sizeof_PtrInfo_def)
  have "unat (m_freeTop s + (n + sizeof_PtrInfo)) = unat (m_freeTop s) + (unat n + 20) - 2 ^ 32"
    using a n by (subst unat_plus_if') (simp add: not_less)
  moreover have "unat n + 20 < 2 ^ 32"
    using n unat_u32_less [of "n + sizeof_PtrInfo"] by simp
  moreover have "0 < unat (m_freeTop s)"
    using a by (simp add: unat_gt_0)
  ultimately have "unat (m_freeTop s + (n + sizeof_PtrInfo)) < unat (m_freeTop s)"
    by linarith
  then have "m_freeTop s + (n + sizeof_PtrInfo) < m_freeTop s"
    by (simp add: word_less_nat_alt)
  then show "\<exists>s'. MM_alloc page n AllocFast s = Some (ptrinfo_to_ptr (m_freeTop s), s') \<and>
         m_freeTop s' < m_freeTop s"
  proof -
    have "\<not> (m_lastPage s = 0 \<or> m_freeTop s = 0 \<or> m_freeMax s = 0 \<or> m_freeTop s + (n + sizeof_PtrInfo) \<ge> m_freeMax s)"
        "\<not> n > SIZEMASK - sizeof_PtrInfo"
      using a by auto
    then show ?thesis
      using a \<open>m_freeTop s + (n + sizeof_PtrInfo) < m_freeTop s\<close>
      by (simp add: MM_alloc_def MM_allocMem_def alloc_fresh_def Let_def put_header_def)
  qed
next
  assume a: "free_tree s (Node l a r) \<and> l \<noteq> Leaf \<and> r \<noteq> Leaf"
  then have tr: "tree_at (headers s) (mm_last_free s) (Node l a r)"
    unfolding free_tree_def by blast
  then obtain i where i: "mm_last_free s = ptrinfo_to_ptr a" "mm_last_free s \<noteq> 0" "a \<noteq> 0" "headers s a = Some i"
    by auto
  then have "MM_findAvail (hsize (headers s) a) s = MM_releaseFree a 0 s"
    by (simp add: MM_findAvail_def findAvail_walk.simps [of _ a] hsize_Some)
  moreover have "parent_ok s (Node l a r) a 0"
    using i(1) by (simp add: parent_ok_def)
  then obtain s' t' where "MM_releaseFree a 0 s = Some (a, s')" "free_tree s' t'"
      "set_tree t' = (if r = Leaf then set_tree l else root_set l \<union> set_tree r)"
    using release_root [OF _ _ tree_at_0 [OF tr] refl] a by metis
  ultimately show "\<exists>s' t'. MM_findAvail (hsize (headers s) a) s = Some (a, s') \<and> free_tree s' t' \<and>
         set_tree t' = root_set l \<union> set_tree r"
    using a by auto
qed

definition free_block :: "u32 \<Rightarrow> u32 \<Rightarrow> u32 \<Rightarrow> ptr_info" where
  "free_block n l r = \<lparr>pi_prev = l, pi_next = r, pi_size = n, pi_ressize = n + 20,
     pi_state = PtrStateFreed, pi_used = False\<rparr>"

theorem MM_alloc_defects_witness:
  "\<exists>s' t'. MM_findAvail 50 ((MM_new (\<lambda>_. 0))\<lparr>mm_last_free := 0x1014,
      headers := [0x1000 \<mapsto> free_block 50 0x2014 0x3014, 0x2000 \<mapsto> free_block 30 0x4014 0,
        0x3000 \<mapsto> free_block 80 0 0, 0x4000 \<mapsto> free_block 10 0 0]\<rparr>) = Some (0x1000, s') \<and>
    free_tree s' t' \<and> set_tree t' = {0x2000, 0x3000}"
proof -
  let ?h = "[0x1000 \<mapsto> free_block 50 0x2014 0x3014, 0x2000 \<mapsto> free_block 30 0x4014 0,
        0x3000 \<mapsto> free_block 80 0 0, 0x4000 \<mapsto> free_block 10 0 0] :: u32 \<Rightarrow> ptr_info option"
  let ?s = "(MM_new (\<lambda>_. 0))\<lparr>mm_last_free := 0x1014, headers := ?h\<rparr>"
  let ?l = "Node (Node Leaf 0x4000 Leaf) (0x2000 :: u32) Leaf" and ?r = "Node Leaf (0x3000 :: u32) Leaf"
  have "hsize (headers ?s) 0x1000 = 50"
    by (simp add: hsize_def free_block_def)
  moreover have "free_tree ?s (Node ?l 0x1000 ?r)"
    by (simp add: free_tree_def ptrinfo_to_ptr_def sizeof_PtrInfo_def free_block_def hsize_def)
  ultimately show ?thesis
    using MM_alloc_defects [of ?s 0 0 ?l "0x1000" ?r] by (auto simp: root_set_def)
qed

end
