(* ===== verification/Task_Sync.thy ===== *)
theory Task_Sync
  imports Kernel_Prelude
begin

text \<open>
  Blocking locks: \<^verbatim>\<open>Spinlock\<close>, \<^verbatim>\<open>BaseMutex\<close> and \<^verbatim>\<open>GuardMutex\<close> of \<^verbatim>\<open>inc/mutex.hh\<close>, and the queue
  \<^verbatim>\<open>Waitlist\<close> of \<^verbatim>\<open>src/waitlist.cpp\<close>, whose links are the \<^verbatim>\<open>wait\<close> members of the tasks.

  A task is named by a number; the wait item of task \<open>t\<close> is named by \<open>t\<close> too, since the
  constructor of \<^verbatim>\<open>Task\<close> sets \<^verbatim>\<open>wait.task = this\<close>.  The code between \<^verbatim>\<open>locker.lock()\<close> and
  \<^verbatim>\<open>locker.unlock()\<close> of \<^verbatim>\<open>lock\<close> and \<^verbatim>\<open>unlock\<close> is one function each.  The step relation
  \<open>mutex_step\<close> interleaves any number of tasks that call \<^verbatim>\<open>lock\<close> and \<^verbatim>\<open>unlock\<close>, one shared access
  per step.  \<^verbatim>\<open>reschedule()\<close> calls the scheduler (theory \<open>Scheduler\<close>), which may return to the
  calling task at any time, blocked or not: the step \<open>wake\<close> has no guard.  The lock is safe in the runs in
  which no blocked task is resumed; these are the runs of \<open>sound_step\<close>.
\<close>

section \<open>Tasks and the wait list\<close>

datatype task_status = STATUS_NONE | STATUS_RUNNING | STATUS_WAITING | STATUS_BLOCKED

record sync_task =
  wait_next :: ptr
  st_status :: task_status

type_synonym task_store = "nat \<Rightarrow> sync_task"

record waitlist =
  wl_head :: ptr
  wl_tail :: ptr

definition Waitlist_new :: waitlist where
  "Waitlist_new = \<lparr>wl_head = nullptr, wl_tail = nullptr\<rparr>"

text \<open>The first argument of \<open>Waitlist_enqueue\<close> is what \<^verbatim>\<open>currentTask()\<close> returns; \<^verbatim>\<open>nullptr\<close> is dereferenced.\<close>

definition Waitlist_enqueue :: "ptr \<Rightarrow> waitlist \<Rightarrow> task_store \<Rightarrow> (waitlist \<times> task_store) option" where
  "Waitlist_enqueue currentTask q ts =
     (case currentTask of None \<Rightarrow> None
      | Some current \<Rightarrow>
          let ts = ts(current := (ts current)\<lparr>wait_next := nullptr\<rparr>);
              (q, ts) = (case wl_tail q of
                 None \<Rightarrow> (q\<lparr>wl_tail := Some current, wl_head := Some current\<rparr>, ts)
               | Some l \<Rightarrow> (q\<lparr>wl_tail := Some current\<rparr>, ts(l := (ts l)\<lparr>wait_next := Some current\<rparr>)))
          in Some (q, ts(current := (ts current)\<lparr>st_status := STATUS_BLOCKED\<rparr>)))"

definition Waitlist_dequeue :: "waitlist \<Rightarrow> task_store \<Rightarrow> waitlist \<times> task_store" where
  "Waitlist_dequeue q ts =
     (case wl_head q of
        None \<Rightarrow> (q, ts)
      | Some h \<Rightarrow>
          (let q = (if wl_head q = wl_tail q then q\<lparr>wl_head := nullptr, wl_tail := nullptr\<rparr>
                    else q\<lparr>wl_head := wait_next (ts h)\<rparr>)
           in (q, ts(h := (ts h)\<lparr>st_status := STATUS_WAITING\<rparr>))))"

definition Waitlist_empty :: "waitlist \<Rightarrow> bool" where
  "Waitlist_empty q \<longleftrightarrow> wl_head q = nullptr"

section \<open>The locks\<close>

definition Spinlock_trylock :: "u32 \<Rightarrow> bool \<times> u32" where
  "Spinlock_trylock locked = (if locked = 0 then (True, 1) else (False, locked))"

definition Spinlock_unlock :: "u32 \<Rightarrow> u32" where
  "Spinlock_unlock locked = 0"

record base_mutex =
  bm_value :: u32
  bm_queue :: waitlist

definition BaseMutex_new :: base_mutex where
  "BaseMutex_new = \<lparr>bm_value = 0, bm_queue = Waitlist_new\<rparr>"

text \<open>The sections under the spin lock; the flag tells that the caller now holds the mutex.\<close>

definition BaseMutex_lock :: "ptr \<Rightarrow> base_mutex \<Rightarrow> task_store \<Rightarrow> (bool \<times> base_mutex \<times> task_store) option" where
  "BaseMutex_lock currentTask mx ts =
     (if bm_value mx = 0 then Some (True, mx\<lparr>bm_value := 1\<rparr>, ts)
      else do {
        (q, ts) \<leftarrow> Waitlist_enqueue currentTask (bm_queue mx) ts;
        Some (False, mx\<lparr>bm_queue := q\<rparr>, ts)
      })"

definition BaseMutex_unlock :: "base_mutex \<Rightarrow> task_store \<Rightarrow> base_mutex \<times> task_store" where
  "BaseMutex_unlock mx ts =
     (if Waitlist_empty (bm_queue mx) then (mx\<lparr>bm_value := 0\<rparr>, ts)
      else let (q, ts) = Waitlist_dequeue (bm_queue mx) ts in (mx\<lparr>bm_queue := q\<rparr>, ts))"

definition BaseMutex_isLocked :: "base_mutex \<Rightarrow> bool" where
  "BaseMutex_isLocked mx \<longleftrightarrow> bm_value mx \<noteq> 0"

text \<open>
  \<^verbatim>\<open>GuardMutex\<close> keeps its flag behind a pointer: its own \<open>value\<close> when constructed with \<^verbatim>\<open>nullptr\<close>,
  the caller's word \<open>gm_extern\<close> otherwise.
\<close>

record guard_mutex =
  gm_base :: base_mutex
  gm_extern :: u32
  gm_own :: bool

definition GuardMutex_new :: "u32 option \<Rightarrow> guard_mutex" where
  "GuardMutex_new p = \<lparr>gm_base = BaseMutex_new, gm_extern = (case p of None \<Rightarrow> 0 | Some v \<Rightarrow> v),
     gm_own = (p = None)\<rparr>"

definition get_guard :: "guard_mutex \<Rightarrow> u32" where
  "get_guard mx = (if gm_own mx then bm_value (gm_base mx) else gm_extern mx)"

definition set_guard :: "u32 \<Rightarrow> guard_mutex \<Rightarrow> guard_mutex" where
  "set_guard v mx = (if gm_own mx then mx\<lparr>gm_base := (gm_base mx)\<lparr>bm_value := v\<rparr>\<rparr> else mx\<lparr>gm_extern := v\<rparr>)"

definition GuardMutex_lock :: "ptr \<Rightarrow> guard_mutex \<Rightarrow> task_store \<Rightarrow> (bool \<times> guard_mutex \<times> task_store) option" where
  "GuardMutex_lock currentTask mx ts =
     (if get_guard mx = 0 then Some (True, set_guard 1 mx, ts)
      else do {
        (q, ts) \<leftarrow> Waitlist_enqueue currentTask (bm_queue (gm_base mx)) ts;
        Some (False, mx\<lparr>gm_base := (gm_base mx)\<lparr>bm_queue := q\<rparr>\<rparr>, ts)
      })"

definition GuardMutex_unlock :: "guard_mutex \<Rightarrow> task_store \<Rightarrow> guard_mutex \<times> task_store" where
  "GuardMutex_unlock mx ts =
     (if Waitlist_empty (bm_queue (gm_base mx)) then (set_guard 0 mx, ts)
      else let (q, ts) = Waitlist_dequeue (bm_queue (gm_base mx)) ts
           in (mx\<lparr>gm_base := (gm_base mx)\<lparr>bm_queue := q\<rparr>\<rparr>, ts))"

text \<open>The destructor of \<^verbatim>\<open>MutexLocker\<close>: it releases the mutex only if that is locked.\<close>

definition MutexLocker_end :: "base_mutex \<Rightarrow> task_store \<Rightarrow> base_mutex \<times> task_store" where
  "MutexLocker_end mx ts = (if BaseMutex_isLocked mx then BaseMutex_unlock mx ts else (mx, ts))"

section \<open>Tasks using a lock\<close>

datatype lock_pc =
    Outside        \<comment> \<open>not using the lock\<close>
  | LockSpin       \<comment> \<open>in lock, waiting for the spin lock\<close>
  | LockBody       \<comment> \<open>in lock, holding the spin lock\<close>
  | LockTaken      \<comment> \<open>mutex taken, spin lock still held\<close>
  | LockQueued     \<comment> \<open>enqueued, spin lock still held\<close>
  | Sleeping       \<comment> \<open>in reschedule\<close>
  | Critical       \<comment> \<open>lock has returned\<close>
  | UnlockSpin     \<comment> \<open>in unlock, waiting for the spin lock\<close>
  | UnlockBody     \<comment> \<open>in unlock, holding the spin lock\<close>
  | UnlockDone     \<comment> \<open>mutex released or handed over, spin lock still held\<close>

record 'm lock_world =
  lw_mutex :: 'm
  lw_locker :: u32
  lw_tasks :: task_store
  lw_pc :: "nat \<Rightarrow> lock_pc"

definition goto :: "nat \<Rightarrow> lock_pc \<Rightarrow> 'm lock_world \<Rightarrow> 'm lock_world" where
  "goto t c w = w\<lparr>lw_pc := (lw_pc w)(t := c)\<rparr>"

inductive mutex_step ::
  "(ptr \<Rightarrow> 'm \<Rightarrow> task_store \<Rightarrow> (bool \<times> 'm \<times> task_store) option) \<Rightarrow> ('m \<Rightarrow> task_store \<Rightarrow> 'm \<times> task_store) \<Rightarrow>
   'm lock_world \<Rightarrow> 'm lock_world \<Rightarrow> bool"
  for lock unlock where
  call_lock: "lw_pc w t = Outside \<Longrightarrow> mutex_step lock unlock w (goto t LockSpin w)"
| spin_lock: "lw_pc w t = LockSpin \<Longrightarrow> Spinlock_trylock (lw_locker w) = (True, l) \<Longrightarrow>
    mutex_step lock unlock w (goto t LockBody (w\<lparr>lw_locker := l\<rparr>))"
| lock_body: "lw_pc w t = LockBody \<Longrightarrow> lock (Some t) (lw_mutex w) (lw_tasks w) = Some (b, mx, ts) \<Longrightarrow>
    mutex_step lock unlock w
      (goto t (if b then LockTaken else LockQueued) (w\<lparr>lw_mutex := mx, lw_tasks := ts\<rparr>))"
| lock_taken: "lw_pc w t = LockTaken \<Longrightarrow>
    mutex_step lock unlock w (goto t Critical (w\<lparr>lw_locker := Spinlock_unlock (lw_locker w)\<rparr>))"
| lock_queued: "lw_pc w t = LockQueued \<Longrightarrow>
    mutex_step lock unlock w (goto t Sleeping (w\<lparr>lw_locker := Spinlock_unlock (lw_locker w)\<rparr>))"
| wake: "lw_pc w t = Sleeping \<Longrightarrow> mutex_step lock unlock w (goto t Critical w)"
| call_unlock: "lw_pc w t = Critical \<Longrightarrow> mutex_step lock unlock w (goto t UnlockSpin w)"
| spin_unlock: "lw_pc w t = UnlockSpin \<Longrightarrow> Spinlock_trylock (lw_locker w) = (True, l) \<Longrightarrow>
    mutex_step lock unlock w (goto t UnlockBody (w\<lparr>lw_locker := l\<rparr>))"
| unlock_body: "lw_pc w t = UnlockBody \<Longrightarrow> unlock (lw_mutex w) (lw_tasks w) = (mx, ts) \<Longrightarrow>
    mutex_step lock unlock w (goto t UnlockDone (w\<lparr>lw_mutex := mx, lw_tasks := ts\<rparr>))"
| unlock_done: "lw_pc w t = UnlockDone \<Longrightarrow>
    mutex_step lock unlock w (goto t Outside (w\<lparr>lw_locker := Spinlock_unlock (lw_locker w)\<rparr>))"
| dispatch: "st_status (lw_tasks w t) \<noteq> STATUS_BLOCKED \<Longrightarrow> st \<noteq> STATUS_BLOCKED \<Longrightarrow>
    mutex_step lock unlock w (w\<lparr>lw_tasks := (lw_tasks w)(t := (lw_tasks w t)\<lparr>st_status := st\<rparr>)\<rparr>)"

text \<open>
  \<open>resumes_blocked\<close>: in this step \<^verbatim>\<open>reschedule()\<close> returns to a task whose status is \<^verbatim>\<open>STATUS_BLOCKED\<close>.
  \<open>sound_step\<close>: a step in which that does not happen.
\<close>

definition resumes_blocked :: "'m lock_world \<Rightarrow> 'm lock_world \<Rightarrow> bool" where
  "resumes_blocked w w' \<longleftrightarrow>
     (\<exists>t. lw_pc w t = Sleeping \<and> lw_pc w' t = Critical \<and> st_status (lw_tasks w t) = STATUS_BLOCKED)"

definition sound_step ::
  "(ptr \<Rightarrow> 'm \<Rightarrow> task_store \<Rightarrow> (bool \<times> 'm \<times> task_store) option) \<Rightarrow> ('m \<Rightarrow> task_store \<Rightarrow> 'm \<times> task_store) \<Rightarrow>
   'm lock_world \<Rightarrow> 'm lock_world \<Rightarrow> bool" where
  "sound_step lock unlock w w' \<longleftrightarrow> mutex_step lock unlock w w' \<and> \<not> resumes_blocked w w'"

text \<open>What a lock is for: at most one task is past \<^verbatim>\<open>lock()\<close>, and a blocked task has somebody to wait for.\<close>

definition mutex_exclusive :: "'m lock_world \<Rightarrow> bool" where
  "mutex_exclusive w \<longleftrightarrow> (\<forall>t u. lw_pc w t = Critical \<longrightarrow> lw_pc w u = Critical \<longrightarrow> t = u)"

definition blocked_wait_for_owner :: "'m lock_world \<Rightarrow> bool" where
  "blocked_wait_for_owner w \<longleftrightarrow> (\<forall>t. st_status (lw_tasks w t) = STATUS_BLOCKED \<longrightarrow>
     (\<exists>u. u \<noteq> t \<and> (lw_pc w u \<in> {LockTaken, Critical, UnlockSpin, UnlockBody} \<or>
       lw_pc w u = Sleeping \<and> st_status (lw_tasks w u) \<noteq> STATUS_BLOCKED)))"

definition lock_start :: "'m \<Rightarrow> task_store \<Rightarrow> 'm lock_world" where
  "lock_start mx ts = \<lparr>lw_mutex = mx, lw_locker = 0, lw_tasks = ts, lw_pc = (\<lambda>_. Outside)\<rparr>"

section \<open>The wait list as a queue\<close>

fun wait_seg :: "task_store \<Rightarrow> ptr \<Rightarrow> nat list \<Rightarrow> bool" where
  "wait_seg ts p [] \<longleftrightarrow> p = nullptr"
| "wait_seg ts p (t # q) \<longleftrightarrow> p = Some t \<and> wait_seg ts (wait_next (ts t)) q"

definition queue_is :: "waitlist \<Rightarrow> task_store \<Rightarrow> nat list \<Rightarrow> bool" where
  "queue_is w ts q \<longleftrightarrow> wait_seg ts (wl_head w) q \<and> distinct q \<and>
     wl_tail w = (if q = [] then nullptr else Some (last q))"

lemma wait_seg_cong:
  "wait_seg ts p q \<Longrightarrow> (\<And>t. t \<in> set q \<Longrightarrow> wait_next (ts' t) = wait_next (ts t)) \<Longrightarrow> wait_seg ts' p q"
  by (induction q arbitrary: p) auto

lemma queue_is_new: "queue_is Waitlist_new ts []"
  by (simp add: queue_is_def Waitlist_new_def)

lemma queue_is_empty: "queue_is w ts q \<Longrightarrow> Waitlist_empty w \<longleftrightarrow> q = []"
  by (cases q) (auto simp: queue_is_def Waitlist_empty_def)

lemma wait_seg_snoc:
  "wait_seg ts p (q @ [l]) \<Longrightarrow> distinct (q @ [l]) \<Longrightarrow> c \<notin> set (q @ [l]) \<Longrightarrow>
   wait_seg (ts(l := (ts l)\<lparr>wait_next := Some c\<rparr>, c := (ts' c)\<lparr>wait_next := nullptr\<rparr>)) p (q @ [l, c])"
  by (induction q arbitrary: p) auto

lemma enqueue_ok:
  assumes "queue_is w ts q" "t \<notin> set q"
  obtains w' ts' where "Waitlist_enqueue (Some t) w ts = Some (w', ts')" "queue_is w' ts' (q @ [t])"
    "st_status (ts' t) = STATUS_BLOCKED" "\<And>u. u \<noteq> t \<Longrightarrow> st_status (ts' u) = st_status (ts u)"
proof (cases q rule: rev_cases)
  case Nil
  then have "wl_tail w = nullptr"
    using assms(1) by (simp add: queue_is_def)
  then show ?thesis
    using Nil that [of "w\<lparr>wl_tail := Some t, wl_head := Some t\<rparr>"]
    by (simp add: Waitlist_enqueue_def Let_def queue_is_def)
next
  case (snoc q' l)
  let ?ts1 = "ts(l := (ts l)\<lparr>wait_next := Some t\<rparr>, t := (ts t)\<lparr>wait_next := nullptr\<rparr>)"
  let ?ts' = "?ts1(t := (?ts1 t)\<lparr>st_status := STATUS_BLOCKED\<rparr>)"
  have l: "wl_tail w = Some l" "wait_seg ts (wl_head w) (q' @ [l])" "distinct (q' @ [l])" "l \<noteq> t"
    using assms snoc by (auto simp: queue_is_def)
  have "Waitlist_enqueue (Some t) w ts = Some (w\<lparr>wl_tail := Some t\<rparr>, ?ts')"
    using l by (simp add: Waitlist_enqueue_def Let_def fun_upd_twist)
  moreover have "wait_seg ?ts1 (wl_head w) (q' @ [l, t])"
    using wait_seg_snoc [OF l(2,3)] assms(2) snoc by blast
  then have "wait_seg ?ts' (wl_head w) (q' @ [l, t])"
    by (rule wait_seg_cong) simp
  then have "queue_is (w\<lparr>wl_tail := Some t\<rparr>) ?ts' (q @ [t])"
    using assms snoc by (auto simp: queue_is_def)
  ultimately show ?thesis
    using that l(4) by simp
qed

lemma dequeue_ok:
  assumes "queue_is w ts (t # q)"
  obtains w' ts' where "Waitlist_dequeue w ts = (w', ts')" "queue_is w' ts' q"
    "st_status (ts' t) = STATUS_WAITING" "\<And>u. u \<noteq> t \<Longrightarrow> st_status (ts' u) = st_status (ts u)"
proof -
  let ?ts' = "ts(t := (ts t)\<lparr>st_status := STATUS_WAITING\<rparr>)"
  have h: "wl_head w = Some t" "wait_seg ts (wait_next (ts t)) q" "distinct q" "t \<notin> set q"
      "wl_tail w = Some (last (t # q))"
    using assms by (auto simp: queue_is_def)
  have seg: "wait_seg ?ts' (wait_next (ts t)) q"
    using h(2) by (rule wait_seg_cong) simp
  show ?thesis
  proof (cases "q = []")
    case True
    then show ?thesis
      using h that [of "w\<lparr>wl_head := nullptr, wl_tail := nullptr\<rparr>" ?ts']
      by (simp add: Waitlist_dequeue_def queue_is_def)
  next
    case False
    then have "last q \<noteq> t"
      using h(4) last_in_set [of q] by auto
    then show ?thesis
      using False h seg that [of "w\<lparr>wl_head := wait_next (ts t)\<rparr>" ?ts']
      by (simp add: Waitlist_dequeue_def queue_is_def)
  qed
qed

lemma queue_is_cong:
  "queue_is w ts q \<Longrightarrow> (\<And>t. wait_next (ts' t) = wait_next (ts t)) \<Longrightarrow> queue_is w ts' q"
  unfolding queue_is_def using wait_seg_cong [of ts "wl_head w" q ts'] by blast

section \<open>The contract of a lock that is handed over\<close>

text \<open>
  What the two sections under the spin lock promise: \<open>held mx\<close> is the flag of the mutex and
  \<open>waiters mx ts q\<close> says that the blocked tasks wait in the order \<open>q\<close>.
\<close>

locale hand_off_lock =
  fixes lock :: "ptr \<Rightarrow> 'm \<Rightarrow> task_store \<Rightarrow> (bool \<times> 'm \<times> task_store) option"
    and unlock :: "'m \<Rightarrow> task_store \<Rightarrow> 'm \<times> task_store"
    and held :: "'m \<Rightarrow> bool"
    and waiters :: "'m \<Rightarrow> task_store \<Rightarrow> nat list \<Rightarrow> bool"
  assumes lock_free: "waiters mx ts q \<Longrightarrow> \<not> held mx \<Longrightarrow>
      \<exists>mx'. lock (Some t) mx ts = Some (True, mx', ts) \<and> held mx' \<and> waiters mx' ts q"
    and lock_held: "waiters mx ts q \<Longrightarrow> held mx \<Longrightarrow> t \<notin> set q \<Longrightarrow>
      \<exists>mx' ts'. lock (Some t) mx ts = Some (False, mx', ts') \<and> held mx' \<and> waiters mx' ts' (q @ [t]) \<and>
        st_status (ts' t) = STATUS_BLOCKED \<and> (\<forall>u. u \<noteq> t \<longrightarrow> st_status (ts' u) = st_status (ts u))"
    and unlock_last: "waiters mx ts [] \<Longrightarrow>
      \<exists>mx'. unlock mx ts = (mx', ts) \<and> \<not> held mx' \<and> waiters mx' ts []"
    and unlock_pass: "waiters mx ts (t # q) \<Longrightarrow> held mx \<Longrightarrow>
      \<exists>mx' ts'. unlock mx ts = (mx', ts') \<and> held mx' \<and> waiters mx' ts' q \<and>
        st_status (ts' t) = STATUS_WAITING \<and> (\<forall>u. u \<noteq> t \<longrightarrow> st_status (ts' u) = st_status (ts u))"
    and waiters_distinct: "waiters mx ts q \<Longrightarrow> distinct q"
    and waiters_cong: "waiters mx ts q \<Longrightarrow> (\<And>t. wait_next (ts' t) = wait_next (ts t)) \<Longrightarrow> waiters mx ts' q"
begin

definition spinning :: "lock_pc \<Rightarrow> bool" where
  "spinning c \<longleftrightarrow> c \<in> {LockBody, LockTaken, LockQueued, UnlockBody, UnlockDone}"

definition owner :: "'m lock_world \<Rightarrow> nat \<Rightarrow> bool" where
  "owner w t \<longleftrightarrow> lw_pc w t \<in> {LockTaken, Critical, UnlockSpin, UnlockBody} \<or>
     lw_pc w t = Sleeping \<and> st_status (lw_tasks w t) \<noteq> STATUS_BLOCKED"

definition spin_inv :: "'m lock_world \<Rightarrow> bool" where
  "spin_inv w \<longleftrightarrow> (\<forall>t u. spinning (lw_pc w t) \<longrightarrow> spinning (lw_pc w u) \<longrightarrow> t = u) \<and>
     (lw_locker w = 0 \<longrightarrow> (\<forall>t. \<not> spinning (lw_pc w t)))"

definition queue_inv :: "'m lock_world \<Rightarrow> nat list \<Rightarrow> bool" where
  "queue_inv w q \<longleftrightarrow> waiters (lw_mutex w) (lw_tasks w) q \<and>
     (\<forall>t. t \<in> set q \<longleftrightarrow> st_status (lw_tasks w t) = STATUS_BLOCKED) \<and>
     (\<forall>t. t \<in> set q \<longrightarrow> lw_pc w t \<in> {LockQueued, Sleeping}) \<and>
     (\<forall>t. lw_pc w t = LockQueued \<longrightarrow> t \<in> set q)"

definition owner_inv :: "'m lock_world \<Rightarrow> nat list \<Rightarrow> bool" where
  "owner_inv w q \<longleftrightarrow> (\<forall>t u. owner w t \<longrightarrow> owner w u \<longrightarrow> t = u) \<and>
     (held (lw_mutex w) \<longleftrightarrow> (\<exists>t. owner w t)) \<and> (\<not> held (lw_mutex w) \<longrightarrow> q = [])"

definition lock_inv :: "'m lock_world \<Rightarrow> nat list \<Rightarrow> bool" where
  "lock_inv w q \<longleftrightarrow> spin_inv w \<and> queue_inv w q \<and> owner_inv w q"

lemma lock_inv_start:
  "waiters mx ts [] \<Longrightarrow> \<not> held mx \<Longrightarrow> (\<And>t. st_status (ts t) \<noteq> STATUS_BLOCKED) \<Longrightarrow>
   lock_inv (lock_start mx ts) []"
  by (simp add: lock_inv_def spin_inv_def queue_inv_def owner_inv_def owner_def spinning_def lock_start_def)

text \<open>Steps that move one task and leave mutex, tasks and owner alone.\<close>

lemma lock_inv_goto:
  assumes "lock_inv w q" "lw_mutex w' = lw_mutex w" "lw_tasks w' = lw_tasks w" "lw_pc w' = (lw_pc w)(t := c)"
    "c \<noteq> LockQueued" "t \<in> set q \<longrightarrow> c = Sleeping" "owner w' t = owner w t" "spin_inv w'"
  shows "lock_inv w' q"
proof -
  have "owner w' u = owner w u" for u
    using assms(3,4,7) by (cases "u = t") (auto simp: owner_def)
  then show ?thesis
    using assms by (auto simp: lock_inv_def queue_inv_def owner_inv_def)
qed

lemma spin_inv_enter:
  assumes "spin_inv w" "lw_locker w = 0" "lw_pc w' = (lw_pc w)(t := c)" "lw_locker w' = 1"
  shows "spin_inv w'"
  using assms by (auto simp: spin_inv_def)

lemma spin_inv_leave:
  assumes "spin_inv w" "spinning (lw_pc w t)" "lw_pc w' = (lw_pc w)(t := c)" "\<not> spinning c"
  shows "spin_inv w'"
  using assms unfolding spin_inv_def by (metis fun_upd_apply)

lemma spin_inv_stay:
  assumes "spin_inv w" "spinning (lw_pc w t) = spinning c" "lw_pc w' = (lw_pc w)(t := c)"
    "lw_locker w' = lw_locker w"
  shows "spin_inv w'"
  using assms unfolding spin_inv_def by (metis fun_upd_apply)

lemma lock_inv_lock_body:
  assumes inv: "lock_inv w q" and pc: "lw_pc w t = LockBody"
    and res: "lock (Some t) (lw_mutex w) (lw_tasks w) = Some (b, mx, ts)"
  shows "\<exists>q'. lock_inv (goto t (if b then LockTaken else LockQueued) (w\<lparr>lw_mutex := mx, lw_tasks := ts\<rparr>)) q'"
proof -
  have parts: "spin_inv w" "queue_inv w q" "owner_inv w q"
    using inv by (simp_all add: lock_inv_def)
  have wt: "waiters (lw_mutex w) (lw_tasks w) q" and tq: "t \<notin> set q"
    using parts(2) pc by (auto simp: queue_inv_def)
  show ?thesis
  proof (cases "held (lw_mutex w)")
    case False
    then have r: "b" "ts = lw_tasks w" "held mx" "waiters mx ts q" "q = []" "\<And>u. \<not> owner w u"
      using lock_free [OF wt False, of t] res parts(3) by (auto simp: owner_inv_def)
    let ?w = "goto t LockTaken (w\<lparr>lw_mutex := mx, lw_tasks := ts\<rparr>)"
    have "spin_inv ?w"
      using pc by (intro spin_inv_stay [OF parts(1), of t LockTaken]) (simp_all add: spinning_def goto_def)
    moreover have "owner ?w u \<longleftrightarrow> u = t" for u
      using r(2) r(6) [of u] by (auto simp: owner_def goto_def)
    then have "owner_inv ?w []"
      using r(3) by (auto simp: owner_inv_def goto_def)
    moreover have "queue_inv ?w []"
      using parts(2) r pc by (auto simp: queue_inv_def goto_def)
    ultimately show ?thesis
      using r(1) by (auto simp: lock_inv_def)
  next
    case True
    then have r: "\<not> b" "held mx" "waiters mx ts (q @ [t])" "st_status (ts t) = STATUS_BLOCKED"
        "\<And>u. u \<noteq> t \<Longrightarrow> st_status (ts u) = st_status (lw_tasks w u)"
      using lock_held [OF wt True tq] res by auto
    let ?w = "goto t LockQueued (w\<lparr>lw_mutex := mx, lw_tasks := ts\<rparr>)"
    have "spin_inv ?w"
      using pc by (intro spin_inv_stay [OF parts(1), of t LockQueued]) (simp_all add: spinning_def goto_def)
    moreover have "owner ?w u = owner w u" for u
      using r(5) [of u] pc by (cases "u = t") (auto simp: owner_def goto_def)
    then have "owner_inv ?w (q @ [t])"
      using r(2) True parts(3) by (simp add: owner_inv_def) (simp add: goto_def)
    moreover have "queue_inv ?w (q @ [t])"
      unfolding queue_inv_def
    proof (intro conjI allI)
      fix u
      show "u \<in> set (q @ [t]) \<longleftrightarrow> st_status (lw_tasks ?w u) = STATUS_BLOCKED"
        using parts(2) r(4) r(5) [of u] by (cases "u = t") (auto simp: queue_inv_def goto_def)
      show "u \<in> set (q @ [t]) \<longrightarrow> lw_pc ?w u \<in> {LockQueued, Sleeping}"
          "lw_pc ?w u = LockQueued \<longrightarrow> u \<in> set (q @ [t])"
        using parts(2) by (auto simp: queue_inv_def goto_def)
    qed (use r(3) in \<open>simp add: goto_def\<close>)
    ultimately show ?thesis
      using r(1) by (auto simp: lock_inv_def)
  qed
qed

lemma unlock_body_result:
  assumes inv: "lock_inv w q" and pc: "lw_pc w t = UnlockBody"
    and res: "unlock (lw_mutex w) (lw_tasks w) = (mx, ts)"
  shows "lock_inv (goto t UnlockDone (w\<lparr>lw_mutex := mx, lw_tasks := ts\<rparr>)) (tl q) \<and>
    (\<forall>u. owner (goto t UnlockDone (w\<lparr>lw_mutex := mx, lw_tasks := ts\<rparr>)) u \<longleftrightarrow> q \<noteq> [] \<and> u = hd q)"
proof -
  let ?w = "goto t UnlockDone (w\<lparr>lw_mutex := mx, lw_tasks := ts\<rparr>)"
  have parts: "spin_inv w" "queue_inv w q" "owner_inv w q"
    using inv by (simp_all add: lock_inv_def)
  have wt: "waiters (lw_mutex w) (lw_tasks w) q"
    using parts(2) by (auto simp: queue_inv_def)
  have "owner w t"
    using pc by (simp add: owner_def)
  then have held: "held (lw_mutex w)" and own: "\<And>u. owner w u \<longleftrightarrow> u = t"
    using parts(3) unfolding owner_inv_def by blast+
  have spin: "spin_inv ?w"
    using pc by (intro spin_inv_stay [OF parts(1), of t UnlockDone]) (simp_all add: spinning_def goto_def)
  show ?thesis
  proof (cases q)
    case Nil
    then have r: "ts = lw_tasks w" "\<not> held mx" "waiters mx ts []"
      using unlock_last [of "lw_mutex w" "lw_tasks w"] wt res by auto
    have own': "\<not> owner ?w u" for u
      using own [of u] r(1) by (cases "u = t") (auto simp: owner_def goto_def)
    moreover have "queue_inv ?w []"
      using parts(2) Nil r by (auto simp: queue_inv_def goto_def)
    moreover have "lw_mutex ?w = mx"
      by (simp add: goto_def)
    ultimately show ?thesis
      using Nil r(2) spin by (auto simp: lock_inv_def owner_inv_def)
  next
    case (Cons h q')
    then have r: "held mx" "waiters mx ts q'" "st_status (ts h) = STATUS_WAITING"
        "\<And>u. u \<noteq> h \<Longrightarrow> st_status (ts u) = st_status (lw_tasks w u)"
      using unlock_pass [of "lw_mutex w" "lw_tasks w" h q'] wt held res by auto
    have hd: "h \<notin> set q'"
      using waiters_distinct [OF wt] Cons by simp
    have "lw_pc w h \<in> {LockQueued, Sleeping}" "h \<noteq> t"
      using parts(2) Cons pc by (auto simp: queue_inv_def)
    moreover have "lw_pc w h \<noteq> LockQueued"
      using parts(1) pc \<open>h \<noteq> t\<close> unfolding spin_inv_def spinning_def by (metis insertCI)
    ultimately have h: "lw_pc w h = Sleeping" "h \<noteq> t"
      by auto
    have own': "owner ?w u \<longleftrightarrow> u = h" for u
      using own [of u] h r(3) r(4) [of u] by (cases "u = t"; cases "u = h") (auto simp: owner_def goto_def)
    moreover have "queue_inv ?w q'"
      unfolding queue_inv_def
    proof (intro conjI allI)
      fix u
      show "u \<in> set q' \<longleftrightarrow> st_status (lw_tasks ?w u) = STATUS_BLOCKED"
        using parts(2) Cons hd r(3) r(4) [of u] by (cases "u = h") (auto simp: queue_inv_def goto_def)
      show "u \<in> set q' \<longrightarrow> lw_pc ?w u \<in> {LockQueued, Sleeping}"
        using parts(2) Cons pc by (auto simp: queue_inv_def goto_def)
      show "lw_pc ?w u = LockQueued \<longrightarrow> u \<in> set q'"
        using parts(2) Cons h by (auto simp: queue_inv_def goto_def)
    qed (use r(2) in \<open>simp add: goto_def\<close>)
    moreover have "lw_mutex ?w = mx"
      by (simp add: goto_def)
    ultimately show ?thesis
      using Cons r(1) spin by (auto simp: lock_inv_def owner_inv_def)
  qed
qed

lemma lock_inv_dispatch:
  assumes "lock_inv w q" "st_status (lw_tasks w t) \<noteq> STATUS_BLOCKED" "st \<noteq> STATUS_BLOCKED"
  shows "lock_inv (w\<lparr>lw_tasks := (lw_tasks w)(t := (lw_tasks w t)\<lparr>st_status := st\<rparr>)\<rparr>) q"
proof -
  let ?w = "w\<lparr>lw_tasks := (lw_tasks w)(t := (lw_tasks w t)\<lparr>st_status := st\<rparr>)\<rparr>"
  have b: "st_status (lw_tasks ?w u) = STATUS_BLOCKED \<longleftrightarrow> st_status (lw_tasks w u) = STATUS_BLOCKED" for u
    using assms(2,3) by simp
  then have "owner ?w u = owner w u" for u
    using b [of u] by (auto simp: owner_def)
  moreover have "queue_inv ?w q"
    using assms(1) b waiters_cong [of "lw_mutex w" "lw_tasks w" q "lw_tasks ?w"]
    by (auto simp: lock_inv_def queue_inv_def)
  ultimately show ?thesis
    using assms(1) by (simp add: lock_inv_def owner_inv_def spin_inv_def)
qed

lemma lock_inv_step:
  assumes "sound_step lock unlock w w'" "lock_inv w q"
  shows "\<exists>q'. lock_inv w' q'"
proof -
  have spin: "spin_inv w" and nq: "\<And>t. t \<in> set q \<Longrightarrow> lw_pc w t \<in> {LockQueued, Sleeping}"
    using assms(2) by (auto simp: lock_inv_def queue_inv_def)
  have blocked: "st_status (lw_tasks w t) = STATUS_BLOCKED" if "lw_pc w t = LockQueued" for t
    using assms(2) that by (auto simp: lock_inv_def queue_inv_def)
  have step: "mutex_step lock unlock w w'"
    and awake: "\<And>t. lw_pc w t = Sleeping \<Longrightarrow> lw_pc w' t = Critical \<Longrightarrow> st_status (lw_tasks w t) \<noteq> STATUS_BLOCKED"
    using assms(1) by (auto simp: sound_step_def resumes_blocked_def)
  show ?thesis
    using step
  proof cases
    case (call_lock t)
    then have "lock_inv w' q"
      using nq [of t] by (intro lock_inv_goto [OF assms(2), of _ t LockSpin] spin_inv_stay [OF spin, of t LockSpin])
        (auto simp: goto_def owner_def spinning_def)
    then show ?thesis ..
  next
    case (spin_lock t l)
    then have "lw_locker w = 0" "l = 1"
      by (auto simp: Spinlock_trylock_def split: if_splits)
    then have "lock_inv w' q"
      using spin_lock nq [of t]
      by (intro lock_inv_goto [OF assms(2), of _ t LockBody] spin_inv_enter [OF spin, of _ t LockBody])
        (auto simp: goto_def owner_def)
    then show ?thesis ..
  next
    case (lock_body t b mx ts)
    then show ?thesis
      using lock_inv_lock_body [OF assms(2)] by metis
  next
    case (lock_taken t)
    then have "lock_inv w' q"
      using nq [of t] by (intro lock_inv_goto [OF assms(2), of _ t Critical] spin_inv_leave [OF spin, of t _ Critical])
        (auto simp: goto_def owner_def spinning_def)
    then show ?thesis ..
  next
    case (lock_queued t)
    then have "lock_inv w' q"
      using blocked [of t]
      by (intro lock_inv_goto [OF assms(2), of _ t Sleeping] spin_inv_leave [OF spin, of t _ Sleeping])
        (auto simp: goto_def owner_def spinning_def)
    then show ?thesis ..
  next
    case (wake t)
    then have "st_status (lw_tasks w t) \<noteq> STATUS_BLOCKED"
      using awake [of t] by (simp add: goto_def)
    moreover from this have "t \<notin> set q"
      using assms(2) by (auto simp: lock_inv_def queue_inv_def)
    ultimately have "lock_inv w' q"
      using wake by (intro lock_inv_goto [OF assms(2), of _ t Critical] spin_inv_stay [OF spin, of t Critical])
        (auto simp: goto_def owner_def spinning_def)
    then show ?thesis ..
  next
    case (call_unlock t)
    then have "lock_inv w' q"
      using nq [of t] by (intro lock_inv_goto [OF assms(2), of _ t UnlockSpin] spin_inv_stay [OF spin, of t UnlockSpin])
        (auto simp: goto_def owner_def spinning_def)
    then show ?thesis ..
  next
    case (spin_unlock t l)
    then have "lw_locker w = 0" "l = 1"
      by (auto simp: Spinlock_trylock_def split: if_splits)
    then have "lock_inv w' q"
      using spin_unlock nq [of t]
      by (intro lock_inv_goto [OF assms(2), of _ t UnlockBody] spin_inv_enter [OF spin, of _ t UnlockBody])
        (auto simp: goto_def owner_def)
    then show ?thesis ..
  next
    case (unlock_body t mx ts)
    then show ?thesis
      using unlock_body_result [OF assms(2)] by metis
  next
    case (unlock_done t)
    then have "lock_inv w' q"
      using nq [of t] by (intro lock_inv_goto [OF assms(2), of _ t Outside] spin_inv_leave [OF spin, of t _ Outside])
        (auto simp: goto_def owner_def spinning_def)
    then show ?thesis ..
  next
    case (dispatch t st)
    then show ?thesis
      using lock_inv_dispatch [OF assms(2)] by metis
  qed
qed

lemma lock_inv_reachable:
  assumes "(sound_step lock unlock)\<^sup>*\<^sup>* (lock_start mx ts) w" "waiters mx ts []" "\<not> held mx"
    "\<And>t. st_status (ts t) \<noteq> STATUS_BLOCKED"
  shows "\<exists>q. lock_inv w q"
  using assms(1)
proof (induction rule: rtranclp_induct)
  case base
  then show ?case
    using lock_inv_start [OF assms(2-4)] by blast
next
  case (step w w')
  then show ?case
    using lock_inv_step by blast
qed

lemma lock_inv_owned: "lock_inv w q \<Longrightarrow> blocked_wait_for_owner w"
  unfolding blocked_wait_for_owner_def
proof (intro allI impI)
  fix t
  assume inv: "lock_inv w q" and b: "st_status (lw_tasks w t) = STATUS_BLOCKED"
  have "t \<in> set q"
    using inv b by (auto simp: lock_inv_def queue_inv_def)
  then have "held (lw_mutex w)" "lw_pc w t \<in> {LockQueued, Sleeping}"
    using inv by (auto simp: lock_inv_def owner_inv_def queue_inv_def)
  then obtain u where "owner w u"
    using inv by (auto simp: lock_inv_def owner_inv_def)
  moreover from this have "u \<noteq> t"
    using b \<open>lw_pc w t \<in> _\<close> by (auto simp: owner_def)
  ultimately show "\<exists>u. u \<noteq> t \<and> (lw_pc w u \<in> {LockTaken, Critical, UnlockSpin, UnlockBody} \<or>
      lw_pc w u = Sleeping \<and> st_status (lw_tasks w u) \<noteq> STATUS_BLOCKED)"
    by (intro exI [of _ u]) (simp add: owner_def)
qed

lemma lock_inv_exclusive: "lock_inv w q \<Longrightarrow> mutex_exclusive w"
  by (auto simp: mutex_exclusive_def lock_inv_def owner_inv_def owner_def)

lemma sound_runs_exclusive:
  assumes "(sound_step lock unlock)\<^sup>*\<^sup>* (lock_start mx ts) w" "waiters mx ts []" "\<not> held mx"
    "\<And>t. st_status (ts t) \<noteq> STATUS_BLOCKED"
  shows "mutex_exclusive w \<and> blocked_wait_for_owner w"
  using lock_inv_reachable [OF assms] lock_inv_exclusive lock_inv_owned by blast

end

text \<open>A run either is sound or has a first step that resumes a blocked task.\<close>

lemma first_unsound_step:
  assumes "(mutex_step lock unlock)\<^sup>*\<^sup>* s w"
  shows "(sound_step lock unlock)\<^sup>*\<^sup>* s w \<or>
    (\<exists>v v'. (sound_step lock unlock)\<^sup>*\<^sup>* s v \<and> mutex_step lock unlock v v' \<and> resumes_blocked v v' \<and>
      (mutex_step lock unlock)\<^sup>*\<^sup>* v' w)"
  using assms
proof (induction rule: rtranclp_induct)
  case (step w w')
  then show ?case
    by (cases "resumes_blocked w w'") (blast intro: rtranclp.rtrancl_into_rtrancl sound_step_def [THEN iffD2])+
qed simp

lemma sound_step_goto:
  "mutex_step lock unlock w (goto t c w') \<Longrightarrow> lw_pc w' = lw_pc w \<Longrightarrow> lw_pc w t \<noteq> Sleeping \<Longrightarrow>
   sound_step lock unlock w (goto t c w')"
  by (auto simp: sound_step_def resumes_blocked_def goto_def split: if_splits)

lemma sound_lock_body:
  "lw_pc w t = LockBody \<Longrightarrow> lock (Some t) (lw_mutex w) (lw_tasks w) = Some (b, mx, ts) \<Longrightarrow>
   sound_step lock unlock w (goto t (if b then LockTaken else LockQueued) (w\<lparr>lw_mutex := mx, lw_tasks := ts\<rparr>))"
  by (rule sound_step_goto, erule (1) mutex_step.lock_body) simp_all

lemma sound_run: "(sound_step lock unlock)\<^sup>*\<^sup>* v w \<Longrightarrow> (mutex_step lock unlock)\<^sup>*\<^sup>* v w"
  by (erule rtranclp_mono [THEN predicate2D, rotated]) (auto simp: sound_step_def)

text \<open>Both mutex classes keep the contract.\<close>

definition guard_queue :: "guard_mutex \<Rightarrow> waitlist" where
  "guard_queue mx = bm_queue (gm_base mx)"

definition BaseMutex_waiters :: "base_mutex \<Rightarrow> task_store \<Rightarrow> nat list \<Rightarrow> bool" where
  "BaseMutex_waiters mx ts q \<longleftrightarrow> queue_is (bm_queue mx) ts q"

definition GuardMutex_held :: "guard_mutex \<Rightarrow> bool" where
  "GuardMutex_held mx \<longleftrightarrow> get_guard mx \<noteq> 0"

definition GuardMutex_waiters :: "guard_mutex \<Rightarrow> task_store \<Rightarrow> nat list \<Rightarrow> bool" where
  "GuardMutex_waiters mx ts q \<longleftrightarrow> queue_is (guard_queue mx) ts q"

lemma set_guard_simps [simp]:
  "get_guard (set_guard v mx) = v" "bm_queue (gm_base (set_guard v mx)) = bm_queue (gm_base mx)"
  "get_guard (mx\<lparr>gm_base := (gm_base mx)\<lparr>bm_queue := q\<rparr>\<rparr>) = get_guard mx"
  by (auto simp: get_guard_def set_guard_def)

lemmas mutex_defs = BaseMutex_isLocked_def BaseMutex_waiters_def GuardMutex_held_def
  GuardMutex_waiters_def guard_queue_def

interpretation bm: hand_off_lock BaseMutex_lock BaseMutex_unlock BaseMutex_isLocked BaseMutex_waiters
proof unfold_locales
  fix mx ts q t
  assume a: "BaseMutex_waiters mx ts q" "\<not> BaseMutex_isLocked mx"
  then show "\<exists>mx'. BaseMutex_lock (Some t) mx ts = Some (True, mx', ts) \<and> BaseMutex_isLocked mx' \<and> BaseMutex_waiters mx' ts q"
    by (simp add: BaseMutex_lock_def mutex_defs)
next
  fix mx ts q t
  assume a: "BaseMutex_waiters mx ts q" "BaseMutex_isLocked mx" "t \<notin> set q"
  obtain w' ts' where "Waitlist_enqueue (Some t) (bm_queue mx) ts = Some (w', ts')" "queue_is w' ts' (q @ [t])"
      "st_status (ts' t) = STATUS_BLOCKED" "\<And>u. u \<noteq> t \<Longrightarrow> st_status (ts' u) = st_status (ts u)"
    using enqueue_ok [of "bm_queue mx" ts q t] a by (auto simp: mutex_defs)
  then show "\<exists>mx' ts'. BaseMutex_lock (Some t) mx ts = Some (False, mx', ts') \<and> BaseMutex_isLocked mx' \<and> BaseMutex_waiters mx' ts' (q @ [t]) \<and>
      st_status (ts' t) = STATUS_BLOCKED \<and> (\<forall>u. u \<noteq> t \<longrightarrow> st_status (ts' u) = st_status (ts u))"
    using a by (simp add: BaseMutex_lock_def mutex_defs)
next
  fix mx ts
  assume "BaseMutex_waiters mx ts []"
  then show "\<exists>mx'. BaseMutex_unlock mx ts = (mx', ts) \<and> \<not> BaseMutex_isLocked mx' \<and> BaseMutex_waiters mx' ts []"
    using queue_is_empty by (auto simp: BaseMutex_unlock_def mutex_defs)
next
  fix mx ts t q
  assume a: "BaseMutex_waiters mx ts (t # q)" "BaseMutex_isLocked mx"
  obtain w' ts' where "Waitlist_dequeue (bm_queue mx) ts = (w', ts')" "queue_is w' ts' q"
      "st_status (ts' t) = STATUS_WAITING" "\<And>u. u \<noteq> t \<Longrightarrow> st_status (ts' u) = st_status (ts u)"
    using dequeue_ok [of "bm_queue mx" ts t q] a by (auto simp: mutex_defs)
  then show "\<exists>mx' ts'. BaseMutex_unlock mx ts = (mx', ts') \<and> BaseMutex_isLocked mx' \<and> BaseMutex_waiters mx' ts' q \<and>
      st_status (ts' t) = STATUS_WAITING \<and> (\<forall>u. u \<noteq> t \<longrightarrow> st_status (ts' u) = st_status (ts u))"
    using a queue_is_empty [of "bm_queue mx" ts "t # q"] by (simp add: BaseMutex_unlock_def mutex_defs)
next
  fix mx ts q
  assume "BaseMutex_waiters mx ts q"
  then show "distinct q"
    by (simp add: mutex_defs queue_is_def)
next
  fix mx ts q and ts' :: task_store
  assume "BaseMutex_waiters mx ts q" "\<And>t. wait_next (ts' t) = wait_next (ts t)"
  then show "BaseMutex_waiters mx ts' q"
    by (auto simp: mutex_defs intro: queue_is_cong)
qed

interpretation gm: hand_off_lock GuardMutex_lock GuardMutex_unlock GuardMutex_held GuardMutex_waiters
proof unfold_locales
  fix mx ts q t
  assume a: "GuardMutex_waiters mx ts q" "\<not> GuardMutex_held mx"
  then show "\<exists>mx'. GuardMutex_lock (Some t) mx ts = Some (True, mx', ts) \<and> GuardMutex_held mx' \<and> GuardMutex_waiters mx' ts q"
    by (simp add: GuardMutex_lock_def mutex_defs)
next
  fix mx ts q t
  assume a: "GuardMutex_waiters mx ts q" "GuardMutex_held mx" "t \<notin> set q"
  obtain w' ts' where "Waitlist_enqueue (Some t) (guard_queue mx) ts = Some (w', ts')" "queue_is w' ts' (q @ [t])"
      "st_status (ts' t) = STATUS_BLOCKED" "\<And>u. u \<noteq> t \<Longrightarrow> st_status (ts' u) = st_status (ts u)"
    using enqueue_ok [of "guard_queue mx" ts q t] a by (auto simp: mutex_defs)
  then show "\<exists>mx' ts'. GuardMutex_lock (Some t) mx ts = Some (False, mx', ts') \<and> GuardMutex_held mx' \<and> GuardMutex_waiters mx' ts' (q @ [t]) \<and>
      st_status (ts' t) = STATUS_BLOCKED \<and> (\<forall>u. u \<noteq> t \<longrightarrow> st_status (ts' u) = st_status (ts u))"
    using a by (simp add: GuardMutex_lock_def mutex_defs)
next
  fix mx ts
  assume "GuardMutex_waiters mx ts []"
  then show "\<exists>mx'. GuardMutex_unlock mx ts = (mx', ts) \<and> \<not> GuardMutex_held mx' \<and> GuardMutex_waiters mx' ts []"
    using queue_is_empty by (auto simp: GuardMutex_unlock_def mutex_defs)
next
  fix mx ts t q
  assume a: "GuardMutex_waiters mx ts (t # q)" "GuardMutex_held mx"
  obtain w' ts' where "Waitlist_dequeue (guard_queue mx) ts = (w', ts')" "queue_is w' ts' q"
      "st_status (ts' t) = STATUS_WAITING" "\<And>u. u \<noteq> t \<Longrightarrow> st_status (ts' u) = st_status (ts u)"
    using dequeue_ok [of "guard_queue mx" ts t q] a by (auto simp: mutex_defs)
  then show "\<exists>mx' ts'. GuardMutex_unlock mx ts = (mx', ts') \<and> GuardMutex_held mx' \<and> GuardMutex_waiters mx' ts' q \<and>
      st_status (ts' t) = STATUS_WAITING \<and> (\<forall>u. u \<noteq> t \<longrightarrow> st_status (ts' u) = st_status (ts u))"
    using a queue_is_empty [of "guard_queue mx" ts "t # q"] by (simp add: GuardMutex_unlock_def mutex_defs)
next
  fix mx ts q
  assume "GuardMutex_waiters mx ts q"
  then show "distinct q"
    by (simp add: mutex_defs queue_is_def)
next
  fix mx ts q and ts' :: task_store
  assume "GuardMutex_waiters mx ts q" "\<And>t. wait_next (ts' t) = wait_next (ts t)"
  then show "GuardMutex_waiters mx ts' q"
    by (auto simp: mutex_defs intro: queue_is_cong)
qed

section \<open>Properties\<close>

text \<open>
  C9: the wait list is a first-in first-out queue.  Enqueueing a task that is not waiting puts it
  at the end and blocks it; dequeueing removes the task that has waited longest and makes it
  runnable; no other task changes its status, and \<^verbatim>\<open>empty\<close> tells whether anyone waits.  Without a
  current task, enqueueing has no defined result.
\<close>

theorem Waitlist_is_fifo:
  assumes "queue_is w ts q" "t \<notin> set q"
  shows "(\<exists>w' ts'. Waitlist_enqueue (Some t) w ts = Some (w', ts') \<and> queue_is w' ts' (q @ [t]) \<and>
      st_status (ts' t) = STATUS_BLOCKED \<and> (\<forall>u. u \<noteq> t \<longrightarrow> st_status (ts' u) = st_status (ts u))) \<and>
    (q \<noteq> [] \<longrightarrow> (\<exists>w' ts'. Waitlist_dequeue w ts = (w', ts') \<and> queue_is w' ts' (tl q) \<and>
      st_status (ts' (hd q)) = STATUS_WAITING \<and> (\<forall>u. u \<noteq> hd q \<longrightarrow> st_status (ts' u) = st_status (ts u)))) \<and>
    (Waitlist_empty w \<longleftrightarrow> q = []) \<and> Waitlist_enqueue nullptr w ts = None"
proof -
  have "\<exists>w' ts'. Waitlist_enqueue (Some t) w ts = Some (w', ts') \<and> queue_is w' ts' (q @ [t]) \<and>
      st_status (ts' t) = STATUS_BLOCKED \<and> (\<forall>u. u \<noteq> t \<longrightarrow> st_status (ts' u) = st_status (ts u))"
    using enqueue_ok [OF assms] by metis
  moreover have "\<exists>w' ts'. Waitlist_dequeue w ts = (w', ts') \<and> queue_is w' ts' (tl q) \<and>
      st_status (ts' (hd q)) = STATUS_WAITING \<and> (\<forall>u. u \<noteq> hd q \<longrightarrow> st_status (ts' u) = st_status (ts u))"
    if "q \<noteq> []"
    using dequeue_ok [of w ts "hd q" "tl q"] assms(1) that by (metis list.collapse)
  moreover have "Waitlist_enqueue nullptr w ts = None"
    by (simp add: Waitlist_enqueue_def)
  ultimately show ?thesis
    using queue_is_empty [OF assms(1)] by blast
qed

definition idle_tasks :: task_store where
  "idle_tasks = (\<lambda>_. \<lparr>wait_next = nullptr, st_status = STATUS_WAITING\<rparr>)"

theorem Waitlist_is_fifo_witness:
  "\<exists>w' ts'. Waitlist_enqueue (Some 4) Waitlist_new idle_tasks = Some (w', ts') \<and> queue_is w' ts' [4]"
  using Waitlist_is_fifo [OF queue_is_new [of idle_tasks], of 4] by auto

text \<open>
  C10: mutual exclusion and no lost wake-up, as far as the scheduler lets the mutex.  Tasks use a \<^verbatim>\<open>BaseMutex\<close> in any
  interleaving, from a fresh mutex and tasks that are not blocked.  As long as \<^verbatim>\<open>reschedule()\<close> has not returned to a blocked task,
  two tasks are never past \<^verbatim>\<open>lock()\<close> at the same time, and whenever a task is blocked some other task holds the mutex, is about to
  release it, or has been handed the mutex and is runnable.  Nothing else than such a return can break this: in every run in
  which it is broken there is one, before it the run was sound.  The same holds for a \<^verbatim>\<open>GuardMutex\<close>, with its own
  flag or with a guard word that is 0.
\<close>

theorem Mutex_mutual_exclusion:
  assumes "\<And>t. st_status (ts t) \<noteq> STATUS_BLOCKED"
  shows "((mutex_step BaseMutex_lock BaseMutex_unlock)\<^sup>*\<^sup>* (lock_start BaseMutex_new ts) w \<longrightarrow>
      mutex_exclusive w \<and> blocked_wait_for_owner w \<or>
      (\<exists>v v'. (sound_step BaseMutex_lock BaseMutex_unlock)\<^sup>*\<^sup>* (lock_start BaseMutex_new ts) v \<and>
        mutex_exclusive v \<and> blocked_wait_for_owner v \<and>
        mutex_step BaseMutex_lock BaseMutex_unlock v v' \<and> resumes_blocked v v' \<and>
        (mutex_step BaseMutex_lock BaseMutex_unlock)\<^sup>*\<^sup>* v' w)) \<and>
    ((sound_step BaseMutex_lock BaseMutex_unlock)\<^sup>*\<^sup>* (lock_start BaseMutex_new ts) w \<longrightarrow>
      mutex_exclusive w \<and> blocked_wait_for_owner w) \<and>
    ((mutex_step GuardMutex_lock GuardMutex_unlock)\<^sup>*\<^sup>* (lock_start (GuardMutex_new g) ts) x \<and> g \<in> {None, Some 0} \<longrightarrow>
      mutex_exclusive x \<and> blocked_wait_for_owner x \<or>
      (\<exists>v v'. (sound_step GuardMutex_lock GuardMutex_unlock)\<^sup>*\<^sup>* (lock_start (GuardMutex_new g) ts) v \<and>
        mutex_exclusive v \<and> blocked_wait_for_owner v \<and>
        mutex_step GuardMutex_lock GuardMutex_unlock v v' \<and> resumes_blocked v v' \<and>
        (mutex_step GuardMutex_lock GuardMutex_unlock)\<^sup>*\<^sup>* v' x)) \<and>
    ((sound_step GuardMutex_lock GuardMutex_unlock)\<^sup>*\<^sup>* (lock_start (GuardMutex_new g) ts) x \<and> g \<in> {None, Some 0} \<longrightarrow>
      mutex_exclusive x \<and> blocked_wait_for_owner x)"
proof -
  have b: "mutex_exclusive w \<and> blocked_wait_for_owner w"
    if "(sound_step BaseMutex_lock BaseMutex_unlock)\<^sup>*\<^sup>* (lock_start BaseMutex_new ts) w" for w
    using bm.sound_runs_exclusive [OF that] assms by (simp add: BaseMutex_new_def queue_is_new mutex_defs)
  have g: "mutex_exclusive x \<and> blocked_wait_for_owner x"
    if "(sound_step GuardMutex_lock GuardMutex_unlock)\<^sup>*\<^sup>* (lock_start (GuardMutex_new g) ts) x" "g \<in> {None, Some 0}" for x
    using gm.sound_runs_exclusive [OF that(1)] that(2) assms
    by (auto simp: GuardMutex_new_def BaseMutex_new_def queue_is_new get_guard_def mutex_defs)
  show ?thesis
    using b g first_unsound_step [of BaseMutex_lock BaseMutex_unlock "lock_start BaseMutex_new ts" w]
      first_unsound_step [of GuardMutex_lock GuardMutex_unlock "lock_start (GuardMutex_new g) ts" x] by metis
qed

text \<open>A run of two tasks: task 0 takes the mutex, task 1 then has to wait for it.\<close>

lemma run_take:
  assumes "lw_pc w t = Outside" "lw_locker w = 0" "bm_value (lw_mutex w) = 0"
  shows "(sound_step BaseMutex_lock BaseMutex_unlock)\<^sup>*\<^sup>* w
    (goto t Critical (w\<lparr>lw_mutex := (lw_mutex w)\<lparr>bm_value := 1\<rparr>, lw_locker := 0\<rparr>))"
proof -
  let ?w1 = "goto t LockSpin w"
  let ?w2 = "goto t LockBody (?w1\<lparr>lw_locker := 1\<rparr>)"
  let ?w3 = "goto t LockTaken (?w2\<lparr>lw_mutex := (lw_mutex w)\<lparr>bm_value := 1\<rparr>, lw_tasks := lw_tasks w\<rparr>)"
  have s1: "sound_step BaseMutex_lock BaseMutex_unlock w ?w1"
    using assms(1) by (intro sound_step_goto mutex_step.call_lock) simp_all
  have s2: "sound_step BaseMutex_lock BaseMutex_unlock ?w1 ?w2"
    using assms by (intro sound_step_goto mutex_step.spin_lock) (simp_all add: goto_def Spinlock_trylock_def)
  have s3: "sound_step BaseMutex_lock BaseMutex_unlock ?w2 ?w3"
    using assms(3) sound_lock_body [of ?w2 t BaseMutex_lock True "(lw_mutex w)\<lparr>bm_value := 1\<rparr>" "lw_tasks w"]
    by (simp add: goto_def BaseMutex_lock_def)
  have s4: "sound_step BaseMutex_lock BaseMutex_unlock ?w3
      (goto t Critical (?w3\<lparr>lw_locker := Spinlock_unlock (lw_locker ?w3)\<rparr>))"
    by (rule sound_step_goto, rule mutex_step.lock_taken) (simp_all add: goto_def)
  have e: "goto t Critical (?w3\<lparr>lw_locker := Spinlock_unlock (lw_locker ?w3)\<rparr>) =
      goto t Critical (w\<lparr>lw_mutex := (lw_mutex w)\<lparr>bm_value := 1\<rparr>, lw_locker := 0\<rparr>)"
    by (simp add: goto_def Spinlock_unlock_def)
  show ?thesis
    unfolding e [symmetric] using s1 s2 s3 s4
    by (meson converse_rtranclp_into_rtranclp rtranclp.rtrancl_refl)
qed

lemma run_wait:
  assumes "lw_pc w t = Outside" "lw_locker w = 0" "bm_value (lw_mutex w) \<noteq> 0"
    "Waitlist_enqueue (Some t) (bm_queue (lw_mutex w)) (lw_tasks w) = Some (q, ts)"
  shows "(sound_step BaseMutex_lock BaseMutex_unlock)\<^sup>*\<^sup>* w
    (goto t Sleeping (w\<lparr>lw_mutex := (lw_mutex w)\<lparr>bm_queue := q\<rparr>, lw_tasks := ts, lw_locker := 0\<rparr>))"
proof -
  let ?w1 = "goto t LockSpin w"
  let ?w2 = "goto t LockBody (?w1\<lparr>lw_locker := 1\<rparr>)"
  let ?w3 = "goto t LockQueued (?w2\<lparr>lw_mutex := (lw_mutex w)\<lparr>bm_queue := q\<rparr>, lw_tasks := ts\<rparr>)"
  have s1: "sound_step BaseMutex_lock BaseMutex_unlock w ?w1"
    using assms(1) by (intro sound_step_goto mutex_step.call_lock) simp_all
  have s2: "sound_step BaseMutex_lock BaseMutex_unlock ?w1 ?w2"
    using assms by (intro sound_step_goto mutex_step.spin_lock) (simp_all add: goto_def Spinlock_trylock_def)
  have s3: "sound_step BaseMutex_lock BaseMutex_unlock ?w2 ?w3"
    using assms(3,4) sound_lock_body [of ?w2 t BaseMutex_lock False "(lw_mutex w)\<lparr>bm_queue := q\<rparr>" ts]
    by (simp add: goto_def BaseMutex_lock_def)
  have s4: "sound_step BaseMutex_lock BaseMutex_unlock ?w3
      (goto t Sleeping (?w3\<lparr>lw_locker := Spinlock_unlock (lw_locker ?w3)\<rparr>))"
    by (rule sound_step_goto, rule mutex_step.lock_queued) (simp_all add: goto_def)
  have e: "goto t Sleeping (?w3\<lparr>lw_locker := Spinlock_unlock (lw_locker ?w3)\<rparr>) =
      goto t Sleeping (w\<lparr>lw_mutex := (lw_mutex w)\<lparr>bm_queue := q\<rparr>, lw_tasks := ts, lw_locker := 0\<rparr>)"
    by (simp add: goto_def Spinlock_unlock_def)
  show ?thesis
    unfolding e [symmetric] using s1 s2 s3 s4
    by (meson converse_rtranclp_into_rtranclp rtranclp.rtrancl_refl)
qed

lemma run_contended:
  assumes "\<And>t. st_status (ts t) \<noteq> STATUS_BLOCKED" "t \<noteq> u"
  obtains w where "(sound_step BaseMutex_lock BaseMutex_unlock)\<^sup>*\<^sup>* (lock_start BaseMutex_new ts) w"
    "lw_pc w t = Critical" "lw_pc w u = Sleeping" "st_status (lw_tasks w u) = STATUS_BLOCKED"
    "lw_locker w = 0"
proof -
  let ?s = "lock_start BaseMutex_new ts"
  let ?w1 = "goto t Critical (?s\<lparr>lw_mutex := (lw_mutex ?s)\<lparr>bm_value := 1\<rparr>, lw_locker := 0\<rparr>)"
  have r1: "(sound_step BaseMutex_lock BaseMutex_unlock)\<^sup>*\<^sup>* ?s ?w1"
    by (rule run_take) (simp_all add: lock_start_def BaseMutex_new_def)
  obtain q ts' where q: "Waitlist_enqueue (Some u) Waitlist_new ts = Some (q, ts')" "queue_is q ts' [u]"
      "st_status (ts' u) = STATUS_BLOCKED"
    using enqueue_ok [OF queue_is_new [of ts], of u] by (metis append_Nil empty_iff list.set(1))
  let ?w2 = "goto u Sleeping (?w1\<lparr>lw_mutex := (lw_mutex ?w1)\<lparr>bm_queue := q\<rparr>, lw_tasks := ts', lw_locker := 0\<rparr>)"
  have "(sound_step BaseMutex_lock BaseMutex_unlock)\<^sup>*\<^sup>* ?w1 ?w2"
    using q(1) assms(2) by (intro run_wait) (simp_all add: lock_start_def BaseMutex_new_def goto_def)
  from that [OF rtranclp_trans [OF r1 this]] show ?thesis
    using q assms(2) by (simp add: goto_def)
qed

theorem Mutex_mutual_exclusion_witness:
  "\<exists>w. (mutex_step BaseMutex_lock BaseMutex_unlock)\<^sup>*\<^sup>* (lock_start BaseMutex_new idle_tasks) w \<and>
    lw_pc w 0 = Critical \<and> st_status (lw_tasks w 1) = STATUS_BLOCKED \<and> mutex_exclusive w \<and> blocked_wait_for_owner w"
proof -
  have idle: "st_status (idle_tasks t) \<noteq> STATUS_BLOCKED" for t
    by (simp add: idle_tasks_def)
  obtain w where w: "(sound_step BaseMutex_lock BaseMutex_unlock)\<^sup>*\<^sup>* (lock_start BaseMutex_new idle_tasks) w"
    "lw_pc w 0 = Critical" "st_status (lw_tasks w 1) = STATUS_BLOCKED"
    using run_contended [of idle_tasks 0 1] idle by auto
  then show ?thesis
    using Mutex_mutual_exclusion [of idle_tasks w None "lock_start (GuardMutex_new None) idle_tasks"] idle
      sound_run [OF w(1)] by blast
qed

text \<open>
  C11: the mutex is handed over in the order of arrival.  In a run in which \<^verbatim>\<open>reschedule()\<close> has not returned to a
  blocked task, when a task releases a \<^verbatim>\<open>BaseMutex\<close> for which the tasks \<open>q\<close> wait, the first of them is runnable afterwards and the rest keep waiting in
  order; the flag stays set, so no task that calls \<^verbatim>\<open>lock()\<close> in between can overtake it.  With
  nobody waiting, the mutex becomes free.
\<close>

theorem Mutex_hand_over:
  assumes "(sound_step BaseMutex_lock BaseMutex_unlock)\<^sup>*\<^sup>* (lock_start BaseMutex_new ts) w"
    "\<And>t. st_status (ts t) \<noteq> STATUS_BLOCKED" "lw_pc w t = UnlockBody"
    "BaseMutex_unlock (lw_mutex w) (lw_tasks w) = (mx, ts')"
  shows "\<exists>q. BaseMutex_waiters (lw_mutex w) (lw_tasks w) q \<and> BaseMutex_waiters mx ts' (tl q) \<and>
    (\<forall>u. u \<in> set q \<longleftrightarrow> st_status (lw_tasks w u) = STATUS_BLOCKED) \<and>
    (\<forall>u. u \<in> set (tl q) \<longleftrightarrow> st_status (ts' u) = STATUS_BLOCKED) \<and>
    (BaseMutex_isLocked mx \<longleftrightarrow> q \<noteq> [])"
proof -
  obtain q where inv: "bm.lock_inv w q"
    using bm.lock_inv_reachable [OF assms(1)] assms(2) by (auto simp: BaseMutex_new_def queue_is_new mutex_defs)
  let ?w = "goto t UnlockDone (w\<lparr>lw_mutex := mx, lw_tasks := ts'\<rparr>)"
  have "bm.lock_inv ?w (tl q)" and own: "\<And>u. bm.owner ?w u \<longleftrightarrow> q \<noteq> [] \<and> u = hd q"
    using bm.unlock_body_result [OF inv assms(3,4)] by blast+
  moreover have "lw_mutex ?w = mx" "lw_tasks ?w = ts'"
    by (simp_all add: goto_def)
  ultimately have "bm.queue_inv ?w (tl q)" "BaseMutex_isLocked mx \<longleftrightarrow> q \<noteq> []"
    by (auto simp: bm.lock_inv_def bm.owner_inv_def)
  moreover have "bm.queue_inv w q"
    using inv by (simp add: bm.lock_inv_def)
  ultimately show ?thesis
    by (intro exI [of _ q]) (simp add: bm.queue_inv_def goto_def)
qed

lemma run_release:
  assumes "lw_pc w t = Critical" "lw_locker w = 0"
  shows "(sound_step BaseMutex_lock BaseMutex_unlock)\<^sup>*\<^sup>* w (goto t UnlockBody (w\<lparr>lw_locker := 1\<rparr>))"
proof -
  let ?w1 = "goto t UnlockSpin w"
  have s1: "sound_step BaseMutex_lock BaseMutex_unlock w ?w1"
    using assms(1) by (intro sound_step_goto mutex_step.call_unlock) simp_all
  have s2: "sound_step BaseMutex_lock BaseMutex_unlock ?w1 (goto t UnlockBody (?w1\<lparr>lw_locker := 1\<rparr>))"
    using assms by (intro sound_step_goto mutex_step.spin_unlock) (simp_all add: goto_def Spinlock_trylock_def)
  have e: "goto t UnlockBody (?w1\<lparr>lw_locker := 1\<rparr>) = goto t UnlockBody (w\<lparr>lw_locker := 1\<rparr>)"
    by (simp add: goto_def)
  show ?thesis
    unfolding e [symmetric] using s1 s2 by (meson converse_rtranclp_into_rtranclp rtranclp.rtrancl_refl)
qed

theorem Mutex_hand_over_witness:
  "\<exists>(w :: base_mutex lock_world) mx ts' q. BaseMutex_unlock (lw_mutex w) (lw_tasks w) = (mx, ts') \<and>
    lw_pc w 0 = UnlockBody \<and>
    BaseMutex_waiters (lw_mutex w) (lw_tasks w) q \<and> 1 \<in> set q \<and> BaseMutex_isLocked mx"
proof -
  have idle: "st_status (idle_tasks t) \<noteq> STATUS_BLOCKED" for t
    by (simp add: idle_tasks_def)
  obtain w where w: "(sound_step BaseMutex_lock BaseMutex_unlock)\<^sup>*\<^sup>* (lock_start BaseMutex_new idle_tasks) w"
    "lw_pc w 0 = Critical" "st_status (lw_tasks w 1) = STATUS_BLOCKED" "lw_locker w = 0"
    by (rule run_contended [of idle_tasks 0 1]) (use idle in auto)
  let ?w = "goto 0 UnlockBody (w\<lparr>lw_locker := 1\<rparr>)"
  obtain mx ts' where u: "BaseMutex_unlock (lw_mutex ?w) (lw_tasks ?w) = (mx, ts')"
    by fastforce
  have r: "(sound_step BaseMutex_lock BaseMutex_unlock)\<^sup>*\<^sup>* (lock_start BaseMutex_new idle_tasks) ?w"
    using rtranclp_trans [OF w(1) run_release [OF w(2,4)]] .
  have pc: "lw_pc ?w 0 = UnlockBody" "st_status (lw_tasks ?w 1) = STATUS_BLOCKED"
    using w(3) by (simp_all add: goto_def)
  obtain q where "BaseMutex_waiters (lw_mutex ?w) (lw_tasks ?w) q"
      "\<forall>t. t \<in> set q \<longleftrightarrow> st_status (lw_tasks ?w t) = STATUS_BLOCKED" "BaseMutex_isLocked mx \<longleftrightarrow> q \<noteq> []"
    using Mutex_hand_over [OF r idle pc(1) u] by blast
  moreover from this(2) have "1 \<in> set q"
    using pc(2) by blast
  moreover from this have "q \<noteq> []"
    by auto
  ultimately show ?thesis
    using u pc(1) by blast
qed

end
