(* ===== verification/Scheduler.thy ===== *)
theory Scheduler
  imports Linked_List Task_Sync
begin

text \<open>
  Tasks and the scheduler: the attributes of class \<^verbatim>\<open>Task\<close> (\<^verbatim>\<open>inc/task.h\<close>, \<^verbatim>\<open>src/task.cpp\<close>), class
  \<^verbatim>\<open>ProcessManager\<close> (\<^verbatim>\<open>src/processmanager.cpp\<close>, \<^verbatim>\<open>inc/processmanager.h\<close>) over the task list of theory
  \<open>Linked_List\<close>, and class \<^verbatim>\<open>Timer\<close> (\<^verbatim>\<open>src/timer.cpp\<close>).

  Tasks live in a store by address.  \<^verbatim>\<open>Task::save()\<close> returns twice, first 0 when the state has been
  saved and later non-zero when the task is resumed, in whatever state the kernel is then.  So
  \<^verbatim>\<open>addTask\<close> and \<^verbatim>\<open>schedule\<close> are two functions each: the code up to the switch, with outcome
  \<open>Switched\<close> to the task that runs next, and the continuation after the second return (suffix
  \<open>_resumed\<close>).  \<^verbatim>\<open>restore\<close> and \<^verbatim>\<open>switchTo\<close> store 0 through the lock pointer they are given
  (\<^verbatim>\<open>restoreProcess\<close>, \<^verbatim>\<open>changeProcess\<close> in \<^verbatim>\<open>arch/x86/process.asm\<close>).  The interrupt flag and the saved
  registers are not modelled.  The queue of waiters of a task's own lock is empty, since only the
  scheduler takes these locks.  \<^term>\<open>None\<close> stands for a null pointer dereference, for a spin that
  cannot end, and for a lock that is already taken when the scheduler wants it: \<^verbatim>\<open>Spinlock::lock\<close>
  then calls \<^verbatim>\<open>yield\<close>, which takes the same lock again.
\<close>

section \<open>Tasks\<close>

definition MAX_PRIORITY :: u32 where "MAX_PRIORITY = 20"
definition MAX_NICE :: u32 where "MAX_NICE = 20"
definition TASK_POOLS :: u32 where "TASK_POOLS = 4"
definition KERNEL_FREQUENCY :: u32 where "KERNEL_FREQUENCY = 1000"

record task =
  tk_priority :: u32
  tk_nice :: u32
  tk_size :: u32
  tk_slice :: u32
  tk_pid :: u32
  tk_lock :: u32
  tk_status :: task_status

definition Task_new :: task where
  "Task_new = \<lparr>tk_priority = 1, tk_nice = 1, tk_size = 0, tk_slice = 0, tk_pid = 0, tk_lock = 0,
     tk_status = STATUS_WAITING\<rparr>"

definition Task_setSlice :: "u32 \<Rightarrow> task \<Rightarrow> task" where
  "Task_setSlice s t = (if tk_size t \<noteq> 0 \<and> s > tk_size t then t\<lparr>tk_slice := tk_size t\<rparr>
     else t\<lparr>tk_slice := s\<rparr>)"



definition Task_setPriority :: "u32 \<Rightarrow> task \<Rightarrow> task" where
  "Task_setPriority p t = t\<lparr>tk_priority := (if p > MAX_PRIORITY then MAX_PRIORITY else p)\<rparr>"

definition Task_setNice :: "u32 \<Rightarrow> task \<Rightarrow> task" where
  "Task_setNice p t = t\<lparr>tk_nice := (if p > MAX_NICE then MAX_NICE else p)\<rparr>"

definition Task_setStatus :: "task_status \<Rightarrow> task \<Rightarrow> task" where
  "Task_setStatus s t = t\<lparr>tk_status := s\<rparr>"

definition Task_lock :: "task \<Rightarrow> task option" where
  "Task_lock t = (if tk_lock t = 0 then Some (t\<lparr>tk_lock := 1\<rparr>) else None)"

definition Task_unlock :: "task \<Rightarrow> task" where
  "Task_unlock t = t\<lparr>tk_lock := 0\<rparr>"

section \<open>The process manager\<close>

definition SCHEDULING_GRANULARITY :: u32 where
  "SCHEDULING_GRANULARITY = drop_bit 1 KERNEL_FREQUENCY"

definition SCHEDULING_GRANULARITY_MIN :: u32 where
  "SCHEDULING_GRANULARITY_MIN = KERNEL_FREQUENCY div 50"

record process_manager =
  pm_tasks :: klist
  pm_current :: ptr
  pm_running :: bool
  pm_pid :: u32
  pm_pool_index :: u32
  pm_pool_target :: u32
  pm_pool_slice :: u32
  pm_store :: "nat \<rightharpoonup> task"
  pm_sched_lock :: u32

datatype outcome = Returned ptr | Switched nat

definition ProcessManager_new :: "u32 \<Rightarrow> (nat \<rightharpoonup> task) \<Rightarrow> process_manager" where
  "ProcessManager_new junk st = \<lparr>pm_tasks = List_new, pm_current = nullptr, pm_running = False, pm_pid = 1,
     pm_pool_index = 0, pm_pool_target = 0, pm_pool_slice = junk, pm_store = st, pm_sched_lock = 0\<rparr>"

definition pm_task :: "process_manager \<Rightarrow> ptr \<Rightarrow> task option" where
  "pm_task pm p = do { a \<leftarrow> p; pm_store pm a }"

definition pm_upd :: "ptr \<Rightarrow> (task \<Rightarrow> task) \<Rightarrow> process_manager \<Rightarrow> process_manager option" where
  "pm_upd p f pm = do { a \<leftarrow> p; t \<leftarrow> pm_store pm a; Some (pm\<lparr>pm_store := (pm_store pm)(a \<mapsto> f t)\<rparr>) }"

definition sched_lock :: "process_manager \<Rightarrow> process_manager option" where
  "sched_lock pm = (if pm_sched_lock pm = 0 then Some (pm\<lparr>pm_sched_lock := 1\<rparr>) else None)"

definition sched_unlock :: "process_manager \<Rightarrow> process_manager" where
  "sched_unlock pm = pm\<lparr>pm_sched_lock := 0\<rparr>"

definition pm_lock_task :: "ptr \<Rightarrow> process_manager \<Rightarrow> process_manager option" where
  "pm_lock_task p pm = do {
     a \<leftarrow> p;
     t \<leftarrow> pm_store pm a;
     t \<leftarrow> Task_lock t;
     Some (pm\<lparr>pm_store := (pm_store pm)(a \<mapsto> t)\<rparr>) }"

definition ProcessManager_approxPool :: "ptr \<Rightarrow> u32 \<Rightarrow> process_manager \<Rightarrow> u32 option" where
  "ProcessManager_approxPool p base pm =
     (if p = nullptr then Some (TASK_POOLS - 1)
      else do {
        t \<leftarrow> pm_task pm p;
        let approx = (MAX_PRIORITY - tk_priority t) + tk_nice t;
        let approx = approx * TASK_POOLS div (MAX_PRIORITY + MAX_NICE + 1);
        Some ((pm_pool_index pm + approx + base) mod TASK_POOLS) })"

definition release_lock :: "ptr \<Rightarrow> process_manager \<Rightarrow> process_manager option" where
  "release_lock p pm = (if p = nullptr then Some pm else pm_upd p Task_unlock pm)"

definition ProcessManager_addTask :: "ptr \<Rightarrow> process_manager \<Rightarrow> (outcome \<times> process_manager) option" where
  "ProcessManager_addTask p pm =
     (case p of None \<Rightarrow> Some (Returned nullptr, pm)
      | Some a \<Rightarrow> do {
          pm \<leftarrow> sched_lock pm;
          let current = pm_current pm;
          pm \<leftarrow> (if current \<noteq> nullptr then pm_lock_task current pm else Some pm);
          t \<leftarrow> pm_store pm a;
          let pm = (if tk_pid t = 0
                    then pm\<lparr>pm_pid := pm_pid pm + 1,
                            pm_store := (pm_store pm)(a \<mapsto> t\<lparr>tk_pid := pm_pid pm + 1\<rparr>)\<rparr>
                    else pm);
          l \<leftarrow> List_append p (pm_tasks pm);
          let pm = sched_unlock (pm\<lparr>pm_tasks := l, pm_current := p\<rparr>);
          pm \<leftarrow> release_lock current pm;
          Some (Switched a, pm) })"

definition ProcessManager_addTask_resumed :: "process_manager \<Rightarrow> process_manager" where
  "ProcessManager_addTask_resumed pm = sched_unlock pm"

definition ProcessManager_doKill :: "process_manager \<Rightarrow> process_manager option" where
  "ProcessManager_doKill pm =
     (if pm_current pm = nullptr then Some pm
      else do {
        pm \<leftarrow> sched_lock pm;
        l \<leftarrow> List_deleteAll (pm_current pm) (pm_tasks pm);
        Some (sched_unlock (pm\<lparr>pm_tasks := l\<rparr>)) })"

definition ProcessManager_killer :: "process_manager \<Rightarrow> process_manager option" where
  "ProcessManager_killer pm = do {
     pm \<leftarrow> sched_lock pm;
     pm \<leftarrow> ProcessManager_doKill pm;
     Some (sched_unlock pm) }"

text \<open>
  The loop that skips blocked tasks.  It ends with an early return because the list is empty or
  because the current task has come up, or with the task to switch to.
\<close>

datatype skip_result = NoTask | BackToCurrent | NextTask ptr

partial_function (option) schedule_skip ::
  "ptr \<Rightarrow> ptr \<Rightarrow> process_manager \<Rightarrow> (skip_result \<times> process_manager) option" where
  "schedule_skip current nxt pm = do {
     t \<leftarrow> pm_task pm nxt;
     (if tk_status t = STATUS_BLOCKED
      then do {
        tmp \<leftarrow> List_first (pm_tasks pm);
        (if tmp = nullptr then Some (NoTask, pm)
         else if tmp = current then Some (BackToCurrent, pm)
         else do {
           l \<leftarrow> List_rotateFirstLast (pm_tasks pm);
           schedule_skip current tmp (pm\<lparr>pm_tasks := l\<rparr>) }) }
      else Some (NextTask nxt, pm)) }"

text \<open>The time slice the task to run next is given.\<close>

definition pool_slice :: "task \<Rightarrow> u32 \<Rightarrow> u32" where
  "pool_slice t n =
     (let approx = (MAX_PRIORITY - tk_priority t) + tk_nice t;
          approx = (if approx = 0 then 1 else approx);
          s = (if n > 0 then SCHEDULING_GRANULARITY div n div approx else SCHEDULING_GRANULARITY div approx)
      in if s < SCHEDULING_GRANULARITY_MIN then SCHEDULING_GRANULARITY_MIN else s)"

text \<open>The part of \<^verbatim>\<open>schedule\<close> from \<^verbatim>\<open>m_current = next\<close> on.\<close>

definition schedule_switch :: "ptr \<Rightarrow> ptr \<Rightarrow> process_manager \<Rightarrow> (outcome \<times> process_manager) option" where
  "schedule_switch current nxt pm = do {
     let pm = pm\<lparr>pm_current := nxt\<rparr>;
     pm \<leftarrow> pm_lock_task nxt pm;
     pm \<leftarrow> pm_upd nxt (Task_setStatus STATUS_RUNNING) pm;
     pm \<leftarrow> (if current \<noteq> nullptr
            then pm_upd current (\<lambda>t. if tk_status t \<noteq> STATUS_BLOCKED then Task_setStatus STATUS_WAITING t else t) pm
            else Some pm);
     _ \<leftarrow> pm_task pm current;
     n \<leftarrow> pm_task pm nxt;
     let s = pool_slice n (List_size (pm_tasks pm));
     let pm = pm\<lparr>pm_pool_slice := s\<rparr>;
     pm \<leftarrow> pm_upd nxt (Task_setSlice s) pm;
     pm \<leftarrow> pm_upd nxt Task_unlock pm;
     a \<leftarrow> nxt;
     let pm = sched_unlock pm;
     pm \<leftarrow> release_lock current pm;
     Some (Switched a, pm) }"

definition ProcessManager_schedule_resumed :: "ptr \<Rightarrow> ptr \<Rightarrow> process_manager \<Rightarrow> (outcome \<times> process_manager) option" where
  "ProcessManager_schedule_resumed current nxt pm = do {
     pm \<leftarrow> pm_upd nxt Task_unlock pm;
     pm \<leftarrow> pm_upd current Task_unlock pm;
     Some (Returned current, sched_unlock pm) }"

text \<open>The part of \<^verbatim>\<open>schedule\<close> under both locks.\<close>

definition schedule_pick :: "ptr \<Rightarrow> process_manager \<Rightarrow> (outcome \<times> process_manager) option" where
  "schedule_pick current pm = do {
     tmp \<leftarrow> List_first (pm_tasks pm);
     (if tmp = nullptr
      then do { pm \<leftarrow> pm_upd current Task_unlock pm; Some (Returned nullptr, sched_unlock pm) }
      else if tmp = current
      then do { pm \<leftarrow> pm_upd current Task_unlock pm; Some (Returned current, sched_unlock pm) }
      else do {
        l \<leftarrow> List_rotateFirstLast (pm_tasks pm);
        (r, pm) \<leftarrow> schedule_skip current tmp (pm\<lparr>pm_tasks := l\<rparr>);
        (case r of
           NoTask \<Rightarrow> do { pm \<leftarrow> pm_upd current Task_unlock pm; Some (Returned nullptr, sched_unlock pm) }
         | BackToCurrent \<Rightarrow> do { pm \<leftarrow> pm_upd current Task_unlock pm; Some (Returned current, sched_unlock pm) }
         | NextTask nxt \<Rightarrow> schedule_switch current nxt pm) }) }"

definition ProcessManager_schedule :: "process_manager \<Rightarrow> (outcome \<times> process_manager) option" where
  "ProcessManager_schedule pm = do {
     pm \<leftarrow> sched_lock pm;
     let current = pm_current pm;
     pm \<leftarrow> (if current \<noteq> nullptr then pm_lock_task current pm else Some pm);
     schedule_pick current pm }"



definition ProcessManager_pid :: "process_manager \<Rightarrow> u32 option" where
  "ProcessManager_pid pm =
     (if pm_current pm = nullptr then Some 0 else map_option tk_pid (pm_task pm (pm_current pm)))"


section \<open>The timer\<close>

text \<open>
  \<^verbatim>\<open>sleep\<close>, \<^verbatim>\<open>msleep\<close> and \<^verbatim>\<open>usleep\<close> compute a number of ticks, for which \<^verbatim>\<open>wait\<close> waits.  \<open>ticks\<close> gives
  the value of \<open>m_ticks\<close> at each poll; the loops of \<^verbatim>\<open>wait\<close> return the poll at which they end.
\<close>

definition Timer_sleep_ticks :: "u32 \<Rightarrow> u32 \<Rightarrow> u32" where
  "Timer_sleep_ticks hz sec = hz * sec"

definition Timer_msleep_ticks :: "u32 \<Rightarrow> u32 \<Rightarrow> u32" where
  "Timer_msleep_ticks hz msec = msec * hz div 1000"

definition Timer_usleep_ticks :: "u32 \<Rightarrow> u32 \<Rightarrow> u32" where
  "Timer_usleep_ticks hz usec = usec * hz div 10000000"

partial_function (option) poll_while :: "(u32 \<Rightarrow> bool) \<Rightarrow> (nat \<Rightarrow> u32) \<Rightarrow> nat \<Rightarrow> nat option" where
  "poll_while c ticks k = (if c (ticks k) then poll_while c ticks (Suc k) else Some k)"

definition Timer_wait :: "(nat \<Rightarrow> u32) \<Rightarrow> u32 \<Rightarrow> nat option" where
  "Timer_wait ticks n = do {
     let now = ticks 0;
     let target = n + now;
     k \<leftarrow> (if target < now then map_option Suc (poll_while (\<lambda>m. now < m) ticks 1) else Some 1);
     poll_while (\<lambda>m. m < target) ticks k }"




section \<open>Lemmas\<close>

definition blocked :: "process_manager \<Rightarrow> ptr \<Rightarrow> bool" where
  "blocked pm p \<longleftrightarrow> (\<exists>t. pm_task pm p = Some t \<and> tk_status t = STATUS_BLOCKED)"

definition runnable :: "process_manager \<Rightarrow> ptr \<Rightarrow> bool" where
  "runnable pm p \<longleftrightarrow> (\<exists>t. pm_task pm p = Some t \<and> tk_status t \<noteq> STATUS_BLOCKED)"

lemma pm_task_tasks [simp]: "pm_task (pm\<lparr>pm_tasks := l\<rparr>) = pm_task pm"
  by (simp add: pm_task_def fun_eq_iff)

lemma blocked_tasks [simp]: "blocked (pm\<lparr>pm_tasks := l\<rparr>) = blocked pm"
  by (simp add: blocked_def fun_eq_iff)

lemma skip_run:
  assumes "List_is (pm_tasks pm) (bs @ x # cs)" "blocked pm nxt" "\<forall>b \<in> set bs. blocked pm b \<and> b \<noteq> current"
    "x \<noteq> nullptr"
  shows "x = current \<Longrightarrow> \<exists>l. schedule_skip current nxt pm = Some (BackToCurrent, pm\<lparr>pm_tasks := l\<rparr>) \<and>
      List_is l (x # cs @ bs)"
    and "x \<noteq> current \<Longrightarrow> runnable pm x \<Longrightarrow> \<exists>l. schedule_skip current nxt pm = Some (NextTask x, pm\<lparr>pm_tasks := l\<rparr>) \<and>
      List_is l (cs @ bs @ [x])"
proof -
  have "(x = current \<longrightarrow> (\<exists>l. schedule_skip current nxt pm = Some (BackToCurrent, pm\<lparr>pm_tasks := l\<rparr>) \<and>
      List_is l (x # cs @ bs))) \<and>
    (x \<noteq> current \<and> runnable pm x \<longrightarrow> (\<exists>l. schedule_skip current nxt pm = Some (NextTask x, pm\<lparr>pm_tasks := l\<rparr>) \<and>
      List_is l (cs @ bs @ [x])))"
    using assms(1-3)
  proof (induction bs arbitrary: pm cs nxt)
    case Nil
    obtain t where t: "pm_task pm nxt = Some t" "tk_status t = STATUS_BLOCKED"
      using Nil.prems(2) by (auto simp: blocked_def)
    have f: "List_first (pm_tasks pm) = Some x"
      using List_is_first [OF Nil.prems(1)] by simp
    obtain l where l: "List_rotateFirstLast (pm_tasks pm) = Some l" "List_is l (cs @ [x])"
      using List_is_rotate [OF Nil.prems(1)] by auto
    have "schedule_skip current nxt pm = Some (BackToCurrent, pm)" if "x = current"
      using t f assms(4) that by (subst schedule_skip.simps) simp
    moreover have "schedule_skip current nxt pm = Some (NextTask x, pm\<lparr>pm_tasks := l\<rparr>)"
      if "x \<noteq> current" "runnable pm x"
    proof -
      have "schedule_skip current x (pm\<lparr>pm_tasks := l\<rparr>) = Some (NextTask x, pm\<lparr>pm_tasks := l\<rparr>)"
        using that(2) by (subst schedule_skip.simps) (auto simp: runnable_def)
      then show ?thesis
        using t f l assms(4) that by (subst schedule_skip.simps) simp
    qed
    moreover have "pm = pm\<lparr>pm_tasks := pm_tasks pm\<rparr>"
      by simp
    ultimately show ?case
      using Nil.prems(1) l(2) by (metis append_Nil append_Nil2)
  next
    case (Cons b bs)
    obtain t where t: "pm_task pm nxt = Some t" "tk_status t = STATUS_BLOCKED"
      using Cons.prems(2) by (auto simp: blocked_def)
    have f: "List_first (pm_tasks pm) = Some b"
      using List_is_first [OF Cons.prems(1)] by simp
    obtain l where l: "List_rotateFirstLast (pm_tasks pm) = Some l" "List_is l (bs @ x # cs @ [b])"
      using List_is_rotate [OF Cons.prems(1)] by auto
    have b: "b \<noteq> current" "blocked pm b" "b \<noteq> nullptr"
      using Cons.prems(3) by (auto simp: blocked_def pm_task_def)
    have step: "schedule_skip current nxt pm = schedule_skip current b (pm\<lparr>pm_tasks := l\<rparr>)"
      using t f l b by (subst schedule_skip.simps) auto
    have "runnable (pm\<lparr>pm_tasks := l\<rparr>) = runnable pm"
      by (simp add: runnable_def fun_eq_iff)
    then show ?case
      unfolding step using Cons.IH [of "pm\<lparr>pm_tasks := l\<rparr>" "cs @ [b]" b] l(2) b Cons.prems(3)
      by simp
  qed
  then show "x = current \<Longrightarrow> \<exists>l. schedule_skip current nxt pm = Some (BackToCurrent, pm\<lparr>pm_tasks := l\<rparr>) \<and>
      List_is l (x # cs @ bs)"
    "x \<noteq> current \<Longrightarrow> runnable pm x \<Longrightarrow> \<exists>l. schedule_skip current nxt pm = Some (NextTask x, pm\<lparr>pm_tasks := l\<rparr>) \<and>
      List_is l (cs @ bs @ [x])"
    by blast+
qed

lemma pool_slice_bounds: "20 \<le> pool_slice t n \<and> pool_slice t n \<le> 500"
proof -
  have le: "(500 :: u32) div a \<le> 500" "(500 :: u32) div a div b \<le> 500" for a b
    by (simp_all add: word_le_nat_alt unat_div div_le_dividend le_trans [OF div_le_dividend])
  show ?thesis
    using le by (auto simp: pool_slice_def Let_def SCHEDULING_GRANULARITY_def SCHEDULING_GRANULARITY_MIN_def
        KERNEL_FREQUENCY_def)
qed

lemma approxPool_less: "ProcessManager_approxPool p base pm = Some i \<Longrightarrow> i < TASK_POOLS"
  by (auto simp: ProcessManager_approxPool_def TASK_POOLS_def Let_def word_less_nat_alt unat_mod split: if_splits)

lemma pm_lock_task_ok [res_simps]:
  "pm_store pm a = Some t \<Longrightarrow> tk_lock t = 0 \<Longrightarrow>
    pm_lock_task (Some a) pm = Some (pm\<lparr>pm_store := (pm_store pm)(a \<mapsto> t\<lparr>tk_lock := 1\<rparr>)\<rparr>)"
  by (simp add: pm_lock_task_def Task_lock_def)

lemma pm_upd_ok [res_simps]:
  "pm_store pm a = Some t \<Longrightarrow> pm_upd (Some a) f pm = Some (pm\<lparr>pm_store := (pm_store pm)(a \<mapsto> f t)\<rparr>)"
  by (simp add: pm_upd_def)

lemma pm_task_ok [res_simps]: "pm_task pm (Some a) = pm_store pm a"
  by (simp add: pm_task_def)

lemma locked_status:
  "blocked (pm\<lparr>pm_sched_lock := w, pm_store := (pm_store pm)(c \<mapsto> t\<lparr>tk_lock := v\<rparr>)\<rparr>) p = blocked pm p"
  "runnable (pm\<lparr>pm_sched_lock := w, pm_store := (pm_store pm)(c \<mapsto> t\<lparr>tk_lock := v\<rparr>)\<rparr>) p = runnable pm p"
  if "pm_store pm c = Some t"
  using that by (cases p; auto simp: blocked_def runnable_def pm_task_def)+

text \<open>What a switch from task \<open>c\<close> to task \<open>a\<close> leaves in the store.\<close>

definition switched_store :: "nat \<Rightarrow> task \<Rightarrow> nat \<Rightarrow> task \<Rightarrow> u32 \<Rightarrow> (nat \<rightharpoonup> task) \<Rightarrow> (nat \<rightharpoonup> task)" where
  "switched_store c tc a ta s st = st(
     c \<mapsto> tc\<lparr>tk_status := if tk_status tc = STATUS_BLOCKED then STATUS_BLOCKED else STATUS_WAITING\<rparr>,
     a \<mapsto> Task_setSlice s (ta\<lparr>tk_status := STATUS_RUNNING\<rparr>))"

lemma schedule_switch_ok:
  assumes "pm_store pm c = Some (tc\<lparr>tk_lock := 1\<rparr>)" "pm_store pm a = Some ta" "a \<noteq> c"
    "tk_lock ta = 0" "tk_lock tc = 0"
  shows "\<exists>s pm'. schedule_switch (Some c) (Some a) pm = Some (Switched a, pm') \<and> 20 \<le> s \<and> s \<le> 500 \<and>
    pm_store pm' = switched_store c tc a ta s (pm_store pm) \<and> pm_tasks pm' = pm_tasks pm \<and>
    pm_current pm' = Some a \<and> pm_sched_lock pm' = 0 \<and> pm_pid pm' = pm_pid pm \<and> pm_running pm' = pm_running pm"
proof -
  let ?s = "pool_slice (ta\<lparr>tk_lock := 1, tk_status := STATUS_RUNNING\<rparr>) (List_size (pm_tasks pm))"
  have t0: "ta\<lparr>tk_lock := 0\<rparr> = ta" "tc\<lparr>tk_lock := 0\<rparr> = tc" "tc\<lparr>tk_status := st, tk_lock := 0\<rparr> = tc\<lparr>tk_status := st\<rparr>" for st
    using assms(4,5) by (cases ta; cases tc; simp)+
  show ?thesis
    using assms(1-4) pool_slice_bounds [of "ta\<lparr>tk_lock := 1, tk_status := STATUS_RUNNING\<rparr>" "List_size (pm_tasks pm)"] t0
    by (intro exI [of _ ?s])
      (auto simp: schedule_switch_def res_simps release_lock_def sched_unlock_def Let_def switched_store_def
        Task_setStatus_def Task_unlock_def Task_setSlice_def fun_eq_iff)
qed

text \<open>The list and the locks of a state in which \<^verbatim>\<open>schedule\<close> is called by task \<open>c\<close>.\<close>

definition sched_ready :: "process_manager \<Rightarrow> nat \<Rightarrow> task \<Rightarrow> ptr list \<Rightarrow> bool" where
  "sched_ready pm c tc vs \<longleftrightarrow> List_is (pm_tasks pm) vs \<and> pm_current pm = Some c \<and> pm_store pm c = Some tc \<and>
     tk_lock tc = 0 \<and> pm_sched_lock pm = 0"

lemma skip_dispatch:
  assumes l: "List_is (pm_tasks pm) (bs @ Some a # cs)" and bs: "\<forall>b \<in> set bs. blocked pm b \<and> b \<noteq> Some c"
    and a: "a \<noteq> c" "runnable pm (Some a)"
  obtains tmp l1 l2 where "List_first (pm_tasks pm) = Some tmp" "tmp \<noteq> nullptr" "tmp \<noteq> Some c"
    "List_rotateFirstLast (pm_tasks pm) = Some l1"
    "schedule_skip (Some c) tmp (pm\<lparr>pm_tasks := l1\<rparr>) = Some (NextTask (Some a), pm\<lparr>pm_tasks := l2\<rparr>)"
    "List_is l2 (cs @ bs @ [Some a])"
proof (cases bs)
  case Nil
  obtain l1 where l1: "List_rotateFirstLast (pm_tasks pm) = Some l1" "List_is l1 (cs @ [Some a])"
    using List_is_rotate [OF l] Nil by auto
  have "schedule_skip (Some c) (Some a) (pm\<lparr>pm_tasks := l1\<rparr>) = Some (NextTask (Some a), pm\<lparr>pm_tasks := l1\<rparr>)"
    using a(2) by (subst schedule_skip.simps) (auto simp: runnable_def)
  then show ?thesis
    using Nil List_is_first [OF l] l1 a(1) by (intro that [of "Some a" l1 l1]) simp_all
next
  case (Cons b bs')
  have b: "b \<noteq> Some c" "blocked pm b" "\<forall>b \<in> set bs'. blocked pm b \<and> b \<noteq> Some c"
    using bs Cons by simp_all
  then have b0: "b \<noteq> nullptr"
    by (auto simp: blocked_def pm_task_def)
  obtain l1 where l1: "List_rotateFirstLast (pm_tasks pm) = Some l1" "List_is l1 (bs' @ Some a # cs @ [b])"
    using List_is_rotate [OF l] Cons by auto
  have "runnable (pm\<lparr>pm_tasks := l1\<rparr>) (Some a)"
    using a(2) by (simp add: runnable_def)
  then have "\<exists>l2. schedule_skip (Some c) b (pm\<lparr>pm_tasks := l1\<rparr>) = Some (NextTask (Some a), pm\<lparr>pm_tasks := l1\<rparr>\<lparr>pm_tasks := l2\<rparr>) \<and>
      List_is l2 ((cs @ [b]) @ bs' @ [Some a])"
    by (intro skip_run(2)) (use l1 b a in simp_all)
  then obtain l2 where "schedule_skip (Some c) b (pm\<lparr>pm_tasks := l1\<rparr>) = Some (NextTask (Some a), pm\<lparr>pm_tasks := l2\<rparr>)"
      "List_is l2 ((cs @ [b]) @ bs' @ [Some a])"
    by auto
  then show ?thesis
    using Cons List_is_first [OF l] l1(1) b b0 by (intro that [of b l1 l2]) simp_all
qed

lemma skip_back:
  assumes l: "List_is (pm_tasks pm) (b # bs @ Some c # cs)" and bs: "\<forall>b \<in> set (b # bs). blocked pm b \<and> b \<noteq> Some c"
  obtains l1 l2 where "List_first (pm_tasks pm) = Some b" "b \<noteq> nullptr" "List_rotateFirstLast (pm_tasks pm) = Some l1"
    "schedule_skip (Some c) b (pm\<lparr>pm_tasks := l1\<rparr>) = Some (BackToCurrent, pm\<lparr>pm_tasks := l2\<rparr>)"
    "List_is l2 (Some c # cs @ b # bs)"
proof -
  have b: "b \<noteq> Some c" "blocked pm b" "\<forall>b \<in> set bs. blocked pm b \<and> b \<noteq> Some c"
    using bs by simp_all
  then have b0: "b \<noteq> nullptr"
    by (auto simp: blocked_def pm_task_def)
  obtain l1 where l1: "List_rotateFirstLast (pm_tasks pm) = Some l1" "List_is l1 (bs @ Some c # cs @ [b])"
    using List_is_rotate [OF l] by auto
  have "\<exists>l2. schedule_skip (Some c) b (pm\<lparr>pm_tasks := l1\<rparr>) = Some (BackToCurrent, pm\<lparr>pm_tasks := l1\<rparr>\<lparr>pm_tasks := l2\<rparr>) \<and>
      List_is l2 (Some c # (cs @ [b]) @ bs)"
    by (rule skip_run(1)) (use l1 b in simp_all)
  then obtain l2 where "schedule_skip (Some c) b (pm\<lparr>pm_tasks := l1\<rparr>) = Some (BackToCurrent, pm\<lparr>pm_tasks := l2\<rparr>)"
      "List_is l2 (Some c # (cs @ [b]) @ bs)"
    by auto
  then show ?thesis
    using List_is_first [OF l] l1(1) b0 by (intro that [of l1 l2]) simp_all
qed

text \<open>The state after the two locks at the head of \<^verbatim>\<open>schedule\<close>.\<close>

definition entered :: "nat \<Rightarrow> task \<Rightarrow> process_manager \<Rightarrow> process_manager" where
  "entered c tc pm = pm\<lparr>pm_sched_lock := 1, pm_store := (pm_store pm)(c \<mapsto> tc\<lparr>tk_lock := 1\<rparr>)\<rparr>"

lemma entered_sel [simp]:
  "pm_tasks (entered c tc pm) = pm_tasks pm" "pm_sched_lock (entered c tc pm) = 1"
  "pm_store (entered c tc pm) = (pm_store pm)(c \<mapsto> tc\<lparr>tk_lock := 1\<rparr>)" "pm_current (entered c tc pm) = pm_current pm"
  "pm_pid (entered c tc pm) = pm_pid pm" "pm_running (entered c tc pm) = pm_running pm"
  by (simp_all add: entered_def)

lemma entered_status:
  "pm_store pm c = Some tc \<Longrightarrow> blocked (entered c tc pm) p = blocked pm p"
  "pm_store pm c = Some tc \<Longrightarrow> runnable (entered c tc pm) p = runnable pm p"
  by (simp_all add: entered_def locked_status)

lemma schedule_entered:
  assumes "sched_ready pm c tc vs"
  shows "pm_store pm c = Some tc" "tk_lock tc = 0" "List_is (pm_tasks pm) vs"
    "ProcessManager_schedule pm = schedule_pick (Some c) (entered c tc pm)"
  using assms
  by (simp_all add: sched_ready_def ProcessManager_schedule_def sched_lock_def pm_lock_task_ok entered_def)

lemma schedule_dispatches:
  assumes r: "sched_ready pm c tc (bs @ Some a # cs)" and bs: "\<forall>b \<in> set bs. blocked pm b \<and> b \<noteq> Some c"
    and a: "a \<noteq> c" "pm_store pm a = Some ta" "tk_lock ta = 0" "tk_status ta \<noteq> STATUS_BLOCKED"
  shows "\<exists>s pm'. ProcessManager_schedule pm = Some (Switched a, pm') \<and> 20 \<le> s \<and> s \<le> 500 \<and>
    pm_store pm' = switched_store c tc a ta s (pm_store pm) \<and> List_is (pm_tasks pm') (cs @ bs @ [Some a]) \<and>
    pm_current pm' = Some a \<and> pm_sched_lock pm' = 0 \<and> pm_pid pm' = pm_pid pm \<and> pm_running pm' = pm_running pm"
proof -
  note e = schedule_entered [OF r]
  let ?pm = "entered c tc pm"
  have "runnable ?pm (Some a)"
    using a by (simp add: entered_status [OF e(1)] runnable_def pm_task_def)
  with bs a(1) e(3) obtain tmp l1 l2 where s: "List_first (pm_tasks pm) = Some tmp" "tmp \<noteq> nullptr" "tmp \<noteq> Some c"
      "List_rotateFirstLast (pm_tasks pm) = Some l1" "List_is l2 (cs @ bs @ [Some a])"
      "schedule_skip (Some c) tmp (?pm\<lparr>pm_tasks := l1\<rparr>) = Some (NextTask (Some a), ?pm\<lparr>pm_tasks := l2\<rparr>)"
    using skip_dispatch [of ?pm bs a cs c] by (simp add: entered_status [OF e(1)]) metis
  have run: "ProcessManager_schedule pm = schedule_switch (Some c) (Some a) (?pm\<lparr>pm_tasks := l2\<rparr>)"
    unfolding e(4) schedule_pick_def using s by auto
  have st: "switched_store c tc a ta s ((pm_store pm)(c \<mapsto> t)) = switched_store c tc a ta s (pm_store pm)" for s t
    by (simp add: switched_store_def)
  show ?thesis
    unfolding run using schedule_switch_ok [of "?pm\<lparr>pm_tasks := l2\<rparr>" c tc a ta] e(2) a s(5) by (simp add: st) metis
qed

lemma schedule_keeps_current:
  assumes r: "sched_ready pm c tc (bs @ Some c # cs)" and bs: "\<forall>b \<in> set bs. blocked pm b \<and> b \<noteq> Some c"
  shows "\<exists>pm'. ProcessManager_schedule pm = Some (Returned (Some c), pm') \<and> pm_store pm' = pm_store pm \<and>
    List_is (pm_tasks pm') (Some c # cs @ bs) \<and> pm_current pm' = Some c \<and> pm_sched_lock pm' = 0"
proof -
  note e = schedule_entered [OF r]
  let ?pm = "entered c tc pm"
  have t: "Task_unlock (tc\<lparr>tk_lock := 1\<rparr>) = tc" "pm_current pm = Some c"
    using e(2) r by (cases tc; simp add: Task_unlock_def sched_ready_def)+
  then have st: "(pm_store pm)(c \<mapsto> Task_unlock (tc\<lparr>tk_lock := 1\<rparr>)) = pm_store pm"
    using e(1) by (simp add: fun_upd_idem)
  show ?thesis
  proof (cases bs)
    case Nil
    have "ProcessManager_schedule pm = Some (Returned (Some c), sched_unlock (?pm\<lparr>pm_store := pm_store pm\<rparr>))"
      unfolding e(4) schedule_pick_def using List_is_first [OF e(3)] Nil st by (simp add: pm_upd_ok)
    then show ?thesis
      using Nil e(3) t by (auto simp: sched_unlock_def)
  next
    case (Cons b bs')
    obtain l1 l2 where s: "List_first (pm_tasks pm) = Some b" "b \<noteq> nullptr" "List_rotateFirstLast (pm_tasks pm) = Some l1"
      "schedule_skip (Some c) b (?pm\<lparr>pm_tasks := l1\<rparr>) = Some (BackToCurrent, ?pm\<lparr>pm_tasks := l2\<rparr>)"
      "List_is l2 (Some c # cs @ b # bs')"
      using skip_back [of ?pm b bs' c cs] bs e(3) Cons by (simp add: entered_status [OF e(1)]) metis
    have "ProcessManager_schedule pm = Some (Returned (Some c), sched_unlock (?pm\<lparr>pm_tasks := l2, pm_store := pm_store pm\<rparr>))"
      unfolding e(4) schedule_pick_def using s bs Cons st by (auto simp: pm_upd_ok)
    then show ?thesis
      using Cons s(5) t by (auto simp: sched_unlock_def)
  qed
qed

section \<open>Sequences of schedules and of ticks\<close>

fun schedule_times :: "nat \<Rightarrow> process_manager \<Rightarrow> process_manager option" where
  "schedule_times 0 pm = Some pm"
| "schedule_times (Suc n) pm = do { (r, pm) \<leftarrow> ProcessManager_schedule pm; schedule_times n pm }"




text \<open>All tasks of the list can run and the current task is the last of it.\<close>

definition all_runnable :: "process_manager \<Rightarrow> nat list \<Rightarrow> bool" where
  "all_runnable pm vs \<longleftrightarrow> 2 \<le> length vs \<and> distinct vs \<and> List_is (pm_tasks pm) (map Some vs) \<and>
     pm_current pm = Some (last vs) \<and> pm_sched_lock pm = 0 \<and>
     (\<forall>a \<in> set vs. \<exists>t. pm_store pm a = Some t \<and> tk_lock t = 0 \<and> tk_status t \<noteq> STATUS_BLOCKED)"

lemma Task_setSlice_sel [simp]:
  "tk_lock (Task_setSlice s t) = tk_lock t" "tk_status (Task_setSlice s t) = tk_status t"
  "tk_priority (Task_setSlice s t) = tk_priority t" "tk_pid (Task_setSlice s t) = tk_pid t"
  by (simp_all add: Task_setSlice_def)

lemma all_runnable_step:
  assumes "all_runnable pm (a # vs)"
  shows "\<exists>pm'. ProcessManager_schedule pm = Some (Switched a, pm') \<and> all_runnable pm' (vs @ [a])"
proof -
  have vs: "vs \<noteq> []" "a \<notin> set vs" "distinct vs"
    using assms by (auto simp: all_runnable_def)
  then have c: "last vs \<in> set vs" "last vs \<noteq> a"
    by auto
  obtain ta tc where t: "pm_store pm a = Some ta" "tk_lock ta = 0" "tk_status ta \<noteq> STATUS_BLOCKED"
      "pm_store pm (last vs) = Some tc" "tk_lock tc = 0" "tk_status tc \<noteq> STATUS_BLOCKED"
    using assms c(1) by (auto simp: all_runnable_def)
  have "sched_ready pm (last vs) tc ([] @ Some a # map Some vs)"
    using assms vs t by (simp add: sched_ready_def all_runnable_def)
  then obtain s pm' where r: "ProcessManager_schedule pm = Some (Switched a, pm')"
      "pm_store pm' = switched_store (last vs) tc a ta s (pm_store pm)"
      "List_is (pm_tasks pm') (map Some vs @ [Some a])" "pm_current pm' = Some a" "pm_sched_lock pm' = 0"
    using schedule_dispatches [of pm "last vs" tc "[]" a "map Some vs" ta] c t by auto
  have "all_runnable pm' (vs @ [a])"
    using r(2-5) vs t assms by (auto simp: all_runnable_def switched_store_def)
  with r(1) show ?thesis
    by blast
qed

lemma distinct_successively: "distinct xs \<Longrightarrow> successively (\<lambda>x y. \<not> (x = v \<and> y = v)) xs"
proof (induction xs)
  case (Cons x xs)
  then show ?case
    by (cases xs) auto
qed simp

lemma last_rotate1: "xs \<noteq> [] \<Longrightarrow> last (rotate1 xs) = hd xs"
  by (cases xs) auto

lemma all_runnable_times:
  "all_runnable pm vs \<Longrightarrow> \<exists>pm'. schedule_times n pm = Some pm' \<and> all_runnable pm' (rotate n vs)"
proof (induction n arbitrary: pm vs)
  case (Suc n)
  then obtain a vs' where vs: "vs = a # vs'"
    by (cases vs) (auto simp: all_runnable_def)
  then obtain pm' where "ProcessManager_schedule pm = Some (Switched a, pm')" "all_runnable pm' (rotate1 vs)"
    using all_runnable_step [of pm a vs'] Suc.prems by auto
  with Suc.IH [of pm' "rotate1 vs"] show ?case
    by (auto simp: rotate1_rotate_swap)
qed simp



lemma poll_while_ends:
  assumes "\<not> c (ticks m)" "k \<le> m"
  shows "\<exists>j. poll_while c ticks k = Some j \<and> k \<le> j \<and> j \<le> m \<and> \<not> c (ticks j) \<and> (\<forall>i. k \<le> i \<and> i < j \<longrightarrow> c (ticks i))"
  using assms(2)
proof (induction "m - k" arbitrary: k)
  case 0
  then show ?case
    using assms(1) by (subst poll_while.simps) auto
next
  case (Suc d)
  show ?case
  proof (cases "c (ticks k)")
    case True
    then have "Suc k \<le> m"
      using assms(1) Suc.prems by (metis Suc_leI le_neq_implies_less)
    with Suc obtain j where j: "poll_while c ticks (Suc k) = Some j" "Suc k \<le> j" "j \<le> m" "\<not> c (ticks j)"
        "\<forall>i. Suc k \<le> i \<and> i < j \<longrightarrow> c (ticks i)"
      by (metis diff_Suc_Suc diff_Suc_diff_eq1 Suc_inject Suc_diff_le)
    then have "\<forall>i. k \<le> i \<and> i < j \<longrightarrow> c (ticks i)"
      using True by (metis le_eq_less_or_eq Suc_leI)
    with j True show ?thesis
      by (subst poll_while.simps) auto
  next
    case False
    then show ?thesis
      using Suc.prems by (subst poll_while.simps) auto
  qed
qed

lemma Timer_wait_reaches:
  assumes "unat n + unat (ticks 0) < 2 ^ 32" "1 \<le> m" "n + ticks 0 \<le> ticks m"
  shows "\<exists>k. Timer_wait ticks n = Some k \<and> 1 \<le> k \<and> k \<le> m \<and> n + ticks 0 \<le> ticks k \<and>
       (\<forall>i. 1 \<le> i \<and> i < k \<longrightarrow> ticks i < n + ticks 0)"
proof -
  have "unat (n + ticks 0) = unat n + unat (ticks 0)"
    using assms(1) unat_add_lem [of n "ticks 0"] by simp
  then have "\<not> n + ticks 0 < ticks 0"
    by (simp add: word_less_nat_alt)
  then have "Timer_wait ticks n = poll_while (\<lambda>x. x < n + ticks 0) ticks 1"
    by (simp add: Timer_wait_def)
  moreover have "\<exists>j. poll_while (\<lambda>x. x < n + ticks 0) ticks 1 = Some j \<and> 1 \<le> j \<and> j \<le> m \<and> \<not> ticks j < n + ticks 0 \<and>
      (\<forall>i. 1 \<le> i \<and> i < j \<longrightarrow> ticks i < n + ticks 0)"
    using assms by (intro poll_while_ends) simp_all
  ultimately show ?thesis
    by (simp add: not_less)
qed

lemma Timer_wait_wraps:
  assumes "2 ^ 32 \<le> unat n + unat (ticks 0)" "ticks 1 = ticks 0" "ticks 2 = ticks 0"
  shows "Timer_wait ticks n = Some 2"
proof -
  have "unat (n + ticks 0) < unat (ticks 0)"
    using assms(1) unat_u32_less [of n] unat_u32_less [of "ticks 0"] by (simp add: unat_word_ariths le_mod_geq)
  then have w: "n + ticks 0 < ticks 0"
    by (simp add: word_less_nat_alt)
  have "poll_while (\<lambda>x. ticks 0 < x) ticks 1 = Some 1"
    by (subst poll_while.simps) (simp add: assms(2) del: One_nat_def)
  moreover have "poll_while (\<lambda>x. x < n + ticks 0) ticks 2 = Some 2"
    by (subst poll_while.simps) (use w in \<open>auto simp: assms(3)\<close>)
  ultimately show ?thesis
    using w by (simp add: Timer_wait_def numeral_2_eq_2)
qed

section \<open>Properties\<close>

text \<open>Two tasks that have just been created, for the concrete instances below.\<close>

definition two_tasks :: "task_status \<Rightarrow> process_manager" where
  "two_tasks s = \<lparr>pm_tasks = klist_from [Some 1, Some 2], pm_current = Some 2, pm_running = True, pm_pid = 1,
     pm_pool_index = 0, pm_pool_target = 0, pm_pool_slice = 0,
     pm_store = [1 \<mapsto> Task_new\<lparr>tk_status := s\<rparr>, 2 \<mapsto> Task_new\<lparr>tk_status := STATUS_BLOCKED, tk_slice := 3\<rparr>], pm_sched_lock = 0\<rparr>"

lemma two_tasks_ready:
  "sched_ready (two_tasks s) 2 (Task_new\<lparr>tk_status := STATUS_BLOCKED, tk_slice := 3\<rparr>) [Some 1, Some 2]"
  by (simp add: sched_ready_def two_tasks_def List_is_klist_from Task_new_def)

text \<open>
  C12: \<^verbatim>\<open>schedule()\<close> is round robin over the tasks that are not blocked.  Called by task \<open>c\<close>, it passes
  over the blocked tasks \<open>bs\<close> at the head of the task list and switches to the first task \<open>a\<close> that is
  not blocked: the tasks passed over and then \<open>a\<close> move to the end of the list, \<open>a\<close> is current and
  running with a slice between 20 and 500 ticks (less if the task asks for less), \<open>c\<close> is waiting (or
  stays blocked), no other task changes and every lock taken is released.
\<close>

theorem schedule_round_robin:
  assumes "sched_ready pm c tc (bs @ Some a # cs)" "\<forall>b \<in> set bs. blocked pm b \<and> b \<noteq> Some c"
    "a \<noteq> c" "pm_store pm a = Some ta" "tk_lock ta = 0" "tk_status ta \<noteq> STATUS_BLOCKED"
  shows "\<exists>s pm'. ProcessManager_schedule pm = Some (Switched a, pm') \<and> 20 \<le> s \<and> s \<le> 500 \<and>
    List_is (pm_tasks pm') (cs @ bs @ [Some a]) \<and> pm_current pm' = Some a \<and> pm_sched_lock pm' = 0 \<and>
    pm_store pm' = (pm_store pm)(
      c \<mapsto> tc\<lparr>tk_status := if tk_status tc = STATUS_BLOCKED then STATUS_BLOCKED else STATUS_WAITING\<rparr>,
      a \<mapsto> Task_setSlice s (ta\<lparr>tk_status := STATUS_RUNNING\<rparr>))"
  using schedule_dispatches [OF assms] unfolding switched_store_def by blast

theorem schedule_round_robin_witness:
  "\<exists>pm'. ProcessManager_schedule (two_tasks STATUS_WAITING) = Some (Switched 1, pm') \<and>
    List_is (pm_tasks pm') [Some 2, Some 1] \<and> pm_current pm' = Some 1"
  using schedule_round_robin [of "two_tasks STATUS_WAITING" 2 _ "[]" 1 "[Some 2]" Task_new] two_tasks_ready
  by (simp add: two_tasks_def Task_new_def) blast

text \<open>
  C13: every task gets its turn.  While no task is blocked, \<open>k + 1\<close> calls of \<^verbatim>\<open>schedule()\<close> make the task
  at position \<open>k\<close> of the task list the current one, so in as many calls as there are tasks each has been
  current once.
\<close>

theorem schedule_fair:
  assumes "all_runnable pm vs" "k < length vs"
  shows "\<exists>pm'. schedule_times (Suc k) pm = Some pm' \<and> pm_current pm' = Some (vs ! k) \<and>
    List_is (pm_tasks pm') (map Some (rotate (Suc k) vs))"
proof -
  obtain pm' where pm': "schedule_times (Suc k) pm = Some pm'" "all_runnable pm' (rotate (Suc k) vs)"
    using all_runnable_times [OF assms(1)] by blast
  have "vs \<noteq> []"
    using assms(2) by auto
  then have "last (rotate (Suc k) vs) = vs ! k"
    using assms(2) last_rotate1 [of "rotate k vs"] by (simp add: hd_rotate_conv_nth)
  then show ?thesis
    using pm' by (auto simp: all_runnable_def)
qed

theorem schedule_fair_witness:
  "\<exists>pm'. schedule_times 1 (two_tasks STATUS_WAITING
     \<lparr>pm_store := [1 \<mapsto> Task_new, 2 \<mapsto> Task_new]\<rparr>) = Some pm' \<and> pm_current pm' = Some 1"
proof -
  have "all_runnable (two_tasks STATUS_WAITING\<lparr>pm_store := [1 \<mapsto> Task_new, 2 \<mapsto> Task_new]\<rparr>) [1, 2]"
    by (simp add: all_runnable_def two_tasks_def Task_new_def List_is_klist_from)
  from schedule_fair [OF this, of 0] show ?thesis
    by auto
qed

text \<open>
  \<^verbatim>\<open>schedule()\<close> returns to its caller although the caller is blocked.  When the tasks before the
  current task \<open>c\<close> in the list are all blocked, the scan comes back to \<open>c\<close> and returns it, and its
  status is not looked at: a task that has put itself on the wait list of a mutex and calls
  \<^verbatim>\<open>reschedule()\<close> goes on running without the mutex.
\<close>

theorem schedule_returns_blocked:
  assumes "sched_ready pm c tc (bs @ Some c # cs)" "\<forall>b \<in> set bs. blocked pm b \<and> b \<noteq> Some c"
    "tk_status tc = STATUS_BLOCKED"
  shows "\<exists>pm'. ProcessManager_schedule pm = Some (Returned (Some c), pm') \<and> pm_store pm' = pm_store pm \<and>
    blocked pm' (Some c) \<and> List_is (pm_tasks pm') (Some c # cs @ bs) \<and> pm_current pm' = Some c \<and> pm_sched_lock pm' = 0"
proof -
  have "pm_store pm c = Some tc"
    using assms(1) by (simp add: sched_ready_def)
  then show ?thesis
    using schedule_keeps_current [OF assms(1,2)] assms(3) by (auto simp: blocked_def pm_task_def)
qed

theorem schedule_returns_blocked_witness:
  "\<exists>pm'. ProcessManager_schedule (two_tasks STATUS_BLOCKED) = Some (Returned (Some 2), pm') \<and> blocked pm' (Some 2)"
proof -
  have "blocked (two_tasks STATUS_BLOCKED) (Some 1)"
    by (simp add: blocked_def pm_task_def two_tasks_def)
  moreover have "sched_ready (two_tasks STATUS_BLOCKED) 2 (Task_new\<lparr>tk_status := STATUS_BLOCKED, tk_slice := 3\<rparr>) ([Some 1] @ Some 2 # [])"
    using two_tasks_ready by simp
  ultimately show ?thesis
    using schedule_returns_blocked [of "two_tasks STATUS_BLOCKED" 2 "Task_new\<lparr>tk_status := STATUS_BLOCKED, tk_slice := 3\<rparr>"
        "[Some 1]" "[]"] by auto
qed



text \<open>
  \<^verbatim>\<open>addTask\<close> gives a task without a pid the next one, keeps a pid it already has, puts the task at
  the end of the task list and switches to it at once; the lock of the interrupted task and the
  scheduling lock are free afterwards.  It ignores \<^verbatim>\<open>nullptr\<close>.
\<close>

theorem addTask_appends:
  assumes "sched_ready pm c tc vs" "pm_store pm a = Some t" "a \<noteq> c"
  shows "ProcessManager_addTask nullptr pm = Some (Returned nullptr, pm) \<and>
    (\<exists>pm'. ProcessManager_addTask (Some a) pm = Some (Switched a, pm') \<and> List_is (pm_tasks pm') (vs @ [Some a]) \<and>
      pm_current pm' = Some a \<and> pm_sched_lock pm' = 0 \<and>
      pm_pid pm' = (if tk_pid t = 0 then pm_pid pm + 1 else pm_pid pm) \<and>
      pm_store pm' = (pm_store pm)(a \<mapsto> (if tk_pid t = 0 then t\<lparr>tk_pid := pm_pid pm + 1\<rparr> else t)))"
proof -
  have r: "List_is (pm_tasks pm) vs" "pm_current pm = Some c" "pm_store pm c = Some tc" "tk_lock tc = 0" "pm_sched_lock pm = 0"
    using assms(1) by (auto simp: sched_ready_def)
  obtain l where l: "List_append (Some a) (pm_tasks pm) = Some l" "List_is l (vs @ [Some a])"
    using List_is_append [OF r(1)] by blast
  have tc: "tc\<lparr>tk_lock := 0\<rparr> = tc"
    using r(4) by (cases tc) simp
  show ?thesis
    using r(2-5) l assms(2,3) tc
    by (auto simp: ProcessManager_addTask_def sched_lock_def sched_unlock_def release_lock_def pm_lock_task_ok pm_upd_ok
        Task_unlock_def Let_def fun_eq_iff)
qed

theorem addTask_appends_witness:
  "\<exists>pm'. ProcessManager_addTask (Some 7) (two_tasks STATUS_WAITING
      \<lparr>pm_store := (pm_store (two_tasks STATUS_WAITING))(7 \<mapsto> Task_new)\<rparr>) = Some (Switched 7, pm') \<and> pm_pid pm' = 2"
proof -
  let ?pm = "two_tasks STATUS_WAITING\<lparr>pm_store := (pm_store (two_tasks STATUS_WAITING))(7 \<mapsto> Task_new)\<rparr>"
  have "sched_ready ?pm 2 (Task_new\<lparr>tk_status := STATUS_BLOCKED, tk_slice := 3\<rparr>) [Some 1, Some 2]"
    using two_tasks_ready [of STATUS_WAITING] by (simp add: sched_ready_def)
  from addTask_appends [OF this, of 7 Task_new] show ?thesis
    by (auto simp: Task_new_def two_tasks_def)
qed

text \<open>
  what happens when a task ends.  \<^verbatim>\<open>doKill\<close> on its own removes the current task from the task list,
  unless that task is the first of the list, in which case \<^verbatim>\<open>List::deleteAll\<close> faults.  But a task ends
  in \<^verbatim>\<open>killer\<close>, which takes the scheduling lock and then calls \<^verbatim>\<open>doKill\<close>, which takes it again: \<^verbatim>\<open>killer\<close>
  never returns while there is a current task.
\<close>

theorem killer_deadlocks:
  assumes "sched_ready pm c tc vs" "distinct vs" "vs \<noteq> []"
  shows "(hd vs \<noteq> Some c \<longrightarrow> (\<exists>pm'. ProcessManager_doKill pm = Some pm' \<and>
      List_is (pm_tasks pm') (filter (\<lambda>p. p \<noteq> Some c) vs) \<and> pm_sched_lock pm' = 0 \<and> pm_store pm' = pm_store pm)) \<and>
    (hd vs = Some c \<longrightarrow> ProcessManager_doKill pm = None) \<and> ProcessManager_killer pm = None"
proof (intro conjI impI)
  have r: "List_is (pm_tasks pm) vs" "pm_current pm = Some c" "pm_sched_lock pm = 0"
    using assms(1) by (auto simp: sched_ready_def)
  obtain v vs' where vs: "vs = v # vs'"
    using assms(3) by (cases vs) auto
  show "ProcessManager_killer pm = None"
    using r by (simp add: ProcessManager_killer_def ProcessManager_doKill_def sched_lock_def)
  show "ProcessManager_doKill pm = None" if "hd vs = Some c"
    using r vs that List_deleteAll_head [of "pm_tasks pm" "Some c" vs'] by (simp add: ProcessManager_doKill_def sched_lock_def)
  show "\<exists>pm'. ProcessManager_doKill pm = Some pm' \<and>
      List_is (pm_tasks pm') (filter (\<lambda>p. p \<noteq> Some c) vs) \<and> pm_sched_lock pm' = 0 \<and> pm_store pm' = pm_store pm"
    if h: "hd vs \<noteq> Some c"
  proof -
    have "successively (\<lambda>x y. \<not> (x = Some c \<and> y = Some c)) vs'"
      using assms(2) vs by (intro distinct_successively) simp
    then obtain l' where "List_deleteAll (Some c) (pm_tasks pm) = Some l'" "List_is l' (filter (\<lambda>p. p \<noteq> Some c) vs)"
      using List_is_deleteAll [of "pm_tasks pm" v vs' "Some c"] deleteAll_behind_filter [of "\<lambda>x. x = Some c" vs'] r(1) vs h by auto
    then show ?thesis
      using r by (auto simp: ProcessManager_doKill_def sched_lock_def sched_unlock_def)
  qed
qed

theorem killer_deadlocks_witness:
  "ProcessManager_killer (two_tasks STATUS_WAITING) = None \<and>
   (\<exists>pm'. ProcessManager_doKill (two_tasks STATUS_WAITING) = Some pm' \<and> List_is (pm_tasks pm') [Some 1])"
  using killer_deadlocks [OF two_tasks_ready [of STATUS_WAITING]] by auto

text \<open>
  \<^verbatim>\<open>Timer::wait(n)\<close> returns, once the tick counter reaches \<open>now + n\<close>, at the first poll that sees it
  there, provided the sum does not wrap.  If it wraps, \<^verbatim>\<open>wait\<close> returns at its second poll without waiting
  when the counter has not moved yet.  \<^verbatim>\<open>usleep\<close> divides by ten million: at 1000 Hz one second's worth
  of microseconds is 100 ticks, while \<^verbatim>\<open>sleep\<close> and \<^verbatim>\<open>msleep\<close> give 1000.
\<close>

theorem Timer_wait_behaviour:
  "(unat n + unat (ticks 0) < 2 ^ 32 \<and> 1 \<le> m \<and> n + ticks 0 \<le> ticks m \<longrightarrow>
     (\<exists>k. Timer_wait ticks n = Some k \<and> 1 \<le> k \<and> k \<le> m \<and> n + ticks 0 \<le> ticks k \<and>
       (\<forall>i. 1 \<le> i \<and> i < k \<longrightarrow> ticks i < n + ticks 0))) \<and>
   (2 ^ 32 \<le> unat n + unat (ticks 0) \<and> ticks 1 = ticks 0 \<and> ticks 2 = ticks 0 \<longrightarrow> Timer_wait ticks n = Some 2) \<and>
   Timer_usleep_ticks 1000 1000000 = 100 \<and> Timer_msleep_ticks 1000 1000 = 1000 \<and> Timer_sleep_ticks 1000 1 = 1000"
  using Timer_wait_reaches [of n ticks m] Timer_wait_wraps [of n ticks]
  by (simp add: Timer_usleep_ticks_def Timer_msleep_ticks_def Timer_sleep_ticks_def del: One_nat_def)

theorem Timer_wait_behaviour_witness:
  "(\<exists>k. Timer_wait of_nat 5 = Some k \<and> k \<le> 7) \<and> Timer_wait (\<lambda>_. 3) 4294967295 = Some 2"
  using Timer_wait_behaviour [of 5 of_nat 7] Timer_wait_behaviour [of 4294967295 "\<lambda>_. 3" 1] by auto

end
