(* ===== verification/Paging_X86.thy ===== *)
theory Paging_X86
  imports Bitmap
begin

text \<open>
  Paging on i386: classes \<^verbatim>\<open>Page\<close>, \<^verbatim>\<open>PageTable\<close>, \<^verbatim>\<open>PageDir\<close> and \<^verbatim>\<open>PagingPrivate\<close> of
  \<^verbatim>\<open>arch/x86/pagingx86.cpp\<close> and the front end \<^verbatim>\<open>Paging\<close> of \<^verbatim>\<open>src/paging.cpp\<close>.

  A page table entry is a 32-bit word and a page table a list of 1024 of them; a \<^verbatim>\<open>Page*\<close> is the pair
  of the table's index and the entry's.  The state has the frame bitmap (\<^verbatim>\<open>data\<close>), the tables and
  their physical addresses (\<^verbatim>\<open>directory\<close>), and the static variables.  Page tables are kept apart from
  the memory they occupy.  \<^term>\<open>None\<close> is a loop that never ends (as in \<^verbatim>\<open>mapFrame\<close> when no frame is
  left), an access outside the bitmap, or a use of the bitmap while \<^verbatim>\<open>data\<close> is \<^verbatim>\<open>nullptr\<close>: \<open>pg_data\<close> tells that it
  is not, and only then \<open>pg_bits\<close> has a meaning.  The locks around the operations are the subject of theory
  \<open>Task_Sync\<close>; loading the page directory register and switching paging on are not modelled.
\<close>

section \<open>Page table entries\<close>

definition PAGES_PER_TABLE :: nat where "PAGES_PER_TABLE = 1024"
definition TABLES_PER_DIRECTORY :: nat where "TABLES_PER_DIRECTORY = 1024"
definition PAGING_MAP_USER :: u32 where "PAGING_MAP_USER = 4"
definition PAGING_MAP_R0 :: u32 where "PAGING_MAP_R0 = 3"
definition PAGING_MAP_R2 :: u32 where "PAGING_MAP_R2 = 7"
definition KERNEL_INIT_SIZE :: u32 where "KERNEL_INIT_SIZE = 0xFFFFF"
definition HEAP_START :: u32 where "HEAP_START = 0x30000000"
definition USER_HEAP_START :: u32 where "USER_HEAP_START = 0xD0000000"

datatype map_type = MapPageKernel | MapPageUser
datatype map_permissions = MapPageReadOnly | MapPageRW
datatype page_type = KernelPage | UserPage

definition Page_getPresent :: "u32 \<Rightarrow> bool" where "Page_getPresent v \<longleftrightarrow> v AND 1 \<noteq> 0"
definition Page_getRw :: "u32 \<Rightarrow> bool" where "Page_getRw v \<longleftrightarrow> drop_bit 1 v AND 1 \<noteq> 0"
definition Page_getUserspace :: "u32 \<Rightarrow> bool" where "Page_getUserspace v \<longleftrightarrow> drop_bit 2 v AND 1 \<noteq> 0"
definition Page_getAccessed :: "u32 \<Rightarrow> bool" where "Page_getAccessed v \<longleftrightarrow> drop_bit 3 v AND 1 \<noteq> 0"
definition Page_getDirty :: "u32 \<Rightarrow> bool" where "Page_getDirty v \<longleftrightarrow> drop_bit 4 v AND 1 \<noteq> 0"
definition Page_getAddress :: "u32 \<Rightarrow> u32" where "Page_getAddress v = v AND 0xFFFFF000"

definition Page_setPresent :: "bool \<Rightarrow> u32 \<Rightarrow> u32" where
  "Page_setPresent is v = (if is then v OR 1 else v AND NOT 1)"
definition Page_setRw :: "bool \<Rightarrow> u32 \<Rightarrow> u32" where
  "Page_setRw is v = (if is then v OR push_bit 1 1 else v AND NOT (push_bit 1 1))"
definition Page_setUserspace :: "bool \<Rightarrow> u32 \<Rightarrow> u32" where
  "Page_setUserspace is v = (if is then v OR push_bit 2 1 else v AND NOT (push_bit 2 1))"
definition Page_setAccessed :: "bool \<Rightarrow> u32 \<Rightarrow> u32" where
  "Page_setAccessed is v = (if is then v OR push_bit 3 1 else v AND NOT (push_bit 3 1))"
definition Page_setDirty :: "bool \<Rightarrow> u32 \<Rightarrow> u32" where
  "Page_setDirty is v = (if is then v OR push_bit 4 1 else v AND NOT (push_bit 4 1))"
definition Page_setAddress :: "u32 \<Rightarrow> u32 \<Rightarrow> u32" where
  "Page_setAddress adr v = (adr AND 0xFFFFF000) OR (v AND 0xFFF)"
definition Page_isAvail :: "u32 \<Rightarrow> bool" where
  "Page_isAvail v \<longleftrightarrow> Page_getAddress v = 0 \<and> \<not> Page_getPresent v"

section \<open>The state\<close>

record paging =
  pg_bits :: bitmap
  pg_tables :: "nat \<rightharpoonup> u32 list"
  pg_tablesPhys :: "nat \<Rightarrow> u32"
  free_page_address :: u32
  heap_address :: u32
  user_heap_address :: u32
  mem_size :: u32
  page_cnt :: u32
  pg_is_ok :: bool
  pg_data :: bool

type_synonym page_ref = "(nat \<times> nat) option"

definition page_get :: "nat \<times> nat \<Rightarrow> paging \<Rightarrow> u32 option" where
  "page_get p pg = do {
     t \<leftarrow> pg_tables pg (fst p);
     (if snd p < length t then Some (t ! snd p) else None) }"

definition page_put :: "nat \<times> nat \<Rightarrow> u32 \<Rightarrow> paging \<Rightarrow> paging option" where
  "page_put p v pg = do {
     t \<leftarrow> pg_tables pg (fst p);
     (if snd p < length t
      then Some (pg\<lparr>pg_tables := (pg_tables pg)(fst p \<mapsto> t[snd p := v])\<rparr>) else None) }"

text \<open>\<^verbatim>\<open>BITS(data)->\<close>.\<close>

definition bits_data :: "paging \<Rightarrow> bitmap option" where
  "bits_data pg = (if pg_data pg then Some (pg_bits pg) else None)"

definition bits_isSet :: "u32 \<Rightarrow> paging \<Rightarrow> bool option" where
  "bits_isSet i pg = do { b \<leftarrow> bits_data pg; Bits_isSet i b }"

definition bits_set :: "u32 \<Rightarrow> paging \<Rightarrow> paging option" where
  "bits_set i pg = do { b \<leftarrow> bits_data pg; (r, b) \<leftarrow> Bits_set i b; Some (pg\<lparr>pg_bits := b\<rparr>) }"

definition bits_clear :: "u32 \<Rightarrow> paging \<Rightarrow> paging option" where
  "bits_clear i pg = do { b \<leftarrow> bits_data pg; (r, b) \<leftarrow> Bits_clear i b; Some (pg\<lparr>pg_bits := b\<rparr>) }"

definition bits_find :: "paging \<Rightarrow> ((bool \<times> u32) \<times> paging) option" where
  "bits_find pg = do { b \<leftarrow> bits_data pg; (r, b) \<leftarrow> Bits_findUnset b; Some (r, pg\<lparr>pg_bits := b\<rparr>) }"

section \<open>Static allocation\<close>

partial_function (option) PagingPrivate_pageAlign :: "u32 \<Rightarrow> paging \<Rightarrow> paging option" where
  "PagingPrivate_pageAlign align pg =
     (if free_page_address pg AND (align - 1) \<noteq> 0 then do {
        pg \<leftarrow> bits_set (free_page_address pg div PAGE_SIZE) pg;
        PagingPrivate_pageAlign align (pg\<lparr>free_page_address := free_page_address pg + 1\<rparr>) }
      else Some pg)"

definition mark_if_unset :: "u32 \<Rightarrow> paging \<Rightarrow> paging option" where
  "mark_if_unset i pg = do {
     s \<leftarrow> bits_isSet i pg;
     (if s then Some pg else bits_set i pg) }"

definition PagingPrivate_freePageAddress :: "paging \<Rightarrow> (u32 \<times> paging) option" where
  "PagingPrivate_freePageAddress pg = do {
     pg \<leftarrow> mark_if_unset (free_page_address pg div PAGE_SIZE) pg;
     Some (free_page_address pg, pg) }"

text \<open>The loop \<^verbatim>\<open>while (i <= target)\<close>, with \<open>n\<close> the number of values from \<open>i\<close> to \<open>target\<close>.\<close>

fun mark_range :: "nat \<Rightarrow> u32 \<Rightarrow> paging \<Rightarrow> paging option" where
  "mark_range 0 i pg = Some pg"
| "mark_range (Suc n) i pg = do { pg \<leftarrow> mark_if_unset i pg; mark_range n (i + 1) pg }"

definition PagingPrivate_incFreePageAddress :: "u32 \<Rightarrow> paging \<Rightarrow> paging option" where
  "PagingPrivate_incFreePageAddress sz pg = do {
     let i = free_page_address pg div PAGE_SIZE;
     let target = (free_page_address pg + sz) div PAGE_SIZE;
     pg \<leftarrow> mark_range (unat target + 1 - unat i) i pg;
     Some (pg\<lparr>free_page_address := free_page_address pg + sz\<rparr>) }"

definition Paging_allocStatic :: "u32 \<Rightarrow> paging \<Rightarrow> (u32 \<times> paging) option" where
  "Paging_allocStatic sz pg = do {
     pg \<leftarrow> PagingPrivate_pageAlign PAGE_SIZE pg;
     (tmp, pg) \<leftarrow> PagingPrivate_freePageAddress pg;
     pg \<leftarrow> PagingPrivate_incFreePageAddress sz pg;
     Some (tmp, pg) }"

section \<open>The page directory\<close>

definition PageTable_new :: "u32 list" where
  "PageTable_new = replicate PAGES_PER_TABLE 0"

definition PageTable_get :: "nat \<Rightarrow> u32 \<Rightarrow> page_ref" where
  "PageTable_get index i = (if unat i < PAGES_PER_TABLE then Some (index, unat i) else None)"

text \<open>
  \<^verbatim>\<open>new (&physPtr) PageTable()\<close> allocates statically and stores the address in \<^verbatim>\<open>physPtr\<close>; at address
  0 it would be \<^verbatim>\<open>nullptr\<close>.
\<close>

definition PageDir_getPage :: "u32 \<Rightarrow> bool \<Rightarrow> paging \<Rightarrow> (page_ref \<times> paging) option" where
  "PageDir_getPage addr reserve pg = do {
     let addr = addr div PAGE_SIZE;
     let index = unat addr div PAGES_PER_TABLE;
     (if pg_tables pg index \<noteq> None
      then Some (PageTable_get index (addr mod of_nat PAGES_PER_TABLE), pg)
      else if reserve then do {
        (phys, pg) \<leftarrow> Paging_allocStatic 4096 pg;
        (if phys = 0 then Some (None, pg)
         else Some (PageTable_get index (addr mod of_nat PAGES_PER_TABLE),
           pg\<lparr>pg_tables := (pg_tables pg)(index \<mapsto> PageTable_new),
              pg_tablesPhys := (pg_tablesPhys pg)(index := phys OR PAGING_MAP_R2)\<rparr>)) }
      else Some (None, pg)) }"

definition PageDir_getTable :: "u32 \<Rightarrow> paging \<Rightarrow> u32 list option" where
  "PageDir_getTable i pg = (if unat i < TABLES_PER_DIRECTORY then pg_tables pg (unat i) else None)"

section \<open>Mapping\<close>

text \<open>The entry \<^verbatim>\<open>identityMapFrame\<close> and \<^verbatim>\<open>mapFrame\<close> write over the entry \<open>v\<close>.\<close>

definition frame_entry :: "u32 \<Rightarrow> map_type \<Rightarrow> map_permissions \<Rightarrow> u32 \<Rightarrow> u32" where
  "frame_entry addr type perms v =
     Page_setAddress addr (Page_setUserspace (type \<noteq> MapPageKernel) (Page_setRw (perms = MapPageRW) (Page_setPresent True v)))"

definition PagingPrivate_identityMapFrame ::
  "page_ref \<Rightarrow> u32 \<Rightarrow> map_type \<Rightarrow> map_permissions \<Rightarrow> paging \<Rightarrow> (bool \<times> paging) option" where
  "PagingPrivate_identityMapFrame p addr type perms pg =
     (case p of None \<Rightarrow> Some (False, pg)
      | Some p \<Rightarrow> do {
          let i = addr div PAGE_SIZE;
          s \<leftarrow> bits_isSet i pg;
          pg \<leftarrow> bits_set i pg;
          v \<leftarrow> page_get p pg;
          pg \<leftarrow> page_put p (frame_entry addr type perms v) pg;
          Some (\<not> s, pg) })"

definition PagingPrivate_identityMap :: "u32 \<Rightarrow> map_type \<Rightarrow> map_permissions \<Rightarrow> paging \<Rightarrow> (bool \<times> paging) option" where
  "PagingPrivate_identityMap addr type perms pg = do {
     (p, pg) \<leftarrow> PageDir_getPage addr True pg;
     PagingPrivate_identityMapFrame p addr type perms pg }"

definition PagingPrivate_mapFrame :: "page_ref \<Rightarrow> map_type \<Rightarrow> map_permissions \<Rightarrow> paging \<Rightarrow> (bool \<times> paging) option" where
  "PagingPrivate_mapFrame p type perms pg =
     (case p of None \<Rightarrow> Some (False, pg)
      | Some p \<Rightarrow> do {
          v \<leftarrow> page_get p pg;
          (if \<not> Page_isAvail v then Some (True, pg)
           else do {
             ((ok, i), pg) \<leftarrow> bits_find pg;
             (if \<not> ok then None
              else do {
                pg \<leftarrow> bits_set i pg;
                pg \<leftarrow> page_put p (frame_entry (i * PAGE_SIZE) type perms v) pg;
                Some (True, pg) }) }) })"

definition PagingPrivate_getPage :: "paging \<Rightarrow> (u32 \<times> paging) option" where
  "PagingPrivate_getPage pg = do {
     ((ok, i), pg) \<leftarrow> bits_find pg;
     (if \<not> ok then Some (0, pg)
      else do { pg \<leftarrow> bits_set i pg; Some (i * PAGE_SIZE, pg) }) }"

definition PagingPrivate_freePage :: "u32 \<Rightarrow> paging \<Rightarrow> paging option" where
  "PagingPrivate_freePage p pg = bits_clear (p div PAGE_SIZE) pg"

definition Page_alloc :: "page_type \<Rightarrow> u32 \<Rightarrow> paging \<Rightarrow> (u32 \<times> paging) option" where
  "Page_alloc type v pg =
     (if \<not> Page_isAvail v then Some (v, pg)
      else do {
        (page, pg) \<leftarrow> PagingPrivate_getPage pg;
        (if page = 0 then Some (v, pg)
         else Some (Page_setUserspace (type \<noteq> KernelPage) (Page_setRw True (Page_setPresent True (Page_setAddress page v))), pg)) })"

partial_function (option) align_up :: "u32 \<Rightarrow> u32 option" where
  "align_up h = (if h mod PAGE_SIZE \<noteq> 0 then align_up (h + 1) else Some h)"

definition next_heap :: "u32 \<Rightarrow> paging \<Rightarrow> u32" where
  "next_heap flags pg = (if flags AND PAGING_MAP_USER \<noteq> 0 then user_heap_address pg else heap_address pg)"

definition set_heap :: "u32 \<Rightarrow> u32 \<Rightarrow> paging \<Rightarrow> paging" where
  "set_heap flags h pg =
     (if flags AND PAGING_MAP_USER \<noteq> 0 then pg\<lparr>user_heap_address := h\<rparr> else pg\<lparr>heap_address := h\<rparr>)"

definition heap_type :: "u32 \<Rightarrow> map_type" where
  "heap_type flags = (if flags AND PAGING_MAP_USER \<noteq> 0 then MapPageUser else MapPageKernel)"

definition page_avail :: "page_ref \<Rightarrow> paging \<Rightarrow> bool option" where
  "page_avail p pg = (case p of None \<Rightarrow> Some False | Some p \<Rightarrow> map_option Page_isAvail (page_get p pg))"

definition PagingPrivate_mapPhys :: "u32 \<Rightarrow> u32 \<Rightarrow> paging \<Rightarrow> ((bool \<times> u32 option) \<times> paging) option" where
  "PagingPrivate_mapPhys phys flags pg = do {
     i \<leftarrow> align_up (next_heap flags pg);
     let pg = set_heap flags (i + PAGE_SIZE) pg;
     (p, pg) \<leftarrow> PageDir_getPage i True pg;
     av \<leftarrow> page_avail p pg;
     (if \<not> av then Some ((False, None), pg)
      else do {
        (res, pg) \<leftarrow> PagingPrivate_identityMapFrame p phys (heap_type flags) MapPageRW pg;
        Some ((res, Some i), pg) }) }"

fun advance :: "nat \<Rightarrow> u32 \<Rightarrow> u32" where
  "advance 0 h = h"
| "advance (Suc left) h = advance left (h + PAGE_SIZE)"

fun map_pages :: "u32 \<Rightarrow> nat \<Rightarrow> u32 \<Rightarrow> paging \<Rightarrow> (bool \<times> paging) option" where
  "map_pages flags 0 i pg = Some (True, pg)"
| "map_pages flags (Suc cnt) i pg = do {
     (p, pg) \<leftarrow> PageDir_getPage i True pg;
     av \<leftarrow> page_avail p pg;
     (if \<not> av then Some (False, pg)
      else do {
        (r, pg) \<leftarrow> PagingPrivate_mapFrame p (heap_type flags) MapPageRW pg;
        (if \<not> r then Some (False, pg) else map_pages flags cnt (i + PAGE_SIZE) pg) }) }"

definition PagingPrivate_map :: "u32 \<Rightarrow> u32 \<Rightarrow> paging \<Rightarrow> ((bool \<times> u32 option) \<times> paging) option" where
  "PagingPrivate_map flags cnt pg = do {
     i \<leftarrow> align_up (next_heap flags pg);
     let pg = set_heap flags (advance (unat cnt) i) pg;
     (r, pg) \<leftarrow> map_pages flags (unat cnt) i pg;
     Some ((r, if r then Some i else None), pg) }"

definition PagingPrivate_unmap :: "u32 \<Rightarrow> paging \<Rightarrow> (u32 \<times> paging) option" where
  "PagingPrivate_unmap p pg = do {
     let i = p div PAGE_SIZE;
     (pr, pg) \<leftarrow> PageDir_getPage i False pg;
     (case pr of None \<Rightarrow> Some (0, pg)
      | Some pr \<Rightarrow> do {
          v \<leftarrow> page_get pr pg;
          let unmap_index = Page_getAddress v div PAGE_SIZE;
          pg \<leftarrow> page_put pr (Page_setAddress 0 (Page_setUserspace False (Page_setRw False (Page_setPresent False v)))) pg;
          pg \<leftarrow> bits_clear unmap_index pg;
          Some (0, pg) }) }"

section \<open>The front end\<close>

definition Paging_alloc :: "u32 \<Rightarrow> paging \<Rightarrow> (u32 \<times> paging) option" where
  "Paging_alloc cnt pg = do {
     ((r, pos), pg) \<leftarrow> PagingPrivate_map PAGING_MAP_R0 cnt pg;
     Some (if r then (case pos of None \<Rightarrow> 0 | Some v \<Rightarrow> v) else 0, pg) }"

fun Paging_free :: "u32 \<Rightarrow> nat \<Rightarrow> paging \<Rightarrow> paging option" where
  "Paging_free p 0 pg = Some pg"
| "Paging_free p (Suc cnt) pg = do {
     (q, pg) \<leftarrow> PagingPrivate_unmap p pg;
     pg \<leftarrow> PagingPrivate_freePage q pg;
     Paging_free (p + PAGE_SIZE) cnt pg }"

text \<open>What \<^verbatim>\<open>Paging::map\<close> leaves in \<^verbatim>\<open>*virt\<close>, if it writes there at all.\<close>

definition Paging_map :: "u32 \<Rightarrow> u32 \<Rightarrow> paging \<Rightarrow> (u32 option \<times> paging) option" where
  "Paging_map phys flags pg = do {
     ((r, virt), pg) \<leftarrow> PagingPrivate_mapPhys phys flags pg;
     Some (if r then virt else Some 0, pg) }"

section \<open>Initialisation\<close>

text \<open>
  The scan of the boot loader's memory map.  \<open>mem a\<close> is the word at address \<open>a\<close>; the fields of an
  entry are at offsets 0 (size), 4 (base), 12 (length) and 20 (type).  The code also computes \<^verbatim>\<open>addr\<close>
  and \<^verbatim>\<open>limit\<close>, which it does not use.
\<close>

partial_function (option) mmap_scan :: "(u32 \<Rightarrow> u32) \<Rightarrow> u32 \<Rightarrow> u32 \<Rightarrow> u32 \<Rightarrow> u32 option" where
  "mmap_scan mem info_end mmap msize =
     (if mmap + mem mmap < info_end then do {
        let top = mem (mmap + 4) + mem (mmap + 12);
        let msize = (if top > msize then top else msize);
        (if mem (mmap + 20) \<in> {1, 2, 3}
         then mmap_scan mem info_end (mmap + mem mmap + 4) msize
         else Some msize) }
      else Some msize)"

partial_function (option) reserve_loop :: "u32 \<Rightarrow> u32 \<Rightarrow> paging \<Rightarrow> paging option" where
  "reserve_loop lim i pg =
     (if i < lim then do {
        (p, pg) \<leftarrow> PageDir_getPage i True pg;
        reserve_loop lim (i + PAGE_SIZE) pg }
      else Some pg)"

partial_function (option) identity_loop :: "(paging \<Rightarrow> u32) \<Rightarrow> u32 \<Rightarrow> paging \<Rightarrow> paging option" where
  "identity_loop lim i pg =
     (if i < lim pg then do {
        (p, pg) \<leftarrow> PageDir_getPage i True pg;
        (r, pg) \<leftarrow> PagingPrivate_identityMapFrame p i MapPageKernel MapPageRW pg;
        identity_loop lim (i + PAGE_SIZE) pg }
      else Some pg)"

record boot_info =
  bi_mmap_addr :: u32
  bi_mmap_length :: u32
  bi_mem :: "u32 \<Rightarrow> u32"

text \<open>
  The constructor, and \<^verbatim>\<open>init\<close>.  The two allocations of \<^verbatim>\<open>new Bits\<close> (the object and its words) run while \<^verbatim>\<open>data\<close> is
  still \<^verbatim>\<open>nullptr\<close>.  \<open>init_mapping\<close> is the rest of \<^verbatim>\<open>init\<close>, from \<^verbatim>\<open>new PageDir()\<close> on.  \<open>junk\<close> is what the
  memory of the new bitmap holds; \<open>stack_bottom\<close> is the address of \<^verbatim>\<open>__stack_bottom\<close> and \<open>stack_top\<close>
  the word at \<^verbatim>\<open>__stack_top\<close>.
\<close>

definition PagingPrivate_new :: "u32 \<Rightarrow> paging" where
  "PagingPrivate_new my_kernel_end = \<lparr>pg_bits = Bits_new (\<lambda>_. 0) 0, pg_tables = Map.empty, pg_tablesPhys = (\<lambda>_. 0),
     free_page_address = my_kernel_end, heap_address = HEAP_START, user_heap_address = USER_HEAP_START,
     mem_size = 0, page_cnt = 0, pg_is_ok = False, pg_data = False\<rparr>"

definition map_low_memory :: "u32 \<Rightarrow> u32 \<Rightarrow> paging \<Rightarrow> paging option" where
  "map_low_memory stack_bottom stack_top pg = do {
     pg \<leftarrow> identity_loop (\<lambda>_. 0x10000) 1 pg;
     pg \<leftarrow> identity_loop (\<lambda>_. 0xBFFFF) 0xA0000 pg;
     pg \<leftarrow> identity_loop (\<lambda>_. 0xC7FFF) 0xC0000 pg;
     pg \<leftarrow> identity_loop (\<lambda>_. 0xEFFFF) 0xC8000 pg;
     pg \<leftarrow> identity_loop (\<lambda>_. 0xFFFFF) 0xF0000 pg;
     pg \<leftarrow> identity_loop free_page_address 0x100000 pg;
     pg \<leftarrow> identity_loop (\<lambda>_. stack_top) stack_bottom pg;
     let start = free_page_address pg;
     identity_loop (\<lambda>_. start + KERNEL_INIT_SIZE) start pg }"

definition init_mapping :: "u32 \<Rightarrow> u32 \<Rightarrow> paging \<Rightarrow> (bool \<times> paging) option" where
  "init_mapping stack_bottom stack_top pg = do {
     (d, pg) \<leftarrow> Paging_allocStatic 8196 pg;
     (if d = 0 then None
      else do {
        let pg = pg\<lparr>pg_tables := Map.empty, pg_tablesPhys := (\<lambda>_. 0)\<rparr>;
        pg \<leftarrow> reserve_loop (HEAP_START + KERNEL_INIT_SIZE) HEAP_START pg;
        pg \<leftarrow> reserve_loop (USER_HEAP_START + KERNEL_INIT_SIZE) USER_HEAP_START pg;
        pg \<leftarrow> map_low_memory stack_bottom stack_top pg;
        Some (True, pg\<lparr>pg_is_ok := True\<rparr>) }) }"

definition PagingPrivate_init ::
  "(nat \<Rightarrow> u32) \<Rightarrow> u32 \<Rightarrow> u32 \<Rightarrow> boot_info option \<Rightarrow> paging \<Rightarrow> (bool \<times> paging) option" where
  "PagingPrivate_init junk stack_bottom stack_top info pg =
     (if pg_data pg then Some (False, pg)
      else do {
        let pg = pg\<lparr>pg_is_ok := False\<rparr>;
        ms \<leftarrow> (case info of None \<Rightarrow> Some (mem_size pg)
               | Some bi \<Rightarrow> mmap_scan (bi_mem bi) (bi_mmap_addr bi + bi_mmap_length bi) (bi_mmap_addr bi) (mem_size pg));
        let pg = pg\<lparr>mem_size := ms, page_cnt := ms div PAGE_SIZE\<rparr>;
        let b = Bits_new junk (page_cnt pg);
        (_, pg) \<leftarrow> Paging_allocStatic 16 pg;
        (_, pg) \<leftarrow> Paging_allocStatic (4 * m_len b) pg;
        init_mapping stack_bottom stack_top (pg\<lparr>pg_bits := b, pg_data := True\<rparr>) })"

section \<open>Bits of an entry\<close>

lemma page_mask: "(0xFFFFF000 :: u32) = NOT (mask 12)"
  by (simp add: mask_eq_exp_minus_1)

lemma low_mask: "(0xFFF :: u32) = mask 12"
  by (simp add: mask_eq_exp_minus_1)

lemma and_page_mask: "(v :: u32) AND NOT (mask 12) = push_bit 12 (drop_bit 12 v)"
  by (rule bit_word_eqI) (auto simp: bit_and_iff bit_not_iff bit_mask_iff bit_push_bit_iff bit_drop_bit_eq)

lemma unat_getAddress: "unat (Page_getAddress v) = unat v div 4096 * 4096"
proof -
  have "unat v div 4096 * 4096 < 2 ^ 32"
    using unat_u32_less [of v] by (metis div_times_less_eq_dividend le_less_trans)
  then show ?thesis
    using unat_mult_lem [of "v div 4096" 4096]
    by (simp add: Page_getAddress_def page_mask and_page_mask push_bit_eq_mult drop_bit_eq_div unat_div)
qed

lemma odd_and_one: "(v :: u32) AND 1 \<noteq> 0 \<longleftrightarrow> bit v 0"
  by (simp add: and_one_eq bit_0 odd_iff_mod_2_eq_one)

lemmas page_flags = Page_getPresent_def Page_getRw_def Page_getUserspace_def Page_getAccessed_def Page_getDirty_def
  odd_and_one bit_drop_bit_eq

lemma bit_set_flag:
  "k < 32 \<Longrightarrow> bit (if x then (v :: u32) OR push_bit k 1 else v AND NOT (push_bit k 1)) n \<longleftrightarrow> (if n = k then x else bit v n)"
  by (auto simp: bit_or_iff bit_and_iff bit_not_iff bit_mask_iff_u32 dest: bit_imp_le_length)

lemma bit_setters [simp]:
  "bit (Page_setPresent x v) n \<longleftrightarrow> (if n = 0 then x else bit v n)" "bit (Page_setRw x v) n \<longleftrightarrow> (if n = 1 then x else bit v n)"
  "bit (Page_setUserspace x v) n \<longleftrightarrow> (if n = 2 then x else bit v n)" "bit (Page_setAccessed x v) n \<longleftrightarrow> (if n = 3 then x else bit v n)"
  "bit (Page_setDirty x v) n \<longleftrightarrow> (if n = 4 then x else bit v n)"
  using bit_set_flag [of 0 x v n] bit_set_flag [of 1 x v n] bit_set_flag [of 2 x v n] bit_set_flag [of 3 x v n]
    bit_set_flag [of 4 x v n]
  by (simp_all only: Page_setPresent_def Page_setRw_def Page_setUserspace_def Page_setAccessed_def Page_setDirty_def
      push_bit_0_id id_apply)

lemma bit_getAddress [simp]: "bit (Page_getAddress v) n \<longleftrightarrow> bit v n \<and> 12 \<le> n"
  by (auto simp: Page_getAddress_def page_mask bit_and_iff bit_not_iff bit_mask_iff dest: bit_imp_le_length)

lemma bit_setAddress [simp]: "bit (Page_setAddress a v) n \<longleftrightarrow> (if 12 \<le> n then bit a n else bit v n)"
  by (auto simp: Page_setAddress_def page_mask low_mask bit_or_iff bit_and_iff bit_not_iff bit_mask_iff dest: bit_imp_le_length)

lemma Page_flags_roundtrip:
  "Page_getPresent (Page_setPresent x v) = x" "Page_getRw (Page_setRw x v) = x"
  "Page_getUserspace (Page_setUserspace x v) = x" "Page_getAccessed (Page_setAccessed x v) = x"
  "Page_getDirty (Page_setDirty x v) = x"
  by (simp_all add: page_flags)

lemma getAddress_setters [simp]:
  "Page_getAddress (Page_setPresent x v) = Page_getAddress v" "Page_getAddress (Page_setRw x v) = Page_getAddress v"
  "Page_getAddress (Page_setUserspace x v) = Page_getAddress v" "Page_getAddress (Page_setAccessed x v) = Page_getAddress v"
  "Page_getAddress (Page_setDirty x v) = Page_getAddress v" "Page_getAddress (Page_setAddress a v) = Page_getAddress a"
  by (rule bit_word_eqI; fastforce)+

lemma flags_setAddress [simp]:
  "Page_getPresent (Page_setAddress a v) = Page_getPresent v" "Page_getRw (Page_setAddress a v) = Page_getRw v"
  "Page_getUserspace (Page_setAddress a v) = Page_getUserspace v" "Page_getAccessed (Page_setAddress a v) = Page_getAccessed v"
  "Page_getDirty (Page_setAddress a v) = Page_getDirty v"
  by (simp_all add: page_flags)

lemma frame_entry_fields [simp]:
  "Page_getPresent (frame_entry a ty pe v)" "Page_getRw (frame_entry a ty pe v) \<longleftrightarrow> pe = MapPageRW"
  "Page_getUserspace (frame_entry a ty pe v) \<longleftrightarrow> ty = MapPageUser" "Page_getAddress (frame_entry a ty pe v) = Page_getAddress a"
  by (cases ty; simp add: frame_entry_def page_flags)+

section \<open>The frame bitmap as an interface\<close>

text \<open>What paging relies on: a set of frames below a capacity, and a search that finds a frame not in it.\<close>

locale frame_bitmap =
  fixes inv :: "'b \<Rightarrow> bool" and used :: "'b \<Rightarrow> nat set" and cap :: "'b \<Rightarrow> nat"
    and is_set :: "u32 \<Rightarrow> 'b \<Rightarrow> bool option" and set_b :: "u32 \<Rightarrow> 'b \<Rightarrow> (bool \<times> 'b) option"
    and clear_b :: "u32 \<Rightarrow> 'b \<Rightarrow> (bool \<times> 'b) option" and find_b :: "'b \<Rightarrow> ((bool \<times> u32) \<times> 'b) option"
  assumes is_set_law: "inv b \<Longrightarrow> is_set i b = Some (unat i \<in> used b)"
    and set_law: "inv b \<Longrightarrow> \<exists>r b'. set_b i b = Some (r, b') \<and> inv b' \<and> cap b' = cap b \<and>
      used b' = used b \<union> ({unat i} \<inter> {..<cap b})"
    and clear_law: "inv b \<Longrightarrow> \<exists>r b'. clear_b i b = Some (r, b') \<and> inv b' \<and> cap b' = cap b \<and> used b' = used b - {unat i}"
    and find_law: "inv b \<Longrightarrow> \<exists>ok i b'. find_b b = Some ((ok, i), b') \<and> inv b' \<and> cap b' = cap b \<and> used b' = used b \<and>
      (if ok then unat i < cap b \<and> unat i \<notin> used b else (\<forall>k < cap b. k mod 32 \<noteq> 31 \<longrightarrow> k \<in> used b))"
    and used_cap: "inv b \<Longrightarrow> used b \<subseteq> {..<cap b}"
begin

definition avail :: "'b \<Rightarrow> nat" where
  "avail b = card {k. k < cap b \<and> k mod 32 \<noteq> 31 \<and> k \<notin> used b}"

definition marked :: "'b \<Rightarrow> 'b \<Rightarrow> nat set \<Rightarrow> bool" where
  "marked b b' F \<longleftrightarrow> inv b' \<and> cap b' = cap b \<and> used b' = used b \<union> (F \<inter> {..<cap b})"

lemma marked_refl: "inv b \<Longrightarrow> marked b b {}"
  by (simp add: marked_def)

lemma marked_present: "inv b \<Longrightarrow> F \<subseteq> used b \<Longrightarrow> marked b b F"
  using used_cap by (auto simp: marked_def)

lemma marked_trans: "marked b b' F \<Longrightarrow> marked b' b'' G \<Longrightarrow> marked b b'' (F \<union> G)"
  by (auto simp: marked_def)

lemma set_marked: "inv b \<Longrightarrow> \<exists>r b'. set_b i b = Some (r, b') \<and> marked b b' {unat i}"
  using set_law [of b i] by (auto simp: marked_def)

lemma avail_marked:
  assumes "marked b b' F" "finite F"
  shows "avail b \<le> avail b' + card F"
proof -
  have "{k. k < cap b \<and> k mod 32 \<noteq> 31 \<and> k \<notin> used b} \<subseteq> {k. k < cap b' \<and> k mod 32 \<noteq> 31 \<and> k \<notin> used b'} \<union> F"
    using assms(1) by (auto simp: marked_def)
  then have "avail b \<le> card ({k. k < cap b' \<and> k mod 32 \<noteq> 31 \<and> k \<notin> used b'} \<union> F)"
    unfolding avail_def using assms(2) by (intro card_mono) auto
  also have "\<dots> \<le> avail b' + card F"
    unfolding avail_def by (rule card_Un_le)
  finally show ?thesis .
qed

lemma take_frame:
  assumes "inv b" "0 < avail b"
  obtains i b1 r b2 where "find_b b = Some ((True, i), b1)" "set_b i b1 = Some (r, b2)"
    "marked b b2 {unat i}" "unat i < cap b" "unat i \<notin> used b"
proof -
  obtain ok i b1 where f: "find_b b = Some ((ok, i), b1)" "inv b1" "cap b1 = cap b" "used b1 = used b"
      "if ok then unat i < cap b \<and> unat i \<notin> used b else (\<forall>k < cap b. k mod 32 \<noteq> 31 \<longrightarrow> k \<in> used b)"
    using find_law [OF assms(1)] by blast
  have "{k. k < cap b \<and> k mod 32 \<noteq> 31 \<and> k \<notin> used b} \<noteq> {}"
    using assms(2) unfolding avail_def by fastforce
  then have ok
    using f(5) by (auto split: if_splits)
  moreover obtain r b2 where "set_b i b1 = Some (r, b2)" "marked b1 b2 {unat i}"
    using set_marked [OF f(2)] by blast
  moreover from this(2) have "marked b b2 {unat i}"
    using f by (simp add: marked_def)
  ultimately show ?thesis
    using that f by auto
qed

end

text \<open>The bitmap keeps these laws when its capacity is a multiple of the word size.\<close>

definition frames_inv :: "bitmap \<Rightarrow> bool" where
  "frames_inv b \<longleftrightarrow> Bits_inv b \<and> Bits_low b \<and> 32 dvd unat (m_cnt b)"

lemma frames_full: "frames_inv b \<Longrightarrow> unat (m_cnt b) = 32 * unat (m_len b)"
  by (auto simp: frames_inv_def Bits_inv_def dvd_def)

lemma Bits_set_frames:
  assumes "frames_inv b"
  shows "\<exists>r b'. Bits_set i b = Some (r, b') \<and> frames_inv b' \<and> m_cnt b' = m_cnt b \<and>
    Bits_abs b' = Bits_abs b \<union> ({unat i} \<inter> {..<unat (m_cnt b)})"
proof (cases "i < m_cnt b")
  case True
  then obtain b' where b': "Bits_set i b = Some (True, b')" "Bits_inv b'" "\<And>k. Bits_bit b' k \<longleftrightarrow> k = unat i \<or> Bits_bit b k"
      "m_cnt b' = m_cnt b"
    using Bits_set_abs [of b i] assms by (auto simp: frames_inv_def)
  moreover have "Bits_low b'"
    using Bits_set_low [of b i] b'(1) assms by (auto simp: frames_inv_def)
  ultimately show ?thesis
    using assms True by (auto simp: frames_inv_def Bits_abs_def word_less_nat_alt)
next
  case False
  then show ?thesis
    using Bits_set_reject [of b i] assms by (auto simp: word_less_nat_alt word_le_nat_alt)
qed

lemma Bits_clear_frames:
  assumes "frames_inv b"
  shows "\<exists>r b'. Bits_clear i b = Some (r, b') \<and> frames_inv b' \<and> m_cnt b' = m_cnt b \<and> Bits_abs b' = Bits_abs b - {unat i}"
proof (cases "i < m_cnt b")
  case True
  then obtain b' where b': "Bits_clear i b = Some (True, b')" "Bits_inv b'" "\<And>k. Bits_bit b' k \<longleftrightarrow> k \<noteq> unat i \<and> Bits_bit b k"
      "m_cnt b' = m_cnt b"
    using Bits_clear_abs [of b i] assms by (auto simp: frames_inv_def)
  moreover have "Bits_low b'"
    using Bits_clear_low [of b i] b'(1) assms by (auto simp: frames_inv_def)
  ultimately show ?thesis
    using assms by (auto simp: frames_inv_def Bits_abs_def)
next
  case False
  then show ?thesis
    using Bits_clear_reject [of b i] assms by (auto simp: word_less_nat_alt word_le_nat_alt Bits_abs_def)
qed

lemma Bits_find_frames:
  assumes "frames_inv b"
  shows "\<exists>ok i b'. Bits_findUnset b = Some ((ok, i), b') \<and> frames_inv b' \<and> m_cnt b' = m_cnt b \<and> Bits_abs b' = Bits_abs b \<and>
    (if ok then unat i < unat (m_cnt b) \<and> unat i \<notin> Bits_abs b
     else (\<forall>k < unat (m_cnt b). k mod 32 \<noteq> 31 \<longrightarrow> k \<in> Bits_abs b))"
proof -
  have inv: "Bits_inv b" "Bits_low b"
    using assms by (simp_all add: frames_inv_def)
  then show ?thesis
  proof (cases rule: findUnset_cases)
    case full
    then show ?thesis
      using assms frames_full [OF assms] by (auto simp: covered_0 Bits_abs_def)
  next
    case (found w j)
    note keep = Bits_findUnset_low [OF inv found(1)]
    have "frames_inv (b\<lparr>m_last_word := of_nat w\<rparr>)"
      using keep assms by (simp add: frames_inv_def)
    moreover have "Bits_abs (b\<lparr>m_last_word := of_nat w\<rparr>) = Bits_abs b"
      by (simp add: Bits_abs_def Bits_bit_def)
    moreover have "unat (of_nat (32 * w + j) :: u32) = 32 * w + j"
      by (rule Bits_found_unat [OF inv(1) found(2,3)])
    moreover have "32 * w + j < unat (m_cnt b)"
      using found(2,3) frames_full [OF assms] by simp
    ultimately show ?thesis
      using found(1,4) by (intro exI [of _ True] exI [of _ "of_nat (32 * w + j)"] exI [of _ "b\<lparr>m_last_word := of_nat w\<rparr>"])
        (simp add: Bits_abs_def del: of_nat_add of_nat_mult)
  qed
qed

interpretation fb: frame_bitmap frames_inv Bits_abs "\<lambda>b. unat (m_cnt b)" Bits_isSet Bits_set Bits_clear Bits_findUnset
proof unfold_locales
  fix b :: bitmap and i :: u32
  assume inv: "frames_inv b"
  then show "Bits_isSet i b = Some (unat i \<in> Bits_abs b)"
    by (simp add: frames_inv_def Bits_isSet_abs)
  show "\<exists>r b'. Bits_set i b = Some (r, b') \<and> frames_inv b' \<and> unat (m_cnt b') = unat (m_cnt b) \<and>
      Bits_abs b' = Bits_abs b \<union> ({unat i} \<inter> {..<unat (m_cnt b)})"
    using Bits_set_frames [OF inv] by metis
  show "\<exists>r b'. Bits_clear i b = Some (r, b') \<and> frames_inv b' \<and> unat (m_cnt b') = unat (m_cnt b) \<and> Bits_abs b' = Bits_abs b - {unat i}"
    using Bits_clear_frames [OF inv] by metis
  show "\<exists>ok i b'. Bits_findUnset b = Some ((ok, i), b') \<and> frames_inv b' \<and> unat (m_cnt b') = unat (m_cnt b) \<and>
      Bits_abs b' = Bits_abs b \<and> (if ok then unat i < unat (m_cnt b) \<and> unat i \<notin> Bits_abs b
       else (\<forall>k < unat (m_cnt b). k mod 32 \<noteq> 31 \<longrightarrow> k \<in> Bits_abs b))"
    using Bits_find_frames [OF inv] by metis
  show "Bits_abs b \<subseteq> {..<unat (m_cnt b)}"
    by (auto simp: Bits_abs_def)
qed

section \<open>Static allocation\<close>

abbreviation frames_ok :: "paging \<Rightarrow> bool" where
  "frames_ok pg \<equiv> pg_data pg \<and> frames_inv (pg_bits pg)"

lemma bits_set_ok:
  assumes "frames_ok pg"
  obtains b where "bits_set i pg = Some (pg\<lparr>pg_bits := b\<rparr>)" "fb.marked (pg_bits pg) b {unat i}"
  using fb.set_marked [OF assms [THEN conjunct2], of i] assms by (auto simp: bits_set_def bits_data_def)

lemma bits_isSet_ok: "frames_ok pg \<Longrightarrow> bits_isSet i pg = Some (unat i \<in> Bits_abs (pg_bits pg))"
  by (simp add: bits_isSet_def bits_data_def fb.is_set_law)

lemma frames_refl: "frames_ok pg \<Longrightarrow> fb.marked (pg_bits pg) (pg_bits pg) {}"
  by (simp add: fb.marked_refl)

lemma mark_if_unset_ok:
  assumes "frames_ok pg"
  obtains b where "mark_if_unset i pg = Some (pg\<lparr>pg_bits := b\<rparr>)" "fb.marked (pg_bits pg) b {unat i}"
proof (cases "unat i \<in> Bits_abs (pg_bits pg)")
  case True
  then have "fb.marked (pg_bits pg) (pg_bits pg) {unat i}"
    using assms by (intro fb.marked_present) auto
  moreover have "mark_if_unset i pg = Some (pg\<lparr>pg_bits := pg_bits pg\<rparr>)"
    using True by (simp add: mark_if_unset_def bits_isSet_ok [OF assms])
  ultimately show ?thesis
    using that by blast
next
  case False
  obtain b where "bits_set i pg = Some (pg\<lparr>pg_bits := b\<rparr>)" "fb.marked (pg_bits pg) b {unat i}"
    by (rule bits_set_ok [OF assms])
  with False show ?thesis
    using that by (simp add: mark_if_unset_def bits_isSet_ok [OF assms])
qed

lemma mark_range_ok:
  assumes "frames_ok pg" "unat i + n \<le> 2 ^ 20"
  obtains b where "mark_range n i pg = Some (pg\<lparr>pg_bits := b\<rparr>)" "fb.marked (pg_bits pg) b {unat i ..< unat i + n}"
proof -
  have "\<exists>b. mark_range n i pg = Some (pg\<lparr>pg_bits := b\<rparr>) \<and> fb.marked (pg_bits pg) b {unat i ..< unat i + n}"
    using assms
  proof (induction n arbitrary: i pg)
    case 0
    show ?case
      using frames_refl [OF 0(1)] by (intro exI [of _ "pg_bits pg"]) simp
  next
    case (Suc n)
    obtain b where b: "mark_if_unset i pg = Some (pg\<lparr>pg_bits := b\<rparr>)" "fb.marked (pg_bits pg) b {unat i}"
      by (rule mark_if_unset_ok [OF Suc.prems(1)])
    have i: "unat (i + 1) = unat i + 1"
      using Suc.prems(2) unat_add_lem [of i 1] by simp
    have "frames_ok (pg\<lparr>pg_bits := b\<rparr>)" "unat (i + 1) + n \<le> 2 ^ 20"
      using b(2) Suc.prems i by (simp_all add: fb.marked_def)
    from Suc.IH [OF this] obtain b' where b': "mark_range n (i + 1) (pg\<lparr>pg_bits := b\<rparr>) = Some (pg\<lparr>pg_bits := b'\<rparr>)"
        "fb.marked b b' {unat i + 1 ..< unat i + 1 + n}"
      by (auto simp: i)
    moreover have "{unat i} \<union> {unat i + 1 ..< unat i + 1 + n} = {unat i ..< unat i + Suc n}"
      by auto
    ultimately show ?case
      using b fb.marked_trans [OF b(2) b'(2)] by auto
  qed
  then show ?thesis
    using that by blast
qed

text \<open>The next page boundary at or above an address.\<close>

definition up :: "nat \<Rightarrow> nat" where
  "up a = (a + 4095) div 4096 * 4096"

lemma up_aligned: "a mod 4096 = 0 \<Longrightarrow> up a = a"
  by (auto simp: up_def elim!: dvdE simp flip: dvd_eq_mod_eq_0)

lemma up_decomp: "0 < r \<Longrightarrow> r \<le> 4096 \<Longrightarrow> up (4096 * q + r) = 4096 * (q + 1)"
proof -
  assume r: "0 < r" "r \<le> 4096"
  have "4096 * q + r + 4095 = (r - 1) + 4096 * (q + 1)"
    using r by simp
  also have "\<dots> div 4096 = q + 1"
    using r by simp
  finally show ?thesis
    by (simp add: up_def)
qed

lemma page_split: "a mod 4096 \<noteq> 0 \<Longrightarrow> \<exists>q r. a = 4096 * q + r \<and> 0 < r \<and> r < (4096 :: nat) \<and> a div 4096 = q"
  by (metis gr_zeroI mod_less_divisor mult_div_mod_eq zero_less_numeral)

lemma up_Suc: "a mod 4096 \<noteq> 0 \<Longrightarrow> up (Suc a) = up a"
  using page_split [of a] up_decomp by (metis Suc_leI add_Suc_right less_Suc_eq_le less_imp_le zero_less_Suc)

lemma up_bounds: "a \<le> up a" "up a \<le> a + 4095" "up a mod 4096 = 0"
proof -
  have "a + 4095 = (a + 4095) div 4096 * 4096 + (a + 4095) mod 4096" "(a + 4095) mod 4096 < 4096"
    by simp_all
  then show "a \<le> up a" "up a \<le> a + 4095"
    unfolding up_def by linarith+
  show "up a mod 4096 = 0"
    by (simp add: up_def)
qed

lemma up_frame: "{a div 4096} \<union> {up a div 4096 ..< n} = {a div 4096 ..< n}" if "a mod 4096 \<noteq> 0" "up a div 4096 < n"
proof -
  have "up a div 4096 = a div 4096 + 1"
    using page_split [OF that(1)] up_decomp by (metis less_imp_le nonzero_mult_div_cancel_left zero_neq_numeral)
  then show ?thesis
    using that(2) by auto
qed

lemma unaligned_iff: "(w :: u32) AND (PAGE_SIZE - 1) \<noteq> 0 \<longleftrightarrow> unat w mod 4096 \<noteq> 0"
proof -
  have "w AND (PAGE_SIZE - 1) = take_bit 12 w"
    by (simp add: PAGE_SIZE_def take_bit_eq_mask mask_eq_exp_minus_1)
  then show ?thesis
    by (simp add: unat_eq_zero [symmetric] take_bit_eq_mod unat_mod)
qed

lemma unat_page: "unat (w div PAGE_SIZE) = unat w div 4096"
  by (simp add: PAGE_SIZE_def unat_div)

definition align_frames :: "nat \<Rightarrow> nat set" where
  "align_frames a = (if a mod 4096 = 0 then {} else {a div 4096})"

lemma align_frames_Suc: "a mod 4096 \<noteq> 0 \<Longrightarrow> {a div 4096} \<union> align_frames (Suc a) = align_frames a"
  by (auto simp: align_frames_def div_Suc)

lemma pageAlign_step:
  assumes "frames_ok pg" "unat (free_page_address pg) mod 4096 \<noteq> 0"
  obtains b where "PagingPrivate_pageAlign PAGE_SIZE pg =
      PagingPrivate_pageAlign PAGE_SIZE (pg\<lparr>pg_bits := b, free_page_address := free_page_address pg + 1\<rparr>)"
    "fb.marked (pg_bits pg) b {unat (free_page_address pg) div 4096}"
proof -
  obtain b where b: "bits_set (free_page_address pg div PAGE_SIZE) pg = Some (pg\<lparr>pg_bits := b\<rparr>)"
      "fb.marked (pg_bits pg) b {unat (free_page_address pg div PAGE_SIZE)}"
    by (rule bits_set_ok [OF assms(1)])
  have "PagingPrivate_pageAlign PAGE_SIZE pg =
      PagingPrivate_pageAlign PAGE_SIZE (pg\<lparr>pg_bits := b, free_page_address := free_page_address pg + 1\<rparr>)"
    using assms(2) b(1) by (subst PagingPrivate_pageAlign.simps) (simp add: unaligned_iff)
  with b(2) show ?thesis
    using that by (simp add: unat_page)
qed

lemma pageAlign_ok:
  assumes "frames_ok pg" "up (unat (free_page_address pg)) < 2 ^ 32"
  shows "\<exists>b. PagingPrivate_pageAlign PAGE_SIZE pg =
      Some (pg\<lparr>pg_bits := b, free_page_address := of_nat (up (unat (free_page_address pg)))\<rparr>) \<and>
    fb.marked (pg_bits pg) b (align_frames (unat (free_page_address pg)))"
  using assms
proof (induction "up (unat (free_page_address pg)) - unat (free_page_address pg)" arbitrary: pg)
  case 0
  then have a: "unat (free_page_address pg) mod 4096 = 0"
    using up_bounds(1) [of "unat (free_page_address pg)"] up_bounds(3) [of "unat (free_page_address pg)"] by simp
  then have "PagingPrivate_pageAlign PAGE_SIZE pg = Some pg"
    by (subst PagingPrivate_pageAlign.simps) (simp add: unaligned_iff)
  then show ?case
    using frames_refl [OF 0(2)] a by (intro exI [of _ "pg_bits pg"]) (simp add: up_aligned align_frames_def)
next
  case (Suc d)
  let ?a = "unat (free_page_address pg)"
  have a: "?a mod 4096 \<noteq> 0"
    using Suc(2) up_aligned [of ?a] by (metis diff_self_eq_0 nat.simps(3))
  obtain b where b: "PagingPrivate_pageAlign PAGE_SIZE pg =
      PagingPrivate_pageAlign PAGE_SIZE (pg\<lparr>pg_bits := b, free_page_address := free_page_address pg + 1\<rparr>)"
      "fb.marked (pg_bits pg) b {?a div 4096}"
    by (rule pageAlign_step [OF Suc.prems(1) a])
  let ?pg = "pg\<lparr>pg_bits := b, free_page_address := free_page_address pg + 1\<rparr>"
  have "Suc ?a \<le> up ?a"
    using Suc(2) by linarith
  then have s: "unat (free_page_address pg + 1) = Suc ?a"
    using Suc.prems(2) unat_add_lem [of "free_page_address pg" 1] by simp
  have "frames_ok ?pg"
    using b(2) Suc.prems(1) by (simp add: fb.marked_def)
  moreover have "d = up (unat (free_page_address ?pg)) - unat (free_page_address ?pg)"
    using Suc(2) s up_Suc [OF a] by simp
  moreover have "up (unat (free_page_address ?pg)) < 2 ^ 32"
    using Suc.prems(2) up_Suc [OF a] s by simp
  ultimately have "\<exists>b. PagingPrivate_pageAlign PAGE_SIZE ?pg =
      Some (?pg\<lparr>pg_bits := b, free_page_address := of_nat (up (unat (free_page_address ?pg)))\<rparr>) \<and>
    fb.marked (pg_bits ?pg) b (align_frames (unat (free_page_address ?pg)))"
    by (intro Suc.hyps(1))
  then obtain b' where b': "PagingPrivate_pageAlign PAGE_SIZE ?pg =
      Some (?pg\<lparr>pg_bits := b', free_page_address := of_nat (up ?a)\<rparr>)" "fb.marked b b' (align_frames (Suc ?a))"
    using s up_Suc [OF a] by auto
  have "fb.marked (pg_bits pg) b' (align_frames ?a)"
    using fb.marked_trans [OF b(2) b'(2)] by (simp only: align_frames_Suc [OF a])
  then show ?case
    using b(1) b'(1) by (intro exI [of _ b']) simp
qed

lemma allocStatic_ok:
  assumes inv: "frames_ok pg" and fits: "up (unat (free_page_address pg)) + unat sz < 2 ^ 32"
  obtains b where "Paging_allocStatic sz pg = Some (of_nat (up (unat (free_page_address pg))),
      pg\<lparr>pg_bits := b, free_page_address := of_nat (up (unat (free_page_address pg))) + sz\<rparr>)"
    "fb.marked (pg_bits pg) b {unat (free_page_address pg) div 4096 .. (up (unat (free_page_address pg)) + unat sz) div 4096}"
proof -
  define a where "a = unat (free_page_address pg)"
  define w :: u32 where "w = of_nat (up a)"
  obtain b1 where b1: "PagingPrivate_pageAlign PAGE_SIZE pg = Some (pg\<lparr>pg_bits := b1, free_page_address := w\<rparr>)"
      "fb.marked (pg_bits pg) b1 (align_frames a)"
    using pageAlign_ok [OF inv] fits unfolding a_def [symmetric] w_def by auto
  let ?p1 = "pg\<lparr>pg_bits := b1, free_page_address := w\<rparr>"
  have u: "unat w = up a"
    using fits unfolding w_def a_def by (intro unat_of_nat_u32) simp
  have e: "unat (w + sz) = up a + unat sz"
    using fits u unat_add_lem [of w sz] by (simp add: a_def)
  define i where "i = w div PAGE_SIZE"
  define t where "t = (w + sz) div PAGE_SIZE"
  have i: "unat i = up a div 4096" and t: "unat t = (up a + unat sz) div 4096"
    by (simp_all add: i_def t_def unat_page u e)
  have it: "unat i \<le> unat t" "unat t < 2 ^ 20"
    unfolding i t using fits less_mult_imp_div_less [of "up a + unat sz" "2 ^ 20" 4096]
    by (simp_all add: div_le_mono a_def [symmetric])
  have "frames_ok ?p1"
    using b1(2) inv by (simp add: fb.marked_def)
  then obtain b2 where b2: "mark_if_unset i ?p1 = Some (?p1\<lparr>pg_bits := b2\<rparr>)" "fb.marked (pg_bits ?p1) b2 {unat i}"
    by (rule mark_if_unset_ok)
  let ?p2 = "?p1\<lparr>pg_bits := b2\<rparr>"
  have "frames_ok ?p2" "unat i + (unat t + 1 - unat i) \<le> 2 ^ 20"
    using b2(2) it inv by (simp_all add: fb.marked_def)
  then obtain b3 where b3: "mark_range (unat t + 1 - unat i) i ?p2 = Some (?p2\<lparr>pg_bits := b3\<rparr>)"
      "fb.marked (pg_bits ?p2) b3 {unat i ..< unat i + (unat t + 1 - unat i)}"
    by (rule mark_range_ok)
  have m: "fb.marked b1 b2 {unat i}" "fb.marked b2 b3 {unat i ..< unat t + 1}"
    using b2(2) b3(2) it(1) by simp_all
  have "align_frames a \<union> ({unat i} \<union> {unat i ..< unat t + 1}) = {a div 4096 .. unat t}"
  proof (cases "a mod 4096 = 0")
    case True
    then show ?thesis
      using it(1) up_aligned [OF True] i by (auto simp: align_frames_def)
  next
    case False
    have "{a div 4096} \<union> {unat i ..< unat t + 1} = {a div 4096 ..< unat t + 1}"
      unfolding i by (rule up_frame [OF False]) (use it(1) i in linarith)
    moreover have "unat i \<in> {unat i ..< unat t + 1}" "align_frames a = {a div 4096}" "{a div 4096 ..< unat t + 1} = {a div 4096 .. unat t}"
      using it(1) False by (auto simp: align_frames_def)
    ultimately show ?thesis
      by blast
  qed
  then have "fb.marked (pg_bits pg) b3 {a div 4096 .. unat t}"
    using fb.marked_trans [OF b1(2) fb.marked_trans [OF m]] by simp
  moreover have "Paging_allocStatic sz pg = Some (w, pg\<lparr>pg_bits := b3, free_page_address := w + sz\<rparr>)"
    using b1(1) b2(1) b3(1)
    by (simp add: Paging_allocStatic_def PagingPrivate_freePageAddress_def PagingPrivate_incFreePageAddress_def i_def t_def)
  ultimately show ?thesis
    using that unfolding t w_def a_def by blast
qed

section \<open>Page tables\<close>

text \<open>
  The entry of virtual page \<open>v\<close>, 0 where there is no table.  A state is well formed when the bitmap
  and the tables are, and when static memory is left for every table that does not exist yet.
\<close>

definition pte :: "paging \<Rightarrow> nat \<Rightarrow> u32" where
  "pte pg v = (case pg_tables pg (v div 1024) of None \<Rightarrow> 0 | Some t \<Rightarrow> t ! (v mod 1024))"

definition frame_of :: "u32 \<Rightarrow> nat" where
  "frame_of e = unat (Page_getAddress e) div 4096"

definition room :: "paging \<Rightarrow> nat" where
  "room pg = unat (free_page_address pg) + 8192 * card ({..<1024} - dom (pg_tables pg))"

definition tables_ok :: "(nat \<rightharpoonup> u32 list) \<Rightarrow> bool" where
  "tables_ok ts \<longleftrightarrow> (\<forall>i t. ts i = Some t \<longrightarrow> i < 1024 \<and> length t = 1024)"

definition pg_wf :: "paging \<Rightarrow> bool" where
  "pg_wf pg \<longleftrightarrow> pg_data pg \<and> frames_inv (pg_bits pg) \<and> unat (m_cnt (pg_bits pg)) \<le> 2 ^ 20 \<and> tables_ok (pg_tables pg) \<and>
     room pg < 2 ^ 32 \<and> 0 < unat (free_page_address pg)"

definition has_table :: "nat \<Rightarrow> paging \<Rightarrow> bool" where
  "has_table v pg \<longleftrightarrow> pg_tables pg (v div 1024) \<noteq> None"

abbreviation frames_used :: "paging \<Rightarrow> nat set" where
  "frames_used pg \<equiv> Bits_abs (pg_bits pg)"

abbreviation frames_left :: "paging \<Rightarrow> nat" where
  "frames_left pg \<equiv> fb.avail (pg_bits pg)"

text \<open>
  The frame that holds table \<open>i\<close>, and: every table lies in a frame that is marked, unless the bitmap does not cover it.
\<close>

definition table_frame :: "paging \<Rightarrow> nat \<Rightarrow> nat" where
  "table_frame pg i = frame_of (pg_tablesPhys pg i)"

definition tables_marked :: "paging \<Rightarrow> bool" where
  "tables_marked pg \<longleftrightarrow> (\<forall>i \<in> dom (pg_tables pg). table_frame pg i \<in> frames_used pg \<or> unat (m_cnt (pg_bits pg)) \<le> table_frame pg i)"

definition tables_kept :: "paging \<Rightarrow> paging \<Rightarrow> bool" where
  "tables_kept pg pg' \<longleftrightarrow> (\<forall>i \<in> dom (pg_tables pg). i \<in> dom (pg_tables pg') \<and> table_frame pg' i = table_frame pg i)"

lemma tables_kept_refl: "tables_kept pg pg"
  by (simp add: tables_kept_def)

lemma tables_kept_trans: "tables_kept pg p1 \<Longrightarrow> tables_kept p1 p2 \<Longrightarrow> tables_kept pg p2"
  by (simp add: tables_kept_def)

lemma new_table_marked:
  assumes "pg_tables pg i = None" "pg_tables pg' = (pg_tables pg)(i \<mapsto> t)" "pg_tablesPhys pg' = (pg_tablesPhys pg)(i := p)"
    "fb.marked (pg_bits pg) (pg_bits pg') F" "table_frame pg' i = k" "k \<in> F"
  shows "tables_kept pg pg'" "tables_marked pg \<longrightarrow> tables_marked pg'"
proof -
  have old: "table_frame pg' j = table_frame pg j" if "j \<noteq> i" for j
    using that assms(3) by (simp add: table_frame_def)
  show "tables_kept pg pg'"
    unfolding tables_kept_def
  proof (intro ballI)
    fix j
    assume "j \<in> dom (pg_tables pg)"
    moreover from this have "j \<noteq> i"
      using assms(1) by (metis domIff)
    ultimately show "j \<in> dom (pg_tables pg') \<and> table_frame pg' j = table_frame pg j"
      using old [of j] unfolding assms(2) by simp
  qed
  have used: "frames_used pg' = frames_used pg \<union> (F \<inter> {..<unat (m_cnt (pg_bits pg))})" "unat (m_cnt (pg_bits pg')) = unat (m_cnt (pg_bits pg))"
    using assms(4) by (simp_all add: fb.marked_def)
  show "tables_marked pg \<longrightarrow> tables_marked pg'"
    unfolding tables_marked_def
  proof (intro impI ballI)
    fix j
    assume m: "\<forall>i \<in> dom (pg_tables pg). table_frame pg i \<in> frames_used pg \<or> unat (m_cnt (pg_bits pg)) \<le> table_frame pg i"
      and "j \<in> dom (pg_tables pg')"
    then consider "j = i" | "j \<noteq> i" "j \<in> dom (pg_tables pg)"
      unfolding assms(2) by fastforce
    then show "table_frame pg' j \<in> frames_used pg' \<or> unat (m_cnt (pg_bits pg')) \<le> table_frame pg' j"
    proof cases
      case 1
      then show ?thesis
        unfolding 1 assms(5) used using assms(6) by (simp, linarith)
    next
      case 2
      then show ?thesis
        unfolding old [OF 2(1)] used using m [rule_format, OF 2(2)] by blast
    qed
  qed
qed

text \<open>What \<open>grown pg pg'\<close> says: static memory was taken, and nothing was mapped.\<close>

definition grown :: "paging \<Rightarrow> paging \<Rightarrow> bool" where
  "grown pg pg' \<longleftrightarrow> pg_wf pg' \<and> pte pg' = pte pg \<and> room pg' \<le> room pg \<and>
     (\<exists>F. finite F \<and> card F \<le> 3 \<and> fb.marked (pg_bits pg) (pg_bits pg') F) \<and>
     heap_address pg' = heap_address pg \<and> user_heap_address pg' = user_heap_address pg \<and>
     (\<forall>v. has_table v pg \<longrightarrow> has_table v pg') \<and> unat (free_page_address pg) \<le> unat (free_page_address pg') \<and>
     tables_kept pg pg' \<and> (tables_marked pg \<longrightarrow> tables_marked pg')"

lemma frame_of_table: "frame_of (x OR PAGING_MAP_R2) = unat x div 4096"
  by (simp add: frame_of_def unat_getAddress Page_getAddress_def PAGING_MAP_R2_def bit.conj_disj_distrib2)
    (simp add: unat_getAddress flip: Page_getAddress_def)

lemma grown_refl: "pg_wf pg \<Longrightarrow> grown pg pg"
  using frames_refl [of pg] by (auto simp: grown_def pg_wf_def tables_kept_refl intro!: exI [of _ "{}"])

lemma page_bound: "unat (a :: u32) div 4096 < 2 ^ 20"
  using unat_u32_less [of a] less_mult_imp_div_less [of "unat a" "2 ^ 20" 4096] by simp

lemma unat_index: "unat ((a :: u32) div PAGE_SIZE mod 1024) = unat a div 4096 mod 1024"
  by (simp add: PAGE_SIZE_def unat_mod unat_div)

lemma getPage_present:
  assumes "has_table (unat a div 4096) pg"
  shows "PageDir_getPage a r pg = Some (Some (unat a div 4096 div 1024, unat a div 4096 mod 1024), pg)"
  using assms
  by (auto simp: PageDir_getPage_def PageTable_get_def has_table_def unat_index unat_page Let_def PAGES_PER_TABLE_def)

lemma getPage_absent:
  assumes wf: "pg_wf pg" and no: "\<not> has_table (unat a div 4096) pg"
  obtains pg' where "PageDir_getPage a True pg = Some (Some (unat a div 4096 div 1024, unat a div 4096 mod 1024), pg')"
    "grown pg pg'" "has_table (unat a div 4096) pg'"
    "pg_tablesPhys pg' (unat a div 4096 div 1024) = of_nat (up (unat (free_page_address pg))) OR PAGING_MAP_R2"
    "dom (pg_tables pg') = insert (unat a div 4096 div 1024) (dom (pg_tables pg))"
proof -
  define i where "i = unat a div 4096 div 1024"
  define f where "f = unat (free_page_address pg)"
  have i: "i < 1024" "pg_tables pg i = None"
    using no page_bound [of a] less_mult_imp_div_less [of "unat a div 4096" 1024 1024] by (simp_all add: i_def has_table_def)
  have inv: "frames_ok pg" "tables_ok (pg_tables pg)" "room pg < 2 ^ 32" "0 < f"
    using wf by (simp_all add: pg_wf_def f_def)
  have "i \<in> {..<1024} - dom (pg_tables pg)"
    using i by auto
  then have c: "card ({..<1024} - dom (pg_tables pg)) = Suc (card ({..<1024} - dom ((pg_tables pg)(i \<mapsto> PageTable_new))))"
    by (subst card_Suc_Diff1 [symmetric, of _ i]) (auto intro!: arg_cong [of _ _ card])
  have b: "f \<le> up f" "up f \<le> f + 4095"
    by (rule up_bounds)+
  have fits: "up f + unat (4096 :: u32) < 2 ^ 32"
    using inv(3) c b(2) by (simp add: room_def f_def)
  obtain b where alloc: "Paging_allocStatic 4096 pg = Some (of_nat (up f), pg\<lparr>pg_bits := b, free_page_address := of_nat (up f) + 4096\<rparr>)"
      "fb.marked (pg_bits pg) b {f div 4096 .. (up f + unat (4096 :: u32)) div 4096}"
    using allocStatic_ok [OF inv(1) fits [unfolded f_def]] unfolding f_def by blast
  let ?pg = "pg\<lparr>pg_bits := b, free_page_address := of_nat (up f) + 4096, pg_tables := (pg_tables pg)(i \<mapsto> PageTable_new),
      pg_tablesPhys := (pg_tablesPhys pg)(i := of_nat (up f) OR PAGING_MAP_R2)\<rparr>"
  have u: "unat (of_nat (up f) :: u32) = up f" "unat (of_nat (up f) + 4096 :: u32) = up f + 4096"
    using fits unat_of_nat_u32 [of "up f"] unat_add_lem [of "of_nat (up f)" "4096 :: u32"] by simp_all
  have "of_nat (up f) \<noteq> (0 :: u32)"
    using u(1) b(1) inv(4) by (metis le_zero_eq not_gr_zero unat_0)
  then have run: "PageDir_getPage a True pg = Some (Some (i, unat a div 4096 mod 1024), ?pg)"
    using alloc(1) no
    by (simp add: PageDir_getPage_def PageTable_get_def has_table_def unat_index unat_page i_def [symmetric] Let_def PAGES_PER_TABLE_def)
  have pte: "pte ?pg = pte pg"
  proof
    fix v
    show "pte ?pg v = pte pg v"
      using i(2) by (cases "v div 1024 = i") (simp_all add: pte_def PageTable_new_def PAGES_PER_TABLE_def)
  qed
  have room: "room ?pg \<le> room pg"
    using c u(2) b(2) by (simp add: room_def f_def)
  have F: "{f div 4096 .. (up f + 4096) div 4096} \<subseteq> {f div 4096 .. f div 4096 + 2}"
    using b(2) div_le_mono [of "up f + 4096" "f + 4095 + 4096" 4096] by (auto simp: div_add_self2)
  have "pg_wf ?pg"
    using wf room alloc(2) i u by (auto simp: pg_wf_def fb.marked_def tables_ok_def PageTable_new_def PAGES_PER_TABLE_def)
  moreover have "\<exists>F. finite F \<and> card F \<le> 3 \<and> fb.marked (pg_bits pg) b F"
    using alloc(2) F card_mono [OF _ F] by (intro exI [of _ "{f div 4096 .. (up f + 4096) div 4096}"]) simp
  moreover have "tables_kept pg ?pg" "tables_marked pg \<longrightarrow> tables_marked ?pg"
    using new_table_marked [of pg i ?pg PageTable_new _ "{f div 4096 .. (up f + unat (4096 :: u32)) div 4096}" "up f div 4096"] alloc(2) i(2)
      u(1) div_le_mono [OF b(1), of 4096] div_le_mono [of "up f" "up f + 4096" 4096]
    by (simp_all add: table_frame_def frame_of_table)
  ultimately have "grown pg ?pg"
    using pte room b(1) u(2) by (simp add: grown_def has_table_def f_def)
  moreover have "has_table (unat a div 4096) ?pg"
    by (simp add: has_table_def i_def)
  moreover have "pg_tablesPhys ?pg i = of_nat (up f) OR PAGING_MAP_R2" "dom (pg_tables ?pg) = insert i (dom (pg_tables pg))"
    by simp_all
  ultimately show ?thesis
    using that run unfolding i_def f_def by blast
qed

lemma getPage_ok:
  assumes "pg_wf pg"
  obtains pg' where "PageDir_getPage a True pg = Some (Some (unat a div 4096 div 1024, unat a div 4096 mod 1024), pg')"
    "grown pg pg'" "has_table (unat a div 4096) pg'" "dom (pg_tables pg') = insert (unat a div 4096 div 1024) (dom (pg_tables pg))"
proof (cases "has_table (unat a div 4096) pg")
  case True
  then show ?thesis
    using that getPage_present [OF True] grown_refl [OF assms] True by (simp add: has_table_def insert_absorb domIff)
next
  case False
  then show ?thesis
    using that getPage_absent [OF assms False] by blast
qed

section \<open>Mapping a page\<close>

lemma page_entry:
  assumes "pg_wf pg" "has_table v pg"
  shows "page_get (v div 1024, v mod 1024) pg = Some (pte pg v)"
    and "\<exists>ts. page_put (v div 1024, v mod 1024) e pg = Some (pg\<lparr>pg_tables := ts\<rparr>) \<and> tables_ok ts \<and>
      dom ts = dom (pg_tables pg) \<and> pte (pg\<lparr>pg_tables := ts\<rparr>) = (pte pg)(v := e)"
proof -
  obtain t where t: "pg_tables pg (v div 1024) = Some t" "length t = 1024" "v div 1024 < 1024"
    using assms by (auto simp: has_table_def pg_wf_def tables_ok_def)
  then show "page_get (v div 1024, v mod 1024) pg = Some (pte pg v)"
    by (simp add: page_get_def pte_def)
  let ?ts = "(pg_tables pg)(v div 1024 \<mapsto> t[v mod 1024 := e])"
  have "pte (pg\<lparr>pg_tables := ?ts\<rparr>) w = ((pte pg)(v := e)) w" for w
  proof -
    have "w = v \<longleftrightarrow> w div 1024 = v div 1024 \<and> w mod 1024 = v mod 1024"
      by (metis div_mult_mod_eq)
    then show ?thesis
      using t by (auto simp: pte_def nth_list_update split: option.splits)
  qed
  then have "pte (pg\<lparr>pg_tables := ?ts\<rparr>) = (pte pg)(v := e)"
    by blast
  moreover have "tables_ok ?ts"
    using assms(1) t by (auto simp: pg_wf_def tables_ok_def)
  ultimately show "\<exists>ts. page_put (v div 1024, v mod 1024) e pg = Some (pg\<lparr>pg_tables := ts\<rparr>) \<and> tables_ok ts \<and>
      dom ts = dom (pg_tables pg) \<and> pte (pg\<lparr>pg_tables := ts\<rparr>) = (pte pg)(v := e)"
    using t by (intro exI [of _ ?ts]) (auto simp: page_put_def)
qed

text \<open>What \<open>mapped_page v e F pg pg'\<close> says: entry \<open>v\<close> was set to \<open>e\<close> and the frames \<open>F\<close> marked.\<close>

definition mapped_page :: "nat \<Rightarrow> u32 \<Rightarrow> nat set \<Rightarrow> paging \<Rightarrow> paging \<Rightarrow> bool" where
  "mapped_page v e F pg pg' \<longleftrightarrow> pg_wf pg' \<and> pte pg' = (pte pg)(v := e) \<and> fb.marked (pg_bits pg) (pg_bits pg') F \<and>
     room pg' = room pg \<and> heap_address pg' = heap_address pg \<and> user_heap_address pg' = user_heap_address pg \<and>
     free_page_address pg' = free_page_address pg \<and> (\<forall>v. has_table v pg' \<longleftrightarrow> has_table v pg) \<and>
     dom (pg_tables pg') = dom (pg_tables pg) \<and> pg_tablesPhys pg' = pg_tablesPhys pg"

lemma mapped_pageI:
  assumes "pg_wf pg" "has_table v pg" "fb.marked (pg_bits pg) b F"
  obtains pg' where "page_put (v div 1024, v mod 1024) e (pg\<lparr>pg_bits := b\<rparr>) = Some pg'" "mapped_page v e F pg pg'"
proof -
  have wf: "pg_wf (pg\<lparr>pg_bits := b\<rparr>)" "has_table v (pg\<lparr>pg_bits := b\<rparr>)" "pte (pg\<lparr>pg_bits := b\<rparr>) = pte pg"
    using assms by (auto simp: pg_wf_def fb.marked_def room_def has_table_def pte_def fun_eq_iff)
  obtain ts where ts: "page_put (v div 1024, v mod 1024) e (pg\<lparr>pg_bits := b\<rparr>) = Some (pg\<lparr>pg_bits := b\<rparr>\<lparr>pg_tables := ts\<rparr>)"
      "tables_ok ts" "dom ts = dom (pg_tables pg)" "pte (pg\<lparr>pg_bits := b\<rparr>\<lparr>pg_tables := ts\<rparr>) = (pte pg)(v := e)"
    using page_entry(2) [OF wf(1,2), of e] wf(3) by auto
  have dom: "ts i = None \<longleftrightarrow> pg_tables pg i = None" for i
    using ts(3) by (metis domIff)
  have "mapped_page v e F pg (pg\<lparr>pg_bits := b\<rparr>\<lparr>pg_tables := ts\<rparr>)"
    using wf(1) ts(2-4) assms(3) dom unfolding mapped_page_def pg_wf_def room_def has_table_def by simp
  with ts(1) show ?thesis
    using that by blast
qed

lemma identityMapFrame_ok:
  assumes "pg_wf pg" "has_table v pg"
  obtains r pg' where "PagingPrivate_identityMapFrame (Some (v div 1024, v mod 1024)) addr ty pe pg = Some (r, pg')"
    "mapped_page v (frame_entry addr ty pe (pte pg v)) {unat addr div 4096} pg pg'"
    "r \<longleftrightarrow> unat addr div 4096 \<notin> frames_used pg"
proof -
  have inv: "frames_ok pg"
    using assms(1) by (simp add: pg_wf_def)
  obtain b where b: "bits_set (addr div PAGE_SIZE) pg = Some (pg\<lparr>pg_bits := b\<rparr>)" "fb.marked (pg_bits pg) b {unat addr div 4096}"
    using bits_set_ok [OF inv, of "addr div PAGE_SIZE"] by (auto simp: unat_page)
  have "page_get (v div 1024, v mod 1024) (pg\<lparr>pg_bits := b\<rparr>) = Some (pte pg v)"
    using page_entry(1) [OF assms] by (simp add: page_get_def)
  moreover obtain pg' where "page_put (v div 1024, v mod 1024) (frame_entry addr ty pe (pte pg v)) (pg\<lparr>pg_bits := b\<rparr>) = Some pg'"
      "mapped_page v (frame_entry addr ty pe (pte pg v)) {unat addr div 4096} pg pg'"
    by (rule mapped_pageI [OF assms b(2)])
  ultimately show ?thesis
    using that b(1) by (simp add: PagingPrivate_identityMapFrame_def bits_isSet_ok [OF inv] unat_page)
qed

lemma mapFrame_ok:
  assumes "pg_wf pg" "has_table v pg" "Page_isAvail (pte pg v)" "0 < frames_left pg"
  obtains i pg' where "PagingPrivate_mapFrame (Some (v div 1024, v mod 1024)) ty pe pg = Some (True, pg')"
    "mapped_page v (frame_entry (i * PAGE_SIZE) ty pe (pte pg v)) {unat i} pg pg'"
    "unat i < unat (m_cnt (pg_bits pg))" "unat i \<notin> frames_used pg"
proof -
  have inv: "frames_ok pg"
    using assms(1) by (simp add: pg_wf_def)
  obtain i b1 r b2 where f: "Bits_findUnset (pg_bits pg) = Some ((True, i), b1)" "Bits_set i b1 = Some (r, b2)"
      "fb.marked (pg_bits pg) b2 {unat i}" "unat i < unat (m_cnt (pg_bits pg))" "unat i \<notin> frames_used pg"
    by (rule fb.take_frame [OF inv [THEN conjunct2] assms(4)])
  obtain pg' where pg': "page_put (v div 1024, v mod 1024) (frame_entry (i * PAGE_SIZE) ty pe (pte pg v)) (pg\<lparr>pg_bits := b2\<rparr>) = Some pg'"
      "mapped_page v (frame_entry (i * PAGE_SIZE) ty pe (pte pg v)) {unat i} pg pg'"
    by (rule mapped_pageI [OF assms(1,2) f(3)])
  have "PagingPrivate_mapFrame (Some (v div 1024, v mod 1024)) ty pe pg = Some (True, pg')"
    using f(1,2) pg'(1) assms(3)
    by (simp add: PagingPrivate_mapFrame_def page_entry(1) [OF assms(1,2)] bits_find_def bits_set_def bits_data_def inv)
  then show ?thesis
    using that pg'(2) f(4,5) by blast
qed

lemma frame_of_entry: "unat i < 2 ^ 20 \<Longrightarrow> frame_of (frame_entry (i * PAGE_SIZE) ty pe e) = unat i"
proof -
  assume i: "unat i < 2 ^ 20"
  then have "unat (i * PAGE_SIZE) = unat i * 4096"
    using unat_mult_lem [of i PAGE_SIZE] by (simp add: PAGE_SIZE_def)
  then show ?thesis
    by (simp add: frame_of_def unat_getAddress)
qed

text \<open>
  The pages \<open>V\<close> are mapped, with distinct frames that were not in use, and no other entry changed.  Tables were added for
  the pages \<open>V\<close> only.  The frame of a page holds no table that was there before nor one for that page or lower pages.
\<close>

definition fresh_mapping :: "map_type \<Rightarrow> nat set \<Rightarrow> paging \<Rightarrow> paging \<Rightarrow> bool" where
  "fresh_mapping ty V pg pg' \<longleftrightarrow> pg_wf pg' \<and>
     (\<forall>v \<in> V. Page_getPresent (pte pg' v) \<and> Page_getRw (pte pg' v) \<and> (Page_getUserspace (pte pg' v) \<longleftrightarrow> ty = MapPageUser) \<and>
       frame_of (pte pg' v) \<in> frames_used pg' - frames_used pg) \<and>
     inj_on (\<lambda>v. frame_of (pte pg' v)) V \<and> (\<forall>v. v \<notin> V \<longrightarrow> pte pg' v = pte pg v) \<and>
     frames_used pg \<subseteq> frames_used pg' \<and> m_cnt (pg_bits pg') = m_cnt (pg_bits pg) \<and>
     heap_address pg' = heap_address pg \<and> user_heap_address pg' = user_heap_address pg \<and>
     tables_kept pg pg' \<and> dom (pg_tables pg') = dom (pg_tables pg) \<union> (\<lambda>v. v div 1024) ` V \<and>
     (tables_marked pg \<longrightarrow> tables_marked pg' \<and>
       (\<forall>v \<in> V. \<forall>i \<in> dom (pg_tables pg'). i \<in> dom (pg_tables pg) \<or> i \<le> v div 1024 \<longrightarrow> table_frame pg' i \<noteq> frame_of (pte pg' v)))"

lemma mapped_page_tables:
  assumes "mapped_page v e F pg pg'" "tables_marked pg"
  shows "tables_marked pg'"
  using assms by (auto simp: mapped_page_def tables_marked_def table_frame_def fb.marked_def)

lemma fresh_mapping_insert:
  assumes f: "fresh_mapping ty V p2 p3" and v: "v \<notin> V" and p2: "pte p2 = (pte pg)(v := e)" "insert (frame_of e) (frames_used pg) \<subseteq> frames_used p2"
      "m_cnt (pg_bits p2) = m_cnt (pg_bits pg)" "heap_address p2 = heap_address pg" "user_heap_address p2 = user_heap_address pg"
    and e: "Page_getPresent e" "Page_getRw e" "Page_getUserspace e \<longleftrightarrow> ty = MapPageUser" "frame_of e \<notin> frames_used pg"
    and tb: "tables_kept pg p2" "dom (pg_tables p2) = insert (v div 1024) (dom (pg_tables pg))" "\<forall>w \<in> V. v \<le> w"
      "tables_marked pg \<Longrightarrow> tables_marked p2 \<and> (\<forall>i \<in> dom (pg_tables p2). table_frame p2 i \<noteq> frame_of e)"
  shows "fresh_mapping ty (insert v V) pg p3"
proof -
  have V: "Page_getPresent (pte p3 w)" "Page_getRw (pte p3 w)" "Page_getUserspace (pte p3 w) \<longleftrightarrow> ty = MapPageUser"
      "frame_of (pte p3 w) \<in> frames_used p3" "frame_of (pte p3 w) \<notin> frames_used p2" if "w \<in> V" for w
    using f that by (simp_all add: fresh_mapping_def)
  have pv: "pte p3 v = e"
    using f v p2(1) by (simp add: fresh_mapping_def)
  have other: "pte p3 w = pte pg w" if "w \<notin> insert v V" for w
    using f p2(1) that by (simp add: fresh_mapping_def)
  have used: "frames_used p2 \<subseteq> frames_used p3"
    using f by (simp add: fresh_mapping_def)
  have "inj_on (\<lambda>v. frame_of (pte p3 v)) (insert v V)"
    using f V(5) p2(2) pv by (auto simp: fresh_mapping_def)
  moreover have "frame_of (pte p3 w) \<in> frames_used p3 - frames_used pg" if "w \<in> insert v V" for w
    using that V(4,5) pv e(4) p2(2) used by auto
  moreover have "frames_used pg \<subseteq> frames_used p3"
    using p2(2) used by blast
  moreover have kept: "tables_kept p2 p3" and dom: "dom (pg_tables p3) = dom (pg_tables p2) \<union> (\<lambda>v. v div 1024) ` V"
    using f by (simp_all add: fresh_mapping_def)
  then have "tables_kept pg p3" "dom (pg_tables p3) = dom (pg_tables pg) \<union> (\<lambda>v. v div 1024) ` insert v V"
    using tables_kept_trans [OF tb(1)] tb(2) by auto
  moreover have "tables_marked p3 \<and> (\<forall>w \<in> insert v V. \<forall>i \<in> dom (pg_tables p3). i \<in> dom (pg_tables pg) \<or> i \<le> w div 1024 \<longrightarrow>
      table_frame p3 i \<noteq> frame_of (pte p3 w))" if "tables_marked pg"
  proof (intro conjI ballI impI)
    have m: "tables_marked p2" "\<And>i. i \<in> dom (pg_tables p2) \<Longrightarrow> table_frame p2 i \<noteq> frame_of e"
      using tb(4) [OF that] by blast+
    then show "tables_marked p3"
      using f by (simp add: fresh_mapping_def)
    fix w i
    assume w: "w \<in> insert v V" and i: "i \<in> dom (pg_tables p3)" "i \<in> dom (pg_tables pg) \<or> i \<le> w div 1024"
    show "table_frame p3 i \<noteq> frame_of (pte p3 w)"
    proof (cases "w \<in> V")
      case True
      have "i \<in> dom (pg_tables p2) \<or> i \<le> w div 1024"
        using i(2) tb(2) by blast
      moreover have "\<forall>v \<in> V. \<forall>i \<in> dom (pg_tables p3). i \<in> dom (pg_tables p2) \<or> i \<le> v div 1024 \<longrightarrow> table_frame p3 i \<noteq> frame_of (pte p3 v)"
        using f m(1) unfolding fresh_mapping_def by blast
      ultimately show ?thesis
        using True i(1) by blast
    next
      case False
      then have "w = v"
        using w by simp
      moreover have "i \<in> dom (pg_tables p2)" if "u \<in> V" "i = u div 1024" for u
        using i(2) that \<open>w = v\<close> tb(2) bspec [OF tb(3) that(1)] div_le_mono [of v u 1024] by auto
      then have "i \<in> dom (pg_tables p2)"
        using i(1) dom by auto
      ultimately show ?thesis
        using m(2) [of i] kept pv by (simp add: tables_kept_def)
    qed
  qed
  ultimately show ?thesis
    using f V(1-3) pv e other p2(3-5) unfolding fresh_mapping_def by simp
qed

lemma map_pages_ok:
  assumes "pg_wf pg" "unat i mod 4096 = 0" "unat i + cnt * 4096 \<le> 2 ^ 32" "4 * cnt \<le> frames_left pg"
    "\<forall>v \<in> {unat i div 4096 ..< unat i div 4096 + cnt}. Page_isAvail (pte pg v)"
  shows "\<exists>pg'. map_pages flags cnt i pg = Some (True, pg') \<and>
    fresh_mapping (heap_type flags) {unat i div 4096 ..< unat i div 4096 + cnt} pg pg'"
  using assms
proof (induction cnt arbitrary: i pg)
  case 0
  then show ?case
    by (simp add: fresh_mapping_def tables_kept_refl)
next
  case (Suc cnt)
  define v where "v = unat i div 4096"
  obtain p1 where p1: "PageDir_getPage i True pg = Some (Some (v div 1024, v mod 1024), p1)" "grown pg p1" "has_table v p1"
      "dom (pg_tables p1) = insert (v div 1024) (dom (pg_tables pg))"
    using getPage_ok [OF Suc.prems(1), of i] unfolding v_def by blast
  then have wf1: "pg_wf p1" "pte p1 = pte pg"
    by (simp_all add: grown_def)
  obtain F where F: "finite F" "card F \<le> 3" "fb.marked (pg_bits pg) (pg_bits p1) F"
    using p1(2) by (auto simp: grown_def)
  have av: "Page_isAvail (pte p1 v)"
    using Suc.prems(5) wf1(2) by (simp add: v_def)
  have left1: "4 * cnt + 1 \<le> frames_left p1"
    using fb.avail_marked [OF F(3,1)] F(2) Suc.prems(4) by simp
  then have "0 < frames_left p1"
    by simp
  then obtain k p2 where p2: "PagingPrivate_mapFrame (Some (v div 1024, v mod 1024)) (heap_type flags) MapPageRW p1 = Some (True, p2)"
      "mapped_page v (frame_entry (k * PAGE_SIZE) (heap_type flags) MapPageRW (pte p1 v)) {unat k} p1 p2"
      "unat k < unat (m_cnt (pg_bits p1))" "unat k \<notin> frames_used p1"
    by (rule mapFrame_ok [OF wf1(1) p1(3) av])
  let ?e = "frame_entry (k * PAGE_SIZE) (heap_type flags) MapPageRW (pte p1 v)"
  have wf2: "pg_wf p2" "pte p2 = (pte pg)(v := ?e)" "fb.marked (pg_bits p1) (pg_bits p2) {unat k}"
    using p2(2) wf1(2) by (simp_all add: mapped_page_def)
  have k: "unat k < 2 ^ 20" "frame_of ?e = unat k"
    using p2(3) wf1(1) frame_of_entry by (auto simp: pg_wf_def)
  have step: "map_pages flags (Suc cnt) i pg = map_pages flags cnt (i + PAGE_SIZE) p2"
    using p1(1) p2(1) av by (simp add: page_avail_def page_entry(1) [OF wf1(1) p1(3)])
  have used: "frames_used p1 = frames_used pg \<union> (F \<inter> {..<unat (m_cnt (pg_bits pg))})" "m_cnt (pg_bits p1) = m_cnt (pg_bits pg)"
      "frames_used p2 = insert (unat k) (frames_used p1)" "m_cnt (pg_bits p2) = m_cnt (pg_bits p1)"
    using F(3) wf2(3) p2(3) by (auto simp: fb.marked_def word_unat_eq_iff)
  have p2_ok: "insert (frame_of ?e) (frames_used pg) \<subseteq> frames_used p2" "m_cnt (pg_bits p2) = m_cnt (pg_bits pg)"
      "heap_address p2 = heap_address pg" "user_heap_address p2 = user_heap_address pg" "frame_of ?e \<notin> frames_used pg"
    using used k(2) p2(2,4) p1(2) by (auto simp: grown_def mapped_page_def)
  have tb: "tables_kept pg p2" "dom (pg_tables p2) = insert (v div 1024) (dom (pg_tables pg))" "\<forall>w \<in> {v + 1 ..< v + 1 + cnt}. v \<le> w"
    using p1(2,4) p2(2) by (auto simp: grown_def mapped_page_def tables_kept_def table_frame_def)
  have tm: "tables_marked p2 \<and> (\<forall>j \<in> dom (pg_tables p2). table_frame p2 j \<noteq> frame_of ?e)" if "tables_marked pg"
  proof (intro conjI ballI)
    have m: "tables_marked p1"
      using p1(2) that by (simp add: grown_def)
    then show "tables_marked p2"
      by (rule mapped_page_tables [OF p2(2)])
    fix j
    assume "j \<in> dom (pg_tables p2)"
    then have "j \<in> dom (pg_tables p1)" "table_frame p2 j = table_frame p1 j"
      using p2(2) by (simp_all add: mapped_page_def table_frame_def)
    then show "table_frame p2 j \<noteq> frame_of ?e"
      using m [unfolded tables_marked_def, rule_format, of j] p2(3,4) k(2) by auto
  qed
  have V: "{v ..< v + Suc cnt} = insert v {v + 1 ..< v + 1 + cnt}"
    by auto
  have "\<exists>p3. map_pages flags cnt (i + PAGE_SIZE) p2 = Some (True, p3) \<and>
      fresh_mapping (heap_type flags) {v + 1 ..< v + 1 + cnt} p2 p3"
  proof (cases cnt)
    case 0
    then show ?thesis
      using wf2(1) by (simp add: fresh_mapping_def tables_kept_refl)
  next
    case (Suc cnt')
    have "unat i + 4096 < 2 ^ 32"
      using Suc.prems(3) Suc by simp
    then have i': "unat (i + PAGE_SIZE) = unat i + 4096"
      using unat_add_lem [of i PAGE_SIZE] by (simp add: PAGE_SIZE_def)
    then have v': "unat (i + PAGE_SIZE) div 4096 = v + 1" "unat (i + PAGE_SIZE) mod 4096 = 0"
      using Suc.prems(2) by (simp_all add: v_def)
    have av2: "\<forall>w \<in> {unat (i + PAGE_SIZE) div 4096 ..< unat (i + PAGE_SIZE) div 4096 + cnt}. Page_isAvail (pte p2 w)"
      using Suc.prems(5) wf2(2) by (simp add: v' v_def [symmetric])
    have left2: "4 * cnt \<le> frames_left p2"
      using fb.avail_marked [OF wf2(3)] left1 by simp
    have "unat (i + PAGE_SIZE) + cnt * 4096 \<le> 2 ^ 32"
      using Suc.prems(3) i' by simp
    from Suc.IH [OF wf2(1) v'(2) this left2 av2] show ?thesis
      unfolding v'(1) .
  qed
  then obtain p3 where p3: "map_pages flags cnt (i + PAGE_SIZE) p2 = Some (True, p3)"
      "fresh_mapping (heap_type flags) {v + 1 ..< v + 1 + cnt} p2 p3"
    by blast
  have "fresh_mapping (heap_type flags) (insert v {v + 1 ..< v + 1 + cnt}) pg p3"
    by (rule fresh_mapping_insert [OF p3(2) _ wf2(2) p2_ok(1-4) _ _ _ p2_ok(5) tb tm]) simp_all
  then show ?case
    using step p3(1) V unfolding v_def by (simp del: map_pages.simps(2))
qed

lemma align_up_ok: "unat h \<le> 2 ^ 32 - 4096 \<Longrightarrow> align_up h = Some (of_nat (up (unat h)))"
proof (induction "up (unat h) - unat h" arbitrary: h)
  case 0
  then have "unat h mod 4096 = 0"
    using up_bounds(1) [of "unat h"] up_bounds(3) [of "unat h"] by simp
  then show ?case
    by (subst align_up.simps) (simp add: up_aligned PAGE_SIZE_def word_unat_eq_iff unat_mod)
next
  case (Suc d)
  have a: "unat h mod 4096 \<noteq> 0"
    using Suc(2) up_aligned [of "unat h"] by (metis diff_self_eq_0 nat.simps(3))
  have "unat h \<noteq> 2 ^ 32 - 4096"
    using a by auto
  then have h: "unat (h + 1) = Suc (unat h)" "unat (h + 1) \<le> 2 ^ 32 - 4096"
    using Suc.prems unat_add_lem [of h 1] by simp_all
  have "h mod PAGE_SIZE \<noteq> 0"
    using a by (simp add: PAGE_SIZE_def word_unat_eq_iff unat_mod)
  then have "align_up h = align_up (h + 1)"
    by (subst align_up.simps) simp
  then show ?case
    using Suc.hyps(1) [of "h + 1"] Suc(2) h up_Suc [OF a] by simp
qed

lemma advance_eq: "advance n h = h + of_nat n * PAGE_SIZE"
  by (induction n arbitrary: h) (simp_all add: algebra_simps)

lemma pg_wf_heap [simp]: "pg_wf (set_heap flags h pg) = pg_wf pg" "pte (set_heap flags h pg) = pte pg"
  "pg_bits (set_heap flags h pg) = pg_bits pg"
  by (simp_all add: set_heap_def pg_wf_def room_def pte_def fun_eq_iff)

text \<open>What \<^verbatim>\<open>unmap\<close> does, for the page whose table entry it looks at: that of address \<open>p div 4096\<close>.\<close>

lemma unmap_ok:
  assumes "pg_wf pg"
  shows "\<exists>pg'. PagingPrivate_unmap p pg = Some (0, pg') \<and> pg_wf pg' \<and> m_cnt (pg_bits pg') = m_cnt (pg_bits pg) \<and>
    (let v = unat p div 4096 div 4096 in
      if has_table v pg then frames_used pg' = frames_used pg - {frame_of (pte pg v)} \<and> (\<exists>e. pte pg' = (pte pg)(v := e))
      else pg' = pg)"
proof (cases "has_table (unat p div 4096 div 4096) pg")
  case False
  then have "PageDir_getPage (p div PAGE_SIZE) False pg = Some (None, pg)"
    by (simp add: PageDir_getPage_def has_table_def unat_page Let_def PAGES_PER_TABLE_def)
  then show ?thesis
    using False assms by (simp add: PagingPrivate_unmap_def Let_def)
next
  case True
  define v where "v = unat p div 4096 div 4096"
  have t: "has_table v pg" "PageDir_getPage (p div PAGE_SIZE) False pg = Some (Some (v div 1024, v mod 1024), pg)"
    using True getPage_present [of "p div PAGE_SIZE" pg False] by (simp_all add: v_def unat_page)
  define e where "e = Page_setAddress 0 (Page_setUserspace False (Page_setRw False (Page_setPresent False (pte pg v))))"
  obtain pg1 where pg1: "page_put (v div 1024, v mod 1024) e pg = Some pg1" "mapped_page v e {} pg pg1"
    using mapped_pageI [OF assms t(1) frames_refl, of e] assms by (auto simp: pg_wf_def)
  then have wf1: "pg_wf pg1" "pg_bits pg1 = pg_bits pg"
    by (auto simp: mapped_page_def page_put_def split: if_splits)
  obtain r b where b: "Bits_clear (Page_getAddress (pte pg v) div PAGE_SIZE) (pg_bits pg1) = Some (r, b)" "frames_inv b"
      "unat (m_cnt b) = unat (m_cnt (pg_bits pg))" "Bits_abs b = frames_used pg - {frame_of (pte pg v)}"
    using fb.clear_law [of "pg_bits pg1" "Page_getAddress (pte pg v) div PAGE_SIZE"] wf1
    by (auto simp: pg_wf_def unat_page frame_of_def)
  have run: "PagingPrivate_unmap p pg = Some (0, pg1\<lparr>pg_bits := b\<rparr>)"
    using t pg1(1) b(1) wf1(1) by (simp add: pg_wf_def PagingPrivate_unmap_def page_entry(1) [OF assms t(1)] bits_clear_def bits_data_def e_def Let_def)
  have "pg_wf (pg1\<lparr>pg_bits := b\<rparr>)" "pte (pg1\<lparr>pg_bits := b\<rparr>) = (pte pg)(v := e)"
    using wf1 b pg1(2) by (auto simp: pg_wf_def room_def mapped_page_def pte_def fun_eq_iff)
  then show ?thesis
    using run b t(1) unfolding v_def [symmetric] by (auto simp: word_unat_eq_iff)
qed

lemma Paging_free_ok:
  assumes "pg_wf pg"
  shows "\<exists>pg'. Paging_free p n pg = Some pg' \<and> pg_wf pg' \<and> (0 < n \<longrightarrow> 0 \<notin> frames_used pg') \<and>
    (\<forall>v. (\<forall>k < n. v \<noteq> unat (p + of_nat k * PAGE_SIZE) div 4096 div 4096) \<longrightarrow> pte pg' v = pte pg v)"
  using assms
proof (induction n arbitrary: p pg)
  case (Suc n)
  obtain p1 where p1: "PagingPrivate_unmap p pg = Some (0, p1)" "pg_wf p1"
      "\<And>v. v \<noteq> unat p div 4096 div 4096 \<Longrightarrow> pte p1 v = pte pg v"
    using unmap_ok [OF Suc.prems, of p] by (auto simp: Let_def split: if_splits)
  obtain r b where b: "Bits_clear 0 (pg_bits p1) = Some (r, b)" "frames_inv b" "unat (m_cnt b) = unat (m_cnt (pg_bits p1))"
      "Bits_abs b = frames_used p1 - {0}"
    using fb.clear_law [of "pg_bits p1" 0] p1(2) by (auto simp: pg_wf_def)
  let ?p2 = "p1\<lparr>pg_bits := b\<rparr>"
  have p2: "PagingPrivate_freePage 0 p1 = Some ?p2" "pg_wf ?p2" "pte ?p2 = pte p1"
    using b p1(2) by (auto simp: PagingPrivate_freePage_def bits_clear_def bits_data_def pg_wf_def room_def pte_def fun_eq_iff)
  obtain p3 where p3: "Paging_free (p + PAGE_SIZE) n ?p2 = Some p3" "pg_wf p3" "0 < n \<longrightarrow> 0 \<notin> frames_used p3"
      "\<And>v. (\<forall>k < n. v \<noteq> unat (p + PAGE_SIZE + of_nat k * PAGE_SIZE) div 4096 div 4096) \<Longrightarrow> pte p3 v = pte ?p2 v"
    using Suc.IH [OF p2(2), of "p + PAGE_SIZE"] by metis
  have "0 \<notin> frames_used p3"
  proof (cases "n = 0")
    case True
    then have "p3 = ?p2"
      using p3(1) by simp
    then show ?thesis
      using b(4) by simp
  qed (use p3(3) in simp)
  moreover have "pte p3 v = pte pg v" if v: "\<forall>k < Suc n. v \<noteq> unat (p + of_nat k * PAGE_SIZE) div 4096 div 4096" for v
  proof -
    have "v \<noteq> unat p div 4096 div 4096"
      using v [rule_format, of 0] by simp
    moreover have "v \<noteq> unat (p + PAGE_SIZE + of_nat k * PAGE_SIZE) div 4096 div 4096" if "k < n" for k
      using v [rule_format, of "Suc k"] that by (simp add: distrib_right add.assoc)
    ultimately show ?thesis
      using p3(4) [of v] p2(3) p1(3) [of v] by simp
  qed
  moreover have "Paging_free p (Suc n) pg = Some p3"
    using p1(1) p2(1) p3(1) by simp
  ultimately show ?case
    using p3(2) by (intro exI [of _ p3] conjI allI impI) simp_all
qed simp

section \<open>Initialisation\<close>

lemma reserve_loop_ok:
  assumes "pg_wf pg" "unat lim + 4096 \<le> 2 ^ 32"
  shows "\<exists>pg'. reserve_loop lim i pg = Some pg' \<and> pg_wf pg' \<and> pte pg' = pte pg \<and> room pg' \<le> room pg \<and>
    unat (free_page_address pg) \<le> unat (free_page_address pg')"
  using assms(1)
proof (induction "2 ^ 32 - unat i" arbitrary: i pg rule: less_induct)
  case less
  show ?case
  proof (cases "i < lim")
    case False
    then show ?thesis
      using less.prems by (subst reserve_loop.simps) simp
  next
    case True
    obtain p1 where p1: "PageDir_getPage i True pg = Some (Some (unat i div 4096 div 1024, unat i div 4096 mod 1024), p1)" "grown pg p1"
      by (rule getPage_ok [OF less.prems])
    have "unat i < unat lim"
      using True by (simp add: word_less_nat_alt)
    then have "unat (i + PAGE_SIZE) = unat i + 4096"
      using assms(2) unat_add_lem [of i PAGE_SIZE] by (simp add: PAGE_SIZE_def)
    then have "2 ^ 32 - unat (i + PAGE_SIZE) < 2 ^ 32 - unat i"
      using unat_u32_less [of i] by linarith
    then obtain p2 where "reserve_loop lim (i + PAGE_SIZE) p1 = Some p2" "pg_wf p2" "pte p2 = pte p1" "room p2 \<le> room p1"
        "unat (free_page_address p1) \<le> unat (free_page_address p2)"
      using less.hyps [of "i + PAGE_SIZE" p1] p1(2) by (auto simp: grown_def)
    then show ?thesis
      using True p1 by (subst reserve_loop.simps) (auto simp: grown_def)
  qed
qed

text \<open>Every page that is present is mapped to the frame of the same number, for the kernel, and that frame is marked.\<close>

definition identity_mapped :: "paging \<Rightarrow> bool" where
  "identity_mapped pg \<longleftrightarrow> (\<forall>v. Page_getPresent (pte pg v) \<longrightarrow> frame_of (pte pg v) = v \<and> Page_getRw (pte pg v) \<and>
     \<not> Page_getUserspace (pte pg v) \<and> (v \<in> frames_used pg \<or> unat (m_cnt (pg_bits pg)) \<le> v))"

lemma identity_mapped_grown: "identity_mapped pg \<Longrightarrow> grown pg pg' \<Longrightarrow> identity_mapped pg'"
  by (auto simp: identity_mapped_def grown_def fb.marked_def)

lemma identity_mapped_page:
  assumes "identity_mapped pg" "mapped_page (unat a div 4096) (frame_entry a MapPageKernel MapPageRW e) {unat a div 4096} pg pg'"
  shows "identity_mapped pg'"
proof -
  have "frame_of (frame_entry a MapPageKernel MapPageRW e) = unat a div 4096"
    by (simp add: frame_of_def unat_getAddress)
  then show ?thesis
    using assms by (auto simp: identity_mapped_def mapped_page_def fb.marked_def)
qed

lemma identity_step:
  assumes "pg_wf pg" "identity_mapped pg"
  obtains p r pg1 pg2 where "PageDir_getPage i True pg = Some (p, pg1)"
    "PagingPrivate_identityMapFrame p i MapPageKernel MapPageRW pg1 = Some (r, pg2)"
    "pg_wf pg2" "identity_mapped pg2" "room pg2 \<le> room pg" "unat (free_page_address pg) \<le> unat (free_page_address pg2)" "Page_getPresent (pte pg2 (unat i div 4096))"
    "\<And>v. Page_getPresent (pte pg v) \<Longrightarrow> Page_getPresent (pte pg2 v)"
proof -
  let ?v = "unat i div 4096"
  obtain p1 where p1: "PageDir_getPage i True pg = Some (Some (?v div 1024, ?v mod 1024), p1)" "grown pg p1" "has_table ?v p1"
    by (rule getPage_ok [OF assms(1)])
  then have wf1: "pg_wf p1" "pte p1 = pte pg" "room p1 \<le> room pg" "unat (free_page_address pg) \<le> unat (free_page_address p1)"
    by (simp_all add: grown_def)
  obtain r p2 where p2: "PagingPrivate_identityMapFrame (Some (?v div 1024, ?v mod 1024)) i MapPageKernel MapPageRW p1 = Some (r, p2)"
      "mapped_page ?v (frame_entry i MapPageKernel MapPageRW (pte p1 ?v)) {?v} p1 p2"
    by (rule identityMapFrame_ok [OF wf1(1) p1(3)])
  have "identity_mapped p2"
    by (rule identity_mapped_page [OF identity_mapped_grown [OF assms(2) p1(2)] p2(2)])
  then show ?thesis
    using that [OF p1(1) p2(1)] p2(2) wf1 by (auto simp: mapped_page_def)
qed

lemma identity_loop_ok:
  assumes "pg_wf pg" "identity_mapped pg" "\<And>pg'. pg_wf pg' \<Longrightarrow> room pg' \<le> room pg \<Longrightarrow> unat (lim pg') + 4096 \<le> 2 ^ 32"
  shows "\<exists>pg'. identity_loop lim i pg = Some pg' \<and> pg_wf pg' \<and> identity_mapped pg' \<and> room pg' \<le> room pg \<and>
    unat (free_page_address pg) \<le> unat (free_page_address pg') \<and>
    (\<forall>v. Page_getPresent (pte pg v) \<longrightarrow> Page_getPresent (pte pg' v)) \<and>
    (\<forall>k. unat i + k * 4096 < unat (lim pg') \<longrightarrow> Page_getPresent (pte pg' (unat i div 4096 + k)))"
  using assms
proof (induction "2 ^ 32 - unat i" arbitrary: i pg rule: less_induct)
  case less
  show ?case
  proof (cases "i < lim pg")
    case False
    then show ?thesis
      using less.prems by (subst identity_loop.simps) (simp add: word_less_nat_alt)
  next
    case True
    obtain p r p1 p2 where st: "PageDir_getPage i True pg = Some (p, p1)"
        "PagingPrivate_identityMapFrame p i MapPageKernel MapPageRW p1 = Some (r, p2)"
        "pg_wf p2" "identity_mapped p2" "room p2 \<le> room pg" "unat (free_page_address pg) \<le> unat (free_page_address p2)" "Page_getPresent (pte p2 (unat i div 4096))"
        "\<And>v. Page_getPresent (pte pg v) \<Longrightarrow> Page_getPresent (pte p2 v)"
      by (rule identity_step [OF less.prems(1,2)]) blast
    have "unat i < unat (lim pg)" "unat (lim pg) + 4096 \<le> 2 ^ 32"
      using True less.prems(1,3) by (auto simp: word_less_nat_alt)
    then have i: "unat (i + PAGE_SIZE) = unat i + 4096" "unat i < 2 ^ 32"
      using unat_add_lem [of i PAGE_SIZE] by (simp_all add: PAGE_SIZE_def)
    then have "\<exists>pg'. identity_loop lim (i + PAGE_SIZE) p2 = Some pg' \<and> pg_wf pg' \<and> identity_mapped pg' \<and> room pg' \<le> room p2 \<and>
        unat (free_page_address p2) \<le> unat (free_page_address pg') \<and>
        (\<forall>v. Page_getPresent (pte p2 v) \<longrightarrow> Page_getPresent (pte pg' v)) \<and>
        (\<forall>k. unat (i + PAGE_SIZE) + k * 4096 < unat (lim pg') \<longrightarrow> Page_getPresent (pte pg' (unat (i + PAGE_SIZE) div 4096 + k)))"
      by (intro less.hyps st(3,4) less.prems(3)) (use st(5) in simp_all)
    then obtain p3 where p3: "identity_loop lim (i + PAGE_SIZE) p2 = Some p3" "pg_wf p3" "identity_mapped p3" "room p3 \<le> room p2"
        "unat (free_page_address p2) \<le> unat (free_page_address p3)"
        "\<And>v. Page_getPresent (pte p2 v) \<Longrightarrow> Page_getPresent (pte p3 v)"
        "\<And>k. unat i + 4096 + k * 4096 < unat (lim p3) \<Longrightarrow> Page_getPresent (pte p3 ((unat i + 4096) div 4096 + k))"
      unfolding i(1) by blast
    have "Page_getPresent (pte p3 (unat i div 4096 + k))" if "unat i + k * 4096 < unat (lim p3)" for k
      using p3(6) [OF st(7)] p3(7) [of "k - 1"] that by (cases k) (simp_all add: div_add_self2)
    moreover have "identity_loop lim i pg = Some p3"
      using True st(1,2) p3(1) by (subst identity_loop.simps) simp
    ultimately show ?thesis
      using p3(2-6) st(5,6,8) by (intro exI [of _ p3]) auto
  qed
qed

text \<open>
  The loops as extensions of the identity mapping: \<open>maps V pg pg'\<close> says that the pages \<open>V\<close> are present
  in \<open>pg'\<close>, and what was present in \<open>pg\<close> still is.
\<close>

definition maps :: "nat set \<Rightarrow> paging \<Rightarrow> paging \<Rightarrow> bool" where
  "maps V pg pg' \<longleftrightarrow> pg_wf pg' \<and> identity_mapped pg' \<and> room pg' \<le> room pg \<and>
     unat (free_page_address pg) \<le> unat (free_page_address pg') \<and>
     (\<forall>v. v \<in> V \<or> Page_getPresent (pte pg v) \<longrightarrow> Page_getPresent (pte pg' v))"

definition pages_between :: "u32 \<Rightarrow> nat \<Rightarrow> nat set" where
  "pages_between i e = {v. unat i div 4096 \<le> v \<and> unat i + (v - unat i div 4096) * 4096 < e}"

lemma maps_trans: "maps V pg p1 \<Longrightarrow> maps W p1 p2 \<Longrightarrow> maps (V \<union> W) pg p2"
  by (auto simp: maps_def)

lemma maps_loop:
  assumes "pg_wf pg" "identity_mapped pg" "\<And>pg'. room pg' \<le> room pg \<Longrightarrow> unat (lim pg') + 4096 \<le> 2 ^ 32"
  shows "\<exists>pg'. identity_loop lim i pg = Some pg' \<and> maps (pages_between i (unat (lim pg'))) pg pg'"
proof -
  obtain pg' where pg': "identity_loop lim i pg = Some pg'" "pg_wf pg'" "identity_mapped pg'" "room pg' \<le> room pg"
      "unat (free_page_address pg) \<le> unat (free_page_address pg')" "\<And>v. Page_getPresent (pte pg v) \<Longrightarrow> Page_getPresent (pte pg' v)"
      "\<And>k. unat i + k * 4096 < unat (lim pg') \<Longrightarrow> Page_getPresent (pte pg' (unat i div 4096 + k))"
    using identity_loop_ok [OF assms(1,2), of lim i] assms(3) by blast
  have "Page_getPresent (pte pg' v)" if "v \<in> pages_between i (unat (lim pg'))" for v
    using pg'(7) [of "v - unat i div 4096"] that by (simp add: pages_between_def)
  with pg' show ?thesis
    by (auto simp: maps_def)
qed

lemma maps_range:
  assumes "maps V pg p1" "unat c + 4096 \<le> 2 ^ 32"
  obtains p2 where "identity_loop (\<lambda>_. c) i p1 = Some p2" "maps (V \<union> pages_between i (unat c)) pg p2"
  using maps_loop [of p1 "\<lambda>_. c" i] assms maps_trans [OF assms(1)] by (auto simp: maps_def)

definition low_pages :: "nat set" where
  "low_pages = {..15} \<union> {0xA0 .. 0xFF}"

lemma low_pages_covered:
  "low_pages \<subseteq> pages_between 1 0x10000 \<union> pages_between 0xA0000 0xBFFFF \<union> pages_between 0xC0000 0xC7FFF \<union>
     pages_between 0xC8000 0xEFFFF \<union> pages_between 0xF0000 0xFFFFF"
  by (auto simp: low_pages_def pages_between_def)

lemma map_low_memory_ok:
  assumes wf: "pg_wf pg" "identity_mapped pg" and room: "room pg + 0x101000 \<le> 2 ^ 32" and st: "unat stack_top + 4096 \<le> 2 ^ 32"
  shows "\<exists>f pg'. map_low_memory stack_bottom stack_top pg = Some pg' \<and> unat (free_page_address pg) \<le> f \<and>
    maps (low_pages \<union> {v. 256 \<le> v \<and> v * 4096 < f}) pg pg'"
proof -
  have free: "unat (free_page_address p) \<le> room p" for p
    by (simp add: room_def)
  have m0: "maps {} pg pg"
    using wf by (simp add: maps_def)
  obtain p1 where p1: "identity_loop (\<lambda>_. 0x10000) 1 pg = Some p1" "maps ({} \<union> pages_between 1 (unat (0x10000 :: u32))) pg p1"
    by (rule maps_range [OF m0, of "0x10000" 1]) simp_all
  obtain p2 where p2: "identity_loop (\<lambda>_. 0xBFFFF) 0xA0000 p1 = Some p2" "maps ({} \<union> pages_between 1 (unat (0x10000 :: u32)) \<union> pages_between 0xA0000 (unat (0xBFFFF :: u32))) pg p2"
    by (rule maps_range [OF p1(2), of "0xBFFFF" "0xA0000"]) simp_all
  obtain p3 where p3: "identity_loop (\<lambda>_. 0xC7FFF) 0xC0000 p2 = Some p3" "maps ({} \<union> pages_between 1 (unat (0x10000 :: u32)) \<union> pages_between 0xA0000 (unat (0xBFFFF :: u32)) \<union> pages_between 0xC0000 (unat (0xC7FFF :: u32))) pg p3"
    by (rule maps_range [OF p2(2), of "0xC7FFF" "0xC0000"]) simp_all
  obtain p4 where p4: "identity_loop (\<lambda>_. 0xEFFFF) 0xC8000 p3 = Some p4" "maps ({} \<union> pages_between 1 (unat (0x10000 :: u32)) \<union> pages_between 0xA0000 (unat (0xBFFFF :: u32)) \<union> pages_between 0xC0000 (unat (0xC7FFF :: u32)) \<union> pages_between 0xC8000 (unat (0xEFFFF :: u32))) pg p4"
    by (rule maps_range [OF p3(2), of "0xEFFFF" "0xC8000"]) simp_all
  obtain p5 where p5: "identity_loop (\<lambda>_. 0xFFFFF) 0xF0000 p4 = Some p5" "maps ({} \<union> pages_between 1 (unat (0x10000 :: u32)) \<union> pages_between 0xA0000 (unat (0xBFFFF :: u32)) \<union> pages_between 0xC0000 (unat (0xC7FFF :: u32)) \<union> pages_between 0xC8000 (unat (0xEFFFF :: u32)) \<union> pages_between 0xF0000 (unat (0xFFFFF :: u32))) pg p5"
    by (rule maps_range [OF p4(2), of "0xFFFFF" "0xF0000"]) simp_all
  have m5: "maps low_pages pg p5"
    using p5(2) low_pages_covered by (auto simp: maps_def)
  have lim: "unat (free_page_address p) + 0x101000 \<le> 2 ^ 32" if "room p \<le> room p5" for p
    using free [of p] that m5 room unfolding maps_def by linarith
  obtain p6 where p6: "identity_loop free_page_address 0x100000 p5 = Some p6" "maps (pages_between 0x100000 (unat (free_page_address p6))) p5 p6"
    using maps_loop [of p5 free_page_address "0x100000"] m5 lim by (fastforce simp: maps_def)
  have m6: "maps (low_pages \<union> {v. 256 \<le> v \<and> v * 4096 < unat (free_page_address p6)}) pg p6"
    using maps_trans [OF m5 p6(2)] by (auto simp: maps_def pages_between_def)
  obtain p7 where p7: "identity_loop (\<lambda>_. stack_top) stack_bottom p6 = Some p7"
      "maps (low_pages \<union> {v. 256 \<le> v \<and> v * 4096 < unat (free_page_address p6)} \<union> pages_between stack_bottom (unat stack_top)) pg p7"
    by (rule maps_range [OF m6 st])
  have "room p7 \<le> room pg"
    using p7(2) by (simp add: maps_def)
  then have "unat (free_page_address p7) + 0x101000 \<le> 2 ^ 32"
    using free [of p7] room by linarith
  then have "unat (free_page_address p7 + KERNEL_INIT_SIZE) + 4096 \<le> 2 ^ 32"
    using unat_add_lem [of "free_page_address p7" KERNEL_INIT_SIZE] by (simp add: KERNEL_INIT_SIZE_def)
  then obtain p8 where p8: "identity_loop (\<lambda>_. free_page_address p7 + KERNEL_INIT_SIZE) (free_page_address p7) p7 = Some p8"
      "maps (low_pages \<union> {v. 256 \<le> v \<and> v * 4096 < unat (free_page_address p6)} \<union> pages_between stack_bottom (unat stack_top) \<union>
        pages_between (free_page_address p7) (unat (free_page_address p7 + KERNEL_INIT_SIZE))) pg p8"
    by (rule maps_range [OF p7(2)])
  have "map_low_memory stack_bottom stack_top pg = Some p8"
    by (simp add: map_low_memory_def p1(1) p2(1) p3(1) p4(1) p5(1) p6(1) p7(1) p8(1) del: bind_Some_iff)
  moreover have "unat (free_page_address pg) \<le> unat (free_page_address p6)"
    using m6 by (simp add: maps_def)
  ultimately show ?thesis
    using p8(2) by (intro exI [of _ "unat (free_page_address p6)"] exI [of _ p8]) (auto simp: maps_def)
qed

lemma alloc_then:
  assumes "frames_ok pg" "unat (free_page_address pg) + 4095 + unat sz < 2 ^ 32"
  obtains a b f where "Paging_allocStatic sz pg = Some (a, pg\<lparr>pg_bits := b, free_page_address := f\<rparr>)"
    "frames_inv b" "m_cnt b = m_cnt (pg_bits pg)" "unat (free_page_address pg) \<le> unat a" "unat a \<le> unat f"
    "unat f \<le> unat (free_page_address pg) + 4095 + unat sz"
proof -
  let ?f = "unat (free_page_address pg)"
  have up: "?f \<le> up ?f" "up ?f \<le> ?f + 4095"
    by (rule up_bounds)+
  then have fits: "up ?f + unat sz < 2 ^ 32"
    using assms(2) by linarith
  then have u: "unat (of_nat (up ?f) :: u32) = up ?f" "unat (of_nat (up ?f) + sz) = up ?f + unat sz"
    using unat_of_nat_u32 [of "up ?f"] unat_add_lem [of "of_nat (up ?f)" sz] by simp_all
  obtain b where b: "Paging_allocStatic sz pg = Some (of_nat (up ?f), pg\<lparr>pg_bits := b, free_page_address := of_nat (up ?f) + sz\<rparr>)"
      "fb.marked (pg_bits pg) b {?f div 4096 .. (up ?f + unat sz) div 4096}"
    by (rule allocStatic_ok [OF assms(1) fits])
  show ?thesis
    by (rule that [OF b(1)]) (use b(2) u up in \<open>auto simp: fb.marked_def word_unat_eq_iff\<close>)
qed

lemma alloc_bounded:
  assumes "frames_ok pg" "free_page_address pg = f0" "unat sz \<le> N" "unat f0 + 4095 + N < 2 ^ 32"
  obtains a b f where "Paging_allocStatic sz pg = Some (a, pg\<lparr>pg_bits := b, free_page_address := f\<rparr>)"
    "frames_inv b" "m_cnt b = m_cnt (pg_bits pg)" "unat f0 \<le> unat a" "unat a \<le> unat f" "unat f \<le> unat f0 + 4095 + N"
proof -
  have "unat (free_page_address pg) + 4095 + unat sz < 2 ^ 32"
    using assms(2-4) by simp
  then obtain a b f where r: "Paging_allocStatic sz pg = Some (a, pg\<lparr>pg_bits := b, free_page_address := f\<rparr>)" "frames_inv b"
      "m_cnt b = m_cnt (pg_bits pg)" "unat (free_page_address pg) \<le> unat a" "unat a \<le> unat f"
      "unat f \<le> unat (free_page_address pg) + 4095 + unat sz"
    by (rule alloc_then [OF assms(1)])
  show ?thesis
    by (rule that [OF r(1-3)]) (use r(4-6) assms(2,3) in simp_all)
qed

lemma frames_inv_new: "32 dvd unat n \<Longrightarrow> frames_inv (Bits_new junk n)"
  by (simp add: frames_inv_def Bits_new_inv Bits_new_low) (simp add: Bits_new_def Bits_clearAll_def Let_def)

lemma Bits_new_cnt: "m_cnt (Bits_new junk n) = n" "unat n \<le> 2 ^ 20 \<Longrightarrow> unat (m_len (Bits_new junk n)) \<le> 2 ^ 15"
proof -
  show "m_cnt (Bits_new junk n) = n"
    by (simp add: Bits_new_def Bits_clearAll_def Let_def)
  then have "32 * unat (m_len (Bits_new junk n)) < unat n + 32"
    using Bits_new_inv [of junk n] by (simp add: Bits_inv_def)
  then show "unat n \<le> 2 ^ 20 \<Longrightarrow> unat (m_len (Bits_new junk n)) \<le> 2 ^ 15"
    by simp
qed

lemma empty_directory:
  assumes "frames_ok pg" "unat (m_cnt (pg_bits pg)) \<le> 2 ^ 20" "0 < unat (free_page_address pg)"
    "unat (free_page_address pg) \<le> 0xF0000000" "pg_tables pg = Map.empty"
  shows "pg_wf pg" "\<not> Page_getPresent (pte pg v)" "room pg \<le> unat (free_page_address pg) + 8192 * 1024"
  using assms by (auto simp: pg_wf_def tables_ok_def room_def pte_def Page_getPresent_def)

text \<open>The part of \<^verbatim>\<open>init\<close> that runs once the directory exists.\<close>

lemma init_tail:
  assumes wf: "pg_wf pg" "\<And>v. \<not> Page_getPresent (pte pg v)" and room: "room pg + 0x101000 \<le> 2 ^ 32"
    and st: "unat stack_top + 4096 \<le> 2 ^ 32"
  obtains f pg1 pg2 pg3 where "reserve_loop (HEAP_START + KERNEL_INIT_SIZE) HEAP_START pg = Some pg1"
    "reserve_loop (USER_HEAP_START + KERNEL_INIT_SIZE) USER_HEAP_START pg1 = Some pg2"
    "map_low_memory stack_bottom stack_top pg2 = Some pg3" "pg_wf pg3" "identity_mapped pg3"
    "unat (free_page_address pg) \<le> f" "\<And>v. v \<in> low_pages \<union> {v. 256 \<le> v \<and> v * 4096 < f} \<Longrightarrow> Page_getPresent (pte pg3 v)"
proof -
  obtain pg1 where pg1: "reserve_loop (HEAP_START + KERNEL_INIT_SIZE) HEAP_START pg = Some pg1" "pg_wf pg1" "pte pg1 = pte pg"
      "room pg1 \<le> room pg" "unat (free_page_address pg) \<le> unat (free_page_address pg1)"
    using reserve_loop_ok [OF wf(1), of "HEAP_START + KERNEL_INIT_SIZE" HEAP_START]
    by (auto simp: HEAP_START_def KERNEL_INIT_SIZE_def)
  obtain pg2 where pg2: "reserve_loop (USER_HEAP_START + KERNEL_INIT_SIZE) USER_HEAP_START pg1 = Some pg2" "pg_wf pg2" "pte pg2 = pte pg1"
      "room pg2 \<le> room pg1" "unat (free_page_address pg1) \<le> unat (free_page_address pg2)"
    using reserve_loop_ok [OF pg1(2), of "USER_HEAP_START + KERNEL_INIT_SIZE" USER_HEAP_START]
    by (auto simp: USER_HEAP_START_def KERNEL_INIT_SIZE_def)
  have "identity_mapped pg2" "room pg2 + 0x101000 \<le> 2 ^ 32"
    using wf(2) pg1(3,4) pg2(3,4) room by (auto simp: identity_mapped_def)
  then obtain f pg3 where "map_low_memory stack_bottom stack_top pg2 = Some pg3" "unat (free_page_address pg2) \<le> f"
      "maps (low_pages \<union> {v. 256 \<le> v \<and> v * 4096 < f}) pg2 pg3"
    using map_low_memory_ok [OF pg2(2) _ _ st, of stack_bottom] by blast
  then show ?thesis
    using that [OF pg1(1) pg2(1), of pg3 f] pg1(5) pg2(5) by (auto simp: maps_def)
qed

lemma init_mapping_ok:
  assumes pg: "frames_ok pg" "unat (m_cnt (pg_bits pg)) \<le> 2 ^ 20" "0 < unat (free_page_address pg)" "unat (free_page_address pg) \<le> 0xE0000000"
    and st: "unat stack_top + 4096 \<le> 2 ^ 32"
  shows "\<exists>pg' f. init_mapping stack_bottom stack_top pg = Some (True, pg') \<and>
    pg_wf pg' \<and> identity_mapped pg' \<and> unat (free_page_address pg) \<le> f \<and>
    (\<forall>v \<in> low_pages \<union> {v. 256 \<le> v \<and> v * 4096 < f}. Page_getPresent (pte pg' v))"
proof -
  obtain a3 b3 f3 where s3: "Paging_allocStatic 8196 pg = Some (a3, pg\<lparr>pg_bits := b3, free_page_address := f3\<rparr>)" "frames_inv b3"
      "m_cnt b3 = m_cnt (pg_bits pg)" "unat (free_page_address pg) \<le> unat a3" "unat a3 \<le> unat f3"
      "unat f3 \<le> unat (free_page_address pg) + 4095 + 8196"
    by (rule alloc_bounded [OF pg(1) refl, of 8196 8196]) (use pg(4) in simp_all)
  have a3: "a3 \<noteq> 0"
    using s3(4) pg(3) by (metis not_less unat_0)
  let ?p3 = "pg\<lparr>pg_bits := b3, free_page_address := f3, pg_tables := Map.empty, pg_tablesPhys := (\<lambda>_. 0)\<rparr>"
  have f3: "0 < unat f3" "unat f3 \<le> 0xF0000000" "unat (free_page_address pg) \<le> unat f3"
    using s3(4-6) pg(3,4) by simp_all
  have wf3: "pg_wf ?p3" "\<And>v. \<not> Page_getPresent (pte ?p3 v)" "room ?p3 \<le> unat f3 + 8192 * 1024"
    using empty_directory [of ?p3] s3(2,3) pg(1,2) f3 by simp_all
  have "room ?p3 + 0x101000 \<le> 2 ^ 32"
    using wf3(3) f3(2) by simp
  then obtain f q1 q2 q3 where q: "reserve_loop (HEAP_START + KERNEL_INIT_SIZE) HEAP_START ?p3 = Some q1"
    "reserve_loop (USER_HEAP_START + KERNEL_INIT_SIZE) USER_HEAP_START q1 = Some q2"
    "map_low_memory stack_bottom stack_top q2 = Some q3" "pg_wf q3" "identity_mapped q3"
    "unat (free_page_address ?p3) \<le> f" "\<And>v. v \<in> low_pages \<union> {v. 256 \<le> v \<and> v * 4096 < f} \<Longrightarrow> Page_getPresent (pte q3 v)"
    by (rule init_tail [OF wf3(1,2) _ st, of stack_bottom]) blast
  have "init_mapping stack_bottom stack_top pg = Some (True, q3\<lparr>pg_is_ok := True\<rparr>)"
    using s3(1) q(1-3) a3 by (simp add: init_mapping_def Let_def del: bind_Some_iff)
  moreover have "pg_wf (q3\<lparr>pg_is_ok := True\<rparr>)" "identity_mapped (q3\<lparr>pg_is_ok := True\<rparr>)" "pte (q3\<lparr>pg_is_ok := True\<rparr>) = pte q3"
    using q(4,5) by (simp_all add: pg_wf_def room_def identity_mapped_def pte_def fun_eq_iff)
  moreover have "unat (free_page_address pg) \<le> f"
    using q(6) f3(3) by simp
  ultimately show ?thesis
    using q(7) by (intro exI [of _ "q3\<lparr>pg_is_ok := True\<rparr>"] exI [of _ f]) simp
qed

text \<open>As long as there is no bitmap, static allocation dereferences \<^verbatim>\<open>nullptr\<close>.\<close>

lemma allocStatic_null: "\<not> pg_data pg \<Longrightarrow> Paging_allocStatic sz pg = None"
  by (cases "free_page_address pg AND (PAGE_SIZE - 1) = 0")
    (simp_all add: Paging_allocStatic_def PagingPrivate_pageAlign.simps [of PAGE_SIZE pg] PagingPrivate_freePageAddress_def
      mark_if_unset_def bits_set_def bits_isSet_def bits_data_def)

lemma init_null: "\<not> pg_data pg \<Longrightarrow> PagingPrivate_init junk stack_bottom stack_top info pg = None"
  by (simp add: PagingPrivate_init_def allocStatic_null Let_def split: Option.bind_split)

section \<open>Properties\<close>

text \<open>Every frame a present page is mapped to is marked, unless the machine has no such frame.\<close>

definition frames_marked :: "paging \<Rightarrow> bool" where
  "frames_marked pg \<longleftrightarrow> (\<forall>v. Page_getPresent (pte pg v) \<longrightarrow> frame_of (pte pg v) \<in> frames_used pg \<or> unat (m_cnt (pg_bits pg)) \<le> frame_of (pte pg v))"

lemma pte_heap [simp]: "pte (pg\<lparr>heap_address := h\<rparr>) = pte pg"
  by (simp add: pte_def fun_eq_iff)

lemma map_ok:
  assumes "pg_wf pg" "unat (heap_address pg) + 4096 + unat cnt * 4096 \<le> 2 ^ 32" "4 * unat cnt \<le> frames_left pg"
    "\<forall>v \<in> {up (unat (heap_address pg)) div 4096 ..< up (unat (heap_address pg)) div 4096 + unat cnt}. Page_isAvail (pte pg v)"
  shows "\<exists>pg'. Paging_alloc cnt pg = Some (of_nat (up (unat (heap_address pg))), pg') \<and>
    fresh_mapping MapPageKernel {up (unat (heap_address pg)) div 4096 ..< up (unat (heap_address pg)) div 4096 + unat cnt}
      (pg\<lparr>heap_address := of_nat (up (unat (heap_address pg)) + unat cnt * 4096)\<rparr>) pg'"
proof -
  let ?h = "unat (heap_address pg)"
  define i :: u32 where "i = of_nat (up ?h)"
  have up: "?h \<le> up ?h" "up ?h \<le> ?h + 4095" "up ?h mod 4096 = 0"
    by (rule up_bounds)+
  then have i: "unat i = up ?h"
    using assms(2) unfolding i_def by (intro unat_of_nat_u32) linarith
  have al: "align_up (heap_address pg) = Some i"
    using assms(2) align_up_ok [of "heap_address pg"] by (simp add: i_def)
  define p0 where "p0 = pg\<lparr>heap_address := advance (unat cnt) i\<rparr>"
  have p0: "pg_wf p0" "pte p0 = pte pg" "frames_left p0 = frames_left pg"
    using assms(1) by (simp_all add: p0_def pg_wf_def room_def pte_def fun_eq_iff)
  have flags: "PAGING_MAP_R0 AND PAGING_MAP_USER = 0"
    by (simp add: PAGING_MAP_R0_def PAGING_MAP_USER_def)
  obtain pg' where pg': "map_pages PAGING_MAP_R0 (unat cnt) i p0 = Some (True, pg')"
      "fresh_mapping (heap_type PAGING_MAP_R0) {unat i div 4096 ..< unat i div 4096 + unat cnt} p0 pg'"
    using map_pages_ok [OF p0(1), of i "unat cnt" PAGING_MAP_R0] assms(2-4) p0(2,3) i up by auto
  have "Paging_alloc cnt pg = Some (i, pg')"
    using al pg'(1) flags by (simp add: Paging_alloc_def PagingPrivate_map_def next_heap_def set_heap_def p0_def)
  moreover have "advance (unat cnt) i = of_nat (up ?h + unat cnt * 4096)"
    by (simp add: advance_eq i_def PAGE_SIZE_def ucast_id)
  ultimately show ?thesis
    using pg'(2) flags i by (auto simp: p0_def heap_type_def i_def)
qed

text \<open>
  C15: \<^verbatim>\<open>Paging::alloc(cnt)\<close> maps \<open>cnt\<close> new pages.  When four frames are left for every page asked for
  (one for the page and up to three for page tables) and the pages at the heap pointer are free, it
  returns the heap pointer rounded up to a page; the pages from there on are present, writable and for
  the kernel, each mapped to its own frame, which was not marked before, is marked now and is mapped by no other page;
  no other entry changes, and the heap pointer moves behind the pages.  New page tables are marked as well, and the frame of a page
  holds none of the page tables that were there before, nor the one for that page, nor one for lower pages.  It may hold a table
  that the same call creates later, for a higher page: static allocation does not ask whether its frame is free.
\<close>

theorem Paging_alloc_fresh:
  assumes "pg_wf pg" "frames_marked pg" "tables_marked pg"
    "unat (heap_address pg) + 4096 + unat cnt * 4096 \<le> 2 ^ 32" "4 * unat cnt \<le> frames_left pg"
    "V = {up (unat (heap_address pg)) div 4096 ..< up (unat (heap_address pg)) div 4096 + unat cnt}"
    "\<forall>v \<in> V. Page_isAvail (pte pg v)"
  shows "\<exists>pg'. Paging_alloc cnt pg = Some (of_nat (up (unat (heap_address pg))), pg') \<and> pg_wf pg' \<and> frames_marked pg' \<and> tables_marked pg' \<and>
    heap_address pg' = of_nat (up (unat (heap_address pg)) + unat cnt * 4096) \<and>
    (\<forall>v \<in> V. Page_getPresent (pte pg' v) \<and> Page_getRw (pte pg' v) \<and> \<not> Page_getUserspace (pte pg' v) \<and>
      frame_of (pte pg' v) \<in> frames_used pg' \<and> frame_of (pte pg' v) \<notin> frames_used pg \<and>
      (\<forall>w. w \<noteq> v \<and> Page_getPresent (pte pg' w) \<longrightarrow> frame_of (pte pg' w) \<noteq> frame_of (pte pg' v)) \<and>
      (\<forall>i \<in> dom (pg_tables pg'). i \<in> dom (pg_tables pg) \<or> i \<le> v div 1024 \<longrightarrow> table_frame pg' i \<noteq> frame_of (pte pg' v))) \<and>
    dom (pg_tables pg') = dom (pg_tables pg) \<union> (\<lambda>v. v div 1024) ` V \<and>
    (\<forall>v. v \<notin> V \<longrightarrow> pte pg' v = pte pg v)"
proof -
  let ?p0 = "pg\<lparr>heap_address := of_nat (up (unat (heap_address pg)) + unat cnt * 4096)\<rparr>"
  obtain pg' where run: "Paging_alloc cnt pg = Some (of_nat (up (unat (heap_address pg))), pg')" and f: "fresh_mapping MapPageKernel V ?p0 pg'"
    using map_ok [OF assms(1,4,5)] assms(6,7) by auto
  have wf: "pg_wf pg'" and V: "\<And>v. v \<in> V \<Longrightarrow> Page_getPresent (pte pg' v) \<and> Page_getRw (pte pg' v) \<and> \<not> Page_getUserspace (pte pg' v) \<and>
      frame_of (pte pg' v) \<in> frames_used pg' \<and> frame_of (pte pg' v) \<notin> frames_used pg"
    and inj: "inj_on (\<lambda>v. frame_of (pte pg' v)) V" and other: "\<And>v. v \<notin> V \<Longrightarrow> pte pg' v = pte pg v"
    and used: "frames_used pg \<subseteq> frames_used pg'" "m_cnt (pg_bits pg') = m_cnt (pg_bits pg)"
    and heap: "heap_address pg' = of_nat (up (unat (heap_address pg)) + unat cnt * 4096)"
    using f by (simp_all add: fresh_mapping_def)
  have "tables_marked ?p0"
    using assms(3) by (simp add: tables_marked_def table_frame_def)
  then have tm: "\<forall>v \<in> V. \<forall>i \<in> dom (pg_tables pg'). i \<in> dom (pg_tables ?p0) \<or> i \<le> v div 1024 \<longrightarrow> table_frame pg' i \<noteq> frame_of (pte pg' v)"
    and tables: "tables_marked pg'" "dom (pg_tables pg') = dom (pg_tables ?p0) \<union> (\<lambda>v. v div 1024) ` V"
    using f unfolding fresh_mapping_def by blast+
  have table: "\<And>v i. v \<in> V \<Longrightarrow> i \<in> dom (pg_tables pg') \<Longrightarrow> i \<in> dom (pg_tables pg) \<or> i \<le> v div 1024 \<Longrightarrow> table_frame pg' i \<noteq> frame_of (pte pg' v)"
    using tm [simplified] by blast
  have marked: "frames_marked pg'"
    unfolding frames_marked_def using assms(2) [unfolded frames_marked_def] V other used by (metis subsetD)
  have cap: "frame_of (pte pg' v) < unat (m_cnt (pg_bits pg))" if "v \<in> V" for v
    using V [OF that] used(2) by (simp add: Bits_abs_def)
  have "frame_of (pte pg' w) \<noteq> frame_of (pte pg' v)" if "v \<in> V" "w \<noteq> v" "Page_getPresent (pte pg' w)" for v w
  proof (cases "w \<in> V")
    case True
    then show ?thesis
      using inj that by (auto simp: inj_on_def)
  next
    case False
    then have "frame_of (pte pg' w) \<in> frames_used pg \<or> unat (m_cnt (pg_bits pg)) \<le> frame_of (pte pg' w)"
      using assms(2) other [OF False] that(3) by (simp add: frames_marked_def)
    then show ?thesis
      using V [OF that(1)] cap [OF that(1)] by auto
  qed
  then show ?thesis
    using run wf marked heap V other table tables by (intro exI [of _ pg']) (simp; blast)
qed

text \<open>A directory without tables over 1024 unused frames, for the concrete instances.\<close>

definition fresh_paging :: paging where
  "fresh_paging = \<lparr>pg_bits = Bits_new (\<lambda>_. 0) 1024, pg_tables = Map.empty, pg_tablesPhys = (\<lambda>_. 0), free_page_address = 0x100000,
     heap_address = HEAP_START, user_heap_address = USER_HEAP_START, mem_size = 0x400000, page_cnt = 1024, pg_is_ok = False, pg_data = True\<rparr>"

lemma fresh_paging_ok: "pg_wf fresh_paging" "pte fresh_paging v = 0" "8 \<le> frames_left fresh_paging"
proof -
  show "pg_wf fresh_paging" "pte fresh_paging v = 0"
    using empty_directory [of fresh_paging] frames_inv_new [of 1024 "\<lambda>_. 0"] Bits_new_cnt(1) [of "\<lambda>_. 0" 1024]
    by (simp_all add: fresh_paging_def pte_def)
  have "{..<8} \<subseteq> {k. k < unat (m_cnt (pg_bits fresh_paging)) \<and> k mod 32 \<noteq> 31 \<and> k \<notin> frames_used fresh_paging}"
    using Bits_new_cnt(1) [of "\<lambda>_. 0" 1024] by (auto simp: fresh_paging_def Bits_new_abs)
  from card_mono [OF _ this] show "8 \<le> frames_left fresh_paging"
    by (simp add: fb.avail_def)
qed

lemma fresh_paging_tables: "dom (pg_tables fresh_paging) = {}"
  by (simp add: fresh_paging_def)

theorem Paging_alloc_fresh_witness:
  "\<exists>pg'. Paging_alloc 2 fresh_paging = Some (0x30000000, pg') \<and> Page_getPresent (pte pg' 0x30001) \<and> tables_marked pg'"
proof -
  have h: "unat (heap_address fresh_paging) = 0x30000000" "up 0x30000000 = 0x30000000"
    by (simp_all add: fresh_paging_def HEAP_START_def up_def)
  have av: "frames_marked fresh_paging" "tables_marked fresh_paging" "Page_isAvail (pte fresh_paging v)" for v
    by (simp_all add: tables_marked_def fresh_paging_tables frames_marked_def fresh_paging_ok(2) Page_getPresent_def Page_isAvail_def Page_getAddress_def)
  have "4 * unat (2 :: u32) \<le> frames_left fresh_paging"
    using fresh_paging_ok(3) by simp
  from Paging_alloc_fresh [OF fresh_paging_ok(1) av(1,2) _ this refl] av(3) show ?thesis
    by (fastforce simp: h)
qed

text \<open>
  C16: \<^verbatim>\<open>PagingPrivate::init\<close> has no defined result, and what it would build.  Called while \<^verbatim>\<open>data\<close> is \<^verbatim>\<open>nullptr\<close>, as the constructor
  leaves it, it dereferences \<^verbatim>\<open>data\<close>: \<^verbatim>\<open>new Bits(pageCnt)\<close> allocates through the bitmap that it is about to create.  Called later it
  returns false and changes nothing.  The rest of \<^verbatim>\<open>init\<close>, run with a new bitmap of a whole number of 32-frame groups
  in place, builds the identity mapping: it returns true with a
  well-formed state in which every page that is present is mapped to the frame of the same number, is
  writable and not for user space, and has its frame marked.  Present are the pages 0 to 15 and those
  from 0xA0000 to 1 MB, and everything from 1 MB to the static pointer.
\<close>

theorem init_identity_maps:
  assumes "pg_data pg" "pg_bits pg = Bits_new junk n" "32 dvd unat n" "unat n \<le> 2 ^ 20"
    "0 < unat (free_page_address pg)" "unat (free_page_address pg) \<le> 0xE0000000" "unat stack_top + 4096 \<le> 2 ^ 32"
  shows "PagingPrivate_init junk' stack_bottom stack_top info (PagingPrivate_new kend) = None \<and>
    PagingPrivate_init junk' stack_bottom stack_top info pg = Some (False, pg) \<and>
    (\<exists>pg'. init_mapping stack_bottom stack_top pg = Some (True, pg') \<and> pg_wf pg' \<and> frames_marked pg' \<and>
    (\<forall>v. Page_getPresent (pte pg' v) \<longrightarrow> frame_of (pte pg' v) = v \<and> Page_getRw (pte pg' v) \<and> \<not> Page_getUserspace (pte pg' v)) \<and>
    (\<forall>v. v < 16 \<or> 0xA0 \<le> v \<and> v < 0x100 \<or> 0x100 \<le> v \<and> v * 4096 < unat (free_page_address pg) \<longrightarrow> Page_getPresent (pte pg' v)))"
proof -
  have "frames_ok pg" "unat (m_cnt (pg_bits pg)) \<le> 2 ^ 20"
    using assms(1-4) by (simp_all add: frames_inv_new Bits_new_cnt(1))
  then obtain pg' f where r: "init_mapping stack_bottom stack_top pg = Some (True, pg')" "pg_wf pg'" "identity_mapped pg'"
      "unat (free_page_address pg) \<le> f" "\<forall>v \<in> low_pages \<union> {v. 256 \<le> v \<and> v * 4096 < f}. Page_getPresent (pte pg' v)"
    using init_mapping_ok [of pg, OF _ _ assms(5-7)] by blast
  have "frames_marked pg'"
    using r(3) by (auto simp: identity_mapped_def frames_marked_def)
  moreover have "Page_getPresent (pte pg' v)"
    if "v < 16 \<or> 0xA0 \<le> v \<and> v < 0x100 \<or> 0x100 \<le> v \<and> v * 4096 < unat (free_page_address pg)" for v
    using r(4,5) that by (auto simp: low_pages_def)
  moreover have "PagingPrivate_init junk' stack_bottom stack_top info pg = Some (False, pg)"
    using assms(1) by (simp add: PagingPrivate_init_def)
  moreover have "PagingPrivate_init junk' stack_bottom stack_top info (PagingPrivate_new kend) = None"
    by (rule init_null) (simp add: PagingPrivate_new_def)
  ultimately show ?thesis
    using r(1-3) by (auto simp: identity_mapped_def)
qed

text \<open>A machine with 4 MB, the kernel of which ends at 2 MB.\<close>

theorem init_identity_maps_witness:
  "\<exists>pg'. init_mapping 0x1000 0x2000 (fresh_paging\<lparr>free_page_address := 0x200000\<rparr>) = Some (True, pg') \<and>
    Page_getPresent (pte pg' 0x1FF) \<and> frame_of (pte pg' 0x1FF) = 0x1FF \<and> frames_marked pg'"
  using init_identity_maps [of "fresh_paging\<lparr>free_page_address := 0x200000\<rparr>" "\<lambda>_. 0" 1024 "0x2000" "\<lambda>_. 0" "0x1000" None "0x200000"]
  by (auto simp: fresh_paging_def)

text \<open>
  \<^verbatim>\<open>Paging::free\<close> does not undo \<^verbatim>\<open>Paging::alloc\<close>.  It returns, but \<^verbatim>\<open>unmap\<close> divides the address by
  the page size before \<^verbatim>\<open>PageDir::getPage\<close> divides it again, so for an address of 1 MB or more no entry
  of the pages given changes: they stay mapped.  Because \<^verbatim>\<open>unmap\<close> returns \<^verbatim>\<open>nullptr\<close>, \<^verbatim>\<open>freePage\<close> clears the
  mark of frame 0 instead.
\<close>

theorem Paging_free_misses:
  assumes "pg_wf pg" "0 < cnt"
  shows "\<exists>pg'. Paging_free p cnt pg = Some pg' \<and> pg_wf pg' \<and> (\<forall>v. 256 \<le> v \<longrightarrow> pte pg' v = pte pg v) \<and> 0 \<notin> frames_used pg'"
proof -
  have "unat (a :: u32) div 4096 div 4096 < 256" for a
    using page_bound [of a] less_mult_imp_div_less [of "unat a div 4096" 256 4096] by simp
  then have hit: "unat (a :: u32) div 4096 div 4096 \<noteq> v" if "256 \<le> v" for a v
    using that by (metis leD)
  show ?thesis
    using Paging_free_ok [OF assms(1), of p cnt] assms(2) hit by metis
qed

theorem Paging_free_misses_witness:
  "\<exists>pg'. Paging_free 0x30000000 2 fresh_paging = Some pg' \<and> pte pg' 0x30000 = pte fresh_paging 0x30000 \<and> 0 \<notin> frames_used pg'"
  using Paging_free_misses [OF fresh_paging_ok(1), of 2 "0x30000000"] by auto

text \<open>
  static allocation does not look at the frame bitmap.  When a page table has to be created, it is
  put at the static pointer rounded up to a page, whether or not the frame there is in use: if some
  page \<open>w\<close> is mapped to that frame, the new table and page \<open>w\<close> share it.
\<close>

theorem new_table_shares_frame:
  assumes "pg_wf pg" "\<not> has_table (unat a div 4096) pg" "Page_getPresent (pte pg w)"
    "frame_of (pte pg w) = up (unat (free_page_address pg)) div 4096"
  shows "\<exists>pg'. PageDir_getPage a True pg = Some (Some (unat a div 4096 div 1024, unat a div 4096 mod 1024), pg') \<and>
    has_table (unat a div 4096) pg' \<and> Page_getPresent (pte pg' w) \<and>
    frame_of (pg_tablesPhys pg' (unat a div 4096 div 1024)) = frame_of (pte pg' w)"
proof -
  let ?f = "up (unat (free_page_address pg))"
  obtain pg' where pg': "PageDir_getPage a True pg = Some (Some (unat a div 4096 div 1024, unat a div 4096 mod 1024), pg')"
    "grown pg pg'" "has_table (unat a div 4096) pg'" "pg_tablesPhys pg' (unat a div 4096 div 1024) = of_nat ?f OR PAGING_MAP_R2"
    by (rule getPage_absent [OF assms(1,2)])
  have "Page_getAddress (x OR PAGING_MAP_R2) = Page_getAddress x" for x
    by (simp add: Page_getAddress_def PAGING_MAP_R2_def bit.conj_disj_distrib2)
  moreover have "?f div 4096 < 2 ^ 20"
    unfolding assms(4) [symmetric] frame_of_def by (rule page_bound)
  then have "unat (of_nat ?f :: u32) = ?f"
    using up_bounds(3) [of "unat (free_page_address pg)"] by (intro unat_of_nat_u32) (simp add: up_def)
  ultimately have "frame_of (of_nat ?f OR PAGING_MAP_R2) = ?f div 4096"
    by (simp add: frame_of_def unat_getAddress)
  then show ?thesis
    using pg' assms(3,4) by (auto simp: grown_def)
qed

definition shared_paging :: paging where
  "shared_paging = fresh_paging\<lparr>pg_tables := [0 \<mapsto> (replicate 1024 0)[5 := 0x100003]]\<rparr>"

theorem new_table_shares_frame_witness:
  "\<exists>pg'. PageDir_getPage 0x30000000 True shared_paging = Some (Some (192, 0), pg') \<and>
    frame_of (pg_tablesPhys pg' 192) = frame_of (pte pg' 5)"
proof -
  have e: "pte shared_paging 5 = 0x100003" "\<not> has_table (unat (0x30000000 :: u32) div 4096) shared_paging"
    "unat (free_page_address shared_paging) = 0x100000"
    by (simp_all add: shared_paging_def pte_def fresh_paging_def has_table_def)
  have "{..<1024} - dom [0 \<mapsto> (replicate 1024 0)[5 := (0x100003 :: u32)]] = {1 ..< 1024 :: nat}"
    by auto
  then have "pg_wf shared_paging"
    using fresh_paging_ok(1) by (simp add: shared_paging_def pg_wf_def tables_ok_def room_def fresh_paging_def)
  moreover have "Page_getPresent 0x100003" "frame_of 0x100003 = up 0x100000 div 4096"
    by (simp_all add: Page_getPresent_def frame_of_def unat_getAddress up_def)
  ultimately show ?thesis
    using new_table_shares_frame [of shared_paging "0x30000000" 5] e by auto
qed

text \<open>
  the fields of a page table entry are independent.  Each flag reads back what was written, setting
  a flag leaves the address alone, setting the address leaves the flags alone and stores the address
  rounded down to a page.
\<close>

theorem Page_fields_roundtrip:
  "Page_getPresent (Page_setPresent x v) = x \<and> Page_getRw (Page_setRw x v) = x \<and> Page_getUserspace (Page_setUserspace x v) = x \<and>
   Page_getAccessed (Page_setAccessed x v) = x \<and> Page_getDirty (Page_setDirty x v) = x \<and>
   unat (Page_getAddress (Page_setAddress a v)) = unat a div 4096 * 4096 \<and>
   Page_getAddress (Page_setRw x (Page_setPresent y (Page_setUserspace z v))) = Page_getAddress v \<and>
   Page_getPresent (Page_setAddress a v) = Page_getPresent v \<and> Page_getRw (Page_setAddress a v) = Page_getRw v \<and>
   Page_getUserspace (Page_setAddress a v) = Page_getUserspace v \<and>
   Page_getPresent (Page_setRw x v) = Page_getPresent v \<and> Page_getPresent (Page_setUserspace x v) = Page_getPresent v \<and>
   Page_getRw (Page_setPresent x v) = Page_getRw v \<and> Page_getUserspace (Page_setRw x v) = Page_getUserspace v"
  by (simp add: Page_flags_roundtrip unat_getAddress) (simp add: page_flags)

end
