(* ===== verification/File_Table.thy ===== *)
theory File_Table
  imports Linked_List
begin

text \<open>
  What the file systems share: the table of open files in class \<^verbatim>\<open>Filesystem\<close> and the directory
  cursor \<^verbatim>\<open>Dir\<close> (\<^verbatim>\<open>src/fs/filesystem.cpp\<close>, \<^verbatim>\<open>inc/fs/filesystem.hh\<close>).

  The table is one list of \<^verbatim>\<open>FileData\<close> objects for the whole kernel, which live in a store by
  address.  Names are the byte sequences that the \<^verbatim>\<open>String\<close> objects hold; theory \<open>Kernel_String\<close>
  shows that \<^verbatim>\<open>==\<close>, \<^verbatim>\<open>+=\<close> and \<^verbatim>\<open>length\<close> are the operations on these sequences.  \<^verbatim>\<open>errno\<close> is part of
  the state.  \<open>ft_is t xs\<close> says that table \<open>t\<close> holds the files \<open>xs\<close>; \<open>open_files\<close> is the table as a map
  from handles.
\<close>

section \<open>The data and the operations\<close>

type_synonym name = "u8 list"

definition EBADF :: int where "EBADF = 9"
definition ENOENT :: int where "ENOENT = 2"
definition EPERM :: int where "EPERM = 1"
definition INT_MAX :: int where "INT_MAX = 2 ^ 31 - 1"

record file_data =
  fd_fs :: name
  fd_name :: name
  fd_id :: int
  fd_owner :: ptr
  fd_custom :: ptr
  fd_fcntl :: int

definition FileData_new :: "int \<Rightarrow> name \<Rightarrow> name \<Rightarrow> ptr \<Rightarrow> ptr \<Rightarrow> file_data" where
  "FileData_new h fs nm owner custom =
     \<lparr>fd_fs = fs, fd_name = nm, fd_id = h, fd_owner = owner, fd_custom = custom, fd_fcntl = 0\<rparr>"

record file_table =
  ft_files :: klist
  ft_handle :: int
  ft_store :: "nat \<rightharpoonup> file_data"
  ft_fresh :: nat
  ft_errno :: int

definition Filesystem_table :: file_table where
  "Filesystem_table = \<lparr>ft_files = List_new, ft_handle = 2, ft_store = Map.empty, ft_fresh = 0, ft_errno = 0\<rparr>"

text \<open>\<^verbatim>\<open>++m_filehandle\<close> has no defined result when it overflows.\<close>

definition Filesystem_mapfile :: "name \<Rightarrow> name \<Rightarrow> ptr \<Rightarrow> ptr \<Rightarrow> file_table \<Rightarrow> (int \<times> file_table) option" where
  "Filesystem_mapfile fs name owner custom t =
     (if ft_handle t = INT_MAX then None
      else do {
        let h = ft_handle t + 1;
        let d = FileData_new h fs name owner custom;
        l \<leftarrow> List_append (Some (ft_fresh t)) (ft_files t);
        Some (h, t\<lparr>ft_files := l, ft_handle := h, ft_store := (ft_store t)(ft_fresh t \<mapsto> d), ft_fresh := Suc (ft_fresh t)\<rparr>) })"

text \<open>The loop that all lookups have: the index and the object of the first file with property \<open>P\<close>.\<close>

definition file_search :: "(file_data \<Rightarrow> bool) \<Rightarrow> file_table \<Rightarrow> (u32 \<times> nat \<times> file_data) option option" where
  "file_search P t = do {
     r \<leftarrow> search_loop (\<lambda>i. List_at i (ft_files t)) (\<lambda>p. do { a \<leftarrow> p; d \<leftarrow> ft_store t a; Some (P d) })
            (unat (List_size (ft_files t))) 0;
     (case r of None \<Rightarrow> Some None
      | Some (i, p) \<Rightarrow> do { a \<leftarrow> p; d \<leftarrow> ft_store t a; Some (Some (i, a, d)) }) }"

definition Filesystem_getfile :: "name \<Rightarrow> name \<Rightarrow> file_table \<Rightarrow> int option" where
  "Filesystem_getfile fs name t = do {
     r \<leftarrow> file_search (\<lambda>d. fd_fs d = fs \<and> fd_name d = name) t;
     Some (case r of None \<Rightarrow> - 1 | Some (i, a, d) \<Rightarrow> fd_id d) }"

definition Filesystem_getFS :: "int \<Rightarrow> file_table \<Rightarrow> name option" where
  "Filesystem_getFS fh t = do {
     r \<leftarrow> file_search (\<lambda>d. fd_id d = fh) t;
     Some (case r of None \<Rightarrow> [] | Some (i, a, d) \<Rightarrow> fd_fs d) }"

definition Filesystem_getCustom :: "int \<Rightarrow> file_table \<Rightarrow> ptr option" where
  "Filesystem_getCustom fh t = do {
     r \<leftarrow> file_search (\<lambda>d. fd_id d = fh) t;
     Some (case r of None \<Rightarrow> nullptr | Some (i, a, d) \<Rightarrow> fd_custom d) }"

definition Filesystem_getFilesystem :: "int \<Rightarrow> file_table \<Rightarrow> ptr option" where
  "Filesystem_getFilesystem fh t = do {
     r \<leftarrow> file_search (\<lambda>d. fd_id d = fh) t;
     Some (case r of None \<Rightarrow> nullptr | Some (i, a, d) \<Rightarrow> fd_owner d) }"

definition Filesystem_getName :: "int \<Rightarrow> file_table \<Rightarrow> name option" where
  "Filesystem_getName fh t = do {
     r \<leftarrow> file_search (\<lambda>d. fd_id d = fh) t;
     Some (case r of None \<Rightarrow> [] | Some (i, a, d) \<Rightarrow> fd_name d) }"

definition Filesystem_closefile :: "int \<Rightarrow> file_table \<Rightarrow> (bool \<times> file_table) option" where
  "Filesystem_closefile fh t = do {
     r \<leftarrow> file_search (\<lambda>d. fd_id d = fh) t;
     (case r of None \<Rightarrow> Some (False, t)
      | Some (i, a, d) \<Rightarrow> do {
          (_, l) \<leftarrow> List_deleteAt i (ft_files t);
          Some (True, t\<lparr>ft_files := l\<rparr>) }) }"

definition Filesystem_getFcntl :: "int \<Rightarrow> file_table \<Rightarrow> (int \<times> file_table) option" where
  "Filesystem_getFcntl fh t = do {
     r \<leftarrow> file_search (\<lambda>d. fd_id d = fh) t;
     Some (case r of None \<Rightarrow> (- 1, t\<lparr>ft_errno := EBADF\<rparr>) | Some (i, a, d) \<Rightarrow> (fd_fcntl d, t)) }"

definition Filesystem_setFcntl :: "int \<Rightarrow> int \<Rightarrow> file_table \<Rightarrow> (int \<times> file_table) option" where
  "Filesystem_setFcntl fh mode t = do {
     r \<leftarrow> file_search (\<lambda>d. fd_id d = fh) t;
     Some (case r of None \<Rightarrow> (- 1, t\<lparr>ft_errno := EBADF\<rparr>)
           | Some (i, a, d) \<Rightarrow> (0, t\<lparr>ft_store := (ft_store t)(a \<mapsto> d\<lparr>fd_fcntl := mode\<rparr>)\<rparr>)) }"

section \<open>Paths\<close>

definition SLASH :: u8 where "SLASH = 47"

fun count_slashes :: "name \<Rightarrow> u32 \<Rightarrow> u32" where
  "count_slashes [] cnt = cnt"
| "count_slashes (c # cs) cnt = count_slashes cs (if c = SLASH then cnt + 1 else cnt)"

definition Filesystem_pathParts :: "name \<Rightarrow> u32" where
  "Filesystem_pathParts path = count_slashes path 0"

fun pathPart_loop :: "name \<Rightarrow> u32 \<Rightarrow> u32 \<Rightarrow> name \<Rightarrow> name" where
  "pathPart_loop [] index cnt res = res"
| "pathPart_loop (c # cs) index cnt res =
     (if c = SLASH then (if res \<noteq> [] then res else pathPart_loop cs index (cnt + 1) res)
      else pathPart_loop cs index cnt (if cnt = index then res @ [c] else res))"

definition Filesystem_pathPart :: "name \<Rightarrow> u32 \<Rightarrow> name" where
  "Filesystem_pathPart path index = pathPart_loop path index 0 []"

section \<open>Directory cursors\<close>

record dir =
  dir_path :: name
  dir_items :: klist
  dir_index :: u32

definition Dir_new :: "name \<Rightarrow> dir" where
  "Dir_new path = \<lparr>dir_path = path, dir_items = List_new, dir_index = 0\<rparr>"

definition Dir_reset :: "dir \<Rightarrow> dir" where
  "Dir_reset d = d\<lparr>dir_index := 0\<rparr>"

definition Dir_next :: "dir \<Rightarrow> (ptr \<times> dir) option" where
  "Dir_next d =
     (if dir_index d \<ge> List_size (dir_items d) then Some (nullptr, d)
      else do {
        res \<leftarrow> List_at (dir_index d) (dir_items d);
        Some (res, d\<lparr>dir_index := dir_index d + 1\<rparr>) })"

section \<open>The table as a map from handles\<close>

definition ft_is :: "file_table \<Rightarrow> (nat \<times> file_data) list \<Rightarrow> bool" where
  "ft_is t xs \<longleftrightarrow> List_is (ft_files t) (map (Some \<circ> fst) xs) \<and> distinct (map fst xs) \<and> length xs < 2 ^ 32 \<and>
     distinct (map (fd_id \<circ> snd) xs) \<and>
     (\<forall>x \<in> set xs. ft_store t (fst x) = Some (snd x) \<and> fst x < ft_fresh t \<and> 2 < fd_id (snd x) \<and> fd_id (snd x) \<le> ft_handle t)"

definition open_files :: "(nat \<times> file_data) list \<Rightarrow> int \<rightharpoonup> file_data" where
  "open_files xs = map_of (map (\<lambda>(a, d). (fd_id d, d)) xs)"

lemma open_files_Nil [simp]: "open_files [] h = None"
  by (simp add: open_files_def)

lemma open_files_Cons [simp]: "open_files ((a, d) # xs) h = (if h = fd_id d then Some d else open_files xs h)"
  by (simp add: open_files_def)

lemma open_files_app: "open_files (ys @ zs) h = (case open_files ys h of None \<Rightarrow> open_files zs h | Some d \<Rightarrow> Some d)"
  by (induction ys) (auto split: option.splits)

lemma open_files_None: "open_files xs h = None \<longleftrightarrow> h \<notin> (fd_id \<circ> snd) ` set xs"
  by (auto simp: open_files_def map_of_eq_None_iff image_iff case_prod_unfold)

lemma file_search_ok:
  assumes "ft_is t xs"
  shows "file_search P t = Some (let j = length (takeWhile (\<lambda>(a, d). \<not> P d) xs)
    in if j < length xs then Some (of_nat j, xs ! j) else None)"
proof -
  define Q where "Q p = P (the (ft_store t (the p)))" for p :: ptr
  define test where "test p = do { a \<leftarrow> p; d \<leftarrow> ft_store t a; Some (P d) }" for p :: ptr
  have st: "ft_store t (fst x) = Some (snd x)" if "x \<in> set xs" for x
    using assms that by (auto simp: ft_is_def)
  have Q: "test v = Some (Q v)" if "v \<in> set (map (Some \<circ> fst) xs)" for v
    using that st by (auto simp: test_def Q_def)
  have tw: "length (takeWhile (\<lambda>v. \<not> Q v) (map (Some \<circ> fst) xs)) = length (takeWhile (\<lambda>(a, d). \<not> P d) xs)"
    using st by (auto simp: takeWhile_map Q_def case_prod_unfold intro!: arg_cong [of _ _ length] takeWhile_cong)
  let ?j = "length (takeWhile (\<lambda>(a, d). \<not> P d) xs)"
  have "search_loop (\<lambda>i. List_at i (ft_files t)) test (unat (List_size (ft_files t))) 0 =
      Some (if ?j < length xs then Some (of_nat ?j, Some (fst (xs ! ?j))) else None)"
    using kl.search_first [of "ft_files t" "map (Some \<circ> fst) xs" test Q] assms Q
    by (simp add: ft_is_def tw Let_def)
  then show ?thesis
    using st by (auto simp: file_search_def test_def [symmetric] Let_def case_prod_unfold)
qed

lemma file_search_id:
  assumes "ft_is t xs"
  shows "file_search (\<lambda>d. fd_id d = fh) t = Some None \<and> open_files xs fh = None \<or>
    (\<exists>ys a d zs. xs = ys @ (a, d) # zs \<and> fd_id d = fh \<and> open_files xs fh = Some d \<and>
      file_search (\<lambda>d. fd_id d = fh) t = Some (Some (of_nat (length ys), a, d)))"
proof (cases "\<exists>x \<in> set xs. fd_id (snd x) = fh")
  case False
  then have "length (takeWhile (\<lambda>(a, d). fd_id d \<noteq> fh) xs) = length xs"
    by (intro arg_cong [of _ _ length]) (auto simp: takeWhile_eq_all_conv)
  moreover have "open_files xs fh = None"
    using False by (auto simp: open_files_None)
  ultimately show ?thesis
    using file_search_ok [OF assms, of "\<lambda>d. fd_id d = fh"] by simp
next
  case True
  then obtain ys x zs where xs: "xs = ys @ x # zs" "fd_id (snd x) = fh" "\<forall>y \<in> set ys. fd_id (snd y) \<noteq> fh"
    using split_list_first_prop [of xs "\<lambda>x. fd_id (snd x) = fh"] by auto
  have "takeWhile (\<lambda>(a, d). fd_id d \<noteq> fh) xs = ys"
    using xs by (auto simp: takeWhile_append case_prod_unfold)
  moreover have "open_files ys fh = None"
    using xs(3) by (auto simp: open_files_None)
  then have "open_files xs fh = Some (snd x)"
    using xs by (cases x) (simp add: open_files_app)
  ultimately show ?thesis
    using file_search_ok [OF assms, of "\<lambda>d. fd_id d = fh"] xs by (cases x) auto
qed

lemma ft_is_new: "ft_is Filesystem_table []"
  by (simp add: ft_is_def Filesystem_table_def List_is_new)

lemma mapfile_ok:
  assumes "ft_is t xs" "ft_handle t < INT_MAX" "Suc (length xs) < 2 ^ 32" "2 \<le> ft_handle t"
  obtains t' where "Filesystem_mapfile fs nm ow cu t = Some (ft_handle t + 1, t')" "ft_is t' (xs @ [(ft_fresh t, FileData_new (ft_handle t + 1) fs nm ow cu)])"
    "ft_handle t' = ft_handle t + 1" "ft_errno t' = ft_errno t"
proof -
  let ?d = "FileData_new (ft_handle t + 1) fs nm ow cu"
  obtain l where l: "List_append (Some (ft_fresh t)) (ft_files t) = Some l" "List_is l (map (Some \<circ> fst) xs @ [Some (ft_fresh t)])"
    using List_is_append [of "ft_files t" "map (Some \<circ> fst) xs" "Some (ft_fresh t)"] assms(1) by (auto simp: ft_is_def)
  let ?t = "t\<lparr>ft_files := l, ft_handle := ft_handle t + 1, ft_store := (ft_store t)(ft_fresh t \<mapsto> ?d), ft_fresh := Suc (ft_fresh t)\<rparr>"
  have "Filesystem_mapfile fs nm ow cu t = Some (ft_handle t + 1, ?t)"
    using l(1) assms(2) by (simp add: Filesystem_mapfile_def Let_def)
  moreover have "ft_is ?t (xs @ [(ft_fresh t, ?d)])"
    using assms(1,3,4) l(2) by (fastforce simp: ft_is_def FileData_new_def less_Suc_eq)
  ultimately show ?thesis
    using that by simp
qed

lemma closefile_ok:
  assumes "ft_is t (ys @ (a, d) # zs)" "file_search (\<lambda>e. fd_id e = fd_id d) t = Some (Some (of_nat (length ys), a, d))"
  obtains t' where "Filesystem_closefile (fd_id d) t = Some (True, t')" "ft_is t' (ys @ zs)" "ft_handle t' = ft_handle t"
    "ft_errno t' = ft_errno t"
proof -
  have len: "unat (of_nat (length ys) :: u32) = length ys"
    using assms(1) by (intro unat_of_nat_u32) (simp add: ft_is_def)
  then obtain l where l: "List_deleteAt (of_nat (length ys)) (ft_files t) = Some (True, l)" "List_is l (map (Some \<circ> fst) (ys @ zs))"
    using List_is_deleteAt [of "ft_files t" "map (Some \<circ> fst) (ys @ (a, d) # zs)" "of_nat (length ys)"] assms(1)
    by (auto simp: ft_is_def remove_at_def)
  have "Filesystem_closefile (fd_id d) t = Some (True, t\<lparr>ft_files := l\<rparr>)"
    using l(1) assms(2) by (simp add: Filesystem_closefile_def)
  moreover have "ft_is (t\<lparr>ft_files := l\<rparr>) (ys @ zs)"
    using assms(1) l(2) by (auto simp: ft_is_def)
  ultimately show ?thesis
    using that by simp
qed

lemma open_files_others:
  assumes "ft_is t (ys @ (a, d) # zs)"
  shows "open_files ys (fd_id d) = None" "open_files zs (fd_id d) = None" "a \<notin> fst ` set ys" "a \<notin> fst ` set zs"
  using assms by (auto simp: ft_is_def open_files_None)

lemma open_files_remove:
  assumes "ft_is t (ys @ (a, d) # zs)"
  shows "open_files (ys @ zs) = (open_files (ys @ (a, d) # zs))(fd_id d := None)"
  using open_files_others [OF assms] by (auto simp: open_files_app fun_eq_iff split: option.splits)

lemma open_files_update:
  assumes "ft_is t (ys @ (a, d) # zs)" "fd_id e = fd_id d"
  shows "open_files (ys @ (a, e) # zs) = (open_files (ys @ (a, d) # zs))(fd_id d \<mapsto> e)"
  using open_files_others [OF assms(1)] assms(2) by (auto simp: open_files_app fun_eq_iff split: option.splits)

lemma open_files_append:
  assumes "ft_is t xs" "ft_handle t < fd_id d"
  shows "open_files (xs @ [(a, d)]) = (open_files xs)(fd_id d \<mapsto> d)" "open_files xs (fd_id d) = None"
proof -
  show n: "open_files xs (fd_id d) = None"
    using assms by (fastforce simp: ft_is_def open_files_None)
  then show "open_files (xs @ [(a, d)]) = (open_files xs)(fd_id d \<mapsto> d)"
    by (auto simp: open_files_app fun_eq_iff split: option.splits)
qed

lemma setFcntl_ok:
  assumes "ft_is t (ys @ (a, d) # zs)" "file_search (\<lambda>e. fd_id e = fd_id d) t = Some (Some (of_nat (length ys), a, d))"
  obtains t' where "Filesystem_setFcntl (fd_id d) md t = Some (0, t')" "ft_is t' (ys @ (a, d\<lparr>fd_fcntl := md\<rparr>) # zs)" "ft_errno t' = ft_errno t"
proof -
  have "ft_is (t\<lparr>ft_store := (ft_store t)(a \<mapsto> d\<lparr>fd_fcntl := md\<rparr>)\<rparr>) (ys @ (a, d\<lparr>fd_fcntl := md\<rparr>) # zs)"
    using assms(1) open_files_others(3,4) [OF assms(1)] by (auto simp: ft_is_def)
  moreover have "Filesystem_setFcntl (fd_id d) md t = Some (0, t\<lparr>ft_store := (ft_store t)(a \<mapsto> d\<lparr>fd_fcntl := md\<rparr>)\<rparr>)"
    using assms(2) by (simp add: Filesystem_setFcntl_def)
  ultimately show ?thesis
    using that by simp
qed

section \<open>Paths as sequences of parts\<close>

fun parts :: "name \<Rightarrow> name list" where
  "parts [] = [[]]"
| "parts (c # cs) = (if c = SLASH then [] # parts cs else (c # hd (parts cs)) # tl (parts cs))"

definition join :: "name list \<Rightarrow> name" where
  "join ps = hd ps @ concat (map (\<lambda>p. SLASH # p) (tl ps))"

lemma parts_not_Nil [simp]: "parts p \<noteq> []"
  by (induction p) auto

lemma join_parts: "join (parts p) = p"
proof (induction p)
  case (Cons c p)
  then show ?case
    by (cases "parts p") (auto simp: join_def)
qed (simp add: join_def)

lemma parts_no_slash: "q \<in> set (parts p) \<Longrightarrow> SLASH \<notin> set q"
proof (induction p arbitrary: q)
  case (Cons c p)
  then show ?case
    by (cases "parts p") (auto split: if_splits)
qed simp

lemma length_parts: "length (parts p) = Suc (length (filter (\<lambda>c. c = SLASH) p))"
proof (induction p)
  case (Cons c p)
  then show ?case
    by (cases "parts p") auto
qed simp

lemma count_slashes_eq: "count_slashes p c = c + of_nat (length (filter (\<lambda>c. c = SLASH) p))"
  by (induction p arbitrary: c) simp_all

lemma unat_Suc_u32: "unat c + Suc n < 2 ^ 32 \<Longrightarrow> unat (c + 1 :: u32) = unat c + 1"
  using unat_add_lem [of c 1] by simp

lemma pathPart_past:
  "unat index < unat cnt \<Longrightarrow> unat cnt + length cs < 2 ^ 32 \<Longrightarrow> pathPart_loop cs index cnt res = res"
proof (induction cs arbitrary: cnt)
  case (Cons c cs)
  then have "unat (cnt + 1) = unat cnt + 1"
    by (intro unat_Suc_u32 [of _ "length cs"]) simp
  with Cons show ?case
    by auto
qed simp

lemma pathPart_at:
  "unat index + length cs < 2 ^ 32 \<Longrightarrow> pathPart_loop cs index index res = res @ hd (parts cs)"
proof (induction cs arbitrary: res)
  case (Cons c cs)
  then have "unat (index + 1) = unat index + 1"
    by (intro unat_Suc_u32 [of _ "length cs"]) simp
  then have "pathPart_loop cs index (index + 1) res = res"
    using Cons.prems by (intro pathPart_past) simp_all
  then show ?case
    using Cons.IH [of "res @ [c]"] Cons.prems by auto
qed simp

lemma pathPart_before:
  "unat cnt \<le> unat index \<Longrightarrow> unat cnt + length cs < 2 ^ 32 \<Longrightarrow> unat index + length cs < 2 ^ 32 \<Longrightarrow>
    pathPart_loop cs index cnt [] =
      (if unat index - unat cnt < length (parts cs) then parts cs ! (unat index - unat cnt) else [])"
proof (induction cs arbitrary: cnt)
  case Nil
  then show ?case
    by (auto simp: nth_Cons')
next
  case (Cons c cs)
  show ?case
  proof (cases "cnt = index")
    case True
    have "parts (c # cs) ! 0 = hd (parts (c # cs))"
      by (rule hd_conv_nth [symmetric]) simp
    then show ?thesis
      using pathPart_at [of index "c # cs" "[]"] Cons.prems(3) True by simp
  next
    case False
    then have lt: "unat cnt < unat index"
      using Cons.prems(1) by (metis le_neq_implies_less word_unat_eq_iff)
    have "unat (cnt + 1) = unat cnt + 1"
      using Cons.prems(2) by (intro unat_Suc_u32 [of _ "length cs"]) simp
    then have slash: "pathPart_loop cs index (cnt + 1) [] =
        (if unat index - Suc (unat cnt) < length (parts cs) then parts cs ! (unat index - Suc (unat cnt)) else [])"
      using Cons.IH [of "cnt + 1"] Cons.prems lt by simp
    have other: "pathPart_loop cs index cnt [] =
        (if unat index - unat cnt < length (parts cs) then parts cs ! (unat index - unat cnt) else [])"
      using Cons.IH [of cnt] Cons.prems by simp
    obtain k where k: "unat index - unat cnt = Suc k" "unat index - Suc (unat cnt) = k"
      using lt by (metis Suc_diff_Suc)
    show ?thesis
    proof (cases "c = SLASH")
      case True
      then show ?thesis
        using slash k by simp
    next
      case nslash: False
      then show ?thesis
        using other k False by (cases "parts cs") (auto simp: nth_tl)
    qed
  qed
qed

lemma parts_append: "parts (p @ SLASH # q) = parts p @ parts q"
  by (induction p) (auto simp: hd_append)

lemma parts_single: "SLASH \<notin> set p \<Longrightarrow> parts p = [p]"
  by (induction p) auto

lemma pathParts_count: "length p < 2 ^ 32 \<Longrightarrow> unat (Filesystem_pathParts p) + 1 = length (parts p)"
proof -
  assume "length p < 2 ^ 32"
  then have "length (filter (\<lambda>c. c = SLASH) p) < 2 ^ 32"
    using length_filter_le [of "\<lambda>c. c = SLASH" p] by linarith
  then show ?thesis
    by (simp add: Filesystem_pathParts_def count_slashes_eq length_parts unat_of_nat_u32)
qed

lemma pathPart_nth:
  "length p + unat i < 2 ^ 32 \<Longrightarrow> Filesystem_pathPart p i = (if unat i < length (parts p) then parts p ! unat i else [])"
  using pathPart_before [of 0 i p] by (simp add: Filesystem_pathPart_def)

section \<open>The table for its clients\<close>

text \<open>\<open>ft_map t F\<close>: table \<open>t\<close> stands for the map \<open>F\<close> from handles to open files.\<close>

definition ft_map :: "file_table \<Rightarrow> (int \<rightharpoonup> file_data) \<Rightarrow> bool" where
  "ft_map t F \<longleftrightarrow> 2 \<le> ft_handle t \<and> (\<exists>xs. ft_is t xs \<and> open_files xs = F)"

lemma ft_map_new: "ft_map Filesystem_table Map.empty"
proof -
  have "open_files [] = Map.empty"
    by (simp add: fun_eq_iff)
  then show ?thesis
    using ft_is_new by (auto simp: ft_map_def Filesystem_table_def)
qed

lemma ft_map_errno [simp]: "ft_map (t\<lparr>ft_errno := e\<rparr>) F = ft_map t F"
  by (simp add: ft_map_def ft_is_def)

lemma open_files_Some: "ft_is t xs \<Longrightarrow> open_files xs h = Some d \<Longrightarrow> fd_id d = h \<and> h \<le> ft_handle t \<and> 2 < h"
  by (fastforce simp: open_files_def ft_is_def dest!: map_of_SomeD)

lemma ft_map_Some: "ft_map t F \<Longrightarrow> F h = Some d \<Longrightarrow> fd_id d = h \<and> h \<le> ft_handle t \<and> 2 < h"
  using open_files_Some by (auto simp: ft_map_def)

lemma card_open_files: "ft_is t xs \<Longrightarrow> card (dom (open_files xs)) = length xs"
proof -
  assume "ft_is t xs"
  then have "distinct (map (fd_id \<circ> snd) xs)"
    by (simp add: ft_is_def)
  moreover have "dom (open_files xs) = set (map (fd_id \<circ> snd) xs)"
    by (simp add: open_files_def dom_map_of_conv_image_fst image_image case_prod_unfold)
  ultimately show ?thesis
    by (metis distinct_card length_map)
qed

lemma ft_map_mapfile:
  assumes "ft_map t F" "ft_handle t < INT_MAX" "Suc (card (dom F)) < 2 ^ 32"
  obtains t' where "Filesystem_mapfile fs nm ow cu t = Some (ft_handle t + 1, t')"
    "ft_map t' (F(ft_handle t + 1 \<mapsto> FileData_new (ft_handle t + 1) fs nm ow cu))"
    "F (ft_handle t + 1) = None" "ft_handle t' = ft_handle t + 1" "ft_errno t' = ft_errno t"
proof -
  let ?d = "FileData_new (ft_handle t + 1) fs nm ow cu"
  obtain xs where xs: "ft_is t xs" "open_files xs = F" "2 \<le> ft_handle t"
    using assms(1) by (auto simp: ft_map_def)
  then have l: "Suc (length xs) < 2 ^ 32"
    using assms(3) card_open_files by fastforce
  obtain t' where t': "Filesystem_mapfile fs nm ow cu t = Some (ft_handle t + 1, t')" "ft_is t' (xs @ [(ft_fresh t, ?d)])"
    "ft_handle t' = ft_handle t + 1" "ft_errno t' = ft_errno t"
    by (rule mapfile_ok [OF xs(1) assms(2) l xs(3)])
  have "fd_id ?d = ft_handle t + 1"
    by (simp add: FileData_new_def)
  then show ?thesis
    using t' open_files_append [OF xs(1), of ?d] xs(2,3) by (intro that [of t']) (auto simp: ft_map_def)
qed

lemma ft_map_lookup:
  assumes "ft_map t F"
  shows "Filesystem_getName fh t = Some (case F fh of None \<Rightarrow> [] | Some d \<Rightarrow> fd_name d)"
    "Filesystem_getFS fh t = Some (case F fh of None \<Rightarrow> [] | Some d \<Rightarrow> fd_fs d)"
    "Filesystem_getCustom fh t = Some (case F fh of None \<Rightarrow> nullptr | Some d \<Rightarrow> fd_custom d)"
    "Filesystem_getFilesystem fh t = Some (case F fh of None \<Rightarrow> nullptr | Some d \<Rightarrow> fd_owner d)"
proof -
  obtain xs where xs: "ft_is t xs" "open_files xs = F"
    using assms by (auto simp: ft_map_def)
  show "Filesystem_getName fh t = Some (case F fh of None \<Rightarrow> [] | Some d \<Rightarrow> fd_name d)"
    "Filesystem_getFS fh t = Some (case F fh of None \<Rightarrow> [] | Some d \<Rightarrow> fd_fs d)"
    "Filesystem_getCustom fh t = Some (case F fh of None \<Rightarrow> nullptr | Some d \<Rightarrow> fd_custom d)"
    "Filesystem_getFilesystem fh t = Some (case F fh of None \<Rightarrow> nullptr | Some d \<Rightarrow> fd_owner d)"
    using file_search_id [OF xs(1), of fh] xs(2)
    by (auto simp: Filesystem_getName_def Filesystem_getFS_def Filesystem_getCustom_def Filesystem_getFilesystem_def)
qed

lemma ft_map_closefile:
  assumes "ft_map t F"
  obtains t' where "Filesystem_closefile fh t = Some (F fh \<noteq> None, t')" "ft_map t' (F(fh := None))"
    "ft_handle t' = ft_handle t" "ft_errno t' = ft_errno t"
proof -
  obtain xs where xs: "ft_is t xs" "open_files xs = F" "2 \<le> ft_handle t"
    using assms by (auto simp: ft_map_def)
  show ?thesis
    using file_search_id [OF xs(1), of fh]
  proof (elim disjE exE conjE)
    assume n: "file_search (\<lambda>d. fd_id d = fh) t = Some None" "open_files xs fh = None"
    then have "F(fh := None) = F" "F fh = None"
      using xs(2) by auto
    then show ?thesis
      using n assms by (intro that [of t]) (simp_all add: Filesystem_closefile_def)
  next
    fix ys a d zs
    assume s: "xs = ys @ (a, d) # zs" "fd_id d = fh" "open_files xs fh = Some d"
      "file_search (\<lambda>d. fd_id d = fh) t = Some (Some (of_nat (length ys), a, d))"
    obtain t1 where t1: "Filesystem_closefile (fd_id d) t = Some (True, t1)" "ft_is t1 (ys @ zs)" "ft_handle t1 = ft_handle t"
      "ft_errno t1 = ft_errno t"
      by (rule closefile_ok [of t ys a d zs]) (use s xs(1) in auto)
    have "open_files (ys @ zs) = F(fh := None)" "F fh \<noteq> None"
      using open_files_remove [of t ys a d zs] xs(1,2) s by auto
    then show ?thesis
      using t1 s(2) xs(3) by (intro that [of t1]) (auto simp: ft_map_def)
  qed
qed

section \<open>An object behind every handle\<close>

text \<open>
  A file system keeps an object on the heap for each handle, to which \<^verbatim>\<open>getCustom\<close> points.  \<open>open_objects t I n this R M\<close>: in
  table \<open>t\<close> the open handles are those of \<open>M\<close>, all owned by \<open>this\<close>; the objects \<open>I\<close> behind them are pairwise different and below the
  next free address \<open>n\<close>, and \<open>R\<close> relates what \<open>M\<close> says of a handle to its object.
\<close>

definition open_objects :: "file_table \<Rightarrow> (nat \<rightharpoonup> 'i) \<Rightarrow> nat \<Rightarrow> ptr \<Rightarrow> ('x \<Rightarrow> 'i \<Rightarrow> bool) \<Rightarrow> (int \<rightharpoonup> 'x) \<Rightarrow> bool" where
  "open_objects t I n this R M \<longleftrightarrow> (\<exists>F P. ft_map t F \<and> dom F = dom M \<and> inj_on P (dom M) \<and>
     (\<forall>h d. F h = Some d \<longrightarrow> fd_custom d = Some (P h) \<and> fd_owner d = this) \<and>
     (\<forall>h x. M h = Some x \<longrightarrow> P h < n \<and> (\<exists>it. I (P h) = Some it \<and> R x it)))"

lemma open_objectsE:
  assumes "open_objects t I n this R M"
  obtains F P where "ft_map t F" "dom F = dom M" "inj_on P (dom M)"
    "\<And>h d. F h = Some d \<Longrightarrow> fd_custom d = Some (P h) \<and> fd_owner d = this" "\<And>h x. M h = Some x \<Longrightarrow> P h < n"
    "\<And>h x. M h = Some x \<Longrightarrow> \<exists>it. I (P h) = Some it \<and> R x it"
  using assms unfolding open_objects_def by blast

lemma open_objectsI:
  assumes "ft_map t F" "dom F = dom M" "inj_on P (dom M)"
    "\<And>h d. F h = Some d \<Longrightarrow> fd_custom d = Some (P h) \<and> fd_owner d = this" "\<And>h x. M h = Some x \<Longrightarrow> P h < n"
    "\<And>h x. M h = Some x \<Longrightarrow> \<exists>it. I (P h) = Some it \<and> R x it"
  shows "open_objects t I n this R M"
  using assms unfolding open_objects_def by blast

lemma open_objects_new: "open_objects Filesystem_table I n this R Map.empty"
  by (rule open_objectsI [where F = Map.empty and P = "\<lambda>_. 0"]) (simp_all add: ft_map_new)

lemma open_objects_errno [simp]: "open_objects (t\<lparr>ft_errno := e\<rparr>) I n this R M = open_objects t I n this R M"
  by (simp add: open_objects_def)

lemma open_objects_mapfile:
  assumes "open_objects t I n this R M" "ft_handle t < INT_MAX" "Suc (card (dom M)) < 2 ^ 32" "R x it"
  defines "h \<equiv> ft_handle t + 1"
  obtains t' where "Filesystem_mapfile ty path this (Some n) t = Some (h, t')" "2 < h" "M h = None"
    "open_objects t' (I(n \<mapsto> it)) (Suc n) this R (M(h \<mapsto> x))" "ft_handle t' = h"
proof -
  obtain F P where F: "ft_map t F" "dom F = dom M" "inj_on P (dom M)"
    "\<And>h d. F h = Some d \<Longrightarrow> fd_custom d = Some (P h) \<and> fd_owner d = this" "\<And>h x. M h = Some x \<Longrightarrow> P h < n"
    "\<And>h x. M h = Some x \<Longrightarrow> \<exists>it. I (P h) = Some it \<and> R x it"
    by (rule open_objectsE [OF assms(1)]) blast
  have r: "Suc (card (dom F)) < 2 ^ 32"
    using assms(3) F(2) by simp
  obtain t' where t: "Filesystem_mapfile ty path this (Some n) t = Some (h, t')" "ft_map t' (F(h \<mapsto> FileData_new h ty path this (Some n)))"
    "F h = None" "ft_handle t' = h"
    using ft_map_mapfile [OF F(1) assms(2) r, of ty path this "Some n" thesis] unfolding h_def by blast
  have M: "M h = None"
    using t(3) F(2) by (metis domIff)
  let ?P = "P(h := n)"
  have "2 < h"
    using F(1) by (simp add: h_def ft_map_def)
  have inj: "inj_on ?P (dom (M(h \<mapsto> x)))"
    using F(3,5) M by (fastforce simp: inj_on_def)
  have "open_objects t' (I(n \<mapsto> it)) (Suc n) this R (M(h \<mapsto> x))"
  proof (rule open_objectsI [where F = "F(h \<mapsto> FileData_new h ty path this (Some n))" and P = ?P])
    show "dom (F(h \<mapsto> FileData_new h ty path this (Some n))) = dom (M(h \<mapsto> x))"
      using F(2) by simp
  next
    fix g d
    assume "(F(h \<mapsto> FileData_new h ty path this (Some n))) g = Some d"
    then show "fd_custom d = Some (?P g) \<and> fd_owner d = this"
      using F(4) by (auto simp: FileData_new_def split: if_splits)
  next
    fix g y
    assume g: "(M(h \<mapsto> x)) g = Some y"
    show "?P g < Suc n"
      using g F(5) [of g y] by (auto split: if_splits)
    show "\<exists>i. (I(n \<mapsto> it)) (?P g) = Some i \<and> R y i"
      using g F(5,6) [of g y] assms(4) by (auto split: if_splits)
  qed (use t(2) inj in auto)
  then show ?thesis
    using t(1,4) \<open>2 < h\<close> M by (intro that)
qed

lemma open_objects_open:
  assumes "open_objects t I n this R M" "M h = Some x"
  obtains a it nm t' where "Filesystem_getCustom h t = Some (Some a)" "Filesystem_getName h t = Some nm" "I a = Some it" "R x it"
    "\<And>it' x'. R x' it' \<Longrightarrow> open_objects t (I(a \<mapsto> it')) n this R (M(h \<mapsto> x'))"
    "Filesystem_closefile h t = Some (True, t')" "open_objects t' (I(a := None)) n this R (M(h := None))"
proof -
  obtain F P where F: "ft_map t F" "dom F = dom M" "inj_on P (dom M)"
    "\<And>h d. F h = Some d \<Longrightarrow> fd_custom d = Some (P h) \<and> fd_owner d = this" "\<And>h x. M h = Some x \<Longrightarrow> P h < n"
    "\<And>h x. M h = Some x \<Longrightarrow> \<exists>it. I (P h) = Some it \<and> R x it"
    by (rule open_objectsE [OF assms(1)]) blast
  have "h \<in> dom F"
    using F(2) assms(2) by auto
  then obtain d where d: "F h = Some d" "fd_custom d = Some (P h)"
    using F(4) by auto
  obtain it where it: "I (P h) = Some it" "R x it"
    using F(6) [OF assms(2)] by blast
  have other: "P g \<noteq> P h" if "M g = Some y" "g \<noteq> h" for g y
    using F(3) assms(2) that by (auto simp: inj_on_def)
  obtain t' where t: "Filesystem_closefile h t = Some (F h \<noteq> None, t')" "ft_map t' (F(h := None))"
    by (rule ft_map_closefile [OF F(1), of h]) blast
  have "open_objects t (I(P h \<mapsto> it')) n this R (M(h \<mapsto> x'))" if r: "R x' it'" for it' x'
  proof (rule open_objectsI [where F = F and P = P])
    fix g y
    assume g: "(M(h \<mapsto> x')) g = Some y"
    show "P g < n"
      using g F(5) [OF assms(2)] F(5) [of g y] by (auto split: if_splits)
    show "\<exists>i. (I(P h \<mapsto> it')) (P g) = Some i \<and> R y i"
      using g F(6) [of g y] r other [of g y] by (cases "g = h") auto
  qed (use F assms(2) in \<open>auto simp: insert_absorb domI\<close>)
  moreover have "open_objects t' (I(P h := None)) n this R (M(h := None))"
  proof (rule open_objectsI [where F = "F(h := None)" and P = P])
    fix g y
    assume "(M(h := None)) g = Some y"
    then have "g \<noteq> h" "M g = Some y"
      by (auto split: if_splits)
    then show "P g < n" "\<exists>i. (I(P h := None)) (P g) = Some i \<and> R y i"
      using F(5,6) [of g y] other [of g y] by auto
  qed (use F t(2) in \<open>auto intro: inj_on_subset split: if_splits\<close>)
  ultimately show ?thesis
    using ft_map_lookup(1,3) [OF F(1), of h] d it t(1) by (intro that [of "P h" "fd_name d" it t']) simp_all
qed

lemma open_objects_closed:
  assumes "open_objects t I n this R M" "M h = None"
  obtains nm t' where "Filesystem_getCustom h t = Some nullptr" "Filesystem_getName h t = Some nm"
    "Filesystem_closefile h t = Some (False, t')" "open_objects t' I n this R M"
proof -
  obtain F P where F: "ft_map t F" "dom F = dom M" "inj_on P (dom M)"
    "\<And>h d. F h = Some d \<Longrightarrow> fd_custom d = Some (P h) \<and> fd_owner d = this" "\<And>h x. M h = Some x \<Longrightarrow> P h < n"
    "\<And>h x. M h = Some x \<Longrightarrow> \<exists>it. I (P h) = Some it \<and> R x it"
    by (rule open_objectsE [OF assms(1)]) blast
  have d: "F h = None"
    using F(2) assms(2) by (metis domIff)
  obtain t' where t: "Filesystem_closefile h t = Some (F h \<noteq> None, t')" "ft_map t' (F(h := None))"
    by (rule ft_map_closefile [OF F(1), of h]) blast
  have "F(h := None) = F"
    using d by auto
  then have "open_objects t' I n this R M"
    using F t(2) by (intro open_objectsI [where F = F and P = P]) simp_all
  then show ?thesis
    using ft_map_lookup(1,3) [OF F(1), of h] d t(1) by (intro that [of "[]" t']) simp_all
qed

lemma open_objects_owner:
  assumes "open_objects t I n this R M"
  shows "Filesystem_getFilesystem h t = Some (if M h = None then nullptr else this)"
proof -
  obtain F P where F: "ft_map t F" "dom F = dom M" "\<And>h d. F h = Some d \<Longrightarrow> fd_custom d = Some (P h) \<and> fd_owner d = this"
    by (rule open_objectsE [OF assms]) blast
  moreover have "F h = None \<longleftrightarrow> M h = None"
    using F(2) by (metis domIff)
  ultimately show ?thesis
    using ft_map_lookup(4) [OF F(1), of h] by (auto split: option.splits)
qed

section \<open>File systems over the table\<close>

text \<open>
  What every file system promises of its handles: \<open>inv s M\<close> says that in state \<open>s\<close> the open handles are those of \<open>M\<close>.
\<close>

locale handle_closing =
  fixes inv :: "'s \<Rightarrow> (int \<rightharpoonup> 'd) \<Rightarrow> bool"
    and close_h :: "int \<Rightarrow> 's \<Rightarrow> (int \<times> 's) option"
    and errno_of :: "'s \<Rightarrow> int"
  assumes close_open: "inv s M \<Longrightarrow> M h = Some d \<Longrightarrow> \<exists>s'. close_h h s = Some (0, s') \<and> inv s' (M(h := None))"
    and close_bad: "inv s M \<Longrightarrow> M h = None \<Longrightarrow> \<exists>s'. close_h h s = Some (- 1, s') \<and> inv s' M \<and> errno_of s' = EBADF"
begin

lemma close_never_stuck: "inv s M \<Longrightarrow> \<exists>r s'. close_h h s = Some (r, s') \<and> inv s' (M(h := None)) \<and> (r = 0 \<longleftrightarrow> M h \<noteq> None)"
proof (cases "M h")
  case None
  moreover from this have "M(h := None) = M"
    by auto
  moreover assume "inv s M"
  ultimately show ?thesis
    using close_bad [of s M h] by auto
next
  case (Some d)
  moreover assume "inv s M"
  ultimately show ?thesis
    using close_open [of s M h d] by auto
qed

lemma close_twice:
  assumes "inv s M" "close_h h s = Some (r, s')"
  shows "\<exists>s''. close_h h s' = Some (- 1, s'') \<and> inv s'' (M(h := None)) \<and> errno_of s'' = EBADF"
  using close_never_stuck [OF assms(1), of h] close_bad [of s' "M(h := None)" h] assms(2) by auto

end

locale handle_opening = handle_closing inv close_h errno_of
  for inv :: "'s \<Rightarrow> (int \<rightharpoonup> 'd) \<Rightarrow> bool" and close_h :: "int \<Rightarrow> 's \<Rightarrow> (int \<times> 's) option" and errno_of :: "'s \<Rightarrow> int" +
  fixes open_f :: "name \<Rightarrow> int \<Rightarrow> 's \<Rightarrow> (int \<times> 's) option"
    and room :: "'s \<Rightarrow> (int \<rightharpoonup> 'd) \<Rightarrow> bool"
  assumes open_result: "inv s M \<Longrightarrow> room s M \<Longrightarrow> \<exists>r s'. open_f path fl s = Some (r, s') \<and>
    (r = - 1 \<and> inv s' M \<and> errno_of s' \<in> {ENOENT, EPERM} \<or> r > 2 \<and> M r = None \<and> (\<exists>d. inv s' (M(r \<mapsto> d))))"
begin

lemma open_then_close:
  assumes "inv s M" "room s M" "open_f path fl s = Some (r, s')" "r \<noteq> - 1"
  shows "\<exists>s''. close_h r s' = Some (0, s'') \<and> inv s'' M"
proof -
  obtain d where d: "M r = None" "inv s' (M(r \<mapsto> d))"
    using open_result [OF assms(1,2), of path fl] assms(3,4) by auto
  have "(M(r \<mapsto> d))(r := None) = M"
    using d(1) by auto
  then show ?thesis
    using close_open [OF d(2), of r d] by auto
qed

end

text \<open>
  C17: the table of open files refines a map from handles to files.  \<^verbatim>\<open>mapfile\<close> returns a handle that
  is not open and adds the file under it; \<^verbatim>\<open>getName\<close>, \<^verbatim>\<open>getFS\<close>, \<^verbatim>\<open>getCustom\<close> and \<^verbatim>\<open>getFilesystem\<close> read
  the entry of a handle, and give an empty string or \<^verbatim>\<open>nullptr\<close> when there is none; \<^verbatim>\<open>closefile\<close> removes
  exactly the handle given and tells whether it was open; \<^verbatim>\<open>setFcntl\<close> changes only the flags of one
  handle, which \<^verbatim>\<open>getFcntl\<close> reads, and for a handle that is not open both return -1 with \<^verbatim>\<open>EBADF\<close>.
\<close>

theorem file_table_refines_map:
  assumes "ft_is t xs"
  shows "(2 \<le> ft_handle t \<and> ft_handle t < INT_MAX \<and> Suc (length xs) < 2 ^ 32 \<longrightarrow>
      (\<exists>t' xs'. Filesystem_mapfile fs nm ow cu t = Some (ft_handle t + 1, t') \<and> ft_is t' xs' \<and>
        open_files xs (ft_handle t + 1) = None \<and>
        open_files xs' = (open_files xs)(ft_handle t + 1 \<mapsto> FileData_new (ft_handle t + 1) fs nm ow cu))) \<and>
    Filesystem_getName fh t = Some (case open_files xs fh of None \<Rightarrow> [] | Some d \<Rightarrow> fd_name d) \<and>
    Filesystem_getFS fh t = Some (case open_files xs fh of None \<Rightarrow> [] | Some d \<Rightarrow> fd_fs d) \<and>
    Filesystem_getCustom fh t = Some (case open_files xs fh of None \<Rightarrow> nullptr | Some d \<Rightarrow> fd_custom d) \<and>
    Filesystem_getFilesystem fh t = Some (case open_files xs fh of None \<Rightarrow> nullptr | Some d \<Rightarrow> fd_owner d) \<and>
    (\<exists>t' xs'. Filesystem_closefile fh t = Some (open_files xs fh \<noteq> None, t') \<and> ft_is t' xs' \<and>
      open_files xs' = (open_files xs)(fh := None)) \<and>
    Filesystem_getFcntl fh t = Some (case open_files xs fh of None \<Rightarrow> (- 1, t\<lparr>ft_errno := EBADF\<rparr>) | Some d \<Rightarrow> (fd_fcntl d, t)) \<and>
    (case open_files xs fh of
       None \<Rightarrow> Filesystem_setFcntl fh md t = Some (- 1, t\<lparr>ft_errno := EBADF\<rparr>)
     | Some d \<Rightarrow> \<exists>t' xs'. Filesystem_setFcntl fh md t = Some (0, t') \<and> ft_is t' xs' \<and>
         open_files xs' = (open_files xs)(fh \<mapsto> d\<lparr>fd_fcntl := md\<rparr>))"
proof -
  have map: "\<exists>t' xs'. Filesystem_mapfile fs nm ow cu t = Some (ft_handle t + 1, t') \<and> ft_is t' xs' \<and>
      open_files xs (ft_handle t + 1) = None \<and>
      open_files xs' = (open_files xs)(ft_handle t + 1 \<mapsto> FileData_new (ft_handle t + 1) fs nm ow cu)"
    if hh: "2 \<le> ft_handle t" "ft_handle t < INT_MAX" "Suc (length xs) < 2 ^ 32"
  proof -
    let ?d = "FileData_new (ft_handle t + 1) fs nm ow cu"
    obtain t' where "Filesystem_mapfile fs nm ow cu t = Some (ft_handle t + 1, t')" "ft_is t' (xs @ [(ft_fresh t, ?d)])"
      by (rule mapfile_ok [OF assms hh(2,3,1)])
    moreover have "fd_id ?d = ft_handle t + 1"
      by (simp add: FileData_new_def)
    ultimately show ?thesis
      using open_files_append [OF assms, of ?d] by fastforce
  qed
  show ?thesis
    using file_search_id [OF assms, of fh]
  proof (elim disjE exE conjE)
    assume n: "file_search (\<lambda>d. fd_id d = fh) t = Some None" "open_files xs fh = None"
    have "(open_files xs)(fh := None) = open_files xs"
      using n(2) by auto
    then show ?thesis
      using n map assms
      by (auto simp: Filesystem_getName_def Filesystem_getFS_def Filesystem_getCustom_def Filesystem_getFilesystem_def
          Filesystem_closefile_def Filesystem_getFcntl_def Filesystem_setFcntl_def)
  next
    fix ys a d zs
    assume s: "xs = ys @ (a, d) # zs" "fd_id d = fh" "open_files xs fh = Some d"
      "file_search (\<lambda>d. fd_id d = fh) t = Some (Some (of_nat (length ys), a, d))"
    obtain t1 where t1: "Filesystem_closefile (fd_id d) t = Some (True, t1)" "ft_is t1 (ys @ zs)"
      by (rule closefile_ok [of t ys a d zs]) (use s assms in auto)
    obtain t2 where t2: "Filesystem_setFcntl (fd_id d) md t = Some (0, t2)" "ft_is t2 (ys @ (a, d\<lparr>fd_fcntl := md\<rparr>) # zs)"
      by (rule setFcntl_ok [of t ys a d zs]) (use s assms in auto)
    have c: "\<exists>t' xs'. Filesystem_closefile fh t = Some (True, t') \<and> ft_is t' xs' \<and> open_files xs' = (open_files xs)(fh := None)"
      using t1 open_files_remove [of t ys a d zs] assms s(1,2) by auto
    have f: "\<exists>t' xs'. Filesystem_setFcntl fh md t = Some (0, t') \<and> ft_is t' xs' \<and>
         open_files xs' = (open_files xs)(fh \<mapsto> d\<lparr>fd_fcntl := md\<rparr>)"
      using t2 open_files_update [of t ys a d zs "d\<lparr>fd_fcntl := md\<rparr>"] assms s(1,2) by auto
    have "Filesystem_getName fh t = Some (fd_name d)" "Filesystem_getFS fh t = Some (fd_fs d)"
      "Filesystem_getCustom fh t = Some (fd_custom d)" "Filesystem_getFilesystem fh t = Some (fd_owner d)"
      "Filesystem_getFcntl fh t = Some (fd_fcntl d, t)"
      using s(4) by (simp_all add: Filesystem_getName_def Filesystem_getFS_def Filesystem_getCustom_def
          Filesystem_getFilesystem_def Filesystem_getFcntl_def)
    then show ?thesis
      using map c f s(3) by simp
  qed
qed

theorem file_table_refines_map_witness:
  "\<exists>t' xs'. Filesystem_mapfile [1] [2] nullptr nullptr Filesystem_table = Some (3, t') \<and> ft_is t' xs' \<and>
     open_files xs' = [3 \<mapsto> FileData_new 3 [1] [2] nullptr nullptr]"
proof -
  have "ft_handle Filesystem_table = 2" "open_files [] = Map.empty"
    by (simp_all add: Filesystem_table_def fun_eq_iff)
  then show ?thesis
    using file_table_refines_map [OF ft_is_new, THEN conjunct1, of "[1]" "[2]" nullptr nullptr]
    by (simp add: INT_MAX_def)
qed

text \<open>
  C18: \<^verbatim>\<open>pathPart\<close> and \<^verbatim>\<open>pathParts\<close> split a path at its slashes.  A path is the join of its parts, none of
  which contains a slash; \<^verbatim>\<open>pathParts\<close> is the number of slashes, one less than the number of parts, and
  \<^verbatim>\<open>pathPart(path, i)\<close> is part number \<open>i\<close>, or empty if there is none.
\<close>

theorem path_splitting:
  assumes "length p + unat i < 2 ^ 32"
  shows "join (parts p) = p \<and> (\<forall>q \<in> set (parts p). SLASH \<notin> set q) \<and> unat (Filesystem_pathParts p) + 1 = length (parts p) \<and>
    Filesystem_pathPart p i = (if unat i < length (parts p) then parts p ! unat i else [])"
  using assms pathParts_count [of p] pathPart_nth [of p i] by (simp add: join_parts parts_no_slash)

theorem path_splitting_witness:
  "Filesystem_pathPart [47, 97, 98, 47, 99] 1 = [97, 98] \<and> join (parts [47, 97, 98, 47, 99]) = [47, 97, 98, 47, 99]"
  using path_splitting [of "[47, 97, 98, 47, 99]" 1] by (simp add: SLASH_def)

end
