(* ===== verification/Block_Device.thy ===== *)
theory Block_Device
  imports Kernel_String
begin

text \<open>
  Block devices: the interface \<^verbatim>\<open>FilesystemPhys\<close> through which a file system reads its disc
  (\<^verbatim>\<open>inc/fs/filesystem.hh\<close>), the buffers it reads into, and the chain of storage devices in class
  \<^verbatim>\<open>Storage\<close> (\<^verbatim>\<open>src/storage.cpp\<close>, \<^verbatim>\<open>inc/storage.hh\<close>).

  \<^verbatim>\<open>FilesystemPhys\<close> is an abstract class: a \<open>phys\<close> is a record of its methods.  \<open>ph_read\<close> gives
  the result of \<^verbatim>\<open>read\<close> and the bytes that the device stores in the buffer; the device is not written while
  a read-only file system uses it, so the answer depends on the arguments only.  \<open>holds_disc p c\<close> is what a
  working device with 512-byte sectors and content \<open>c\<close> does.
\<close>

section \<open>Devices and buffers\<close>

record phys =
  ph_read :: "u32 \<Rightarrow> u32 \<Rightarrow> u32 \<Rightarrow> bool \<times> u8 list"
  ph_size :: u64
  ph_sectorSize :: u32

text \<open>Bytes stored into a buffer from an offset on; outside the buffer there is no defined result.\<close>

definition buf_write :: "nat \<Rightarrow> u8 list \<Rightarrow> u8 list \<Rightarrow> u8 list option" where
  "buf_write off bs buf =
     (if off + length bs \<le> length buf then Some (take off buf @ bs @ drop (off + length bs) buf) else None)"

definition buf_read :: "nat \<Rightarrow> nat \<Rightarrow> u8 list \<Rightarrow> u8 list option" where
  "buf_read off n buf = (if off + n \<le> length buf then Some (take n (drop off buf)) else None)"

text \<open>The characters of a C string that starts at the beginning of a buffer.\<close>

definition buf_cstr :: "u8 list \<Rightarrow> u8 list option" where
  "buf_cstr buf = (if 0 \<in> set buf then Some (takeWhile (\<lambda>c. c \<noteq> 0) buf) else None)"

definition holds_disc :: "phys \<Rightarrow> u8 list \<Rightarrow> bool" where
  "holds_disc p c \<longleftrightarrow> ph_sectorSize p = 512 \<and> unat (ph_size p) = length c \<and> length c \<le> 2 ^ 32 - 512 \<and>
     (\<forall>b. 512 * b + 512 \<le> length c \<longrightarrow> ph_read p 1 (of_nat (512 * b)) 0 = (True, take 512 (drop (512 * b) c)))"

lemma buf_write_all: "length bs = length buf \<Longrightarrow> buf_write 0 bs buf = Some bs"
  by (simp add: buf_write_def)

lemma buf_write_length: "buf_write off bs buf = Some b \<Longrightarrow> length b = length buf"
  by (auto simp: buf_write_def split: if_splits)

lemma buf_write_append:
  "buf_write off xs buf = Some b \<Longrightarrow> buf_write (off + length xs) ys b = Some b' \<Longrightarrow> buf_write off (xs @ ys) buf = Some b'"
  by (auto simp: buf_write_def ac_simps split: if_splits)

lemma buf_write_Nil: "off \<le> length buf \<Longrightarrow> buf_write off [] buf = Some buf"
  by (simp add: buf_write_def)

section \<open>The chain of storage devices\<close>

datatype device_class = CLASS_NONE | CLASS_ATA | CLASS_USB

record device =
  dev_class :: device_class
  dev_next :: ptr

record storage =
  sto_devices :: ptr
  sto_store :: "nat \<rightharpoonup> device"

definition Device_new :: device where
  "Device_new = \<lparr>dev_class = CLASS_NONE, dev_next = nullptr\<rparr>"

definition Storage_new :: "(nat \<rightharpoonup> device) \<Rightarrow> storage" where
  "Storage_new st = \<lparr>sto_devices = nullptr, sto_store = st\<rparr>"

partial_function (option) last_device :: "(nat \<rightharpoonup> device) \<Rightarrow> nat \<Rightarrow> nat option" where
  "last_device st a = do {
     d \<leftarrow> st a;
     (case dev_next d of None \<Rightarrow> Some a | Some b \<Rightarrow> last_device st b) }"

definition Storage_addDevice :: "ptr \<Rightarrow> storage \<Rightarrow> storage option" where
  "Storage_addDevice dev s =
     (case dev of None \<Rightarrow> Some s
      | Some d \<Rightarrow>
         (case sto_devices s of
            None \<Rightarrow> Some (s\<lparr>sto_devices := Some d\<rparr>)
          | Some a \<Rightarrow> do {
              l \<leftarrow> last_device (sto_store s) a;
              x \<leftarrow> sto_store s l;
              Some (s\<lparr>sto_store := (sto_store s)(l \<mapsto> x\<lparr>dev_next := Some d\<rparr>)\<rparr>) }))"

partial_function (option) count_devices :: "(nat \<rightharpoonup> device) \<Rightarrow> nat \<Rightarrow> u32 \<Rightarrow> u32 option" where
  "count_devices st a num = do {
     d \<leftarrow> st a;
     (case dev_next d of None \<Rightarrow> Some num | Some b \<Rightarrow> count_devices st b (num + 1)) }"

definition Storage_numDevices :: "storage \<Rightarrow> u32 option" where
  "Storage_numDevices s = (case sto_devices s of None \<Rightarrow> Some 0 | Some a \<Rightarrow> count_devices (sto_store s) a 1)"

definition Storage_getDevice :: "storage \<Rightarrow> ptr" where
  "Storage_getDevice s = sto_devices s"

definition Storage_nextDevice :: "ptr \<Rightarrow> storage \<Rightarrow> ptr option" where
  "Storage_nextDevice dev s =
     (case dev of None \<Rightarrow> Some nullptr | Some a \<Rightarrow> do { d \<leftarrow> sto_store s a; Some (dev_next d) })"

text \<open>What a client sees that walks the chain with \<^verbatim>\<open>getDevice\<close> and \<^verbatim>\<open>nextDevice\<close>.\<close>

fun walk_devices :: "nat \<Rightarrow> ptr \<Rightarrow> storage \<Rightarrow> nat list option" where
  "walk_devices n None s = Some []"
| "walk_devices 0 (Some a) s = None"
| "walk_devices (Suc n) (Some a) s = do {
     q \<leftarrow> Storage_nextDevice (Some a) s;
     r \<leftarrow> walk_devices n q s;
     Some (a # r) }"

fun dev_chain :: "(nat \<rightharpoonup> device) \<Rightarrow> ptr \<Rightarrow> nat list \<Rightarrow> bool" where
  "dev_chain st p [] \<longleftrightarrow> p = nullptr"
| "dev_chain st p (a # as) \<longleftrightarrow> p = Some a \<and> a \<notin> set as \<and> (\<exists>d. st a = Some d \<and> dev_chain st (dev_next d) as)"

lemma last_device_chain:
  "dev_chain st (Some a) as \<Longrightarrow> last_device st a = Some (last as) \<and> as \<noteq> []"
proof (induction as arbitrary: a)
  case (Cons b bs)
  then show ?case
    by (cases bs) (auto simp: last_device.simps [of st b])
qed simp

lemma count_devices_chain:
  "dev_chain st (Some a) as \<Longrightarrow> count_devices st a num = Some (num + of_nat (length as) - 1)"
proof (induction as arbitrary: a num)
  case (Cons b bs)
  then show ?case
    by (cases bs) (auto simp: count_devices.simps [of st b] add.commute)
qed simp

lemma dev_chain_upd:
  "x \<notin> set as \<Longrightarrow> dev_chain (st(x \<mapsto> d)) p as \<longleftrightarrow> dev_chain st p as"
  by (induction as arbitrary: p) auto

lemma dev_chain_snoc:
  assumes "dev_chain st p as" "as \<noteq> []" "new \<notin> set as" "st new = Some d" "dev_next d = nullptr"
    "st (last as) = Some x"
  shows "dev_chain (st(last as \<mapsto> x\<lparr>dev_next := Some new\<rparr>)) p (as @ [new])"
  using assms
proof (induction as arbitrary: p)
  case (Cons a as)
  show ?case
  proof (cases as)
    case Nil
    then show ?thesis
      using Cons.prems by auto
  next
    case (Cons b bs)
    then have "last as \<in> set as" "a \<notin> set as"
      using Cons.prems by auto
    then have "last as \<noteq> a"
      by metis
    then show ?thesis
      using Cons.prems Cons.IH Cons by auto
  qed
qed simp

lemma dev_chain_last: "dev_chain st p as \<Longrightarrow> as \<noteq> [] \<Longrightarrow> \<exists>x. st (last as) = Some x"
  by (induction as arbitrary: p) auto

lemma walk_chain:
  "dev_chain (sto_store s) p as \<Longrightarrow> walk_devices (length as) p s = Some as"
  by (induction as arbitrary: p) (auto simp: Storage_nextDevice_def)

text \<open>
  The chain of devices is a queue.  If it holds the devices \<open>as\<close>, adding a new device gives a
  chain that holds \<open>as @ [new]\<close>; \<^verbatim>\<open>numDevices\<close> is its length and walking it with \<^verbatim>\<open>getDevice\<close> and \<^verbatim>\<open>nextDevice\<close>
  visits the devices in the order in which they were added.
\<close>

theorem Storage_is_queue:
  assumes "dev_chain (sto_store s) (sto_devices s) as" "new \<notin> set as" "sto_store s new = Some d" "dev_next d = nullptr"
  shows "\<exists>s'. Storage_addDevice (Some new) s = Some s' \<and> dev_chain (sto_store s') (sto_devices s') (as @ [new]) \<and>
    Storage_numDevices s' = Some (of_nat (length as) + 1) \<and>
    walk_devices (length as + 1) (Storage_getDevice s') s' = Some (as @ [new])"
proof -
  have *: "Storage_numDevices s' = Some (of_nat (length as) + 1) \<and> walk_devices (length as + 1) (Storage_getDevice s') s' = Some (as @ [new])"
    if c: "dev_chain (sto_store s') (sto_devices s') (as @ [new])" for s'
  proof -
    obtain a where "sto_devices s' = Some a"
      using c by (cases as) auto
    then show ?thesis
      using c count_devices_chain [of "sto_store s'" a "as @ [new]"] walk_chain [of s' "sto_devices s'" "as @ [new]"]
      by (simp add: Storage_numDevices_def Storage_getDevice_def add.commute del: walk_devices.simps)
  qed
  show ?thesis
  proof (cases "sto_devices s")
    case None
    then have "as = []"
      using assms(1) by (cases as) auto
    then show ?thesis
      using None assms * [of "s\<lparr>sto_devices := Some new\<rparr>"] by (simp add: Storage_addDevice_def)
  next
    case (Some a)
    then have l: "last_device (sto_store s) a = Some (last as)" "as \<noteq> []"
      using last_device_chain assms(1) by auto
    then obtain x where x: "sto_store s (last as) = Some x"
      using dev_chain_last [OF assms(1)] by auto
    let ?s = "s\<lparr>sto_store := (sto_store s)(last as \<mapsto> x\<lparr>dev_next := Some new\<rparr>)\<rparr>"
    have "Storage_addDevice (Some new) s = Some ?s"
      using Some l x by (simp add: Storage_addDevice_def)
    moreover have "dev_chain (sto_store ?s) (sto_devices ?s) (as @ [new])"
      using dev_chain_snoc [OF assms(1) l(2) assms(2,3,4) x] by simp
    ultimately show ?thesis
      using * by blast
  qed
qed

definition two_devices :: storage where
  "two_devices = \<lparr>sto_devices = Some 1, sto_store = [1 \<mapsto> Device_new, 2 \<mapsto> Device_new]\<rparr>"

theorem Storage_is_queue_witness:
  "\<exists>s'. Storage_addDevice (Some 2) two_devices = Some s' \<and> Storage_numDevices s' = Some 2"
  using Storage_is_queue [of two_devices "[1]" 2 Device_new] by (auto simp: two_devices_def Device_new_def)

text \<open>A device added twice closes the chain to a cycle, and no operation that walks it returns.\<close>

lemma last_device_cycle:
  assumes "st a = Some d" "dev_next d = Some a"
  shows "last_device st a = None"
proof (rule ccontr)
  assume "last_device st a \<noteq> None"
  then obtain r where "last_device st a = Some r"
    by auto
  then have "st = st \<longrightarrow> a \<noteq> a"
    by (rule last_device.raw_induct [rotated, of _ _ _ "\<lambda>s x y. s = st \<longrightarrow> x \<noteq> a"]) (use assms in \<open>fastforce split: option.splits\<close>)
  then show False
    by blast
qed

end
