(* ===== verification/Dev_FS.thy ===== *)
theory Dev_FS
  imports File_Table Block_Device
begin

text \<open>
  The device file system with its two random devices (\<^verbatim>\<open>src/fs/devfs.cpp\<close>, \<^verbatim>\<open>inc/fs/devfs.hh\<close>) and the random number
  generator behind them (\<^verbatim>\<open>arch/random.cpp\<close>, \<^verbatim>\<open>inc/random.h\<close>).

  \<^verbatim>\<open>getRandomInt\<close> is virtual: the file system takes it as a function from the generator's state to a number and the
  next state; \<open>Random_getRandomInt\<close> is the generator of the base class.  The flags of \<^verbatim>\<open>open\<close> have the values of the C library.
\<close>

section \<open>Random numbers\<close>

text \<open>\<open>ticks\<close> is what the timer shows when the generator is first used.\<close>

definition Random_new :: u32 where
  "Random_new = 0"

definition Random_init :: "u32 \<Rightarrow> u32 \<Rightarrow> u32" where
  "Random_init ticks rand_seed = (if rand_seed \<noteq> 0 then rand_seed else ticks)"

definition Random_getRandomInt :: "u32 \<Rightarrow> u32 \<Rightarrow> u32 \<times> u32" where
  "Random_getRandomInt ticks rand_seed =
     (let seed = Random_init ticks rand_seed * 1103515245 + 12345 in (seed div 65536 mod 32768, seed))"

definition RandomX86_getRandomInt :: "bool \<Rightarrow> u32 \<Rightarrow> u32 \<Rightarrow> u32 \<Rightarrow> u32 \<times> u32" where
  "RandomX86_getRandomInt hw_rand hw ticks rand_seed =
     (if hw_rand then (hw, rand_seed) else Random_getRandomInt ticks rand_seed)"

section \<open>The file system\<close>

record devfs =
  dv_mountpoint :: name
  dv_opts :: name

definition O_WRONLY :: u32 where "O_WRONLY = 1"
definition O_RDWR :: u32 where "O_RDWR = 2"
definition O_CREAT :: u32 where "O_CREAT = 0x40"
definition O_TRUNC :: u32 where "O_TRUNC = 0x200"
definition O_APPEND :: u32 where "O_APPEND = 0x400"
definition O_TMPFILE :: u32 where "O_TMPFILE = 0x410000"

text \<open>\<open>DevFS\<close>, \<open>random\<close> and \<open>urandom\<close> in bytes.\<close>

definition DevFS_type :: name where
  "DevFS_type = [68, 101, 118, 70, 83]"

definition dev_random :: name where
  "dev_random = [114, 97, 110, 100, 111, 109]"

definition dev_urandom :: name where
  "dev_urandom = 117 # dev_random"

definition DevFS_new :: devfs where
  "DevFS_new = \<lparr>dv_mountpoint = [], dv_opts = []\<rparr>"

definition DevFS_copy :: "devfs \<Rightarrow> devfs" where
  "DevFS_copy fs = \<lparr>dv_mountpoint = dv_mountpoint fs, dv_opts = dv_mountpoint fs\<rparr>"

definition DevFS_mount :: "name \<Rightarrow> name \<Rightarrow> devfs" where
  "DevFS_mount mountpoint options = \<lparr>dv_mountpoint = mountpoint, dv_opts = options\<rparr>"

definition fail_with :: "int \<Rightarrow> file_table \<Rightarrow> int \<times> file_table" where
  "fail_with e t = (- 1, t\<lparr>ft_errno := e\<rparr>)"

definition write_flags :: "u32 \<Rightarrow> bool" where
  "write_flags flags \<longleftrightarrow> flags AND O_APPEND \<noteq> 0 \<or> flags AND O_CREAT \<noteq> 0 \<or> flags AND O_TRUNC \<noteq> 0 \<or>
     flags AND O_TMPFILE \<noteq> 0 \<or> flags AND O_WRONLY \<noteq> 0 \<or> flags AND O_RDWR \<noteq> 0"

definition DevFS_open :: "ptr \<Rightarrow> name \<Rightarrow> u32 \<Rightarrow> file_table \<Rightarrow> (int \<times> file_table) option" where
  "DevFS_open this path flags t =
     (if write_flags flags then Some (fail_with EPERM t)
      else if path = dev_random \<or> path = dev_urandom then Filesystem_mapfile DevFS_type path this nullptr t
      else Some (fail_with ENOENT t))"

definition DevFS_close :: "int \<Rightarrow> file_table \<Rightarrow> (int \<times> file_table) option" where
  "DevFS_close fh t = do {
     (ok, t) \<leftarrow> Filesystem_closefile fh t;
     (if \<not> ok then Some (fail_with EBADF t) else Some (0, t)) }"

text \<open>The loop of \<^verbatim>\<open>read\<close>: a counter of type \<^verbatim>\<open>ssize_t\<close> runs up to the count, which is negative from \<open>2 ^ 31\<close> on.\<close>

fun random_bytes :: "('r \<Rightarrow> u32 \<times> 'r) \<Rightarrow> nat \<Rightarrow> 'r \<Rightarrow> u8 list \<times> 'r" where
  "random_bytes gen 0 r = ([], r)"
| "random_bytes gen (Suc n) r =
     (let (x, r) = gen r; (bs, r) = random_bytes gen n r in (ucast (x mod 256 AND 0xFF) # bs, r))"

definition DevFS_read ::
  "('r \<Rightarrow> u32 \<times> 'r) \<Rightarrow> int \<Rightarrow> u8 list \<Rightarrow> u32 \<Rightarrow> 'r \<Rightarrow> file_table \<Rightarrow> (int \<times> u8 list \<times> 'r \<times> file_table) option" where
  "DevFS_read gen fh buf count r t = do {
     name \<leftarrow> Filesystem_getName fh t;
     (if name = dev_random \<or> name = dev_urandom then do {
        let n = nat (sint count);
        let (bs, r) = random_bytes gen n r;
        buf \<leftarrow> buf_write 0 bs buf;
        Some (int n, buf, r, t) }
      else Some (- 1, buf, r, t\<lparr>ft_errno := ENOENT\<rparr>)) }"

definition DevFS_fseek :: "int \<Rightarrow> file_table \<Rightarrow> (int \<times> file_table) option" where
  "DevFS_fseek fd t = do {
     name \<leftarrow> Filesystem_getName fd t;
     (if name = dev_random \<or> name = dev_urandom then Some (0, t) else Some (fail_with EBADF t)) }"

definition DevFS_truncate :: "name \<Rightarrow> int \<Rightarrow> file_table \<Rightarrow> int \<times> file_table" where
  "DevFS_truncate path len t = fail_with EPERM t"

definition DevFS_chmod :: "name \<Rightarrow> int \<Rightarrow> file_table \<Rightarrow> int \<times> file_table" where
  "DevFS_chmod path mode t = fail_with EPERM t"

definition DevFS_getattr :: "name \<Rightarrow> int \<Rightarrow> file_table \<Rightarrow> int \<times> file_table" where
  "DevFS_getattr path handle t = fail_with EPERM t"

definition DevFS_write :: "int \<Rightarrow> u8 list \<Rightarrow> u32 \<Rightarrow> file_table \<Rightarrow> int \<times> file_table" where
  "DevFS_write fh buf count t = fail_with EPERM t"

definition DevFS_symlink :: "name \<Rightarrow> name \<Rightarrow> file_table \<Rightarrow> int \<times> file_table" where
  "DevFS_symlink target linkpath t = fail_with EPERM t"

definition DevFS_rename :: "name \<Rightarrow> name \<Rightarrow> file_table \<Rightarrow> int \<times> file_table" where
  "DevFS_rename oldpath newpath t = fail_with EPERM t"

definition DevFS_unlink :: "name \<Rightarrow> file_table \<Rightarrow> int \<times> file_table" where
  "DevFS_unlink path t = fail_with EPERM t"

definition DevFS_stat :: "int \<Rightarrow> file_table \<Rightarrow> int \<times> file_table" where
  "DevFS_stat fd t = (- 1, t)"

definition DevFS_flush :: "int \<Rightarrow> file_table \<Rightarrow> int \<times> file_table" where
  "DevFS_flush fd t = (0, t)"

definition DevFS_opendir :: "name \<Rightarrow> ptr" where
  "DevFS_opendir name = nullptr"

definition DevFS_readdir :: "ptr \<Rightarrow> ptr" where
  "DevFS_readdir dir = nullptr"

definition DevFS_closedir :: "ptr \<Rightarrow> int" where
  "DevFS_closedir dir = - 1"

definition DevFS_mkdir :: "name \<Rightarrow> int \<Rightarrow> file_table \<Rightarrow> int \<times> file_table" where
  "DevFS_mkdir path mode t = fail_with EPERM t"

definition DevFS_rmdir :: "name \<Rightarrow> file_table \<Rightarrow> int \<times> file_table" where
  "DevFS_rmdir path t = fail_with EPERM t"

section \<open>The contract on handles\<close>

definition random_name :: "name \<Rightarrow> bool" where
  "random_name n \<longleftrightarrow> n = dev_random \<or> n = dev_urandom"

definition dinv :: "file_table \<Rightarrow> (int \<rightharpoonup> name) \<Rightarrow> bool" where
  "dinv t M \<longleftrightarrow> (\<exists>F. ft_map t F \<and> M = (\<lambda>h. map_option fd_name (F h))) \<and> (\<forall>n \<in> ran M. random_name n)"

definition droom :: "file_table \<Rightarrow> (int \<rightharpoonup> name) \<Rightarrow> bool" where
  "droom t M \<longleftrightarrow> ft_handle t < INT_MAX \<and> Suc (card (dom M)) < 2 ^ 32"

lemma dinvE:
  assumes "dinv t M"
  obtains F where "ft_map t F" "\<And>h. M h = map_option fd_name (F h)" "\<forall>n \<in> ran M. random_name n" "dom M = dom F"
  using assms by (auto simp: dinv_def dom_def)

lemma dinvI: "ft_map t F \<Longrightarrow> M = (\<lambda>h. map_option fd_name (F h)) \<Longrightarrow> \<forall>n \<in> ran M. random_name n \<Longrightarrow> dinv t M"
  unfolding dinv_def by blast

lemma DevFS_open_eq:
  assumes "dinv t M" "droom t M"
  obtains t' where "DevFS_open this path flags t =
      (if write_flags flags then Some (- 1, t\<lparr>ft_errno := EPERM\<rparr>)
       else if random_name path then Some (ft_handle t + 1, t')
       else Some (- 1, t\<lparr>ft_errno := ENOENT\<rparr>))"
    "random_name path \<Longrightarrow> dinv t' (M(ft_handle t + 1 \<mapsto> path))" "M (ft_handle t + 1) = None" "2 < ft_handle t + 1"
proof -
  obtain F where F: "ft_map t F" "\<And>h. M h = map_option fd_name (F h)" "\<forall>n \<in> ran M. random_name n" "dom M = dom F"
    by (rule dinvE [OF assms(1)]) blast
  have r: "ft_handle t < INT_MAX" "Suc (card (dom F)) < 2 ^ 32"
    using assms(2) F(4) by (auto simp: droom_def)
  obtain t' where t': "Filesystem_mapfile DevFS_type path this nullptr t = Some (ft_handle t + 1, t')"
    "ft_map t' (F(ft_handle t + 1 \<mapsto> FileData_new (ft_handle t + 1) DevFS_type path this nullptr))" "F (ft_handle t + 1) = None"
    by (rule ft_map_mapfile [OF F(1) r, of DevFS_type path this nullptr]) blast
  have n: "M (ft_handle t + 1) = None"
    using t'(3) F(2) by simp
  have m: "M(ft_handle t + 1 \<mapsto> path) =
      (\<lambda>h. map_option fd_name ((F(ft_handle t + 1 \<mapsto> FileData_new (ft_handle t + 1) DevFS_type path this nullptr)) h))"
    using F(2) by (auto simp: FileData_new_def)
  have "dinv t' (M(ft_handle t + 1 \<mapsto> path))" if "random_name path"
    by (rule dinvI [OF t'(2) m]) (use F(3) n that in \<open>auto simp: ran_def\<close>)
  moreover have "2 < ft_handle t + 1"
    using F(1) by (simp add: ft_map_def)
  ultimately show ?thesis
    using t'(1) n by (intro that [of t']) (auto simp: DevFS_open_def random_name_def fail_with_def)
qed

lemma DevFS_close_eq:
  assumes "dinv t M"
  obtains t' where "DevFS_close h t = Some (if M h \<noteq> None then (0, t') else (- 1, t'\<lparr>ft_errno := EBADF\<rparr>))"
    "dinv t' (M(h := None))"
proof -
  obtain F where F: "ft_map t F" "\<And>h. M h = map_option fd_name (F h)" "\<forall>n \<in> ran M. random_name n"
    by (rule dinvE [OF assms(1)]) blast
  obtain t' where t': "Filesystem_closefile h t = Some (F h \<noteq> None, t')" "ft_map t' (F(h := None))"
    by (rule ft_map_closefile [OF F(1)]) blast
  have m: "M(h := None) = (\<lambda>g. map_option fd_name ((F(h := None)) g))"
    using F(2) by auto
  have "dinv t' (M(h := None))"
    by (rule dinvI [OF t'(2) m]) (use F(3) in \<open>auto simp: ran_def split: if_splits\<close>)
  then show ?thesis
    using t'(1) F(2) by (intro that [of t']) (auto simp: DevFS_close_def fail_with_def)
qed

lemma dinv_errno [simp]: "dinv (t\<lparr>ft_errno := e\<rparr>) M = dinv t M"
  by (simp add: dinv_def)

interpretation df: handle_opening dinv DevFS_close ft_errno "\<lambda>path fl. DevFS_open this path (of_int fl)" droom
  for this
proof
  fix t M h d
  assume a: "dinv t M" "M h = Some d"
  obtain t' where "DevFS_close h t = Some (if M h \<noteq> None then (0, t') else (- 1, t'\<lparr>ft_errno := EBADF\<rparr>))"
    "dinv t' (M(h := None))"
    by (rule DevFS_close_eq [OF a(1)]) blast
  then show "\<exists>t'. DevFS_close h t = Some (0, t') \<and> dinv t' (M(h := None))"
    using a(2) by simp
next
  fix t M h
  assume a: "dinv t M" "M h = None"
  then have "M(h := None) = M"
    by auto
  moreover obtain t' where "DevFS_close h t = Some (if M h \<noteq> None then (0, t') else (- 1, t'\<lparr>ft_errno := EBADF\<rparr>))"
    "dinv t' (M(h := None))"
    by (rule DevFS_close_eq [OF a(1)]) blast
  ultimately show "\<exists>t'. DevFS_close h t = Some (- 1, t') \<and> dinv t' M \<and> ft_errno t' = EBADF"
    using a(2) by (intro exI [of _ "t'\<lparr>ft_errno := EBADF\<rparr>"]) simp
next
  fix t M path fl
  assume a: "dinv t M" "droom t M"
  show "\<exists>r t'. DevFS_open this path (of_int fl) t = Some (r, t') \<and>
      (r = - 1 \<and> dinv t' M \<and> ft_errno t' \<in> {ENOENT, EPERM} \<or> 2 < r \<and> M r = None \<and> (\<exists>d. dinv t' (M(r \<mapsto> d))))"
  proof -
    obtain t' where o: "DevFS_open this path (of_int fl) t =
      (if write_flags (of_int fl) then Some (- 1, t\<lparr>ft_errno := EPERM\<rparr>)
       else if random_name path then Some (ft_handle t + 1, t')
       else Some (- 1, t\<lparr>ft_errno := ENOENT\<rparr>))"
      "random_name path \<Longrightarrow> dinv t' (M(ft_handle t + 1 \<mapsto> path))" "M (ft_handle t + 1) = None" "2 < ft_handle t + 1"
      by (rule DevFS_open_eq [OF a, of this path "of_int fl"]) blast
    consider "write_flags (of_int fl)" | "\<not> write_flags (of_int fl)" "random_name path" | "\<not> write_flags (of_int fl)" "\<not> random_name path"
      by blast
    then show ?thesis
    proof cases
      case 1
      then have "DevFS_open this path (of_int fl) t = Some (- 1, t\<lparr>ft_errno := EPERM\<rparr>)"
        using o(1) by simp
      then show ?thesis
        using a(1) by simp
    next
      case 2
      then have "DevFS_open this path (of_int fl) t = Some (ft_handle t + 1, t')"
        using o(1) by simp
      then show ?thesis
        using o(2-) 2 by blast
    next
      case 3
      then have "DevFS_open this path (of_int fl) t = Some (- 1, t\<lparr>ft_errno := ENOENT\<rparr>)"
        using o(1) by simp
      then show ?thesis
        using a(1) by simp
    qed
  qed
qed

section \<open>Properties\<close>

lemma random_bytes_length: "length (fst (random_bytes gen n r)) = n"
proof (induction n arbitrary: r)
  case (Suc n)
  show ?case
    using Suc.IH [of "snd (gen r)"] by (simp add: Let_def case_prod_unfold)
qed simp

text \<open>
  C22: The device file system has the files \<^verbatim>\<open>random\<close> and \<^verbatim>\<open>urandom\<close>, for reading only.  \<^verbatim>\<open>open\<close> refuses any flag that asks to
  write with \<^verbatim>\<open>EPERM\<close>, knows no other name, and gives a fresh handle that \<^verbatim>\<open>close\<close> accepts once and then
  rejects with \<^verbatim>\<open>EBADF\<close>.  \<^verbatim>\<open>read\<close> fills the buffer with the requested number of bytes on an open handle and
  fails with \<^verbatim>\<open>ENOENT\<close> on any other.
\<close>

theorem DevFS_behaviour:
  assumes "dinv t M" "droom t M" "unat count \<le> length buf" "unat count < 2 ^ 31"
  shows "(\<exists>h t'. DevFS_open this path flags t =
      (if write_flags flags then Some (- 1, t\<lparr>ft_errno := EPERM\<rparr>)
       else if path = dev_random \<or> path = dev_urandom then Some (h, t')
       else Some (- 1, t\<lparr>ft_errno := ENOENT\<rparr>)) \<and>
      (path = dev_random \<or> path = dev_urandom \<longrightarrow> 2 < h \<and> M h = None \<and> dinv t' (M(h \<mapsto> path)) \<and>
        (\<exists>t1 t2. DevFS_close h t' = Some (0, t1) \<and> dinv t1 M \<and> DevFS_close h t1 = Some (- 1, t2) \<and> ft_errno t2 = EBADF))) \<and>
    (if M fh = None then DevFS_read gen fh buf count r t = Some (- 1, buf, r, t\<lparr>ft_errno := ENOENT\<rparr>)
     else \<exists>bs r'. random_bytes gen (unat count) r = (bs, r') \<and> length bs = unat count \<and>
       DevFS_read gen fh buf count r t = Some (int (unat count), bs @ drop (unat count) buf, r', t))"
proof (intro conjI)
  obtain t' where o: "DevFS_open this path flags t =
      (if write_flags flags then Some (- 1, t\<lparr>ft_errno := EPERM\<rparr>)
       else if random_name path then Some (ft_handle t + 1, t')
       else Some (- 1, t\<lparr>ft_errno := ENOENT\<rparr>))"
    "random_name path \<Longrightarrow> dinv t' (M(ft_handle t + 1 \<mapsto> path))" "M (ft_handle t + 1) = None" "2 < ft_handle t + 1"
    by (rule DevFS_open_eq [OF assms(1,2), of this path flags]) blast
  let ?h = "ft_handle t + 1"
  have "\<exists>t1 t2. DevFS_close ?h t' = Some (0, t1) \<and> dinv t1 M \<and> DevFS_close ?h t1 = Some (- 1, t2) \<and> ft_errno t2 = EBADF"
    if p: "random_name path"
  proof -
    have M: "(M(?h \<mapsto> path))(?h := None) = M"
      using o(3) by auto
    obtain t1 where t1: "DevFS_close ?h t' = Some (0, t1)" "dinv t1 M"
      using df.close_open [OF o(2) [OF p], of ?h path] unfolding M by auto
    then show ?thesis
      using df.close_twice [OF o(2) [OF p] t1(1)] unfolding M by blast
  qed
  then show "\<exists>h t'. DevFS_open this path flags t =
      (if write_flags flags then Some (- 1, t\<lparr>ft_errno := EPERM\<rparr>)
       else if path = dev_random \<or> path = dev_urandom then Some (h, t')
       else Some (- 1, t\<lparr>ft_errno := ENOENT\<rparr>)) \<and>
      (path = dev_random \<or> path = dev_urandom \<longrightarrow> 2 < h \<and> M h = None \<and> dinv t' (M(h \<mapsto> path)) \<and>
        (\<exists>t1 t2. DevFS_close h t' = Some (0, t1) \<and> dinv t1 M \<and> DevFS_close h t1 = Some (- 1, t2) \<and> ft_errno t2 = EBADF))"
    using o unfolding random_name_def by blast
next
  obtain F where F: "ft_map t F" "\<And>h. M h = map_option fd_name (F h)" "\<forall>n \<in> ran M. random_name n"
    by (rule dinvE [OF assms(1)]) blast
  have s: "nat (sint count) = unat count"
    using assms(4) sint_of_nat_31 [of "unat count"] by simp
  have nm: "Filesystem_getName fh t = Some (case M fh of None \<Rightarrow> [] | Some n \<Rightarrow> n)"
    using ft_map_lookup(1) [OF F(1), of fh] F(2) by (auto split: option.splits)
  obtain bs r' where b: "random_bytes gen (unat count) r = (bs, r')"
    by fastforce
  then have l: "length bs = unat count"
    using random_bytes_length [of gen "unat count" r] by simp
  show "if M fh = None then DevFS_read gen fh buf count r t = Some (- 1, buf, r, t\<lparr>ft_errno := ENOENT\<rparr>)
     else \<exists>bs r'. random_bytes gen (unat count) r = (bs, r') \<and> length bs = unat count \<and>
       DevFS_read gen fh buf count r t = Some (int (unat count), bs @ drop (unat count) buf, r', t)"
  proof (cases "M fh")
    case None
    then show ?thesis
      using nm by (simp add: DevFS_read_def dev_random_def dev_urandom_def)
  next
    case (Some n)
    then have "n = dev_random \<or> n = dev_urandom"
      using F(3) by (auto simp: ran_def random_name_def)
    then show ?thesis
      using Some nm b l s assms(3) by (auto simp: DevFS_read_def buf_write_def Let_def)
  qed
qed

theorem DevFS_behaviour_witness:
  "\<exists>h t'. DevFS_open (Some 1) dev_random 0 Filesystem_table = Some (h, t') \<and> 2 < h \<and> (\<exists>t1. DevFS_close h t' = Some (0, t1))"
proof -
  have "dinv Filesystem_table Map.empty"
    by (rule dinvI [OF ft_map_new]) auto
  moreover have "droom Filesystem_table Map.empty"
    by (simp add: droom_def Filesystem_table_def INT_MAX_def)
  moreover have "\<not> write_flags 0"
    by (simp add: write_flags_def)
  ultimately show ?thesis
    using DevFS_behaviour [of Filesystem_table Map.empty 0 "[]", THEN conjunct1, of "Some 1" dev_random 0] by auto
qed

text \<open>The fallback generator gives numbers below 32768, so that a byte of \<^verbatim>\<open>/dev/random\<close> is the low byte of one.\<close>

lemma Random_bound: "fst (Random_getRandomInt ticks seed) < 32768"
  by (simp add: Random_getRandomInt_def Let_def word_mod_less_divisor)

end
