(* ===== verification/Ustar_FS.thy ===== *)
theory Ustar_FS
  imports File_Table Block_Device
begin

text \<open>
  The read-only tar file system (\<^verbatim>\<open>src/fs/ustar.cpp\<close>, \<^verbatim>\<open>inc/fs/ustar.hh\<close>): classes \<^verbatim>\<open>Ustar\<close>,
  \<^verbatim>\<open>Ustar::Iterator\<close> and \<^verbatim>\<open>UstarFilesystem\<close>.

  The buffers \<^verbatim>\<open>m_data\<close> and \<^verbatim>\<open>m_content\<close> are byte lists, \<^term>\<open>None\<close> for \<^verbatim>\<open>nullptr\<close>; fresh memory holds the bytes
  \<open>junk\<close>.  \<open>m_fs\<close> is the value of the \<^verbatim>\<open>Ustar\<close> object the iterator points to, which does not change once its device
  is set.  \<open>m_size\<close> is \<^term>\<open>None\<close> until it is assigned.  The result \<^term>\<open>None\<close> of an operation means no defined
  result, as everywhere in the development.

  \<open>archive_at\<close> describes a tar archive on a disc as a list of members; the theorems say that the iterator
  walks it, that \<^verbatim>\<open>findFile\<close> finds the first member with a name and that \<^verbatim>\<open>read\<close> delivers its bytes.
\<close>

section \<open>Headers\<close>

text \<open>The digits \<^verbatim>\<open>8\<close> and \<^verbatim>\<open>9\<close> are accepted.\<close>

fun parseOct_loop :: "u8 list \<Rightarrow> u64 \<Rightarrow> u64" where
  "parseOct_loop [] res = res"
| "parseOct_loop (c # cs) res =
     (if c = 0 then res
      else if c < 48 \<or> c > 57 then res
      else parseOct_loop cs (res * 8 + ucast (c - 48)))"

definition parseOct :: "u8 list \<Rightarrow> u32 \<Rightarrow> u64" where
  "parseOct data len = parseOct_loop (take (unat len) data) 0"

datatype ustar_type = TYPE_INVALID | TYPE_FILE | TYPE_HARD_LINK | TYPE_SYM_LINK | TYPE_CHAR_DEV | TYPE_BLOCK_DEV | TYPE_DIR | TYPE_FIFO

text \<open>The fields of \<^verbatim>\<open>struct UstarData\<close> by their offset: \<^verbatim>\<open>size\<close>, \<^verbatim>\<open>type\<close> and \<^verbatim>\<open>ustar\<close>.\<close>

definition UstarData_size :: "u8 list \<Rightarrow> u8 list" where
  "UstarData_size d = take 12 (drop 124 d)"

definition UstarData_type :: "u8 list \<Rightarrow> u8" where
  "UstarData_type d = d ! 156"

definition UstarData_ustar :: "u8 list \<Rightarrow> u8 list" where
  "UstarData_ustar d = take 5 (drop 257 d)"

definition ustar_magic :: "u8 list" where
  "ustar_magic = [117, 115, 116, 97, 114]"

section \<open>The device\<close>

definition MAX_SECTOR_SIZE :: u32 where
  "MAX_SECTOR_SIZE = 512"

record ustar =
  us_phys :: "phys option"
  us_blocksize :: u32
  us_blocks :: u32
  us_block_in_sectors :: u32

text \<open>The members that the constructor leaves indeterminate are its arguments.\<close>

definition Ustar_new :: "u32 \<Rightarrow> u32 \<Rightarrow> ustar" where
  "Ustar_new blocks sectors = \<lparr>us_phys = None, us_blocksize = 512, us_blocks = blocks, us_block_in_sectors = sectors\<rparr>"

definition Ustar_verifySectorSize :: "ustar \<Rightarrow> bool" where
  "Ustar_verifySectorSize u = (case us_phys u of None \<Rightarrow> False | Some p \<Rightarrow> ph_sectorSize p \<le> MAX_SECTOR_SIZE)"

definition Ustar_detect :: "(nat \<Rightarrow> u8) \<Rightarrow> ustar \<Rightarrow> bool option" where
  "Ustar_detect junk u =
     (case us_phys u of None \<Rightarrow> Some False
      | Some p \<Rightarrow>
         if \<not> Ustar_verifySectorSize u then Some False
         else do {
           let (ok, bs) = ph_read p 1 0 0;
           _ \<leftarrow> buf_write 0 bs (new_buffer junk MAX_SECTOR_SIZE);
           Some ok })"

text \<open>The loop counts down from 0, so that it ends after at most one round.\<close>

function getBlock_loop :: "phys \<Rightarrow> ustar \<Rightarrow> u32 \<Rightarrow> u32 \<Rightarrow> u8 list \<Rightarrow> (bool \<times> u8 list) option" where
  "getBlock_loop p u index block data =
     (if block < us_block_in_sectors u then
        let pos = ucast (index * us_blocksize u) + ucast (block * ph_sectorSize p) :: u64;
            (ok, bs) = ph_read p 1 (ucast (pos AND 0xFFFFFFFF)) (ucast (drop_bit 32 pos AND 0xFFFFFFFF)) in
        (case buf_write (unat (ph_sectorSize p * block)) bs data of
           None \<Rightarrow> None
         | Some d \<Rightarrow> if ok then getBlock_loop p u index (block - 1) d else Some (False, d))
      else Some (True, data))"
  by pat_completeness auto
termination
proof (relation "measure (\<lambda>(p, u, index, block, data). unat (block + 1))", goal_cases)
  case (2 p u index block data)
  then have "unat block + 1 < 2 ^ 32"
    using unat_u32_less [of "us_block_in_sectors u"] by (simp add: word_less_nat_alt)
  then show ?case
    using unat_plus_eq [of block 1] by simp
qed simp

declare getBlock_loop.simps [simp del]

definition Ustar_getBlock :: "u32 \<Rightarrow> u8 list \<Rightarrow> ustar \<Rightarrow> (bool \<times> u8 list) option" where
  "Ustar_getBlock index data u =
     (case us_phys u of
        None \<Rightarrow> if us_block_in_sectors u = 0 then Some (True, data) else None
      | Some p \<Rightarrow> getBlock_loop p u index 0 data)"

definition Ustar_setPhysical :: "phys option \<Rightarrow> ustar \<Rightarrow> ustar option" where
  "Ustar_setPhysical phys u = do {
     p \<leftarrow> phys;
     (if us_blocksize u = 0 \<or> ph_sectorSize p = 0 then None
      else Some (u\<lparr>us_phys := phys, us_blocks := ucast (ph_size p div ucast (us_blocksize u)),
                   us_block_in_sectors := us_blocksize u div ph_sectorSize p\<rparr>)) }"

definition Ustar_size :: "ustar \<Rightarrow> u64" where
  "Ustar_size u = (case us_phys u of None \<Rightarrow> 0 | Some p \<Rightarrow> ph_size p)"

section \<open>Iterators\<close>

record iterator =
  m_ok :: bool
  m_block :: u32
  m_index :: u32
  m_pos :: u64
  m_data_block :: u32
  m_data_index :: u32
  m_size :: "u64 option"
  m_fs :: "ustar option"
  m_parent :: "u8 list option"
  m_data :: "u8 list option"
  m_content :: "u8 list option"

definition Iterator_new :: "u32 \<Rightarrow> u32 \<Rightarrow> iterator" where
  "Iterator_new blk index = \<lparr>m_ok = False, m_block = blk, m_index = index, m_pos = 0, m_data_block = 0, m_data_index = 0,
     m_size = None, m_fs = None, m_parent = None, m_data = None, m_content = None\<rparr>"

text \<open>A buffer of \<open>assign\<close>: freshly allocated, and filled from the other iterator's if it has one.\<close>

definition assign_buffer :: "(nat \<Rightarrow> u8) \<Rightarrow> u32 \<Rightarrow> u8 list option \<Rightarrow> u8 list option" where
  "assign_buffer junk n src = (case src of None \<Rightarrow> Some (new_buffer junk n) | Some s \<Rightarrow> buf_read 0 (unat n) s)"

definition Iterator_assign :: "(nat \<Rightarrow> u8) \<Rightarrow> iterator \<Rightarrow> iterator \<Rightarrow> iterator option" where
  "Iterator_assign junk another it = do {
     let it = it\<lparr>m_fs := m_fs another, m_block := m_block another, m_index := m_index another,
                 m_data_block := m_data_block another, m_data_index := m_data_index another,
                 m_size := m_size another, m_ok := m_ok another\<rparr>;
     (case m_fs another of
        None \<Rightarrow> Some it
      | Some fs \<Rightarrow> do {
          p \<leftarrow> assign_buffer junk (us_blocksize fs) (m_parent another);
          d \<leftarrow> assign_buffer junk (us_blocksize fs) (m_data another);
          c \<leftarrow> assign_buffer junk (us_blocksize fs) (m_content another);
          Some (it\<lparr>m_parent := Some p, m_data := Some d, m_content := Some c\<rparr>) }) }"

definition Iterator_size :: "iterator \<Rightarrow> u64 option" where
  "Iterator_size it = (case m_data it of None \<Rightarrow> Some 0 | Some d \<Rightarrow> m_size it)"

definition Iterator_name :: "iterator \<Rightarrow> name option" where
  "Iterator_name it = (case m_data it of None \<Rightarrow> Some [] | Some d \<Rightarrow> buf_cstr d)"

definition Iterator_nameLen :: "iterator \<Rightarrow> u32 option" where
  "Iterator_nameLen it =
     (case m_data it of None \<Rightarrow> Some 0 | Some d \<Rightarrow> do { s \<leftarrow> buf_cstr d; Some (of_nat (length s)) })"

definition ustar_type_of :: "u8 \<Rightarrow> ustar_type" where
  "ustar_type_of c =
     (if c = 48 then TYPE_FILE else if c = 49 then TYPE_HARD_LINK else if c = 50 then TYPE_SYM_LINK
      else if c = 51 then TYPE_CHAR_DEV else if c = 52 then TYPE_BLOCK_DEV else if c = 53 then TYPE_DIR
      else if c = 54 then TYPE_FIFO else TYPE_INVALID)"

definition Iterator_type :: "iterator \<Rightarrow> ustar_type option" where
  "Iterator_type it =
     (case m_data it of None \<Rightarrow> Some TYPE_INVALID
      | Some d \<Rightarrow> if 156 < length d then Some (ustar_type_of (UstarData_type d)) else None)"

text \<open>The first block after a member: computed in 64 bits and cut to 32.\<close>

definition block_after :: "u32 \<Rightarrow> u64 \<Rightarrow> ustar \<Rightarrow> u32 option" where
  "block_after block sz u =
     (if us_blocksize u = 0 then None
      else Some (ucast (ucast block + (sz + ucast (us_blocksize u) - 1) div ucast (us_blocksize u) + 1)))"

text \<open>\<open>header_out\<close> is the code at label \<^verbatim>\<open>out\<close>.\<close>

definition header_out :: "iterator \<Rightarrow> (bool \<times> iterator) option" where
  "header_out it = do {
     let it = it\<lparr>m_data_block := m_block it + 1\<rparr>;
     d \<leftarrow> m_data it;
     (if length d < 262 then None
      else if UstarData_ustar d \<noteq> ustar_magic then Some (False, it)
      else Some (True, it\<lparr>m_size := Some (parseOct (UstarData_size d) 12)\<rparr>)) }"

definition Iterator_getCurrent :: "iterator \<Rightarrow> (bool \<times> iterator) option" where
  "Iterator_getCurrent it = do {
     u \<leftarrow> m_fs it;
     (if ucast (m_index it * us_blocksize u) \<ge> Ustar_size u then Some (False, it)
      else if m_block it = m_index it then header_out it
      else do {
        sz \<leftarrow> Iterator_size it;
        next_block \<leftarrow> block_after (m_block it) sz u;
        (if next_block < m_index it then Some (False, it)
         else do {
           let it = it\<lparr>m_index := next_block\<rparr>;
           (if ucast (m_index it * us_blocksize u) \<ge> Ustar_size u then Some (False, it)
            else do {
              d \<leftarrow> m_data it;
              (ok, d) \<leftarrow> Ustar_getBlock (m_index it) d u;
              let it = it\<lparr>m_data := Some d\<rparr>;
              (if \<not> ok then Some (False, it) else header_out (it\<lparr>m_block := m_index it\<rparr>)) }) }) }) }"

definition Iterator_next :: "iterator \<Rightarrow> (bool \<times> iterator) option" where
  "Iterator_next it = do {
     (ok, it) \<leftarrow> Iterator_getCurrent (it\<lparr>m_index := m_index it + 1\<rparr>);
     Some (ok, it\<lparr>m_ok := ok, m_pos := 0, m_data_index := 0\<rparr>) }"

definition Ustar_list :: "(nat \<Rightarrow> u8) \<Rightarrow> u32 \<Rightarrow> ustar \<Rightarrow> iterator option" where
  "Ustar_list junk parent u = do {
     let it = (Iterator_new parent 0)\<lparr>m_data := Some (new_buffer junk (us_blocksize u)),
                 m_content := Some (new_buffer junk (us_blocksize u)), m_fs := Some u\<rparr>;
     (ok, d) \<leftarrow> Ustar_getBlock parent (new_buffer junk (us_blocksize u)) u;
     let it = it\<lparr>m_data := Some d\<rparr>;
     (if \<not> ok then Some it
      else do {
        (ok, it) \<leftarrow> Iterator_getCurrent it;
        (if \<not> ok then Some it else Some (it\<lparr>m_ok := True\<rparr>)) }) }"

section \<open>Reading a member\<close>

text \<open>The number of bytes that one round of the loop of \<^verbatim>\<open>read\<close> copies.\<close>

definition chunk :: "u64 \<Rightarrow> u32 \<Rightarrow> u32 \<Rightarrow> u64 \<Rightarrow> u64" where
  "chunk cnt idx bs sz =
     (let bcnt = (if cnt > ucast bs then ucast bs else cnt);
          offset = idx mod bs;
          bcnt = (if ucast offset + bcnt > ucast bs then ucast (bs - offset) else bcnt)
      in if ucast idx + bcnt > sz then sz - ucast idx else bcnt)"

function read_loop :: "u32 \<Rightarrow> u64 \<Rightarrow> ustar \<Rightarrow> u64 \<Rightarrow> u8 list \<Rightarrow> u32 \<Rightarrow> iterator \<Rightarrow> (u32 \<times> u8 list \<times> iterator) option" where
  "read_loop end_block sz u cnt buf readcnt it =
     (if cnt > 0 \<and> ucast (m_data_index it) < sz then
        if us_blocksize u = 0 then None
        else let cblock = m_data_index it div us_blocksize u in
        if m_data_block it + cblock \<ge> end_block then Some (readcnt, buf, it)
        else (case Option.bind (m_content it) (\<lambda>c. Ustar_getBlock (m_data_block it + cblock) c u) of
            None \<Rightarrow> None
          | Some (ok, c) \<Rightarrow>
              if \<not> ok then Some (readcnt, buf, it\<lparr>m_content := Some c\<rparr>)
              else let bcnt = chunk cnt (m_data_index it) (us_blocksize u) sz;
                       offset = m_data_index it mod us_blocksize u in
                (case Option.bind (buf_read (unat offset) (unat bcnt) c) (\<lambda>bs. buf_write (unat readcnt) bs buf) of
                   None \<Rightarrow> None
                 | Some buf \<Rightarrow> read_loop end_block sz u (cnt - bcnt) buf (readcnt + ucast bcnt)
                     (it\<lparr>m_content := Some c, m_data_index := m_data_index it + ucast bcnt\<rparr>)))
      else Some (readcnt, buf, it))"
  by pat_completeness auto

text \<open>A round copies at least one byte and no more than are left to read.\<close>

lemma chunk_eq:
  assumes "0 < cnt" "ucast idx < sz" "0 < bs"
  shows "unat (chunk cnt idx bs sz) = min (unat cnt) (min (unat bs - unat idx mod unat bs) (unat sz - unat idx))"
proof -
  define b1 where "b1 = (if cnt > ucast bs then ucast bs else cnt)"
  define b2 where "b2 = (if ucast (idx mod bs) + b1 > ucast bs then ucast (bs - idx mod bs) else b1)"
  have m: "unat idx mod unat bs < unat bs" "unat bs < 2 ^ 32" "unat idx < 2 ^ 32" "unat idx < unat sz"
    using assms unat_u32_less by (auto simp: word_less_nat_alt)
  have b1: "unat b1 = min (unat cnt) (unat bs)"
    by (simp add: b1_def word_less_nat_alt)
  have o: "unat (idx mod bs) = unat idx mod unat bs"
    by (rule unat_mod)
  have "unat (ucast (idx mod bs) + b1) = unat idx mod unat bs + unat b1"
    using m b1 o by (subst unat_plus_eq) auto
  moreover have "unat (bs - idx mod bs) = unat bs - unat idx mod unat bs"
    using m o by (subst unat_minus_eq) auto
  ultimately have b2: "unat b2 = min (unat cnt) (unat bs - unat idx mod unat bs)"
    using m b1 by (auto simp: b2_def word_less_nat_alt)
  have "unat (ucast idx + b2) = unat idx + unat b2"
    using m b2 by (subst unat_plus_eq) auto
  moreover have "unat (sz - ucast idx) = unat sz - unat idx"
    using m by (subst unat_minus_eq) auto
  moreover have "chunk cnt idx bs sz = (if ucast idx + b2 > sz then sz - ucast idx else b2)"
    by (simp add: chunk_def b1_def b2_def Let_def)
  ultimately show ?thesis
    using b2 m(4) by (auto simp: word_less_nat_alt min_def)
qed

lemma chunk_bounds:
  assumes "0 < cnt" "ucast idx < sz" "bs \<noteq> 0"
  shows "0 < unat (chunk cnt idx bs sz)" "unat (chunk cnt idx bs sz) \<le> unat cnt"
    "unat (chunk cnt idx bs sz) \<le> unat bs" "unat idx + unat (chunk cnt idx bs sz) \<le> unat sz"
proof -
  have "0 < bs"
    using assms(3) word_gt_0 by blast
  then have "0 < unat bs" "unat idx < unat sz" "0 < unat cnt"
    using assms by (auto simp: word_less_nat_alt)
  moreover from this have "unat idx mod unat bs < unat bs"
    by simp
  ultimately show "0 < unat (chunk cnt idx bs sz)" "unat (chunk cnt idx bs sz) \<le> unat cnt"
    "unat (chunk cnt idx bs sz) \<le> unat bs" "unat idx + unat (chunk cnt idx bs sz) \<le> unat sz"
    using chunk_eq [OF assms(1,2) \<open>0 < bs\<close>] by linarith+
qed

termination read_loop
proof (relation "measure (\<lambda>(e, sz, u, cnt, buf, rc, it). unat cnt)", goal_cases)
  case (2 e sz u cnt buf rc it)
  then show ?case
    using chunk_bounds [of cnt "m_data_index it" sz "us_blocksize u"]
    by (simp add: unat_minus_eq)
qed simp

declare read_loop.simps [simp del]

definition Iterator_read :: "u8 list \<Rightarrow> u64 \<Rightarrow> iterator \<Rightarrow> (int \<times> u8 list \<times> iterator) option" where
  "Iterator_read buf cnt it = do {
     u \<leftarrow> m_fs it;
     sz \<leftarrow> Iterator_size it;
     end_block \<leftarrow> block_after (m_block it) sz u;
     (readcnt, buf, it) \<leftarrow> read_loop end_block sz u cnt buf 0 it;
     Some (sint readcnt, buf, it) }"

section \<open>The file system\<close>

record ustar_fs =
  uf_ustar :: ustar
  uf_mountpoint :: name
  uf_opts :: name

text \<open>The kernel state: the table of open files and the iterators on the heap.\<close>

record ustar_state =
  us_table :: file_table
  us_iters :: "nat \<rightharpoonup> iterator"
  us_fresh :: nat

definition UstarFilesystem_new :: "u32 \<Rightarrow> u32 \<Rightarrow> ustar_fs" where
  "UstarFilesystem_new blocks sectors = \<lparr>uf_ustar = Ustar_new blocks sectors, uf_mountpoint = [], uf_opts = []\<rparr>"

definition UstarFilesystem_copy :: "ustar_fs \<Rightarrow> ustar_fs" where
  "UstarFilesystem_copy fs = \<lparr>uf_ustar = uf_ustar fs, uf_mountpoint = uf_mountpoint fs, uf_opts = uf_mountpoint fs\<rparr>"

definition UstarFilesystem_mount :: "name \<Rightarrow> name \<Rightarrow> ustar_fs \<Rightarrow> ustar_fs" where
  "UstarFilesystem_mount mountpoint options fs = \<lparr>uf_ustar = uf_ustar fs, uf_mountpoint = mountpoint, uf_opts = options\<rparr>"

definition UstarFilesystem_setPhysical :: "(nat \<Rightarrow> u8) \<Rightarrow> phys option \<Rightarrow> ustar_fs \<Rightarrow> ustar_fs option" where
  "UstarFilesystem_setPhysical junk phys fs = do {
     u \<leftarrow> Ustar_setPhysical phys (uf_ustar fs);
     _ \<leftarrow> Ustar_detect junk u;
     Some (fs\<lparr>uf_ustar := u\<rparr>) }"

definition UstarFilesystem_type :: name where
  "UstarFilesystem_type = [85, 115, 116, 97, 114]"

text \<open>The walk may not end on a device of 4 GiB or more, where block numbers wrap.\<close>

partial_function (option) find_loop :: "name \<Rightarrow> iterator \<Rightarrow> iterator option" where
  "find_loop path it =
     (if \<not> m_ok it then Some it
      else do {
        n \<leftarrow> Iterator_name it;
        (if n = path then Some it
         else do {
           (ok, it) \<leftarrow> Iterator_next it;
           (if ok then find_loop path it else Some it) }) })"

definition UstarFilesystem_findFile :: "(nat \<Rightarrow> u8) \<Rightarrow> name \<Rightarrow> u32 \<Rightarrow> u32 \<Rightarrow> ustar_fs \<Rightarrow> iterator option" where
  "UstarFilesystem_findFile junk path part parent fs = do {
     l \<leftarrow> Ustar_list junk parent (uf_ustar fs);
     it \<leftarrow> Iterator_assign junk l (Iterator_new 0 0);
     find_loop path it }"

definition set_errno :: "int \<Rightarrow> ustar_state \<Rightarrow> ustar_state" where
  "set_errno e s = s\<lparr>us_table := (us_table s)\<lparr>ft_errno := e\<rparr>\<rparr>"

definition UstarFilesystem_open ::
  "(nat \<Rightarrow> u8) \<Rightarrow> ptr \<Rightarrow> ustar_fs \<Rightarrow> name \<Rightarrow> int \<Rightarrow> ustar_state \<Rightarrow> (int \<times> ustar_state) option" where
  "UstarFilesystem_open junk this fs path flags s = do {
     it \<leftarrow> UstarFilesystem_findFile junk path 0 0 fs;
     (if \<not> m_ok it then Some (- 1, set_errno ENOENT s)
      else do {
        ty \<leftarrow> Iterator_type it;
        (if ty \<noteq> TYPE_FILE then Some (- 1, set_errno EPERM s)
         else do {
           data \<leftarrow> Iterator_assign junk it (Iterator_new 0 0);
           (res, t) \<leftarrow> Filesystem_mapfile UstarFilesystem_type path this (Some (us_fresh s)) (us_table s);
           Some (res, s\<lparr>us_table := t, us_iters := (us_iters s)(us_fresh s \<mapsto> data), us_fresh := Suc (us_fresh s)\<rparr>) }) }) }"

text \<open>\<^verbatim>\<open>delete\<close> of an iterator: deleting what is not there has no defined result.\<close>

definition delete_iterator :: "nat \<Rightarrow> ustar_state \<Rightarrow> ustar_state option" where
  "delete_iterator a s = do { _ \<leftarrow> us_iters s a; Some (s\<lparr>us_iters := (us_iters s)(a := None)\<rparr>) }"

definition UstarFilesystem_close :: "int \<Rightarrow> ustar_state \<Rightarrow> (int \<times> ustar_state) option" where
  "UstarFilesystem_close fh s = do {
     data \<leftarrow> Filesystem_getCustom fh (us_table s);
     s \<leftarrow> (case data of None \<Rightarrow> Some s | Some a \<Rightarrow> delete_iterator a s);
     (ok, t) \<leftarrow> Filesystem_closefile fh (us_table s);
     let s = s\<lparr>us_table := t\<rparr>;
     (if \<not> ok then Some (- 1, set_errno EBADF s) else Some (0, s)) }"

definition UstarFilesystem_read :: "int \<Rightarrow> u8 list \<Rightarrow> u32 \<Rightarrow> ustar_state \<Rightarrow> (int \<times> u8 list \<times> ustar_state) option" where
  "UstarFilesystem_read fh buf count s = do {
     name \<leftarrow> Filesystem_getName fh (us_table s);
     data \<leftarrow> Filesystem_getCustom fh (us_table s);
     (case data of
        None \<Rightarrow> Some (- 1, buf, set_errno ENOENT s)
      | Some a \<Rightarrow> do {
          it \<leftarrow> us_iters s a;
          (n, buf, it) \<leftarrow> Iterator_read buf (ucast count) it;
          Some (n, buf, s\<lparr>us_iters := (us_iters s)(a \<mapsto> it)\<rparr>) }) }"

record kstat =
  st_size :: int
  st_blksize :: int
  st_blocks :: int
  st_ino :: int

definition UstarFilesystem_stat :: "int \<Rightarrow> kstat \<Rightarrow> ustar_state \<Rightarrow> (int \<times> kstat) option" where
  "UstarFilesystem_stat fd st s = do {
     data \<leftarrow> Filesystem_getCustom fd (us_table s);
     (case data of
        None \<Rightarrow> Some (- ENOENT, st)
      | Some a \<Rightarrow> do {
          it \<leftarrow> us_iters s a;
          sz \<leftarrow> Iterator_size it;
          u \<leftarrow> m_fs it;
          (if us_blocksize u = 0 then None
           else Some (0, \<lparr>st_size = uint sz, st_blksize = uint (us_blocksize u),
             st_blocks = (uint sz + uint (us_blocksize u) - 1) div uint (us_blocksize u), st_ino = uint (m_block it)\<rparr>)) }) }"

text \<open>The operations that a read-only file system refuses.\<close>

definition UstarFilesystem_truncate :: "name \<Rightarrow> int \<Rightarrow> ustar_state \<Rightarrow> int \<times> ustar_state" where
  "UstarFilesystem_truncate path len s = (- 1, set_errno EPERM s)"

definition UstarFilesystem_chmod :: "name \<Rightarrow> int \<Rightarrow> ustar_state \<Rightarrow> int \<times> ustar_state" where
  "UstarFilesystem_chmod path mode s = (- 1, set_errno EPERM s)"

definition UstarFilesystem_getattr :: "name \<Rightarrow> int \<Rightarrow> ustar_state \<Rightarrow> int \<times> ustar_state" where
  "UstarFilesystem_getattr path handle s = (- 1, set_errno EPERM s)"

definition UstarFilesystem_fseek :: "int \<Rightarrow> int \<Rightarrow> int \<Rightarrow> int \<Rightarrow> ustar_state \<Rightarrow> int \<times> ustar_state" where
  "UstarFilesystem_fseek fd offs_hi offs_low orig s = (- 1, set_errno EBADF s)"

definition UstarFilesystem_write :: "int \<Rightarrow> u8 list \<Rightarrow> u32 \<Rightarrow> ustar_state \<Rightarrow> int \<times> ustar_state" where
  "UstarFilesystem_write fh buf count s = (- 1, set_errno EPERM s)"

definition UstarFilesystem_symlink :: "name \<Rightarrow> name \<Rightarrow> ustar_state \<Rightarrow> int \<times> ustar_state" where
  "UstarFilesystem_symlink target linkpath s = (- 1, set_errno EPERM s)"

definition UstarFilesystem_rename :: "name \<Rightarrow> name \<Rightarrow> ustar_state \<Rightarrow> int \<times> ustar_state" where
  "UstarFilesystem_rename oldpath newpath s = (- 1, set_errno EPERM s)"

definition UstarFilesystem_unlink :: "name \<Rightarrow> ustar_state \<Rightarrow> int \<times> ustar_state" where
  "UstarFilesystem_unlink path s = (- 1, set_errno EPERM s)"

definition UstarFilesystem_flush :: "int \<Rightarrow> ustar_state \<Rightarrow> int \<times> ustar_state" where
  "UstarFilesystem_flush fd s = (0, s)"

definition UstarFilesystem_opendir :: "name \<Rightarrow> ptr" where
  "UstarFilesystem_opendir name = nullptr"

definition UstarFilesystem_readdir :: "ptr \<Rightarrow> ptr" where
  "UstarFilesystem_readdir dir = nullptr"

definition UstarFilesystem_closedir :: "ptr \<Rightarrow> int" where
  "UstarFilesystem_closedir dir = - 1"

definition UstarFilesystem_mkdir :: "name \<Rightarrow> int \<Rightarrow> ustar_state \<Rightarrow> int \<times> ustar_state" where
  "UstarFilesystem_mkdir path mode s = (- 1, set_errno EPERM s)"

definition UstarFilesystem_rmdir :: "name \<Rightarrow> ustar_state \<Rightarrow> int \<times> ustar_state" where
  "UstarFilesystem_rmdir path s = (- 1, set_errno EPERM s)"

section \<open>Octal numbers\<close>

fun octal :: "nat \<Rightarrow> nat \<Rightarrow> u8 list" where
  "octal 0 n = []"
| "octal (Suc k) n = octal k (n div 8) @ [48 + of_nat (n mod 8)]"

lemma length_octal [simp]: "length (octal k n) = k"
  by (induction k arbitrary: n) auto

lemma octal_digit:
  assumes "d < 8"
  shows "(48 + of_nat d :: u8) \<noteq> 0" "\<not> (48 + of_nat d :: u8) < 48" "\<not> (48 + of_nat d :: u8) > 57"
    "(ucast (48 + of_nat d - 48 :: u8) :: u64) = of_nat d"
proof -
  have "d \<in> {0, 1, 2, 3, 4, 5, 6, 7}"
    using assms by auto
  then show "(48 + of_nat d :: u8) \<noteq> 0" "\<not> (48 + of_nat d :: u8) < 48" "\<not> (48 + of_nat d :: u8) > 57"
    "(ucast (48 + of_nat d - 48 :: u8) :: u64) = of_nat d"
    by (auto simp: unsigned_of_nat)
qed

lemma parseOct_loop_octal:
  "parseOct_loop (octal k n @ cs) res = parseOct_loop cs (res * 8 ^ k + of_nat (n mod 8 ^ k))"
proof (induction k arbitrary: n cs res)
  case (Suc k)
  let ?c = "48 + of_nat (n mod 8) :: u8"
  have c: "parseOct_loop (?c # cs) r = parseOct_loop cs (r * 8 + of_nat (n mod 8))" for r
    using octal_digit [of "n mod 8"] by simp
  have "of_nat (n div 8 mod 8 ^ k) * 8 + of_nat (n mod 8) = (of_nat (n mod 8 ^ Suc k) :: u64)"
  proof -
    have "n mod 8 ^ Suc k = n div 8 mod 8 ^ k * 8 + n mod 8"
      by (simp add: mod_mult2_eq mult.commute)
    then show ?thesis
      by simp
  qed
  then have e: "(res * 8 ^ k + of_nat (n div 8 mod 8 ^ k)) * 8 + of_nat (n mod 8) = res * 8 ^ Suc k + (of_nat (n mod 8 ^ Suc k) :: u64)"
    by (simp add: algebra_simps)
  have "parseOct_loop (octal (Suc k) n @ cs) res = parseOct_loop (?c # cs) (res * 8 ^ k + of_nat (n div 8 mod 8 ^ k))"
    using Suc.IH by simp
  also have "\<dots> = parseOct_loop cs (res * 8 ^ Suc k + of_nat (n mod 8 ^ Suc k))"
    by (simp only: c e)
  finally show ?case .
qed simp

lemma parseOct_loop_bound:
  "unat res * 8 ^ length cs + 2 * 8 ^ length cs < 2 ^ 64 \<Longrightarrow>
   unat (parseOct_loop cs res) \<le> unat res * 8 ^ length cs + 2 * 8 ^ length cs"
proof (induction cs arbitrary: res)
  case (Cons c cs)
  let ?k = "8 ^ length cs :: nat"
  let ?r = "res * 8 + ucast (c - 48)"
  have k: "1 \<le> ?k"
    by simp
  show ?case
  proof (cases "c = 0 \<or> c < 48 \<or> c > 57")
    case True
    then have "parseOct_loop (c # cs) res = res"
      by auto
    moreover have "unat res * 1 \<le> unat res * 8 ^ length (c # cs)"
      by (rule mult_le_mono2) simp
    ultimately show ?thesis
      by (simp only:)
  next
    case False
    then have "48 \<le> unat c" "unat c \<le> 57"
      by (auto simp: word_less_nat_alt)
    then have d: "unat (ucast (c - 48) :: u64) \<le> 9"
      using unat_minus_eq [of 48 c] by (simp add: unsigned_ucast_eq take_bit_nat_eq_self)
    have "unat res * 8 + 16 \<le> (unat res * 8 + 16) * ?k"
      using k by simp
    then have b: "unat res * 8 + 16 < 2 ^ 64"
      using Cons.prems by (simp add: algebra_simps)
    then have "unat (res * 8) = unat res * 8"
      by (subst unat_times_eq) auto
    then have r: "unat ?r = unat res * 8 + unat (ucast (c - 48) :: u64)"
      using b d by (subst unat_plus_eq) auto
    then have "(unat ?r + 2) * ?k \<le> (unat res * 8 + 11) * ?k"
      using d by (intro mult_le_mono1) simp
    also have "\<dots> \<le> (unat res * 8 + 16) * ?k"
      by (intro mult_le_mono1) simp
    finally have m: "unat ?r * ?k + 2 * ?k \<le> unat res * 8 ^ length (c # cs) + 2 * 8 ^ length (c # cs)"
      by (simp add: algebra_simps)
    then have "unat (parseOct_loop cs ?r) \<le> unat ?r * ?k + 2 * ?k"
      using Cons.prems by (intro Cons.IH) linarith
    then show ?thesis
      using False m by simp
  qed
qed simp

lemma parseOct_bound: "unat (parseOct data 12) \<le> 2 ^ 37"
proof -
  have "length (take 12 data) \<le> 12"
    by simp
  then have "(8::nat) ^ length (take 12 data) \<le> 8 ^ 12"
    by (intro power_increasing) auto
  then show ?thesis
    using parseOct_loop_bound [of 0 "take 12 data"] by (simp add: parseOct_def)
qed

section \<open>Blocks of a disc\<close>

definition on_disc :: "ustar \<Rightarrow> u8 list \<Rightarrow> bool" where
  "on_disc u c \<longleftrightarrow> us_blocksize u = 512 \<and> us_block_in_sectors u = 1 \<and> 512 dvd length c \<and>
     (\<exists>p. us_phys u = Some p \<and> holds_disc p c)"

definition blk :: "u8 list \<Rightarrow> nat \<Rightarrow> u8 list" where
  "blk c b = take 512 (drop (512 * b) c)"

lemma setPhysical_on_disc:
  assumes "holds_disc p c" "512 dvd length c"
  obtains u where "Ustar_setPhysical (Some p) (Ustar_new x y) = Some u" "on_disc u c"
  using assms by (auto simp: Ustar_setPhysical_def Ustar_new_def on_disc_def holds_disc_def)

lemma on_disc_size: "on_disc u c \<Longrightarrow> unat (Ustar_size u) = length c \<and> length c \<le> 2 ^ 32 - 512"
  by (auto simp: on_disc_def Ustar_size_def holds_disc_def)

lemma length_blk: "on_disc u c \<Longrightarrow> 512 * b < length c \<Longrightarrow> 512 * b + 512 \<le> length c \<and> length (blk c b) = 512"
  by (auto simp: on_disc_def blk_def elim!: dvdE)

lemma getBlock_ok:
  assumes "on_disc u c" "unat (i * 512) = 512 * b" "512 * b < length c" "length d = 512"
  shows "Ustar_getBlock i d u = Some (True, blk c b)"
proof -
  obtain p where p: "us_phys u = Some p" "holds_disc p c" "ph_sectorSize p = 512"
    using assms(1) by (auto simp: on_disc_def holds_disc_def)
  have bl: "512 * b + 512 \<le> length c" "length (blk c b) = 512"
    using length_blk [OF assms(1,3)] by auto
  let ?pos = "ucast (i * 512) :: u64"
  have "ucast ?pos = i * 512"
    by (rule bit_word_eqI) (simp add: bit_simps)
  moreover have "drop_bit 32 ?pos = 0"
    by (rule bit_word_eqI) (auto simp: bit_simps dest: bit_imp_le_length)
  moreover have "?pos AND 0xFFFFFFFF = ?pos"
  proof -
    have f: "(0xFFFFFFFF :: u64) = mask 32"
      by (simp add: mask_eq_exp_minus_1)
    show ?thesis
      unfolding f by (rule bit_word_eqI) (auto simp: bit_simps dest: bit_imp_le_length)
  qed
  moreover have "i * 512 = of_nat (512 * b)"
    using assms(2) by (metis of_nat_unat ucast_id)
  ultimately have r: "ph_read p 1 (ucast (?pos AND 0xFFFFFFFF)) (ucast (drop_bit 32 ?pos AND 0xFFFFFFFF)) = (True, blk c b)"
    using p(2) bl(1) by (simp add: holds_disc_def blk_def)
  show ?thesis
    using r bl assms(1,4) p
    by (simp add: Ustar_getBlock_def getBlock_loop.simps [of p u i 0] getBlock_loop.simps [of p u i "- 1"] on_disc_def buf_write_all)
qed

section \<open>Walking an archive\<close>

definition is_header :: "u8 list \<Rightarrow> nat \<Rightarrow> bool" where
  "is_header c b \<longleftrightarrow> 512 * b < length c \<and> UstarData_ustar (blk c b) = ustar_magic"

definition tar_size :: "u8 list \<Rightarrow> nat \<Rightarrow> nat" where
  "tar_size c b = unat (parseOct (UstarData_size (blk c b)) 12)"

definition tar_name :: "u8 list \<Rightarrow> nat \<Rightarrow> name" where
  "tar_name c b = takeWhile (\<lambda>x. x \<noteq> 0) (blk c b)"

definition tar_type :: "u8 list \<Rightarrow> nat \<Rightarrow> ustar_type" where
  "tar_type c b = ustar_type_of (blk c b ! 156)"

definition tar_content :: "u8 list \<Rightarrow> nat \<Rightarrow> u8 list" where
  "tar_content c b = take (tar_size c b) (drop (512 * (b + 1)) c)"

definition tar_next :: "u8 list \<Rightarrow> nat \<Rightarrow> nat" where
  "tar_next c b = b + (tar_size c b + 511) div 512 + 1"

text \<open>The block that a block number denotes: numbers wrap at \<open>2 ^ 23\<close>, 4 GiB.\<close>

definition real_block :: "u32 \<Rightarrow> nat" where
  "real_block i = unat (i * 512) div 512"

lemma real_block_mod: "real_block i = unat i mod 2 ^ 23"
proof -
  have "unat (i * 512) = unat i * 512 mod (2 ^ 23 * 512)"
    by (simp add: unat_word_ariths)
  then have "unat (i * 512) = unat i mod 2 ^ 23 * 512"
    by (simp only: mod_mult_mult2)
  then show ?thesis
    by (simp add: real_block_def)
qed

lemma real_block: "unat (i * 512) = 512 * real_block i"
proof -
  have "unat (i * 512) = unat i * 512 mod (2 ^ 23 * 512)"
    by (simp add: unat_word_ariths)
  then show ?thesis
    by (simp only: mod_mult_mult2 real_block_mod mult.commute)
qed

lemma real_block_of_nat: "512 * b < 2 ^ 32 \<Longrightarrow> real_block (of_nat b) = b"
  by (simp add: real_block_mod unat_of_nat_u32)

text \<open>The iterator stands on the header in block \<open>m_block\<close>.\<close>

definition iter_at :: "ustar \<Rightarrow> u8 list \<Rightarrow> iterator \<Rightarrow> bool" where
  "iter_at u c it \<longleftrightarrow> m_fs it = Some u \<and> m_index it = m_block it \<and> m_data_block it = m_block it + 1 \<and> m_ok it \<and>
     is_header c (real_block (m_block it)) \<and> m_data it = Some (blk c (real_block (m_block it))) \<and>
     m_size it = Some (parseOct (UstarData_size (blk c (real_block (m_block it)))) 12) \<and>
     (\<exists>x. m_content it = Some x \<and> length x = 512) \<and> (\<forall>x. m_parent it = Some x \<longrightarrow> length x = 512)"

lemma header_out_eq:
  assumes "on_disc u c" "m_data it = Some (blk c b)" "512 * b < length c"
  shows "header_out it = Some (if is_header c b
    then (True, it\<lparr>m_data_block := m_block it + 1, m_size := Some (parseOct (UstarData_size (blk c b)) 12)\<rparr>)
    else (False, it\<lparr>m_data_block := m_block it + 1\<rparr>))"
  using assms length_blk [OF assms(1,3)] by (simp add: header_out_def is_header_def)

lemma size_check: "on_disc u c \<Longrightarrow> ucast (i * us_blocksize u) \<ge> Ustar_size u \<longleftrightarrow> length c \<le> 512 * real_block i"
  using on_disc_size [of u c] by (simp add: word_le_nat_alt real_block on_disc_def)

lemma Iterator_next_eq:
  assumes "on_disc u c" "iter_at u c it"
  defines "nb \<equiv> ucast (ucast (m_block it) + (parseOct (UstarData_size (blk c (real_block (m_block it)))) 12 + 511) div 512 + 1) :: u32"
  obtains it' where "Iterator_next it = Some (m_ok it', it')"
    "m_ok it' \<longleftrightarrow> 512 * real_block (m_block it + 1) < length c \<and> m_block it + 1 \<le> nb \<and> is_header c (real_block nb)"
    "m_ok it' \<Longrightarrow> iter_at u c it' \<and> m_block it' = nb \<and> m_data_index it' = 0"
proof -
  let ?i = "it\<lparr>m_index := m_block it + 1\<rparr>"
  have u: "us_blocksize u = 512" and it: "m_fs it = Some u" "m_index it = m_block it" "m_ok it"
    "m_data it = Some (blk c (real_block (m_block it)))" "512 * real_block (m_block it) < length c"
    "m_size it = Some (parseOct (UstarData_size (blk c (real_block (m_block it)))) 12)"
    using assms(1,2) by (auto simp: on_disc_def iter_at_def is_header_def)
  obtain x where x: "m_content it = Some x" "length x = 512" "\<And>y. m_parent it = Some y \<Longrightarrow> length y = 512"
    using assms(2) by (auto simp: iter_at_def)
  have ne: "m_block it \<noteq> m_block it + 1"
    by simp
  have nb: "block_after (m_block it) (parseOct (UstarData_size (blk c (real_block (m_block it)))) 12) u = Some nb"
    using u by (simp add: block_after_def nb_def add_diff_eq [symmetric])
  note result = that
  let ?c = "512 * real_block (m_block it + 1) < length c \<and> m_block it + 1 \<le> nb \<and> is_header c (real_block nb)"
  have fin: thesis
    if g: "Iterator_getCurrent ?i = Some (ok, i)" "ok \<longleftrightarrow> ?c"
      "ok \<Longrightarrow> iter_at u c (i\<lparr>m_ok := True, m_pos := 0, m_data_index := 0\<rparr>) \<and> m_block i = nb" for ok i
    by (rule result [of "i\<lparr>m_ok := ok, m_pos := 0, m_data_index := 0\<rparr>"])
      (use g it(2) in \<open>auto simp: Iterator_next_def\<close>)
  note gc = Iterator_getCurrent_def size_check [OF assms(1)] it Iterator_size_def nb Let_def
  consider (stop) "length c \<le> 512 * real_block (m_block it + 1)"
    | (behind) "512 * real_block (m_block it + 1) < length c" "nb < m_block it + 1"
    | (beyond) "512 * real_block (m_block it + 1) < length c" "m_block it + 1 \<le> nb" "length c \<le> 512 * real_block nb"
    | (found) "512 * real_block (m_block it + 1) < length c" "m_block it + 1 \<le> nb" "512 * real_block nb < length c"
    by (meson not_le_imp_less)
  then show ?thesis
  proof cases
    case stop
    then have "Iterator_getCurrent ?i = Some (False, ?i)"
      by (simp add: gc)
    then show ?thesis
      by (rule fin) (use stop in auto)
  next
    case behind
    then have "Iterator_getCurrent ?i = Some (False, ?i)"
      by (simp add: gc)
    then show ?thesis
      by (rule fin) (use behind in auto)
  next
    case beyond
    then have "Iterator_getCurrent ?i = Some (False, ?i\<lparr>m_index := nb\<rparr>)"
      by (simp add: gc)
    then show ?thesis
      by (rule fin) (use beyond in \<open>auto simp: is_header_def\<close>)
  next
    case found
    let ?j = "?i\<lparr>m_index := nb, m_data := Some (blk c (real_block nb)), m_block := nb\<rparr>"
    have "Ustar_getBlock nb (blk c (real_block (m_block it))) u = Some (True, blk c (real_block nb))"
      by (rule getBlock_ok [OF assms(1) real_block found(3)]) (use length_blk [OF assms(1) it(5)] in simp)
    then have "Iterator_getCurrent ?i = header_out ?j"
      using found by (simp add: gc leD)
    moreover have "header_out ?j = Some (if is_header c (real_block nb)
        then (True, ?j\<lparr>m_data_block := nb + 1, m_size := Some (parseOct (UstarData_size (blk c (real_block nb))) 12)\<rparr>)
        else (False, ?j\<lparr>m_data_block := nb + 1\<rparr>))"
      using header_out_eq [OF assms(1) _ found(3), of ?j] by simp
    ultimately have g: "Iterator_getCurrent ?i = Some (if is_header c (real_block nb)
        then (True, ?j\<lparr>m_data_block := nb + 1, m_size := Some (parseOct (UstarData_size (blk c (real_block nb))) 12)\<rparr>)
        else (False, ?j\<lparr>m_data_block := nb + 1\<rparr>))"
      by simp
    show ?thesis
    proof (cases "is_header c (real_block nb)")
      case True
      with g have "Iterator_getCurrent ?i = Some (True, ?j\<lparr>m_data_block := nb + 1, m_size := Some (parseOct (UstarData_size (blk c (real_block nb))) 12)\<rparr>)"
        by simp
      then show ?thesis
        by (rule fin) (use True found it x in \<open>auto simp: iter_at_def\<close>)
    next
      case False
      with g have "Iterator_getCurrent ?i = Some (False, ?j\<lparr>m_data_block := nb + 1\<rparr>)"
        by simp
      then show ?thesis
        by (rule fin) (use False in auto)
    qed
  qed
qed

text \<open>The first header is at block 0.\<close>

lemma Ustar_list_eq:
  assumes "on_disc u c" "c \<noteq> []"
  obtains it where "Ustar_list junk 0 u = Some it" "m_ok it \<longleftrightarrow> is_header c 0"
    "m_ok it \<Longrightarrow> iter_at u c it \<and> m_block it = 0 \<and> m_data_index it = 0" "m_fs it = Some u"
    "m_parent it = None" "\<exists>x. m_content it = Some x \<and> length x = 512" "\<exists>x. m_data it = Some x \<and> length x = 512"
proof -
  let ?j = "new_buffer junk 512"
  let ?i = "(Iterator_new 0 0)\<lparr>m_data := Some ?j, m_content := Some ?j, m_fs := Some u\<rparr>"
  have u: "us_blocksize u = 512"
    using assms by (simp add: on_disc_def)
  have rb: "real_block 0 = 0"
    by (simp add: real_block_def)
  have n: "0 < length c"
    using assms(2) by simp
  have g: "Ustar_getBlock 0 ?j u = Some (True, blk c 0)"
    by (rule getBlock_ok [OF assms(1)]) (use n in simp_all)
  let ?k = "?i\<lparr>m_data := Some (blk c 0)\<rparr>"
  have gc: "Iterator_getCurrent ?k = header_out ?k"
    using assms(2) size_check [OF assms(1), of 0] u by (simp add: Iterator_getCurrent_def Iterator_new_def rb)
  have h: "header_out ?k = Some (if is_header c 0
      then (True, ?k\<lparr>m_data_block := 1, m_size := Some (parseOct (UstarData_size (blk c 0)) 12)\<rparr>)
      else (False, ?k\<lparr>m_data_block := 1\<rparr>))"
    using header_out_eq [OF assms(1), of ?k 0] n by (simp add: Iterator_new_def)
  have l: "length (blk c 0) = 512"
    using length_blk [OF assms(1), of 0] n by simp
  show ?thesis
  proof (cases "is_header c 0")
    case True
    then have "Ustar_list junk 0 u = Some (?k\<lparr>m_data_block := 1, m_size := Some (parseOct (UstarData_size (blk c 0)) 12), m_ok := True\<rparr>)"
      using gc h g u by (simp add: Ustar_list_def Let_def)
    then show ?thesis
      by (rule that) (use l True in \<open>auto simp: iter_at_def rb Iterator_new_def\<close>)
  next
    case False
    then have "Ustar_list junk 0 u = Some (?k\<lparr>m_data_block := 1\<rparr>)"
      using gc h g u by (simp add: Ustar_list_def Let_def)
    then show ?thesis
      by (rule that) (use l False in \<open>auto simp: iter_at_def rb Iterator_new_def\<close>)
  qed
qed

lemma Iterator_assign_eq:
  assumes "on_disc u c" "m_fs it = Some u" "m_parent it = None \<or> (\<exists>x. m_parent it = Some x \<and> length x = 512)"
    "\<exists>x. m_content it = Some x \<and> length x = 512" "\<exists>x. m_data it = Some x \<and> length x = 512"
  obtains it' where "Iterator_assign junk it (Iterator_new 0 0) = Some it'" "m_ok it' = m_ok it" "m_block it' = m_block it"
    "m_data_index it' = m_data_index it" "iter_at u c it \<Longrightarrow> iter_at u c it'" "m_data it' = m_data it" "m_size it' = m_size it"
    "m_fs it' = Some u" "\<exists>x. m_parent it' = Some x \<and> length x = 512" "\<exists>x. m_content it' = Some x \<and> length x = 512"
proof -
  obtain x y where xy: "m_content it = Some x" "length x = 512" "m_data it = Some y" "length y = 512"
    using assms by auto
  have u: "us_blocksize u = 512"
    using assms(1) by (simp add: on_disc_def)
  obtain p where p: "assign_buffer junk 512 (m_parent it) = Some p" "length p = 512"
    using assms(3) by (auto simp: assign_buffer_def buf_read_def)
  have "assign_buffer junk 512 (Some z) = Some z" if "length z = 512" for z
    using that by (simp add: assign_buffer_def buf_read_def)
  then have "Iterator_assign junk it (Iterator_new 0 0) =
      Some \<lparr>m_ok = m_ok it, m_block = m_block it, m_index = m_index it, m_pos = 0, m_data_block = m_data_block it,
        m_data_index = m_data_index it, m_size = m_size it, m_fs = Some u, m_parent = Some p, m_data = Some y, m_content = Some x\<rparr>"
    using xy u p assms(2) by (simp add: Iterator_assign_def Let_def Iterator_new_def)
  then show ?thesis
    by (rule that) (use xy p in \<open>auto simp: iter_at_def\<close>)
qed

text \<open>
  The members of a well-formed archive from block \<open>b\<close> on, as the numbers of their header blocks: each header
  has its name terminated and its content on the disc, and the archive ends before the first block that is no header.
\<close>

fun archive_at :: "u8 list \<Rightarrow> nat \<Rightarrow> nat list \<Rightarrow> bool" where
  "archive_at c b [] \<longleftrightarrow> \<not> is_header c b"
| "archive_at c b (x # xs) \<longleftrightarrow> x = b \<and> is_header c b \<and> 0 \<in> set (blk c b) \<and> 512 * tar_next c b \<le> length c \<and>
     archive_at c (tar_next c b) xs"

lemma tar_next_word:
  assumes "tar_next c b \<le> 2 ^ 23"
  shows "ucast (ucast (of_nat b :: u32) + (parseOct (UstarData_size (blk c b)) 12 + 511) div 512 + 1 :: u64) =
    (of_nat (tar_next c b) :: u32)"
proof -
  let ?sz = "parseOct (UstarData_size (blk c b)) 12"
  have "unat (?sz + 511) = unat ?sz + 511"
    using parseOct_bound [of "UstarData_size (blk c b)"] by (subst unat_plus_eq) auto
  then have d: "unat ((?sz + 511) div 512) = (unat ?sz + 511) div 512"
    by (simp add: unat_div)
  have t: "tar_next c b = b + (unat ?sz + 511) div 512 + 1"
    by (simp add: tar_next_def tar_size_def)
  let ?w = "ucast (of_nat b :: u32) + (?sz + 511) div 512 + 1 :: u64"
  have bu: "unat (of_nat b :: u32) = b"
    using t assms by (intro unat_of_nat_u32) simp
  then have "unat (ucast (of_nat b :: u32) + (?sz + 511) div 512 :: u64) = b + (unat ?sz + 511) div 512"
    using d t assms by (subst unat_plus_eq) auto
  then have "unat ?w = tar_next c b"
    using t assms by (subst unat_plus_eq) auto
  then have "unat (ucast ?w :: u32) = tar_next c b"
    using t assms by (subst unat_narrow) auto
  then show ?thesis
    by (metis of_nat_unat ucast_id)
qed

lemma block_after_eq:
  assumes "on_disc u c" "tar_next c b \<le> 2 ^ 23"
  shows "block_after (of_nat b) (parseOct (UstarData_size (blk c b)) 12) u = Some (of_nat (tar_next c b))"
  using assms tar_next_word [OF assms(2)] by (simp add: block_after_def on_disc_def add_diff_eq [symmetric])

lemma Iterator_next_archive:
  assumes "on_disc u c" "iter_at u c it" "m_block it = of_nat b" "is_header c b" "512 * tar_next c b \<le> length c"
  obtains it' where "Iterator_next it = Some (m_ok it', it')" "m_ok it' \<longleftrightarrow> is_header c (tar_next c b)"
    "m_ok it' \<Longrightarrow> iter_at u c it' \<and> m_block it' = of_nat (tar_next c b) \<and> m_data_index it' = 0"
proof -
  have len: "length c \<le> 2 ^ 32 - 512"
    using on_disc_size [OF assms(1)] by simp
  have b: "512 * b < length c"
    using assms(4) by (simp add: is_header_def)
  have rb: "real_block (of_nat b) = b"
    by (rule real_block_of_nat) (use b len in simp)
  have t: "tar_next c b = b + (tar_size c b + 511) div 512 + 1" "tar_next c b \<le> 2 ^ 23"
    using assms(5) len by (simp_all add: tar_next_def)
  note nb = tar_next_word [OF t(2)]
  have rn: "real_block (of_nat (tar_next c b)) = tar_next c b"
    by (rule real_block_of_nat) (use assms(5) len in simp)
  have r1: "real_block (of_nat b + 1) = b + 1"
    using real_block_of_nat [of "b + 1"] b len by (simp add: add.commute)
  obtain it' where it': "Iterator_next it = Some (m_ok it', it')"
    "m_ok it' \<longleftrightarrow> 512 * (b + 1) < length c \<and> of_nat b + 1 \<le> (of_nat (tar_next c b) :: u32) \<and> is_header c (tar_next c b)"
    "m_ok it' \<Longrightarrow> iter_at u c it' \<and> m_block it' = of_nat (tar_next c b) \<and> m_data_index it' = 0"
    using Iterator_next_eq [OF assms(1,2)] unfolding assms(3) rb nb rn r1 by metis
  moreover have "512 * (b + 1) < length c" if "is_header c (tar_next c b)"
    using that t(1) by (simp add: is_header_def)
  moreover have "of_nat b + 1 \<le> (of_nat (tar_next c b) :: u32)"
  proof -
    have "unat (of_nat (Suc b) :: u32) = Suc b" "unat (of_nat (tar_next c b) :: u32) = tar_next c b"
      using t b len by (intro unat_of_nat_u32; simp)+
    moreover have "of_nat b + 1 = (of_nat (Suc b) :: u32)"
      by simp
    ultimately show ?thesis
      using t(1) by (simp only: word_le_nat_alt)
  qed
  ultimately show ?thesis
    using that by blast
qed

lemma iter_at_ok: "iter_at u c it \<Longrightarrow> m_ok it"
  by (simp add: iter_at_def)

lemma find_loop_step:
  assumes "on_disc u c" "iter_at u c it" "m_block it = of_nat b" "is_header c b" "0 \<in> set (blk c b)"
  shows "find_loop path it =
    (if tar_name c b = path then Some it
     else do { (ok, it) \<leftarrow> Iterator_next it; (if ok then find_loop path it else Some it) })"
proof -
  have "512 * b < 2 ^ 32"
    using assms(1,4) on_disc_size [of u c] by (simp add: is_header_def)
  then have "m_data it = Some (blk c b)" "m_ok it"
    using assms(2,3) by (auto simp: iter_at_def real_block_of_nat)
  then show ?thesis
    using assms(5) by (subst find_loop.simps) (simp add: Iterator_name_def buf_cstr_def tar_name_def)
qed

lemma find_loop_archive:
  assumes "on_disc u c" "archive_at c b (b # bs)" "iter_at u c it" "m_block it = of_nat b" "m_data_index it = 0"
  obtains it' where "find_loop path it = Some it'" "m_ok it' \<longleftrightarrow> (\<exists>x \<in> set (b # bs). tar_name c x = path)"
    "m_ok it' \<Longrightarrow> iter_at u c it' \<and> m_data_index it' = 0 \<and>
       (\<exists>x. find (\<lambda>x. tar_name c x = path) (b # bs) = Some x \<and> m_block it' = of_nat x)"
  using assms(2-)
proof (induction bs arbitrary: b it thesis)
  case Nil
  obtain it' where it': "Iterator_next it = Some (m_ok it', it')" "m_ok it' \<longleftrightarrow> is_header c (tar_next c b)"
    by (rule Iterator_next_archive [OF assms(1) Nil.prems(3,4)]) (use Nil.prems(2) in auto)
  then show ?case
    using Nil.prems(2-) find_loop_step [OF assms(1) Nil.prems(3,4)] Nil.prems(1) [of it] Nil.prems(1) [of it'] iter_at_ok [OF Nil.prems(3)]
    by (cases "tar_name c b = path") auto
next
  case (Cons a bs)
  obtain it' where it': "Iterator_next it = Some (m_ok it', it')" "m_ok it' \<longleftrightarrow> is_header c (tar_next c b)"
    "m_ok it' \<Longrightarrow> iter_at u c it' \<and> m_block it' = of_nat (tar_next c b) \<and> m_data_index it' = 0"
    by (rule Iterator_next_archive [OF assms(1) Cons.prems(3,4)]) (use Cons.prems(2) in auto)
  have a: "a = tar_next c b" "archive_at c a (a # bs)" "m_ok it'"
    using Cons.prems(2) it'(2) by auto
  show ?case
  proof (cases "tar_name c b = path")
    case True
    then show ?thesis
      using Cons.prems(2-) find_loop_step [OF assms(1) Cons.prems(3,4)] Cons.prems(1) [of it] iter_at_ok [OF Cons.prems(3)] by auto
  next
    case False
    then show ?thesis
      using Cons.IH [OF _ a(2), of it' thesis] it' a(1,3) find_loop_step [OF assms(1) Cons.prems(3,4)]
        Cons.prems(1,2) by auto
  qed
qed

lemma findFile_archive:
  assumes "on_disc u c" "c \<noteq> []" "archive_at c 0 bs" "uf_ustar fs = u"
  obtains it where "UstarFilesystem_findFile junk path part 0 fs = Some it"
    "m_ok it \<longleftrightarrow> (\<exists>x \<in> set bs. tar_name c x = path)"
    "m_ok it \<Longrightarrow> iter_at u c it \<and> m_data_index it = 0 \<and>
       (\<exists>x. find (\<lambda>x. tar_name c x = path) bs = Some x \<and> m_block it = of_nat x)"
proof -
  obtain l where l: "Ustar_list junk 0 u = Some l" "m_ok l \<longleftrightarrow> is_header c 0"
    "m_ok l \<Longrightarrow> iter_at u c l \<and> m_block l = 0 \<and> m_data_index l = 0" "m_fs l = Some u" "m_parent l = None"
    "\<exists>x. m_content l = Some x \<and> length x = 512" "\<exists>x. m_data l = Some x \<and> length x = 512"
    by (rule Ustar_list_eq [OF assms(1,2)]) blast
  obtain i where i: "Iterator_assign junk l (Iterator_new 0 0) = Some i" "m_ok i = m_ok l" "m_block i = m_block l"
    "m_data_index i = m_data_index l" "iter_at u c l \<Longrightarrow> iter_at u c i"
    by (rule Iterator_assign_eq [OF assms(1) l(4) _ l(6,7)]) (use l(5) in auto)
  have f: "UstarFilesystem_findFile junk path part 0 fs = find_loop path i"
    using l(1) i(1) assms(4) by (simp add: UstarFilesystem_findFile_def)
  show ?thesis
  proof (cases bs)
    case Nil
    then have "\<not> m_ok i"
      using i(2) l(2) assms(3) by simp
    then show ?thesis
      using Nil f by (intro that [of i]) (simp_all add: find_loop.simps)
  next
    case (Cons b bs')
    then have b: "b = 0" "archive_at c b (b # bs')" "m_ok l"
      using assms(3) l(2) by auto
    have x: "iter_at u c i" "m_block i = of_nat b" "m_data_index i = 0"
      using i l(3) b by auto
    obtain it where r: "find_loop path i = Some it" "m_ok it \<longleftrightarrow> (\<exists>x \<in> set (b # bs'). tar_name c x = path)"
      "m_ok it \<Longrightarrow> iter_at u c it \<and> m_data_index it = 0 \<and>
         (\<exists>x. find (\<lambda>x. tar_name c x = path) (b # bs') = Some x \<and> m_block it = of_nat x)"
      by (rule find_loop_archive [OF assms(1) b(2) x, of path]) blast
    show ?thesis
      by (rule that [unfolded Cons, OF f [unfolded r(1)] r(2,3)])
  qed
qed

text \<open>
  Every step of a walk goes to a higher block, so the walk ends on any disc below 4 GiB, well-formed archive or not.  The blocks that are
  taken for headers need a zero byte, or reading the name leaves the buffer.
\<close>

lemma find_loop_returns:
  assumes "on_disc u c" "\<And>b. is_header c b \<Longrightarrow> 0 \<in> set (blk c b)" "iter_at u c it"
  shows "\<exists>it'. find_loop path it = Some it' \<and>
    (m_ok it' \<longrightarrow> iter_at u c it' \<and> tar_name c (real_block (m_block it')) = path)"
  using assms(3)
proof (induction "2 ^ 32 - unat (m_block it)" arbitrary: it rule: less_induct)
  case less
  let ?b = "real_block (m_block it)"
  have h: "512 * ?b < length c" "m_data it = Some (blk c ?b)" "m_ok it" "0 \<in> set (blk c ?b)"
    using less.prems assms(2) by (auto simp: iter_at_def is_header_def)
  define nb where "nb = (ucast (ucast (m_block it) + (parseOct (UstarData_size (blk c ?b)) 12 + 511) div 512 + 1) :: u32)"
  obtain it' where it': "Iterator_next it = Some (m_ok it', it')"
    "m_ok it' \<longleftrightarrow> 512 * real_block (m_block it + 1) < length c \<and> m_block it + 1 \<le> nb \<and> is_header c (real_block nb)"
    "m_ok it' \<Longrightarrow> iter_at u c it' \<and> m_block it' = nb \<and> m_data_index it' = 0"
    using Iterator_next_eq [OF assms(1) less.prems] unfolding nb_def by metis
  have step: "find_loop path it = (if takeWhile (\<lambda>x. x \<noteq> 0) (blk c ?b) = path then Some it
      else if m_ok it' then find_loop path it' else Some it')"
    using h it'(1) by (subst find_loop.simps) (simp add: Iterator_name_def buf_cstr_def)
  have "\<exists>i. find_loop path it' = Some i \<and> (m_ok i \<longrightarrow> iter_at u c i \<and> tar_name c (real_block (m_block i)) = path)" if ok: "m_ok it'"
  proof (rule less.hyps)
    have "unat (m_block it) + 1 < 2 ^ 32"
    proof (rule ccontr)
      assume "\<not> unat (m_block it) + 1 < 2 ^ 32"
      then have "unat (m_block it) = 2 ^ 32 - 1"
        using unat_u32_less [of "m_block it"] by simp
      then have "?b = 2 ^ 23 - 1"
        by (simp add: real_block_mod)
      then show False
        using h(1) on_disc_size [OF assms(1)] by simp
    qed
    then have "unat (m_block it) < unat (m_block it')"
      using it'(2,3) ok unat_plus_eq [of "m_block it" 1] by (auto simp: word_le_nat_alt)
    then show "2 ^ 32 - unat (m_block it') < 2 ^ 32 - unat (m_block it)"
      using unat_u32_less [of "m_block it'"] by linarith
  qed (use it'(3) ok in simp)
  then show ?case
    using step less.prems by (auto simp: tar_name_def)
qed

section \<open>Reading a member\<close>

definition reading :: "ustar \<Rightarrow> u8 list \<Rightarrow> nat \<Rightarrow> nat \<Rightarrow> iterator \<Rightarrow> bool" where
  "reading u c b i it \<longleftrightarrow> iter_at u c it \<and> m_block it = of_nat b \<and> 512 * tar_next c b \<le> length c \<and>
     m_data_index it = of_nat i \<and> i \<le> tar_size c b"

lemma content_chunk:
  assumes "on_disc u c" "512 * tar_next c b \<le> length c" "i + k \<le> tar_size c b" "k \<le> 512 - i mod 512"
  shows "take k (drop (i mod 512) (blk c (b + 1 + i div 512))) = take k (drop i (tar_content c b))"
proof -
  have "512 * (b + 1 + i div 512) + i mod 512 = 512 * (b + 1) + i"
    by simp
  then have "take k (drop (i mod 512) (blk c (b + 1 + i div 512))) = take (min k (512 - i mod 512)) (drop (512 * (b + 1) + i) c)"
    unfolding blk_def drop_take drop_drop take_take by (simp add: add.commute)
  moreover have "take k (drop i (tar_content c b)) = take (min k (tar_size c b - i)) (drop (512 * (b + 1) + i) c)"
    unfolding tar_content_def drop_take drop_drop take_take by (simp add: add.commute)
  ultimately show ?thesis
    using assms(3,4) by (simp add: min_def)
qed

lemma reading_bounds:
  assumes "on_disc u c" "reading u c b i it"
  shows "tar_size c b < 2 ^ 32" "i < 2 ^ 32" "b + 1 < 2 ^ 32" "tar_next c b \<le> 2 ^ 23" "tar_size c b \<le> 512 * (tar_next c b - b - 1)"
proof -
  have "512 * tar_next c b \<le> 2 ^ 32 - 512" "i \<le> tar_size c b"
    using assms on_disc_size [OF assms(1)] by (auto simp: reading_def)
  moreover have "tar_size c b \<le> 512 * ((tar_size c b + 511) div 512)"
    using mod_less_divisor [of 512 "tar_size c b + 511"] div_mult_mod_eq [of "tar_size c b + 511" 512] by linarith
  moreover have "tar_next c b = b + (tar_size c b + 511) div 512 + 1"
    by (simp add: tar_next_def)
  ultimately show "tar_size c b < 2 ^ 32" "i < 2 ^ 32" "b + 1 < 2 ^ 32" "tar_next c b \<le> 2 ^ 23" "tar_size c b \<le> 512 * (tar_next c b - b - 1)"
    by simp_all
qed

lemma length_tar_content: "reading u c b i it \<Longrightarrow> length (tar_content c b) = tar_size c b"
  by (auto simp: reading_def tar_content_def tar_next_def)

lemma read_loop_step:
  assumes "on_disc u c" "reading u c b i it" "i < tar_size c b" "0 < cnt" "unat rc + unat cnt \<le> length buf"
    "sz = parseOct (UstarData_size (blk c b)) 12"
  obtains k buf' it' where "k = chunk cnt (of_nat i) 512 sz"
    "read_loop (of_nat (tar_next c b)) sz u cnt buf rc it = read_loop (of_nat (tar_next c b)) sz u (cnt - k) buf' (rc + ucast k) it'"
    "reading u c b (i + unat k) it'" "buf_write (unat rc) (take (unat k) (drop i (tar_content c b))) buf = Some buf'"
    "0 < unat k" "unat k \<le> unat cnt" "unat k \<le> 512"
proof -
  note bd = reading_bounds [OF assms(1,2)]
  define j where "j = b + 1 + i div 512"
  define k where "k = chunk cnt (of_nat i) 512 sz"
  have u: "us_blocksize u = 512" and i: "unat (of_nat i :: u32) = i" and sz: "unat sz = tar_size c b"
    using assms(1,6) bd by (auto simp: on_disc_def unat_of_nat_u32 tar_size_def)
  have lt: "ucast (of_nat i :: u32) < sz"
    using i sz assms(3) by (simp add: word_less_nat_alt)
  have jn: "j < tar_next c b"
    using div_le_mono [of "i + 512" "tar_size c b + 511" 512] assms(3) by (simp add: j_def tar_next_def)
  have bl: "512 * j < length c"
    using jn assms(2) by (auto simp: reading_def)
  have k: "0 < unat k" "unat k \<le> unat cnt" "unat k \<le> 512" "i + unat k \<le> tar_size c b" "unat k \<le> 512 - i mod 512"
  proof -
    have "unat k = min (unat cnt) (min (512 - i mod 512) (tar_size c b - i))"
      using chunk_eq [OF assms(4) lt, of 512] i sz by (simp add: k_def)
    moreover have "0 < unat cnt" "i mod 512 < 512"
      using assms(4) by (simp_all add: word_less_nat_alt)
    ultimately show "0 < unat k" "unat k \<le> unat cnt" "unat k \<le> 512" "i + unat k \<le> tar_size c b" "unat k \<le> 512 - i mod 512"
      using assms(3) by linarith+
  qed
  have blockno: "m_data_block it + m_data_index it div 512 = of_nat j"
  proof -
    have "m_data_index it div 512 = of_nat (i div 512)"
      by (rule word_unat_eq_iff [THEN iffD2])
        (use assms(2) i bd(2) in \<open>simp add: reading_def unat_div unat_of_nat_u32\<close>)
    moreover have "m_data_block it = of_nat (b + 1)"
      using assms(2) by (simp add: reading_def iter_at_def)
    ultimately show ?thesis
      by (simp only: j_def of_nat_add)
  qed
  have less: "\<not> of_nat (tar_next c b) \<le> (of_nat j :: u32)"
    using jn bd(4) by (simp add: word_le_nat_alt unat_of_nat_u32)
  obtain x where x: "m_content it = Some x" "length x = 512"
    using assms(2) by (auto simp: reading_def iter_at_def)
  have gb: "Ustar_getBlock (of_nat j) x u = Some (True, blk c j)"
    by (rule getBlock_ok [OF assms(1) _ bl x(2)]) (use jn bd(4) real_block [of "of_nat j"] real_block_of_nat [of j] in simp)
  have lb: "length (blk c j) = 512"
    using length_blk [OF assms(1) bl] by simp
  have offs: "unat (of_nat i mod 512 :: u32) = i mod 512"
    using i by (simp add: unat_mod)
  have "buf_read (i mod 512) (unat k) (blk c j) = Some (take (unat k) (drop i (tar_content c b)))"
    using content_chunk [OF assms(1) _ k(4,5)] assms(2) k(5) lb by (auto simp: buf_read_def reading_def j_def)
  moreover have "unat rc + length (take (unat k) (drop i (tar_content c b))) \<le> length buf"
    using assms(5) k(2) by simp
  then obtain buf' where w: "buf_write (unat rc) (take (unat k) (drop i (tar_content c b))) buf = Some buf'"
    unfolding buf_write_def by simp
  let ?it = "it\<lparr>m_content := Some (blk c j), m_data_index := of_nat i + ucast k\<rparr>"
  have kk: "unat (ucast k :: u32) = unat k"
    using k(3) by (intro unat_narrow) simp
  then have "(of_nat i + ucast k :: u32) = of_nat (i + unat k)"
    by (metis of_nat_add of_nat_unat ucast_id)
  then have "reading u c b (i + unat k) ?it"
    using assms(2) lb k(4) by (auto simp: reading_def iter_at_def)
  moreover have "read_loop (of_nat (tar_next c b)) sz u cnt buf rc it = read_loop (of_nat (tar_next c b)) sz u (cnt - k) buf' (rc + ucast k) ?it"
  proof -
    have "m_data_index it = of_nat i"
      using assms(2) by (simp add: reading_def)
    then show ?thesis
      using assms(4) lt u less blockno x(1) gb k_def offs calculation w
      by (subst read_loop.simps) (simp add: Let_def)
  qed
  ultimately show ?thesis
    using w k by (intro that [of k buf' ?it]) (simp_all add: k_def)
qed

lemma read_loop_eq:
  assumes "on_disc u c" "sz = parseOct (UstarData_size (blk c b)) 12" "reading u c b i it"
    "unat rc + unat cnt \<le> length buf" "length buf < 2 ^ 31"
  shows "\<exists>n buf' it'. n = min (unat cnt) (tar_size c b - i) \<and>
    read_loop (of_nat (tar_next c b)) sz u cnt buf rc it = Some (rc + of_nat n, buf', it') \<and>
    buf_write (unat rc) (take n (drop i (tar_content c b))) buf = Some buf' \<and> reading u c b (i + n) it'"
  using assms(3-)
proof (induction "unat cnt" arbitrary: cnt i it rc buf rule: less_induct)
  case less
  show ?case
  proof (cases "0 < cnt \<and> i < tar_size c b")
    case False
    have "ucast (m_data_index it) < sz \<longleftrightarrow> i < tar_size c b"
      using less.prems(1) reading_bounds [OF assms(1) less.prems(1)] assms(2)
      by (simp add: word_less_nat_alt reading_def unat_of_nat_u32 tar_size_def)
    moreover have "min (unat cnt) (tar_size c b - i) = 0"
      using False by (auto simp: word_less_nat_alt)
    ultimately show ?thesis
      using False less.prems by (subst read_loop.simps) (auto simp: buf_write_Nil)
  next
    case True
    obtain k buf' it' where k: "k = chunk cnt (of_nat i) 512 sz"
      "read_loop (of_nat (tar_next c b)) sz u cnt buf rc it = read_loop (of_nat (tar_next c b)) sz u (cnt - k) buf' (rc + ucast k) it'"
      "reading u c b (i + unat k) it'" "buf_write (unat rc) (take (unat k) (drop i (tar_content c b))) buf = Some buf'"
      "0 < unat k" "unat k \<le> unat cnt" "unat k \<le> 512"
      by (rule read_loop_step [OF assms(1) less.prems(1) _ _ less.prems(2) assms(2)]) (use True in auto)
    have kk: "unat (ucast k :: u32) = unat k" "unat (cnt - k) = unat cnt - unat k"
      using k(6,7) by (auto simp: unat_narrow unat_minus_eq)
    have rc: "unat (rc + ucast k) = unat rc + unat k"
      using k(6) kk(1) less.prems(2,3) by (subst unat_plus_eq) auto
    let ?n = "min (unat (cnt - k)) (tar_size c b - (i + unat k))"
    obtain buf'' it'' where r: "read_loop (of_nat (tar_next c b)) sz u (cnt - k) buf' (rc + ucast k) it' = Some (rc + ucast k + of_nat ?n, buf'', it'')"
      "buf_write (unat rc + unat k) (take ?n (drop (i + unat k) (tar_content c b))) buf' = Some buf''" "reading u c b (i + unat k + ?n) it''"
      using less.hyps [of "cnt - k" "i + unat k" it' "rc + ucast k" buf'] k(3,5,6) kk(2) rc less.prems(2,3) buf_write_length [OF k(4)]
      by auto
    have le: "i + unat k \<le> tar_size c b"
      using k(3) by (simp add: reading_def)
    have n: "min (unat cnt) (tar_size c b - i) = unat k + ?n"
      using le kk(2) k(6) by auto
    have l: "length (take (unat k) (drop i (tar_content c b))) = unat k"
      using length_tar_content [OF less.prems(1)] le by simp
    have "buf_write (unat rc) (take (unat k + ?n) (drop i (tar_content c b))) buf = Some buf''"
      using buf_write_append [OF k(4), of "take ?n (drop (i + unat k) (tar_content c b))" buf''] r(2) l
      by (simp add: take_add add.commute)
    moreover have "rc + ucast k = rc + of_nat (unat k)"
      using kk(1) by (metis of_nat_unat ucast_id)
    ultimately show ?thesis
      using k(2) r(1,3) n by (simp add: add.assoc)
  qed
qed

lemma Iterator_read_eq:
  assumes "on_disc u c" "reading u c b i it" "unat cnt \<le> length buf" "length buf < 2 ^ 31"
  obtains n buf' it' where "n = min (unat cnt) (tar_size c b - i)" "Iterator_read buf cnt it = Some (int n, buf', it')"
    "buf_write 0 (take n (drop i (tar_content c b))) buf = Some buf'" "reading u c b (i + n) it'"
proof -
  let ?sz = "parseOct (UstarData_size (blk c b)) 12"
  note bd = reading_bounds [OF assms(1,2)]
  have b: "real_block (of_nat b) = b"
    by (rule real_block_of_nat) (use bd(4) in \<open>simp add: tar_next_def\<close>)
  have it: "m_fs it = Some u" "Iterator_size it = Some ?sz" "m_block it = of_nat b"
    using assms(2) b by (auto simp: reading_def iter_at_def Iterator_size_def)
  have "block_after (of_nat b) ?sz u = Some (of_nat (tar_next c b))"
    by (rule block_after_eq [OF assms(1) bd(4)])
  moreover obtain n buf' it' where r: "n = min (unat cnt) (tar_size c b - i)"
    "read_loop (of_nat (tar_next c b)) ?sz u cnt buf 0 it = Some (0 + of_nat n, buf', it')"
    "buf_write (unat (0 :: u32)) (take n (drop i (tar_content c b))) buf = Some buf'" "reading u c b (i + n) it'"
    using read_loop_eq [OF assms(1) refl assms(2), of 0 cnt buf] assms(3,4) by auto
  moreover have "sint (of_nat n :: u32) = int n"
  proof -
    have "n < 2 ^ 31"
      using r(1) assms(3,4) by linarith
    then show ?thesis
      by (simp add: sint_of_nat_31)
  qed
  ultimately show ?thesis
    using it by (intro that) (simp_all add: Iterator_read_def)
qed

section \<open>The file system as a map from handles to positions in members\<close>

definition reading_at :: "ustar \<Rightarrow> u8 list \<Rightarrow> nat \<times> nat \<Rightarrow> iterator \<Rightarrow> bool" where
  "reading_at u c x it = reading u c (fst x) (snd x) it"

definition uinv :: "ustar \<Rightarrow> u8 list \<Rightarrow> ptr \<Rightarrow> ustar_state \<Rightarrow> (int \<rightharpoonup> nat \<times> nat) \<Rightarrow> bool" where
  "uinv u c this s M \<longleftrightarrow> on_disc u c \<and>
     open_objects (us_table s) (us_iters s) (us_fresh s) this (reading_at u c) M"

lemma uinvD:
  assumes "uinv u c this s M"
  shows "on_disc u c" "open_objects (us_table s) (us_iters s) (us_fresh s) this (reading_at u c) M"
  using assms by (simp_all add: uinv_def)

lemma uinv_errno [simp]: "uinv u c this (set_errno e s) M = uinv u c this s M"
  by (simp add: uinv_def set_errno_def)

lemma archive_member:
  "archive_at c b bs \<Longrightarrow> x \<in> set bs \<Longrightarrow> is_header c x \<and> 512 * tar_next c x \<le> length c"
  by (induction bs arbitrary: b) auto

definition uroom :: "ustar_state \<Rightarrow> (int \<rightharpoonup> nat \<times> nat) \<Rightarrow> bool" where
  "uroom s M \<longleftrightarrow> ft_handle (us_table s) < INT_MAX \<and> Suc (card (dom M)) < 2 ^ 32"

lemma ustar_open:
  assumes "uinv u c this s M" "uf_ustar fs = u" "c \<noteq> []" "archive_at c 0 bs" "uroom s M"
  shows "case find (\<lambda>x. tar_name c x = path) bs of
      None \<Rightarrow> UstarFilesystem_open junk this fs path flags s = Some (- 1, set_errno ENOENT s)
    | Some x \<Rightarrow>
        if tar_type c x \<noteq> TYPE_FILE then UstarFilesystem_open junk this fs path flags s = Some (- 1, set_errno EPERM s)
        else \<exists>h s'. UstarFilesystem_open junk this fs path flags s = Some (h, s') \<and> 2 < h \<and> M h = None \<and> uinv u c this s' (M(h \<mapsto> (x, 0)))"
proof -
  have d: "on_disc u c"
    using assms(1) by (simp add: uinv_def)
  obtain it where it: "UstarFilesystem_findFile junk path 0 0 fs = Some it"
    "m_ok it \<longleftrightarrow> (\<exists>x \<in> set bs. tar_name c x = path)"
    "m_ok it \<Longrightarrow> iter_at u c it \<and> m_data_index it = 0 \<and>
       (\<exists>x. find (\<lambda>x. tar_name c x = path) bs = Some x \<and> m_block it = of_nat x)"
    by (rule findFile_archive [OF d assms(3,4,2), of junk path 0]) blast
  show ?thesis
  proof (cases "find (\<lambda>x. tar_name c x = path) bs")
    case None
    then have "\<not> m_ok it"
      using it(2) by (auto simp: find_None_iff)
    then show ?thesis
      using None it(1) by (simp add: UstarFilesystem_open_def)
  next
    case (Some x)
    then have x: "x \<in> set bs" "tar_name c x = path"
      by (auto simp: find_Some_iff)
    then have ok: "m_ok it"
      using it(2) by blast
    then have i: "iter_at u c it" "m_data_index it = 0" "m_block it = of_nat x"
      using it(3) Some by auto
    have m: "is_header c x" "512 * tar_next c x \<le> length c"
      using archive_member [OF assms(4) x(1)] by auto
    have rb: "real_block (of_nat x) = x"
      by (rule real_block_of_nat) (use m(1) on_disc_size [OF d] in \<open>auto simp: is_header_def\<close>)
    then have dt: "m_data it = Some (blk c x)" "length (blk c x) = 512"
      using i m(1) length_blk [OF d, of x] by (auto simp: iter_at_def is_header_def)
    then have ty: "Iterator_type it = Some (tar_type c x)"
      by (simp add: Iterator_type_def tar_type_def UstarData_type_def)
    show ?thesis
    proof (cases "tar_type c x = TYPE_FILE")
      case False
      then show ?thesis
        using Some it(1) ok ty by (simp add: UstarFilesystem_open_def)
    next
      case True
      have pre: "m_fs it = Some u" "m_parent it = None \<or> (\<exists>x. m_parent it = Some x \<and> length x = 512)"
        "\<exists>x. m_content it = Some x \<and> length x = 512" "\<exists>x. m_data it = Some x \<and> length x = 512"
        using i(1) dt by (auto simp: iter_at_def)
      obtain it' where it': "Iterator_assign junk it (Iterator_new 0 0) = Some it'" "m_block it' = m_block it"
        "m_data_index it' = m_data_index it" "iter_at u c it \<Longrightarrow> iter_at u c it'"
        by (rule Iterator_assign_eq [OF d pre, of junk]) blast
      have r: "reading_at u c (x, 0) it'"
        using it' i m(2) by (simp add: reading_at_def reading_def)
      have o: "open_objects (us_table s) (us_iters s) (us_fresh s) this (reading_at u c) M"
        "ft_handle (us_table s) < INT_MAX" "Suc (card (dom M)) < 2 ^ 32"
        using assms(1,5) by (auto simp: uinv_def uroom_def)
      obtain t where "Filesystem_mapfile UstarFilesystem_type path this (Some (us_fresh s)) (us_table s) = Some (ft_handle (us_table s) + 1, t)"
        "2 < ft_handle (us_table s) + 1" "M (ft_handle (us_table s) + 1) = None"
        "open_objects t ((us_iters s)(us_fresh s \<mapsto> it')) (Suc (us_fresh s)) this (reading_at u c)
           (M(ft_handle (us_table s) + 1 \<mapsto> (x, 0)))"
        by (rule open_objects_mapfile [OF o r, of UstarFilesystem_type path]) blast
      then show ?thesis
        using Some True it(1) ok ty it'(1) d by (simp add: UstarFilesystem_open_def uinv_def)
    qed
  qed
qed

lemma ustar_read_bad:
  assumes "uinv u c this s M" "M h = None"
  shows "UstarFilesystem_read h buf cnt s = Some (- 1, buf, set_errno ENOENT s)"
  by (rule open_objects_closed [OF uinvD(2) [OF assms(1)] assms(2)]) (simp add: UstarFilesystem_read_def)

lemma ustar_read_ok:
  assumes "uinv u c this s M" "M h = Some (b, i)" "unat cnt \<le> length buf" "length buf < 2 ^ 31"
  obtains n buf' s' where "n = min (unat cnt) (tar_size c b - i)" "UstarFilesystem_read h buf cnt s = Some (int n, buf', s')"
    "buf_write 0 (take n (drop i (tar_content c b))) buf = Some buf'" "uinv u c this s' (M(h \<mapsto> (b, i + n)))"
    "us_table s' = us_table s"
proof -
  note inv = uinvD [OF assms(1)]
  obtain a it nm where o: "Filesystem_getCustom h (us_table s) = Some (Some a)" "Filesystem_getName h (us_table s) = Some nm" "us_iters s a = Some it"
    "reading_at u c (b, i) it" "\<And>it' x'. reading_at u c x' it' \<Longrightarrow>
       open_objects (us_table s) ((us_iters s)(a \<mapsto> it')) (us_fresh s) this (reading_at u c) (M(h \<mapsto> x'))"
    by (rule open_objects_open [OF inv(2) assms(2)]) blast
  have rd: "reading u c b i it"
    using o(4) by (simp add: reading_at_def)
  have cnt: "unat (ucast cnt :: u64) \<le> length buf"
    using assms(3) by simp
  obtain n buf' it' where r: "n = min (unat (ucast cnt :: u64)) (tar_size c b - i)" "Iterator_read buf (ucast cnt) it = Some (int n, buf', it')"
    "buf_write 0 (take n (drop i (tar_content c b))) buf = Some buf'" "reading u c b (i + n) it'"
    by (rule Iterator_read_eq [OF inv(1) rd cnt assms(4)]) blast
  let ?s = "s\<lparr>us_iters := (us_iters s)(a \<mapsto> it')\<rparr>"
  have "UstarFilesystem_read h buf cnt s = Some (int n, buf', ?s)"
    using o(1-3) r(2) by (simp add: UstarFilesystem_read_def)
  moreover have "uinv u c this ?s (M(h \<mapsto> (b, i + n)))"
    using inv(1) o(5) [of "(b, i + n)" it'] r(4) by (simp add: uinv_def reading_at_def)
  ultimately show ?thesis
    using r by (intro that [of n buf' ?s]) simp_all
qed

lemma ustar_close_ok:
  assumes "uinv u c this s M" "M h = Some d"
  shows "\<exists>s'. UstarFilesystem_close h s = Some (0, s') \<and> uinv u c this s' (M(h := None))"
  by (rule open_objects_open [OF uinvD(2) [OF assms(1)] assms(2)])
    (use uinvD(1) [OF assms(1)] in \<open>simp add: uinv_def UstarFilesystem_close_def delete_iterator_def\<close>)

lemma ustar_close_bad:
  assumes "uinv u c this s M" "M h = None"
  shows "\<exists>s'. UstarFilesystem_close h s = Some (- 1, s') \<and> uinv u c this s' M \<and> ft_errno (us_table s') = EBADF"
  by (rule open_objects_closed [OF uinvD(2) [OF assms(1)] assms(2)])
    (use uinvD(1) [OF assms(1)] in \<open>simp add: uinv_def UstarFilesystem_close_def set_errno_def\<close>)

lemma uinv_owner: "uinv u c this s M \<Longrightarrow> Filesystem_getFilesystem h (us_table s) = Some (if M h = None then nullptr else this)"
  by (rule open_objects_owner [OF uinvD(2)])

text \<open>\<^verbatim>\<open>UstarFilesystem\<close> keeps the contract on handles.\<close>

interpretation uf: handle_opening "\<lambda>s M. uinv (uf_ustar fs) c this s M \<and> c \<noteq> [] \<and> archive_at c 0 bs" UstarFilesystem_close "\<lambda>s. ft_errno (us_table s)"
  "UstarFilesystem_open junk this fs" uroom
  for fs c bs junk this
proof
  fix s and M :: "int \<rightharpoonup> nat \<times> nat" and h d
  assume "uinv (uf_ustar fs) c this s M \<and> c \<noteq> [] \<and> archive_at c 0 bs" "M h = Some d"
  then show "\<exists>s'. UstarFilesystem_close h s = Some (0, s') \<and> uinv (uf_ustar fs) c this s' (M(h := None)) \<and> c \<noteq> [] \<and> archive_at c 0 bs"
    using ustar_close_ok by blast
next
  fix s and M :: "int \<rightharpoonup> nat \<times> nat" and h
  assume "uinv (uf_ustar fs) c this s M \<and> c \<noteq> [] \<and> archive_at c 0 bs" "M h = None"
  then show "\<exists>s'. UstarFilesystem_close h s = Some (- 1, s') \<and> (uinv (uf_ustar fs) c this s' M \<and> c \<noteq> [] \<and> archive_at c 0 bs) \<and> ft_errno (us_table s') = EBADF"
    using ustar_close_bad by blast
next
  fix s M path fl
  assume a: "uinv (uf_ustar fs) c this s M \<and> c \<noteq> [] \<and> archive_at c 0 bs" "uroom s M"
  have e: "ft_errno (us_table (set_errno k s)) = k" for k
    by (simp add: set_errno_def)
  show "\<exists>r s'. UstarFilesystem_open junk this fs path fl s = Some (r, s') \<and>
    (r = - 1 \<and> (uinv (uf_ustar fs) c this s' M \<and> c \<noteq> [] \<and> archive_at c 0 bs) \<and> ft_errno (us_table s') \<in> {ENOENT, EPERM} \<or>
     r > 2 \<and> M r = None \<and> (\<exists>d. uinv (uf_ustar fs) c this s' (M(r \<mapsto> d)) \<and> c \<noteq> [] \<and> archive_at c 0 bs))"
    using ustar_open [of "uf_ustar fs" c this s M fs bs junk path fl] a e
    by (auto split: option.splits if_splits)
qed

section \<open>Properties\<close>

definition sample_disc :: "u8 list" where
  "sample_disc = [97] @ replicate 123 0 @ octal 11 3 @ replicate 21 0 @ [48] @ replicate 100 0 @ ustar_magic @ replicate 250 0 @
     [104, 105, 33] @ replicate 509 0 @ replicate 512 0"

definition sample_phys :: phys where
  "sample_phys = \<lparr>ph_read = (\<lambda>n pos hi. (True, take 512 (drop (unat pos) sample_disc))), ph_size = 1536, ph_sectorSize = 512\<rparr>"

definition sample_ustar :: ustar where
  "sample_ustar = \<lparr>us_phys = Some sample_phys, us_blocksize = 512, us_blocks = 3, us_block_in_sectors = 1\<rparr>"

definition sample_fs :: ustar_fs where
  "sample_fs = \<lparr>uf_ustar = sample_ustar, uf_mountpoint = [], uf_opts = []\<rparr>"

definition sample_state :: ustar_state where
  "sample_state = \<lparr>us_table = Filesystem_table, us_iters = Map.empty, us_fresh = 0\<rparr>"

lemma length_sample: "length sample_disc = 1536"
  by (simp add: sample_disc_def ustar_magic_def)

lemma sample_on_disc: "on_disc sample_ustar sample_disc"
proof -
  have "unat (of_nat (512 * b) :: u32) = 512 * b" if "512 * b + 512 \<le> 1536" for b
    by (rule unat_of_nat_u32) (use that in simp)
  then show ?thesis
    by (simp add: on_disc_def sample_ustar_def holds_disc_def sample_phys_def length_sample)
qed

lemma sample_uinv: "uinv sample_ustar sample_disc this sample_state Map.empty"
  by (simp add: uinv_def sample_on_disc open_objects_new sample_state_def)

lemma sample_block0:
  "blk sample_disc 0 = [97] @ replicate 123 0 @ octal 11 3 @ replicate 21 0 @ [48] @ replicate 100 0 @ ustar_magic @ replicate 250 0"
  by (simp add: blk_def sample_disc_def ustar_magic_def)

lemma sample_header:
  "UstarData_ustar (blk sample_disc 0) = ustar_magic" "UstarData_size (blk sample_disc 0) = octal 11 3 @ [0]"
  "blk sample_disc 0 ! 156 = 48"
  by (simp_all add: sample_block0 UstarData_ustar_def UstarData_size_def ustar_magic_def nth_append)

lemma sample_member: "tar_name sample_disc 0 = [97]" "tar_type sample_disc 0 = TYPE_FILE"
  "tar_size sample_disc 0 = 3" "tar_content sample_disc 0 = [104, 105, 33]"
proof -
  have "replicate 123 (0 :: u8) = 0 # replicate 122 0"
    using replicate_Suc [of 122 "0 :: u8"] by simp
  then show "tar_name sample_disc 0 = [97]"
    by (simp add: tar_name_def sample_block0)
  show "tar_type sample_disc 0 = TYPE_FILE"
    by (simp add: tar_type_def sample_header ustar_type_of_def)
  show sz: "tar_size sample_disc 0 = 3"
    using parseOct_loop_octal [of 11 3 "[0]" 0] by (simp add: tar_size_def sample_header parseOct_def del: octal.simps)
  show "tar_content sample_disc 0 = [104, 105, 33]"
    unfolding tar_content_def sz by (simp add: sample_disc_def ustar_magic_def)
qed

lemma sample_archive: "archive_at sample_disc 0 [0]"
proof -
  have n: "tar_next sample_disc 0 = 2"
    by (simp add: tar_next_def sample_member)
  have "blk sample_disc 2 = replicate 512 0"
    by (simp add: blk_def sample_disc_def ustar_magic_def)
  then have "hd (UstarData_ustar (blk sample_disc 2)) = 0"
    by (simp add: UstarData_ustar_def)
  then have "\<not> is_header sample_disc 2"
    by (auto simp: is_header_def ustar_magic_def)
  moreover have "is_header sample_disc 0"
    by (simp add: is_header_def length_sample sample_header)
  moreover have "0 \<in> set (blk sample_disc 0)"
    by (simp add: sample_block0)
  ultimately show ?thesis
    by (simp add: n length_sample)
qed

text \<open>
  Reading the size of a member inverts writing it: \<^verbatim>\<open>parseOct\<close> of \<open>k\<close> octal digits followed by a zero byte is
  the number, for every number that \<open>k \<le> 21\<close> digits hold.  On any twelve bytes at all, its value is at most \<open>2 ^ 37\<close>.
\<close>

theorem parseOct_roundtrip:
  assumes "n < 8 ^ k" "k < unat len"
  shows "parseOct (octal k n @ 0 # rest) len = of_nat n \<and> unat (parseOct data 12) \<le> 2 ^ 37"
proof -
  have "take (unat len) (octal k n @ 0 # rest) = octal k n @ 0 # take (unat len - Suc k) rest"
    using assms(2) by (simp add: take_Cons')
  then show ?thesis
    using parseOct_loop_octal [of k n "0 # take (unat len - Suc k) rest" 0] assms(1) parseOct_bound
    by (simp add: parseOct_def)
qed

theorem parseOct_roundtrip_witness: "parseOct [48, 49, 55, 0, 99] 5 = 15 \<and> unat (parseOct [57, 57] 12) \<le> 2 ^ 37"
  using parseOct_roundtrip [of 15 "Suc (Suc (Suc 0))" 5 "[99]" "[57, 57]"] by simp

text \<open>
  C21: \<^verbatim>\<open>findFile\<close> returns on every disc that is not empty and smaller than 4 GiB, well-formed archive or not, if every
  block with the magic of a header contains a zero byte: the block number of the iterator grows with every step.  An iterator that is
  returned valid stands on a block with that magic whose name is the path.  Without the zero byte the name runs out of the block's
  buffer; blocks without the magic may hold anything.
\<close>

theorem findFile_terminates:
  assumes "on_disc (uf_ustar fs) c" "c \<noteq> []" "\<forall>b. is_header c b \<longrightarrow> 0 \<in> set (blk c b)"
  shows "\<exists>it. UstarFilesystem_findFile junk path part 0 fs = Some it \<and>
    (m_ok it \<longrightarrow> is_header c (real_block (m_block it)) \<and> tar_name c (real_block (m_block it)) = path)"
proof -
  obtain l where l: "Ustar_list junk 0 (uf_ustar fs) = Some l"
    "m_ok l \<Longrightarrow> iter_at (uf_ustar fs) c l \<and> m_block l = 0 \<and> m_data_index l = 0" "m_fs l = Some (uf_ustar fs)" "m_parent l = None"
    "\<exists>x. m_content l = Some x \<and> length x = 512" "\<exists>x. m_data l = Some x \<and> length x = 512"
    by (rule Ustar_list_eq [OF assms(1,2)]) blast
  obtain i where i: "Iterator_assign junk l (Iterator_new 0 0) = Some i" "m_ok i = m_ok l"
    "iter_at (uf_ustar fs) c l \<Longrightarrow> iter_at (uf_ustar fs) c i"
    by (rule Iterator_assign_eq [OF assms(1) l(3) _ l(5,6)]) (use l(4) in auto)
  have "\<exists>it. find_loop path i = Some it \<and> (m_ok it \<longrightarrow> is_header c (real_block (m_block it)) \<and> tar_name c (real_block (m_block it)) = path)"
  proof (cases "m_ok i")
    case True
    then have "iter_at (uf_ustar fs) c i"
      using i l(2) by simp
    then show ?thesis
      using find_loop_returns [OF assms(1), of i path] assms(3) unfolding iter_at_def by blast
  qed (simp add: find_loop.simps)
  then show ?thesis
    using l(1) i(1) by (simp add: UstarFilesystem_findFile_def)
qed

text \<open>A disc whose first member, \<^verbatim>\<open>a\<close>, is 512 bytes of text without a zero byte.\<close>

definition text_disc :: "u8 list" where
  "text_disc = [97] @ replicate 123 0 @ octal 11 512 @ replicate 21 0 @ [48] @ replicate 100 0 @ ustar_magic @ replicate 250 0 @
     replicate 512 65 @ replicate 512 0"

definition text_fs :: ustar_fs where
  "text_fs = sample_fs\<lparr>uf_ustar := sample_ustar\<lparr>us_phys := Some (sample_phys\<lparr>ph_read := (\<lambda>n pos hi. (True, take 512 (drop (unat pos) text_disc)))\<rparr>)\<rparr>\<rparr>"

lemma text_blocks:
  "length text_disc = 1536" "0 \<in> set (blk text_disc 0)" "0 \<notin> set (blk text_disc 1)"
  "\<not> is_header text_disc 1" "\<not> is_header text_disc 2"
proof -
  have "hd (replicate 5 65) \<noteq> hd ustar_magic" "hd (replicate 5 0) \<noteq> hd ustar_magic"
    by (simp_all add: ustar_magic_def)
  then have "replicate 5 65 \<noteq> ustar_magic" "replicate 5 0 \<noteq> ustar_magic"
    by metis+
  moreover have "blk text_disc 1 = replicate 512 65" "blk text_disc 2 = replicate 512 0" "length ustar_magic = 5"
    by (simp_all add: text_disc_def ustar_magic_def blk_def)
  moreover from this(3) show "length text_disc = 1536" "0 \<in> set (blk text_disc 0)"
    by (simp_all add: text_disc_def blk_def)
  ultimately show "0 \<notin> set (blk text_disc 1)" "\<not> is_header text_disc 1" "\<not> is_header text_disc 2"
    by (simp_all add: is_header_def UstarData_ustar_def)
qed

theorem findFile_terminates_witness:
  "\<exists>it. UstarFilesystem_findFile (\<lambda>_. 0) [98] 0 0 text_fs = Some it \<and> 0 \<notin> set (blk text_disc 1) \<and>
    (m_ok it \<longrightarrow> tar_name text_disc (real_block (m_block it)) = [98])"
proof -
  have "0 \<in> set (blk text_disc b)" if "is_header text_disc b" for b
  proof -
    have "b = 0 \<or> b = 1 \<or> b = 2"
      using that by (auto simp: is_header_def text_blocks)
    then show ?thesis
      using that text_blocks by auto
  qed
  moreover have "unat (of_nat (512 * b) :: u32) = 512 * b" if "512 * b + 512 \<le> 1536" for b
    by (rule unat_of_nat_u32) (use that in simp)
  then have "on_disc (uf_ustar text_fs) text_disc" "text_disc \<noteq> []"
    using text_blocks(1) by (auto simp: on_disc_def text_fs_def sample_ustar_def sample_phys_def holds_disc_def)
  ultimately show ?thesis
    using text_blocks(3) findFile_terminates [of text_fs text_disc "\<lambda>_. 0" "[98]" 0] by blast
qed

text \<open>
  C19: \<^verbatim>\<open>UstarFilesystem\<close> over a well-formed archive refines a map from handles to positions in members.  \<^verbatim>\<open>open\<close> finds the
  first member with the given name; it fails with \<^verbatim>\<open>ENOENT\<close> if there is none and with \<^verbatim>\<open>EPERM\<close> if it is not a plain
  file, and otherwise adds a fresh handle at position 0.  \<^verbatim>\<open>close\<close> removes the handle, or fails with \<^verbatim>\<open>EBADF\<close>; a handle
  just opened can be closed, which restores the map.
\<close>

theorem ustar_open_close:
  assumes "uinv (uf_ustar fs) c this s M" "c \<noteq> []" "archive_at c 0 bs" "uroom s M"
  shows "(case find (\<lambda>x. tar_name c x = path) bs of
      None \<Rightarrow> UstarFilesystem_open junk this fs path flags s = Some (- 1, set_errno ENOENT s)
    | Some x \<Rightarrow>
        if tar_type c x \<noteq> TYPE_FILE then UstarFilesystem_open junk this fs path flags s = Some (- 1, set_errno EPERM s)
        else \<exists>h s'. UstarFilesystem_open junk this fs path flags s = Some (h, s') \<and> 2 < h \<and> M h = None \<and>
          uinv (uf_ustar fs) c this s' (M(h \<mapsto> (x, 0))) \<and> (\<exists>s''. UstarFilesystem_close h s' = Some (0, s'') \<and> uinv (uf_ustar fs) c this s'' M)) \<and>
    (\<exists>r s'. UstarFilesystem_close h s = Some (r, s') \<and> uinv (uf_ustar fs) c this s' (M(h := None)) \<and> (r = 0 \<longleftrightarrow> M h \<noteq> None) \<and>
      (M h = None \<longrightarrow> r = - 1 \<and> ft_errno (us_table s') = EBADF))"
proof -
  have inv: "uinv (uf_ustar fs) c this s M \<and> c \<noteq> [] \<and> archive_at c 0 bs"
    using assms by blast
  have cl: "\<exists>r s'. UstarFilesystem_close h s = Some (r, s') \<and> uinv (uf_ustar fs) c this s' (M(h := None)) \<and> (r = 0 \<longleftrightarrow> M h \<noteq> None) \<and>
      (M h = None \<longrightarrow> r = - 1 \<and> ft_errno (us_table s') = EBADF)"
    using uf.close_never_stuck [OF inv, of h] uf.close_bad [OF inv, of h] by fastforce
  have oc: "\<exists>s''. UstarFilesystem_close h s' = Some (0, s'') \<and> uinv (uf_ustar fs) c this s'' M"
    if "UstarFilesystem_open junk this fs path flags s = Some (h, s')" "2 < h" for h s'
    using uf.open_then_close [OF inv assms(4) that(1)] that(2) by auto
  show ?thesis
    using ustar_open [OF assms(1) refl assms(2-4), of junk path flags] cl oc
    by (auto split: option.splits if_splits)
qed

theorem ustar_open_close_witness:
  "\<exists>h s'. UstarFilesystem_open (\<lambda>_. 0) (Some 5) sample_fs [97] 0 sample_state = Some (h, s') \<and> 2 < h \<and>
     (\<exists>s''. UstarFilesystem_close h s' = Some (0, s''))"
proof -
  have "uinv (uf_ustar sample_fs) sample_disc (Some 5) sample_state Map.empty" "sample_disc \<noteq> []" "uroom sample_state Map.empty"
    using sample_uinv length_sample by (auto simp: sample_fs_def uroom_def sample_state_def Filesystem_table_def INT_MAX_def)
  from ustar_open_close [OF this(1,2) sample_archive this(3), THEN conjunct1, of "\<lambda>_. 0" "[97]" 0]
  show ?thesis
    by (auto simp: sample_member)
qed

text \<open>
  C20: \<^verbatim>\<open>read\<close> on an open handle delivers the next bytes of the member: as many as are asked for or as are left, which it
  stores from the start of the buffer, and the handle's position advances by that number; no other handle moves.
  On a handle that is not open it fails with \<^verbatim>\<open>ENOENT\<close>.
\<close>

theorem ustar_read:
  assumes "uinv u c this s M" "unat cnt \<le> length buf" "length buf < 2 ^ 31"
  shows "case M h of
      None \<Rightarrow> UstarFilesystem_read h buf cnt s = Some (- 1, buf, set_errno ENOENT s)
    | Some (b, i) \<Rightarrow> \<exists>n buf' s'. n = min (unat cnt) (length (tar_content c b) - i) \<and>
        UstarFilesystem_read h buf cnt s = Some (int n, buf', s') \<and>
        buf' = take n (drop i (tar_content c b)) @ drop n buf \<and> uinv u c this s' (M(h \<mapsto> (b, i + n)))"
proof (cases "M h")
  case None
  then show ?thesis
    using ustar_read_bad [OF assms(1)] by simp
next
  case (Some x)
  then obtain b i where bi: "M h = Some (b, i)" "x = (b, i)"
    by fastforce
  obtain it where it: "reading u c b i it"
    by (rule open_objects_open [OF uinvD(2) [OF assms(1)] bi(1)]) (simp add: reading_at_def)
  then have l: "length (tar_content c b) = tar_size c b" "i \<le> tar_size c b"
    by (auto simp: length_tar_content reading_def)
  obtain n buf' s' where n: "n = min (unat cnt) (tar_size c b - i)" "UstarFilesystem_read h buf cnt s = Some (int n, buf', s')"
    "buf_write 0 (take n (drop i (tar_content c b))) buf = Some buf'" "uinv u c this s' (M(h \<mapsto> (b, i + n)))"
    by (rule ustar_read_ok [OF assms(1) bi(1) assms(2,3)]) blast
  have "buf' = take n (drop i (tar_content c b)) @ drop n buf"
    using n(1,3) l by (auto simp: buf_write_def split: if_splits)
  then show ?thesis
    using bi n l by auto
qed

theorem ustar_read_witness:
  "\<exists>h s s'. UstarFilesystem_read h [0, 0, 0, 0] 4 s = Some (3, [104, 105, 33, 0], s')"
proof -
  have "uinv sample_ustar sample_disc nullptr sample_state Map.empty" "sample_disc \<noteq> []" "uroom sample_state Map.empty"
    using sample_uinv length_sample by (auto simp: uroom_def sample_state_def Filesystem_table_def INT_MAX_def)
  then obtain h s where "uinv sample_ustar sample_disc nullptr s [h \<mapsto> (0, 0)]"
    using ustar_open [OF _ _ _ sample_archive, of sample_ustar nullptr sample_state Map.empty sample_fs "\<lambda>_. 0" "[97]" 0]
    by (auto simp: sample_member sample_fs_def)
  from ustar_read [OF this, of 4 "[0, 0, 0, 0]" h]
  show ?thesis
    by (auto simp: sample_member)
qed

end
