(* ===== verification/Vfs_Mounts.thy ===== *)
theory Vfs_Mounts
  imports Dev_FS Ustar_FS
begin

text \<open>
  The virtual file system: registered file systems, mounts and the resolution of paths
  (\<^verbatim>\<open>src/fs/vfs.cpp\<close>, \<^verbatim>\<open>inc/fs/vfs.hh\<close>).

  A \<^verbatim>\<open>Filesystem\<close> object is a value of type \<open>filesystem\<close>, one constructor per class that the kernel mounts; its virtual
  methods dispatch on the constructor.  The two lists of class \<^verbatim>\<open>VFS\<close> are those of \<open>Linked_List\<close> and hold addresses of objects
  in the store \<open>vfs_objects\<close>.  \<open>vfs_is v fss ms\<close> says that \<open>fss\<close> are registered and \<open>ms\<close> mounted, in this order.
\<close>

section \<open>The data and the operations\<close>

datatype filesystem = DevFS_object devfs | Ustar_object ustar_fs

fun fs_type :: "filesystem \<Rightarrow> name" where
  "fs_type (DevFS_object f) = DevFS_type"
| "fs_type (Ustar_object f) = UstarFilesystem_type"

fun fs_mountpoint :: "filesystem \<Rightarrow> name" where
  "fs_mountpoint (DevFS_object f) = dv_mountpoint f"
| "fs_mountpoint (Ustar_object f) = uf_mountpoint f"

fun fs_mount :: "name \<Rightarrow> name \<Rightarrow> filesystem \<Rightarrow> filesystem" where
  "fs_mount mountpoint options (DevFS_object f) = DevFS_object (DevFS_mount mountpoint options)"
| "fs_mount mountpoint options (Ustar_object f) = Ustar_object (UstarFilesystem_mount mountpoint options f)"

record vfs =
  vfs_filesystems :: klist
  vfs_mounts :: klist
  vfs_objects :: "nat \<rightharpoonup> filesystem"
  vfs_fresh :: nat

definition VFS_new :: vfs where
  "VFS_new = \<lparr>vfs_filesystems = List_new, vfs_mounts = List_new, vfs_objects = Map.empty, vfs_fresh = 0\<rparr>"

text \<open>The object that \<^verbatim>\<open>new\<close> creates gets the next address.\<close>

definition new_filesystem :: "filesystem \<Rightarrow> vfs \<Rightarrow> nat \<times> vfs" where
  "new_filesystem f v = (vfs_fresh v, v\<lparr>vfs_objects := (vfs_objects v)(vfs_fresh v \<mapsto> f), vfs_fresh := Suc (vfs_fresh v)\<rparr>)"

definition VFS_register_filesystem :: "ptr \<Rightarrow> vfs \<Rightarrow> (bool \<times> vfs) option" where
  "VFS_register_filesystem ty v = do {
     l \<leftarrow> List_append ty (vfs_filesystems v);
     Some (True, v\<lparr>vfs_filesystems := l\<rparr>) }"

partial_function (option) find_fs_loop :: "vfs \<Rightarrow> name \<Rightarrow> ptr \<Rightarrow> ptr \<Rightarrow> ptr option" where
  "find_fs_loop v ty iter res =
     (case res of None \<Rightarrow> Some nullptr
      | Some a \<Rightarrow> do {
          f \<leftarrow> vfs_objects v a;
          (if fs_type f = ty then Some res
           else do {
             iter \<leftarrow> List_next (vfs_filesystems v) iter;
             (if iter = nullptr then Some nullptr
              else do {
                res \<leftarrow> List_item (vfs_filesystems v) iter;
                find_fs_loop v ty iter res }) }) })"

definition VFS_find_filesystem :: "name \<Rightarrow> vfs \<Rightarrow> ptr option" where
  "VFS_find_filesystem ty v =
     (let iter = List_begin (vfs_filesystems v) in
      if iter = nullptr then Some nullptr
      else do {
        res \<leftarrow> List_item (vfs_filesystems v) iter;
        find_fs_loop v ty iter res })"

text \<open>\<^verbatim>\<open>new\<close> inside \<^verbatim>\<open>fs->mount\<close> does not fail, so \<^verbatim>\<open>mount\<close> is never \<^verbatim>\<open>nullptr\<close>.\<close>

definition VFS_mount :: "name \<Rightarrow> name \<Rightarrow> name \<Rightarrow> vfs \<Rightarrow> (bool \<times> vfs) option" where
  "VFS_mount mountpoint ty options v = do {
     fs \<leftarrow> VFS_find_filesystem ty v;
     (case fs of None \<Rightarrow> Some (False, v)
      | Some a \<Rightarrow> do {
          f \<leftarrow> vfs_objects v a;
          let (m, v) = new_filesystem (fs_mount mountpoint options f) v;
          l \<leftarrow> List_append (Some m) (vfs_mounts v);
          Some (True, v\<lparr>vfs_mounts := l\<rparr>) }) }"

partial_function (option) handle_loop :: "vfs \<Rightarrow> int \<Rightarrow> file_table \<Rightarrow> ptr \<Rightarrow> ptr option" where
  "handle_loop v fd t iter =
     (if iter = nullptr then Some nullptr
      else do {
        tmp \<leftarrow> List_item (vfs_mounts v) iter;
        (if tmp = nullptr then do {
           iter \<leftarrow> List_next (vfs_mounts v) iter;
           handle_loop v fd t iter }
         else Filesystem_getFilesystem fd t) })"

definition VFS_accessHandle :: "int \<Rightarrow> vfs \<Rightarrow> file_table \<Rightarrow> ptr option" where
  "VFS_accessHandle fd v t = handle_loop v fd t (List_begin (vfs_mounts v))"

text \<open>\<^verbatim>\<open>String::startsWith\<close> and \<^verbatim>\<open>String::right\<close> on names.\<close>

definition starts_with :: "name \<Rightarrow> name \<Rightarrow> bool" where
  "starts_with s p \<longleftrightarrow> length p \<le> length s \<and> take (length p) s = p"

partial_function (option) access_loop :: "vfs \<Rightarrow> name \<Rightarrow> ptr \<Rightarrow> ptr option" where
  "access_loop v file iter =
     (if iter = nullptr then Some nullptr
      else do {
        tmp \<leftarrow> List_item (vfs_mounts v) iter;
        found \<leftarrow> (case tmp of None \<Rightarrow> Some False
           | Some a \<Rightarrow> do { f \<leftarrow> vfs_objects v a; Some (starts_with file (fs_mountpoint f)) });
        (if found then Some tmp
         else do {
           iter \<leftarrow> List_next (vfs_mounts v) iter;
           access_loop v file iter }) })"

definition VFS_access :: "name \<Rightarrow> vfs \<Rightarrow> ptr option" where
  "VFS_access file v = access_loop v file (List_begin (vfs_mounts v))"

text \<open>
  A \<^verbatim>\<open>String\<close> that \<^verbatim>\<open>right\<close> returns has no buffer when nothing is left: \<^verbatim>\<open>m_str\<close> is \<^verbatim>\<open>nullptr\<close>.  That is the value \<^term>\<open>None\<close> of the
  type \<open>opt_string\<close>; an empty string with a buffer is \<^term>\<open>Some []\<close>.
\<close>

type_synonym opt_string = "name option"

definition right_of :: "nat \<Rightarrow> name \<Rightarrow> opt_string" where
  "right_of index s = (if index < length s then Some (drop index s) else None)"

definition VFS_basedir :: "name \<Rightarrow> ptr \<Rightarrow> vfs \<Rightarrow> opt_string option" where
  "VFS_basedir file fs v =
     (case fs of None \<Rightarrow> Some (Some file)
      | Some a \<Rightarrow> do { f \<leftarrow> vfs_objects v a; Some (right_of (length (fs_mountpoint f) + 1) file) })"

text \<open>
  The loop.  \<^verbatim>\<open>res[0]\<close> of an empty string with a buffer is \<^verbatim>\<open>m_null\<close>, so that the loop ends.  When \<^verbatim>\<open>right(1)\<close> has nothing left,
  the assignment gives \<^verbatim>\<open>res\<close> a null buffer and keeps its length, which is not 0 (\<^verbatim>\<open>String::init\<close>): the next \<^verbatim>\<open>res[0]\<close>
  dereferences \<^verbatim>\<open>nullptr\<close>.
\<close>

fun stripslash_loop :: "name \<Rightarrow> name option" where
  "stripslash_loop [] = Some []"
| "stripslash_loop (c # cs) =
     (if c = SLASH then (case right_of 1 (c # cs) of None \<Rightarrow> None | Some _ \<Rightarrow> stripslash_loop cs) else Some (c # cs))"

text \<open>
  The copy \<^verbatim>\<open>String res = name\<close> of a \<^verbatim>\<open>String\<close> without a buffer has an indeterminate length, which \<^verbatim>\<open>res[0]\<close> reads.
\<close>

definition VFS_stripslash :: "opt_string \<Rightarrow> name option" where
  "VFS_stripslash n = Option.bind n stripslash_loop"

section \<open>Registered and mounted file systems\<close>

definition vfs_is :: "vfs \<Rightarrow> (nat \<times> filesystem) list \<Rightarrow> (nat \<times> filesystem) list \<Rightarrow> bool" where
  "vfs_is v fss ms \<longleftrightarrow> List_is (vfs_filesystems v) (map (Some \<circ> fst) fss) \<and> List_is (vfs_mounts v) (map (Some \<circ> fst) ms) \<and>
     (\<forall>x \<in> set fss \<union> set ms. vfs_objects v (fst x) = Some (snd x) \<and> fst x < vfs_fresh v)"

text \<open>A walk with \<^verbatim>\<open>begin\<close>, \<^verbatim>\<open>next\<close> and \<^verbatim>\<open>item\<close>: \<open>iter_seg l p vs\<close> says that from \<open>p\<close> it sees the items \<open>vs\<close>.\<close>

fun iter_seg :: "klist \<Rightarrow> ptr \<Rightarrow> ptr list \<Rightarrow> bool" where
  "iter_seg l p [] \<longleftrightarrow> p = nullptr"
| "iter_seg l p (v # vs) \<longleftrightarrow> p \<noteq> nullptr \<and> List_item l p = Some v \<and> (\<exists>q. List_next l p = Some q \<and> iter_seg l q vs)"

lemma lseg_iter: "lseg (nodes l) p xs nullptr \<Longrightarrow> iter_seg l p (map snd xs)"
proof (induction xs arbitrary: p)
  case (Cons x xs)
  obtain a v where x: "x = (a, v)"
    by fastforce
  then show ?case
    using Cons by (auto simp: List_item_def List_next_def get_ptr_def get_next_def lo_read_def)
qed simp

lemma List_is_iter: "List_is l vs \<Longrightarrow> iter_seg l (List_begin l) vs"
  using lseg_iter by (auto simp: List_is_def List_rep_def List_begin_def)

lemma find_fs_loop_eq:
  assumes "iter_seg (vfs_filesystems v) iter (map (Some \<circ> fst) xs)" "xs \<noteq> []" "\<forall>x \<in> set xs. vfs_objects v (fst x) = Some (snd x)"
  shows "find_fs_loop v ty iter (Some (fst (hd xs))) = Some (map_option fst (find (\<lambda>x. fs_type (snd x) = ty) xs))"
  using assms
proof (induction xs arbitrary: iter)
  case (Cons x xs)
  obtain q where q: "List_next (vfs_filesystems v) iter = Some q" "iter_seg (vfs_filesystems v) q (map (Some \<circ> fst) xs)"
    using Cons.prems(1) unfolding list.map iter_seg.simps by blast
  show ?case
  proof (cases xs)
    case Nil
    then show ?thesis
      using Cons.prems q by (subst find_fs_loop.simps) auto
  next
    case (Cons y ys)
    then have "find_fs_loop v ty q (Some (fst y)) = Some (map_option fst (find (\<lambda>x. fs_type (snd x) = ty) xs))"
      using Cons.IH [OF q(2)] Cons.prems(3) by simp
    then show ?thesis
      using Cons.prems q Cons by (subst find_fs_loop.simps) auto
  qed
qed simp

lemma find_filesystem_eq:
  assumes "vfs_is v fss ms"
  shows "VFS_find_filesystem ty v = Some (map_option fst (find (\<lambda>x. fs_type (snd x) = ty) fss))"
proof -
  have i: "iter_seg (vfs_filesystems v) (List_begin (vfs_filesystems v)) (map (Some \<circ> fst) fss)"
    using assms List_is_iter by (auto simp: vfs_is_def)
  show ?thesis
  proof (cases fss)
    case Nil
    then show ?thesis
      using i by (simp add: VFS_find_filesystem_def)
  next
    case (Cons x xs)
    then show ?thesis
      using i find_fs_loop_eq [OF i, of ty] assms by (auto simp: VFS_find_filesystem_def vfs_is_def)
  qed
qed

lemma access_loop_eq:
  assumes "iter_seg (vfs_mounts v) iter (map (Some \<circ> fst) xs)" "\<forall>x \<in> set xs. vfs_objects v (fst x) = Some (snd x)"
  shows "access_loop v file iter = Some (map_option fst (find (\<lambda>x. starts_with file (fs_mountpoint (snd x))) xs))"
  using assms
proof (induction xs arbitrary: iter)
  case Nil
  then show ?case
    by (subst access_loop.simps) simp
next
  case (Cons x xs)
  then show ?case
    by (subst access_loop.simps) auto
qed

lemma access_eq:
  "vfs_is v fss ms \<Longrightarrow> VFS_access file v = Some (map_option fst (find (\<lambda>x. starts_with file (fs_mountpoint (snd x))) ms))"
  using access_loop_eq [of v "List_begin (vfs_mounts v)" ms "file"] List_is_iter
  by (auto simp: VFS_access_def vfs_is_def)

lemma accessHandle_eq:
  assumes "vfs_is v fss ms"
  shows "VFS_accessHandle fd v t = (if ms = [] then Some nullptr else Filesystem_getFilesystem fd t)"
proof -
  have "iter_seg (vfs_mounts v) (List_begin (vfs_mounts v)) (map (Some \<circ> fst) ms)"
    using assms List_is_iter by (auto simp: vfs_is_def)
  then show ?thesis
    by (cases ms) (auto simp: VFS_accessHandle_def handle_loop.simps)
qed

text \<open>The loop skips the leading slashes; a string of slashes only, but not the empty one, leads to \<^verbatim>\<open>nullptr\<close>.\<close>

lemma stripslash_loop_eq:
  "stripslash_loop n = (if n \<noteq> [] \<and> dropWhile (\<lambda>c. c = SLASH) n = [] then None else Some (dropWhile (\<lambda>c. c = SLASH) n))"
proof (induction n)
  case (Cons c cs)
  then show ?case
    by (cases cs) (simp_all add: right_of_def)
qed simp

lemma basedir_stripslash:
  assumes "vfs_objects v a = Some f"
  shows "Option.bind (VFS_basedir (fs_mountpoint f @ rest) (Some a) v) VFS_stripslash =
    (case dropWhile (\<lambda>c. c = SLASH) (drop 1 rest) of [] \<Rightarrow> None | name \<Rightarrow> Some name)"
proof (cases "length rest \<le> 1")
  case True
  then show ?thesis
    using assms by (simp add: VFS_basedir_def right_of_def VFS_stripslash_def)
next
  case False
  then have r: "VFS_basedir (fs_mountpoint f @ rest) (Some a) v = Some (Some (drop 1 rest))" "drop 1 rest \<noteq> []"
    using assms by (simp_all add: VFS_basedir_def right_of_def)
  show ?thesis
    unfolding r(1) using r(2)
    by (cases "dropWhile (\<lambda>c. c = SLASH) (drop 1 rest)") (simp_all add: VFS_stripslash_def stripslash_loop_eq del: dropWhile_eq_Nil_conv)
qed

lemma mount_eq:
  assumes "vfs_is v fss ms"
  shows "case find (\<lambda>x. fs_type (snd x) = ty) fss of
      None \<Rightarrow> VFS_mount mp ty opts v = Some (False, v)
    | Some (a, f) \<Rightarrow> \<exists>v'. VFS_mount mp ty opts v = Some (True, v') \<and> vfs_is v' fss (ms @ [(vfs_fresh v, fs_mount mp opts f)])"
proof (cases "find (\<lambda>x. fs_type (snd x) = ty) fss")
  case None
  then show ?thesis
    using find_filesystem_eq [OF assms, of ty] by (simp add: VFS_mount_def)
next
  case (Some x)
  then have "x \<in> set fss"
    by (auto simp: find_Some_iff)
  then have o: "vfs_objects v (fst x) = Some (snd x)"
    using assms by (auto simp: vfs_is_def)
  obtain l where l: "List_append (Some (vfs_fresh v)) (vfs_mounts v) = Some l" "List_is l (map (Some \<circ> fst) ms @ [Some (vfs_fresh v)])"
    using List_is_append [of "vfs_mounts v" "map (Some \<circ> fst) ms" "Some (vfs_fresh v)"] assms by (auto simp: vfs_is_def)
  let ?f = "fs_mount mp opts (snd x)"
  let ?v = "v\<lparr>vfs_objects := (vfs_objects v)(vfs_fresh v \<mapsto> ?f), vfs_fresh := Suc (vfs_fresh v), vfs_mounts := l\<rparr>"
  have "VFS_mount mp ty opts v = Some (True, ?v)"
    using find_filesystem_eq [OF assms, of ty] Some o l(1) by (simp add: VFS_mount_def new_filesystem_def)
  moreover have "vfs_is ?v fss (ms @ [(vfs_fresh v, ?f)])"
  proof -
    have "vfs_objects ?v (fst y) = Some (snd y) \<and> fst y < vfs_fresh ?v" if "y \<in> set fss \<union> set ms" for y
    proof -
      have "vfs_objects v (fst y) = Some (snd y)" "fst y < vfs_fresh v"
        using assms that unfolding vfs_is_def by blast+
      then show ?thesis
        by simp
    qed
    then show ?thesis
      using assms l(2) unfolding vfs_is_def by auto
  qed
  ultimately show ?thesis
    using Some by (auto simp: case_prod_unfold)
qed

lemma register_eq:
  assumes "vfs_is v fss ms"
  shows "\<exists>v'. VFS_register_filesystem (Some (fst (new_filesystem f v))) (snd (new_filesystem f v)) = Some (True, v') \<and>
    vfs_is v' (fss @ [(vfs_fresh v, f)]) ms"
proof -
  obtain l where l: "List_append (Some (vfs_fresh v)) (vfs_filesystems v) = Some l" "List_is l (map (Some \<circ> fst) fss @ [Some (vfs_fresh v)])"
    using List_is_append [of "vfs_filesystems v" "map (Some \<circ> fst) fss" "Some (vfs_fresh v)"] assms by (auto simp: vfs_is_def)
  let ?v = "v\<lparr>vfs_objects := (vfs_objects v)(vfs_fresh v \<mapsto> f), vfs_fresh := Suc (vfs_fresh v), vfs_filesystems := l\<rparr>"
  have "vfs_objects ?v (fst y) = Some (snd y) \<and> fst y < vfs_fresh ?v" if "y \<in> set fss \<union> set ms" for y
  proof -
    have "vfs_objects v (fst y) = Some (snd y)" "fst y < vfs_fresh v"
      using assms that unfolding vfs_is_def by blast+
    then show ?thesis
      by simp
  qed
  then have "vfs_is ?v (fss @ [(vfs_fresh v, f)]) ms"
    using assms l(2) unfolding vfs_is_def by auto
  then show ?thesis
    using l(1) by (simp add: VFS_register_filesystem_def new_filesystem_def)
qed

lemma vfs_is_new: "vfs_is VFS_new [] []"
  using List_is_new by (simp add: vfs_is_def VFS_new_def)

section \<open>Properties\<close>

text \<open>
  C23: The virtual file system keeps its mounts in order and resolves a path to the first whose mount point the path starts with.
  \<^verbatim>\<open>register_filesystem\<close> and \<^verbatim>\<open>mount\<close> append; \<^verbatim>\<open>mount\<close> fails if no registered file system has the type.  For the path
  \<open>mp/rest\<close> under mount point \<open>mp\<close> the name passed on is \<open>rest\<close> without leading slashes; but the character after the mount point
  is dropped whatever it is, so that \<open>mpXrest\<close> names the same file, and if nothing but slashes is left, as for \<open>mp\<close> itself and
  \<open>mp/\<close>, there is no defined result: \<^verbatim>\<open>stripslash\<close> reads a string without a buffer.
\<close>

theorem VFS_resolves:
  assumes "vfs_is v fss ms"
  shows "(\<exists>v'. VFS_register_filesystem (Some (fst (new_filesystem f v))) (snd (new_filesystem f v)) = Some (True, v') \<and>
      vfs_is v' (fss @ [(vfs_fresh v, f)]) ms) \<and>
    (case find (\<lambda>x. fs_type (snd x) = ty) fss of
      None \<Rightarrow> VFS_mount mp ty opts v = Some (False, v)
    | Some (a, f) \<Rightarrow> \<exists>v'. VFS_mount mp ty opts v = Some (True, v') \<and> vfs_is v' fss (ms @ [(vfs_fresh v, fs_mount mp opts f)])) \<and>
    VFS_access path v = Some (map_option fst (find (\<lambda>x. starts_with path (fs_mountpoint (snd x))) ms)) \<and>
    VFS_accessHandle fd v t = (if ms = [] then Some nullptr else Filesystem_getFilesystem fd t) \<and>
    (\<forall>x \<in> set ms. Option.bind (VFS_basedir (fs_mountpoint (snd x) @ rest) (Some (fst x)) v) VFS_stripslash =
      (case dropWhile (\<lambda>c. c = SLASH) (drop 1 rest) of [] \<Rightarrow> None | name \<Rightarrow> Some name))"
proof -
  have "\<forall>x \<in> set ms. Option.bind (VFS_basedir (fs_mountpoint (snd x) @ rest) (Some (fst x)) v) VFS_stripslash =
      (case dropWhile (\<lambda>c. c = SLASH) (drop 1 rest) of [] \<Rightarrow> None | name \<Rightarrow> Some name)"
    using assms basedir_stripslash unfolding vfs_is_def by blast
  then show ?thesis
    using register_eq [OF assms] mount_eq [OF assms] access_eq [OF assms] accessHandle_eq [OF assms] by blast
qed

text \<open>The mounts of a kernel with a tar disc: \<^verbatim>\<open>/dev\<close> and \<^verbatim>\<open>/ustar\<close>.\<close>

definition slash_dev :: name where
  "slash_dev = [47, 100, 101, 118]"

definition slash_ustar :: name where
  "slash_ustar = [47, 117, 115, 116, 97, 114]"

theorem VFS_resolves_witness:
  "\<exists>v v'. VFS_register_filesystem (Some 0) (snd (new_filesystem (DevFS_object DevFS_new) VFS_new)) = Some (True, v) \<and>
     VFS_mount slash_dev DevFS_type [] v = Some (True, v') \<and>
     VFS_access (slash_dev @ [47, 110]) v' = Some (Some 1) \<and>
     Option.bind (VFS_basedir (slash_dev @ [47, 110]) (Some 1) v') VFS_stripslash = Some [110] \<and>
     Option.bind (VFS_basedir (slash_dev @ [47]) (Some 1) v') VFS_stripslash = None"
proof -
  obtain v where v: "VFS_register_filesystem (Some 0) (snd (new_filesystem (DevFS_object DevFS_new) VFS_new)) = Some (True, v)"
    "vfs_is v [(0, DevFS_object DevFS_new)] []" "vfs_fresh v = 1"
    using VFS_resolves [OF vfs_is_new, THEN conjunct1, of "DevFS_object DevFS_new"]
    by (auto simp: new_filesystem_def VFS_new_def VFS_register_filesystem_def)
  obtain v' where v': "VFS_mount slash_dev DevFS_type [] v = Some (True, v')"
    "vfs_is v' [(0, DevFS_object DevFS_new)] [(1, DevFS_object (DevFS_mount slash_dev []))]"
    using VFS_resolves [OF v(2), THEN conjunct2, THEN conjunct1, of slash_dev DevFS_type "[]"] v(3) by auto
  have m: "dv_mountpoint (DevFS_mount slash_dev []) = slash_dev"
    by (simp add: DevFS_mount_def)
  have "VFS_access (slash_dev @ [47, 110]) v' = Some (Some 1)"
    using VFS_resolves [OF v'(2), THEN conjunct2, THEN conjunct2, THEN conjunct1] m by (simp add: starts_with_def)
  moreover have "Option.bind (VFS_basedir (slash_dev @ rest) (Some 1) v') VFS_stripslash =
      (case dropWhile (\<lambda>c. c = SLASH) (drop 1 rest) of [] \<Rightarrow> None | name \<Rightarrow> Some name)" for rest
    using VFS_resolves [OF v'(2), THEN conjunct2, THEN conjunct2, THEN conjunct2, THEN conjunct2] m by simp
  ultimately show ?thesis
    using v(1) v'(1) by (intro exI [of _ v] exI [of _ v']) (simp add: SLASH_def)
qed

end
