(* ===== verification/Syscall_File.thy ===== *)
theory Syscall_File
  imports Vfs_Mounts
begin

text \<open>
  The file system calls (\<^verbatim>\<open>libc/syscall_fileio.cpp\<close>): they join the virtual file system, the file systems, the table of open
  files, the console and the keyboard.

  \<open>sys\<close> is the part of the kernel state that the calls touch: the mounts, the open files with the iterators, the state of the random
  number generator, the characters sent to the screen and the keys to come.  The keyboard is the list of the answers that
  \<^verbatim>\<open>getKey\<close> will give, \<^term>\<open>None\<close> when no key has been pressed; a call that waits for a key when the list is used up does not
  return.  The results are those of the calls, negative error numbers included.
\<close>

section \<open>The state and the methods of the file systems\<close>

record sys =
  sys_vfs :: vfs
  sys_files :: ustar_state
  sys_seed :: u32
  sys_out :: "u8 list"
  sys_keys :: "u8 list option list"

definition EINVAL :: int where "EINVAL = 22"
definition ENAMETOOLONG :: int where "ENAMETOOLONG = 36"
definition F_GETFD :: int where "F_GETFD = 1"
definition F_SETFD :: int where "F_SETFD = 2"
definition NEWLINE :: u8 where "NEWLINE = 10"

text \<open>What a call of a virtual method does, given the object.\<close>

definition on_table :: "(file_table \<Rightarrow> (int \<times> file_table) option) \<Rightarrow> ustar_state \<Rightarrow> (int \<times> ustar_state) option" where
  "on_table f s = do { (r, t) \<leftarrow> f (us_table s); Some (r, s\<lparr>us_table := t\<rparr>) }"

fun fs_open :: "(nat \<Rightarrow> u8) \<Rightarrow> nat \<Rightarrow> filesystem \<Rightarrow> name \<Rightarrow> u32 \<Rightarrow> ustar_state \<Rightarrow> (int \<times> ustar_state) option" where
  "fs_open junk a (DevFS_object f) path flags s = on_table (DevFS_open (Some a) path flags) s"
| "fs_open junk a (Ustar_object f) path flags s = UstarFilesystem_open junk (Some a) f path (uint flags) s"

fun fs_close :: "filesystem \<Rightarrow> int \<Rightarrow> ustar_state \<Rightarrow> (int \<times> ustar_state) option" where
  "fs_close (DevFS_object f) fd s = on_table (DevFS_close fd) s"
| "fs_close (Ustar_object f) fd s = UstarFilesystem_close fd s"

fun fs_read :: "(u32 \<Rightarrow> u32 \<times> u32) \<Rightarrow> filesystem \<Rightarrow> int \<Rightarrow> u8 list \<Rightarrow> u32 \<Rightarrow> u32 \<Rightarrow> ustar_state \<Rightarrow> (int \<times> u8 list \<times> u32 \<times> ustar_state) option" where
  "fs_read gen (DevFS_object f) fd buf cnt r s = do {
     (n, buf, r, t) \<leftarrow> DevFS_read gen fd buf cnt r (us_table s);
     Some (n, buf, r, s\<lparr>us_table := t\<rparr>) }"
| "fs_read gen (Ustar_object f) fd buf cnt r s = do {
     (n, buf, s) \<leftarrow> UstarFilesystem_read fd buf cnt s;
     Some (n, buf, r, s) }"

fun fs_write :: "filesystem \<Rightarrow> int \<Rightarrow> u8 list \<Rightarrow> u32 \<Rightarrow> ustar_state \<Rightarrow> (int \<times> ustar_state) option" where
  "fs_write (DevFS_object f) fd buf cnt s = on_table (\<lambda>t. Some (DevFS_write fd buf cnt t)) s"
| "fs_write (Ustar_object f) fd buf cnt s = Some (UstarFilesystem_write fd buf cnt s)"

section \<open>The system calls\<close>

definition access_handle :: "int \<Rightarrow> sys \<Rightarrow> ptr option" where
  "access_handle fd k = VFS_accessHandle fd (sys_vfs k) (us_table (sys_files k))"

definition syscall_open :: "(nat \<Rightarrow> u8) \<Rightarrow> name option \<Rightarrow> u32 \<Rightarrow> sys \<Rightarrow> (int \<times> sys) option" where
  "syscall_open junk name flags k =
     (case name of None \<Rightarrow> Some (- ENOENT, k)
      | Some name \<Rightarrow> do {
          fs \<leftarrow> VFS_access name (sys_vfs k);
          (case fs of None \<Rightarrow> Some (- ENOENT, k)
           | Some a \<Rightarrow> do {
               f \<leftarrow> vfs_objects (sys_vfs k) a;
               dir \<leftarrow> VFS_basedir name fs (sys_vfs k);
               base \<leftarrow> VFS_stripslash dir;
               (res, s) \<leftarrow> fs_open junk a f base flags (sys_files k);
               Some (res, k\<lparr>sys_files := s\<rparr>) }) })"

text \<open>
  Reading the keyboard.  A key is the string of characters that \<^verbatim>\<open>getKey\<close> returns.  The length is compared with the whole size
  of the buffer, not with what is left of it.
\<close>

definition first_char :: "u8 list \<Rightarrow> u8" where
  "first_char s = (case s of [] \<Rightarrow> 0 | c # _ \<Rightarrow> c)"

fun stdin_loop :: "u32 \<Rightarrow> u32 \<Rightarrow> u8 list \<Rightarrow> u8 list option list \<Rightarrow> (u32 \<times> u8 list \<times> u8 list option list) option" where
  "stdin_loop cnt c buf keys =
     (if c < cnt then
        (case keys of
           [] \<Rightarrow> None
         | None # ks \<Rightarrow> stdin_loop cnt c buf ks
         | Some tmp # ks \<Rightarrow>
             let l = of_nat (length tmp) :: u32; l = (if l > cnt then cnt else l) in
             (case buf_write (unat c) (take (unat l) tmp) buf of
                None \<Rightarrow> None
              | Some buf \<Rightarrow>
                  if first_char tmp = NEWLINE then Some (c + l, buf, ks)
                  else stdin_loop cnt (c + l) buf ks))
      else Some (c, buf, keys))"

declare stdin_loop.simps [simp del]

definition syscall_read :: "(u32 \<Rightarrow> u32 \<times> u32) \<Rightarrow> int \<Rightarrow> u8 list \<Rightarrow> u32 \<Rightarrow> sys \<Rightarrow> (int \<times> u8 list \<times> sys) option" where
  "syscall_read gen fd buf cnt k =
     (if fd = 0 then do {
        (c, buf, keys) \<leftarrow> stdin_loop cnt 0 buf (sys_keys k);
        Some (sint c, buf, k\<lparr>sys_keys := keys\<rparr>) }
      else do {
        fs \<leftarrow> access_handle fd k;
        (case fs of None \<Rightarrow> Some (- EPERM, buf, k)
         | Some a \<Rightarrow> do {
             f \<leftarrow> vfs_objects (sys_vfs k) a;
             (n, buf, r, s) \<leftarrow> fs_read gen f fd buf cnt (sys_seed k) (sys_files k);
             Some (n, buf, k\<lparr>sys_seed := r, sys_files := s\<rparr>) }) })"

definition syscall_write :: "int \<Rightarrow> u8 list \<Rightarrow> u32 \<Rightarrow> sys \<Rightarrow> (int \<times> sys) option" where
  "syscall_write fd buf cnt k =
     (if fd = 1 \<or> fd = 2 then do {
        bs \<leftarrow> buf_read 0 (unat cnt) buf;
        Some (sint cnt, k\<lparr>sys_out := sys_out k @ bs\<rparr>) }
      else do {
        fs \<leftarrow> access_handle fd k;
        (case fs of None \<Rightarrow> Some (- EPERM, k)
         | Some a \<Rightarrow> do {
             f \<leftarrow> vfs_objects (sys_vfs k) a;
             (r, s) \<leftarrow> fs_write f fd buf cnt (sys_files k);
             Some (r, k\<lparr>sys_files := s\<rparr>) }) })"

definition syscall_close :: "int \<Rightarrow> sys \<Rightarrow> (int \<times> sys) option" where
  "syscall_close fd k = do {
     fs \<leftarrow> access_handle fd k;
     (case fs of None \<Rightarrow> Some (- EPERM, k)
      | Some a \<Rightarrow> do {
          f \<leftarrow> vfs_objects (sys_vfs k) a;
          (r, s) \<leftarrow> fs_close f fd (sys_files k);
          Some (r, k\<lparr>sys_files := s\<rparr>) }) }"

definition syscall_fcntl :: "int \<Rightarrow> int \<Rightarrow> int \<Rightarrow> sys \<Rightarrow> (int \<times> sys) option" where
  "syscall_fcntl fd cmd arg k = do {
     fs \<leftarrow> access_handle fd k;
     (case fs of None \<Rightarrow> Some (- EPERM, k)
      | Some a \<Rightarrow>
          if cmd = F_SETFD then do {
            (r, s) \<leftarrow> on_table (Filesystem_setFcntl fd arg) (sys_files k);
            Some (r, k\<lparr>sys_files := s\<rparr>) }
          else if cmd = F_GETFD then do {
            (r, s) \<leftarrow> on_table (Filesystem_getFcntl fd) (sys_files k);
            Some (r, k\<lparr>sys_files := s\<rparr>) }
          else Some (- ENOENT, k)) }"

definition syscall_llseek :: "int \<Rightarrow> int \<Rightarrow> int \<Rightarrow> int \<Rightarrow> int" where
  "syscall_llseek fd high low orig = - EPERM"

text \<open>Vectors of buffers: each with the length that \<^verbatim>\<open>iov_len\<close> gives.\<close>

type_synonym iovec = "u8 list \<times> u32"

fun writev_loop :: "iovec list \<Rightarrow> u32 \<Rightarrow> u8 list \<Rightarrow> (int \<times> u8 list) option" where
  "writev_loop [] cnt out = Some (sint cnt, out)"
| "writev_loop ((base, len) # iov) cnt out =
     (if sint len < 0 then Some (- EINVAL, out)
      else (case buf_read 0 (unat len) base of
          None \<Rightarrow> None
        | Some bs \<Rightarrow> writev_loop iov (cnt + len) (out @ bs)))"

definition syscall_writev :: "int \<Rightarrow> iovec list \<Rightarrow> sys \<Rightarrow> (int \<times> sys) option" where
  "syscall_writev fd iov k =
     (if fd = 1 \<or> fd = 2 then do {
        (r, out) \<leftarrow> writev_loop iov 0 (sys_out k);
        Some (r, k\<lparr>sys_out := out\<rparr>) }
      else Some (- EINVAL, k))"

text \<open>\<^verbatim>\<open>readv\<close> on a file: the result of \<^verbatim>\<open>read\<close> is taken as unsigned, so that an error adds \<open>2 ^ 32 - 1\<close> to the count.\<close>

partial_function (option) readv_fill ::
  "(u32 \<Rightarrow> u32 \<times> u32) \<Rightarrow> filesystem \<Rightarrow> int \<Rightarrow> u32 \<Rightarrow> u32 \<Rightarrow> u8 list \<Rightarrow> u32 \<Rightarrow> ustar_state \<Rightarrow> (u32 \<times> u8 list \<times> u32 \<times> ustar_state) option" where
  "readv_fill gen f fd len got buf r s =
     (if got < len then do {
        (n, rest, r, s) \<leftarrow> fs_read gen f fd (drop (unat got) buf) (len - got) r s;
        let buf = take (unat got) buf @ rest;
        let rcnt = (word_of_int n :: u32);
        (if rcnt = 0 then Some (got, buf, r, s)
         else readv_fill gen f fd len (got + rcnt) buf r s) }
      else Some (got, buf, r, s))"

partial_function (option) readv_loop ::
  "(u32 \<Rightarrow> u32 \<times> u32) \<Rightarrow> filesystem \<Rightarrow> int \<Rightarrow> iovec list \<Rightarrow> u32 \<Rightarrow> u8 list list \<Rightarrow> sys \<Rightarrow> (int \<times> u8 list list \<times> sys) option" where
  "readv_loop gen f fd iov cnt done k =
     (case iov of
        [] \<Rightarrow> Some (sint cnt, done, k)
      | (base, len) # iov \<Rightarrow>
          if sint len < 0 then Some (- EINVAL, done @ base # map fst iov, k)
          else do {
            (got, base, r, s) \<leftarrow> readv_fill gen f fd len 0 base (sys_seed k) (sys_files k);
            readv_loop gen f fd iov (cnt + got) (done @ [base]) (k\<lparr>sys_seed := r, sys_files := s\<rparr>) })"

text \<open>\<^verbatim>\<open>readv\<close> on the keyboard: a key is copied whole, whatever room the buffer has left.\<close>

fun readv_keys :: "u32 \<Rightarrow> u32 \<Rightarrow> u8 list \<Rightarrow> u8 list option list \<Rightarrow> (u32 \<times> u8 list \<times> u8 list option list) option" where
  "readv_keys len got buf keys =
     (if got < len then
        (case keys of
           [] \<Rightarrow> None
         | None # ks \<Rightarrow> readv_keys len got buf ks
         | Some tmp # ks \<Rightarrow>
             if first_char tmp = NEWLINE then Some (got, buf, ks)
             else (case buf_write (unat got) tmp buf of
                None \<Rightarrow> None
              | Some buf \<Rightarrow> readv_keys len (got + of_nat (length tmp)) buf ks))
      else Some (got, buf, keys))"

declare readv_keys.simps [simp del]

fun readv_keys_loop :: "iovec list \<Rightarrow> u32 \<Rightarrow> u8 list list \<Rightarrow> u8 list option list \<Rightarrow> (int \<times> u8 list list \<times> u8 list option list) option" where
  "readv_keys_loop [] cnt done keys = Some (sint cnt, done, keys)"
| "readv_keys_loop ((base, len) # iov) cnt done keys =
     (if sint len < 0 then Some (- EINVAL, done @ base # map fst iov, keys)
      else (case readv_keys len 0 base keys of
          None \<Rightarrow> None
        | Some (got, base, keys) \<Rightarrow> readv_keys_loop iov (cnt + got) (done @ [base]) keys))"

definition syscall_readv :: "(u32 \<Rightarrow> u32 \<times> u32) \<Rightarrow> int \<Rightarrow> iovec list \<Rightarrow> sys \<Rightarrow> (int \<times> u8 list list \<times> sys) option" where
  "syscall_readv gen fd iov k =
     (if fd = 1 \<or> fd = 2 then Some (- EPERM, map fst iov, k)
      else if fd = 0 then do {
        (r, bufs, keys) \<leftarrow> readv_keys_loop iov 0 [] (sys_keys k);
        Some (r, bufs, k\<lparr>sys_keys := keys\<rparr>) }
      else do {
        fs \<leftarrow> access_handle fd k;
        (case fs of None \<Rightarrow> Some (- EPERM, map fst iov, k)
         | Some a \<Rightarrow> do {
             f \<leftarrow> vfs_objects (sys_vfs k) a;
             readv_loop gen f fd iov 0 [] k }) })"

fun readlink_loop :: "name \<Rightarrow> nat \<Rightarrow> u32 \<Rightarrow> u32 \<Rightarrow> u8 list \<Rightarrow> (u32 \<times> u8 list) option" where
  "readlink_loop [] i cnt bufsize buf = Some (cnt, buf)"
| "readlink_loop (c # cs) i cnt bufsize buf =
     (if cnt < bufsize then
        (if i < length buf then readlink_loop cs (Suc i) (cnt + 1) bufsize (buf[i := c]) else None)
      else Some (cnt, buf))"

definition syscall_readlink :: "name option \<Rightarrow> u8 list \<Rightarrow> u32 \<Rightarrow> (int \<times> u8 list) option" where
  "syscall_readlink pathname buf bufsize =
     (case pathname of None \<Rightarrow> Some (- ENOENT, buf)
      | Some p \<Rightarrow> if p = [] then Some (- ENOENT, buf)
          else do { (cnt, buf) \<leftarrow> readlink_loop p 0 0 bufsize buf; Some (sint cnt, buf) })"

definition syscall_getcwd :: "u8 list option \<Rightarrow> u32 \<Rightarrow> (int \<times> u8 list option) option" where
  "syscall_getcwd buf sz =
     (case buf of None \<Rightarrow> Some (- EINVAL, buf)
      | Some b \<Rightarrow>
          if sz = 0 then Some (- EINVAL, buf)
          else if sz < 2 then Some (- ENAMETOOLONG, buf)
          else do { b \<leftarrow> buf_write 0 [SLASH, 0] b; Some (0, Some b) })"

section \<open>A session on a file\<close>

text \<open>\<open>serving k ms a fs c M\<close>: of the mounts \<open>ms\<close>, the tar file system \<open>fs\<close> at address \<open>a\<close> holds disc \<open>c\<close>, and its open files are \<open>M\<close>.\<close>

definition serving :: "sys \<Rightarrow> (nat \<times> filesystem) list \<Rightarrow> nat \<Rightarrow> ustar_fs \<Rightarrow> u8 list \<Rightarrow> (int \<rightharpoonup> nat \<times> nat) \<Rightarrow> bool" where
  "serving k ms a fs c M \<longleftrightarrow> (\<exists>fss. vfs_is (sys_vfs k) fss ms) \<and> (a, Ustar_object fs) \<in> set ms \<and>
     uinv (uf_ustar fs) c (Some a) (sys_files k) M"

lemma serving_object:
  assumes "serving k ms a fs c M"
  shows "vfs_objects (sys_vfs k) a = Some (Ustar_object fs)"
  using assms unfolding serving_def vfs_is_def by force

lemma serving_handle:
  assumes "serving k ms a fs c M"
  shows "access_handle fd k = Some (if M fd = None then nullptr else Some a)"
proof -
  obtain fss where "vfs_is (sys_vfs k) fss ms" "ms \<noteq> []" "uinv (uf_ustar fs) c (Some a) (sys_files k) M"
    using assms unfolding serving_def by force
  then show ?thesis
    using accessHandle_eq uinv_owner by (simp add: access_handle_def)
qed

lemma serving_upd: "serving k ms a fs c M \<Longrightarrow> uinv (uf_ustar fs) c (Some a) s M' \<Longrightarrow> serving (k\<lparr>sys_files := s\<rparr>) ms a fs c M'"
  by (simp add: serving_def)

lemma syscall_open_dispatch:
  assumes "vfs_is (sys_vfs k) fss ms"
    "find (\<lambda>x. starts_with (fs_mountpoint f @ SLASH # nm) (fs_mountpoint (snd x))) ms = Some (a, f)"
    "dropWhile (\<lambda>c. c = SLASH) nm \<noteq> []"
  shows "syscall_open junk (Some (fs_mountpoint f @ SLASH # nm)) flags k =
    do { (res, s) \<leftarrow> fs_open junk a f (dropWhile (\<lambda>c. c = SLASH) nm) flags (sys_files k); Some (res, k\<lparr>sys_files := s\<rparr>) }"
proof -
  have "(a, f) \<in> set ms"
    using assms(2) by (auto simp: find_Some_iff)
  then have "vfs_objects (sys_vfs k) a = Some f"
    using assms(1) unfolding vfs_is_def by force
  then have "vfs_objects (sys_vfs k) a = Some f"
      "Option.bind (VFS_basedir (fs_mountpoint f @ SLASH # nm) (Some a) (sys_vfs k)) VFS_stripslash = Some (dropWhile (\<lambda>c. c = SLASH) nm)"
    using basedir_stripslash [of "sys_vfs k" a f "SLASH # nm"] assms(3)
    by (simp_all del: dropWhile_eq_Nil_conv split: list.splits)
  then show ?thesis
    using access_eq [OF assms(1), of "fs_mountpoint f @ SLASH # nm"] assms(2)
    by (cases "VFS_basedir (fs_mountpoint f @ SLASH # nm) (Some a) (sys_vfs k)") (simp_all add: syscall_open_def)
qed

lemma serving_open:
  assumes "serving k ms a fs c M" "uroom (sys_files k) M" "c \<noteq> []" "archive_at c 0 bs"
    "find (\<lambda>x. starts_with (uf_mountpoint fs @ SLASH # nm) (fs_mountpoint (snd x))) ms = Some (a, Ustar_object fs)"
    "nm \<noteq> []" "hd nm \<noteq> SLASH" "find (\<lambda>x. tar_name c x = nm) bs = Some x" "tar_type c x = TYPE_FILE"
  obtains h k1 where "syscall_open junk (Some (uf_mountpoint fs @ SLASH # nm)) flags k = Some (h, k1)" "2 < h" "M h = None"
    "serving k1 ms a fs c (M(h \<mapsto> (x, 0)))" "sys_vfs k1 = sys_vfs k"
proof -
  obtain fss where v: "vfs_is (sys_vfs k) fss ms" and u: "uinv (uf_ustar fs) c (Some a) (sys_files k) M"
    using assms(1) by (auto simp: serving_def)
  have "dropWhile (\<lambda>c. c = SLASH) nm = nm"
    using assms(6,7) by (cases nm) auto
  moreover obtain h s1 where "UstarFilesystem_open junk (Some a) fs nm (uint flags) (sys_files k) = Some (h, s1)" "2 < h" "M h = None"
    "uinv (uf_ustar fs) c (Some a) s1 (M(h \<mapsto> (x, 0)))"
    using ustar_open [OF u refl assms(3,4,2), of junk nm "uint flags"] assms(8,9) by auto
  ultimately show ?thesis
    using syscall_open_dispatch [OF v, of "Ustar_object fs" nm a junk flags] assms(1,5,6) serving_upd
    by (intro that [of h "k\<lparr>sys_files := s1\<rparr>"]) auto
qed

lemma serving_read:
  assumes "serving k ms a fs c M" "M h = Some (b, i)" "2 < h" "unat cnt \<le> length buf" "length buf < 2 ^ 31"
  obtains n k1 where "n = min (unat cnt) (length (tar_content c b) - i)"
    "syscall_read gen h buf cnt k = Some (int n, take n (drop i (tar_content c b)) @ drop n buf, k1)"
    "serving k1 ms a fs c (M(h \<mapsto> (b, i + n)))" "sys_vfs k1 = sys_vfs k"
proof -
  have u: "uinv (uf_ustar fs) c (Some a) (sys_files k) M"
    using assms(1) by (simp add: serving_def)
  obtain it where it: "reading (uf_ustar fs) c b i it"
    by (rule open_objects_open [OF uinvD(2) [OF u] assms(2)]) (simp add: reading_at_def)
  then have l: "length (tar_content c b) = tar_size c b" "i \<le> tar_size c b"
    by (auto simp: length_tar_content reading_def)
  obtain n buf' s where r: "n = min (unat cnt) (tar_size c b - i)" "UstarFilesystem_read h buf cnt (sys_files k) = Some (int n, buf', s)"
    "buf_write 0 (take n (drop i (tar_content c b))) buf = Some buf'" "uinv (uf_ustar fs) c (Some a) s (M(h \<mapsto> (b, i + n)))"
    by (rule ustar_read_ok [OF u assms(2,4,5)]) blast
  have "buf' = take n (drop i (tar_content c b)) @ drop n buf"
    using r(1,3) l by (auto simp: buf_write_def split: if_splits)
  moreover have "syscall_read gen h buf cnt k = Some (int n, buf', k\<lparr>sys_files := s\<rparr>)"
    using serving_handle [OF assms(1), of h] serving_object [OF assms(1)] r(2) assms(2,3) by (simp add: syscall_read_def)
  ultimately show ?thesis
    using r(1,4) l serving_upd [OF assms(1)] by (intro that [of n "k\<lparr>sys_files := s\<rparr>"]) simp_all
qed

lemma serving_close:
  assumes "serving k ms a fs c M" "M h = Some d"
  obtains k1 where "syscall_close h k = Some (0, k1)" "serving k1 ms a fs c (M(h := None))" "sys_vfs k1 = sys_vfs k"
proof -
  have u: "uinv (uf_ustar fs) c (Some a) (sys_files k) M"
    using assms(1) by (simp add: serving_def)
  obtain s where s: "UstarFilesystem_close h (sys_files k) = Some (0, s)" "uinv (uf_ustar fs) c (Some a) s (M(h := None))"
    using ustar_close_ok [OF u assms(2)] by blast
  then show ?thesis
    using serving_handle [OF assms(1), of h] serving_object [OF assms(1)] serving_upd [OF assms(1)] assms(2)
    by (intro that [of "k\<lparr>sys_files := s\<rparr>"]) (simp_all add: syscall_close_def)
qed

lemma serving_bad_handle:
  assumes "serving k ms a fs c M" "M fd = None"
  shows "fd \<noteq> 0 \<Longrightarrow> syscall_read gen fd buf cnt k = Some (- EPERM, buf, k)"
    "fd \<noteq> 1 \<Longrightarrow> fd \<noteq> 2 \<Longrightarrow> syscall_write fd buf cnt k = Some (- EPERM, k)"
    "syscall_close fd k = Some (- EPERM, k)" "syscall_fcntl fd cmd arg k = Some (- EPERM, k)"
    "fd \<notin> {0, 1, 2} \<Longrightarrow> syscall_readv gen fd iov k = Some (- EPERM, map fst iov, k)"
  using serving_handle [OF assms(1), of fd] assms(2)
  by (simp_all add: syscall_read_def syscall_write_def syscall_close_def syscall_fcntl_def syscall_readv_def)

section \<open>Properties\<close>

text \<open>
  C24: A session on a file of a mounted tar disc.  The path is the mount point, a slash and the name of a member: \<^verbatim>\<open>open\<close> returns a
  handle; \<^verbatim>\<open>read\<close> delivers the beginning of the member's content and a second \<^verbatim>\<open>read\<close> what follows; \<^verbatim>\<open>close\<close> succeeds and leaves the open
  files as they were, and a read from the closed handle fails with \<^verbatim>\<open>EPERM\<close>.
\<close>

theorem syscall_session:
  assumes "serving k ms a fs c M" "uroom (sys_files k) M" "c \<noteq> []" "archive_at c 0 bs"
    "find (\<lambda>x. starts_with (uf_mountpoint fs @ SLASH # nm) (fs_mountpoint (snd x))) ms = Some (a, Ustar_object fs)"
    "nm \<noteq> []" "hd nm \<noteq> SLASH" "find (\<lambda>x. tar_name c x = nm) bs = Some x" "tar_type c x = TYPE_FILE"
    "unat cnt \<le> length buf" "length buf < 2 ^ 31"
  shows "\<exists>h k1 k2 k3 k4 n m. syscall_open junk (Some (uf_mountpoint fs @ SLASH # nm)) flags k = Some (h, k1) \<and> 2 < h \<and>
    n = min (unat cnt) (length (tar_content c x)) \<and> m = min (unat cnt) (length (tar_content c x) - n) \<and>
    syscall_read gen h buf cnt k1 = Some (int n, take n (tar_content c x) @ drop n buf, k2) \<and>
    syscall_read gen h buf cnt k2 = Some (int m, take m (drop n (tar_content c x)) @ drop m buf, k3) \<and>
    syscall_close h k3 = Some (0, k4) \<and> sys_vfs k4 = sys_vfs k \<and> serving k4 ms a fs c M \<and>
    syscall_read gen h buf cnt k4 = Some (- EPERM, buf, k4)"
proof -
  obtain h k1 where o: "syscall_open junk (Some (uf_mountpoint fs @ SLASH # nm)) flags k = Some (h, k1)" "2 < h" "M h = None"
    "serving k1 ms a fs c (M(h \<mapsto> (x, 0)))" "sys_vfs k1 = sys_vfs k"
    by (rule serving_open [OF assms(1-9), of junk flags]) blast
  have at: "(M(h \<mapsto> (x, i))) h = Some (x, i)" "(M'(h \<mapsto> (x, 0 + i))) h = Some (x, i)" for i M'
    by simp_all
  obtain n k2 where r: "n = min (unat cnt) (length (tar_content c x) - 0)"
    "syscall_read gen h buf cnt k1 = Some (int n, take n (drop 0 (tar_content c x)) @ drop n buf, k2)"
    "serving k2 ms a fs c ((M(h \<mapsto> (x, 0)))(h \<mapsto> (x, 0 + n)))" "sys_vfs k2 = sys_vfs k1"
    by (rule serving_read [OF o(4) at(1) o(2) assms(10,11), of gen]) blast
  obtain m k3 where r2: "m = min (unat cnt) (length (tar_content c x) - n)"
    "syscall_read gen h buf cnt k2 = Some (int m, take m (drop n (tar_content c x)) @ drop m buf, k3)"
    "serving k3 ms a fs c ((M(h \<mapsto> (x, 0), h \<mapsto> (x, 0 + n)))(h \<mapsto> (x, n + m)))" "sys_vfs k3 = sys_vfs k2"
    by (rule serving_read [OF r(3) at(2) o(2) assms(10,11), of gen]) blast
  obtain k4 where c4: "syscall_close h k3 = Some (0, k4)" "serving k4 ms a fs c (M(h := None))" "sys_vfs k4 = sys_vfs k3"
    using serving_close [OF r2(3), of h "(x, n + m)"] by auto
  have "M(h := None) = M"
    using o(3) by auto
  then have s4: "serving k4 ms a fs c M"
    using c4(2) by simp
  have "syscall_read gen h buf cnt k4 = Some (- EPERM, buf, k4)"
    using serving_bad_handle(1) [OF s4 o(3)] o(2) by simp
  then show ?thesis
    using o r r2 c4 s4 by auto
qed

definition sample_mount :: ustar_fs where
  "sample_mount = UstarFilesystem_mount slash_ustar [] sample_fs"

lemma sample_serving:
  obtains k where "serving k [(1, Ustar_object sample_mount)] 1 sample_mount sample_disc Map.empty" "uroom (sys_files k) Map.empty"
    "sys_keys k = []"
proof -
  obtain v where v: "VFS_register_filesystem (Some (fst (new_filesystem (Ustar_object sample_fs) VFS_new))) (snd (new_filesystem (Ustar_object sample_fs) VFS_new)) = Some (True, v)"
    "vfs_is v [(0, Ustar_object sample_fs)] []"
    using register_eq [OF vfs_is_new, of "Ustar_object sample_fs"] by (auto simp: VFS_new_def)
  then have "vfs_fresh v = 1"
    by (auto simp: VFS_register_filesystem_def new_filesystem_def VFS_new_def)
  then obtain v' where v': "vfs_is v' [(0, Ustar_object sample_fs)] [(1, Ustar_object sample_mount)]"
    using mount_eq [OF v(2), of slash_ustar UstarFilesystem_type "[]"] by (auto simp: sample_mount_def)
  have "uf_ustar sample_mount = sample_ustar"
    by (simp add: sample_mount_def UstarFilesystem_mount_def sample_fs_def)
  then show ?thesis
    using v' sample_uinv [of "Some 1"]
    by (intro that [of "\<lparr>sys_vfs = v', sys_files = sample_state, sys_seed = 0, sys_out = [], sys_keys = []\<rparr>"])
      (auto simp: serving_def uroom_def sample_state_def Filesystem_table_def INT_MAX_def)
qed

theorem syscall_session_witness:
  "\<exists>k h k1 k2. syscall_open (\<lambda>_. 0) (Some (slash_ustar @ [47, 97])) 0 k = Some (h, k1) \<and>
     syscall_read (\<lambda>x. (x, x)) h [0, 0, 0, 0] 4 k1 = Some (3, [104, 105, 33, 0], k2)"
proof -
  obtain k where k: "serving k [(1, Ustar_object sample_mount)] 1 sample_mount sample_disc Map.empty" "uroom (sys_files k) Map.empty"
    by (rule sample_serving) blast
  have m: "uf_mountpoint sample_mount = slash_ustar"
    by (simp add: sample_mount_def UstarFilesystem_mount_def)
  have "sample_disc \<noteq> []"
    using length_sample by auto
  from syscall_session [OF k this sample_archive, where nm = "[97]" and x = 0 and cnt = 4 and buf = "[0, 0, 0, 0]"
      and junk = "\<lambda>_. 0" and flags = 0 and gen = "\<lambda>x. (x, x)"]
  show ?thesis
    using m by (auto simp: sample_member starts_with_def SLASH_def)
qed

text \<open>
  The system calls report errors without touching the state: a handle that is not open gives \<open>-EPERM\<close> from \<^verbatim>\<open>read\<close>, \<^verbatim>\<open>write\<close>,
  \<^verbatim>\<open>readv\<close>, \<^verbatim>\<open>close\<close> and \<^verbatim>\<open>fcntl\<close>; no name and a path under no mount point give \<open>-ENOENT\<close>.  A file that a mounted disc does
  not have gives \<open>-1\<close>, not \<open>-ENOENT\<close>: the error number is only in \<^verbatim>\<open>errno\<close>.
\<close>

theorem syscall_errors:
  assumes "serving k ms a fs c M" "uroom (sys_files k) M" "c \<noteq> []" "archive_at c 0 bs"
  shows "(M fd = None \<and> fd \<notin> {0, 1, 2} \<longrightarrow>
      syscall_read gen fd buf cnt k = Some (- EPERM, buf, k) \<and> syscall_write fd buf cnt k = Some (- EPERM, k) \<and>
      syscall_readv gen fd iov k = Some (- EPERM, map fst iov, k) \<and> syscall_close fd k = Some (- EPERM, k) \<and>
      syscall_fcntl fd cmd arg k = Some (- EPERM, k)) \<and>
    syscall_open junk None flags k = Some (- ENOENT, k) \<and>
    ((\<forall>x \<in> set ms. \<not> starts_with path (fs_mountpoint (snd x))) \<longrightarrow> syscall_open junk (Some path) flags k = Some (- ENOENT, k)) \<and>
    (find (\<lambda>x. starts_with (uf_mountpoint fs @ SLASH # nm) (fs_mountpoint (snd x))) ms = Some (a, Ustar_object fs) \<and>
      dropWhile (\<lambda>c. c = SLASH) nm \<noteq> [] \<and> (\<forall>x \<in> set bs. tar_name c x \<noteq> dropWhile (\<lambda>c. c = SLASH) nm) \<longrightarrow>
      syscall_open junk (Some (uf_mountpoint fs @ SLASH # nm)) flags k = Some (- 1, k\<lparr>sys_files := set_errno ENOENT (sys_files k)\<rparr>))"
proof (intro conjI impI)
  obtain fss where v: "vfs_is (sys_vfs k) fss ms" and u: "uinv (uf_ustar fs) c (Some a) (sys_files k) M"
    using assms(1) by (auto simp: serving_def)
  show "syscall_open junk (Some path) flags k = Some (- ENOENT, k)"
    if "\<forall>x \<in> set ms. \<not> starts_with path (fs_mountpoint (snd x))"
  proof -
    have "find (\<lambda>x. starts_with path (fs_mountpoint (snd x))) ms = None"
      using that by (auto simp: find_None_iff)
    then show ?thesis
      using access_eq [OF v, of path] by (simp add: syscall_open_def)
  qed
  show "syscall_open junk (Some (uf_mountpoint fs @ SLASH # nm)) flags k = Some (- 1, k\<lparr>sys_files := set_errno ENOENT (sys_files k)\<rparr>)"
    if n: "find (\<lambda>x. starts_with (uf_mountpoint fs @ SLASH # nm) (fs_mountpoint (snd x))) ms = Some (a, Ustar_object fs) \<and>
      dropWhile (\<lambda>c. c = SLASH) nm \<noteq> [] \<and> (\<forall>x \<in> set bs. tar_name c x \<noteq> dropWhile (\<lambda>c. c = SLASH) nm)"
  proof -
    have "find (\<lambda>x. tar_name c x = dropWhile (\<lambda>c. c = SLASH) nm) bs = None"
      using n by (auto simp: find_None_iff)
    then have "UstarFilesystem_open junk (Some a) fs (dropWhile (\<lambda>c. c = SLASH) nm) (uint flags) (sys_files k) =
        Some (- 1, set_errno ENOENT (sys_files k))"
      using ustar_open [OF u refl assms(3,4,2), of junk "dropWhile (\<lambda>c. c = SLASH) nm" "uint flags"] by simp
    then show ?thesis
      using syscall_open_dispatch [OF v, of "Ustar_object fs" nm a junk flags] n by simp
  qed
qed (use serving_bad_handle [OF assms(1)] in \<open>auto simp: syscall_open_def\<close>)

theorem syscall_errors_witness:
  "\<exists>k. syscall_close 3 k = Some (- EPERM, k) \<and> syscall_open (\<lambda>_. 0) (Some [98]) 0 k = Some (- ENOENT, k)"
proof -
  obtain k where k: "serving k [(1, Ustar_object sample_mount)] 1 sample_mount sample_disc Map.empty" "uroom (sys_files k) Map.empty"
    by (rule sample_serving) blast
  have m: "uf_mountpoint sample_mount = slash_ustar"
    by (simp add: sample_mount_def UstarFilesystem_mount_def)
  have "sample_disc \<noteq> []"
    using length_sample by auto
  from syscall_errors [OF k this sample_archive, where fd = 3 and path = "[98]" and junk = "\<lambda>_. 0" and flags = 0]
  have "syscall_close 3 k = Some (- EPERM, k)" "syscall_open (\<lambda>_. 0) (Some [98]) 0 k = Some (- ENOENT, k)"
    by (auto simp: m starts_with_def slash_ustar_def)
  then show ?thesis
    by blast
qed

section \<open>The keyboard\<close>

lemma stdin_loop_line:
  assumes "NEWLINE \<notin> set line" "unat c + length line < unat cnt" "unat cnt \<le> length buf"
  shows "stdin_loop cnt c buf (map (\<lambda>x. Some [x]) line @ Some [NEWLINE] # ks) =
    Some (c + of_nat (length line) + 1, take (unat c) buf @ line @ NEWLINE # drop (unat c + length line + 1) buf, ks)"
  using assms
proof (induction line arbitrary: c buf)
  case Nil
  have "1 \<le> cnt" "c < cnt"
    using Nil.prems by (auto simp: word_le_nat_alt word_less_nat_alt)
  then show ?case
    using Nil.prems by (subst stdin_loop.simps) (auto simp: buf_write_def first_char_def)
next
  case (Cons x line)
  have lt: "1 \<le> cnt" "c < cnt"
    using Cons.prems by (auto simp: word_le_nat_alt word_less_nat_alt)
  have c1: "unat (c + 1) = unat c + 1"
    using Cons.prems unat_u32_less [of cnt] by (subst unat_plus_eq) auto
  let ?b = "take (unat c) buf @ x # drop (unat c + 1) buf"
  have w: "buf_write (unat c) [x] buf = Some ?b"
    using Cons.prems by (simp add: buf_write_def)
  have "stdin_loop cnt (c + 1) ?b (map (\<lambda>x. Some [x]) line @ Some [NEWLINE] # ks) =
      Some (c + 1 + of_nat (length line) + 1, take (unat (c + 1)) ?b @ line @ NEWLINE # drop (unat (c + 1) + length line + 1) ?b, ks)"
    using Cons.prems c1 by (intro Cons.IH) auto
  moreover have "stdin_loop cnt c buf (map (\<lambda>x. Some [x]) (x # line) @ Some [NEWLINE] # ks) =
      stdin_loop cnt (c + 1) ?b (map (\<lambda>x. Some [x]) line @ Some [NEWLINE] # ks)"
    using lt w Cons.prems by (subst stdin_loop.simps) (auto simp: first_char_def)
  ultimately show ?case
    using Cons.prems c1 by (simp add: add.commute)
qed

text \<open>
  Reading the keyboard.  A line of single-character keys is delivered with its newline if the buffer has room.  But a key
  is a string, whose length \<^verbatim>\<open>read\<close> compares with the size of the buffer and not with the room left: with room for two characters,
  a letter followed by a two-character key makes \<^verbatim>\<open>read\<close> write a third, beyond a buffer of that size.
\<close>

theorem syscall_read_keyboard:
  shows "(sys_keys k = map (\<lambda>x. Some [x]) line @ Some [NEWLINE] # ks \<and> NEWLINE \<notin> set line \<and>
      length line < unat cnt \<and> unat cnt \<le> length buf \<and> length buf < 2 ^ 31 \<longrightarrow>
      syscall_read gen 0 buf cnt k = Some (int (length line) + 1, line @ NEWLINE # drop (length line + 1) buf, k\<lparr>sys_keys := ks\<rparr>)) \<and>
    (sys_keys k = [Some [x], Some [y, z]] \<and> x \<noteq> NEWLINE \<longrightarrow>
      syscall_read gen 0 [b0, b1, b2] 2 k = Some (3, [x, y, z], k\<lparr>sys_keys := []\<rparr>) \<and> syscall_read gen 0 [b0, b1] 2 k = None)"
proof (intro conjI impI)
  assume a: "sys_keys k = map (\<lambda>x. Some [x]) line @ Some [NEWLINE] # ks \<and> NEWLINE \<notin> set line \<and>
      length line < unat cnt \<and> unat cnt \<le> length buf \<and> length buf < 2 ^ 31"
  have "sint (of_nat (length line + 1) :: u32) = int (length line + 1)"
    using a by (intro sint_of_nat_31) linarith
  then show "syscall_read gen 0 buf cnt k = Some (int (length line) + 1, line @ NEWLINE # drop (length line + 1) buf, k\<lparr>sys_keys := ks\<rparr>)"
    using a stdin_loop_line [of line 0 cnt buf ks] by (simp add: syscall_read_def add.commute)
next
  assume a: "sys_keys k = [Some [x], Some [y, z]] \<and> x \<noteq> NEWLINE"
  then show "syscall_read gen 0 [b0, b1, b2] 2 k = Some (3, [x, y, z], k\<lparr>sys_keys := []\<rparr>)" "syscall_read gen 0 [b0, b1] 2 k = None"
    by (simp_all add: syscall_read_def stdin_loop.simps buf_write_def first_char_def)
qed

definition console :: "u8 list option list \<Rightarrow> sys" where
  "console keys = \<lparr>sys_vfs = VFS_new, sys_files = sample_state, sys_seed = 0, sys_out = [], sys_keys = keys\<rparr>"

theorem syscall_read_keyboard_witness:
  "syscall_read (\<lambda>x. (x, x)) 0 [0, 0, 0] 3 (console [Some [97], Some [NEWLINE]]) = Some (2, [97, NEWLINE, 0], console []) \<and>
   syscall_read (\<lambda>x. (x, x)) 0 [0, 0] 2 (console [Some [97], Some [27, 91]]) = None"
  using syscall_read_keyboard [of "console [Some [97], Some [NEWLINE]]" "[97]" "[]" 3 "[0, 0, 0]" "\<lambda>x. (x, x)" 0 0 0 0 0 0]
    syscall_read_keyboard [of "console [Some [97], Some [27, 91]]" "[]" "[]" 0 "[]" "\<lambda>x. (x, x)" 97 27 91 0 0 0]
  by (simp add: console_def NEWLINE_def)

end
