(* ===== verification/Pci_Bus.thy ===== *)
theory Pci_Bus
  imports Kernel_Prelude
begin

text \<open>
  Port I/O and the PCI configuration space: \<^verbatim>\<open>src/pci.cpp\<close>, \<^verbatim>\<open>inc/pci.hh\<close>, \<^verbatim>\<open>arch/x86/pcix86.cpp\<close>, and the port
  accesses of \<^verbatim>\<open>arch/x86/atax86.cpp\<close>.

  The instructions behind \<^verbatim>\<open>Port::in\<close> and \<^verbatim>\<open>Port::out\<close> act on the machine: a \<open>ports\<close> is a record of functions on a
  machine state of any type, with \<open>pt_sleep\<close> for \<^verbatim>\<open>Timer::msleep\<close>, which lets time go by, and \<open>pt_alloc\<close> for a request of
  32 words to \<^verbatim>\<open>MM::alloc\<close>: the words found there, or \<^term>\<open>None\<close> for \<^verbatim>\<open>nullptr\<close>.  \<open>pci_host\<close> states what the host bridge
  does: the data port gives the configuration register whose address was written last.

  The laws: from a function 0, \<^verbatim>\<open>findNextDevice\<close> gives the first matching function of the bus at that position or
  behind it, and therefore gives the same function again and again when it is function 0 of a device; from a function above 0
  it passes over the rest of the device.
\<close>

section \<open>Port I/O\<close>

record 'm ports =
  pt_in8 :: "u16 \<Rightarrow> 'm \<Rightarrow> u8 \<times> 'm"
  pt_in16 :: "u16 \<Rightarrow> 'm \<Rightarrow> u16 \<times> 'm"
  pt_in32 :: "u16 \<Rightarrow> 'm \<Rightarrow> u32 \<times> 'm"
  pt_out8 :: "u16 \<Rightarrow> u8 \<Rightarrow> 'm \<Rightarrow> 'm"
  pt_out16 :: "u16 \<Rightarrow> u16 \<Rightarrow> 'm \<Rightarrow> 'm"
  pt_out32 :: "u16 \<Rightarrow> u32 \<Rightarrow> 'm \<Rightarrow> 'm"
  pt_sleep :: "u32 \<Rightarrow> 'm \<Rightarrow> 'm"
  pt_alloc :: "'m \<Rightarrow> u32 list option \<times> 'm"

definition systemPortOut :: "'m ports \<Rightarrow> u32 \<Rightarrow> u8 \<Rightarrow> 'm \<Rightarrow> 'm" where
  "systemPortOut P port val m = pt_out8 P (ucast port) val m"

definition systemPortOut16 :: "'m ports \<Rightarrow> u32 \<Rightarrow> u16 \<Rightarrow> 'm \<Rightarrow> 'm" where
  "systemPortOut16 P port val m = pt_out16 P (ucast port) val m"

definition systemPortOut32 :: "'m ports \<Rightarrow> u32 \<Rightarrow> u32 \<Rightarrow> 'm \<Rightarrow> 'm" where
  "systemPortOut32 P port val m = pt_out32 P (ucast port) val m"

definition systemPortIn :: "'m ports \<Rightarrow> u32 \<Rightarrow> 'm \<Rightarrow> u8 \<times> 'm" where
  "systemPortIn P port m = pt_in8 P (ucast port) m"

definition systemPortIn16 :: "'m ports \<Rightarrow> u32 \<Rightarrow> 'm \<Rightarrow> u16 \<times> 'm" where
  "systemPortIn16 P port m = pt_in16 P (ucast port) m"

definition systemPortIn32 :: "'m ports \<Rightarrow> u32 \<Rightarrow> 'm \<Rightarrow> u32 \<times> 'm" where
  "systemPortIn32 P port m = pt_in32 P (ucast port) m"

section \<open>Configuration registers\<close>

definition PCI_PORT_CONFIG_ADDR :: u16 where "PCI_PORT_CONFIG_ADDR = 0xCF8"
definition PCI_PORT_CONFIG_DATA :: u16 where "PCI_PORT_CONFIG_DATA = 0xCFC"

definition PCI_systemPut :: "'m ports \<Rightarrow> u32 \<Rightarrow> 'm \<Rightarrow> 'm" where
  "PCI_systemPut P val m = pt_out32 P PCI_PORT_CONFIG_ADDR val m"

definition PCI_systemPutData :: "'m ports \<Rightarrow> u8 \<Rightarrow> 'm \<Rightarrow> 'm" where
  "PCI_systemPutData P val m = pt_out8 P PCI_PORT_CONFIG_DATA val m"

definition PCI_systemGet :: "'m ports \<Rightarrow> 'm \<Rightarrow> u32 \<times> 'm" where
  "PCI_systemGet P m = pt_in32 P PCI_PORT_CONFIG_DATA m"

definition PCI_getPciAddr :: "u32 \<Rightarrow> u32 \<Rightarrow> u32 \<Rightarrow> u32 \<Rightarrow> u32" where
  "PCI_getPciAddr bus device func reg =
     push_bit 31 1 OR push_bit 16 (bus AND 0xFF) OR push_bit 11 (device AND 0x1F) OR push_bit 8 (func AND 0x7) OR (reg AND 0xFC)"

definition PCI_getConfig :: "'m ports \<Rightarrow> u32 \<Rightarrow> u32 \<Rightarrow> u32 \<Rightarrow> u32 \<Rightarrow> 'm \<Rightarrow> u32 \<times> 'm" where
  "PCI_getConfig P bus device func reg m = PCI_systemGet P (PCI_systemPut P (PCI_getPciAddr bus device func reg) m)"

text \<open>The value is cut to a byte by the type of \<^verbatim>\<open>systemPutData\<close>.\<close>

definition PCI_setConfig :: "'m ports \<Rightarrow> u32 \<Rightarrow> u32 \<Rightarrow> u32 \<Rightarrow> u32 \<Rightarrow> u32 \<Rightarrow> 'm \<Rightarrow> 'm" where
  "PCI_setConfig P bus device func reg val m =
     PCI_systemPutData P (ucast val) (PCI_systemPut P (PCI_getPciAddr bus device func reg) m)"

definition PCI_isAvailable :: "'m ports \<Rightarrow> 'm \<Rightarrow> bool \<times> 'm" where
  "PCI_isAvailable P m = (let (v, m) = PCI_systemGet P m in (v \<noteq> 0xFFFFFFFF, m))"

definition PCI_CONFIG_GET_VENDOR :: "u32 \<Rightarrow> u32" where "PCI_CONFIG_GET_VENDOR x = x AND 0xFFFF"
definition PCI_CONFIG_GET_DEVICE :: "u32 \<Rightarrow> u32" where "PCI_CONFIG_GET_DEVICE x = drop_bit 16 x AND 0xFFFF"

definition PCI_getVendor :: "'m ports \<Rightarrow> u32 \<Rightarrow> u32 \<Rightarrow> u32 \<Rightarrow> 'm \<Rightarrow> u32 \<times> 'm" where
  "PCI_getVendor P bus device func m = (let (v, m) = PCI_getConfig P bus device func 0 m in (PCI_CONFIG_GET_VENDOR v, m))"

definition PCI_getDevice :: "'m ports \<Rightarrow> u32 \<Rightarrow> u32 \<Rightarrow> u32 \<Rightarrow> 'm \<Rightarrow> u32 \<times> 'm" where
  "PCI_getDevice P bus device func m =
     (let (v, m) = PCI_getVendor P bus device func m
      in if v \<noteq> 0xFFFF then (let (v, m) = PCI_getConfig P bus device func 0 m in (PCI_CONFIG_GET_DEVICE v, m)) else (0xFFFF, m))"

definition PCI_isDevice :: "'m ports \<Rightarrow> u32 \<Rightarrow> u32 \<Rightarrow> u32 \<Rightarrow> 'm \<Rightarrow> bool \<times> 'm" where
  "PCI_isDevice P bus device func m = (let (v, m) = PCI_getVendor P bus device func m in (v \<noteq> 0xFFFF, m))"

definition PCI_setHeader :: "'m ports \<Rightarrow> u32 \<Rightarrow> u32 \<Rightarrow> u32 \<Rightarrow> u32 \<Rightarrow> u8 \<Rightarrow> 'm \<Rightarrow> 'm" where
  "PCI_setHeader P bus device func reg val m = PCI_setConfig P bus device func reg (ucast val) m"

section \<open>Headers\<close>

text \<open>
  A header is the 32 words of \<^verbatim>\<open>HeaderGeneric\<close>, read through the structures laid over it.  \<^verbatim>\<open>HeaderCommon\<close> ends with the
  position in the words 16 to 18, so that the fields of \<^verbatim>\<open>Header00\<close> behind it begin at word 19.
\<close>

type_synonym header = "u32 list"

definition hdr_vendor :: "header \<Rightarrow> u16" where "hdr_vendor h = ucast (h ! 0)"
definition hdr_device :: "header \<Rightarrow> u16" where "hdr_device h = ucast (drop_bit 16 (h ! 0))"
definition hdr_command :: "header \<Rightarrow> u16" where "hdr_command h = ucast (h ! 1)"
definition hdr_subclass :: "header \<Rightarrow> u8" where "hdr_subclass h = ucast (drop_bit 16 (h ! 2))"
definition hdr_classCode :: "header \<Rightarrow> u8" where "hdr_classCode h = ucast (drop_bit 24 (h ! 2))"
definition hdr_headerType :: "header \<Rightarrow> u8" where "hdr_headerType h = ucast (drop_bit 16 (h ! 3))"
definition hdr_bus :: "header \<Rightarrow> u32" where "hdr_bus h = h ! 16"
definition hdr_dev :: "header \<Rightarrow> u32" where "hdr_dev h = h ! 17"
definition hdr_func :: "header \<Rightarrow> u32" where "hdr_func h = h ! 18"
definition hdr_baseAddress :: "nat \<Rightarrow> header \<Rightarrow> u32" where "hdr_baseAddress i h = h ! (19 + i)"

definition PCI_CONFIG_IS_MULTI :: "u8 \<Rightarrow> bool" where
  "PCI_CONFIG_IS_MULTI x \<longleftrightarrow> x AND 0x80 = 0x80"

text \<open>The loop of \<^verbatim>\<open>getHeader\<close>, with the \<open>k\<close> registers that are left.\<close>

fun getHeader_loop :: "'m ports \<Rightarrow> u32 \<Rightarrow> u32 \<Rightarrow> u32 \<Rightarrow> nat \<Rightarrow> nat \<Rightarrow> header \<Rightarrow> 'm \<Rightarrow> header \<times> 'm" where
  "getHeader_loop P bus device func i 0 h m = (h, m)"
| "getHeader_loop P bus device func i (Suc k) h m =
     (let (v, m) = PCI_getConfig P bus device func (of_nat (i * 4)) m in getHeader_loop P bus device func (i + 1) k (h[i := v]) m)"

definition PCI_getHeader :: "'m ports \<Rightarrow> u32 \<Rightarrow> u32 \<Rightarrow> u32 \<Rightarrow> 'm \<Rightarrow> header option \<times> 'm" where
  "PCI_getHeader P bus device func m =
     (case pt_alloc P m of
        (None, m) \<Rightarrow> (None, m)
      | (Some h, m) \<Rightarrow>
         (let (h, m) = getHeader_loop P bus device func 0 16 h m in (Some (h[16 := bus, 17 := device, 18 := func]), m)))"

definition PCI_readValue32 :: "'m ports \<Rightarrow> header option \<Rightarrow> u32 \<Rightarrow> 'm \<Rightarrow> u32 \<times> 'm" where
  "PCI_readValue32 P hdr addr m =
     (case hdr of None \<Rightarrow> (0, m) | Some h \<Rightarrow> PCI_getConfig P (hdr_bus h) (hdr_dev h) (hdr_func h) addr m)"

section \<open>Walking the bus\<close>

record pci_iter =
  pi_bus :: u32
  pi_dev :: u32
  pi_func :: u32

definition PCI_startIter :: pci_iter where
  "PCI_startIter = \<lparr>pi_bus = 0, pi_dev = 0, pi_func = 0\<rparr>"

definition PCI_set :: "'m ports \<Rightarrow> pci_iter option \<Rightarrow> u32 \<Rightarrow> u8 \<Rightarrow> 'm \<Rightarrow> 'm" where
  "PCI_set P iter reg val m =
     (case iter of None \<Rightarrow> m | Some it \<Rightarrow> PCI_setHeader P (pi_bus it) (pi_dev it) (pi_func it) reg val m)"

definition PCI_getCurrent :: "'m ports \<Rightarrow> pci_iter \<Rightarrow> 'm \<Rightarrow> header option \<times> 'm" where
  "PCI_getCurrent P it m =
     (let (res, m) = PCI_getConfig P (pi_bus it) (pi_dev it) (pi_func it) 0 m
      in if PCI_CONFIG_GET_VENDOR res \<noteq> 0xFFFF then PCI_getHeader P (pi_bus it) (pi_dev it) (pi_func it) m else (None, m))"

text \<open>The three loops of \<^verbatim>\<open>findNextDevice\<close>, for any test of a header; a failed allocation is dereferenced.\<close>

function func_loop :: "'m ports \<Rightarrow> (header \<Rightarrow> bool) \<Rightarrow> bool \<Rightarrow> pci_iter \<Rightarrow> 'm \<Rightarrow> (header option \<times> pci_iter \<times> 'm) option" where
  "func_loop P match multi it m =
     (if pi_func it < 0x8 then
        if pi_func it > 0 \<and> \<not> multi then Some (None, it, m)
        else
          (let (res, m) = PCI_getConfig P (pi_bus it) (pi_dev it) (pi_func it) 0 m
           in if PCI_CONFIG_GET_VENDOR res \<noteq> 0xFFFF then
                (case PCI_getHeader P (pi_bus it) (pi_dev it) (pi_func it) m of
                   (None, m) \<Rightarrow> None
                 | (Some h, m) \<Rightarrow>
                    if match h then Some (Some h, it, m)
                    else func_loop P match (multi \<or> PCI_CONFIG_IS_MULTI (hdr_headerType h)) (it\<lparr>pi_func := pi_func it + 1\<rparr>) m)
              else func_loop P match multi (it\<lparr>pi_func := pi_func it + 1\<rparr>) m)
      else Some (None, it, m))"
  by pat_completeness auto

lemma count_up_measure: "(i :: u32) < n \<Longrightarrow> unat n = k \<Longrightarrow> k - unat (i + 1) < k - unat i"
proof -
  assume "i < n" and k: "unat n = k"
  then have "unat i < unat n"
    by (simp add: word_less_nat_alt)
  moreover from this have "unat (i + 1) = unat i + 1"
    using unat_plus_eq [of i 1] unat_u32_less [of n] by simp
  ultimately show ?thesis
    using k by simp
qed

termination func_loop
  by (relation "measure (\<lambda>(P, match, multi, it, m). 0x8 - unat (pi_func it))")
    (auto intro: count_up_measure)

function dev_loop :: "'m ports \<Rightarrow> (header \<Rightarrow> bool) \<Rightarrow> pci_iter \<Rightarrow> 'm \<Rightarrow> (header option \<times> pci_iter \<times> 'm) option" where
  "dev_loop P match it m =
     (if pi_dev it < 0x20 then
        (case func_loop P match False it m of
           None \<Rightarrow> None
         | Some (Some h, it, m) \<Rightarrow> Some (Some h, it, m)
         | Some (None, it', m) \<Rightarrow> dev_loop P match (it'\<lparr>pi_func := 0, pi_dev := pi_dev it + 1\<rparr>) m)
      else Some (None, it, m))"
  by pat_completeness auto

termination dev_loop
  by (relation "measure (\<lambda>(P, match, it, m). 0x20 - unat (pi_dev it))")
    (auto intro: count_up_measure)

function bus_loop :: "'m ports \<Rightarrow> (header \<Rightarrow> bool) \<Rightarrow> pci_iter \<Rightarrow> 'm \<Rightarrow> (header option \<times> pci_iter \<times> 'm) option" where
  "bus_loop P match it m =
     (if pi_bus it < 0x100 then
        (case dev_loop P match it m of
           None \<Rightarrow> None
         | Some (Some h, it, m) \<Rightarrow> Some (Some h, it, m)
         | Some (None, it', m) \<Rightarrow> bus_loop P match (it'\<lparr>pi_dev := 0, pi_bus := pi_bus it + 1\<rparr>) m)
      else Some (None, it, m))"
  by pat_completeness auto

termination bus_loop
  by (relation "measure (\<lambda>(P, match, it, m). 0x100 - unat (pi_bus it))")
    (auto intro: count_up_measure)


declare func_loop.simps [simp del] dev_loop.simps [simp del] bus_loop.simps [simp del]

definition PCI_findNextDevice ::
  "'m ports \<Rightarrow> pci_iter option \<Rightarrow> u8 \<Rightarrow> u8 \<Rightarrow> 'm \<Rightarrow> (header option \<times> pci_iter option \<times> 'm) option" where
  "PCI_findNextDevice P iter classcode subclass m =
     (case iter of
        None \<Rightarrow> Some (None, None, m)
      | Some it \<Rightarrow> do {
          (h, it, m) \<leftarrow> bus_loop P (\<lambda>h. hdr_classCode h = classcode \<and> hdr_subclass h = subclass) it m;
          Some (h, Some it, m) })"

definition PCI_findNextDeviceByVendor ::
  "'m ports \<Rightarrow> pci_iter option \<Rightarrow> u16 \<Rightarrow> u16 \<Rightarrow> 'm \<Rightarrow> (header option \<times> pci_iter option \<times> 'm) option" where
  "PCI_findNextDeviceByVendor P iter vendor deviceid m =
     (case iter of
        None \<Rightarrow> Some (None, None, m)
      | Some it \<Rightarrow> do {
          (h, it, m) \<leftarrow> bus_loop P (\<lambda>h. hdr_vendor h = vendor \<and> hdr_device h = deviceid) it m;
          Some (h, Some it, m) })"

text \<open>
  \<^verbatim>\<open>scanDevices\<close> prints what it finds when \<^verbatim>\<open>m_verbose\<close> is set; its result here is the list of these lines, each with the
  position, the vendor, the device, the class, the subclass and the header type.
\<close>

type_synonym pci_line = "u32 \<times> u32 \<times> u32 \<times> u32 \<times> u32 \<times> u8 \<times> u8 \<times> u8"

function scan_func_loop ::
  "'m ports \<Rightarrow> bool \<Rightarrow> u32 \<Rightarrow> u32 \<Rightarrow> bool \<Rightarrow> u32 \<Rightarrow> pci_line list \<Rightarrow> 'm \<Rightarrow> (pci_line list \<times> 'm) option" where
  "scan_func_loop P verbose bus dev multi func out m =
     (if func < 0x8 then
        if func > 0 \<and> \<not> multi then Some (out, m)
        else
          (let (res, m) = PCI_getConfig P bus dev func 0 m; v = PCI_CONFIG_GET_VENDOR res
           in if v \<noteq> 0xFFFF then
                (case PCI_getHeader P bus dev func m of
                   (None, m) \<Rightarrow> None
                 | (Some h, m) \<Rightarrow>
                    scan_func_loop P verbose bus dev (multi \<or> PCI_CONFIG_IS_MULTI (hdr_headerType h)) (func + 1)
                      (if verbose then out @ [(bus, dev, func, v, PCI_CONFIG_GET_DEVICE res, hdr_classCode h, hdr_subclass h, hdr_headerType h)]
                       else out) m)
              else scan_func_loop P verbose bus dev multi (func + 1) out m)
      else Some (out, m))"
  by pat_completeness auto

termination scan_func_loop
  by (relation "measure (\<lambda>(P, verbose, bus, dev, multi, func, out, m). 0x8 - unat func)") (auto intro: count_up_measure)

function scan_dev_loop :: "'m ports \<Rightarrow> bool \<Rightarrow> u32 \<Rightarrow> u32 \<Rightarrow> pci_line list \<Rightarrow> 'm \<Rightarrow> (pci_line list \<times> 'm) option" where
  "scan_dev_loop P verbose bus dev out m =
     (if dev < 0x20 then
        (case scan_func_loop P verbose bus dev False 0 out m of
           None \<Rightarrow> None
         | Some (out, m) \<Rightarrow> scan_dev_loop P verbose bus (dev + 1) out m)
      else Some (out, m))"
  by pat_completeness auto

termination scan_dev_loop
  by (relation "measure (\<lambda>(P, verbose, bus, dev, out, m). 0x20 - unat dev)") (auto intro: count_up_measure)

function scan_bus_loop :: "'m ports \<Rightarrow> bool \<Rightarrow> u32 \<Rightarrow> pci_line list \<Rightarrow> 'm \<Rightarrow> (pci_line list \<times> 'm) option" where
  "scan_bus_loop P verbose bus out m =
     (if bus < 0x100 then
        (case scan_dev_loop P verbose bus 0 out m of
           None \<Rightarrow> None
         | Some (out, m) \<Rightarrow> scan_bus_loop P verbose (bus + 1) out m)
      else Some (out, m))"
  by pat_completeness auto

termination scan_bus_loop
  by (relation "measure (\<lambda>(P, verbose, bus, out, m). 0x100 - unat bus)") (auto intro: count_up_measure)

declare scan_func_loop.simps [simp del] scan_dev_loop.simps [simp del] scan_bus_loop.simps [simp del]

definition PCI_scanDevices :: "'m ports \<Rightarrow> bool \<Rightarrow> 'm \<Rightarrow> (pci_line list \<times> 'm) option" where
  "PCI_scanDevices P verbose m = scan_bus_loop P verbose 0 [] m"

section \<open>The configuration space and the order of the bus\<close>

text \<open>
  The host bridge: the configuration registers of a machine by address, and the address that was written last.  The
  allocation succeeds.
\<close>

definition pci_host :: "'m ports \<Rightarrow> ('m \<Rightarrow> u32 \<Rightarrow> u32) \<Rightarrow> ('m \<Rightarrow> u32) \<Rightarrow> bool" where
  "pci_host P cfg adr \<longleftrightarrow>
     (\<forall>a m. cfg (pt_out32 P PCI_PORT_CONFIG_ADDR a m) = cfg m \<and> adr (pt_out32 P PCI_PORT_CONFIG_ADDR a m) = a) \<and>
     (\<forall>m. \<exists>m'. pt_in32 P PCI_PORT_CONFIG_DATA m = (cfg m (adr m), m') \<and> cfg m' = cfg m) \<and>
     (\<forall>m. \<exists>h m'. pt_alloc P m = (Some h, m') \<and> length h = 32 \<and> cfg m' = cfg m)"

definition pci_reg :: "(u32 \<Rightarrow> u32) \<Rightarrow> nat \<times> nat \<times> nat \<Rightarrow> nat \<Rightarrow> u32" where
  "pci_reg c q r = (case q of (b, d, f) \<Rightarrow> c (PCI_getPciAddr (of_nat b) (of_nat d) (of_nat f) (of_nat r)))"

definition pci_present :: "(u32 \<Rightarrow> u32) \<Rightarrow> nat \<times> nat \<times> nat \<Rightarrow> bool" where
  "pci_present c q \<longleftrightarrow> (ucast (pci_reg c q 0) :: u16) \<noteq> 0xFFFF"

definition pci_multi :: "(u32 \<Rightarrow> u32) \<Rightarrow> nat \<times> nat \<times> nat \<Rightarrow> bool" where
  "pci_multi c q \<longleftrightarrow> pci_present c q \<and> bit (pci_reg c q 12) 23"

text \<open>These are the vendor and the multi-function bit of the documentation; the code tests them by masks.\<close>

lemma vendor_word: "PCI_CONFIG_GET_VENDOR w = ucast (ucast w :: u16)"
proof -
  have e: "PCI_CONFIG_GET_VENDOR w = take_bit 16 w"
    by (simp add: PCI_CONFIG_GET_VENDOR_def take_bit_eq_mask mask_eq_exp_minus_1)
  show ?thesis
    unfolding e by (rule bit_word_eqI) (auto simp: bit_simps)
qed

lemma pci_present_code: "pci_present c q \<longleftrightarrow> PCI_CONFIG_GET_VENDOR (pci_reg c q 0) \<noteq> 0xFFFF"
proof -
  have "(ucast (x :: u16) :: u32) = 0xFFFF \<longleftrightarrow> x = 0xFFFF" for x
    by transfer (simp add: take_bit_take_bit)
  then show ?thesis
    by (simp add: pci_present_def vendor_word)
qed

lemma multi_bit: "PCI_CONFIG_IS_MULTI (ucast (drop_bit 16 (w :: u32))) \<longleftrightarrow> bit w 23"
proof -
  let ?x = "ucast (drop_bit 16 w) :: u8"
  have b: "bit ?x 7 \<longleftrightarrow> bit w 23"
    by (simp add: bit_simps)
  have e: "?x AND 0x80 = (if bit ?x 7 then 0x80 else 0)"
  proof (rule bit_word_eqI)
    fix n
    have "bit (0x80 :: u8) n \<longleftrightarrow> n = 7"
      using bit_exp_iff [of 7 n, where 'a = u8] by auto
    then show "bit (?x AND 0x80) n \<longleftrightarrow> bit (if bit ?x 7 then 0x80 else 0 :: u8) n"
      by (auto simp: bit_and_iff)
  qed
  show ?thesis
    unfolding PCI_CONFIG_IS_MULTI_def e b by simp
qed

text \<open>A header read from a function.\<close>

definition header_of :: "(u32 \<Rightarrow> u32) \<Rightarrow> nat \<times> nat \<times> nat \<Rightarrow> header \<Rightarrow> bool" where
  "header_of c q h \<longleftrightarrow> length h = 32 \<and> (\<forall>i < 16. h ! i = pci_reg c q (i * 4)) \<and>
     (case q of (b, d, f) \<Rightarrow> h ! 16 = of_nat b \<and> h ! 17 = of_nat d \<and> h ! 18 = of_nat f)"

text \<open>
  The functions of a device that the code looks at, from function \<open>f\<close> on, and all it looks at from a position on: behind a
  function above 0, \<open>scan_from\<close> passes over the rest of the device as the code does.  These lists carry the proofs by
  induction; what there is on the bus, without regard to the code, is \<open>on_bus\<close> and \<open>first_from\<close> below, and
  \<open>scan_first\<close> relates the two.
\<close>

function visit :: "(u32 \<Rightarrow> u32) \<Rightarrow> nat \<Rightarrow> nat \<Rightarrow> bool \<Rightarrow> nat \<Rightarrow> (nat \<times> nat \<times> nat) list" where
  "visit c b d multi f =
     (if f < 8 \<and> (f = 0 \<or> multi) then (b, d, f) # visit c b d (multi \<or> pci_multi c (b, d, f)) (Suc f) else [])"
  by pat_completeness auto
termination
  by (relation "measure (\<lambda>(c, b, d, multi, f). 8 - f)") auto

declare visit.simps [simp del]

definition dev_list :: "(u32 \<Rightarrow> u32) \<Rightarrow> nat \<Rightarrow> nat \<Rightarrow> (nat \<times> nat \<times> nat) list" where
  "dev_list c b d = concat (map (\<lambda>d. visit c b d False 0) [d..<32])"

definition bus_list :: "(u32 \<Rightarrow> u32) \<Rightarrow> nat \<Rightarrow> (nat \<times> nat \<times> nat) list" where
  "bus_list c b = concat (map (\<lambda>b. dev_list c b 0) [b..<256])"

definition scan_from :: "(u32 \<Rightarrow> u32) \<Rightarrow> nat \<times> nat \<times> nat \<Rightarrow> (nat \<times> nat \<times> nat) list" where
  "scan_from c q = (case q of (b, d, f) \<Rightarrow> visit c b d False f @ dev_list c b (Suc d) @ bus_list c (Suc b))"

definition pci_at :: "nat \<times> nat \<times> nat \<Rightarrow> pci_iter" where
  "pci_at q = (case q of (b, d, f) \<Rightarrow> \<lparr>pi_bus = of_nat b, pi_dev = of_nat d, pi_func = of_nat f\<rparr>)"

lemma of_nat_less_u32: "n < 2 ^ 32 \<Longrightarrow> (of_nat n :: u32) < numeral k \<longleftrightarrow> n < unat (numeral k :: u32)"
  by (simp add: word_less_nat_alt unat_of_nat_u32)

lemma of_nat_pos_u32: "n < 2 ^ 32 \<Longrightarrow> (0 :: u32) < of_nat n \<longleftrightarrow> 0 < n"
  by (simp add: word_less_nat_alt unat_of_nat_u32)

lemma visit_all: "visit c b d True f = map (\<lambda>f. (b, d, f)) [f..<8]"
proof (induction "8 - f" arbitrary: f)
  case 0
  then show ?case
    by (subst visit.simps) simp
next
  case (Suc n)
  then show ?case
    by (subst visit.simps) (simp add: upt_conv_Cons)
qed

lemma visit_device:
  "visit c b d False 0 = (if pci_multi c (b, d, 0) then map (\<lambda>f. (b, d, f)) [0..<8] else [(b, d, 0)])"
  by (subst visit.simps) (simp add: visit_all visit.simps [of c b d False "Suc 0"] upt_conv_Cons)

lemma visit_rest: "0 < f \<Longrightarrow> visit c b d False f = []"
  by (subst visit.simps) simp

lemma find_append: "find Q (xs @ ys) = (case find Q xs of None \<Rightarrow> find Q ys | Some x \<Rightarrow> Some x)"
  by (induction xs) auto

lemma dev_list_Cons: "d < 32 \<Longrightarrow> dev_list c b d = visit c b d False 0 @ dev_list c b (Suc d)"
  by (simp add: dev_list_def upt_conv_Cons)

lemma bus_list_Cons: "b < 256 \<Longrightarrow> bus_list c b = dev_list c b 0 @ bus_list c (Suc b)"
  by (simp add: bus_list_def upt_conv_Cons)

section \<open>Reading headers\<close>

lemma getConfig_on:
  assumes "pci_host P cfg adr"
  obtains m' where "PCI_getConfig P (of_nat b) (of_nat d) (of_nat f) (of_nat r) m = (pci_reg (cfg m) (b, d, f) r, m')" "cfg m' = cfg m"
proof -
  let ?m = "pt_out32 P PCI_PORT_CONFIG_ADDR (PCI_getPciAddr (of_nat b) (of_nat d) (of_nat f) (of_nat r)) m"
  obtain m' where "pt_in32 P PCI_PORT_CONFIG_DATA ?m = (cfg ?m (adr ?m), m')" "cfg m' = cfg ?m"
    using assms unfolding pci_host_def by blast
  then show thesis
    using assms by (intro that [of m']) (auto simp: PCI_getConfig_def PCI_systemPut_def PCI_systemGet_def pci_host_def pci_reg_def)
qed

lemma getHeader_loop_on:
  assumes "pci_host P cfg adr" "i + k \<le> length h"
  shows "\<exists>m'. getHeader_loop P (of_nat b) (of_nat d) (of_nat f) i k h m =
    (take i h @ map (\<lambda>j. pci_reg (cfg m) (b, d, f) (j * 4)) [i..<i + k] @ drop (i + k) h, m') \<and> cfg m' = cfg m"
  using assms(2)
proof (induction k arbitrary: i h m)
  case (Suc k)
  obtain m1 where 1: "PCI_getConfig P (of_nat b) (of_nat d) (of_nat f) (of_nat (i * 4)) m = (pci_reg (cfg m) (b, d, f) (i * 4), m1)" "cfg m1 = cfg m"
    using getConfig_on [OF assms(1)] by blast
  let ?h = "h[i := pci_reg (cfg m) (b, d, f) (i * 4)]"
  obtain m' where "getHeader_loop P (of_nat b) (of_nat d) (of_nat f) (Suc i) k ?h m1 =
      (take (Suc i) ?h @ map (\<lambda>j. pci_reg (cfg m1) (b, d, f) (j * 4)) [Suc i..<Suc i + k] @ drop (Suc i + k) ?h, m')" "cfg m' = cfg m1"
    using Suc.IH [of "Suc i" ?h m1] Suc.prems by auto
  moreover have "[i..<i + Suc k] = i # [Suc i..<Suc i + k]"
    by (simp add: upt_conv_Cons del: upt_Suc)
  ultimately show ?case
    using 1 Suc.prems by (auto simp: take_Suc_nth simp del: of_nat_mult upt_Suc)
qed simp

lemma getHeader_on:
  assumes "pci_host P cfg adr"
  obtains h m' where "PCI_getHeader P (of_nat b) (of_nat d) (of_nat f) m = (Some h, m')" "header_of (cfg m) (b, d, f) h" "cfg m' = cfg m"
proof -
  obtain h m1 where 1: "pt_alloc P m = (Some h, m1)" "length h = 32" "cfg m1 = cfg m"
    using assms unfolding pci_host_def by blast
  obtain m2 where 2: "getHeader_loop P (of_nat b) (of_nat d) (of_nat f) 0 16 h m1 =
      (map (\<lambda>j. pci_reg (cfg m) (b, d, f) (j * 4)) [0..<16] @ drop 16 h, m2)" "cfg m2 = cfg m1"
    using getHeader_loop_on [OF assms, of 0 16 h b d f m1] 1 by auto
  let ?h = "map (\<lambda>j. pci_reg (cfg m) (b, d, f) (j * 4)) [0..<16] @ drop 16 h"
  have "header_of (cfg m) (b, d, f) (?h[16 := of_nat b, 17 := of_nat d, 18 := of_nat f])"
    using 1(2) by (simp add: header_of_def nth_append del: upt_rec_numeral)
  then show thesis
    using 1 2 by (intro that [of _ m2]) (auto simp: PCI_getHeader_def)
qed


section \<open>The walk\<close>

text \<open>What a search gives: the first function of a list that is present and passes the test, or the end of the bus.\<close>

definition found_in ::
  "('m \<Rightarrow> u32 \<Rightarrow> u32) \<Rightarrow> (u32 \<Rightarrow> u32) \<Rightarrow> (nat \<times> nat \<times> nat \<Rightarrow> bool) \<Rightarrow> (nat \<times> nat \<times> nat) list \<Rightarrow> (pci_iter \<Rightarrow> bool) \<Rightarrow>
     (header option \<times> pci_iter \<times> 'm) option \<Rightarrow> bool" where
  "found_in cfg c mt qs fin r \<longleftrightarrow>
     (\<exists>h it m'. r = Some (h, it, m') \<and> cfg m' = c \<and>
        (case find (\<lambda>q. pci_present c q \<and> mt q) qs of
           None \<Rightarrow> h = None \<and> fin it
         | Some q \<Rightarrow> it = pci_at q \<and> (\<exists>hdr. h = Some hdr \<and> header_of c q hdr)))"

lemma header_multi: "header_of c q h \<Longrightarrow> pci_present c q \<Longrightarrow> PCI_CONFIG_IS_MULTI (hdr_headerType h) \<longleftrightarrow> pci_multi c q"
  by (simp add: header_of_def pci_multi_def hdr_headerType_def multi_bit)

lemma func_loop_on:
  assumes "pci_host P cfg adr" "\<And>q h. header_of (cfg m) q h \<Longrightarrow> match h \<longleftrightarrow> mt q" "f \<le> 8"
  shows "found_in cfg (cfg m) mt (visit (cfg m) b d multi f) (\<lambda>it. pi_bus it = of_nat b \<and> pi_dev it = of_nat d)
    (func_loop P match multi (pci_at (b, d, f)) m)"
  using assms(2,3)
proof (induction "cfg m" b d multi f arbitrary: m rule: visit.induct)
  case (1 b d multi f)
  have f32: "f < 2 ^ 32"
    using "1.prems"(2) by simp
  have cmp: "(of_nat f :: u32) < 8 \<longleftrightarrow> f < 8" "(0 :: u32) < of_nat f \<longleftrightarrow> 0 < f"
    using of_nat_less_u32 [OF f32, of "num.Bit0 (num.Bit0 (num.Bit0 num.One))"] of_nat_pos_u32 [OF f32] by simp_all
  note step = func_loop.simps [of P match multi "pci_at (b, d, f)" m]
  show ?case
  proof (cases "f < 8 \<and> (f = 0 \<or> multi)")
    case False
    then have "func_loop P match multi (pci_at (b, d, f)) m = Some (None, pci_at (b, d, f), m)"
      using cmp by (subst step) (auto simp: pci_at_def)
    then show ?thesis
      using False by (subst visit.simps) (auto simp: found_in_def pci_at_def)
  next
    case True
    obtain m1 where m1: "PCI_getConfig P (of_nat b) (of_nat d) (of_nat f) 0 m = (pci_reg (cfg m) (b, d, f) 0, m1)" "cfg m1 = cfg m"
      using getConfig_on [OF assms(1), of b d f 0 m] by auto
    let ?next = "\<lparr>pi_bus = of_nat b, pi_dev = of_nat d, pi_func = of_nat f + 1\<rparr> :: pci_iter"
    have nx: "?next = pci_at (b, d, Suc f)"
      by (simp add: pci_at_def add.commute)
    have v: "visit (cfg m) b d multi f = (b, d, f) # visit (cfg m) b d (multi \<or> pci_multi (cfg m) (b, d, f)) (Suc f)"
      using True by (subst visit.simps) simp
    show ?thesis
    proof (cases "pci_present (cfg m) (b, d, f)")
      case False
      then have r: "func_loop P match multi (pci_at (b, d, f)) m = func_loop P match multi (pci_at (b, d, Suc f)) m1"
        using m1 True cmp nx by (subst step) (auto simp: pci_at_def pci_present_code add.commute)
      have "found_in cfg (cfg m1) mt (visit (cfg m1) b d multi (Suc f)) (\<lambda>it. pi_bus it = of_nat b \<and> pi_dev it = of_nat d)
          (func_loop P match multi (pci_at (b, d, Suc f)) m1)"
        using "1.hyps" [OF True, of m1] "1.prems"(1) True False m1(2) by (auto simp: pci_multi_def)
      then show ?thesis
        using False m1(2) unfolding v r by (simp add: found_in_def pci_multi_def)
    next
      case present: True
      obtain h m2 where h: "PCI_getHeader P (of_nat b) (of_nat d) (of_nat f) m1 = (Some h, m2)" "header_of (cfg m1) (b, d, f) h" "cfg m2 = cfg m1"
        using getHeader_on [OF assms(1)] by blast
      have mh: "match h \<longleftrightarrow> mt (b, d, f)"
        using "1.prems"(1) h(2) m1(2) by simp
      have mu: "PCI_CONFIG_IS_MULTI (hdr_headerType h) \<longleftrightarrow> pci_multi (cfg m) (b, d, f)"
        using header_multi h(2) m1(2) present by simp
      show ?thesis
      proof (cases "mt (b, d, f)")
        case mt: True
        then have "func_loop P match multi (pci_at (b, d, f)) m = Some (Some h, pci_at (b, d, f), m2)"
          using m1 True cmp present h mh by (subst step) (auto simp: pci_at_def pci_present_code add.commute)
        then show ?thesis
          using mt present h(2,3) m1(2) unfolding v by (simp add: found_in_def)
      next
        case mt: False
        have r: "func_loop P match multi (pci_at (b, d, f)) m =
            func_loop P match (multi \<or> pci_multi (cfg m) (b, d, f)) (pci_at (b, d, Suc f)) m2"
          using m1 True cmp present h mh mu mt nx by (subst step) (auto simp: pci_at_def pci_present_code add.commute)
        have "found_in cfg (cfg m2) mt (visit (cfg m2) b d (multi \<or> pci_multi (cfg m) (b, d, f)) (Suc f))
            (\<lambda>it. pi_bus it = of_nat b \<and> pi_dev it = of_nat d)
            (func_loop P match (multi \<or> pci_multi (cfg m) (b, d, f)) (pci_at (b, d, Suc f)) m2)"
          using "1.hyps" [OF True, of m2] "1.prems"(1) True h(3) m1(2) by auto
        then show ?thesis
          using mt h(3) m1(2) unfolding v r by (simp add: found_in_def)
      qed
    qed
  qed
qed

lemma found_in_append:
  assumes "found_in cfg c mt xs fin r"
  obtains it m' where "r = Some (None, it, m')" "fin it" "cfg m' = c" "find (\<lambda>q. pci_present c q \<and> mt q) xs = None"
  | hdr q m' where "r = Some (Some hdr, pci_at q, m')" "cfg m' = c" "\<And>ys fin'. found_in cfg c mt (xs @ ys) fin' r"
proof (cases "find (\<lambda>q. pci_present c q \<and> mt q) xs")
  case None
  then show thesis
    using assms that(1) by (auto simp: found_in_def)
next
  case (Some q)
  then have a: "found_in cfg c mt (xs @ ys) fin' r" for ys fin'
    using assms by (auto simp: found_in_def find_append)
  obtain hdr m' where "r = Some (Some hdr, pci_at q, m')" "cfg m' = c"
    using assms Some by (auto simp: found_in_def)
  then show thesis
    using a by (rule that(2))
qed

lemma found_in_skip:
  "find (\<lambda>q. pci_present c q \<and> mt q) xs = None \<Longrightarrow> found_in cfg c mt ys fin r \<Longrightarrow> found_in cfg c mt (xs @ ys) fin r"
  by (simp add: found_in_def find_append)

lemma dev_loop_on:
  assumes "pci_host P cfg adr" "\<And>q h. header_of (cfg m) q h \<Longrightarrow> match h \<longleftrightarrow> mt q" "d \<le> 32" "f \<le> 8"
  shows "found_in cfg (cfg m) mt (if d < 32 then visit (cfg m) b d False f @ dev_list (cfg m) b (Suc d) else []) (\<lambda>it. pi_bus it = of_nat b \<and> (d < 32 \<or> f = 0 \<longrightarrow> pi_func it = 0))
    (dev_loop P match (pci_at (b, d, f)) m)"
  using assms(2-4)
proof (induction "32 - d" arbitrary: d f m)
  case 0
  then show ?case
    by (subst dev_loop.simps) (auto simp: pci_at_def found_in_def)
next
  case (Suc n)
  then have d: "d < 32"
    by simp
  then have c: "(of_nat d :: u32) < 0x20"
    using of_nat_less_u32 [of d "num.Bit0 (num.Bit0 (num.Bit0 (num.Bit0 (num.Bit0 num.One))))"] by simp
  have fl: "found_in cfg (cfg m) mt (visit (cfg m) b d False f) (\<lambda>it. pi_bus it = of_nat b \<and> pi_dev it = of_nat d) (func_loop P match False (pci_at (b, d, f)) m)"
    by (rule func_loop_on [where match = match and mt = mt, OF assms(1)]) (use Suc.prems in auto)
  show ?case
    using fl
  proof (cases rule: found_in_append)
    case (1 it m1)
    have st: "dev_loop P match (pci_at (b, d, f)) m = dev_loop P match (pci_at (b, Suc d, 0)) m1"
      using 1(1,2) c by (subst dev_loop.simps) (cases it, simp add: pci_at_def add.commute)
    have "found_in cfg (cfg m1) mt (if Suc d < 32 then visit (cfg m1) b (Suc d) False 0 @ dev_list (cfg m1) b (Suc (Suc d)) else [])
        (\<lambda>it. pi_bus it = of_nat b \<and> (Suc d < 32 \<or> (0 :: nat) = 0 \<longrightarrow> pi_func it = 0)) (dev_loop P match (pci_at (b, Suc d, 0)) m1)"
      by (rule Suc.hyps(1)) (use Suc 1(3) in auto)
    moreover have "(if Suc d < 32 then visit (cfg m1) b (Suc d) False 0 @ dev_list (cfg m1) b (Suc (Suc d)) else []) = dev_list (cfg m) b (Suc d)"
      using 1(3) by (auto simp: dev_list_Cons [of "Suc d"]) (simp add: dev_list_def)
    ultimately show ?thesis
      using d found_in_skip [OF 1(4)] 1(3) unfolding st by simp
  next
    case (2 hdr q m1)
    then have "dev_loop P match (pci_at (b, d, f)) m = func_loop P match False (pci_at (b, d, f)) m"
      using c by (subst dev_loop.simps) (simp add: pci_at_def)
    then show ?thesis
      using 2(3) d by simp
  qed
qed

lemma bus_loop_on:
  assumes "pci_host P cfg adr" "\<And>q h. header_of (cfg m) q h \<Longrightarrow> match h \<longleftrightarrow> mt q" "b < 256" "d < 32" "f \<le> 8"
  shows "found_in cfg (cfg m) mt (scan_from (cfg m) (b, d, f)) (\<lambda>it. it = pci_at (256, 0, 0)) (bus_loop P match (pci_at (b, d, f)) m)"
  using assms(2-5)
proof (induction "255 - b" arbitrary: b d f m rule: less_induct)
  case less
  have c: "(of_nat b :: u32) < 0x100"
    using of_nat_less_u32 [of b "num.Bit0 (num.Bit0 (num.Bit0 (num.Bit0 (num.Bit0 (num.Bit0 (num.Bit0 (num.Bit0 num.One)))))))"] less.prems by simp
  have dl: "found_in cfg (cfg m) mt (visit (cfg m) b d False f @ dev_list (cfg m) b (Suc d)) (\<lambda>it. pi_bus it = of_nat b \<and> pi_func it = 0)
      (dev_loop P match (pci_at (b, d, f)) m)"
    using dev_loop_on [where match = match and mt = mt, OF assms(1) less.prems(1), where d = d and f = f and m = m and b = b] less.prems(3,4) by simp
  have sc: "scan_from (cfg m) (b, d, f) = (visit (cfg m) b d False f @ dev_list (cfg m) b (Suc d)) @ bus_list (cfg m) (Suc b)"
    by (simp add: scan_from_def)
  show ?case
    using dl
  proof (cases rule: found_in_append)
    case (1 it m1)
    have st: "bus_loop P match (pci_at (b, d, f)) m = bus_loop P match (pci_at (Suc b, 0, 0)) m1"
      using 1(1,2) c by (subst bus_loop.simps) (cases it, simp add: pci_at_def add.commute)
    have "found_in cfg (cfg m1) mt (bus_list (cfg m1) (Suc b)) (\<lambda>it. it = pci_at (256, 0, 0)) (bus_loop P match (pci_at (Suc b, 0, 0)) m1)"
    proof (cases "b = 255")
      case True
      then show ?thesis
        by (subst bus_loop.simps) (simp add: found_in_def bus_list_def pci_at_def)
    next
      case False
      then have "found_in cfg (cfg m1) mt (scan_from (cfg m1) (Suc b, 0, 0)) (\<lambda>it. it = pci_at (256, 0, 0)) (bus_loop P match (pci_at (Suc b, 0, 0)) m1)"
        by (intro less.hyps) (use less.prems 1(3) in auto)
      then show ?thesis
        using False less.prems by (simp add: scan_from_def bus_list_Cons [of "Suc b"] dev_list_Cons [of 0])
    qed
    then show ?thesis
      unfolding st sc 1(3) by (rule found_in_skip [OF 1(4)])
  next
    case (2 hdr q m1)
    then have "bus_loop P match (pci_at (b, d, f)) m = dev_loop P match (pci_at (b, d, f)) m"
      using c by (subst bus_loop.simps) (simp add: pci_at_def)
    then show ?thesis
      using 2(3) unfolding sc by simp
  qed
qed


definition pci_class :: "(u32 \<Rightarrow> u32) \<Rightarrow> nat \<times> nat \<times> nat \<Rightarrow> u8 \<times> u8" where
  "pci_class c q = (ucast (drop_bit 24 (pci_reg c q 8)), ucast (drop_bit 16 (pci_reg c q 8)))"

definition pci_id :: "(u32 \<Rightarrow> u32) \<Rightarrow> nat \<times> nat \<times> nat \<Rightarrow> u16 \<times> u16" where
  "pci_id c q = (ucast (pci_reg c q 0), ucast (drop_bit 16 (pci_reg c q 0)))"

lemma header_class: "header_of c q h \<Longrightarrow> hdr_classCode h = cl \<and> hdr_subclass h = sub \<longleftrightarrow> pci_class c q = (cl, sub)"
  by (simp add: header_of_def pci_class_def hdr_classCode_def hdr_subclass_def)

lemma header_id: "header_of c q h \<Longrightarrow> hdr_vendor h = v \<and> hdr_device h = dv \<longleftrightarrow> pci_id c q = (v, dv)"
  by (simp add: header_of_def pci_id_def hdr_vendor_def hdr_device_def)

lemma findNextDevice_some:
  assumes "pci_host P cfg adr" "b < 256" "d < 32" "f \<le> 8"
    "find (\<lambda>q. pci_present (cfg m) q \<and> pci_class (cfg m) q = (cl, sub)) (scan_from (cfg m) (b, d, f)) = Some q"
  shows "\<exists>hdr m'. PCI_findNextDevice P (Some (pci_at (b, d, f))) cl sub m = Some (Some hdr, Some (pci_at q), m') \<and>
    header_of (cfg m) q hdr \<and> cfg m' = cfg m"
  using bus_loop_on [where match = "\<lambda>h. hdr_classCode h = cl \<and> hdr_subclass h = sub" and mt = "\<lambda>q. pci_class (cfg m) q = (cl, sub)" and m = m,
      OF assms(1) header_class assms(2-4)] assms(5) by (auto simp: found_in_def PCI_findNextDevice_def)

lemma findNextDevice_none:
  assumes "pci_host P cfg adr" "b < 256" "d < 32" "f \<le> 8"
    "find (\<lambda>q. pci_present (cfg m) q \<and> pci_class (cfg m) q = (cl, sub)) (scan_from (cfg m) (b, d, f)) = None"
  shows "\<exists>m'. PCI_findNextDevice P (Some (pci_at (b, d, f))) cl sub m = Some (None, Some (pci_at (256, 0, 0)), m') \<and> cfg m' = cfg m"
  using bus_loop_on [where match = "\<lambda>h. hdr_classCode h = cl \<and> hdr_subclass h = sub" and mt = "\<lambda>q. pci_class (cfg m) q = (cl, sub)" and m = m,
      OF assms(1) header_class assms(2-4)] assms(5) by (auto simp: found_in_def PCI_findNextDevice_def)

lemma findNextDeviceByVendor_some:
  assumes "pci_host P cfg adr" "b < 256" "d < 32" "f \<le> 8"
    "find (\<lambda>q. pci_present (cfg m) q \<and> pci_id (cfg m) q = (v, dv)) (scan_from (cfg m) (b, d, f)) = Some q"
  shows "\<exists>hdr m'. PCI_findNextDeviceByVendor P (Some (pci_at (b, d, f))) v dv m = Some (Some hdr, Some (pci_at q), m') \<and>
    header_of (cfg m) q hdr \<and> cfg m' = cfg m"
  using bus_loop_on [where match = "\<lambda>h. hdr_vendor h = v \<and> hdr_device h = dv" and mt = "\<lambda>q. pci_id (cfg m) q = (v, dv)" and m = m,
      OF assms(1) header_id assms(2-4)] assms(5) by (auto simp: found_in_def PCI_findNextDeviceByVendor_def)

lemma findNextDeviceByVendor_none:
  assumes "pci_host P cfg adr" "b < 256" "d < 32" "f \<le> 8"
    "find (\<lambda>q. pci_present (cfg m) q \<and> pci_id (cfg m) q = (v, dv)) (scan_from (cfg m) (b, d, f)) = None"
  shows "\<exists>m'. PCI_findNextDeviceByVendor P (Some (pci_at (b, d, f))) v dv m = Some (None, Some (pci_at (256, 0, 0)), m') \<and> cfg m' = cfg m"
  using bus_loop_on [where match = "\<lambda>h. hdr_vendor h = v \<and> hdr_device h = dv" and mt = "\<lambda>q. pci_id (cfg m) q = (v, dv)" and m = m,
      OF assms(1) header_id assms(2-4)] assms(5) by (auto simp: found_in_def PCI_findNextDeviceByVendor_def)

text \<open>The walk stays on the bus, and a function 0 is the first of the functions from its own position on.\<close>

lemma visit_bounds: "q \<in> set (visit c b d multi f) \<Longrightarrow> \<exists>g. q = (b, d, g) \<and> g < 8"
proof (induction c b d multi f rule: visit.induct)
  case (1 c b d multi f)
  then show ?case
    by (subst (asm) (2) visit.simps) (auto split: if_splits)
qed

lemma scan_from_bounds:
  assumes "(b', d', f') \<in> set (scan_from c (b, d, f))" "b < 256" "d < 32"
  shows "b' < 256 \<and> d' < 32 \<and> f' < 8"
  using assms by (fastforce simp: scan_from_def dev_list_def bus_list_def dest: visit_bounds)

lemma scan_from_function_0: "scan_from c (b, d, 0) = (b, d, 0) # tl (scan_from c (b, d, 0))"
  by (simp add: scan_from_def visit.simps [of c b d False 0])

lemma find_SomeD: "find Q xs = Some x \<Longrightarrow> Q x \<and> x \<in> set xs"
  by (induction xs) (auto split: if_splits)

section \<open>The functions of the bus\<close>

text \<open>
  What there is on the bus, apart from any search: a position \<open>(b, d, f)\<close> holds a function if one answers there, and for \<open>f\<close>
  above 0 if function 0 of the device has the multi-function bit.  \<open>bus_pos\<close> numbers the positions in order, and \<open>first_from\<close>
  is the first function with a property at position number \<open>n\<close> or behind it.
\<close>

definition bus_pos :: "nat \<times> nat \<times> nat \<Rightarrow> nat" where
  "bus_pos q = (case q of (b, d, f) \<Rightarrow> 256 * b + 8 * d + f)"

definition on_bus :: "(u32 \<Rightarrow> u32) \<Rightarrow> nat \<times> nat \<times> nat \<Rightarrow> bool" where
  "on_bus c q = (case q of (b, d, f) \<Rightarrow> b < 256 \<and> d < 32 \<and> f < 8 \<and> pci_present c q \<and> (f = 0 \<or> pci_multi c (b, d, 0)))"

definition first_from :: "(u32 \<Rightarrow> u32) \<Rightarrow> (nat \<times> nat \<times> nat \<Rightarrow> bool) \<Rightarrow> nat \<Rightarrow> nat \<times> nat \<times> nat \<Rightarrow> bool" where
  "first_from c Q n q \<longleftrightarrow> on_bus c q \<and> Q q \<and> n \<le> bus_pos q \<and> (\<forall>q'. on_bus c q' \<and> Q q' \<and> n \<le> bus_pos q' \<longrightarrow> bus_pos q \<le> bus_pos q')"

lemma set_visit: "q \<in> set (visit c b d False 0) \<longleftrightarrow> (\<exists>f. q = (b, d, f) \<and> f < 8 \<and> (f = 0 \<or> pci_multi c (b, d, 0)))"
  by (auto simp: visit_device)

lemma set_dev_list: "q \<in> set (dev_list c b d) \<longleftrightarrow>
    (\<exists>d' f. q = (b, d', f) \<and> d \<le> d' \<and> d' < 32 \<and> f < 8 \<and> (f = 0 \<or> pci_multi c (b, d', 0)))"
  by (auto simp: dev_list_def set_visit)

lemma set_bus_list: "q \<in> set (bus_list c b) \<longleftrightarrow>
    (\<exists>b' d f. q = (b', d, f) \<and> b \<le> b' \<and> b' < 256 \<and> d < 32 \<and> f < 8 \<and> (f = 0 \<or> pci_multi c (b', d, 0)))"
  by (auto simp: bus_list_def set_dev_list)

lemma sorted_dev_list: "sorted_wrt (\<lambda>x y. bus_pos x \<le> bus_pos y) (dev_list c b d)"
proof (induction "32 - d" arbitrary: d)
  case (Suc n)
  then have "sorted_wrt (\<lambda>x y. bus_pos x \<le> bus_pos y) (dev_list c b (Suc d))" "d < 32"
    by simp_all
  moreover have "sorted_wrt (\<lambda>x y. bus_pos x \<le> bus_pos y) (visit c b d False 0)"
    by (simp add: visit_device bus_pos_def upt_conv_Cons)
  moreover have "bus_pos x \<le> bus_pos y" if "x \<in> set (visit c b d False 0)" "y \<in> set (dev_list c b (Suc d))" for x y
    using that by (auto simp: set_visit set_dev_list bus_pos_def)
  ultimately show ?case
    by (simp add: dev_list_Cons sorted_wrt_append)
qed (simp add: dev_list_def)

lemma sorted_bus_list: "sorted_wrt (\<lambda>x y. bus_pos x \<le> bus_pos y) (bus_list c b)"
proof (induction "256 - b" arbitrary: b)
  case (Suc n)
  then have "sorted_wrt (\<lambda>x y. bus_pos x \<le> bus_pos y) (bus_list c (Suc b))" "b < 256"
    by simp_all
  moreover have "bus_pos x \<le> bus_pos y" if "x \<in> set (dev_list c b 0)" "y \<in> set (bus_list c (Suc b))" for x y
    using that by (auto simp: set_dev_list set_bus_list bus_pos_def)
  ultimately show ?case
    using sorted_dev_list [of c b 0] by (simp add: bus_list_Cons sorted_wrt_append)
qed (simp add: bus_list_def)

text \<open>The search goes over the functions from a position on, or from the next device on if the position is not a function 0.\<close>

definition search_start :: "nat \<times> nat \<times> nat \<Rightarrow> nat" where
  "search_start q = (case q of (b, d, f) \<Rightarrow> bus_pos (b, if f = 0 then d else Suc d, 0))"

lemma scan_from_functions:
  assumes "b < 256" "d < 32"
  shows "sorted_wrt (\<lambda>x y. bus_pos x \<le> bus_pos y) (scan_from c (b, d, f))"
    "q \<in> set (scan_from c (b, d, f)) \<and> pci_present c q \<longleftrightarrow> on_bus c q \<and> search_start (b, d, f) \<le> bus_pos q"
proof -
  define e where "e = (if f = 0 then d else Suc d)"
  have s: "scan_from c (b, d, f) = dev_list c b e @ bus_list c (Suc b)"
    using assms(2) by (simp add: scan_from_def e_def dev_list_Cons visit_rest)
  have "bus_pos x \<le> bus_pos y" if "x \<in> set (dev_list c b e)" "y \<in> set (bus_list c (Suc b))" for x y
    using that by (auto simp: set_dev_list set_bus_list bus_pos_def)
  then show "sorted_wrt (\<lambda>x y. bus_pos x \<le> bus_pos y) (scan_from c (b, d, f))"
    using sorted_dev_list [of c b e] sorted_bus_list [of c "Suc b"] by (simp add: s sorted_wrt_append)
  obtain b' d' f' where q: "q = (b', d', f')"
    by (cases q)
  have "search_start (b, d, f) = 256 * b + 8 * e"
    by (simp add: search_start_def bus_pos_def e_def)
  then have pos: "search_start (b, d, f) \<le> bus_pos q \<longleftrightarrow> b' = b \<and> e \<le> d' \<or> b < b'" if "d' < 32" "f' < 8"
    using that assms(2) by (cases "b = b'") (auto simp: e_def bus_pos_def q)
  then show "q \<in> set (scan_from c (b, d, f)) \<and> pci_present c q \<longleftrightarrow> on_bus c q \<and> search_start (b, d, f) \<le> bus_pos q"
  proof (cases "d' < 32 \<and> f' < 8")
    case True
    then show ?thesis
      using assms(1) pos unfolding s q by (auto simp: set_dev_list set_bus_list on_bus_def)
  qed (auto simp: s set_dev_list set_bus_list on_bus_def q)
qed

lemma find_sorted:
  assumes "sorted_wrt (\<lambda>x y. g x \<le> (g y :: nat)) xs"
  shows "case find P xs of None \<Rightarrow> \<forall>x \<in> set xs. \<not> P x | Some x \<Rightarrow> x \<in> set xs \<and> P x \<and> (\<forall>y \<in> set xs. P y \<longrightarrow> g x \<le> g y)"
  using assms by (induction xs) (auto split: option.splits)

lemma scan_first:
  assumes "b < 256" "d < 32"
  shows "case find (\<lambda>q. pci_present c q \<and> Q q) (scan_from c (b, d, f)) of
      None \<Rightarrow> \<nexists>q. first_from c Q (search_start (b, d, f)) q
    | Some q \<Rightarrow> first_from c Q (search_start (b, d, f)) q"
proof -
  note s = scan_from_functions [OF assms, where c = c and f = f]
  show ?thesis
    using find_sorted [OF s(1), of "\<lambda>q. pci_present c q \<and> Q q"] s(2) unfolding first_from_def
    by (cases "find (\<lambda>q. pci_present c q \<and> Q q) (scan_from c (b, d, f))") (simp_all, blast+)
qed

lemma first_from_unique: "first_from c Q n q \<Longrightarrow> first_from c Q n q' \<Longrightarrow> q = q'"
proof -
  assume a: "first_from c Q n q" "first_from c Q n q'"
  obtain b d f b' d' f' where q: "q = (b, d, f)" "q' = (b', d', f')"
    by (cases q, cases q')
  have "256 * b + 8 * d + f = bus_pos q" "256 * b' + 8 * d' + f' = bus_pos q'"
    by (simp_all add: bus_pos_def q)
  moreover have "bus_pos q = bus_pos q'"
    using a unfolding first_from_def by (blast intro: le_antisym)
  moreover have l: "d < 32" "f < 8" "d' < 32" "f' < 8"
    using a by (auto simp: first_from_def on_bus_def q)
  ultimately have e: "256 * b + 8 * d + f = 256 * b' + 8 * d' + f'"
    by simp
  then have "b = b'"
    using l by linarith
  moreover from this have "d = d'"
    using e l by linarith
  ultimately show ?thesis
    using e by (simp add: q)
qed

section \<open>Properties\<close>

text \<open>
  C30: From a position with function 0, \<^verbatim>\<open>findNextDevice\<close> and \<^verbatim>\<open>findNextDeviceByVendor\<close> return, and give the first function
  of the bus at that position or behind it that has the class (the identification): the iterator stands on it and the header
  holds its first 16 registers and its position.  When there is none they give \<^verbatim>\<open>nullptr\<close> and leave the iterator behind the last
  bus.  From a position with a function above 0 they pass over the functions of that device, this one and those behind it, and
  give the first from the next device on.
\<close>

theorem findNextDevice_first:
  assumes "pci_host P cfg adr" "b < 256" "d < 32" "f \<le> 8"
    "n = (if f = 0 then bus_pos (b, d, 0) else bus_pos (b, Suc d, 0))"
  shows "(\<exists>h it m'. PCI_findNextDevice P (Some (pci_at (b, d, f))) cl sub m = Some (h, Some it, m') \<and> cfg m' = cfg m \<and>
      ((\<exists>q hdr. first_from (cfg m) (\<lambda>q. pci_class (cfg m) q = (cl, sub)) n q \<and> it = pci_at q \<and> h = Some hdr \<and> header_of (cfg m) q hdr) \<or>
       (\<nexists>q. first_from (cfg m) (\<lambda>q. pci_class (cfg m) q = (cl, sub)) n q) \<and> it = pci_at (256, 0, 0) \<and> h = None)) \<and>
    (\<exists>h it m'. PCI_findNextDeviceByVendor P (Some (pci_at (b, d, f))) v dv m = Some (h, Some it, m') \<and> cfg m' = cfg m \<and>
      ((\<exists>q hdr. first_from (cfg m) (\<lambda>q. pci_id (cfg m) q = (v, dv)) n q \<and> it = pci_at q \<and> h = Some hdr \<and> header_of (cfg m) q hdr) \<or>
       (\<nexists>q. first_from (cfg m) (\<lambda>q. pci_id (cfg m) q = (v, dv)) n q) \<and> it = pci_at (256, 0, 0) \<and> h = None))"
proof -
  have n: "n = search_start (b, d, f)"
    using assms(5) by (simp add: search_start_def)
  note s = scan_first [OF assms(2,3), of "cfg m" "\<lambda>q. pci_class (cfg m) q = (cl, sub)" f]
    scan_first [OF assms(2,3), of "cfg m" "\<lambda>q. pci_id (cfg m) q = (v, dv)" f]
  note cl = findNextDevice_some [OF assms(1-4), of m cl sub] findNextDevice_none [OF assms(1-4), of m cl sub]
  note vd = findNextDeviceByVendor_some [OF assms(1-4), of m v dv] findNextDeviceByVendor_none [OF assms(1-4), of m v dv]
  show ?thesis
    unfolding n
  proof (rule conjI, goal_cases)
    case 1
    show ?case
      using s(1) cl by (cases "find (\<lambda>q. pci_present (cfg m) q \<and> pci_class (cfg m) q = (cl, sub)) (scan_from (cfg m) (b, d, f))") fastforce+
  next
    case 2
    show ?case
      using s(2) vd by (cases "find (\<lambda>q. pci_present (cfg m) q \<and> pci_id (cfg m) q = (v, dv)) (scan_from (cfg m) (b, d, f))") fastforce+
  qed
qed

text \<open>A machine with one function on the bus, an IDE controller in function 0 of device 3, and its registers.\<close>

record pc =
  pc_adr :: u32
  pc_cfg :: "u32 \<Rightarrow> u32"

definition pc_ports :: "pc ports" where
  "pc_ports =
     \<lparr>pt_in8 = \<lambda>p m. (0, m), pt_in16 = \<lambda>p m. (0, m), pt_in32 = \<lambda>p m. (if p = 0xCFC then pc_cfg m (pc_adr m) else 0, m),
      pt_out8 = \<lambda>p v m. m, pt_out16 = \<lambda>p v m. m, pt_out32 = \<lambda>p v m. if p = 0xCF8 then m\<lparr>pc_adr := v\<rparr> else m,
      pt_sleep = \<lambda>t m. m, pt_alloc = \<lambda>m. (Some (replicate 32 0xDEADBEEF), m)\<rparr>"

definition ide_regs :: "u32 \<Rightarrow> u32" where
  "ide_regs a = (if a = 0x80001800 then 0x12348086 else if a = 0x80001808 then 0x01010000 else if a = 0x8000180C then 0 else 0xFFFFFFFF)"

lemma pc_host: "pci_host pc_ports pc_cfg pc_adr"
  by (simp add: pci_host_def pc_ports_def PCI_PORT_CONFIG_ADDR_def PCI_PORT_CONFIG_DATA_def)

lemma ide_addresses:
  "pci_reg c (0, 0, 0) 0 = c 0x80000000" "pci_reg c (0, Suc 0, 0) 0 = c 0x80000800" "pci_reg c (0, 2, 0) 0 = c 0x80001000"
  "pci_reg c (0, 3, 0) 0 = c 0x80001800" "pci_reg c (0, 3, 0) 8 = c 0x80001808"
  by (simp_all add: pci_reg_def PCI_getPciAddr_def)

lemma ide_regs_simps:
  "pci_present ide_regs (0, 3, 0)" "pci_class ide_regs (0, 3, 0) = (1, 1)" "\<not> pci_present ide_regs (0, 0, 0)"
  "\<not> pci_present ide_regs (0, Suc 0, 0)" "\<not> pci_present ide_regs (0, 2, 0)"
  by (simp_all add: pci_present_def pci_class_def ide_addresses ide_regs_def)

lemma ide_found: "find (\<lambda>q. pci_present ide_regs q \<and> pci_class ide_regs q = (1, 1)) (scan_from ide_regs (0, 0, 0)) = Some (0, 3, 0)"
proof -
  have v: "visit ide_regs 0 d False 0 = [(0, d, 0)]" if "\<not> pci_present ide_regs (0, d, 0)" for d
    using that by (simp add: visit_device pci_multi_def)
  obtain qs where qs: "visit ide_regs 0 3 False 0 = (0, 3, 0) # qs"
    using visit.simps [of ide_regs 0 3 False 0] by simp
  have "dev_list ide_regs 0 (Suc 0) = visit ide_regs 0 (Suc 0) False 0 @ visit ide_regs 0 2 False 0 @ visit ide_regs 0 3 False 0 @ dev_list ide_regs 0 4"
    using dev_list_Cons [of "Suc 0" ide_regs 0] dev_list_Cons [of 2 ide_regs 0] dev_list_Cons [of 3 ide_regs 0] by (simp add: numeral_eq_Suc)
  then show ?thesis
    using ide_regs_simps by (simp add: scan_from_def v qs)
qed

lemma ide_first: "first_from ide_regs (\<lambda>q. pci_class ide_regs q = (1, 1)) 0 q \<longleftrightarrow> q = (0, 3, 0)"
proof -
  have "search_start (0, 0, 0) = 0"
    by (simp add: search_start_def bus_pos_def)
  then have "first_from ide_regs (\<lambda>q. pci_class ide_regs q = (1, 1)) 0 (0, 3, 0)"
    using scan_first [of 0 0 ide_regs "\<lambda>q. pci_class ide_regs q = (1, 1)" 0] ide_found by simp
  then show ?thesis
    using first_from_unique by blast
qed

theorem findNextDevice_first_witness:
  "\<exists>hdr m'. PCI_findNextDevice pc_ports (Some PCI_startIter) 1 1 \<lparr>pc_adr = 0, pc_cfg = ide_regs\<rparr> =
     Some (Some hdr, Some (pci_at (0, 3, 0)), m') \<and> header_of ide_regs (0, 3, 0) hdr"
proof -
  have "PCI_startIter = pci_at (0, 0, 0)"
    by (simp add: PCI_startIter_def pci_at_def)
  then show ?thesis
    using findNextDevice_first [OF pc_host, where b = 0 and d = 0 and f = 0 and n = 0 and cl = 1 and sub = 1 and v = 0 and dv = 0 and m = "\<lparr>pc_adr = 0, pc_cfg = ide_regs\<rparr>"] ide_first
    by (auto simp: bus_pos_def)
qed

text \<open>
  The walk does not advance.  \<^verbatim>\<open>findNextDevice\<close> leaves the iterator on the function that it returns: called again it returns
  function 0 of a device again, without end.  Behind a function above 0 it goes on with the next device and skips
  the other functions of this one.
\<close>

theorem findNextDevice_repeats:
  assumes "pci_host P cfg adr" "PCI_findNextDevice P (Some (pci_at (b, d, f))) cl sub m = Some (Some hdr, Some it, m')"
    "b < 256" "d < 32" "f \<le> 8"
  shows "\<exists>b' d' f'. b' < 256 \<and> d' < 32 \<and> f' < 8 \<and> it = pci_at (b', d', f') \<and>
    (if f' = 0 then \<exists>hdr' m''. PCI_findNextDevice P (Some it) cl sub m' = Some (Some hdr', Some it, m'')
     else \<forall>g. (b', d', g) \<notin> set (scan_from (cfg m') (b', d', f')))"
proof -
  obtain q where q: "find (\<lambda>q. pci_present (cfg m) q \<and> pci_class (cfg m) q = (cl, sub)) (scan_from (cfg m) (b, d, f)) = Some q"
    "it = pci_at q" "cfg m' = cfg m"
    using findNextDevice_some [OF assms(1,3-5), of m cl sub] findNextDevice_none [OF assms(1,3-5), of m cl sub] assms(2)
    by (cases "find (\<lambda>q. pci_present (cfg m) q \<and> pci_class (cfg m) q = (cl, sub)) (scan_from (cfg m) (b, d, f))") auto
  obtain b' d' f' where e: "q = (b', d', f')"
    by (cases q)
  have in_q: "pci_present (cfg m) q" "pci_class (cfg m) q = (cl, sub)" "b' < 256" "d' < 32" "f' < 8"
    using find_SomeD [OF q(1)] scan_from_bounds [OF _ assms(3,4)] e by auto
  show ?thesis
  proof (cases "f' = 0")
    case True
    then have "find (\<lambda>q. pci_present (cfg m') q \<and> pci_class (cfg m') q = (cl, sub)) (scan_from (cfg m') (b', d', 0)) = Some q"
      using in_q q(3) e by (subst scan_from_function_0) simp
    from findNextDevice_some [OF assms(1) in_q(3,4) _ this]
    have "\<exists>hdr' m''. PCI_findNextDevice P (Some it) cl sub m' = Some (Some hdr', Some it, m'')"
      using q(2) e True by auto
    then show ?thesis
      using q(2) e True in_q(3-5) by auto
  next
    case False
    then have "(b', d', g) \<notin> set (scan_from (cfg m') (b', d', f'))" for g
      by (auto simp: scan_from_def visit_rest dev_list_def bus_list_def dest: visit_bounds)
    then show ?thesis
      using q(2) e False in_q(3-5) by (intro exI [of _ b'] exI [of _ d'] exI [of _ f']) simp
  qed
qed

theorem findNextDevice_repeats_witness:
  "\<exists>hdr hdr' m' m''. PCI_findNextDevice pc_ports (Some (pci_at (0, 0, 0))) 1 1 \<lparr>pc_adr = 0, pc_cfg = ide_regs\<rparr> =
     Some (Some hdr, Some (pci_at (0, 3, 0)), m') \<and>
     PCI_findNextDevice pc_ports (Some (pci_at (0, 3, 0))) 1 1 m' = Some (Some hdr', Some (pci_at (0, 3, 0)), m'')"
proof -
  obtain hdr m' where 1: "PCI_findNextDevice pc_ports (Some (pci_at (0, 0, 0))) 1 1 \<lparr>pc_adr = 0, pc_cfg = ide_regs\<rparr> =
     Some (Some hdr, Some (pci_at (0, 3, 0)), m')"
    using findNextDevice_some [OF pc_host, of 0 0 0 "\<lparr>pc_adr = 0, pc_cfg = ide_regs\<rparr>" 1 1] ide_found by auto
  have f0: "f = 0" if "pci_at (0, 3, 0) = pci_at (b', d', f)" "f < 8" for b' d' f
  proof -
    have "(of_nat f :: u32) = 0"
      using that(1) by (simp add: pci_at_def)
    then show ?thesis
      using of_nat_u32_eq_iff [of f 0] that(2) by simp
  qed
  show ?thesis
    using findNextDevice_repeats [OF pc_host 1] f0 1 by fastforce
qed

end
