(* ===== verification/Ata_Driver.thy ===== *)
theory Ata_Driver
  imports Pci_Bus Block_Device
begin

text \<open>
  The ATA driver: \<^verbatim>\<open>src/ata.cpp\<close>, \<^verbatim>\<open>inc/ata.hh\<close>.

  A \<^verbatim>\<open>DevicePrivate\<close> is an \<open>ata_dev\<close>; its operations act on the machine through \<open>ports\<close>.  Its member \<^verbatim>\<open>m_ata\<close> is set by the
  constructor, always to the one \<^verbatim>\<open>ATA\<close> object, and is left out, with the test for \<^verbatim>\<open>nullptr\<close> in \<^verbatim>\<open>read\<close>.  \<^verbatim>\<open>m_model\<close> is
  indeterminate (\<^term>\<open>None\<close>) until \<^verbatim>\<open>detect\<close> sets it.  The \<^verbatim>\<open>ATA\<close> object has its chain of devices (\<open>Block_Device\<close>), the devices by
  address and the numbers of the interrupts for which it installed its handler.  Messages on the console are left out.
\<close>

section \<open>Constants and devices\<close>

definition ATA_MODE_LBA :: u8 where "ATA_MODE_LBA = 0x40"
definition ATA_MODE_PIO :: u8 where "ATA_MODE_PIO = 0"
definition ATA_DEVSEL_CONST :: u8 where "ATA_DEVSEL_CONST = 0xA0"
definition ATA_CMD_READ :: u8 where "ATA_CMD_READ = 0x20"
definition ATA_CMD_READ_48 :: u8 where "ATA_CMD_READ_48 = 0x24"
definition ATA_CMD_READ_DMA :: u8 where "ATA_CMD_READ_DMA = 0xC8"
definition ATA_CMD_READ_DMA_48 :: u8 where "ATA_CMD_READ_DMA_48 = 0x25"
definition ATA_CMD_WRITE :: u8 where "ATA_CMD_WRITE = 0x30"
definition ATA_CMD_WRITE_48 :: u8 where "ATA_CMD_WRITE_48 = 0x34"
definition ATA_CMD_WRITE_DMA :: u8 where "ATA_CMD_WRITE_DMA = 0xCA"
definition ATA_CMD_WRITE_DMA_48 :: u8 where "ATA_CMD_WRITE_DMA_48 = 0x35"
definition ATA_CMD_FLUSH :: u8 where "ATA_CMD_FLUSH = 0xE7"
definition ATA_CMD_FLUSH_48 :: u8 where "ATA_CMD_FLUSH_48 = 0xEA"
definition ATA_CMD_IDENTIFY_PACKET :: u8 where "ATA_CMD_IDENTIFY_PACKET = 0xA1"
definition ATA_CMD_IDENTIFY :: u8 where "ATA_CMD_IDENTIFY = 0xEC"
definition ATA_STATUS_ERROR :: u8 where "ATA_STATUS_ERROR = 0x01"
definition ATA_STATUS_DRQ :: u8 where "ATA_STATUS_DRQ = 0x08"
definition ATA_STATUS_DF :: u8 where "ATA_STATUS_DF = 0x20"
definition ATA_STATUS_BUSY :: u8 where "ATA_STATUS_BUSY = 0x80"
definition ATA_IDENT_CYLINDERS :: nat where "ATA_IDENT_CYLINDERS = 2"
definition ATA_IDENT_HEADS :: nat where "ATA_IDENT_HEADS = 6"
definition ATA_IDENT_SECTORS :: nat where "ATA_IDENT_SECTORS = 12"
definition ATA_IDENT_CAPABILITIES :: nat where "ATA_IDENT_CAPABILITIES = 98"
definition ATA_IDENT_MAX_LBA :: nat where "ATA_IDENT_MAX_LBA = 120"
definition ATA_MAX_WAIT_CNT :: u32 where "ATA_MAX_WAIT_CNT = 0xFFF"
definition ATA_INTERRUPT_BASE :: u32 where "ATA_INTERRUPT_BASE = 14"

datatype device_model = STORAGE_UNKNOWN | STORAGE_PATA | STORAGE_PATAPI | STORAGE_SATA | STORAGE_SATAPI | STORAGE_USB

datatype ata_type = ATAMaster | ATASlave

record ata_dev =
  ad_basePort :: u32
  ad_basePort2 :: u32
  ad_size :: u32
  ad_irq :: bool
  ad_avail :: bool
  ad_lba :: bool
  ad_lba48 :: bool
  ad_dma :: bool
  ad_type :: ata_type
  ad_model :: "device_model option"
  ad_mode :: u8
  ad_cyl :: u16
  ad_sect :: u8
  ad_head :: u8

definition DevicePrivate_new :: ata_dev where
  "DevicePrivate_new = \<lparr>ad_basePort = 0, ad_basePort2 = 0, ad_size = 0, ad_irq = False, ad_avail = False, ad_lba = False,
     ad_lba48 = False, ad_dma = False, ad_type = ATAMaster, ad_model = None, ad_mode = 0, ad_cyl = 0, ad_sect = 0, ad_head = 0\<rparr>"

definition DevicePrivate_size :: "ata_dev \<Rightarrow> u32" where "DevicePrivate_size d = ad_size d"
definition DevicePrivate_model :: "ata_dev \<Rightarrow> device_model option" where "DevicePrivate_model d = ad_model d"

definition port_data :: "ata_dev \<Rightarrow> u32" where "port_data d = ad_basePort d"
definition port_secCount :: "ata_dev \<Rightarrow> u32" where "port_secCount d = ad_basePort d + 2"
definition port_LBA0 :: "ata_dev \<Rightarrow> u32" where "port_LBA0 d = ad_basePort d + 3"
definition port_LBA1 :: "ata_dev \<Rightarrow> u32" where "port_LBA1 d = ad_basePort d + 4"
definition port_LBA2 :: "ata_dev \<Rightarrow> u32" where "port_LBA2 d = ad_basePort d + 5"
definition port_LBA3 :: "ata_dev \<Rightarrow> u32" where "port_LBA3 d = ad_basePort d + 3"
definition port_LBA4 :: "ata_dev \<Rightarrow> u32" where "port_LBA4 d = ad_basePort d + 4"
definition port_LBA5 :: "ata_dev \<Rightarrow> u32" where "port_LBA5 d = ad_basePort d + 5"
definition port_devSel :: "ata_dev \<Rightarrow> u32" where "port_devSel d = ad_basePort d + 6"
definition port_command :: "ata_dev \<Rightarrow> u32" where "port_command d = ad_basePort d + 7"
definition port_status :: "ata_dev \<Rightarrow> u32" where "port_status d = ad_basePort d + 7"
definition port_altStatus :: "ata_dev \<Rightarrow> u32" where "port_altStatus d = ad_basePort2 d + 2"
definition port_control :: "ata_dev \<Rightarrow> u32" where "port_control d = ad_basePort2 d + 2"

lemmas port_defs = port_data_def port_secCount_def port_LBA0_def port_LBA1_def port_LBA2_def port_LBA3_def port_LBA4_def
  port_LBA5_def port_devSel_def port_command_def port_status_def port_altStatus_def port_control_def

section \<open>Ports, status and waiting\<close>

definition DevicePrivate_read :: "'m ports \<Rightarrow> u32 \<Rightarrow> 'm \<Rightarrow> u8 \<times> 'm" where
  "DevicePrivate_read P port m = systemPortIn P port m"

definition DevicePrivate_write :: "'m ports \<Rightarrow> u32 \<Rightarrow> u8 \<Rightarrow> 'm \<Rightarrow> 'm" where
  "DevicePrivate_write P port v m = systemPortOut P port v m"

definition DevicePrivate_write16 :: "'m ports \<Rightarrow> u32 \<Rightarrow> u16 \<Rightarrow> 'm \<Rightarrow> 'm" where
  "DevicePrivate_write16 P port v m = systemPortOut16 P port v m"

definition DevicePrivate_getSecCount :: "'m ports \<Rightarrow> ata_dev \<Rightarrow> 'm \<Rightarrow> u32 \<times> 'm" where
  "DevicePrivate_getSecCount P d m = (let (v, m) = systemPortIn16 P (port_secCount d) m in (ucast v, m))"

text \<open>The bytes of a 32-bit word in memory, and the word of four bytes.\<close>

definition word_bytes :: "u32 \<Rightarrow> u8 list" where
  "word_bytes w = [ucast w, ucast (drop_bit 8 w), ucast (drop_bit 16 w), ucast (drop_bit 24 w)]"

definition bytes_word :: "u8 list \<Rightarrow> u32" where
  "bytes_word bs = ucast (bs ! 0) OR push_bit 8 (ucast (bs ! 1)) OR push_bit 16 (ucast (bs ! 2)) OR push_bit 24 (ucast (bs ! 3))"

text \<open>\<open>off\<close> is the position of \<^verbatim>\<open>ptr\<close> in the buffer; outside the buffer there is no defined result.\<close>

partial_function (option) DevicePrivate_readBuffer ::
  "'m ports \<Rightarrow> u32 \<Rightarrow> u8 list \<Rightarrow> nat \<Rightarrow> u32 \<Rightarrow> 'm \<Rightarrow> (u8 list \<times> 'm) option" where
  "DevicePrivate_readBuffer P port buf off n m =
     (if n > 0 then do {
        let (a, m) = systemPortIn16 P port m;
        let (b, m) = systemPortIn16 P port m;
        buf \<leftarrow> buf_write off (word_bytes (ucast a + push_bit 16 (ucast b))) buf;
        DevicePrivate_readBuffer P port buf (off + 4) (n - 4) m }
      else Some (buf, m))"

partial_function (option) DevicePrivate_writeBuffer ::
  "'m ports \<Rightarrow> u32 \<Rightarrow> u8 list \<Rightarrow> nat \<Rightarrow> u32 \<Rightarrow> 'm \<Rightarrow> 'm option" where
  "DevicePrivate_writeBuffer P port buf off n m =
     (if n > 0 then do {
        bs \<leftarrow> buf_read off 4 buf;
        DevicePrivate_writeBuffer P port buf (off + 4) (n - 4) (systemPortOut32 P port (bytes_word bs) m) }
      else Some m)"

fun alt_reads :: "nat \<Rightarrow> 'm ports \<Rightarrow> ata_dev \<Rightarrow> 'm \<Rightarrow> 'm" where
  "alt_reads 0 P d m = m"
| "alt_reads (Suc k) P d m = alt_reads k P d (snd (DevicePrivate_read P (port_altStatus d) m))"

definition DevicePrivate_wait :: "'m ports \<Rightarrow> ata_dev \<Rightarrow> 'm \<Rightarrow> 'm" where
  "DevicePrivate_wait P d m = pt_sleep P 1 (alt_reads 5 P d m)"

definition DevicePrivate_getStatus :: "'m ports \<Rightarrow> ata_dev \<Rightarrow> 'm \<Rightarrow> u8 \<times> 'm" where
  "DevicePrivate_getStatus P d m = DevicePrivate_read P (port_status d) m"

text \<open>The two loops of \<^verbatim>\<open>waitStatus\<close>; the counter is compared before it is incremented.\<close>

function busy_loop :: "'m ports \<Rightarrow> ata_dev \<Rightarrow> u32 \<Rightarrow> 'm \<Rightarrow> bool \<times> 'm" where
  "busy_loop P d cnt m =
     (let (stat, m) = DevicePrivate_getStatus P d m
      in if cnt > ATA_MAX_WAIT_CNT then (False, m)
         else if stat AND ATA_STATUS_BUSY \<noteq> 0 then busy_loop P d (cnt + 1) m else (True, m))"
  by pat_completeness auto

lemma wait_measure: "\<not> cnt > ATA_MAX_WAIT_CNT \<Longrightarrow> 0x1001 - unat (cnt + 1) < 0x1001 - unat cnt"
proof -
  assume "\<not> cnt > ATA_MAX_WAIT_CNT"
  then have "cnt < 0x1000"
    by (simp add: ATA_MAX_WAIT_CNT_def not_less) (simp add: word_less_nat_alt word_le_nat_alt)
  then have "0x1000 - unat (cnt + 1) < 0x1000 - unat cnt"
    by (rule count_up_measure) simp
  then show ?thesis
    by simp
qed

termination busy_loop
  by (relation "measure (\<lambda>(P, d, cnt, m). 0x1001 - unat cnt)") (auto intro: wait_measure)

function extra_loop :: "'m ports \<Rightarrow> ata_dev \<Rightarrow> u8 \<Rightarrow> u8 \<Rightarrow> u32 \<Rightarrow> 'm \<Rightarrow> bool \<times> 'm" where
  "extra_loop P d extra extra_val cnt m =
     (let (stat, m) = DevicePrivate_getStatus P d m
      in if cnt > ATA_MAX_WAIT_CNT then (False, m)
         else (let m = DevicePrivate_wait P d m
               in if stat AND extra \<noteq> extra_val then extra_loop P d extra extra_val (cnt + 1) m else (True, m)))"
  by pat_completeness auto

termination extra_loop
  by (relation "measure (\<lambda>(P, d, extra, extra_val, cnt, m). 0x1001 - unat cnt)") (auto intro: wait_measure)

declare busy_loop.simps [simp del] extra_loop.simps [simp del]

definition DevicePrivate_waitStatus :: "'m ports \<Rightarrow> ata_dev \<Rightarrow> u8 \<Rightarrow> u8 \<Rightarrow> 'm \<Rightarrow> bool \<times> 'm" where
  "DevicePrivate_waitStatus P d extra extra_val m =
     (let (ok, m) = busy_loop P d 0 m
      in if \<not> ok then (False, m)
         else if extra > 0 then extra_loop P d extra extra_val 0 m else (True, m))"

text \<open>\<^verbatim>\<open>reset\<close> writes to the status port, which is the command port.\<close>

definition DevicePrivate_reset :: "'m ports \<Rightarrow> ata_dev \<Rightarrow> 'm \<Rightarrow> bool \<times> 'm" where
  "DevicePrivate_reset P d m =
     DevicePrivate_waitStatus P d 0 0
       (DevicePrivate_wait P d (DevicePrivate_write P (port_status d) 0 (DevicePrivate_write P (port_status d) 4 m)))"

definition device_bit :: "ata_type \<Rightarrow> u8" where
  "device_bit t = push_bit 4 (case t of ATAMaster \<Rightarrow> 0 | ATASlave \<Rightarrow> 1)"

definition DevicePrivate_select :: "'m ports \<Rightarrow> ata_dev \<Rightarrow> u8 \<Rightarrow> 'm \<Rightarrow> 'm" where
  "DevicePrivate_select P d head m =
     DevicePrivate_wait P d
       (DevicePrivate_write P (port_devSel d) (ATA_DEVSEL_CONST OR ad_mode d OR device_bit (ad_type d) OR head) m)"

definition DevicePrivate_setHi :: "'m ports \<Rightarrow> ata_dev \<Rightarrow> 'm \<Rightarrow> 'm" where
  "DevicePrivate_setHi P d m =
     DevicePrivate_write P (port_control d) (if (0x80 + (if ad_irq d then 1 else 0) :: int) \<noteq> 0 then 0 else 0x2) m"

definition DevicePrivate_setLo :: "'m ports \<Rightarrow> ata_dev \<Rightarrow> 'm \<Rightarrow> 'm" where
  "DevicePrivate_setLo P d m = DevicePrivate_write P (port_control d) (if ad_irq d then 0 else 0x2) m"

definition DevicePrivate_poll :: "'m ports \<Rightarrow> ata_dev \<Rightarrow> bool \<Rightarrow> 'm \<Rightarrow> bool \<times> 'm" where
  "DevicePrivate_poll P d extra m =
     (let m = DevicePrivate_wait P d m; (ok, m) = DevicePrivate_waitStatus P d 0 0 m
      in if \<not> ok then (False, m)
         else if extra then
           (let (status, m) = DevicePrivate_getStatus P d m
            in (\<not> (status AND ATA_STATUS_ERROR > 0) \<and> \<not> (status AND ATA_STATUS_DF > 0) \<and> status AND ATA_STATUS_DRQ \<noteq> 0, m))
         else (True, m))"

section \<open>Access to sectors\<close>

text \<open>The address bytes and the head for a sector; without LBA the geometry divides, by zero when it is not known.\<close>

definition access_address :: "u32 \<Rightarrow> u32 \<Rightarrow> ata_dev \<Rightarrow> (u8 list \<times> u8 \<times> ata_dev) option" where
  "access_address addr addr_hi d =
     (if addr \<ge> 0x10000000 \<or> addr_hi > 0 then
        Some ([ucast (addr AND 0xFF), ucast (drop_bit 8 addr AND 0xFF), ucast (drop_bit 16 addr AND 0xFF),
               ucast (drop_bit 24 addr AND 0xFF), ucast (addr_hi AND 0xFF), ucast (drop_bit 8 addr_hi AND 0xFF)], 0,
              d\<lparr>ad_lba48 := True\<rparr>)
      else if ad_lba d then
        Some ([ucast (addr AND 0xFF), ucast (drop_bit 8 addr AND 0xFF), ucast (drop_bit 16 addr AND 0xFF), 0, 0, 0],
              ucast (drop_bit 24 (addr AND 0xF000000)), d)
      else
        (let sect = (if ad_sect d > 0 then ucast (addr mod ucast (ad_sect d) + 1) else 0 :: u8);
             per_cyl = ucast (ad_head d) * ucast (ad_sect d) :: u32
         in if per_cyl = 0 then None
            else (let cyl = ucast ((addr + 1 - ucast sect) div per_cyl) :: u16;
                      head = ucast ((addr + 1 - ucast sect) mod per_cyl div ucast (ad_sect d)) :: u8
                  in Some ([sect, ucast (cyl AND 0xFF), ucast (drop_bit 8 cyl AND 0xFF), 0, 0, 0], head, d))))"

definition hi_writes :: "'m ports \<Rightarrow> ata_dev \<Rightarrow> u8 list \<Rightarrow> 'm \<Rightarrow> 'm" where
  "hi_writes P d io m =
     (let hi = (\<lambda>port v m. DevicePrivate_setLo P d (DevicePrivate_write P port v (DevicePrivate_setHi P d m)))
      in hi (port_LBA5 d) (io ! 5) (hi (port_LBA4 d) (io ! 4) (hi (port_LBA3 d) (io ! 3) (hi (port_secCount d) 0 m))))"

definition lo_writes :: "'m ports \<Rightarrow> ata_dev \<Rightarrow> u16 \<Rightarrow> u8 list \<Rightarrow> 'm \<Rightarrow> 'm" where
  "lo_writes P d sectors io m =
     (let m = DevicePrivate_setLo P d m;
          m = DevicePrivate_write P (port_secCount d) (ucast sectors) m;
          m = DevicePrivate_write P (port_LBA0 d) (io ! 0) m;
          m = DevicePrivate_write P (port_LBA1 d) (io ! 1) m
      in DevicePrivate_write P (port_LBA2 d) (io ! 2) m)"

definition DevicePrivate_prepareAccess ::
  "'m ports \<Rightarrow> u16 \<Rightarrow> u32 \<Rightarrow> u32 \<Rightarrow> ata_dev \<Rightarrow> 'm \<Rightarrow> (bool \<times> ata_dev \<times> 'm) option" where
  "DevicePrivate_prepareAccess P sectors addr addr_hi d m =
     (let d = d\<lparr>ad_lba48 := False\<rparr>; (ok, m) = DevicePrivate_reset P d m
      in if \<not> ok then Some (False, d, m)
         else do {
           (io, head, d) \<leftarrow> access_address addr addr_hi d;
           let (ok, m) = DevicePrivate_waitStatus P d 0 0 m;
           (if \<not> ok then Some (False, d, m)
            else do {
              let m = DevicePrivate_select P d head m;
              let (ok, m) = DevicePrivate_waitStatus P d 0 0 m;
              (if \<not> ok then Some (False, d, m)
               else Some (True, d, lo_writes P d sectors io (if ad_lba48 d then hi_writes P d io m else m))) }) })"

definition read_command :: "ata_dev \<Rightarrow> u8" where
  "read_command d =
     (if ad_lba48 d \<and> ad_dma d then ATA_CMD_READ_DMA_48 else if ad_dma d then ATA_CMD_READ_DMA
      else if ad_lba48 d \<and> \<not> ad_dma d then ATA_CMD_READ_48 else ATA_CMD_READ)"

definition write_command :: "ata_dev \<Rightarrow> u8" where
  "write_command d =
     (if ad_lba48 d \<and> ad_dma d then ATA_CMD_WRITE_DMA_48 else if ad_dma d then ATA_CMD_WRITE_DMA
      else if ad_lba48 d \<and> \<not> ad_dma d then ATA_CMD_WRITE_48 else ATA_CMD_WRITE)"

definition flush_command :: "ata_dev \<Rightarrow> u8" where
  "flush_command d = (if ad_lba48 d then ATA_CMD_FLUSH_48 else ATA_CMD_FLUSH)"

text \<open>The loops over the sectors, with the number of sectors that are left and the position in the buffer.\<close>

fun read_sectors :: "'m ports \<Rightarrow> ata_dev \<Rightarrow> nat \<Rightarrow> nat \<Rightarrow> u8 list \<Rightarrow> 'm \<Rightarrow> (bool \<times> u8 list \<times> 'm) option" where
  "read_sectors P d 0 off buf m = Some (True, buf, m)"
| "read_sectors P d (Suc k) off buf m =
     (let (ok, m) = DevicePrivate_poll P d True m
      in if \<not> ok then Some (False, buf, m)
         else do {
           (buf, m) \<leftarrow> DevicePrivate_readBuffer P (port_data d) buf off 512 m;
           read_sectors P d k (off + 512) buf m })"

fun write_sectors :: "'m ports \<Rightarrow> ata_dev \<Rightarrow> nat \<Rightarrow> nat \<Rightarrow> u8 list \<Rightarrow> 'm \<Rightarrow> (bool \<times> 'm) option" where
  "write_sectors P d 0 off buf m = Some (True, m)"
| "write_sectors P d (Suc k) off buf m =
     (let (ok, m) = DevicePrivate_poll P d False m
      in if \<not> ok then Some (False, m)
         else do {
           m \<leftarrow> DevicePrivate_writeBuffer P (port_data d) buf off 512 m;
           write_sectors P d k (off + 512) buf m })"

definition DevicePrivate_readSector ::
  "'m ports \<Rightarrow> u8 list option \<Rightarrow> u16 \<Rightarrow> u32 \<Rightarrow> u32 \<Rightarrow> ata_dev \<Rightarrow> 'm \<Rightarrow> (bool \<times> u8 list option \<times> ata_dev \<times> 'm) option" where
  "DevicePrivate_readSector P buffer sectors addr addr_hi d m =
     (case buffer of
        None \<Rightarrow> Some (False, None, d, m)
      | Some buf \<Rightarrow> do {
          (ok, d, m) \<leftarrow> DevicePrivate_prepareAccess P sectors addr addr_hi d m;
          (if \<not> ok then Some (False, Some buf, d, m)
           else do {
             let m = DevicePrivate_write P (port_command d) (read_command d) m;
             let (ok, m) = DevicePrivate_waitStatus P d ATA_STATUS_ERROR 0 m;
             (if \<not> ok then Some (False, Some buf, d, m)
              else do {
                let (ok, m) = DevicePrivate_waitStatus P d ATA_STATUS_DRQ ATA_STATUS_DRQ m;
                (if \<not> ok then Some (False, Some buf, d, m)
                 else if ad_dma d then Some (True, Some buf, d, m)
                 else do {
                   (ok, buf, m) \<leftarrow> read_sectors P d (unat sectors) 0 buf m;
                   (if \<not> ok then Some (False, Some buf, d, m) else Some (True, Some buf, d, DevicePrivate_wait P d m)) }) }) }) })"

definition DevicePrivate_writeSector ::
  "'m ports \<Rightarrow> u8 list option \<Rightarrow> u16 \<Rightarrow> u32 \<Rightarrow> u32 \<Rightarrow> ata_dev \<Rightarrow> 'm \<Rightarrow> (bool \<times> ata_dev \<times> 'm) option" where
  "DevicePrivate_writeSector P buffer sectors addr addr_hi d m =
     (case buffer of
        None \<Rightarrow> Some (False, d, m)
      | Some buf \<Rightarrow> do {
          (ok, d, m) \<leftarrow> DevicePrivate_prepareAccess P sectors addr addr_hi d m;
          (if \<not> ok then Some (False, d, m)
           else do {
             let m = DevicePrivate_write P (port_command d) (write_command d) m;
             (if ad_dma d then Some (True, d, m)
              else do {
                (ok, m) \<leftarrow> write_sectors P d (unat sectors) 0 buf m;
                (if \<not> ok then Some (False, d, m)
                 else do {
                   let m = DevicePrivate_write P (port_command d) (flush_command d) m;
                   let (flushed, m) = DevicePrivate_poll P d False m;
                   Some (True, d, m) }) }) }) })"


section \<open>Detection\<close>

definition DevicePrivate_identify :: "'m ports \<Rightarrow> ata_dev \<Rightarrow> 'm \<Rightarrow> bool \<times> 'm" where
  "DevicePrivate_identify P d m =
     (let m = DevicePrivate_select P d 0 m;
          m = DevicePrivate_write P (port_command d) ATA_CMD_IDENTIFY m;
          m = DevicePrivate_wait P d m;
          (status, m) = DevicePrivate_getStatus P d m
      in (\<not> (status = 0xFF \<or> status = 0x7F), m))"

definition model_of :: "u8 \<Rightarrow> u8 \<Rightarrow> device_model" where
  "model_of low high =
     (if low = 0x14 \<and> high = 0xEB then STORAGE_PATAPI else if low = 0x69 \<and> high = 0x96 then STORAGE_SATAPI
      else if low = 0x0 \<and> high = 0x0 then STORAGE_PATA else if low = 0x3C \<and> high = 0xC3 then STORAGE_SATA else STORAGE_UNKNOWN)"

definition DevicePrivate_detectModel :: "'m ports \<Rightarrow> ata_dev \<Rightarrow> 'm \<Rightarrow> ata_dev \<times> 'm" where
  "DevicePrivate_detectModel P d m =
     (let (low, m) = DevicePrivate_read P (port_LBA1 d) m; (high, m) = DevicePrivate_read P (port_LBA2 d) m
      in (d\<lparr>ad_model := Some (model_of low high)\<rparr>, m))"

text \<open>The loop of \<^verbatim>\<open>detect\<close> ends with the value of \<^verbatim>\<open>error\<close>, or with \<^term>\<open>None\<close> where the device is given up.\<close>

function detect_loop :: "'m ports \<Rightarrow> ata_dev \<Rightarrow> u32 \<Rightarrow> 'm \<Rightarrow> bool option \<times> 'm" where
  "detect_loop P d errcnt m =
     (let (status, m) = DevicePrivate_getStatus P d m
      in if status AND ATA_STATUS_ERROR > 0 then (Some True, m)
         else if status AND ATA_STATUS_BUSY = 0 \<and> status AND ATA_STATUS_DRQ > 0 then (Some False, m)
         else if errcnt > ATA_MAX_WAIT_CNT then (None, m) else detect_loop P d (errcnt + 1) m)"
  by pat_completeness auto

termination detect_loop
  by (relation "measure (\<lambda>(P, d, errcnt, m). 0x1001 - unat errcnt)") (auto intro: wait_measure)

declare detect_loop.simps [simp del]

text \<open>The capacity from the identification; the CHS size is computed with \<^verbatim>\<open>int\<close> and has no defined result above its range.\<close>

definition ident16 :: "u8 list \<Rightarrow> nat \<Rightarrow> u16" where
  "ident16 buf i = ucast (buf ! i) OR push_bit 8 (ucast (buf ! (i + 1)))"

definition ident32 :: "u8 list \<Rightarrow> nat \<Rightarrow> u32" where
  "ident32 buf i = bytes_word (take 4 (drop i buf))"

definition ident_size :: "u8 list \<Rightarrow> ata_dev \<Rightarrow> ata_dev option" where
  "ident_size buf d =
     (let d = (if ident16 buf ATA_IDENT_CAPABILITIES AND 0x200 = 0x200 then d\<lparr>ad_lba := True, ad_mode := ATA_MODE_LBA\<rparr> else d)
      in if \<not> ad_lba d then
           (let d = d\<lparr>ad_sect := buf ! ATA_IDENT_SECTORS, ad_cyl := ident16 buf ATA_IDENT_CYLINDERS, ad_head := buf ! ATA_IDENT_HEADS\<rparr>;
                n = ((uint (ad_cyl d) * uint (ad_head d) + uint (ad_head d)) * uint (ad_sect d) + (uint (ad_sect d) - 1)) * 512
            in if ad_sect d > 0 then (if n < 2 ^ 31 then Some (d\<lparr>ad_size := word_of_int n\<rparr>) else None)
               else Some (d\<lparr>ad_size := 0\<rparr>))
         else Some (d\<lparr>ad_size := ident32 buf ATA_IDENT_MAX_LBA * 512\<rparr>))"

definition DevicePrivate_detect :: "(nat \<Rightarrow> u8) \<Rightarrow> 'm ports \<Rightarrow> ata_dev \<Rightarrow> 'm \<Rightarrow> (ata_dev \<times> 'm) option" where
  "DevicePrivate_detect junk P d m =
     (if ad_avail d then Some (d, m)
      else if ad_basePort d = 0 then Some (d, m)
      else
        (let d = d\<lparr>ad_mode := ATA_MODE_PIO\<rparr>;
             m = DevicePrivate_write P (port_control d) (if ad_irq d then 0 else 0x2) m;
             (ok, m) = DevicePrivate_reset P d m
         in if \<not> ok then Some (d, m)
            else
              (let (ok, m) = DevicePrivate_identify P d m
               in if \<not> ok then Some (d\<lparr>ad_avail := False\<rparr>, m)
                  else
                    (let (error, m) = detect_loop P d 0 m
                     in case error of
                          None \<Rightarrow> Some (d\<lparr>ad_avail := False\<rparr>, m)
                        | Some err \<Rightarrow>
                            (let (d, m) = DevicePrivate_detectModel P d m
                             in if ad_model d = Some STORAGE_UNKNOWN then Some (d, m)
                                else do {
                                  let m = (if err then pt_sleep P 1 (DevicePrivate_write P (port_command d) ATA_CMD_IDENTIFY_PACKET m) else m);
                                  (buf, m) \<leftarrow> DevicePrivate_readBuffer P (port_data d) (new_buffer junk 2048) 0 128 m;
                                  d \<leftarrow> ident_size buf d;
                                  Some (d\<lparr>ad_avail := True\<rparr>, m) })))))"

definition DevicePrivate_setup ::
  "(nat \<Rightarrow> u8) \<Rightarrow> 'm ports \<Rightarrow> u32 \<Rightarrow> u32 \<Rightarrow> ata_type \<Rightarrow> ata_dev \<Rightarrow> 'm \<Rightarrow> (ata_dev \<times> 'm) option" where
  "DevicePrivate_setup junk P pri sec type d m =
     DevicePrivate_detect junk P (d\<lparr>ad_basePort := pri, ad_basePort2 := sec, ad_type := type\<rparr>) m"

section \<open>The driver object\<close>

record ata =
  at_storage :: storage
  at_devs :: "nat \<rightharpoonup> ata_dev"
  at_fresh :: nat
  at_pci :: bool
  at_interrupt :: u32
  at_handlers :: "u32 list"

definition ATA_new :: "bool \<Rightarrow> nat \<Rightarrow> ata" where
  "ATA_new pci fresh = \<lparr>at_storage = Storage_new Map.empty, at_devs = Map.empty, at_fresh = fresh, at_pci = pci,
     at_interrupt = ATA_INTERRUPT_BASE, at_handlers = []\<rparr>"

text \<open>A new device at a fresh address, set up and added to the chain.\<close>

definition ata_new_device :: "ata \<Rightarrow> nat \<times> ata" where
  "ata_new_device a =
     (let x = at_fresh a
      in (x, a\<lparr>at_devs := (at_devs a)(x \<mapsto> DevicePrivate_new), at_fresh := Suc x,
               at_storage := (at_storage a)\<lparr>sto_store := (sto_store (at_storage a))(x \<mapsto> Device_new\<lparr>dev_class := CLASS_ATA\<rparr>)\<rparr>\<rparr>))"

definition ata_setup ::
  "(nat \<Rightarrow> u8) \<Rightarrow> 'm ports \<Rightarrow> nat \<Rightarrow> u32 \<Rightarrow> u32 \<Rightarrow> ata_type \<Rightarrow> ata \<Rightarrow> 'm \<Rightarrow> (ata \<times> 'm) option" where
  "ata_setup junk P x pri sec type a m = do {
     d \<leftarrow> at_devs a x;
     (d, m) \<leftarrow> DevicePrivate_setup junk P pri sec type d m;
     Some (a\<lparr>at_devs := (at_devs a)(x \<mapsto> d)\<rparr>, m) }"

definition ata_add :: "nat \<Rightarrow> ata \<Rightarrow> ata option" where
  "ata_add x a = do {
     s \<leftarrow> Storage_addDevice (Some x) (at_storage a);
     Some (a\<lparr>at_storage := s\<rparr>) }"

definition fix_base :: "u32 \<Rightarrow> u32 \<Rightarrow> u32" where
  "fix_base v dflt = (if v = 0 \<or> v = 1 then dflt else v AND 0xFFFFFFFC)"

text \<open>One controller, the body of the loop of \<^verbatim>\<open>init\<close> for a header of type 0: its registers, and its four devices.\<close>

definition ATA_devices :: "(nat \<Rightarrow> u8) \<Rightarrow> 'm ports \<Rightarrow> header \<Rightarrow> ata \<Rightarrow> 'm \<Rightarrow> (ata \<times> 'm) option" where
  "ATA_devices junk P h a m = do {
     let b0 = fix_base (hdr_baseAddress 0 h) 0x1F0;
     let b1 = fix_base (hdr_baseAddress 1 h) 0x3F4;
     let b2 = fix_base (hdr_baseAddress 2 h) 0x170;
     let b3 = fix_base (hdr_baseAddress 3 h) 0x374;
     let (x1, a) = ata_new_device a;
     let (x2, a) = ata_new_device a;
     let (x3, a) = ata_new_device a;
     let (x4, a) = ata_new_device a;
     (a, m) \<leftarrow> ata_setup junk P x1 b0 b1 ATAMaster a m;
     (a, m) \<leftarrow> ata_setup junk P x2 b0 b1 ATASlave a m;
     (a, m) \<leftarrow> ata_setup junk P x3 b2 b3 ATAMaster a m;
     (a, m) \<leftarrow> ata_setup junk P x4 b2 b3 ATASlave a m;
     a \<leftarrow> ata_add x1 a;
     a \<leftarrow> ata_add x2 a;
     a \<leftarrow> ata_add x3 a;
     a \<leftarrow> ata_add x4 a;
     Some (a\<lparr>at_handlers := at_handlers a @ [at_interrupt a], at_interrupt := at_interrupt a + 1\<rparr>, m) }"

definition ATA_controller :: "(nat \<Rightarrow> u8) \<Rightarrow> 'm ports \<Rightarrow> pci_iter \<Rightarrow> ata \<Rightarrow> 'm \<Rightarrow> (ata \<times> 'm) option" where
  "ATA_controller junk P it a m = do {
     let (hdr, m) = PCI_getCurrent P it (PCI_set P (Some it) 0x3C 0xFE m);
     h \<leftarrow> hdr;
     let cmd = (hdr_command h AND NOT (push_bit 10 1)) OR (push_bit 0 1 OR push_bit 2 1);
     let m = (if cmd \<noteq> hdr_command h then PCI_set P (Some it) 0x4 (ucast (cmd AND 0xFF)) m else m);
     let (hdr, m) = PCI_getCurrent P it m;
     h \<leftarrow> hdr;
     ATA_devices junk P h a m }"

partial_function (option) ata_init_loop :: "(nat \<Rightarrow> u8) \<Rightarrow> 'm ports \<Rightarrow> pci_iter \<Rightarrow> ata \<Rightarrow> 'm \<Rightarrow> (ata \<times> 'm) option" where
  "ata_init_loop junk P it a m = do {
     (hdr, it', m) \<leftarrow> PCI_findNextDevice P (Some it) 0x1 0x1 m;
     (case (hdr, it') of
        (Some h, Some it) \<Rightarrow> do {
          (a, m) \<leftarrow> (if hdr_headerType h AND 0x1F = 0 then ATA_controller junk P it a m else Some (a, m));
          ata_init_loop junk P it a m }
      | _ \<Rightarrow> Some (a, m)) }"

definition ATA_init :: "(nat \<Rightarrow> u8) \<Rightarrow> 'm ports \<Rightarrow> ata \<Rightarrow> 'm \<Rightarrow> (ata \<times> 'm) option" where
  "ATA_init junk P a m = (if at_pci a then ata_init_loop junk P PCI_startIter a m else Some (a, m))"

definition ATA_deviceSize :: "ptr \<Rightarrow> ata \<Rightarrow> u32 option" where
  "ATA_deviceSize d a = (case d of None \<Rightarrow> Some 0 | Some x \<Rightarrow> map_option DevicePrivate_size (at_devs a x))"

definition ATA_deviceModel :: "ptr \<Rightarrow> ata \<Rightarrow> device_model option" where
  "ATA_deviceModel d a = (case d of None \<Rightarrow> Some STORAGE_UNKNOWN | Some x \<Rightarrow> Option.bind (at_devs a x) DevicePrivate_model)"

definition ATA_read ::
  "'m ports \<Rightarrow> ptr \<Rightarrow> u8 list option \<Rightarrow> u16 \<Rightarrow> u32 \<Rightarrow> u32 \<Rightarrow> ata \<Rightarrow> 'm \<Rightarrow> (bool \<times> u8 list option \<times> ata \<times> 'm) option" where
  "ATA_read P d buffer sectors addr addr_hi a m =
     (case d of
        None \<Rightarrow> Some (False, buffer, a, m)
      | Some x \<Rightarrow> do {
          dev \<leftarrow> at_devs a x;
          (ok, buffer, dev, m) \<leftarrow> DevicePrivate_readSector P buffer sectors addr addr_hi dev m;
          Some (ok, buffer, a\<lparr>at_devs := (at_devs a)(x \<mapsto> dev)\<rparr>, m) })"

definition ATA_write ::
  "'m ports \<Rightarrow> ptr \<Rightarrow> u8 list option \<Rightarrow> u16 \<Rightarrow> u32 \<Rightarrow> u32 \<Rightarrow> ata \<Rightarrow> 'm \<Rightarrow> (bool \<times> ata \<times> 'm) option" where
  "ATA_write P d buffer sectors addr addr_hi a m =
     (case d of
        None \<Rightarrow> Some (False, a, m)
      | Some x \<Rightarrow> do {
          dev \<leftarrow> at_devs a x;
          (ok, dev, m) \<leftarrow> DevicePrivate_writeSector P buffer sectors addr addr_hi dev m;
          Some (ok, a\<lparr>at_devs := (at_devs a)(x \<mapsto> dev)\<rparr>, m) })"

text \<open>\<^verbatim>\<open>select\<close> reads sector 0 into a local array and ignores the result.\<close>

definition ATA_select :: "(nat \<Rightarrow> u8) \<Rightarrow> 'm ports \<Rightarrow> ptr \<Rightarrow> ata \<Rightarrow> 'm \<Rightarrow> (bool \<times> ata \<times> 'm) option" where
  "ATA_select junk P d a m =
     (case d of
        None \<Rightarrow> Some (False, a, m)
      | Some x \<Rightarrow> do {
          dev \<leftarrow> at_devs a x;
          let m = DevicePrivate_select P dev 0 m;
          (ok, tmp, dev, m) \<leftarrow> DevicePrivate_readSector P (Some (new_buffer junk 512)) 1 0 0 dev m;
          Some (True, a\<lparr>at_devs := (at_devs a)(x \<mapsto> dev)\<rparr>, m) })"

definition ATAPhys_read ::
  "(nat \<Rightarrow> u8) \<Rightarrow> 'm ports \<Rightarrow> ptr \<Rightarrow> u8 list option \<Rightarrow> u32 \<Rightarrow> u32 \<Rightarrow> u32 \<Rightarrow> ata \<Rightarrow> 'm \<Rightarrow> (bool \<times> u8 list option \<times> ata \<times> 'm) option" where
  "ATAPhys_read junk P dev buffer sectors pos pos_hi a m = do {
     (sel, a, m) \<leftarrow> ATA_select junk P dev a m;
     ATA_read P dev buffer (ucast sectors) (pos div 512) pos_hi a m }"

definition ATAPhys_write ::
  "(nat \<Rightarrow> u8) \<Rightarrow> 'm ports \<Rightarrow> ptr \<Rightarrow> u8 list option \<Rightarrow> u32 \<Rightarrow> u32 \<Rightarrow> u32 \<Rightarrow> ata \<Rightarrow> 'm \<Rightarrow> (bool \<times> ata \<times> 'm) option" where
  "ATAPhys_write junk P dev buffer sectors pos pos_hi a m = do {
     (sel, a, m) \<leftarrow> ATA_select junk P dev a m;
     ATA_write P dev buffer (ucast sectors) (pos div 512) pos_hi a m }"

definition ATAPhys_size :: "ptr \<Rightarrow> ata \<Rightarrow> u64 option" where
  "ATAPhys_size dev a = map_option ucast (ATA_deviceSize dev a)"

definition ATAPhys_sectorSize :: u32 where "ATAPhys_sectorSize = 512"

end
