(* ===== verification/Ata_Bounds.thy ===== *)
theory Ata_Bounds
  imports Ata_Driver
begin

text \<open>
  What the ATA driver does to the machine, whatever the machine answers: each of its operations is a bounded number of port
  accesses, so that a device that never becomes ready cannot hang it; and the search for controllers, which is not
  bounded.  \<open>port_rel P R\<close> says that \<open>R n\<close> relates the machine before and after at most \<open>n\<close> port operations.
\<close>

section \<open>Relations that port operations respect\<close>

definition port_rel :: "'m ports \<Rightarrow> (nat \<Rightarrow> 'm \<Rightarrow> 'm \<Rightarrow> bool) \<Rightarrow> bool" where
  "port_rel P R \<longleftrightarrow>
     (\<forall>m. R 0 m m) \<and> (\<forall>i j m m' m''. R i m m' \<longrightarrow> R j m' m'' \<longrightarrow> R (i + j) m m'') \<and> (\<forall>i j m m'. R i m m' \<longrightarrow> i \<le> j \<longrightarrow> R j m m') \<and>
     (\<forall>p m. R 1 m (snd (pt_in8 P p m)) \<and> R 1 m (snd (pt_in16 P p m)) \<and> R 1 m (snd (pt_in32 P p m))) \<and>
     (\<forall>p v m. R 1 m (pt_out8 P p v m)) \<and> (\<forall>p v m. R 1 m (pt_out16 P p v m)) \<and> (\<forall>p v m. R 1 m (pt_out32 P p v m)) \<and>
     (\<forall>n m. R 1 m (pt_sleep P n m)) \<and> (\<forall>m. R 1 m (snd (pt_alloc P m)))"

lemma port_rel_refl: "port_rel P R \<Longrightarrow> R 0 m m"
  by (simp add: port_rel_def)

lemma port_rel_trans: "port_rel P R \<Longrightarrow> R i m m' \<Longrightarrow> R j m' m'' \<Longrightarrow> i + j \<le> k \<Longrightarrow> R k m m''"
  unfolding port_rel_def by (elim conjE) meson

lemma port_rel_mono: "port_rel P R \<Longrightarrow> R i m m' \<Longrightarrow> i \<le> j \<Longrightarrow> R j m m'"
  unfolding port_rel_def by blast

lemma port_rel_in8: "port_rel P R \<Longrightarrow> R 1 m (snd (DevicePrivate_read P p m))"
  by (simp add: port_rel_def DevicePrivate_read_def systemPortIn_def)

lemma port_rel_in16: "port_rel P R \<Longrightarrow> R 1 m (snd (systemPortIn16 P p m))"
  by (simp add: port_rel_def systemPortIn16_def)

lemma port_rel_out8: "port_rel P R \<Longrightarrow> R 1 m (DevicePrivate_write P p v m)"
  by (simp add: port_rel_def DevicePrivate_write_def systemPortOut_def)

lemma port_rel_out32: "port_rel P R \<Longrightarrow> R 1 m (systemPortOut32 P p v m)"
  by (simp add: port_rel_def systemPortOut32_def)

lemma port_rel_sleep: "port_rel P R \<Longrightarrow> R 1 m (pt_sleep P n m)"
  by (simp add: port_rel_def)

text \<open>The cost of waiting.\<close>

lemma alt_reads_rel: "port_rel P R \<Longrightarrow> R k m (alt_reads k P d m)"
proof (induction k arbitrary: m)
  case (Suc k)
  then show ?case
    using port_rel_trans [OF Suc.prems port_rel_in8 [OF Suc.prems, of m "port_altStatus d"] Suc.IH [OF Suc.prems]] by simp
qed (simp add: port_rel_refl)

lemma wait_rel:
  assumes "port_rel P R"
  shows "R 6 m (DevicePrivate_wait P d m)"
  unfolding DevicePrivate_wait_def by (rule port_rel_trans [OF assms alt_reads_rel [OF assms] port_rel_sleep [OF assms]]) simp

lemma status_rel: "port_rel P R \<Longrightarrow> R 1 m (snd (DevicePrivate_getStatus P d m))"
  unfolding DevicePrivate_getStatus_def by (rule port_rel_in8)

lemma count_step:
  assumes "\<not> cnt > ATA_MAX_WAIT_CNT"
  shows "unat (cnt + 1) = unat cnt + 1" "unat cnt < 0x1000"
proof -
  have "unat cnt \<le> unat (0xFFF :: u32)"
    using assms unfolding ATA_MAX_WAIT_CNT_def not_less word_le_nat_alt .
  then show "unat cnt < 0x1000"
    by simp
  then show "unat (cnt + 1) = unat cnt + 1"
    by (simp add: unat_plus_eq)
qed

lemma busy_loop_rel: "port_rel P R \<Longrightarrow> unat cnt \<le> 0x1000 \<Longrightarrow> R (0x1001 - unat cnt) m (snd (busy_loop P d cnt m))"
proof (induction P d cnt m rule: busy_loop.induct)
  case (1 P d cnt m)
  obtain stat m1 where m1: "DevicePrivate_getStatus P d m = (stat, m1)"
    by fastforce
  have r1: "R 1 m m1"
    using status_rel [OF "1.prems"(1), of m d] m1 by simp
  show ?case
  proof (cases "cnt > ATA_MAX_WAIT_CNT \<or> stat AND ATA_STATUS_BUSY = 0")
    case True
    then have "snd (busy_loop P d cnt m) = m1"
      using m1 by (subst busy_loop.simps) auto
    then show ?thesis
      using port_rel_mono [OF "1.prems"(1) r1] "1.prems"(2) by simp
  next
    case False
    then have c: "unat (cnt + 1) = unat cnt + 1" "unat cnt < 0x1000"
      using count_step by auto
    have "R (0x1001 - unat (cnt + 1)) m1 (snd (busy_loop P d (cnt + 1) m1))"
      using "1.IH" [OF m1 [symmetric]] False "1.prems"(1) c by auto
    then have "R (0x1001 - unat cnt) m (snd (busy_loop P d (cnt + 1) m1))"
      by (rule port_rel_trans [OF "1.prems"(1) r1]) (use c in simp)
    then show ?thesis
      using False m1 by (subst busy_loop.simps) auto
  qed
qed

lemma extra_loop_rel: "port_rel P R \<Longrightarrow> unat cnt \<le> 0x1000 \<Longrightarrow> R (7 * (0x1001 - unat cnt)) m (snd (extra_loop P d x y cnt m))"
proof (induction P d x y cnt m rule: extra_loop.induct)
  case (1 P d x y cnt m)
  obtain stat m1 where m1: "DevicePrivate_getStatus P d m = (stat, m1)"
    by fastforce
  let ?m2 = "DevicePrivate_wait P d m1"
  have r1: "R 1 m m1"
    using status_rel [OF "1.prems"(1), of m d] m1 by simp
  have r2: "R 7 m ?m2"
    by (rule port_rel_trans [OF "1.prems"(1) r1 wait_rel [OF "1.prems"(1)]]) simp
  consider "cnt > ATA_MAX_WAIT_CNT" | "\<not> cnt > ATA_MAX_WAIT_CNT" "stat AND x = y" | "\<not> cnt > ATA_MAX_WAIT_CNT" "stat AND x \<noteq> y"
    by blast
  then show ?case
  proof cases
    case 1
    then have "snd (extra_loop P d x y cnt m) = m1"
      using m1 by (subst extra_loop.simps) auto
    then show ?thesis
      using port_rel_mono [OF "1.prems"(1) r1] "1.prems"(2) by simp
  next
    case 2
    then have "snd (extra_loop P d x y cnt m) = ?m2"
      using m1 by (subst extra_loop.simps) (auto simp: Let_def)
    then show ?thesis
      using port_rel_mono [OF "1.prems"(1) r2] "1.prems"(2) by simp
  next
    case 3
    then have c: "unat (cnt + 1) = unat cnt + 1" "unat cnt < 0x1000"
      using count_step by auto
    have "R (7 * (0x1001 - unat (cnt + 1))) ?m2 (snd (extra_loop P d x y (cnt + 1) ?m2))"
      using "1.IH" [OF m1 [symmetric]] 3 "1.prems"(1) c by auto
    then have "R (7 * (0x1001 - unat cnt)) m (snd (extra_loop P d x y (cnt + 1) ?m2))"
      by (rule port_rel_trans [OF "1.prems"(1) r2]) (use c in simp)
    then show ?thesis
      using 3 m1 by (subst extra_loop.simps) (auto simp: Let_def)
  qed
qed

text \<open>The bounds of \<^verbatim>\<open>waitStatus\<close>, without and with a second loop.\<close>

lemma waitStatus_rel:
  assumes "port_rel P R"
  shows "R 0x1001 m (snd (DevicePrivate_waitStatus P d 0 y m))" "R 0x8008 m (snd (DevicePrivate_waitStatus P d x y m))"
proof -
  obtain ok m1 where b: "busy_loop P d 0 m = (ok, m1)"
    by fastforce
  have r: "R 0x1001 m m1"
    using busy_loop_rel [OF assms, of 0 m d] b by simp
  then show "R 0x1001 m (snd (DevicePrivate_waitStatus P d 0 y m))"
    using b by (simp add: DevicePrivate_waitStatus_def)
  have "R 0x7007 m1 (snd (extra_loop P d x y 0 m1))"
    using extra_loop_rel [OF assms, of 0 m1 d x y] by simp
  then have "R 0x8008 m (snd (extra_loop P d x y 0 m1))"
    by (rule port_rel_trans [OF assms r]) simp
  then show "R 0x8008 m (snd (DevicePrivate_waitStatus P d x y m))"
    using b port_rel_mono [OF assms r, of "0x8008"] by (simp add: DevicePrivate_waitStatus_def)
qed


section \<open>The operations of a device\<close>

lemma waitStatus_after:
  assumes "port_rel P R" "R i m m1" "DevicePrivate_waitStatus P d 0 y m1 = (ok, m2)" "i + 0x1001 \<le> k"
  shows "R k m m2"
  using port_rel_trans [OF assms(1,2) waitStatus_rel(1) [OF assms(1), of m1 d y] assms(4)] assms(3) by simp

lemma reset_rel:
  assumes "port_rel P R"
  shows "R 0x1009 m (snd (DevicePrivate_reset P d m))"
proof -
  have "R 8 m (DevicePrivate_wait P d (DevicePrivate_write P (port_status d) 0 (DevicePrivate_write P (port_status d) 4 m)))"
    by (rule port_rel_trans [OF assms port_rel_trans [OF assms port_rel_out8 [OF assms] port_rel_out8 [OF assms] order_refl] wait_rel [OF assms]]) simp
  then show ?thesis
    unfolding DevicePrivate_reset_def by (rule port_rel_trans [OF assms _ waitStatus_rel(1) [OF assms]]) simp
qed

lemma select_rel:
  assumes "port_rel P R"
  shows "R 7 m (DevicePrivate_select P d h m)"
  unfolding DevicePrivate_select_def by (rule port_rel_trans [OF assms port_rel_out8 [OF assms] wait_rel [OF assms]]) simp

lemma poll_rel:
  assumes "port_rel P R"
  shows "R 0x1008 m (snd (DevicePrivate_poll P d x m))"
proof -
  obtain ok m1 where w: "DevicePrivate_waitStatus P d 0 0 (DevicePrivate_wait P d m) = (ok, m1)"
    by fastforce
  obtain st m2 where g: "DevicePrivate_getStatus P d m1 = (st, m2)"
    by fastforce
  have r1: "R 0x1007 m m1"
    by (rule waitStatus_after [OF assms wait_rel [OF assms] w]) simp
  have r2: "R 0x1008 m m2"
    using port_rel_trans [OF assms r1 status_rel [OF assms, of m1 d]] g by simp
  show ?thesis
    using w g port_rel_mono [OF assms r1, of "0x1008"] r2 by (simp add: DevicePrivate_poll_def)
qed

lemma setLo_rel: "port_rel P R \<Longrightarrow> R 1 m (DevicePrivate_setLo P d m)"
  unfolding DevicePrivate_setLo_def by (rule port_rel_out8)

lemma setHi_rel: "port_rel P R \<Longrightarrow> R 1 m (DevicePrivate_setHi P d m)"
  unfolding DevicePrivate_setHi_def by (rule port_rel_out8)

lemma hi_write_rel:
  assumes "port_rel P R" "R k m m'"
  shows "R (k + 3) m (DevicePrivate_setLo P d (DevicePrivate_write P p v (DevicePrivate_setHi P d m')))"
proof -
  have "R 2 m' (DevicePrivate_write P p v (DevicePrivate_setHi P d m'))"
    by (rule port_rel_trans [OF assms(1) setHi_rel [OF assms(1)] port_rel_out8 [OF assms(1)]]) simp
  then have "R 3 m' (DevicePrivate_setLo P d (DevicePrivate_write P p v (DevicePrivate_setHi P d m')))"
    by (rule port_rel_trans [OF assms(1) _ setLo_rel [OF assms(1)]]) simp
  then show ?thesis
    by (rule port_rel_trans [OF assms]) simp
qed

lemma hi_writes_rel:
  assumes "port_rel P R"
  shows "R 12 m (hi_writes P d io m)"
  using hi_write_rel [OF assms hi_write_rel [OF assms hi_write_rel [OF assms hi_write_rel [OF assms port_rel_refl [OF assms]]]]]
  unfolding hi_writes_def Let_def by simp

lemma out8_after:
  assumes "port_rel P R" "R k m m'"
  shows "R (Suc k) m (DevicePrivate_write P p v m')"
  by (rule port_rel_trans [OF assms port_rel_out8 [OF assms(1)]]) simp

lemma lo_writes_rel:
  assumes "port_rel P R"
  shows "R 5 m (lo_writes P d n io m)"
  using out8_after [OF assms out8_after [OF assms out8_after [OF assms out8_after [OF assms setLo_rel [OF assms]]]]]
  unfolding lo_writes_def Let_def by (simp add: eval_nat_numeral)

lemma prepareAccess_rel:
  assumes "port_rel P R" "DevicePrivate_prepareAccess P n addr hi d m = Some (ok, d', m')"
  shows "R 0x3023 m m'"
proof -
  let ?d = "d\<lparr>ad_lba48 := False\<rparr>"
  obtain ok1 m1 where 1: "DevicePrivate_reset P ?d m = (ok1, m1)"
    by fastforce
  have r1: "R 0x1009 m m1"
    using reset_rel [OF assms(1), of m ?d] 1 by simp
  show ?thesis
  proof (cases ok1)
    case False
    then show ?thesis
      using assms(2) 1 port_rel_mono [OF assms(1) r1, of "0x3023"] by (simp add: DevicePrivate_prepareAccess_def)
  next
    case True
    obtain io head d1 where a: "access_address addr hi ?d = Some (io, head, d1)"
      using assms(2) 1 True by (auto simp: DevicePrivate_prepareAccess_def)
    obtain ok2 m2 where 2: "DevicePrivate_waitStatus P d1 0 0 m1 = (ok2, m2)"
      by fastforce
    obtain ok3 m3 where 3: "DevicePrivate_waitStatus P d1 0 0 (DevicePrivate_select P d1 head m2) = (ok3, m3)"
      by fastforce
    have r2: "R 0x200A m m2"
      by (rule waitStatus_after [OF assms(1) r1 2]) simp
    have "R 0x1008 m2 m3"
      by (rule waitStatus_after [OF assms(1) select_rel [OF assms(1)] 3]) simp
    then have r3: "R 0x3012 m m3"
      by (rule port_rel_trans [OF assms(1) r2]) simp
    let ?m4 = "if ad_lba48 d1 then hi_writes P d1 io m3 else m3"
    have "R 12 m3 ?m4"
      using hi_writes_rel [OF assms(1)] port_rel_mono [OF assms(1) port_rel_refl [OF assms(1)], of 12] by simp
    then have "R 17 m3 (lo_writes P d1 n io ?m4)"
      by (rule port_rel_trans [OF assms(1) _ lo_writes_rel [OF assms(1)]]) simp
    then have r4: "R 0x3023 m (lo_writes P d1 n io ?m4)"
      by (rule port_rel_trans [OF assms(1) r3]) simp
    have "m' = m2 \<or> m' = m3 \<or> m' = lo_writes P d1 n io ?m4"
      using assms(2) 1 True a 2 3 by (simp add: DevicePrivate_prepareAccess_def split: if_splits) auto
    then show ?thesis
      using port_rel_mono [OF assms(1) r2] port_rel_mono [OF assms(1) r3] r4 by auto
  qed
qed


section \<open>The transfers\<close>

lemma of_nat_4_step: "4 * Suc k < 2 ^ 32 \<Longrightarrow> (0 :: u32) < of_nat (4 * Suc k) \<and> (of_nat (4 * Suc k) :: u32) - 4 = of_nat (4 * k)"
  using of_nat_pos_u32 [of "4 * Suc k"] by simp

lemma length_word_bytes [simp]: "length (word_bytes w) = 4"
  by (simp add: word_bytes_def)

lemma buf_write_some: "off + length bs \<le> length buf \<Longrightarrow> \<exists>b. buf_write off bs buf = Some b \<and> length b = length buf"
  by (simp add: buf_write_def)

lemma readBuffer_rel:
  assumes "port_rel P R"
  shows "off + 4 * k \<le> length buf \<Longrightarrow> 4 * k < 2 ^ 32 \<Longrightarrow>
    \<exists>buf' m'. DevicePrivate_readBuffer P port buf off (of_nat (4 * k)) m = Some (buf', m') \<and> length buf' = length buf \<and> R (2 * k) m m'"
proof (induction k arbitrary: off buf m)
  case 0
  then show ?case
    using port_rel_refl [OF assms] by (subst DevicePrivate_readBuffer.simps) simp
next
  case (Suc k)
  obtain a m1 where 1: "systemPortIn16 P port m = (a, m1)"
    by fastforce
  obtain b m2 where 2: "systemPortIn16 P port m1 = (b, m2)"
    by fastforce
  obtain buf1 where b1: "buf_write off (word_bytes (ucast a + push_bit 16 (ucast b))) buf = Some buf1" "length buf1 = length buf"
    using buf_write_some [of off "word_bytes (ucast a + push_bit 16 (ucast b))" buf] Suc.prems(1) by auto
  have r: "R 1 m m1" "R 1 m1 m2"
    using port_rel_in16 [OF assms, of m port] port_rel_in16 [OF assms, of m1 port] 1 2 by simp_all
  have "R 2 m m2"
    by (rule port_rel_trans [OF assms r]) simp
  moreover obtain buf' m' where n: "DevicePrivate_readBuffer P port buf1 (off + 4) (of_nat (4 * k)) m2 = Some (buf', m')"
    "length buf' = length buf1" "R (2 * k) m2 m'"
    using Suc.IH [of "off + 4" buf1 m2] Suc.prems b1(2) by auto
  ultimately have "R (2 * Suc k) m m'"
    using port_rel_trans [OF assms] by fastforce
  moreover have "DevicePrivate_readBuffer P port buf off (of_nat (4 * Suc k)) m = Some (buf', m')"
    using of_nat_4_step [OF Suc.prems(2)] 1 2 b1(1) n(1) by (subst DevicePrivate_readBuffer.simps) (simp del: of_nat_Suc of_nat_mult)
  ultimately show ?case
    using b1(2) n(2) by (intro exI [of _ buf'] exI [of _ m']) simp
qed

lemma writeBuffer_rel:
  assumes "port_rel P R"
  shows "off + 4 * k \<le> length buf \<Longrightarrow> 4 * k < 2 ^ 32 \<Longrightarrow>
    \<exists>m'. DevicePrivate_writeBuffer P port buf off (of_nat (4 * k)) m = Some m' \<and> R k m m'"
proof (induction k arbitrary: off m)
  case 0
  then show ?case
    using port_rel_refl [OF assms] by (subst DevicePrivate_writeBuffer.simps) simp
next
  case (Suc k)
  have b: "buf_read off 4 buf = Some (take 4 (drop off buf))"
    using Suc.prems(1) by (simp add: buf_read_def)
  let ?m1 = "systemPortOut32 P port (bytes_word (take 4 (drop off buf))) m"
  obtain m' where n: "DevicePrivate_writeBuffer P port buf (off + 4) (of_nat (4 * k)) ?m1 = Some m'" "R k ?m1 m'"
    using Suc.IH [of "off + 4" ?m1] Suc.prems by auto
  have "R (Suc k) m m'"
    by (rule port_rel_trans [OF assms port_rel_out32 [OF assms] n(2)]) simp
  moreover have "DevicePrivate_writeBuffer P port buf off (of_nat (4 * Suc k)) m = Some m'"
    using of_nat_4_step [OF Suc.prems(2)] b n(1) by (subst DevicePrivate_writeBuffer.simps) (simp del: of_nat_Suc of_nat_mult)
  ultimately show ?case
    by blast
qed

lemma of_nat_512: "of_nat (4 * 128) = (512 :: u32)"
  by simp

lemma read_sectors_rel:
  assumes "port_rel P R"
  shows "off + 512 * k \<le> length buf \<Longrightarrow>
    \<exists>ok buf' m'. read_sectors P d k off buf m = Some (ok, buf', m') \<and> length buf' = length buf \<and> R (0x1108 * k) m m'"
proof (induction k arbitrary: off buf m)
  case 0
  then show ?case
    using port_rel_refl [OF assms] by auto
next
  case (Suc k)
  obtain ok m1 where p: "DevicePrivate_poll P d True m = (ok, m1)"
    by fastforce
  have r1: "R 0x1008 m m1"
    using poll_rel [OF assms, of m d True] p by simp
  show ?case
  proof (cases ok)
    case False
    then show ?thesis
      using p port_rel_mono [OF assms r1] by auto
  next
    case True
    obtain buf1 m2 where b: "DevicePrivate_readBuffer P (port_data d) buf off 512 m1 = Some (buf1, m2)" "length buf1 = length buf" "R 256 m1 m2"
      using readBuffer_rel [OF assms, of off 128 buf "port_data d" m1] Suc.prems by (auto simp only: of_nat_512) auto
    obtain ok' buf' m' where n: "read_sectors P d k (off + 512) buf1 m2 = Some (ok', buf', m')" "length buf' = length buf1" "R (0x1108 * k) m2 m'"
      using Suc.IH [of "off + 512" buf1 m2] Suc.prems b(2) by auto
    have "R 0x1108 m m2"
      by (rule port_rel_trans [OF assms r1 b(3)]) simp
    then have "R (0x1108 * Suc k) m m'"
      by (rule port_rel_trans [OF assms _ n(3)]) simp
    then show ?thesis
      using p True b(1,2) n(1,2) by simp
  qed
qed

lemma write_sectors_rel:
  assumes "port_rel P R"
  shows "off + 512 * k \<le> length buf \<Longrightarrow> \<exists>ok m'. write_sectors P d k off buf m = Some (ok, m') \<and> R (0x1088 * k) m m'"
proof (induction k arbitrary: off m)
  case 0
  then show ?case
    using port_rel_refl [OF assms] by auto
next
  case (Suc k)
  obtain ok m1 where p: "DevicePrivate_poll P d False m = (ok, m1)"
    by fastforce
  have r1: "R 0x1008 m m1"
    using poll_rel [OF assms, of m d False] p by simp
  show ?case
  proof (cases ok)
    case False
    then show ?thesis
      using p port_rel_mono [OF assms r1] by auto
  next
    case True
    obtain m2 where b: "DevicePrivate_writeBuffer P (port_data d) buf off 512 m1 = Some m2" "R 128 m1 m2"
      using writeBuffer_rel [OF assms, of off 128 buf "port_data d" m1] Suc.prems by (auto simp only: of_nat_512) auto
    obtain ok' m' where n: "write_sectors P d k (off + 512) buf m2 = Some (ok', m')" "R (0x1088 * k) m2 m'"
      using Suc.IH [of "off + 512" m2] Suc.prems by auto
    have "R 0x1088 m m2"
      by (rule port_rel_trans [OF assms r1 b(2)]) simp
    then have "R (0x1088 * Suc k) m m'"
      by (rule port_rel_trans [OF assms _ n(2)]) simp
    then show ?thesis
      using p True b(1) n(1) by simp
  qed
qed

text \<open>The geometry is known when LBA is not used.\<close>

definition addressable :: "ata_dev \<Rightarrow> bool" where
  "addressable d \<longleftrightarrow> ad_lba d \<or> (ad_sect d \<noteq> 0 \<and> ad_head d \<noteq> 0)"

lemma access_address_some:
  assumes "addressable d"
  shows "access_address addr hi d \<noteq> None"
proof -
  have "ucast (ad_head d) * ucast (ad_sect d) \<noteq> (0 :: u32)" if "ad_sect d \<noteq> 0" "ad_head d \<noteq> 0"
  proof -
    have b: "unat (ad_head d) < 256" "unat (ad_sect d) < 256"
      using unsigned_less [of "ad_head d", where 'a = nat] unsigned_less [of "ad_sect d", where 'a = nat] by simp_all
    then have u: "unat (ucast (ad_head d) :: u32) = unat (ad_head d)" "unat (ucast (ad_sect d) :: u32) = unat (ad_sect d)"
      by (simp_all add: unsigned_ucast_eq take_bit_nat_eq_self)
    have "unat (ad_head d) * unat (ad_sect d) < 256 * 256"
      by (rule mult_strict_mono) (use b in auto)
    then have "unat (ucast (ad_head d) * ucast (ad_sect d) :: u32) = unat (ad_head d) * unat (ad_sect d)"
      using u by (subst unat_times_eq) auto
    moreover have "unat (ad_head d) \<noteq> 0" "unat (ad_sect d) \<noteq> 0"
      using that by (simp_all add: unat_eq_zero)
    ultimately show ?thesis
      by auto
  qed
  then show ?thesis
    using assms by (auto simp: access_address_def addressable_def Let_def)
qed


lemma prepareAccess_some:
  assumes "port_rel P R" "addressable d"
  obtains ok d' m' where "DevicePrivate_prepareAccess P n addr hi d m = Some (ok, d', m')" "R 0x3023 m m'"
proof -
  let ?d = "d\<lparr>ad_lba48 := False\<rparr>"
  have "access_address addr hi ?d \<noteq> None"
    by (rule access_address_some) (use assms(2) in \<open>simp add: addressable_def\<close>)
  then obtain io head d1 where a: "access_address addr hi ?d = Some (io, head, d1)"
    by auto
  obtain ok1 m1 where 1: "DevicePrivate_reset P ?d m = (ok1, m1)"
    by fastforce
  obtain ok2 m2 where 2: "DevicePrivate_waitStatus P d1 0 0 m1 = (ok2, m2)"
    by fastforce
  obtain ok3 m3 where 3: "DevicePrivate_waitStatus P d1 0 0 (DevicePrivate_select P d1 head m2) = (ok3, m3)"
    by fastforce
  have "\<exists>ok d' m'. DevicePrivate_prepareAccess P n addr hi d m = Some (ok, d', m')"
    using a 1 2 3 by (cases ok1; cases ok2; cases ok3; auto simp: DevicePrivate_prepareAccess_def Let_def)
  then show thesis
    using that prepareAccess_rel [OF assms(1)] by blast
qed

lemma readSector_rel:
  assumes "port_rel P R" "addressable d" "512 * unat n \<le> length buf"
  shows "\<exists>ok buf' d' m'. DevicePrivate_readSector P (Some buf) n addr hi d m = Some (ok, Some buf', d', m') \<and> length buf' = length buf \<and>
    R (77882 + 4360 * unat n) m m'"
proof -
  let ?N = "77882 + 4360 * unat n"
  obtain ok d1 m1 where 1: "DevicePrivate_prepareAccess P n addr hi d m = Some (ok, d1, m1)" "R 0x3023 m m1"
    by (rule prepareAccess_some [OF assms(1,2)])
  let ?m2 = "DevicePrivate_write P (port_command d1) (read_command d1) m1"
  obtain ok3 m3 where 3: "DevicePrivate_waitStatus P d1 ATA_STATUS_ERROR 0 ?m2 = (ok3, m3)"
    by fastforce
  obtain ok4 m4 where 4: "DevicePrivate_waitStatus P d1 ATA_STATUS_DRQ ATA_STATUS_DRQ m3 = (ok4, m4)"
    by fastforce
  obtain ok5 buf' m5 where 5: "read_sectors P d1 (unat n) 0 buf m4 = Some (ok5, buf', m5)" "length buf' = length buf" "R (0x1108 * unat n) m4 m5"
    using read_sectors_rel [OF assms(1), of 0 "unat n" buf d1 m4] assms(3) by auto
  have r2: "R 0x3024 m ?m2"
    by (rule port_rel_trans [OF assms(1) 1(2) port_rel_out8 [OF assms(1)]]) simp
  have "R 0x8008 ?m2 m3"
    using waitStatus_rel(2) [OF assms(1), of ?m2 d1 ATA_STATUS_ERROR 0] 3 by simp
  then have r3: "R 0xB02C m m3"
    by (rule port_rel_trans [OF assms(1) r2]) simp
  have "R 0x8008 m3 m4"
    using waitStatus_rel(2) [OF assms(1), of m3 d1 ATA_STATUS_DRQ ATA_STATUS_DRQ] 4 by simp
  then have r4: "R 0x13034 m m4"
    by (rule port_rel_trans [OF assms(1) r3]) simp
  have r5: "R (0x13034 + 0x1108 * unat n) m m5"
    by (rule port_rel_trans [OF assms(1) r4 5(3)]) simp
  have r6: "R ?N m (DevicePrivate_wait P d1 m5)"
    by (rule port_rel_trans [OF assms(1) r5 wait_rel [OF assms(1)]]) simp
  have e: "R ?N m m1" "R ?N m m3" "R ?N m m4" "R ?N m m5"
    using port_rel_mono [OF assms(1) 1(2), of ?N] port_rel_mono [OF assms(1) r3, of ?N] port_rel_mono [OF assms(1) r4, of ?N]
      port_rel_mono [OF assms(1) r5, of ?N] by simp_all
  show ?thesis
    using 1(1) 3 4 5(1,2) r6 e by (cases ok; cases ok3; cases ok4; cases "ad_dma d1"; cases ok5; fastforce simp: DevicePrivate_readSector_def)
qed

lemma writeSector_rel:
  assumes "port_rel P R" "addressable d" "512 * unat n \<le> length buf"
  shows "\<exists>ok d' m'. DevicePrivate_writeSector P (Some buf) n addr hi d m = Some (ok, d', m') \<and> R (77882 + 4360 * unat n) m m'"
proof -
  let ?N = "77882 + 4360 * unat n"
  obtain ok d1 m1 where 1: "DevicePrivate_prepareAccess P n addr hi d m = Some (ok, d1, m1)" "R 0x3023 m m1"
    by (rule prepareAccess_some [OF assms(1,2)])
  let ?m2 = "DevicePrivate_write P (port_command d1) (write_command d1) m1"
  obtain ok5 m5 where 5: "write_sectors P d1 (unat n) 0 buf ?m2 = Some (ok5, m5)" "R (0x1088 * unat n) ?m2 m5"
    using write_sectors_rel [OF assms(1), of 0 "unat n" buf d1 ?m2] assms(3) by auto
  let ?m6 = "DevicePrivate_write P (port_command d1) (flush_command d1) m5"
  obtain ok7 m7 where 7: "DevicePrivate_poll P d1 False ?m6 = (ok7, m7)"
    by fastforce
  have r2: "R 0x3024 m ?m2"
    by (rule port_rel_trans [OF assms(1) 1(2) port_rel_out8 [OF assms(1)]]) simp
  have r5: "R (0x3024 + 0x1088 * unat n) m m5"
    by (rule port_rel_trans [OF assms(1) r2 5(2)]) simp
  have r6: "R (0x3025 + 0x1088 * unat n) m ?m6"
    by (rule port_rel_trans [OF assms(1) r5 port_rel_out8 [OF assms(1)]]) simp
  have "R 0x1008 ?m6 m7"
    using poll_rel [OF assms(1), of ?m6 d1 False] 7 by simp
  then have r7: "R ?N m m7"
    by (rule port_rel_trans [OF assms(1) r6]) simp
  have e: "R ?N m m1" "R ?N m ?m2" "R ?N m m5"
    using port_rel_mono [OF assms(1) 1(2), of ?N] port_rel_mono [OF assms(1) r2, of ?N] port_rel_mono [OF assms(1) r5, of ?N] by simp_all
  show ?thesis
    using 1(1) 5(1) 7 r7 e by (cases ok; cases "ad_dma d1"; cases ok5; fastforce simp: DevicePrivate_writeSector_def)
qed


text \<open>A clock that no port operation advances by more than one.\<close>

definition counts :: "'m ports \<Rightarrow> ('m \<Rightarrow> nat) \<Rightarrow> bool" where
  "counts P t \<longleftrightarrow>
     (\<forall>p m. t (snd (pt_in8 P p m)) \<le> t m + 1 \<and> t (snd (pt_in16 P p m)) \<le> t m + 1 \<and> t (snd (pt_in32 P p m)) \<le> t m + 1) \<and>
     (\<forall>p v m. t (pt_out8 P p v m) \<le> t m + 1) \<and> (\<forall>p v m. t (pt_out16 P p v m) \<le> t m + 1) \<and>
     (\<forall>p v m. t (pt_out32 P p v m) \<le> t m + 1) \<and> (\<forall>n m. t (pt_sleep P n m) \<le> t m + 1) \<and> (\<forall>m. t (snd (pt_alloc P m)) \<le> t m + 1)"

lemma counts_rel:
  assumes "counts P t"
  shows "port_rel P (\<lambda>n m m'. t m' \<le> t m + n)"
  unfolding port_rel_def
proof (intro conjI allI impI, goal_cases)
  case (2 i j m m' m'')
  then show ?case
    by linarith
next
  case (3 i j m m')
  then show ?case
    by linarith
qed (use assms in \<open>auto simp: counts_def\<close>)

section \<open>The search for controllers\<close>

lemma port_rel_ex:
  assumes "port_rel P R" "\<exists>n. R n m m'" "\<exists>n. R n m' m''"
  shows "\<exists>n. R n m m''"
  using assms(2,3) port_rel_trans [OF assms(1)] by blast

lemma identify_rel:
  assumes "port_rel P R" "DevicePrivate_identify P d m = (ok, m')"
  shows "\<exists>n. R n m m'"
proof -
  let ?m3 = "DevicePrivate_wait P d (DevicePrivate_write P (port_command d) ATA_CMD_IDENTIFY (DevicePrivate_select P d 0 m))"
  have "\<exists>n. R n m ?m3"
    using port_rel_ex [OF assms(1) _ port_rel_ex [OF assms(1)]] select_rel [OF assms(1)] port_rel_out8 [OF assms(1)] wait_rel [OF assms(1)] by meson
  moreover have "m' = snd (DevicePrivate_getStatus P d ?m3)"
    using assms(2) by (auto simp: DevicePrivate_identify_def Let_def split: prod.splits)
  ultimately show ?thesis
    using port_rel_ex [OF assms(1)] status_rel [OF assms(1)] by blast
qed

lemma detectModel_rel:
  assumes "port_rel P R" "DevicePrivate_detectModel P d m = (d', m')"
  shows "\<exists>n. R n m m'"
proof -
  have "m' = snd (DevicePrivate_read P (port_LBA2 d) (snd (DevicePrivate_read P (port_LBA1 d) m)))"
    using assms(2) by (auto simp: DevicePrivate_detectModel_def split: prod.splits)
  then show ?thesis
    using port_rel_ex [OF assms(1)] port_rel_in8 [OF assms(1)] by blast
qed

lemma detect_loop_rel: "port_rel P R \<Longrightarrow> \<exists>n. R n m (snd (detect_loop P d c m))"
proof (induction P d c m rule: detect_loop.induct)
  case (1 P d c m)
  obtain st m1 where g: "DevicePrivate_getStatus P d m = (st, m1)"
    by fastforce
  have r: "\<exists>n. R n m m1"
    using status_rel [OF "1.prems", of m d] g by auto
  show ?case
  proof (cases "st AND ATA_STATUS_ERROR > 0 \<or> (st AND ATA_STATUS_BUSY = 0 \<and> st AND ATA_STATUS_DRQ > 0) \<or> c > ATA_MAX_WAIT_CNT")
    case True
    then have "snd (detect_loop P d c m) = m1"
      using g by (subst detect_loop.simps) auto
    then show ?thesis
      using r by simp
  next
    case False
    then have "detect_loop P d c m = detect_loop P d (c + 1) m1"
      using g by (subst detect_loop.simps) auto
    then show ?thesis
      using "1.IH" [OF g [symmetric]] False "1.prems" port_rel_ex [OF "1.prems" r] by auto
  qed
qed

lemma readBuffer_128_rel:
  assumes "port_rel P R"
  shows "\<exists>buf' m' n. DevicePrivate_readBuffer P port (new_buffer junk 2048) 0 128 m = Some (buf', m') \<and> R n m m'"
proof -
  have "(128 :: u32) = of_nat (4 * 32)"
    by simp
  then show ?thesis
    using readBuffer_rel [OF assms, of 0 32 "new_buffer junk 2048" port m] by (auto simp: new_buffer_def)
qed


lemma detect_rel:
  assumes "port_rel P R" "DevicePrivate_detect junk P d m = Some (d', m')"
  shows "\<exists>n. R n m m'"
proof (cases "ad_avail d \<or> ad_basePort d = 0")
  case True
  then have "m' = m"
    using assms(2) by (auto simp: DevicePrivate_detect_def split: if_splits)
  then show ?thesis
    using port_rel_refl [OF assms(1)] by blast
next
  case False
  define d1 where "d1 = d\<lparr>ad_mode := ATA_MODE_PIO\<rparr>"
  define m1 where "m1 = DevicePrivate_write P (port_control d1) (if ad_irq d1 then 0 else 0x2) m"
  obtain ok2 m2 where 2: "DevicePrivate_reset P d1 m1 = (ok2, m2)"
    by fastforce
  obtain ok3 m3 where 3: "DevicePrivate_identify P d1 m2 = (ok3, m3)"
    by fastforce
  obtain err m4 where 4: "detect_loop P d1 0 m3 = (err, m4)"
    by fastforce
  obtain d5 m5 where 5: "DevicePrivate_detectModel P d1 m4 = (d5, m5)"
    by fastforce
  define m6 where "m6 = (if err = Some True then pt_sleep P 1 (DevicePrivate_write P (port_command d5) ATA_CMD_IDENTIFY_PACKET m5) else m5)"
  obtain buf m7 where 7: "DevicePrivate_readBuffer P (port_data d5) (new_buffer junk 2048) 0 128 m6 = Some (buf, m7)" "\<exists>n. R n m6 m7"
    using readBuffer_128_rel [OF assms(1)] by blast
  note ex = port_rel_ex [OF assms(1)]
  have r1: "\<exists>n. R n m m1"
    using port_rel_out8 [OF assms(1)] unfolding m1_def by blast
  have r2: "\<exists>n. R n m m2"
    using reset_rel [OF assms(1), of m1 d1] 2 by (intro ex [OF r1]) auto
  have r3: "\<exists>n. R n m m3"
    using identify_rel [OF assms(1) 3] by (rule ex [OF r2])
  have r4: "\<exists>n. R n m m4"
    using detect_loop_rel [OF assms(1), of m3 d1 0] 4 by (intro ex [OF r3]) auto
  have r5: "\<exists>n. R n m m5"
    using detectModel_rel [OF assms(1) 5] by (rule ex [OF r4])
  let ?w = "DevicePrivate_write P (port_command d5) ATA_CMD_IDENTIFY_PACKET m5"
  have w: "\<exists>n. R n m5 ?w" "\<exists>n. R n ?w (pt_sleep P 1 ?w)" "\<exists>n. R n m5 m5"
    using port_rel_out8 [OF assms(1)] port_rel_sleep [OF assms(1)] port_rel_refl [OF assms(1)] by blast+
  have "\<exists>n. R n m5 m6"
    unfolding m6_def using ex [OF w(1,2)] w(3) by simp
  from ex [OF ex [OF r5 this] 7(2)] have r7: "\<exists>n. R n m m7" .
  have "m' = m2 \<or> m' = m3 \<or> m' = m4 \<or> m' = m5 \<or> m' = m7"
    using assms(2) False 2 3 4 5 7(1) unfolding DevicePrivate_detect_def d1_def [symmetric] Let_def m1_def [symmetric]
    by (cases err) (auto simp: m6_def split: if_splits)
  then show ?thesis
    using r2 r3 r4 r5 r7 by blast
qed

lemma ata_setup_rel: "port_rel P R \<Longrightarrow> ata_setup junk P x pri sec ty a m = Some (a', m') \<Longrightarrow> \<exists>n. R n m m'"
  by (auto simp: ata_setup_def DevicePrivate_setup_def dest: detect_rel)

lemma port_rel_out32': "port_rel P R \<Longrightarrow> R 1 m (pt_out32 P p v m)"
  by (simp add: port_rel_def)

lemma port_rel_out8': "port_rel P R \<Longrightarrow> R 1 m (pt_out8 P p v m)"
  by (simp add: port_rel_def)

lemma port_rel_in32': "port_rel P R \<Longrightarrow> R 1 m (snd (pt_in32 P p m))"
  by (simp add: port_rel_def)

lemma port_rel_alloc': "port_rel P R \<Longrightarrow> R 1 m (snd (pt_alloc P m))"
  by (simp add: port_rel_def)

lemma getConfig_rel:
  assumes "port_rel P R"
  shows "\<exists>n. R n m (snd (PCI_getConfig P b d f r m))"
  unfolding PCI_getConfig_def PCI_systemGet_def PCI_systemPut_def
  using port_rel_ex [OF assms] port_rel_out32' [OF assms] port_rel_in32' [OF assms] by blast

lemma PCI_set_rel:
  assumes "port_rel P R"
  shows "\<exists>n. R n m (PCI_set P (Some it) r v m)"
  unfolding PCI_set_def PCI_setHeader_def PCI_setConfig_def PCI_systemPutData_def PCI_systemPut_def option.case
  using port_rel_ex [OF assms] port_rel_out32' [OF assms] port_rel_out8' [OF assms] by blast

lemma getHeader_loop_rel: "port_rel P R \<Longrightarrow> \<exists>n. R n m (snd (getHeader_loop P b d f i k h m))"
proof (induction k arbitrary: i h m)
  case 0
  then show ?case
    using port_rel_refl by force
next
  case (Suc k)
  obtain v m1 where g: "PCI_getConfig P b d f (of_nat (i * 4)) m = (v, m1)"
    by fastforce
  have "\<exists>n. R n m m1"
    using getConfig_rel [OF Suc.prems, of m b d f "of_nat (i * 4)"] g by simp
  from port_rel_ex [OF Suc.prems this Suc.IH [OF Suc.prems]] show ?case
    using g by (simp del: of_nat_mult)
qed

lemma getHeader_rel:
  assumes "port_rel P R"
  shows "\<exists>n. R n m (snd (PCI_getHeader P b d f m))"
proof -
  obtain h m1 where a: "pt_alloc P m = (h, m1)"
    by fastforce
  have r: "\<exists>n. R n m m1"
    using port_rel_alloc' [OF assms, of m] a by auto
  show ?thesis
  proof (cases h)
    case None
    then show ?thesis
      using a r by (simp add: PCI_getHeader_def)
  next
    case (Some x)
    then show ?thesis
      using a port_rel_ex [OF assms r getHeader_loop_rel [OF assms, of m1 b d f 0 16 x]] by (simp add: PCI_getHeader_def case_prod_beta)
  qed
qed

lemma getCurrent_rel:
  assumes "port_rel P R"
  shows "\<exists>n. R n m (snd (PCI_getCurrent P it m))"
proof -
  obtain v m1 where g: "PCI_getConfig P (pi_bus it) (pi_dev it) (pi_func it) 0 m = (v, m1)"
    by fastforce
  have r: "\<exists>n. R n m m1"
    using getConfig_rel [OF assms, of m "pi_bus it" "pi_dev it" "pi_func it" 0] g by simp
  show ?thesis
    using g r port_rel_ex [OF assms r getHeader_rel [OF assms]] by (simp add: PCI_getCurrent_def)
qed

lemma devices_rel:
  assumes "port_rel P R" "ATA_devices junk P h a m = Some (a', m')"
  shows "\<exists>n. R n m m'"
proof -
  note ex = port_rel_ex [OF assms(1)]
  obtain x1 x2 x3 x4 b0 b1 b2 b3 a0 a1 m1 a2 m2 a3 m3 a4 where
    "ata_setup junk P x1 b0 b1 ATAMaster a0 m = Some (a1, m1)" "ata_setup junk P x2 b0 b1 ATASlave a1 m1 = Some (a2, m2)"
    "ata_setup junk P x3 b2 b3 ATAMaster a2 m2 = Some (a3, m3)" "ata_setup junk P x4 b2 b3 ATASlave a3 m3 = Some (a4, m')"
    using assms(2) unfolding ATA_devices_def Let_def case_prod_beta by auto
  then have "\<exists>n. R n m m1" "\<exists>n. R n m1 m2" "\<exists>n. R n m2 m3" "\<exists>n. R n m3 m'"
    by (blast dest: ata_setup_rel [OF assms(1)])+
  then show ?thesis
    using ex by meson
qed

lemma controller_rel:
  assumes "port_rel P R" "ATA_controller junk P it a m = Some (a', m')"
  shows "\<exists>n. R n m m'"
proof -
  note ex = port_rel_ex [OF assms(1)]
  define m1 where "m1 = PCI_set P (Some it) 0x3C 0xFE m"
  obtain h m2 where 2: "PCI_getCurrent P it m1 = (Some h, m2)"
    using assms(2) unfolding ATA_controller_def m1_def [symmetric] by (cases "PCI_getCurrent P it m1"; cases "fst (PCI_getCurrent P it m1)") auto
  define m3 where "m3 = (let cmd = (hdr_command h AND NOT (push_bit 10 1)) OR (push_bit 0 1 OR push_bit 2 1)
    in if cmd \<noteq> hdr_command h then PCI_set P (Some it) 0x4 (ucast (cmd AND 0xFF)) m2 else m2)"
  obtain h' m4 where 4: "PCI_getCurrent P it m3 = (Some h', m4)" "ATA_devices junk P h' a m4 = Some (a', m')"
    using assms(2) 2 unfolding ATA_controller_def m1_def [symmetric]
    by (cases "PCI_getCurrent P it m3"; cases "fst (PCI_getCurrent P it m3)") (auto simp: m3_def Let_def)
  have r1: "\<exists>n. R n m m1"
    unfolding m1_def by (rule PCI_set_rel [OF assms(1)])
  have r2: "\<exists>n. R n m1 m2"
    using getCurrent_rel [OF assms(1), of m1 it] 2 by simp
  have "\<exists>n. R n m2 m2"
    using port_rel_refl [OF assms(1)] by blast
  then have r3: "\<exists>n. R n m2 m3"
    using PCI_set_rel [OF assms(1)] by (simp add: m3_def Let_def)
  have r4: "\<exists>n. R n m3 m4"
    using getCurrent_rel [OF assms(1), of m3 it] 4(1) by simp
  show ?thesis
    by (rule ex [OF ex [OF ex [OF ex [OF r1 r2] r3] r4] devices_rel [OF assms(1) 4(2)]])
qed


text \<open>The registers with the identification and the class of a function.\<close>

definition pci_ident :: "(u32 \<Rightarrow> u32) \<Rightarrow> nat \<times> nat \<times> nat \<Rightarrow> u32 \<times> u32" where
  "pci_ident c q = (pci_reg c q 0, pci_reg c q 8)"

lemma pci_ident_eq: "pci_ident c' q = pci_ident c q \<Longrightarrow> pci_present c' q = pci_present c q \<and> pci_class c' q = pci_class c q"
  by (simp add: pci_ident_def pci_present_def pci_class_def)

lemma controller_found_again:
  assumes "pci_host P cfg adr" "b < 256" "d < 32" "pci_present (cfg m) (b, d, 0)" "pci_class (cfg m) (b, d, 0) = (1, 1)"
  shows "\<exists>hdr m'. PCI_findNextDevice P (Some (pci_at (b, d, 0))) 1 1 m = Some (Some hdr, Some (pci_at (b, d, 0)), m') \<and> cfg m' = cfg m"
proof -
  have "find (\<lambda>q. pci_present (cfg m) q \<and> pci_class (cfg m) q = (1, 1)) (scan_from (cfg m) (b, d, 0)) = Some (b, d, 0)"
    using assms(4,5) by (subst scan_from_function_0) simp
  from findNextDevice_some [OF assms(1-3) _ this] show ?thesis
    by auto
qed

lemma init_loop_diverges:
  assumes "pci_host P cfg adr" "port_rel P (\<lambda>n m m'. pci_ident (cfg m') (b, d, 0) = pci_ident (cfg m) (b, d, 0))" "b < 256" "d < 32"
    "ata_init_loop junk P (pci_at (b, d, 0)) a m = Some y" "pci_present (cfg m) (b, d, 0)" "pci_class (cfg m) (b, d, 0) = (1, 1)"
  shows False
proof -
  let ?q = "(b, d, 0 :: nat)"
  let ?Q = "\<lambda>((((junk, P'), it), a), m) y. P' = P \<and> it = pci_at ?q \<and> pci_present (cfg m) ?q \<and> pci_class (cfg m) ?q = (1, 1) \<longrightarrow> False"
  have "?Q ((((junk, P), pci_at ?q), a), m) y"
  proof (rule ata_init_loop.raw_induct [where Pa = ?Q, OF _ assms(5)], goal_cases)
    case (1 rec junk P' it a m y)
    show ?case
    proof (clarify)
      assume h: "P' = P" "it = pci_at ?q" "pci_present (cfg m) ?q" "pci_class (cfg m) ?q = (1, 1)"
      obtain hdr m1 where f: "PCI_findNextDevice P (Some (pci_at ?q)) 1 1 m = Some (Some hdr, Some (pci_at ?q), m1)" "cfg m1 = cfg m"
        using controller_found_again [OF assms(1,3,4) h(3,4)] by blast
      obtain a2 m2 where s: "(if hdr_headerType hdr AND 31 = 0 then ATA_controller junk P (pci_at ?q) a m1 else Some (a, m1)) = Some (a2, m2)"
        "rec junk P (pci_at ?q) a2 m2 = Some y"
        using 1(2) h(1,2) f(1) by (auto split: if_splits)
      have "pci_ident (cfg m2) ?q = pci_ident (cfg m1) ?q"
        using s(1) controller_rel [OF assms(2)] by (auto split: if_splits)
      then show False
        using 1(1) [OF s(2)] pci_ident_eq [of "cfg m2" ?q "cfg m1"] h(3,4) f(2) by auto
    qed
  qed
  then show False
    using assms(6,7) by auto
qed

section \<open>Properties\<close>

text \<open>
  C33: The driver cannot be hung by a device.  Whatever the ports answer, \<^verbatim>\<open>readSector\<close> and \<^verbatim>\<open>writeSector\<close> return for a device with LBA
  or with a geometry without zeros, by which the CHS address is divided (\<open>addressable\<close>), with a bounded number of port operations: at most 77882, and 4360 more for each sector.  The buffer keeps its length.
\<close>

theorem ATA_bounded_io:
  assumes "counts P t" "addressable d" "512 * unat n \<le> length buf"
  shows "(\<exists>ok buf' d' m'. DevicePrivate_readSector P (Some buf) n addr hi d m = Some (ok, Some buf', d', m') \<and> length buf' = length buf \<and>
      t m' \<le> t m + (77882 + 4360 * unat n)) \<and>
    (\<exists>ok d' m'. DevicePrivate_writeSector P (Some buf) n addr hi d m = Some (ok, d', m') \<and> t m' \<le> t m + (77882 + 4360 * unat n))"
  using readSector_rel [OF counts_rel [OF assms(1)] assms(2,3), of addr hi m] writeSector_rel [OF counts_rel [OF assms(1)] assms(2,3), of addr hi m]
  by blast

text \<open>A bus without devices: every port reads as ones.  The machine counts the operations.\<close>

definition floating_bus :: "nat ports" where
  "floating_bus =
     \<lparr>pt_in8 = \<lambda>p m. (0xFF, Suc m), pt_in16 = \<lambda>p m. (0xFFFF, Suc m), pt_in32 = \<lambda>p m. (0xFFFFFFFF, Suc m),
      pt_out8 = \<lambda>p v m. Suc m, pt_out16 = \<lambda>p v m. Suc m, pt_out32 = \<lambda>p v m. Suc m, pt_sleep = \<lambda>t m. Suc m, pt_alloc = \<lambda>m. (None, Suc m)\<rparr>"

theorem ATA_bounded_io_witness:
  "\<exists>ok buf d m. DevicePrivate_readSector floating_bus (Some (replicate 512 0)) 1 7 0 (DevicePrivate_new\<lparr>ad_lba := True\<rparr>) 0 = Some (ok, Some buf, d, m) \<and>
     m \<le> 82242"
proof -
  have "counts floating_bus (\<lambda>m. m)"
    by (simp add: counts_def floating_bus_def)
  moreover have "addressable (DevicePrivate_new\<lparr>ad_lba := True\<rparr>)"
    by (simp add: addressable_def)
  ultimately show ?thesis
    using ATA_bounded_io [of floating_bus "\<lambda>m. m" "DevicePrivate_new\<lparr>ad_lba := True\<rparr>" 1 "replicate 512 0" 7 0 0] by fastforce
qed

text \<open>
  C34: The search for controllers does not end.  When an IDE controller is function 0 of a device, \<^verbatim>\<open>ATA::init\<close> finds it again
  in every round, as \<^verbatim>\<open>findNextDevice\<close> leaves the iterator on it, and never returns.
\<close>

theorem ATA_init_never_returns:
  assumes "pci_host P cfg adr" "port_rel P (\<lambda>n m m'. pci_ident (cfg m') (b, d, 0) = pci_ident (cfg m) (b, d, 0))" "b < 256" "d < 32"
    "find (\<lambda>q. pci_present (cfg m) q \<and> pci_class (cfg m) q = (1, 1)) (scan_from (cfg m) (0, 0, 0)) = Some (b, d, 0)" "at_pci a"
  shows "ATA_init junk P a m = None"
proof (rule ccontr)
  assume "ATA_init junk P a m \<noteq> None"
  then obtain y where y: "ata_init_loop junk P (pci_at (0, 0, 0)) a m = Some y"
    using assms(6) by (auto simp: ATA_init_def PCI_startIter_def pci_at_def)
  obtain hdr m1 where f: "PCI_findNextDevice P (Some (pci_at (0, 0, 0))) 1 1 m = Some (Some hdr, Some (pci_at (b, d, 0)), m1)" "cfg m1 = cfg m"
    using findNextDevice_some [OF assms(1) _ _ _ assms(5)] by auto
  obtain a2 m2 where s: "(if hdr_headerType hdr AND 31 = 0 then ATA_controller junk P (pci_at (b, d, 0)) a m1 else Some (a, m1)) = Some (a2, m2)"
    "ata_init_loop junk P (pci_at (b, d, 0)) a2 m2 = Some y"
    using y f(1) by (subst (asm) ata_init_loop.simps) (auto split: if_splits)
  have "pci_ident (cfg m2) (b, d, 0) = pci_ident (cfg m1) (b, d, 0)"
    using s(1) controller_rel [OF assms(2)] by (auto split: if_splits)
  then have "pci_present (cfg m2) (b, d, 0)" "pci_class (cfg m2) (b, d, 0) = (1, 1)"
    using pci_ident_eq [of "cfg m2" "(b, d, 0)" "cfg m1"] f(2) find_SomeD [OF assms(5)] by auto
  from init_loop_diverges [OF assms(1-4) s(2) this] show False .
qed

theorem ATA_init_never_returns_witness:
  "ATA_init (\<lambda>_. 0) pc_ports (ATA_new True 0) \<lparr>pc_adr = 0, pc_cfg = ide_regs\<rparr> = None"
proof -
  have "port_rel pc_ports (\<lambda>n m m'. pci_ident (pc_cfg m') (0, 3, 0) = pci_ident (pc_cfg m) (0, 3, 0))"
    by (auto simp: port_rel_def pc_ports_def)
  then show ?thesis
    using ATA_init_never_returns [OF pc_host, of 0 3 "\<lparr>pc_adr = 0, pc_cfg = ide_regs\<rparr>" "ATA_new True 0" "\<lambda>_. 0"] ide_found
    by (simp add: ATA_new_def)
qed

end
