(* ===== verification/Clothes_Disc.thy ===== *)
theory Clothes_Disc
  imports File_Table Block_Device
begin

text \<open>
  The disc layer of the ClothesFS file system: class \<^verbatim>\<open>ClothesFS\<close> of \<^verbatim>\<open>src/fs/clothesfs.cpp\<close> and
  \<^verbatim>\<open>inc/fs/clothesfs.hh\<close> without its iterator, which is in \<open>Clothes_FS\<close>: numbers in a block, reading and
  writing blocks, formatting, the chain of free blocks, metadata blocks, directories and files.

  ClothesFS writes its device: an \<open>fsphys\<close> is the record of the methods of \<^verbatim>\<open>FilesystemPhys\<close> as functions that pass
  on the state of the device, \<open>cfs_disc\<close>.  Buffers are byte lists; a local array that is not cleared starts with the
  bytes \<open>junk\<close>.  As everywhere, the result \<^term>\<open>None\<close> means that the code has no defined result.

  The interface on which the file system relies is the locale \<open>sector_device\<close>: a device that keeps a list of
  512-byte sectors, reads back what was written and does not fail inside its bounds.
\<close>

section \<open>Constants\<close>

definition META_FREE :: u8 where "META_FREE = 0x00"
definition META_FILE :: u8 where "META_FILE = 0x02"
definition META_DIR :: u8 where "META_DIR = 0x04"
definition META_FILE_CONT :: u8 where "META_FILE_CONT = 0x08"
definition META_DIR_CONT :: u8 where "META_DIR_CONT = 0x10"
definition ATTRIB_NONE :: u8 where "ATTRIB_NONE = 0x00"
definition PAYLOAD_USED :: u8 where "PAYLOAD_USED = 0x01"

definition header_begin :: nat where "header_begin = 8 * 4"
definition metadata_id :: u32 where "metadata_id = 0x42"
definition payload_id :: u32 where "payload_id = 0x4242"

lemmas clothes_consts = META_FREE_def META_FILE_def META_DIR_def META_FILE_CONT_def META_DIR_CONT_def ATTRIB_NONE_def
  PAYLOAD_USED_def header_begin_def metadata_id_def payload_id_def

section \<open>Numbers in a block\<close>

text \<open>
  \<^verbatim>\<open>buf[i] << n\<close> shifts an \<^verbatim>\<open>int\<close>: there is no defined result from the fifth byte on.  The shift of \<^verbatim>\<open>numToData\<close>
  is one of 64 bits.
\<close>

fun dataToNum_loop :: "u8 list \<Rightarrow> nat \<Rightarrow> nat \<Rightarrow> nat \<Rightarrow> u32 \<Rightarrow> u32 option" where
  "dataToNum_loop buf i 0 n res = Some res"
| "dataToNum_loop buf i (Suc k) n res =
     (if i < length buf \<and> n < 32 then dataToNum_loop buf (i + 1) k (n + 8) (res + push_bit n (ucast (buf ! i))) else None)"

definition dataToNum :: "u8 list \<Rightarrow> nat \<Rightarrow> nat \<Rightarrow> u32 option" where
  "dataToNum buf start cnt = dataToNum_loop buf start cnt 0 0"

fun numToData_loop :: "u64 \<Rightarrow> u8 list \<Rightarrow> nat \<Rightarrow> nat \<Rightarrow> nat \<Rightarrow> u8 list option" where
  "numToData_loop num buf i 0 n = Some buf"
| "numToData_loop num buf i (Suc k) n =
     (if i < length buf \<and> n < 64 then numToData_loop num (buf[i := ucast (drop_bit n num AND 0xFF)]) (i + 1) k (n + 8) else None)"

definition numToData :: "u64 \<Rightarrow> u8 list \<Rightarrow> nat \<Rightarrow> nat \<Rightarrow> u8 list option" where
  "numToData num buf start cnt = numToData_loop num buf start cnt 0"

definition clearBuffer :: "u8 list \<Rightarrow> u32 \<Rightarrow> u8 list option" where
  "clearBuffer buf n = buf_write 0 (replicate (unat n) 0) buf"

text \<open>\<^verbatim>\<open>while (ptr % 4 != 0) ++ptr\<close>.\<close>

function align4 :: "u32 \<Rightarrow> u32" where
  "align4 p = (if p mod 4 \<noteq> 0 then align4 (p + 1) else p)"
  by pat_completeness auto
termination
proof (relation "measure (\<lambda>p. unat (- p))", goal_cases)
  case (2 p)
  then have "0 < unat p"
    by (cases "p = 0") (auto simp: unat_gt_0)
  then have "p \<noteq> 0"
    by auto
  then have "- p \<noteq> 0"
    by simp
  then have "unat (- p - 1) < unat (- p)"
    by (metis measure_unat diff_add_cancel)
  then show ?case
    by simp
qed simp

declare align4.simps [simp del]

section \<open>The device and the file system object\<close>

record 'd fsphys =
  fp_read :: "u8 list \<Rightarrow> u32 \<Rightarrow> u32 \<Rightarrow> u32 \<Rightarrow> 'd \<Rightarrow> (bool \<times> u8 list \<times> 'd) option"
  fp_write :: "u8 list \<Rightarrow> u32 \<Rightarrow> u32 \<Rightarrow> u32 \<Rightarrow> 'd \<Rightarrow> (bool \<times> 'd) option"
  fp_size :: u64
  fp_sectorSize :: u32

record 'd clothes =
  cfs_phys :: "'d fsphys option"
  cfs_blocksize :: u32
  cfs_blocks :: u32
  cfs_block_in_sectors :: u32
  cfs_disc :: 'd

text \<open>The members that the constructor leaves indeterminate are its arguments.\<close>

definition ClothesFS_new :: "u32 \<Rightarrow> u32 \<Rightarrow> 'd \<Rightarrow> 'd clothes" where
  "ClothesFS_new blocks sectors disc =
     \<lparr>cfs_phys = None, cfs_blocksize = 512, cfs_blocks = blocks, cfs_block_in_sectors = sectors, cfs_disc = disc\<rparr>"

definition ClothesFS_blockSize :: "'d clothes \<Rightarrow> u32" where
  "ClothesFS_blockSize c = cfs_blocksize c"

definition ClothesFS_setPhysical :: "'d fsphys option \<Rightarrow> 'd clothes \<Rightarrow> 'd clothes option" where
  "ClothesFS_setPhysical phys c = do {
     p \<leftarrow> phys;
     (if cfs_blocksize c = 0 \<or> fp_sectorSize p = 0 then None
      else Some (c\<lparr>cfs_phys := phys, cfs_blocks := ucast (fp_size p div ucast (cfs_blocksize c)),
                   cfs_block_in_sectors := cfs_blocksize c div fp_sectorSize p\<rparr>)) }"

text \<open>One sector read from, or written to, the device at a byte position.\<close>

definition read_sector :: "u64 \<Rightarrow> nat \<Rightarrow> u8 list \<Rightarrow> 'd fsphys \<Rightarrow> 'd clothes \<Rightarrow> (bool \<times> u8 list \<times> 'd clothes) option" where
  "read_sector pos off data p c =
     (if off \<le> length data then do {
        (ok, bs, d) \<leftarrow> fp_read p (drop off data) 1 (ucast (pos AND 0xFFFFFFFF)) (ucast (drop_bit 32 pos AND 0xFFFFFFFF)) (cfs_disc c);
        Some (ok, take off data @ bs, c\<lparr>cfs_disc := d\<rparr>) }
      else None)"

definition write_sector :: "u64 \<Rightarrow> nat \<Rightarrow> u8 list \<Rightarrow> 'd fsphys \<Rightarrow> 'd clothes \<Rightarrow> (bool \<times> 'd clothes) option" where
  "write_sector pos off data p c = do {
     bs \<leftarrow> buf_read off (unat (fp_sectorSize p)) data;
     (ok, d) \<leftarrow> fp_write p bs 1 (ucast (pos AND 0xFFFFFFFF)) (ucast (drop_bit 32 pos AND 0xFFFFFFFF)) (cfs_disc c);
     Some (ok, c\<lparr>cfs_disc := d\<rparr>) }"

definition ClothesFS_detect :: "(nat \<Rightarrow> u8) \<Rightarrow> 'd clothes \<Rightarrow> (bool \<times> 'd clothes) option" where
  "ClothesFS_detect junk c =
     (case cfs_phys c of
        None \<Rightarrow> Some (False, c)
      | Some p \<Rightarrow> do {
          (ok, buf, c) \<leftarrow> read_sector 0 0 (new_buffer junk (fp_sectorSize p)) p c;
          (if \<not> ok then Some (False, c)
           else do {
             bs \<leftarrow> dataToNum buf (header_begin + 4) 2;
             Some (buf ! header_begin = 0x00 \<and> buf ! (header_begin + 1) = 0x42 \<and> buf ! (header_begin + 2) = 0x00 \<and>
                   buf ! (header_begin + 3) = 0x41, c\<lparr>cfs_blocksize := bs\<rparr>) }) })"

section \<open>Blocks\<close>

text \<open>The loops count down from 0, so that they end after at most one round.\<close>

function clothes_getBlock_loop :: "'d fsphys \<Rightarrow> u32 \<Rightarrow> u32 \<Rightarrow> u8 list \<Rightarrow> 'd clothes \<Rightarrow> (bool \<times> u8 list \<times> 'd clothes) option" where
  "clothes_getBlock_loop p index block data c =
     (if block < cfs_block_in_sectors c then
        (case read_sector (ucast (index * cfs_blocksize c) + ucast (block * fp_sectorSize p))
                (unat (fp_sectorSize p * block)) data p c of
           None \<Rightarrow> None
         | Some (ok, data, c) \<Rightarrow> if ok then clothes_getBlock_loop p index (block - 1) data c else Some (False, data, c))
      else Some (True, data, c))"
  by pat_completeness auto

lemma countdown_measure: "(b :: u32) < n \<Longrightarrow> unat b < unat (b + 1)"
proof -
  assume "b < n"
  then have "unat b + 1 < 2 ^ 32"
    using unat_u32_less [of n] by (simp add: word_less_nat_alt)
  then show ?thesis
    using unat_plus_eq [of b 1] by simp
qed

termination clothes_getBlock_loop
  by (relation "measure (\<lambda>(p, index, block, data, c). unat (block + 1))") (auto simp: countdown_measure)

function clothes_putBlock_loop :: "'d fsphys \<Rightarrow> u32 \<Rightarrow> u32 \<Rightarrow> u8 list \<Rightarrow> 'd clothes \<Rightarrow> (bool \<times> 'd clothes) option" where
  "clothes_putBlock_loop p index block data c =
     (if block < cfs_block_in_sectors c then
        (case write_sector (ucast (index * cfs_blocksize c) + ucast (block * fp_sectorSize p))
                (unat (fp_sectorSize p * block)) data p c of
           None \<Rightarrow> None
         | Some (ok, c) \<Rightarrow> if ok then clothes_putBlock_loop p index (block - 1) data c else Some (False, c))
      else Some (True, c))"
  by pat_completeness auto

termination clothes_putBlock_loop
  by (relation "measure (\<lambda>(p, index, block, data, c). unat (block + 1))") (auto simp: countdown_measure)

declare clothes_getBlock_loop.simps [simp del] clothes_putBlock_loop.simps [simp del]

definition ClothesFS_getBlock :: "u32 \<Rightarrow> u8 list \<Rightarrow> 'd clothes \<Rightarrow> (bool \<times> u8 list \<times> 'd clothes) option" where
  "ClothesFS_getBlock index data c =
     (case cfs_phys c of
        None \<Rightarrow> if cfs_block_in_sectors c = 0 then Some (True, data, c) else None
      | Some p \<Rightarrow> clothes_getBlock_loop p index 0 data c)"

definition ClothesFS_putBlock :: "u32 \<Rightarrow> u8 list \<Rightarrow> 'd clothes \<Rightarrow> (bool \<times> 'd clothes) option" where
  "ClothesFS_putBlock index data c =
     (case cfs_phys c of
        None \<Rightarrow> if cfs_block_in_sectors c = 0 then Some (True, c) else None
      | Some p \<Rightarrow> clothes_putBlock_loop p index 0 data c)"

text \<open>A local array of one block: uninitialised, or cleared.\<close>

definition local_block :: "(nat \<Rightarrow> u8) \<Rightarrow> 'd clothes \<Rightarrow> u8 list" where
  "local_block junk c = new_buffer junk (cfs_blocksize c)"

section \<open>Formatting\<close>

definition ClothesFS_formatBlock :: "(nat \<Rightarrow> u8) \<Rightarrow> u32 \<Rightarrow> u32 \<Rightarrow> 'd clothes \<Rightarrow> (bool \<times> 'd clothes) option" where
  "ClothesFS_formatBlock junk num nxt c = do {
     buf \<leftarrow> clearBuffer (local_block junk c) (cfs_blocksize c);
     buf \<leftarrow> numToData (ucast metadata_id) buf 0 4;
     buf \<leftarrow> numToData (ucast nxt) buf (unat (cfs_blocksize c - 4)) 4;
     ClothesFS_putBlock num buf c }"

function formatBlocks_loop :: "(nat \<Rightarrow> u8) \<Rightarrow> u32 \<Rightarrow> u32 \<Rightarrow> 'd clothes \<Rightarrow> (u32 \<times> 'd clothes) option" where
  "formatBlocks_loop junk i nxt c =
     (if i \<ge> 2 then
        (case ClothesFS_formatBlock junk i nxt c of
           None \<Rightarrow> None
         | Some (ok, c) \<Rightarrow> if ok then formatBlocks_loop junk (i - 1) i c else Some (0, c))
      else Some (2, c))"
  by pat_completeness auto

termination formatBlocks_loop
proof (relation "measure (\<lambda>(junk, i, nxt, c). unat i)", goal_cases)
  case (2 junk i nxt c)
  then have "unat (2 :: u32) \<le> unat i"
    by (simp only: word_le_nat_alt)
  then show ?case
    using unat_minus_eq [of 1 i] by simp
qed simp

declare formatBlocks_loop.simps [simp del]

definition ClothesFS_formatBlocks :: "(nat \<Rightarrow> u8) \<Rightarrow> 'd clothes \<Rightarrow> (u32 \<times> 'd clothes) option" where
  "ClothesFS_formatBlocks junk c = formatBlocks_loop junk (cfs_blocks c - 1) 0 c"

definition ClothesFS_initMeta :: "(nat \<Rightarrow> u8) \<Rightarrow> u32 \<Rightarrow> u8 \<Rightarrow> 'd clothes \<Rightarrow> (bool \<times> 'd clothes) option" where
  "ClothesFS_initMeta junk index type c = do {
     data \<leftarrow> clearBuffer (local_block junk c) (cfs_blocksize c);
     data \<leftarrow> numToData (ucast metadata_id) data 0 2;
     data \<leftarrow> numToData (ucast type) data 2 1;
     data \<leftarrow> numToData (ucast ATTRIB_NONE) data 3 1;
     ClothesFS_putBlock index data c }"

definition ClothesFS_initData :: "(nat \<Rightarrow> u8) \<Rightarrow> u32 \<Rightarrow> u8 \<Rightarrow> u8 \<Rightarrow> 'd clothes \<Rightarrow> (u32 \<times> 'd clothes) option" where
  "ClothesFS_initData junk index type algo c = do {
     data \<leftarrow> clearBuffer (local_block junk c) (cfs_blocksize c);
     data \<leftarrow> numToData (ucast payload_id) data 0 2;
     data \<leftarrow> numToData (ucast type) data 2 1;
     data \<leftarrow> numToData (ucast algo) data 3 1;
     (ok, c) \<leftarrow> ClothesFS_putBlock index data c;
     Some (if ok then 4 else 0, c) }"

definition ClothesFS_baseType :: "u8 \<Rightarrow> u8" where
  "ClothesFS_baseType type =
     (if type = META_FILE_CONT then META_FILE else if type = META_DIR_CONT then META_DIR else type)"

definition ClothesFS_validType :: "u8 \<Rightarrow> u8 \<Rightarrow> bool" where
  "ClothesFS_validType type valid = (ClothesFS_baseType type = ClothesFS_baseType valid)"

text \<open>The name is a C string, \<^verbatim>\<open>nullptr\<close> or its bytes; the alignment of \<^verbatim>\<open>pos\<close> after the copy is not used.\<close>

definition ClothesFS_updateMeta :: "(nat \<Rightarrow> u8) \<Rightarrow> u32 \<Rightarrow> u8 list option \<Rightarrow> u64 \<Rightarrow> 'd clothes \<Rightarrow> (bool \<times> 'd clothes) option" where
  "ClothesFS_updateMeta junk index name sz c = do {
     (ok, data, c) \<leftarrow> ClothesFS_getBlock index (local_block junk c) c;
     (if \<not> ok then Some (False, c)
      else do {
        t \<leftarrow> dataToNum data 2 1;
        let type = ClothesFS_baseType (ucast t);
        (if type \<noteq> META_FILE \<and> type \<noteq> META_DIR then Some (False, c)
         else do {
           data \<leftarrow> numToData sz data 4 8;
           let str = (case name of None \<Rightarrow> [] | Some s \<Rightarrow> takeWhile (\<lambda>x. x \<noteq> 0) s);
           data \<leftarrow> buf_write 16 str data;
           data \<leftarrow> numToData (of_nat (length str)) data 12 4;
           ClothesFS_putBlock index data c }) }) }"

text \<open>
  The kernel build leaves the volume id cleared (\<^verbatim>\<open>USE_CUSTOM_STRING\<close>).  The positions of the header fields follow
  the additions to \<^verbatim>\<open>pos\<close>: block size 36, flags 40 - 2, volume id 40, size 48, name 56, root 88, used 92, journals 96
  and 100, chain of free blocks 104.
\<close>

definition format_header :: "u8 list option \<Rightarrow> u8 list \<Rightarrow> 'd fsphys \<Rightarrow> 'd clothes \<Rightarrow> u8 list option" where
  "format_header volid buf p c = do {
     buf \<leftarrow> buf_write header_begin [0x00, 0x42, 0x00, 0x41] buf;
     buf \<leftarrow> numToData (ucast (cfs_blocksize c)) buf (header_begin + 4) 2;
     buf \<leftarrow> buf_write (header_begin + 6) [0x0, 0x0] buf;
     buf \<leftarrow> numToData (fp_size p) buf (header_begin + 16) 4;
     buf \<leftarrow> buf_write (header_begin + 24) (case volid of None \<Rightarrow> [] | Some s \<Rightarrow> take 32 (takeWhile (\<lambda>x. x \<noteq> 0) s)) buf;
     numToData 1 buf (header_begin + 56) 4 }"

definition ClothesFS_format :: "(nat \<Rightarrow> u8) \<Rightarrow> u8 list option \<Rightarrow> 'd clothes \<Rightarrow> (bool \<times> 'd clothes) option" where
  "ClothesFS_format junk volid c = do {
     p \<leftarrow> cfs_phys c;
     buf \<leftarrow> clearBuffer (new_buffer junk (fp_sectorSize p)) (fp_sectorSize p);
     c \<leftarrow> (if cfs_blocksize c = 0 \<or> fp_sectorSize p = 0 then None
           else Some (c\<lparr>cfs_blocks := ucast (fp_size p div ucast (cfs_blocksize c)),
                        cfs_block_in_sectors := cfs_blocksize c div fp_sectorSize p\<rparr>));
     buf \<leftarrow> format_header volid buf p c;
     (freechain, c) \<leftarrow> ClothesFS_formatBlocks junk c;
     buf \<leftarrow> numToData 2 buf (header_begin + 60) 4;
     buf \<leftarrow> numToData 0 buf (header_begin + 64) 4;
     buf \<leftarrow> numToData 0 buf (header_begin + 68) 4;
     buf \<leftarrow> numToData (ucast freechain) buf (header_begin + 72) 4;
     (res, c) \<leftarrow> write_sector 0 0 buf p c;
     (ok, c) \<leftarrow> ClothesFS_initMeta junk 1 META_DIR c;
     (if \<not> ok then Some (False, c)
      else do {
        (ok, c) \<leftarrow> ClothesFS_updateMeta junk 1 (Some [SLASH]) 0 c;
        (if \<not> ok then Some (False, c) else Some (res, c)) }) }"

section \<open>The chain of free blocks\<close>

definition ClothesFS_takeFreeBlock :: "(nat \<Rightarrow> u8) \<Rightarrow> 'd clothes \<Rightarrow> (u32 \<times> 'd clothes) option" where
  "ClothesFS_takeFreeBlock junk c = do {
     (ok, data, c) \<leftarrow> ClothesFS_getBlock 0 (local_block junk c) c;
     (if \<not> ok then Some (0, c)
      else do {
        freechain \<leftarrow> dataToNum data 104 4;
        (ok, block, c) \<leftarrow> ClothesFS_getBlock freechain (local_block junk c) c;
        (if \<not> ok then Some (0, c)
         else do {
           next_freechain \<leftarrow> dataToNum block (unat (cfs_blocksize c - 4)) 4;
           data \<leftarrow> numToData (ucast next_freechain) data 104 4;
           (ok, c) \<leftarrow> ClothesFS_putBlock 0 data c;
           Some (if \<not> ok then 0 else freechain, c) }) }) }"

text \<open>The numbers written to \<^verbatim>\<open>block\<close> are not stored: only block 0 is written back.\<close>

definition ClothesFS_addFreeBlock :: "(nat \<Rightarrow> u8) \<Rightarrow> u32 \<Rightarrow> 'd clothes \<Rightarrow> (bool \<times> 'd clothes) option" where
  "ClothesFS_addFreeBlock junk blk c =
     (if blk = 0 then Some (False, c)
      else do {
        (ok, data, c) \<leftarrow> ClothesFS_getBlock 0 (local_block junk c) c;
        (if \<not> ok then Some (False, c)
         else do {
           (ok, block, c) \<leftarrow> ClothesFS_getBlock blk (local_block junk c) c;
           (if \<not> ok then Some (False, c)
            else do {
              t \<leftarrow> dataToNum block 2 1;
              let status = ucast t;
              (if status = META_FREE then Some (False, c)
               else do {
                 freechain \<leftarrow> dataToNum data 104 4;
                 block \<leftarrow> numToData (ucast freechain) block (unat (cfs_blocksize c - 4)) 4;
                 block \<leftarrow> numToData 0x42 block 0 4;
                 data \<leftarrow> numToData (ucast blk) data 104 4;
                 (ok, c) \<leftarrow> ClothesFS_putBlock 0 data c;
                 Some (ok, c) }) }) }) })"

section \<open>Directories and files\<close>

definition ClothesFS_dirContinues :: "(nat \<Rightarrow> u8) \<Rightarrow> u32 \<Rightarrow> u32 \<Rightarrow> 'd clothes \<Rightarrow> (bool \<times> 'd clothes) option" where
  "ClothesFS_dirContinues junk index nxt c = do {
     (ok, data, c) \<leftarrow> ClothesFS_getBlock index (local_block junk c) c;
     (if \<not> ok then Some (False, c)
      else do {
        data \<leftarrow> numToData (ucast nxt) data (unat (cfs_blocksize c - 4)) 4;
        ClothesFS_putBlock index data c }) }"

text \<open>The first free slot of a metadata block below \<open>limit\<close>.\<close>

partial_function (option) meta_slot :: "u8 list \<Rightarrow> u32 \<Rightarrow> u32 \<Rightarrow> u32 option option" where
  "meta_slot data limit p =
     (if p < limit then do {
        val \<leftarrow> dataToNum data (unat p) 4;
        (if val = 0 then Some (Some p) else meta_slot data limit (p + 4)) }
      else Some None)"

text \<open>
  Where \<^verbatim>\<open>addToMeta\<close> starts to look for a slot.  Unlike the iterator it does not skip the field with the length of
  the name, so that for a name that is not empty it starts in the last word of the name.
\<close>

definition addToMeta_start :: "u8 list \<Rightarrow> u8 \<Rightarrow> u32 option" where
  "addToMeta_start data type =
     (if type = META_FILE \<or> type = META_DIR then do {
        namelen \<leftarrow> dataToNum data (4 + 8) 4;
        Some (align4 (4 + 8 + namelen)) }
      else Some 4)"

partial_function (option) ClothesFS_addToMeta ::
  "(nat \<Rightarrow> u8) \<Rightarrow> u32 \<Rightarrow> u32 \<Rightarrow> u8 \<Rightarrow> 'd clothes \<Rightarrow> (bool \<times> 'd clothes) option" where
  "ClothesFS_addToMeta junk index meta type c = do {
     (ok, data, c) \<leftarrow> ClothesFS_getBlock index (local_block junk c) c;
     (if \<not> ok then Some (False, c)
      else do {
        mid \<leftarrow> dataToNum data 0 2;
        (if mid \<noteq> metadata_id then Some (False, c)
         else do {
           data_type \<leftarrow> dataToNum data 2 1;
           (if \<not> ClothesFS_validType (ucast data_type) type then Some (False, c)
            else do {
              p \<leftarrow> addToMeta_start data type;
              slot \<leftarrow> meta_slot data (cfs_blocksize c - 4) p;
              (case slot of
                 Some p \<Rightarrow> do {
                   data \<leftarrow> numToData (ucast meta) data (unat p) 4;
                   ClothesFS_putBlock index data c }
               | None \<Rightarrow> do {
                   nxt \<leftarrow> dataToNum data (unat (cfs_blocksize c - 4)) 4;
                   (if nxt \<noteq> 0 then ClothesFS_addToMeta junk nxt meta type c
                    else do {
                      (nxt, c) \<leftarrow> ClothesFS_takeFreeBlock junk c;
                      (if nxt = 0 then Some (False, c)
                       else do {
                         (ok, c) \<leftarrow> ClothesFS_dirContinues junk index nxt c;
                         (if \<not> ok then Some (False, c)
                          else do {
                            (ok, c) \<leftarrow> ClothesFS_initMeta junk nxt
                              (if type = META_FILE \<or> type = META_FILE_CONT then META_FILE_CONT else META_DIR_CONT) c;
                            (if \<not> ok then Some (False, c) else ClothesFS_addToMeta junk nxt meta type c) }) }) }) }) }) }) }) }"

text \<open>The copy loop of \<^verbatim>\<open>addData\<close>: the block, the rest of the input and the number of bytes that are left.\<close>

fun addData_copy :: "u32 \<Rightarrow> u8 list \<Rightarrow> u64 \<Rightarrow> u32 \<Rightarrow> u8 list \<Rightarrow> (u8 list \<times> u8 list \<times> u64) option" where
  "addData_copy bs [] data_size pos data = (if data_size > 0 \<and> pos < bs then None else Some (data, [], data_size))"
| "addData_copy bs (x # input) data_size pos data =
     (if data_size > 0 \<and> pos < bs then
        if unat pos < length data then addData_copy bs input (data_size - 1) (pos + 1) (data[unat pos := x]) else None
      else Some (data, x # input, data_size))"

partial_function (option) ClothesFS_addData ::
  "(nat \<Rightarrow> u8) \<Rightarrow> u32 \<Rightarrow> u8 list \<Rightarrow> u64 \<Rightarrow> 'd clothes \<Rightarrow> (bool \<times> 'd clothes) option" where
  "ClothesFS_addData junk meta contents sz c = do {
     (data_block, c) \<leftarrow> ClothesFS_takeFreeBlock junk c;
     (if data_block = 0 then Some (False, c)
      else do {
        (ok, c) \<leftarrow> ClothesFS_addToMeta junk meta data_block META_FILE c;
        (if \<not> ok then Some (False, c)
         else do {
           (pos, c) \<leftarrow> ClothesFS_initData junk data_block PAYLOAD_USED 0 c;
           (ok, data, c) \<leftarrow> ClothesFS_getBlock data_block (local_block junk c) c;
           (if \<not> ok then Some (False, c)
            else do {
              (data, input, data_size) \<leftarrow> addData_copy (cfs_blocksize c) contents sz pos data;
              (ok, c) \<leftarrow> ClothesFS_putBlock data_block data c;
              (if \<not> ok then Some (False, c)
               else if data_size > 0 then ClothesFS_addData junk meta input data_size c
               else Some (True, c)) }) }) }) }"

definition ClothesFS_addFile ::
  "(nat \<Rightarrow> u8) \<Rightarrow> u32 \<Rightarrow> u8 list option \<Rightarrow> u8 list \<Rightarrow> u64 \<Rightarrow> 'd clothes \<Rightarrow> (bool \<times> 'd clothes) option" where
  "ClothesFS_addFile junk parent name contents sz c =
     (if parent = 0 then Some (False, c)
      else do {
        (block, c) \<leftarrow> ClothesFS_takeFreeBlock junk c;
        (if block = 0 then Some (False, c)
         else do {
           (ok, c) \<leftarrow> ClothesFS_addToMeta junk parent block META_DIR c;
           (if \<not> ok then Some (False, c)
            else do {
              (ok, c) \<leftarrow> ClothesFS_initMeta junk block META_FILE c;
              (if \<not> ok then Some (False, c)
               else do {
                 (ok, c) \<leftarrow> ClothesFS_updateMeta junk block name sz c;
                 (if \<not> ok then Some (False, c) else ClothesFS_addData junk block contents sz c) }) }) }) })"

definition ClothesFS_addDir :: "(nat \<Rightarrow> u8) \<Rightarrow> u32 \<Rightarrow> u8 list option \<Rightarrow> 'd clothes \<Rightarrow> (bool \<times> 'd clothes) option" where
  "ClothesFS_addDir junk parent name c =
     (if parent = 0 then Some (False, c)
      else do {
        (block, c) \<leftarrow> ClothesFS_takeFreeBlock junk c;
        (if block = 0 then Some (False, c)
         else do {
           (ok, c) \<leftarrow> ClothesFS_addToMeta junk parent block META_DIR c;
           (if \<not> ok then Some (False, c)
            else do {
              (ok, c) \<leftarrow> ClothesFS_initMeta junk block META_DIR c;
              (if \<not> ok then Some (False, c)
               else do {
                 (ok, c) \<leftarrow> ClothesFS_updateMeta junk block name 0 c;
                 Some (ok, c) }) }) }) })"

end
