(* ===== verification/Clothes_Laws.thy ===== *)
theory Clothes_Laws
  imports Clothes_Disc
begin

text \<open>
  Laws of the disc layer of ClothesFS: numbers read back what was written, and over a working device
  (\<open>sector_device\<close>) formatting, taking and freeing blocks and adding directories and files have the effects that
  the on-disc format (\<^verbatim>\<open>doc/clothes.md\<close>) promises, or the defects that the theorems name.

  The state of the disc is a list \<open>D\<close> of blocks.  \<open>free_list D fs\<close> says that the chain of free blocks is \<open>fs\<close>;
  \<open>meta_rep t nm es b\<close> that block \<open>b\<close> is the metadata of a file or directory with name \<open>nm\<close> and entries \<open>es\<close>.
\<close>

section \<open>Parts of a block\<close>

definition slice :: "nat \<Rightarrow> nat \<Rightarrow> 'a list \<Rightarrow> 'a list" where
  "slice off n xs = take n (drop off xs)"

definition put :: "nat \<Rightarrow> 'a list \<Rightarrow> 'a list \<Rightarrow> 'a list" where
  "put off bs xs = take off xs @ bs @ drop (off + length bs) xs"

lemma buf_write_put: "off + length bs \<le> length xs \<Longrightarrow> buf_write off bs xs = Some (put off bs xs)"
  by (simp add: buf_write_def put_def)

lemma buf_read_slice: "off + n \<le> length xs \<Longrightarrow> buf_read off n xs = Some (slice off n xs)"
  by (simp add: buf_read_def slice_def)

lemma length_put [simp]: "off + length bs \<le> length xs \<Longrightarrow> length (put off bs xs) = length xs"
  by (simp add: put_def)

lemma nth_put: "off + length bs \<le> length xs \<Longrightarrow> i < length xs \<Longrightarrow>
    put off bs xs ! i = (if off \<le> i \<and> i < off + length bs then bs ! (i - off) else xs ! i)"
  by (auto simp: put_def nth_append min_def)

lemma length_slice: "off + n \<le> length xs \<Longrightarrow> length (slice off n xs) = n"
  by (simp add: slice_def)

lemma nth_slice: "off + n \<le> length xs \<Longrightarrow> i < n \<Longrightarrow> slice off n xs ! i = xs ! (off + i)"
  by (simp add: slice_def)

lemma slice_put_same: "off + length bs \<le> length xs \<Longrightarrow> n = length bs \<Longrightarrow> slice off n (put off bs xs) = bs"
  by (rule nth_equalityI) (simp_all add: length_slice nth_slice nth_put)

lemma slice_put_other:
  assumes "off + length bs \<le> length xs" "o2 + n \<le> length xs" "o2 + n \<le> off \<or> off + length bs \<le> o2"
  shows "slice o2 n (put off bs xs) = slice o2 n xs"
  by (rule nth_equalityI) (use assms in \<open>auto simp: length_slice nth_slice nth_put\<close>)

lemma put_put: "off + length bs \<le> length xs \<Longrightarrow> length cs = length bs \<Longrightarrow> put off cs (put off bs xs) = put off cs xs"
  by (simp add: put_def)

section \<open>Numbers\<close>

text \<open>Little-endian numbers.\<close>

fun le :: "u8 list \<Rightarrow> u32" where
  "le [] = 0"
| "le (b # bs) = ucast b + 256 * le bs"

fun num_bytes :: "nat \<Rightarrow> u64 \<Rightarrow> u8 list" where
  "num_bytes 0 n = []"
| "num_bytes (Suc k) n = ucast n # num_bytes k (drop_bit 8 n)"

definition u32_at :: "u8 list \<Rightarrow> nat \<Rightarrow> u32" where
  "u32_at b off = le (slice off 4 b)"

lemma length_num_bytes [simp]: "length (num_bytes k n) = k"
  by (induction k arbitrary: n) auto

lemma dataToNum_loop_le:
  "i + k \<le> length buf \<Longrightarrow> n + 8 * k \<le> 32 \<Longrightarrow> dataToNum_loop buf i k n res = Some (res + push_bit n (le (slice i k buf)))"
proof (induction k arbitrary: i n res)
  case (Suc k)
  have "slice i (Suc k) buf = buf ! i # slice (i + 1) k buf"
    using Suc.prems by (simp add: slice_def drop_nth_Cons)
  then show ?case
    using Suc by (simp add: push_bit_eq_mult power_add algebra_simps)
qed (simp add: slice_def)

lemma dataToNum_le: "s + k \<le> length buf \<Longrightarrow> k \<le> 4 \<Longrightarrow> dataToNum buf s k = Some (le (slice s k buf))"
  by (simp add: dataToNum_def dataToNum_loop_le)

lemma dataToNum_u32: "s + 4 \<le> length buf \<Longrightarrow> dataToNum buf s 4 = Some (u32_at buf s)"
  by (simp add: dataToNum_le u32_at_def)

lemma dataToNum_overflow: "dataToNum buf s 8 = None"
  by (simp add: dataToNum_def eval_nat_numeral)

lemma numToData_loop_put:
  "i + k \<le> length buf \<Longrightarrow> n + 8 * k \<le> 64 \<Longrightarrow> numToData_loop num buf i k n = Some (put i (num_bytes k (drop_bit n num)) buf)"
proof (induction k arbitrary: i n buf)
  case (Suc k)
  have f: "(0xFF :: u64) = mask 8"
    by (simp add: mask_eq_exp_minus_1)
  have e: "ucast (drop_bit n num AND 0xFF) = (ucast (drop_bit n num) :: u8)"
    unfolding f by (rule bit_word_eqI) (simp add: bit_simps)
  have "put (i + 1) bs (buf[i := x]) = put i (x # bs) buf" if "i < length buf" for x and bs :: "u8 list"
    using that by (simp add: put_def take_Suc_conv_app_nth)
  then show ?case
    using Suc by (simp add: e drop_bit_drop_bit add.commute)
qed (simp add: put_def)

lemma numToData_put: "s + k \<le> length buf \<Longrightarrow> k \<le> 8 \<Longrightarrow> numToData num buf s k = Some (put s (num_bytes k num) buf)"
  by (simp add: numToData_def numToData_loop_put)

lemma unat_le_num_bytes: "k \<le> 4 \<Longrightarrow> unat (le (num_bytes k n)) = unat n mod 256 ^ k"
proof (induction k arbitrary: n)
  case (Suc k)
  have d: "unat (drop_bit 8 n) = unat n div 256"
    using unat_u64_less [of n] by (simp add: unsigned_drop_bit_eq drop_bit_nat_def take_bit_nat_eq_self)
  have "(256::nat) ^ k \<le> 256 ^ 3"
    using Suc.prems by (intro power_increasing) auto
  then have "unat n div 256 mod 256 ^ k < 256 ^ 3"
    by (rule less_le_trans [rotated]) simp
  then have l: "unat n div 256 mod 256 ^ k < 2 ^ 24"
    by simp
  then have "unat (256 * le (num_bytes k (drop_bit 8 n))) = 256 * (unat n div 256 mod 256 ^ k)"
    using Suc d by (subst unat_times_eq) auto
  moreover have "unat (ucast (ucast n :: u8) :: u32) = unat n mod 256"
    by (simp add: unat_mod unsigned_ucast_eq take_bit_eq_mod mod_mod_cancel)
  ultimately have "unat (le (num_bytes (Suc k) n)) = unat n mod 256 + 256 * (unat n div 256 mod 256 ^ k)"
    using l by (simp, subst unat_plus_eq) auto
  then show ?case
    by (simp add: mod_mult2_eq)
qed simp

lemma le_num_bytes: "le (num_bytes 4 (ucast w)) = w"
proof -
  have "unat (le (num_bytes 4 (ucast w))) = unat w"
    using unat_le_num_bytes [of 4 "ucast w"] unat_u32_less [of w] by simp
  then show ?thesis
    by (rule unsigned_word_eqI)
qed

lemma u32_at_put: "s + 4 \<le> length b \<Longrightarrow> u32_at (put s (num_bytes 4 (ucast w)) b) s = w"
  by (simp add: u32_at_def slice_put_same le_num_bytes)

lemma u32_at_put_other:
  "off + length bs \<le> length b \<Longrightarrow> s + 4 \<le> length b \<Longrightarrow> s + 4 \<le> off \<or> off + length bs \<le> s \<Longrightarrow> u32_at (put off bs b) s = u32_at b s"
  by (simp add: u32_at_def slice_put_other)

lemma unat_align4:
  assumes "unat p + 3 < 2 ^ 32"
  shows "unat (align4 p) = 4 * ((unat p + 3) div 4)"
  using assms
proof (induction p rule: align4.induct)
  case (1 p)
  show ?case
  proof (cases "p mod 4 = 0")
    case True
    then have "unat p mod 4 = 0"
      using unat_mod [of p 4] by simp
    then show ?thesis
      using True by (simp add: align4.simps [of p]) presburger
  next
    case False
    then have m: "unat p mod 4 \<noteq> 0"
      using unat_mod [of p 4] unat_eq_zero [of "p mod 4"] by simp
    show ?thesis
    proof (cases "unat p + 4 < 2 ^ 32")
      case True
      then show ?thesis
        using 1 False m by (simp add: align4.simps [of p] unat_plus_eq) presburger
    next
      case f: False
      then have "unat p = 2 ^ 32 - 4"
        using "1.prems" by simp
      then show ?thesis
        using m by simp
    qed
  qed
qed

section \<open>A device of sectors\<close>

locale sector_device =
  fixes p :: "'d fsphys" and ok :: "'d \<Rightarrow> bool" and disc :: "'d \<Rightarrow> u8 list list"
  assumes sectorSize: "fp_sectorSize p = 512"
    and size_div: "ok d \<Longrightarrow> unat (fp_size p) div 512 = length (disc d)"
    and size_less: "unat (fp_size p) < 2 ^ 32"
    and sector_length: "ok d \<Longrightarrow> b < length (disc d) \<Longrightarrow> length (disc d ! b) = 512"
    and read_law: "ok d \<Longrightarrow> b < length (disc d) \<Longrightarrow> length buf = 512 \<Longrightarrow>
      \<exists>d'. fp_read p buf 1 (of_nat (512 * b)) 0 d = Some (True, disc d ! b, d') \<and> ok d' \<and> disc d' = disc d"
    and write_law: "ok d \<Longrightarrow> b < length (disc d) \<Longrightarrow> length bs = 512 \<Longrightarrow>
      \<exists>d'. fp_write p bs 1 (of_nat (512 * b)) 0 d = Some (True, d') \<and> ok d' \<and> disc d' = (disc d)[b := bs]"

text \<open>The file system object is set up for the device, which holds the blocks \<open>D\<close>.\<close>

definition clothes_on :: "'d fsphys \<Rightarrow> ('d \<Rightarrow> bool) \<Rightarrow> ('d \<Rightarrow> u8 list list) \<Rightarrow> 'd clothes \<Rightarrow> u8 list list \<Rightarrow> bool" where
  "clothes_on p ok disc c D \<longleftrightarrow> cfs_phys c = Some p \<and> cfs_blocksize c = 512 \<and> cfs_block_in_sectors c = 1 \<and>
     cfs_blocks c = of_nat (length D) \<and> ok (cfs_disc c) \<and> disc (cfs_disc c) = D"

lemma clothes_on_blocksize: "clothes_on p ok disc c D \<Longrightarrow> cfs_blocksize c = 512"
  by (simp add: clothes_on_def)

lemma length_local_block: "clothes_on p ok disc c D \<Longrightarrow> length (local_block junk c) = 512"
  by (simp add: clothes_on_def local_block_def new_buffer_def)

lemma word_split_position:
  assumes "unat (q :: u32) = n"
  shows "ucast ((ucast q :: u64) AND 0xFFFFFFFF) = (of_nat n :: u32)" "ucast (drop_bit 32 (ucast q :: u64) AND 0xFFFFFFFF) = (0 :: u32)"
proof -
  have f: "(0xFFFFFFFF :: u64) = mask 32"
    by (simp add: mask_eq_exp_minus_1)
  have "ucast ((ucast q :: u64) AND 0xFFFFFFFF) = q"
    unfolding f by (rule bit_word_eqI) (auto simp: bit_simps)
  then show "ucast ((ucast q :: u64) AND 0xFFFFFFFF) = (of_nat n :: u32)"
    using assms by (metis of_nat_unat ucast_id)
  have "drop_bit 32 (ucast q :: u64) = 0"
    by (rule bit_word_eqI) (auto simp: bit_simps dest: bit_imp_le_length)
  then show "ucast (drop_bit 32 (ucast q :: u64) AND 0xFFFFFFFF) = (0 :: u32)"
    by simp
qed

context sector_device
begin

lemma blocks_bound: "clothes_on p ok disc c D \<Longrightarrow> length D < 2 ^ 23"
  using size_div [of "cfs_disc c"] size_less by (auto simp: clothes_on_def)

lemma block_length: "clothes_on p ok disc c D \<Longrightarrow> b < length D \<Longrightarrow> length (D ! b) = 512"
  using sector_length by (auto simp: clothes_on_def)

lemma block_position:
  assumes "clothes_on p ok disc c D" "unat i < length D"
  shows "unat (i * cfs_blocksize c) = 512 * unat i"
  using blocks_bound [OF assms(1)] assms by (simp add: clothes_on_def unat_times_eq)

lemma getBlock_on:
  assumes "clothes_on p ok disc c D" "unat i < length D" "length data = 512"
  obtains c' where "ClothesFS_getBlock i data c = Some (True, D ! unat i, c')" "clothes_on p ok disc c' D"
proof -
  have c: "cfs_phys c = Some p" "cfs_block_in_sectors c = 1" "ok (cfs_disc c)" "disc (cfs_disc c) = D"
    using assms(1) by (auto simp: clothes_on_def)
  obtain d where d: "fp_read p data 1 (of_nat (512 * unat i)) 0 (cfs_disc c) = Some (True, D ! unat i, d)" "ok d" "disc d = D"
    using read_law [OF c(3) _ assms(3)] c(4) assms(2) by blast
  have r: "read_sector (ucast (i * cfs_blocksize c)) 0 data p c = Some (True, D ! unat i, c\<lparr>cfs_disc := d\<rparr>)"
    using d(1) block_length [OF assms(1,2)] assms(3) word_split_position [OF block_position [OF assms(1,2)]]
    by (simp add: read_sector_def buf_write_all)
  then have "ClothesFS_getBlock i data c = Some (True, D ! unat i, c\<lparr>cfs_disc := d\<rparr>)"
    using c sectorSize
    by (simp add: ClothesFS_getBlock_def clothes_getBlock_loop.simps [of p i 0] clothes_getBlock_loop.simps [of p i "- 1"])
  moreover have "clothes_on p ok disc (c\<lparr>cfs_disc := d\<rparr>) D"
    using assms(1) d by (simp add: clothes_on_def)
  ultimately show thesis
    by (rule that)
qed

lemma putBlock_on:
  assumes "clothes_on p ok disc c D" "unat i < length D" "length data = 512"
  obtains c' where "ClothesFS_putBlock i data c = Some (True, c')" "clothes_on p ok disc c' (D[unat i := data])"
proof -
  have c: "cfs_phys c = Some p" "cfs_block_in_sectors c = 1" "ok (cfs_disc c)" "disc (cfs_disc c) = D"
    using assms(1) by (auto simp: clothes_on_def)
  obtain d where d: "fp_write p data 1 (of_nat (512 * unat i)) 0 (cfs_disc c) = Some (True, d)" "ok d" "disc d = D[unat i := data]"
    using write_law [OF c(3) _ assms(3)] c(4) assms(2) by blast
  have r: "write_sector (ucast (i * cfs_blocksize c)) 0 data p c = Some (True, c\<lparr>cfs_disc := d\<rparr>)"
    using d(1) assms(3) word_split_position [OF block_position [OF assms(1,2)]] sectorSize
    by (simp add: write_sector_def buf_read_def)
  then have "ClothesFS_putBlock i data c = Some (True, c\<lparr>cfs_disc := d\<rparr>)"
    using c sectorSize
    by (simp add: ClothesFS_putBlock_def clothes_putBlock_loop.simps [of p i 0] clothes_putBlock_loop.simps [of p i "- 1"])
  moreover have "clothes_on p ok disc (c\<lparr>cfs_disc := d\<rparr>) (D[unat i := data])"
    using assms(1) d by (simp add: clothes_on_def)
  ultimately show thesis
    by (rule that)
qed

end

section \<open>Free blocks and metadata on the disc\<close>

fun free_chain :: "u8 list list \<Rightarrow> u32 \<Rightarrow> nat list \<Rightarrow> bool" where
  "free_chain D f [] \<longleftrightarrow> f = 0"
| "free_chain D f (b # bs) \<longleftrightarrow> f = of_nat b \<and> 0 < b \<and> b < length D \<and> free_chain D (u32_at (D ! b) 508) bs"

definition free_list :: "u8 list list \<Rightarrow> nat list \<Rightarrow> bool" where
  "free_list D fs \<longleftrightarrow> D \<noteq> [] \<and> distinct fs \<and> u32_at (D ! 0) 508 = 0 \<and> free_chain D (u32_at (D ! 0) 104) fs"

lemma free_chain_blocks: "free_chain D f fs \<Longrightarrow> b \<in> set fs \<Longrightarrow> 0 < b \<and> b < length D"
  by (induction fs arbitrary: f) auto

lemma free_chain_cong:
  "free_chain D f fs \<Longrightarrow> length D' = length D \<Longrightarrow> (\<And>b. b \<in> set fs \<Longrightarrow> D' ! b = D ! b) \<Longrightarrow> free_chain D' f fs"
  by (induction fs arbitrary: f) auto

lemma free_list_blocks: "free_list D fs \<Longrightarrow> b \<in> set fs \<Longrightarrow> 0 < b \<and> b < length D"
  by (auto simp: free_list_def dest: free_chain_blocks)

text \<open>Writing blocks that are not free, and not the header, leaves the chain alone.\<close>

lemma free_list_update: "free_list D fs \<Longrightarrow> b \<notin> set fs \<Longrightarrow> 0 < b \<Longrightarrow> free_list (D[b := x]) fs"
  by (auto simp: free_list_def intro!: free_chain_cong [of D _ fs]) (metis nth_list_update_neq)

definition entry_start :: "nat \<Rightarrow> nat" where
  "entry_start n = 16 + 4 * ((n + 3) div 4)"

definition capacity :: "nat \<Rightarrow> nat" where
  "capacity n = (508 - entry_start n) div 4"

text \<open>A metadata block: identification, type and attributes, length of the name, name, entries, no continuation.\<close>

definition meta_rep :: "u8 \<Rightarrow> name \<Rightarrow> u32 list \<Rightarrow> u8 list \<Rightarrow> bool" where
  "meta_rep t nm es b \<longleftrightarrow> length b = 512 \<and> slice 0 4 b = [0x42, 0, t, 0] \<and> u32_at b 12 = of_nat (length nm) \<and>
     slice 16 (length nm) b = nm \<and> nm \<noteq> [] \<and> 0 \<notin> set nm \<and> entry_start (length nm) \<le> 508 \<and>
     length es \<le> capacity (length nm) \<and> 0 \<notin> set es \<and>
     (\<forall>i < capacity (length nm). u32_at b (entry_start (length nm) + 4 * i) = (if i < length es then es ! i else 0)) \<and>
     u32_at b 508 = 0"

definition free_block :: "nat \<Rightarrow> u8 list" where
  "free_block nxt = put 508 (num_bytes 4 (of_nat nxt)) (put 0 (num_bytes 4 0x42) (replicate 512 0))"

lemma length_free_block [simp]: "length (free_block nxt) = 512"
  by (simp add: free_block_def)

lemma zero_block: "replicate 512 (0 :: u8) = [0, 0, 0, 0] @ replicate 508 0"
  using replicate_Suc [of 511 "0 :: u8"] replicate_Suc [of 510 "0 :: u8"] replicate_Suc [of 509 "0 :: u8"]
    replicate_Suc [of 508 "0 :: u8"] by simp

lemma num_bytes_short:
  "num_bytes 1 n = [ucast n]" "num_bytes 2 n = [ucast n, ucast (drop_bit 8 n)]"
  "num_bytes 4 n = [ucast n, ucast (drop_bit 8 n), ucast (drop_bit 16 n), ucast (drop_bit 24 n)]"
proof -
  show "num_bytes 1 n = [ucast n]"
    unfolding One_nat_def num_bytes.simps ..
  show "num_bytes 2 n = [ucast n, ucast (drop_bit 8 n)]"
    unfolding numeral_2_eq_2 num_bytes.simps ..
  have 4: "4 = Suc (Suc (Suc (Suc 0)))"
    by simp
  show "num_bytes 4 n = [ucast n, ucast (drop_bit 8 n), ucast (drop_bit 16 n), ucast (drop_bit 24 n)]"
    unfolding 4 num_bytes.simps by (simp add: drop_bit_drop_bit)
qed

lemma ucast_up_down [simp]: "(ucast (ucast t :: u64) :: u8) = t"
  by (rule bit_word_eqI) (auto simp: bit_simps)

lemma put_header:
  "put 3 (num_bytes 1 0) (put 2 (num_bytes 1 (ucast t)) (put 0 (num_bytes 2 0x42) ([0, 0, 0, 0] @ z))) = [0x42, 0, t, 0] @ z"
  unfolding num_bytes_short by (simp add: put_def)

lemma put_data_header:
  "put 3 (num_bytes 1 0) (put 2 (num_bytes 1 1) (put 0 (num_bytes 2 0x4242) ([0, 0, 0, 0] @ z))) = [0x42, 0x42, 1, 0] @ z"
  unfolding num_bytes_short by (simp add: put_def)

lemma clear_block: "clothes_on p ok disc c D \<Longrightarrow> clearBuffer (local_block junk c) 512 = Some (replicate 512 0)"
  by (simp add: clearBuffer_def buf_write_all local_block_def new_buffer_def clothes_on_def)

context sector_device
begin

lemma formatBlock_on:
  assumes "clothes_on p ok disc c D" "i < length D" "nxt < 2 ^ 32"
  obtains c' where "ClothesFS_formatBlock junk (of_nat i) (of_nat nxt) c = Some (True, c')"
    "clothes_on p ok disc c' (D[i := free_block nxt])"
proof -
  have i: "unat (of_nat i :: u32) = i"
    using assms(2) blocks_bound [OF assms(1)] by (intro unat_of_nat_u32) simp
  obtain c' where c': "ClothesFS_putBlock (of_nat i) (free_block nxt) c = Some (True, c')" "clothes_on p ok disc c' (D[i := free_block nxt])"
    using putBlock_on [OF assms(1), of "of_nat i" "free_block nxt"] i assms(2) by auto
  have "(ucast (of_nat nxt :: u32) :: u64) = of_nat nxt"
    using assms(3) by (simp add: unsigned_of_nat take_bit_nat_eq_self)
  then have "ClothesFS_formatBlock junk (of_nat i) (of_nat nxt) c = Some (True, c')"
    using c'(1) clothes_on_blocksize [OF assms(1)]
    by (simp add: ClothesFS_formatBlock_def clear_block [OF assms(1)] numToData_put clothes_consts free_block_def)
  then show thesis
    using c'(2) by (rule that)
qed

lemma formatBlocks_loop_on:
  assumes "clothes_on p ok disc c D" "i < length D" "1 \<le> i" "nxt < 2 ^ 32"
  obtains c' D' where "formatBlocks_loop junk (of_nat i) (of_nat nxt) c = Some (2, c')" "clothes_on p ok disc c' D'"
    "length D' = length D" "\<And>b. b < length D \<Longrightarrow> D' ! b = (if 2 \<le> b \<and> b \<le> i then free_block (if b = i then nxt else b + 1) else D ! b)"
proof -
  have "\<exists>c' D'. formatBlocks_loop junk (of_nat i) (of_nat nxt) c = Some (2, c') \<and> clothes_on p ok disc c' D' \<and> length D' = length D \<and>
    (\<forall>b < length D. D' ! b = (if 2 \<le> b \<and> b \<le> i then free_block (if b = i then nxt else b + 1) else D ! b))"
    using assms
  proof (induction i arbitrary: nxt c D)
    case (Suc i)
    have b: "Suc i < 2 ^ 23"
      using Suc.prems(2) blocks_bound [OF Suc.prems(1)] by simp
    then have u: "unat (of_nat (Suc i) :: u32) = Suc i"
      by (intro unat_of_nat_u32) simp
    show ?case
    proof (cases "i = 0")
      case True
      then show ?thesis
        using Suc.prems by (auto simp: formatBlocks_loop.simps [of _ 1] word_le_nat_alt)
    next
      case False
      then have g: "of_nat (Suc i) \<ge> (2 :: u32)"
        using u by (simp add: word_le_nat_alt del: of_nat_Suc)
      obtain c1 where c1: "ClothesFS_formatBlock junk (of_nat (Suc i)) (of_nat nxt) c = Some (True, c1)"
        "clothes_on p ok disc c1 (D[Suc i := free_block nxt])"
        by (rule formatBlock_on [OF Suc.prems(1,2,4)])
      obtain c' D' where l: "formatBlocks_loop junk (of_nat i) (of_nat (Suc i)) c1 = Some (2, c')" "clothes_on p ok disc c' D'"
        "length D' = length D" "\<forall>b < length D. D' ! b = (if 2 \<le> b \<and> b \<le> i then free_block (if b = i then Suc i else b + 1)
           else D[Suc i := free_block nxt] ! b)"
        using Suc.IH [OF c1(2), of "Suc i"] False Suc.prems(2) b by auto
      have "formatBlocks_loop junk (of_nat (Suc i)) (of_nat nxt) c = Some (2, c')"
        using l(1) c1(1) g by (simp add: formatBlocks_loop.simps [of _ "of_nat (Suc i)"] of_nat_u32_pred del: of_nat_Suc)
      then show ?thesis
        using l(2,3,4) False Suc.prems(2) by (auto simp: nth_list_update intro!: exI [of _ D'])
    qed
  qed simp
  then show thesis
    using that by blast
qed

lemma takeFreeBlock_on:
  assumes "clothes_on p ok disc c D" "free_list D fs"
  obtains c' D' where
    "ClothesFS_takeFreeBlock junk c = Some (case fs of [] \<Rightarrow> 0 | b # bs \<Rightarrow> of_nat b, c')" "clothes_on p ok disc c' D'"
    "free_list D' (tl fs)" "length D' = length D" "\<And>b. 0 < b \<Longrightarrow> D' ! b = D ! b"
proof -
  let ?b = "case fs of [] \<Rightarrow> 0 | b # bs \<Rightarrow> b"
  let ?n = "u32_at (D ! ?b) 508"
  have D: "D \<noteq> []" "u32_at (D ! 0) 508 = 0" "distinct fs"
    using assms(2) by (auto simp: free_list_def)
  have b: "?b < length D"
    using assms(2) D(1) by (cases fs) (auto dest: free_list_blocks)
  have f: "u32_at (D ! 0) 104 = of_nat ?b"
    using assms(2) by (cases fs) (auto simp: free_list_def)
  have u: "unat (of_nat ?b :: u32) = ?b"
    using b blocks_bound [OF assms(1)] by (intro unat_of_nat_u32) simp
  let ?h = "put 104 (num_bytes 4 (ucast ?n)) (D ! 0)"
  have len: "length (D ! 0) = 512" "length (D ! ?b) = 512"
    using block_length [OF assms(1)] D(1) b by auto
  obtain c1 where c1: "ClothesFS_getBlock 0 (local_block junk c) c = Some (True, D ! 0, c1)" "clothes_on p ok disc c1 D"
    using getBlock_on [OF assms(1), of 0 "local_block junk c"] length_local_block [OF assms(1)] D(1) by auto
  obtain c2 where c2: "ClothesFS_getBlock (of_nat ?b) (local_block junk c1) c1 = Some (True, D ! ?b, c2)" "clothes_on p ok disc c2 D"
    using getBlock_on [OF c1(2), of "of_nat ?b" "local_block junk c1"] length_local_block [OF c1(2)] b u by auto
  obtain c3 where c3: "ClothesFS_putBlock 0 ?h c2 = Some (True, c3)" "clothes_on p ok disc c3 (D[0 := ?h])"
    using putBlock_on [OF c2(2), of 0 ?h] D(1) len by auto
  have "ClothesFS_takeFreeBlock junk c = Some (of_nat ?b, c3)"
    using c1 c2 c3 len f clothes_on_blocksize [OF c2(2)]
    by (simp add: ClothesFS_takeFreeBlock_def dataToNum_u32 numToData_put)
  then have t: "ClothesFS_takeFreeBlock junk c = Some (case fs of [] \<Rightarrow> 0 | b # bs \<Rightarrow> of_nat b, c3)"
    by (cases fs) auto
  have n: "free_chain D ?n (tl fs)" "0 \<notin> set fs"
    using assms(2) D by (auto simp: free_list_def dest: free_chain_blocks split: list.splits)
  have "D[0 := ?h] ! x = D ! x" if "x \<in> set (tl fs)" for x
  proof -
    have "x \<in> set fs"
      using that by (cases fs) auto
    then have "x \<noteq> 0"
      using n(2) by metis
    then show ?thesis
      by simp
  qed
  then have "free_chain (D[0 := ?h]) ?n (tl fs)"
    by (intro free_chain_cong [OF n(1)]) auto
  then have "free_list (D[0 := ?h]) (tl fs)"
    using D len by (auto simp: free_list_def u32_at_put u32_at_put_other distinct_tl)
  with t c3(2) show thesis
    by (rule that) auto
qed

lemma initMeta_on:
  assumes "clothes_on p ok disc c D" "unat i < length D"
  obtains c' where "ClothesFS_initMeta junk i t c = Some (True, c')"
    "clothes_on p ok disc c' (D[unat i := [0x42, 0, t, 0] @ replicate 508 0])"
proof -
  have e: "put 3 (num_bytes 1 0) (put 2 (num_bytes 1 (ucast t)) (put 0 (num_bytes 2 0x42) (replicate 512 0))) =
      [0x42, 0, t, 0] @ replicate 508 0"
    unfolding zero_block by (rule put_header)
  obtain c' where "ClothesFS_putBlock i ([0x42, 0, t, 0] @ replicate 508 0) c = Some (True, c')"
    "clothes_on p ok disc c' (D[unat i := [0x42, 0, t, 0] @ replicate 508 0])"
    using putBlock_on [OF assms, of "[0x42, 0, t, 0] @ replicate 508 0"] by auto
  moreover from this have "ClothesFS_initMeta junk i t c = Some (True, c')"
    using e clothes_on_blocksize [OF assms(1)]
    by (simp add: ClothesFS_initMeta_def clear_block [OF assms(1)] numToData_put clothes_consts)
  ultimately show thesis
    by (intro that)
qed

end

section \<open>Metadata blocks\<close>

lemma entry_start_bounds: "16 + n \<le> entry_start n" "entry_start n \<le> n + 19" "12 + n < entry_start n" "4 dvd entry_start n"
  unfolding entry_start_def by (presburger, presburger, presburger, simp)

lemma unat_byte [simp]: "unat (ucast (b :: u8) :: u32) = unat b"
  using unsigned_less [of b, where 'a = nat] by (simp add: unsigned_ucast_eq take_bit_nat_eq_self)

lemma unat_le_Cons: "length bs < 4 \<Longrightarrow> unat (le bs) < 256 ^ length bs \<and> unat (le (b # bs)) = unat b + 256 * unat (le bs)"
proof (induction bs arbitrary: b)
  case Nil
  show ?case
    by simp
next
  case (Cons x bs)
  have l: "unat (le bs) < 256 ^ length bs" "unat (le (x # bs)) = unat x + 256 * unat (le bs)"
    using Cons.IH [of x] Cons.prems by auto
  have x: "unat y < 256" for y :: u8
    using unsigned_less [of y, where 'a = nat] by simp
  have b: "unat (le (x # bs)) < 256 ^ length (x # bs)"
    using l x [of x] by simp
  moreover have "(256 :: nat) ^ length (x # bs) \<le> 256 ^ 3"
    using Cons.prems by (intro power_increasing) auto
  ultimately have "unat (le (x # bs)) < 256 ^ 3"
    by (rule less_le_trans)
  then have "unat (256 * le (x # bs)) = 256 * unat (le (x # bs))"
    by (subst unat_times_eq) (auto simp del: le.simps)
  then have "unat (le (b # x # bs)) = unat b + 256 * unat (le (x # bs))"
    using \<open>unat (le (x # bs)) < 256 ^ 3\<close> x [of b] by (subst le.simps(2), subst unat_plus_eq) (auto simp del: le.simps)
  then show ?case
    using b by blast
qed

lemma le_eq_0_iff: "length bs \<le> 4 \<Longrightarrow> le bs = 0 \<longleftrightarrow> set bs \<subseteq> {0}"
proof (induction bs)
  case (Cons b bs)
  have "le (b # bs) = 0 \<longleftrightarrow> unat (le (b # bs)) = 0"
    by (simp only: unat_eq_zero)
  also have "\<dots> \<longleftrightarrow> unat b = 0 \<and> unat (le bs) = 0"
    using unat_le_Cons [of bs b] Cons.prems by (simp del: le.simps)
  also have "\<dots> \<longleftrightarrow> b = 0 \<and> le bs = 0"
    by (simp only: unat_eq_zero)
  finally show ?case
    using Cons by simp
qed simp

lemma u32_at_eq_0_iff: "s + 4 \<le> length b \<Longrightarrow> u32_at b s = 0 \<longleftrightarrow> (\<forall>i < 4. b ! (s + i) = 0)"
proof -
  assume s: "s + 4 \<le> length b"
  have "u32_at b s = 0 \<longleftrightarrow> set (slice s 4 b) \<subseteq> {0}"
    using s by (simp add: u32_at_def le_eq_0_iff length_slice)
  then show ?thesis
    using s by (auto simp: set_conv_nth length_slice nth_slice subset_iff)
qed

lemma u32_at_zeros: "4 \<le> s \<Longrightarrow> s + 4 \<le> 512 \<Longrightarrow> u32_at ([a, b, c, d] @ replicate 508 0) s = 0"
  by (subst u32_at_eq_0_iff) (auto simp: nth_append nth_Cons')

definition new_meta :: "u8 \<Rightarrow> name \<Rightarrow> u64 \<Rightarrow> u8 list" where
  "new_meta t nm sz =
     put 12 (num_bytes 4 (of_nat (length nm))) (put 16 nm (put 4 (num_bytes 8 sz) ([0x42, 0, t, 0] @ replicate 508 0)))"

lemma length_new_meta: "entry_start (length nm) \<le> 508 \<Longrightarrow> length (new_meta t nm sz) = 512"
  using entry_start_bounds(1) [of "length nm"] by (simp add: new_meta_def)

lemma new_meta_rep:
  assumes "entry_start (length nm) \<le> 508" "nm \<noteq> []" "0 \<notin> set nm"
  shows "meta_rep t nm [] (new_meta t nm sz)" "slice 4 8 (new_meta t nm sz) = num_bytes 8 sz"
proof -
  have n: "16 + length nm \<le> 508"
    using assms(1) entry_start_bounds(1) [of "length nm"] by simp
  have w: "u32_at (new_meta t nm sz) s = 0" if "16 + length nm \<le> s" "s + 4 \<le> 512" for s
    using that n u32_at_zeros by (simp add: new_meta_def u32_at_put_other)
  have "(of_nat (length nm) :: u64) = ucast (of_nat (length nm) :: u32)"
    using n by (simp add: unsigned_of_nat take_bit_nat_eq_self)
  then have l: "u32_at (new_meta t nm sz) 12 = of_nat (length nm)"
    using n by (simp add: new_meta_def u32_at_put)
  have e: "entry_start (length nm) + 4 * i + 4 \<le> 512" if "i < capacity (length nm)" for i
    using that assms(1) unfolding capacity_def by presburger
  have h: "slice 0 4 (new_meta t nm sz) = [0x42, 0, t, 0]"
    using n by (simp add: new_meta_def slice_put_other) (simp add: slice_def)
  have m: "slice 16 (length nm) (new_meta t nm sz) = nm"
    using n by (simp add: new_meta_def slice_put_other slice_put_same)
  show "meta_rep t nm [] (new_meta t nm sz)"
    using assms n l h m w e entry_start_bounds(1) [of "length nm"] length_new_meta [OF assms(1)] by (auto simp: meta_rep_def)
  show "slice 4 8 (new_meta t nm sz) = num_bytes 8 sz"
    using n by (simp add: new_meta_def slice_put_other slice_put_same)
qed

lemma meta_slot_found:
  assumes "\<And>j. j < k \<Longrightarrow> u32_at b (q + 4 * j) \<noteq> 0" "u32_at b (q + 4 * k) = 0" "q + 4 * k < 508" "length b = 512"
  shows "meta_slot b 508 (of_nat q) = Some (Some (of_nat (q + 4 * k)))"
  using assms
proof (induction k arbitrary: q)
  case 0
  have "unat (of_nat q :: u32) = q"
    using 0 by (intro unat_of_nat_u32) simp
  then show ?case
    using 0 by (simp add: meta_slot.simps [of b 508 "of_nat q"] dataToNum_u32 word_less_nat_alt)
next
  case (Suc k)
  have u: "unat (of_nat q :: u32) = q"
    using Suc.prems by (intro unat_of_nat_u32) simp
  have "u32_at b q \<noteq> 0"
    using Suc.prems(1) [of 0] by simp
  moreover have "(of_nat q :: u32) < 508"
    using Suc.prems(3) u by (simp add: word_less_nat_alt)
  ultimately have "meta_slot b 508 (of_nat q) = meta_slot b 508 (of_nat (q + 4))"
    using Suc.prems u by (simp add: meta_slot.simps [of b 508 "of_nat q"] dataToNum_u32 add.commute)
  also have "\<dots> = Some (Some (of_nat (q + 4 + 4 * k)))"
  proof (rule Suc.IH)
    show "u32_at b (q + 4 + 4 * j) \<noteq> 0" if "j < k" for j
      using Suc.prems(1) [of "Suc j"] that by (simp add: add.assoc)
  qed (use Suc.prems in \<open>simp_all add: add.assoc\<close>)
  finally show ?case
    by (simp add: algebra_simps)
qed

lemma capacity_slot: "i < capacity n \<Longrightarrow> entry_start n + 4 * i + 4 \<le> 508"
  unfolding capacity_def by presburger

lemma meta_rep_length: "meta_rep t nm es b \<Longrightarrow> length b = 512"
  by (simp add: meta_rep_def)

lemma meta_rep_bytes:
  assumes "meta_rep t nm es b"
  shows "b ! 0 = 0x42" "b ! 1 = 0" "b ! 2 = t" "dataToNum b 0 2 = Some metadata_id" "dataToNum b 2 1 = Some (ucast t)"
proof -
  have s: "slice 0 4 b = [0x42, 0, t, 0]" and l: "length b = 512"
    using assms by (auto simp: meta_rep_def)
  have n: "b ! i = [0x42, 0, t, 0] ! i" if "i < 4" for i
    using nth_slice [of 0 4 b i] that l s by simp
  show "b ! 0 = 0x42" "b ! 1 = 0" "b ! 2 = t"
    using n [of 0] n [of 1] n [of 2] by auto
  moreover have "slice 0 2 b = [b ! 0, b ! 1]" "slice 2 1 b = [b ! 2]"
    using l by (auto simp: list_eq_iff_nth_eq length_slice nth_slice less_2_cases_iff)
  ultimately show "dataToNum b 0 2 = Some metadata_id" "dataToNum b 2 1 = Some (ucast t)"
    using l by (auto simp: dataToNum_le metadata_id_def)
qed

lemma meta_rep_name_length:
  assumes "meta_rep t nm es b"
  shows "dataToNum b 12 4 = Some (of_nat (length nm))" "0 < length nm" "entry_start (length nm) \<le> 508" "unat (of_nat (length nm) :: u32) = length nm"
proof -
  show "dataToNum b 12 4 = Some (of_nat (length nm))" "0 < length nm" and e: "entry_start (length nm) \<le> 508"
    using assms by (auto simp: meta_rep_def dataToNum_u32)
  then show "unat (of_nat (length nm) :: u32) = length nm"
    using entry_start_bounds(1) [of "length nm"] by (intro unat_of_nat_u32) simp
qed

lemma align4_name:
  assumes "entry_start n \<le> 508"
  shows "align4 (4 + 8 + of_nat n) = of_nat (entry_start n - 4)" "align4 (4 + 8 + 4 + of_nat n) = of_nat (entry_start n)"
proof -
  have a: "align4 (of_nat k) = of_nat (4 * ((k + 3) div 4))" if "k < 512" for k
  proof -
    have "4 * ((k + 3) div 4) < 2 ^ 32" "k < 2 ^ 32"
      using that by auto
    then have "unat (of_nat k :: u32) = k" "unat (of_nat (4 * ((k + 3) div 4)) :: u32) = 4 * ((k + 3) div 4)"
      using unat_of_nat_u32 by blast+
    then have "unat (align4 (of_nat k)) = unat (of_nat (4 * ((k + 3) div 4)) :: u32)"
      using that by (simp add: unat_align4)
    then show ?thesis
      by (rule unsigned_word_eqI)
  qed
  have n: "16 + n \<le> 508"
    using assms entry_start_bounds(1) [of n] by simp
  have "4 * ((12 + n + 3) div 4) = entry_start n - 4" "4 * ((16 + n + 3) div 4) = entry_start n"
    unfolding entry_start_def by presburger+
  then show "align4 (4 + 8 + of_nat n) = of_nat (entry_start n - 4)" "align4 (4 + 8 + 4 + of_nat n) = of_nat (entry_start n)"
    using a [of "12 + n"] a [of "16 + n"] n by (auto simp: add.assoc [symmetric])
qed

lemma meta_rep_last_word:
  assumes "meta_rep t nm es b"
  shows "u32_at b (entry_start (length nm) - 4) \<noteq> 0"
proof -
  let ?n = "length nm" and ?e = "entry_start (length nm)"
  have b: "length b = 512" "slice 16 ?n b = nm" "0 \<notin> set nm" "?e \<le> 508" "0 < ?n"
    using assms by (auto simp: meta_rep_def)
  have "16 + ?n \<le> ?e" "?e \<le> ?n + 19"
    using entry_start_bounds by auto
  then obtain i where i: "i < 4" "?e - 4 + i = 15 + ?n"
    using b(5) by (intro that [of "19 + ?n - ?e"]) auto
  have ix: "16 + (?n - 1) = 15 + ?n"
    using b(5) by simp
  have "slice 16 ?n b ! (?n - 1) = b ! (16 + (?n - 1))"
    by (rule nth_slice) (use b \<open>16 + ?n \<le> ?e\<close> in auto)
  then have "b ! (15 + ?n) = nm ! (?n - 1)"
    by (simp only: ix b(2))
  moreover have "nm ! (?n - 1) \<noteq> 0"
    using b(3,5) nth_mem [of "?n - 1" nm] by fastforce
  ultimately have "b ! (?e - 4 + i) \<noteq> 0"
    using i by simp
  moreover have "?e - 4 + 4 \<le> length b"
    using b by simp
  ultimately show ?thesis
    using u32_at_eq_0_iff [of "?e - 4" b] i(1) by blast
qed

lemma meta_rep_slot:
  assumes "meta_rep t nm es b" "length es < capacity (length nm)"
  shows "meta_slot b 508 (of_nat (entry_start (length nm) - 4)) = Some (Some (of_nat (entry_start (length nm) + 4 * length es)))"
proof -
  let ?e = "entry_start (length nm)"
  have w: "u32_at b (?e + 4 * i) = (if i < length es then es ! i else 0)" if "i \<le> length es" for i
    using assms that unfolding meta_rep_def by auto
  have z: "es ! i \<noteq> 0" if "i < length es" for i
    using assms(1) that nth_mem [of i es] unfolding meta_rep_def by metis
  have e: "12 < ?e"
    using entry_start_bounds(1) [of "length nm"] by simp
  have "u32_at b (?e - 4 + 4 * j) \<noteq> 0" if "j < Suc (length es)" for j
  proof (cases j)
    case (Suc i)
    then have "?e - 4 + 4 * j = ?e + 4 * i" "i < length es"
      using e that by auto
    then show ?thesis
      using w [of i] z by simp
  qed (use meta_rep_last_word [OF assms(1)] in simp)
  moreover have "?e - 4 + 4 * Suc (length es) = ?e + 4 * length es"
    using e by simp
  ultimately show ?thesis
    using meta_slot_found [of "Suc (length es)" b "?e - 4"] w [of "length es"] meta_rep_length [OF assms(1)]
      capacity_slot [OF assms(2)] by simp
qed

lemma meta_rep_add:
  assumes "meta_rep t nm es b" "length es < capacity (length nm)" "e \<noteq> 0"
  defines "s \<equiv> entry_start (length nm) + 4 * length es"
  shows "meta_rep t nm (es @ [e]) (put s (num_bytes 4 (ucast e)) b)" "slice 4 8 (put s (num_bytes 4 (ucast e)) b) = slice 4 8 b"
proof -
  let ?e = "entry_start (length nm)"
  have b: "length b = 512" "s + 4 \<le> 508" "16 + length nm \<le> ?e"
    using meta_rep_length [OF assms(1)] capacity_slot [OF assms(2)] entry_start_bounds(1) [of "length nm"] by (auto simp: s_def)
  have o: "u32_at (put s (num_bytes 4 (ucast e)) b) q = u32_at b q" if "q + 4 \<le> 512" "q + 4 \<le> s \<or> s + 4 \<le> q" for q
    using that b by (intro u32_at_put_other) auto
  have "u32_at (put s (num_bytes 4 (ucast e)) b) (?e + 4 * i) = (if i < length (es @ [e]) then (es @ [e]) ! i else 0)"
    if i: "i < capacity (length nm)" for i
  proof (cases "i = length es")
    case True
    then show ?thesis
      using b by (simp add: s_def [symmetric] u32_at_put)
  next
    case False
    then have "u32_at (put s (num_bytes 4 (ucast e)) b) (?e + 4 * i) = u32_at b (?e + 4 * i)"
      using capacity_slot [OF i] by (intro o) (auto simp: s_def)
    then show ?thesis
      using assms(1) i False unfolding meta_rep_def by (auto simp: nth_append)
  qed
  moreover have "slice q n (put s (num_bytes 4 (ucast e)) b) = slice q n b" if "q + n \<le> ?e" for q n
    using that b by (intro slice_put_other) (auto simp: s_def)
  ultimately show "meta_rep t nm (es @ [e]) (put s (num_bytes 4 (ucast e)) b)" "slice 4 8 (put s (num_bytes 4 (ucast e)) b) = slice 4 8 b"
    using assms(1-3) b o unfolding meta_rep_def by (auto simp: s_def)
qed

section \<open>Files\<close>

text \<open>The contents of a file cut into payload blocks of 508 bytes; the last one is filled with zeros.\<close>

function file_blocks :: "u8 list \<Rightarrow> u8 list list" where
  "file_blocks xs = (if length xs \<le> 508 then [xs] else take 508 xs # file_blocks (drop 508 xs))"
  by pat_completeness auto
termination by (relation "measure length") auto

declare file_blocks.simps [simp del]

definition data_block :: "u8 list \<Rightarrow> u8 list" where
  "data_block x = [0x42, 0x42, 1, 0] @ x @ replicate (508 - length x) 0"

lemma file_blocks_not_Nil [simp]: "file_blocks xs \<noteq> []"
  by (subst file_blocks.simps) simp

lemma concat_file_blocks: "concat (file_blocks xs) = xs"
  by (induction xs rule: file_blocks.induct) (subst file_blocks.simps, simp)

lemma put_data_block: "length x \<le> 508 \<Longrightarrow> put 4 x ([0x42, 0x42, 1, 0] @ replicate 508 0) = data_block x"
  by (simp add: put_def data_block_def drop_Cons')

lemma addData_copy_put:
  assumes "length input < 2 ^ 64" "q \<le> 512" "length data = 512"
  defines "n \<equiv> min (length input) (512 - q)"
  shows "addData_copy 512 input (of_nat (length input)) (of_nat q) data =
    Some (put q (take n input) data, drop n input, of_nat (length input - n))"
  using assms(1-3) unfolding n_def
proof (induction input arbitrary: q data)
  case (Cons x input)
  have u: "unat (of_nat q :: u32) = q"
    using Cons.prems by (intro unat_of_nat_u32) simp
  have z: "(0 :: u64) < of_nat (length (x # input))"
  proof -
    have "unat (of_nat (length (x # input)) :: u64) = length (x # input)"
      using Cons.prems(1) by (simp add: unat_of_nat take_bit_nat_eq_self del: of_nat_Suc length_Cons)
    then show ?thesis
      by (simp add: word_less_nat_alt del: of_nat_Suc)
  qed
  show ?case
  proof (cases "q < 512")
    case True
    then have q: "(of_nat q :: u32) < 512"
      using u by (simp add: word_less_nat_alt)
    have p: "put (Suc q) bs (data[q := x]) = put q (x # bs) data" for bs
      using True Cons.prems(3) by (simp add: put_def take_Suc_conv_app_nth)
    have "addData_copy 512 (x # input) (of_nat (length (x # input))) (of_nat q) data =
        addData_copy 512 input (of_nat (length input)) (of_nat (Suc q)) (data[q := x])"
      using z q u True Cons.prems(3) by (simp add: add.commute)
    also have "\<dots> = Some (put (Suc q) (take (min (length input) (512 - Suc q)) input) (data[q := x]),
        drop (min (length input) (512 - Suc q)) input, of_nat (length input - min (length input) (512 - Suc q)))"
      using Cons.prems True by (intro Cons.IH) auto
    also have "min (length (x # input)) (512 - q) = Suc (min (length input) (512 - Suc q))"
      using True by (simp add: min_def) arith
    ultimately show ?thesis
      by (simp add: p)
  next
    case False
    then have "q = 512"
      using Cons.prems(2) by simp
    then show ?thesis
      using Cons.prems(3) z by (simp add: put_def)
  qed
qed (simp add: put_def)

context sector_device
begin

lemma addToMeta_on:
  assumes "clothes_on p ok disc c D" "unat i < length D" "meta_rep t nm es (D ! unat i)" "t = META_FILE \<or> t = META_DIR"
    "length es < capacity (length nm)" "m \<noteq> 0"
  obtains c' b where "ClothesFS_addToMeta junk i m t c = Some (True, c')" "clothes_on p ok disc c' (D[unat i := b])"
    "meta_rep t nm (es @ [m]) b" "slice 4 8 b = slice 4 8 (D ! unat i)"
proof -
  let ?b = "D ! unat i" and ?n = "length nm"
  let ?s = "entry_start ?n + 4 * length es"
  let ?x = "put ?s (num_bytes 4 (ucast m)) ?b"
  note r = meta_rep_bytes [OF assms(3)] meta_rep_name_length [OF assms(3)]
  have s: "?s + 4 \<le> 508" "length ?b = 512"
    using capacity_slot [OF assms(5)] meta_rep_length [OF assms(3)] by auto
  then have u: "unat (of_nat ?s :: u32) = ?s"
    by (intro unat_of_nat_u32) simp
  obtain c1 where c1: "ClothesFS_getBlock i (local_block junk c) c = Some (True, ?b, c1)" "clothes_on p ok disc c1 D"
    using getBlock_on [OF assms(1,2), of "local_block junk c"] length_local_block [OF assms(1)] by auto
  obtain c2 where c2: "ClothesFS_putBlock i ?x c1 = Some (True, c2)" "clothes_on p ok disc c2 (D[unat i := ?x])"
    using putBlock_on [OF c1(2) assms(2), of ?x] s by auto
  have "addToMeta_start ?b t = Some (of_nat (entry_start ?n - 4))"
    using r assms(4) align4_name(1) [OF r(8)] by (simp add: addToMeta_start_def add.assoc)
  moreover have "numToData (ucast m) ?b ?s 4 = Some ?x"
    using s by (simp add: numToData_put)
  moreover have "ClothesFS_validType (ucast (ucast t :: u32)) t"
    by (simp add: ClothesFS_validType_def ucast_down_ucast_id is_down)
  ultimately have "ClothesFS_addToMeta junk i m t c = Some (True, c2)"
    using c1 c2(1) r meta_rep_slot [OF assms(3,5)] clothes_on_blocksize [OF c1(2)] u
    by (subst ClothesFS_addToMeta.simps) (simp del: of_nat_add of_nat_mult)
  then show thesis
    using c2(2) meta_rep_add [OF assms(3,5,6)] by (rule that)
qed

lemma updateMeta_on:
  assumes "clothes_on p ok disc c D" "unat i < length D" "D ! unat i = [0x42, 0, t, 0] @ replicate 508 0"
    "t = META_FILE \<or> t = META_DIR" "entry_start (length nm) \<le> 508" "nm \<noteq> []" "0 \<notin> set nm"
  obtains c' where "ClothesFS_updateMeta junk i (Some nm) sz c = Some (True, c')"
    "clothes_on p ok disc c' (D[unat i := new_meta t nm sz])"
proof -
  have n: "16 + length nm \<le> 508"
    using assms(5) entry_start_bounds(1) [of "length nm"] by simp
  have l: "length (D ! unat i) = 512"
    using assms(3) by simp
  obtain c1 where c1: "ClothesFS_getBlock i (local_block junk c) c = Some (True, D ! unat i, c1)" "clothes_on p ok disc c1 D"
    using getBlock_on [OF assms(1,2), of "local_block junk c"] length_local_block [OF assms(1)] by auto
  obtain c2 where c2: "ClothesFS_putBlock i (new_meta t nm sz) c1 = Some (True, c2)" "clothes_on p ok disc c2 (D[unat i := new_meta t nm sz])"
    using putBlock_on [OF c1(2) assms(2), of "new_meta t nm sz"] length_new_meta [OF assms(5)] by auto
  have nm: "new_meta t nm sz = put 12 (num_bytes 4 (of_nat (length nm))) (put 16 nm (put 4 (num_bytes 8 sz) (D ! unat i)))"
    unfolding new_meta_def assms(3) ..
  have t: "dataToNum (D ! unat i) 2 1 = Some (ucast t)"
    using assms(3) by (simp add: dataToNum_le slice_def)
  have b: "ClothesFS_baseType (ucast (ucast t :: u32)) = t"
    using assms(4) by (auto simp: ClothesFS_baseType_def META_FILE_def META_DIR_def META_FILE_CONT_def META_DIR_CONT_def)
  have tw: "takeWhile (\<lambda>x. x \<noteq> 0) nm = nm"
    using assms(7) by (auto simp: takeWhile_eq_all_conv)
  have "ClothesFS_updateMeta junk i (Some nm) sz c = Some (True, c2)"
    using c1 c2(1) t b assms(4) n l unfolding ClothesFS_updateMeta_def Let_def option.case tw
    by (simp add: numToData_put buf_write_put nm)
  then show thesis
    using c2(2) by (rule that)
qed

lemma initData_on:
  assumes "clothes_on p ok disc c D" "unat i < length D"
  obtains c' where "ClothesFS_initData junk i PAYLOAD_USED 0 c = Some (4, c')"
    "clothes_on p ok disc c' (D[unat i := [0x42, 0x42, 1, 0] @ replicate 508 0])"
proof -
  have e: "put 3 (num_bytes 1 0) (put 2 (num_bytes 1 1) (put 0 (num_bytes 2 0x4242) (replicate 512 0))) =
      [0x42, 0x42, 1, 0] @ replicate 508 0"
    unfolding zero_block by (rule put_data_header)
  obtain c' where "ClothesFS_putBlock i ([0x42, 0x42, 1, 0] @ replicate 508 0) c = Some (True, c')"
    "clothes_on p ok disc c' (D[unat i := [0x42, 0x42, 1, 0] @ replicate 508 0])"
    using putBlock_on [OF assms, of "[0x42, 0x42, 1, 0] @ replicate 508 0"] by auto
  moreover from this have "ClothesFS_initData junk i PAYLOAD_USED 0 c = Some (4, c')"
    using e clothes_on_blocksize [OF assms(1)]
    by (simp add: ClothesFS_initData_def clear_block [OF assms(1)] numToData_put clothes_consts)
  ultimately show thesis
    by (intro that)
qed

text \<open>One round of \<^verbatim>\<open>addData\<close>: a free block becomes the next payload block of the file.\<close>

lemma addData_round:
  assumes "clothes_on p ok disc c D" "unat i < length D" "meta_rep META_FILE nm es (D ! unat i)" "length es < capacity (length nm)"
    "free_list D (b # fs)" "unat i \<notin> set (b # fs)" "i \<noteq> 0" "length xs < 2 ^ 64"
  obtains c' D' where
    "ClothesFS_addData junk i xs (of_nat (length xs)) c =
      (if length xs \<le> 508 then Some (True, c') else ClothesFS_addData junk i (drop 508 xs) (of_nat (length xs - 508)) c')"
    "clothes_on p ok disc c' D'" "length D' = length D" "free_list D' fs"
    "meta_rep META_FILE nm (es @ [of_nat b]) (D' ! unat i)" "slice 4 8 (D' ! unat i) = slice 4 8 (D ! unat i)"
    "D' ! b = data_block (take 508 xs)" "\<And>j. j \<notin> {0, unat i, b} \<Longrightarrow> D' ! j = D ! j"
proof -
  have b: "0 < b" "b < length D" "b \<noteq> unat i" "b \<notin> set fs" "unat i \<notin> set fs" "0 < unat i"
    using assms(5,6,7) free_list_blocks [OF assms(5), of b] by (auto simp: free_list_def unat_gt_0)
  then have ub: "unat (of_nat b :: u32) = b"
    using blocks_bound [OF assms(1)] by (intro unat_of_nat_u32) simp
  then have nb: "(of_nat b :: u32) \<noteq> 0"
    using b(1) by (metis less_irrefl unat_0)
  obtain c1 D1 where 1: "ClothesFS_takeFreeBlock junk c = Some (of_nat b, c1)" "clothes_on p ok disc c1 D1"
    "free_list D1 fs" "length D1 = length D" "\<And>j. 0 < j \<Longrightarrow> D1 ! j = D ! j"
    using takeFreeBlock_on [OF assms(1,5), of junk thesis] by simp
  obtain c2 m where 2: "ClothesFS_addToMeta junk i (of_nat b) META_FILE c1 = Some (True, c2)"
    "clothes_on p ok disc c2 (D1[unat i := m])" "meta_rep META_FILE nm (es @ [of_nat b]) m" "slice 4 8 m = slice 4 8 (D1 ! unat i)"
    using addToMeta_on [OF 1(2), of i META_FILE nm es "of_nat b" junk] assms(2-4) 1(4,5) b(6) nb by auto
  define h :: "u8 list" where "h = [0x42, 0x42, 1, 0] @ replicate 508 0"
  define x where "x = data_block (take 508 xs)"
  let ?D2 = "D1[unat i := m]"
  have l: "length x = 512" "length h = 512"
    by (simp_all add: data_block_def x_def h_def)
  obtain c3 where 3: "ClothesFS_initData junk (of_nat b) PAYLOAD_USED 0 c2 = Some (4, c3)" "clothes_on p ok disc c3 (?D2[b := h])"
    using initData_on [OF 2(2), of "of_nat b" junk thesis] ub 1(4) b(2) by (simp add: h_def)
  obtain c4 where 4: "ClothesFS_getBlock (of_nat b) (local_block junk c3) c3 = Some (True, h, c4)" "clothes_on p ok disc c4 (?D2[b := h])"
    using getBlock_on [OF 3(2), of "of_nat b" "local_block junk c3"] length_local_block [OF 3(2)] ub b(2) 1(4) by auto
  obtain c5 where 5: "ClothesFS_putBlock (of_nat b) x c4 = Some (True, c5)" "clothes_on p ok disc c5 (?D2[b := x])"
    using putBlock_on [OF 4(2), of "of_nat b" x] ub b(2) 1(4) l by auto
  have cp: "addData_copy 512 xs (of_nat (length xs)) 4 h = Some (x, drop 508 xs, of_nat (length xs - 508))"
  proof -
    have "put 4 (take (min (length xs) 508) xs) h = x"
      unfolding h_def x_def by (subst put_data_block) (auto simp: min_def)
    moreover have "drop (min (length xs) 508) xs = drop 508 xs" "length xs - min (length xs) 508 = length xs - 508"
      by (auto simp: min_def)
    ultimately show ?thesis
      using addData_copy_put [OF assms(8), of 4 h] l by simp
  qed
  have g: "(of_nat (length xs - 508) :: u64) > 0 \<longleftrightarrow> \<not> length xs \<le> 508"
    using assms(8) by (auto simp: word_less_nat_alt unat_of_nat take_bit_nat_eq_self)
  have "ClothesFS_addData junk i xs (of_nat (length xs)) c =
      (if length xs \<le> 508 then Some (True, c5) else ClothesFS_addData junk i (drop 508 xs) (of_nat (length xs - 508)) c5)"
    by (subst ClothesFS_addData.simps) (simp add: 1(1) 2(1) 3(1) 4(1) 5(1) cp nb g clothes_on_blocksize [OF 4(2)] del: of_nat_diff)
  moreover have "free_list (?D2[b := x]) fs"
    using 1(3) b by (intro free_list_update) auto
  moreover have "?D2[b := x] ! unat i = m" "?D2[b := x] ! b = x" "length (?D2[b := x]) = length D"
    "\<And>j. j \<notin> {0, unat i, b} \<Longrightarrow> ?D2[b := x] ! j = D ! j"
    using 1(4,5) b assms(2) by auto
  ultimately show thesis
    using 5(2) 2(3,4) 1(5) b(6) x_def by (intro that [of c5 "?D2[b := x]"]) simp_all
qed

lemma addData_on:
  assumes "clothes_on p ok disc c D" "unat i < length D" "meta_rep META_FILE nm es (D ! unat i)"
    "length es + length bs \<le> capacity (length nm)" "free_list D (bs @ fs)" "length bs = length (file_blocks xs)"
    "unat i \<notin> set (bs @ fs)" "i \<noteq> 0" "length xs < 2 ^ 64"
  shows "\<exists>c' D'. ClothesFS_addData junk i xs (of_nat (length xs)) c = Some (True, c') \<and> clothes_on p ok disc c' D' \<and>
    length D' = length D \<and> free_list D' fs \<and> meta_rep META_FILE nm (es @ map of_nat bs) (D' ! unat i) \<and>
    slice 4 8 (D' ! unat i) = slice 4 8 (D ! unat i) \<and> (\<forall>k < length bs. D' ! (bs ! k) = data_block (file_blocks xs ! k)) \<and>
    (\<forall>j. j \<notin> {0, unat i} \<union> set bs \<longrightarrow> D' ! j = D ! j)"
  using assms
proof (induction xs arbitrary: c D es bs rule: file_blocks.induct)
  case (1 xs)
  obtain b bs' where bs: "bs = b # bs'"
    using "1.prems"(6) by (cases bs) auto
  have fl: "free_list D (b # bs' @ fs)" "unat i \<notin> set (b # bs' @ fs)" "length es < capacity (length nm)"
    using "1.prems"(4,5,7) bs by auto
  obtain c1 D1 where 1: "ClothesFS_addData junk i xs (of_nat (length xs)) c =
      (if length xs \<le> 508 then Some (True, c1) else ClothesFS_addData junk i (drop 508 xs) (of_nat (length xs - 508)) c1)"
    "clothes_on p ok disc c1 D1" "length D1 = length D" "free_list D1 (bs' @ fs)"
    "meta_rep META_FILE nm (es @ [of_nat b]) (D1 ! unat i)" "slice 4 8 (D1 ! unat i) = slice 4 8 (D ! unat i)"
    "D1 ! b = data_block (take 508 xs)" "\<And>j. j \<notin> {0, unat i, b} \<Longrightarrow> D1 ! j = D ! j"
    by (rule addData_round [OF "1.prems"(1-3) fl(3,1,2) "1.prems"(8,9), of junk]) blast
  show ?case
  proof (cases "length xs \<le> 508")
    case True
    then have "file_blocks xs = [xs]" "bs' = []" "take 508 xs = xs"
      using "1.prems"(6) bs by (auto simp: file_blocks.simps [of xs])
    then show ?thesis
      using 1 True bs by (intro exI [of _ c1] exI [of _ D1]) auto
  next
    case False
    then have fb: "file_blocks xs = take 508 xs # file_blocks (drop 508 xs)"
      by (simp add: file_blocks.simps [of xs])
    have db: "b \<notin> set bs'" "0 < b" "b \<noteq> unat i"
      using fl(1,2) free_list_blocks [OF fl(1), of b] by (auto simp: free_list_def)
    have "\<exists>c' D'. ClothesFS_addData junk i (drop 508 xs) (of_nat (length (drop 508 xs))) c1 = Some (True, c') \<and> clothes_on p ok disc c' D' \<and>
      length D' = length D1 \<and> free_list D' fs \<and> meta_rep META_FILE nm ((es @ [of_nat b]) @ map of_nat bs') (D' ! unat i) \<and>
      slice 4 8 (D' ! unat i) = slice 4 8 (D1 ! unat i) \<and> (\<forall>k < length bs'. D' ! (bs' ! k) = data_block (file_blocks (drop 508 xs) ! k)) \<and>
      (\<forall>j. j \<notin> {0, unat i} \<union> set bs' \<longrightarrow> D' ! j = D1 ! j)"
      using "1.prems" 1(3) bs fb by (intro "1.IH" [OF False 1(2) _ 1(5) _ 1(4)]) auto
    then obtain c' D' where 2: "ClothesFS_addData junk i (drop 508 xs) (of_nat (length xs - 508)) c1 = Some (True, c')"
      "clothes_on p ok disc c' D'" "length D' = length D" "free_list D' fs" "meta_rep META_FILE nm (es @ map of_nat bs) (D' ! unat i)"
      "slice 4 8 (D' ! unat i) = slice 4 8 (D ! unat i)" "\<And>k. k < length bs' \<Longrightarrow> D' ! (bs' ! k) = data_block (file_blocks (drop 508 xs) ! k)"
      "\<And>j. j \<notin> {0, unat i} \<union> set bs' \<Longrightarrow> D' ! j = D1 ! j"
      using 1(3,6) bs by auto
    have "D' ! (bs ! k) = data_block (file_blocks xs ! k)" if "k < length bs" for k
      using 2(7,8) 1(7) db fb bs that by (cases k) auto
    moreover have "D' ! j = D ! j" if "j \<notin> {0, unat i} \<union> set bs" for j
      using 2(8) 1(8) bs that by auto
    moreover have "ClothesFS_addData junk i xs (of_nat (length xs)) c = Some (True, c')"
      using 1(1) 2(1) False by simp
    ultimately show ?thesis
      using 2(2-6) by blast
  qed
qed

end

text \<open>\<open>file_on D b nm xs\<close>: block \<open>b\<close> is the metadata of a file with name \<open>nm\<close> whose payload blocks hold \<open>xs\<close>.\<close>

definition file_on :: "u8 list list \<Rightarrow> nat \<Rightarrow> name \<Rightarrow> u8 list \<Rightarrow> nat list \<Rightarrow> bool" where
  "file_on D b nm xs bs \<longleftrightarrow> meta_rep META_FILE nm (map of_nat bs) (D ! b) \<and> slice 4 8 (D ! b) = num_bytes 8 (of_nat (length xs)) \<and>
     length bs = length (file_blocks xs) \<and> (\<forall>k < length bs. D ! (bs ! k) = data_block (file_blocks xs ! k))"

definition name_ok :: "name \<Rightarrow> bool" where
  "name_ok nm \<longleftrightarrow> nm \<noteq> [] \<and> 0 \<notin> set nm \<and> entry_start (length nm) \<le> 508"

context sector_device
begin

text \<open>The common part of \<^verbatim>\<open>addFile\<close> and \<^verbatim>\<open>addDir\<close>: a free block becomes the metadata of a new entry of the directory.\<close>

lemma new_entry_on:
  assumes "clothes_on p ok disc c D" "unat parent < length D" "meta_rep META_DIR dn es (D ! unat parent)" "length es < capacity (length dn)"
    "free_list D (b # fs)" "unat parent \<notin> set (b # fs)" "parent \<noteq> 0" "name_ok nm" "t = META_FILE \<or> t = META_DIR"
  obtains c1 c2 c3 c' D' where "ClothesFS_takeFreeBlock junk c = Some (of_nat b, c1)" "(of_nat b :: u32) \<noteq> 0" "unat (of_nat b :: u32) = b"
    "ClothesFS_addToMeta junk parent (of_nat b) META_DIR c1 = Some (True, c2)"
    "ClothesFS_initMeta junk (of_nat b) t c2 = Some (True, c3)"
    "ClothesFS_updateMeta junk (of_nat b) (Some nm) sz c3 = Some (True, c')" "clothes_on p ok disc c' D'" "length D' = length D"
    "free_list D' fs" "meta_rep META_DIR dn (es @ [of_nat b]) (D' ! unat parent)" "meta_rep t nm [] (D' ! b)"
    "slice 4 8 (D' ! b) = num_bytes 8 sz" "\<And>j. j \<notin> {0, unat parent, b} \<Longrightarrow> D' ! j = D ! j"
proof -
  note result = that
  have b: "0 < b" "b < length D" "b \<noteq> unat parent" "b \<notin> set fs" "unat parent \<notin> set fs" "0 < unat parent"
    using assms(5,6,7) free_list_blocks [OF assms(5), of b] by (auto simp: free_list_def unat_gt_0)
  then have ub: "unat (of_nat b :: u32) = b"
    using blocks_bound [OF assms(1)] by (intro unat_of_nat_u32) simp
  then have nb: "(of_nat b :: u32) \<noteq> 0"
    using b(1) by (metis less_irrefl unat_0)
  have nm: "entry_start (length nm) \<le> 508" "nm \<noteq> []" "0 \<notin> set nm"
    using assms(8) by (auto simp: name_ok_def)
  obtain c1 D1 where 1: "ClothesFS_takeFreeBlock junk c = Some (of_nat b, c1)" "clothes_on p ok disc c1 D1"
    "free_list D1 fs" "length D1 = length D" "\<And>j. 0 < j \<Longrightarrow> D1 ! j = D ! j"
    using takeFreeBlock_on [OF assms(1,5), of junk thesis] by simp
  have pf: "unat parent < length D1" "meta_rep META_DIR dn es (D1 ! unat parent)"
    using assms(2,3) 1(4,5) b(6) by auto
  obtain c2 m where 2: "ClothesFS_addToMeta junk parent (of_nat b) META_DIR c1 = Some (True, c2)"
    "clothes_on p ok disc c2 (D1[unat parent := m])" "meta_rep META_DIR dn (es @ [of_nat b]) m"
    by (rule addToMeta_on [OF 1(2) pf disjI2 [OF refl] assms(4) nb, of junk]) blast
  define h :: "u8 list" where "h = [0x42, 0, t, 0] @ replicate 508 0"
  let ?D2 = "D1[unat parent := m]" and ?x = "new_meta t nm sz"
  obtain c3 where 3: "ClothesFS_initMeta junk (of_nat b) t c2 = Some (True, c3)" "clothes_on p ok disc c3 (?D2[b := h])"
    using initMeta_on [OF 2(2), of "of_nat b" junk t thesis] ub 1(4) b(2) by (simp add: h_def)
  have h: "?D2[b := h] ! unat (of_nat b :: u32) = [0x42, 0, t, 0] @ replicate 508 0"
    using ub 1(4) b(2) by (simp add: h_def)
  obtain c4 where 4: "ClothesFS_updateMeta junk (of_nat b) (Some nm) sz c3 = Some (True, c4)" "clothes_on p ok disc c4 (?D2[b := h, b := ?x])"
    using updateMeta_on [OF 3(2) _ h assms(9) nm, of junk sz] ub 1(4) b(2) by auto
  have fl: "free_list (?D2[b := ?x]) fs"
    using 1(3) b by (intro free_list_update) auto
  have "?D2[b := ?x] ! unat parent = m" "?D2[b := ?x] ! b = ?x" "length (?D2[b := ?x]) = length D"
    "\<And>j. j \<notin> {0, unat parent, b} \<Longrightarrow> ?D2[b := ?x] ! j = D ! j"
    using 1(4,5) b assms(2) by auto
  then show thesis
    using 4(2) 2(3) fl new_meta_rep [OF nm, of t sz]
    by (intro result [OF 1(1) nb ub 2(1) 3(1) 4(1), of "?D2[b := ?x]"]) simp_all
qed

lemma addDir_on:
  assumes "clothes_on p ok disc c D" "unat parent < length D" "meta_rep META_DIR dn es (D ! unat parent)" "length es < capacity (length dn)"
    "free_list D (b # fs)" "unat parent \<notin> set (b # fs)" "parent \<noteq> 0" "name_ok nm"
  shows "\<exists>c' D'. ClothesFS_addDir junk parent (Some nm) c = Some (True, c') \<and> clothes_on p ok disc c' D' \<and> length D' = length D \<and>
    free_list D' fs \<and> meta_rep META_DIR dn (es @ [of_nat b]) (D' ! unat parent) \<and> meta_rep META_DIR nm [] (D' ! b) \<and>
    (\<forall>j. j \<notin> {0, unat parent, b} \<longrightarrow> D' ! j = D ! j)"
  by (rule new_entry_on [OF assms, of META_DIR junk 0]) (auto simp: ClothesFS_addDir_def assms(7))

lemma addFile_on:
  assumes "clothes_on p ok disc c D" "unat parent < length D" "meta_rep META_DIR dn es (D ! unat parent)" "length es < capacity (length dn)"
    "free_list D (b # bs @ fs)" "unat parent \<notin> set (b # bs @ fs)" "parent \<noteq> 0" "name_ok nm"
    "length bs = length (file_blocks xs)" "length bs \<le> capacity (length nm)" "length xs < 2 ^ 64"
  shows "\<exists>c' D'. ClothesFS_addFile junk parent (Some nm) xs (of_nat (length xs)) c = Some (True, c') \<and> clothes_on p ok disc c' D' \<and>
    length D' = length D \<and> free_list D' fs \<and> meta_rep META_DIR dn (es @ [of_nat b]) (D' ! unat parent) \<and> file_on D' b nm xs bs \<and>
    (\<forall>j. j \<notin> {0, unat parent, b} \<union> set bs \<longrightarrow> D' ! j = D ! j)"
proof -
  obtain c1 c2 c3 c4 D4 where 1: "ClothesFS_takeFreeBlock junk c = Some (of_nat b, c1)" "(of_nat b :: u32) \<noteq> 0" "unat (of_nat b :: u32) = b"
    "ClothesFS_addToMeta junk parent (of_nat b) META_DIR c1 = Some (True, c2)"
    "ClothesFS_initMeta junk (of_nat b) META_FILE c2 = Some (True, c3)"
    "ClothesFS_updateMeta junk (of_nat b) (Some nm) (of_nat (length xs)) c3 = Some (True, c4)" "clothes_on p ok disc c4 D4" "length D4 = length D"
    "free_list D4 (bs @ fs)" "meta_rep META_DIR dn (es @ [of_nat b]) (D4 ! unat parent)" "meta_rep META_FILE nm [] (D4 ! b)"
    "slice 4 8 (D4 ! b) = num_bytes 8 (of_nat (length xs))" "\<And>j. j \<notin> {0, unat parent, b} \<Longrightarrow> D4 ! j = D ! j"
    by (rule new_entry_on [OF assms(1-8), of META_FILE junk "of_nat (length xs)"]) blast+
  have b: "b < length D" "b \<notin> set (bs @ fs)" "b \<noteq> unat parent" "0 < unat parent" "unat parent \<notin> set bs"
    using assms(5-7) free_list_blocks [OF assms(5), of b] by (auto simp: free_list_def unat_gt_0)
  have "\<exists>c' D'. ClothesFS_addData junk (of_nat b) xs (of_nat (length xs)) c4 = Some (True, c') \<and> clothes_on p ok disc c' D' \<and>
    length D' = length D4 \<and> free_list D' fs \<and> meta_rep META_FILE nm ([] @ map of_nat bs) (D' ! b) \<and>
    slice 4 8 (D' ! b) = slice 4 8 (D4 ! b) \<and> (\<forall>k < length bs. D' ! (bs ! k) = data_block (file_blocks xs ! k)) \<and>
    (\<forall>j. j \<notin> {0, b} \<union> set bs \<longrightarrow> D' ! j = D4 ! j)"
    using addData_on [OF 1(7), of "of_nat b" nm "[]" bs fs xs junk] 1(2,3,8,9,11) b assms(9-11) by simp
  then obtain c' D' where 2: "ClothesFS_addData junk (of_nat b) xs (of_nat (length xs)) c4 = Some (True, c')" "clothes_on p ok disc c' D'"
    "length D' = length D" "free_list D' fs" "file_on D' b nm xs bs" "\<And>j. j \<notin> {0, b} \<union> set bs \<Longrightarrow> D' ! j = D4 ! j"
    using 1(8,12) assms(9) by (auto simp: file_on_def)
  have "ClothesFS_addFile junk parent (Some nm) xs (of_nat (length xs)) c = Some (True, c')"
    using 1(1,2,4-6) 2(1) assms(7) by (simp add: ClothesFS_addFile_def)
  moreover have "D' ! unat parent = D4 ! unat parent"
    using 2(6) b by auto
  ultimately show ?thesis
    using 2 1(10,13) by (intro exI [of _ c'] exI [of _ D']) auto
qed

end

section \<open>Formatting and freeing\<close>

lemma free_block_next: "nxt < 2 ^ 32 \<Longrightarrow> u32_at (free_block nxt) 508 = of_nat nxt"
proof -
  assume "nxt < 2 ^ 32"
  then have "(of_nat nxt :: u64) = ucast (of_nat nxt :: u32)"
    by (simp add: unsigned_of_nat take_bit_nat_eq_self)
  then show ?thesis
    by (simp add: free_block_def u32_at_put)
qed

lemma free_block_mark: "slice 0 4 (free_block nxt) = [0x42, 0, META_FREE, 0]"
  by (simp add: free_block_def slice_put_other slice_put_same num_bytes_short META_FREE_def)

lemma free_chain_formatted:
  assumes "\<And>b. k \<le> b \<Longrightarrow> b < length D \<Longrightarrow> D ! b = free_block (if b = length D - 1 then 0 else b + 1)" "0 < k" "k < length D" "length D < 2 ^ 32"
  shows "free_chain D (of_nat k) [k..<length D]"
  using assms
proof (induction "length D - k" arbitrary: k)
  case (Suc m)
  have r: "[k..<length D] = k # [Suc k..<length D]"
    using Suc.prems(3) by (rule upt_conv_Cons)
  have n: "u32_at (D ! k) 508 = of_nat (if k = length D - 1 then 0 else k + 1)"
    using Suc.prems(1) [of k] Suc.prems(3,4) free_block_next [of "if k = length D - 1 then 0 else k + 1"] by simp
  show ?case
  proof (cases "k = length D - 1")
    case True
    then show ?thesis
      using Suc.prems n r by simp
  next
    case False
    then have "free_chain D (of_nat (Suc k)) [Suc k..<length D]"
      using Suc by (intro Suc.hyps(1)) auto
    then show ?thesis
      using Suc.prems n r False by (simp add: add.commute)
  qed
qed simp

context sector_device
begin

lemma header_on:
  assumes "cfs_blocksize c = 512"
  obtains b where "format_header volid (replicate 512 0) p c = Some b" "length b = 512" "u32_at b 508 = 0"
    "slice 32 4 b = [0, 0x42, 0, 0x41]" "slice 36 2 b = num_bytes 2 512"
proof -
  define vol where "vol = (case volid of None \<Rightarrow> [] | Some s \<Rightarrow> take 32 (takeWhile (\<lambda>x. x \<noteq> 0) s))"
  have v: "length vol \<le> 32"
    by (simp add: vol_def split: option.splits)
  define b1 where "b1 = put 36 (num_bytes 2 512) (put 32 [0, 0x42, 0, 0x41] (replicate 512 (0 :: u8)))"
  define b2 where "b2 = put 48 (num_bytes 4 (fp_size p)) (put 38 [0, 0] b1)"
  define b where "b = put 88 (num_bytes 4 1) (put 56 vol b2)"
  have l: "length b1 = 512" "length b2 = 512" "length b = 512"
    using v by (simp_all add: b_def b2_def b1_def)
  have "u32_at (replicate 512 0) 508 = 0"
    by (subst u32_at_eq_0_iff) auto
  then have "u32_at b 508 = 0"
    using v l by (simp add: b_def b2_def b1_def u32_at_put_other)
  moreover have "slice 32 4 b = [0, 0x42, 0, 0x41]" "slice 36 2 b = num_bytes 2 512"
    using v l by (simp_all add: b_def b2_def slice_put_other) (simp_all add: b1_def slice_put_other slice_put_same)
  moreover have "format_header volid (replicate 512 0) p c = Some b"
    using v l assms unfolding format_header_def vol_def [symmetric] header_begin_def
    by (simp add: numToData_put buf_write_put b_def b2_def b1_def)
  ultimately show thesis
    using l(3) by (intro that)
qed

lemma format_on:
  assumes "cfs_phys c = Some p" "cfs_blocksize c = 512" "ok (cfs_disc c)" "length (disc (cfs_disc c)) = n" "3 \<le> n"
  shows "\<exists>c' D. ClothesFS_format junk volid c = Some (True, c') \<and> clothes_on p ok disc c' D \<and> length D = n \<and> free_list D [2..<n] \<and>
    meta_rep META_DIR [SLASH] [] (D ! 1) \<and> (\<forall>b \<in> {2..<n}. slice 0 4 (D ! b) = [0x42, 0, META_FREE, 0]) \<and>
    slice 32 4 (D ! 0) = [0, 0x42, 0, 0x41] \<and> slice 36 2 (D ! 0) = num_bytes 2 512"
proof -
  define c0 where "c0 = c\<lparr>cfs_blocks := ucast (fp_size p div 512), cfs_block_in_sectors := 1\<rparr>"
  define D0 where "D0 = disc (cfs_disc c)"
  have "unat (fp_size p div 512) = n"
    using size_div [OF assms(3)] assms(4) by (simp add: unat_div)
  moreover have "n < 2 ^ 32"
    using size_div [OF assms(3)] assms(4) size_less by simp
  ultimately have "unat (ucast (fp_size p div 512) :: u32) = unat (of_nat n :: u32)"
    by (simp only: unat_narrow unat_of_nat_u32)
  then have "ucast (fp_size p div 512) = (of_nat n :: u32)"
    by (rule unsigned_word_eqI)
  then have 0: "clothes_on p ok disc c0 D0" "length D0 = n"
    using assms by (auto simp: clothes_on_def c0_def D0_def)
  have n: "n < 2 ^ 23"
    using blocks_bound [OF 0(1)] 0(2) by simp
  obtain hb where hb: "format_header volid (replicate 512 0) p c0 = Some hb" "length hb = 512" "u32_at hb 508 = 0"
    "slice 32 4 hb = [0, 0x42, 0, 0x41]" "slice 36 2 hb = num_bytes 2 512"
    by (rule header_on [OF clothes_on_blocksize [OF 0(1)]])
  obtain c1 D1 where "formatBlocks_loop junk (of_nat (n - 1)) (of_nat 0) c0 = Some (2, c1)" and 1: "clothes_on p ok disc c1 D1"
    "length D1 = n" "\<And>b. b < n \<Longrightarrow> D1 ! b = (if 2 \<le> b \<and> b \<le> n - 1 then free_block (if b = n - 1 then 0 else b + 1) else D0 ! b)"
    by (rule formatBlocks_loop_on [OF 0(1), of "n - 1" 0 junk]) (use assms(5) 0(2) in auto)
  moreover have "cfs_blocks c0 - 1 = of_nat (n - 1)"
    using 0 assms(5) of_nat_u32_pred [of n] by (simp add: clothes_on_def)
  ultimately have f: "ClothesFS_formatBlocks junk c0 = Some (2, c1)"
    by (simp add: ClothesFS_formatBlocks_def)
  define hd where "hd = put 104 (num_bytes 4 2) (put 100 (num_bytes 4 0) (put 96 (num_bytes 4 0) (put 92 (num_bytes 4 2) hb)))"
  have hd: "length hd = 512" "u32_at hd 508 = 0" "slice 32 4 hd = [0, 0x42, 0, 0x41]" "slice 36 2 hd = num_bytes 2 512"
    using hb by (simp_all add: hd_def u32_at_put_other slice_put_other)
  have hd2: "u32_at hd 104 = 2"
    using u32_at_put [of 104 "put 100 (num_bytes 4 0) (put 96 (num_bytes 4 0) (put 92 (num_bytes 4 2) hb))" 2] hb(2) by (simp add: hd_def)
  obtain d where d: "fp_write p hd 1 0 0 (cfs_disc c1) = Some (True, d)" "ok d" "disc d = D1[0 := hd]"
  proof -
    have "ok (cfs_disc c1)" "disc (cfs_disc c1) = D1" "0 < length D1"
      using 1(1,2) assms(5) by (auto simp: clothes_on_def)
    then show thesis
      using write_law [of "cfs_disc c1" 0 hd] hd(1) that by auto
  qed
  define c2 where "c2 = c1\<lparr>cfs_disc := d\<rparr>"
  have w: "write_sector 0 0 hd p c1 = Some (True, c2)"
    using d(1) hd(1) sectorSize by (simp add: write_sector_def buf_read_def c2_def)
  have 2: "clothes_on p ok disc c2 (D1[0 := hd])"
    using 1(1) d(2,3) by (simp add: clothes_on_def c2_def)
  define h :: "u8 list" where "h = [0x42, 0, META_DIR, 0] @ replicate 508 0"
  obtain c3 where 3: "ClothesFS_initMeta junk 1 META_DIR c2 = Some (True, c3)" "clothes_on p ok disc c3 (D1[0 := hd, 1 := h])"
    using initMeta_on [OF 2, of 1 junk META_DIR thesis] 1(2) assms(5) by (simp add: h_def)
  have nm: "entry_start (length [SLASH]) \<le> 508" "[SLASH] \<noteq> []" "0 \<notin> set [SLASH]"
    by (simp_all add: entry_start_def SLASH_def)
  have h: "D1[0 := hd, 1 := h] ! unat (1 :: u32) = [0x42, 0, META_DIR, 0] @ replicate 508 0"
    using 1(2) assms(5) by (simp add: h_def)
  obtain c4 where 4: "ClothesFS_updateMeta junk 1 (Some [SLASH]) 0 c3 = Some (True, c4)"
    "clothes_on p ok disc c4 (D1[0 := hd, 1 := h, 1 := new_meta META_DIR [SLASH] 0])"
    using updateMeta_on [OF 3(2) _ h _ nm, of junk 0 thesis] 1(2) assms(5) by auto
  let ?D = "D1[0 := hd, 1 := new_meta META_DIR [SLASH] 0]"
  have D: "?D ! 0 = hd" "?D ! 1 = new_meta META_DIR [SLASH] 0" "length ?D = n"
    using 1(2) assms(5) by auto
  have "clearBuffer (new_buffer junk (fp_sectorSize p)) (fp_sectorSize p) = Some (replicate 512 0)"
    by (simp add: clearBuffer_def sectorSize buf_write_all new_buffer_def)
  moreover have "c\<lparr>cfs_blocks := ucast (fp_size p div ucast (512 :: u32)), cfs_block_in_sectors := 512 div 512\<rparr> = c0"
    by (simp add: c0_def)
  ultimately have "ClothesFS_format junk volid c = Some (True, c4)"
    using assms(1,2) sectorSize hb(1,2) f w 3(1) 4(1) by (simp add: ClothesFS_format_def numToData_put header_begin_def hd_def)
  moreover have fb: "?D ! b = free_block (if b = length ?D - 1 then 0 else b + 1)" if "2 \<le> b" "b < length ?D" for b
    using 1(2) 1(3) [of b] that by auto
  then have "free_chain ?D (of_nat 2) [2..<length ?D]"
    by (rule free_chain_formatted) (use D(3) assms(5) n in auto)
  then have "free_list ?D [2..<n]"
    using hd(2) hd2 D by (auto simp: free_list_def)
  ultimately show ?thesis
    using 4(2) D hd(3,4) new_meta_rep(1) [OF nm, of META_DIR 0] fb free_block_mark by (intro exI [of _ c4] exI [of _ ?D]) simp
qed

lemma detect_on:
  assumes "clothes_on p ok disc c D" "0 < length D" "slice 32 4 (D ! 0) = [0, 0x42, 0, 0x41]" "slice 36 2 (D ! 0) = num_bytes 2 512"
  obtains c' where "ClothesFS_detect junk c = Some (True, c')" "clothes_on p ok disc c' D"
proof -
  have c: "cfs_phys c = Some p" "ok (cfs_disc c)" "disc (cfs_disc c) = D"
    using assms(1) by (auto simp: clothes_on_def)
  let ?buf = "new_buffer junk (fp_sectorSize p)"
  have nb: "length ?buf = 512"
    using sectorSize by (simp add: new_buffer_def)
  obtain d where d: "fp_read p ?buf 1 0 0 (cfs_disc c) = Some (True, D ! 0, d)" "ok d" "disc d = D"
    using read_law [OF c(2) _ nb, of 0] c(3) assms(2) by auto
  have l: "length (D ! 0) = 512"
    using block_length [OF assms(1,2)] .
  have r: "read_sector 0 0 (new_buffer junk (fp_sectorSize p)) p c = Some (True, D ! 0, c\<lparr>cfs_disc := d\<rparr>)"
    using d(1) by (simp add: read_sector_def)
  have "unat (le (num_bytes 2 512)) = unat (512 :: u32)"
    by (subst unat_le_num_bytes) auto
  then have bs: "le (num_bytes 2 512) = 512"
    by (rule unsigned_word_eqI)
  have m: "D ! 0 ! (32 + i) = [0, 0x42, 0, 0x41] ! i" if "i < 4" for i
    using nth_slice [of 32 4 "D ! 0" i] that l assms(3) by simp
  have "ClothesFS_detect junk c = Some (True, c\<lparr>cfs_disc := d\<rparr>\<lparr>cfs_blocksize := 512\<rparr>)"
    using c(1) r l bs assms(4) m [of 0] m [of 1] m [of 2] m [of 3]
    by (simp add: ClothesFS_detect_def dataToNum_le header_begin_def)
  moreover have "clothes_on p ok disc (c\<lparr>cfs_disc := d\<rparr>\<lparr>cfs_blocksize := 512\<rparr>) D"
    using assms(1) d by (simp add: clothes_on_def)
  ultimately show thesis
    by (rule that)
qed

lemma addFreeBlock_on:
  assumes "clothes_on p ok disc c D" "0 < b" "b < length D"
  obtains c' where
    "ClothesFS_addFreeBlock junk (of_nat b) c = Some (D ! b ! 2 \<noteq> META_FREE, c')"
    "clothes_on p ok disc c' (if D ! b ! 2 = META_FREE then D else D[0 := put 104 (num_bytes 4 (ucast (of_nat b :: u32))) (D ! 0)])"
proof -
  note result = that
  have ub: "unat (of_nat b :: u32) = b"
    using blocks_bound [OF assms(1)] assms(3) by (intro unat_of_nat_u32) simp
  then have nb: "(of_nat b :: u32) \<noteq> 0"
    using assms(2) by (metis less_irrefl unat_0)
  have l: "length (D ! 0) = 512" "length (D ! b) = 512"
    using block_length [OF assms(1) le_less_trans [OF le0 assms(3)]] block_length [OF assms(1,3)] by auto
  have "unat (0 :: u32) < length D"
    using le_less_trans [OF le0 assms(3)] by simp
  then obtain c1 where 1: "ClothesFS_getBlock 0 (local_block junk c) c = Some (True, D ! 0, c1)" "clothes_on p ok disc c1 D"
    using getBlock_on [OF assms(1), of 0 "local_block junk c" thesis] length_local_block [OF assms(1)] by simp
  obtain c2 where 2: "ClothesFS_getBlock (of_nat b) (local_block junk c1) c1 = Some (True, D ! b, c2)" "clothes_on p ok disc c2 D"
    using getBlock_on [OF 1(2), of "of_nat b" "local_block junk c1"] length_local_block [OF 1(2)] assms(3) ub by auto
  have t: "dataToNum (D ! b) 2 1 = Some (ucast (D ! b ! 2))"
    using l(2) by (simp add: dataToNum_def)
  have u: "(ucast (ucast x :: u32) :: u8) = x" for x
    by (simp add: ucast_down_ucast_id is_down)
  show thesis
  proof (cases "D ! b ! 2 = META_FREE")
    case True
    then have "ClothesFS_addFreeBlock junk (of_nat b) c = Some (False, c2)"
      using 1(1) 2(1) t nb u by (simp add: ClothesFS_addFreeBlock_def)
    then show thesis
      using 2(2) True by (intro result [of c2]) auto
  next
    case False
    let ?h = "put 104 (num_bytes 4 (ucast (of_nat b :: u32))) (D ! 0)"
    obtain c3 where 3: "ClothesFS_putBlock 0 ?h c2 = Some (True, c3)" "clothes_on p ok disc c3 (D[0 := ?h])"
      using putBlock_on [OF 2(2) \<open>unat 0 < length D\<close>, of ?h thesis] l by simp
    have "ClothesFS_addFreeBlock junk (of_nat b) c = Some (True, c3)"
      using 1(1) 2(1) 3(1) t nb u False l clothes_on_blocksize [OF 2(2)]
      by (simp add: ClothesFS_addFreeBlock_def dataToNum_u32 numToData_put)
    then show thesis
      using 3(2) False by (intro result [of c3]) auto
  qed
qed

end

section \<open>A device for the examples\<close>

text \<open>A disc in memory.\<close>

definition ram_disc :: "nat \<Rightarrow> u8 list list fsphys" where
  "ram_disc n =
     \<lparr>fp_read = \<lambda>buf sectors pos hi d. let b = unat pos div 512 in if b < length d then Some (True, d ! b @ drop 512 buf, d) else Some (False, buf, d),
      fp_write = \<lambda>bs sectors pos hi d. let b = unat pos div 512 in if b < length d then Some (True, d[b := take 512 bs]) else Some (False, d),
      fp_size = of_nat (512 * n), fp_sectorSize = 512\<rparr>"

definition ram_ok :: "nat \<Rightarrow> u8 list list \<Rightarrow> bool" where
  "ram_ok n d \<longleftrightarrow> length d = n \<and> (\<forall>b \<in> set d. length b = 512)"

lemma ram_sector_device: "n < 2 ^ 23 \<Longrightarrow> sector_device (ram_disc n) (ram_ok n) (\<lambda>d. d)"
proof (unfold_locales, goal_cases)
  case (2 d)
  then have "unat (of_nat (512 * n) :: u64) = 512 * n"
    by (simp add: unat_of_nat take_bit_nat_eq_self del: of_nat_mult)
  then show ?case
    using 2 by (simp add: ram_disc_def ram_ok_def del: of_nat_mult)
next
  case 3
  then have "unat (of_nat (512 * n) :: u64) = 512 * n"
    by (simp add: unat_of_nat take_bit_nat_eq_self del: of_nat_mult)
  then show ?case
    using 3 by (simp add: ram_disc_def del: of_nat_mult)
next
  case (5 d b)
  then have "unat (of_nat (512 * b) :: u32) = 512 * b"
    by (intro unat_of_nat_u32) (simp add: ram_ok_def)
  then show ?case
    using 5 by (simp add: ram_disc_def ram_ok_def Let_def del: of_nat_mult)
next
  case (6 d b bs)
  then have "unat (of_nat (512 * b) :: u32) = 512 * b"
    by (intro unat_of_nat_u32) (simp add: ram_ok_def)
  then show ?case
    using 6 by (auto simp: ram_disc_def ram_ok_def Let_def simp del: of_nat_mult dest!: set_update_subset_insert [THEN subsetD])
qed (auto simp: ram_disc_def ram_ok_def)

text \<open>A disc of 16 blocks, cleared and then formatted with the volume name \<open>c\<close>.\<close>

definition blank_clothes :: "u8 list list clothes" where
  "blank_clothes = (ClothesFS_new 0 0 (replicate 16 (replicate 512 0)))\<lparr>cfs_phys := Some (ram_disc 16)\<rparr>"

abbreviation ram_clothes :: "u8 list list clothes \<Rightarrow> u8 list list \<Rightarrow> bool" where
  "ram_clothes \<equiv> clothes_on (ram_disc 16) (ram_ok 16) (\<lambda>d. d)"

lemma ram_16: "sector_device (ram_disc 16) (ram_ok 16) (\<lambda>d. d)"
  by (rule ram_sector_device) simp

lemma blank_ok:
  "cfs_phys blank_clothes = Some (ram_disc 16)" "cfs_blocksize blank_clothes = 512" "ram_ok 16 (cfs_disc blank_clothes)"
  "length (cfs_disc blank_clothes) = 16"
  by (auto simp: blank_clothes_def ClothesFS_new_def ram_ok_def)

lemma formatted_example:
  obtains c D where "ram_clothes c D" "length D = 16" "free_list D [2..<16]" "meta_rep META_DIR [SLASH] [] (D ! 1)"
  using sector_device.format_on [OF ram_16 blank_ok, of "\<lambda>_. 0" "Some [99]"] by auto

section \<open>Properties\<close>

text \<open>
  Numbers in a block.  \<^verbatim>\<open>numToData\<close> followed by \<^verbatim>\<open>dataToNum\<close> at the same place gives the number back, cut to the
  given number of bytes, for up to four bytes; the bytes around it do not change.  For eight bytes, as in \<^verbatim>\<open>Iterator::size\<close>,
  \<^verbatim>\<open>dataToNum\<close> shifts an \<^verbatim>\<open>int\<close> by 32 and more: it has no defined result.
\<close>

theorem block_numbers_roundtrip:
  assumes "start + cnt \<le> length buf" "cnt \<le> 4"
  shows "\<exists>buf'. numToData n buf start cnt = Some buf' \<and> map_option unat (dataToNum buf' start cnt) = Some (unat n mod 256 ^ cnt) \<and>
    length buf' = length buf \<and> (\<forall>i < length buf. i < start \<or> start + cnt \<le> i \<longrightarrow> buf' ! i = buf ! i) \<and> dataToNum buf' start 8 = None"
proof -
  have "numToData n buf start cnt = Some (put start (num_bytes cnt n) buf)"
    using assms by (simp add: numToData_put)
  moreover have "dataToNum (put start (num_bytes cnt n) buf) start cnt = Some (le (num_bytes cnt n))"
    using assms by (simp add: dataToNum_le slice_put_same)
  ultimately show ?thesis
    using assms by (simp add: unat_le_num_bytes nth_put dataToNum_overflow)
qed

theorem block_numbers_roundtrip_witness:
  "map_option unat (Option.bind (numToData 0x12345 [1, 2, 3, 4, 5] 1 2) (\<lambda>b. dataToNum b 1 2)) = Some 0x2345"
  using block_numbers_roundtrip [of 1 2 "[1, 2, 3, 4, 5]" "0x12345"] by auto

text \<open>
  The chain of free blocks refines a list.  \<^verbatim>\<open>takeFreeBlock\<close> returns the first free block and removes it from
  the list, and returns 0 when the list is empty; it changes nothing but the header block.
\<close>

theorem takeFreeBlock_pops:
  assumes "sector_device p ok disc" "clothes_on p ok disc c D" "free_list D fs"
  shows "\<exists>c' D'. ClothesFS_takeFreeBlock junk c = Some (case fs of [] \<Rightarrow> 0 | b # bs \<Rightarrow> of_nat b, c') \<and> clothes_on p ok disc c' D' \<and>
    free_list D' (tl fs) \<and> length D' = length D \<and> (\<forall>b > 0. D' ! b = D ! b)"
  by (rule sector_device.takeFreeBlock_on [OF assms, of junk]) blast

theorem takeFreeBlock_pops_witness:
  "\<exists>c D c' D'. ram_clothes c D \<and> ClothesFS_takeFreeBlock (\<lambda>_. 0) c = Some (2, c') \<and> ram_clothes c' D' \<and> free_list D' [3..<16]"
proof (rule formatted_example)
  fix c D
  assume "ram_clothes c D" "free_list D [2..<16]"
  with takeFreeBlock_pops [OF ram_16 this, of "\<lambda>_. 0"] show ?thesis
    by (auto simp: upt_conv_Cons)
qed

text \<open>
  \<^verbatim>\<open>addFreeBlock\<close> loses the free blocks.  It refuses a block that is marked free; for any other block without a
  continuation it reports success, but the changed block is never written: it stays marked as used, and the chain of free
  blocks consists of it alone.
\<close>

theorem addFreeBlock_loses_chain:
  assumes "sector_device p ok disc" "clothes_on p ok disc c D" "free_list D fs" "0 < b" "b < length D"
  shows "\<exists>c' D'. ClothesFS_addFreeBlock junk (of_nat b) c = Some (D ! b ! 2 \<noteq> META_FREE, c') \<and> clothes_on p ok disc c' D' \<and> D' ! b = D ! b \<and>
    (if D ! b ! 2 = META_FREE then D' = D else u32_at (D ! b) 508 = 0 \<longrightarrow> free_list D' [b])"
proof -
  let ?h = "put 104 (num_bytes 4 (ucast (of_nat b :: u32))) (D ! 0)"
  have l: "length (D ! 0) = 512"
    using sector_device.block_length [OF assms(1,2) le_less_trans [OF le0 assms(5)]] .
  have "free_list (D[0 := ?h]) [b]" if "u32_at (D ! b) 508 = 0"
    using assms(3-5) that l by (auto simp: free_list_def u32_at_put u32_at_put_other)
  moreover obtain c' where "ClothesFS_addFreeBlock junk (of_nat b) c = Some (D ! b ! 2 \<noteq> META_FREE, c')"
    "clothes_on p ok disc c' (if D ! b ! 2 = META_FREE then D else D[0 := ?h])"
    by (rule sector_device.addFreeBlock_on [OF assms(1,2,4,5), of junk])
  ultimately show ?thesis
    using assms(4) by (cases "D ! b ! 2 = META_FREE") auto
qed

theorem addFreeBlock_loses_chain_witness:
  "\<exists>c D c' D'. ram_clothes c D \<and> free_list D [2..<16] \<and> ClothesFS_addFreeBlock (\<lambda>_. 0) 1 c = Some (True, c') \<and> ram_clothes c' D' \<and> free_list D' [1]"
proof (rule formatted_example)
  fix c D
  assume a: "ram_clothes c D" "length D = 16" "free_list D [2..<16]" "meta_rep META_DIR [SLASH] [] (D ! 1)"
  have "D ! 1 ! 2 = META_DIR" "u32_at (D ! 1) 508 = 0"
    using meta_rep_bytes [OF a(4)] a(4) by (auto simp: meta_rep_def)
  with addFreeBlock_loses_chain [OF ram_16 a(1,3), of 1 "\<lambda>_. 0"] a show ?thesis
    by (fastforce simp: META_DIR_def META_FREE_def)
qed

end
