(* ===== verification/Clothes_FS.thy ===== *)
theory Clothes_FS
  imports Clothes_Laws
begin

text \<open>
  ClothesFS as the kernel sees it: \<^verbatim>\<open>ClothesFS::Iterator\<close>, which lists a directory and reads a file, and
  the file system object \<^verbatim>\<open>ClothesFilesystem\<close> (\<^verbatim>\<open>src/fs/clothesfs.cpp\<close>, \<^verbatim>\<open>inc/fs/clothesfs.hh\<close>).

  An iterator points to the one \<^verbatim>\<open>ClothesFS\<close> object, so that \<open>ci_fs\<close> only says whether \<^verbatim>\<open>m_fs\<close> is set; its operations pass
  on the state of that object, whose device they read.  No constructor sets \<^verbatim>\<open>m_content\<close>: \<open>ci_content\<close> is \<^term>\<open>None\<close> while
  it is indeterminate, and \<^term>\<open>Some None\<close> for \<^verbatim>\<open>nullptr\<close>.

  The laws are those of a directory as a list of named entries: \<^verbatim>\<open>list\<close> and \<^verbatim>\<open>next\<close> walk it.  What it means to resolve
  a path over such directories is \<open>path_lookup\<close>; \<^verbatim>\<open>findFile\<close> does so for a path of one part, and of a longer one leaves
  out the last.  \<^verbatim>\<open>open\<close>, \<^verbatim>\<open>read\<close> and \<^verbatim>\<open>close\<close> reach the first payload block of what \<^verbatim>\<open>addFile\<close> stored.
\<close>

section \<open>Iterators\<close>

record citer =
  ci_ok :: bool
  ci_block :: u32
  ci_index :: u32
  ci_pos :: u64
  ci_data_block :: u32
  ci_data_index :: u32
  ci_fs :: bool
  ci_parent :: "u8 list option"
  ci_data :: "u8 list option"
  ci_content :: "u8 list option option"

definition ClothesIterator_new :: "u32 \<Rightarrow> u32 \<Rightarrow> citer" where
  "ClothesIterator_new blk index = \<lparr>ci_ok = False, ci_block = blk, ci_index = index, ci_pos = 0, ci_data_block = 0, ci_data_index = 0,
     ci_fs = False, ci_parent = None, ci_data = None, ci_content = None\<rparr>"

text \<open>The destructor deletes the three buffers: it reads \<^verbatim>\<open>m_content\<close>.\<close>

definition ClothesIterator_destroy :: "citer \<Rightarrow> unit option" where
  "ClothesIterator_destroy it = map_option (\<lambda>_. ()) (ci_content it)"

definition copy_buffer :: "(nat \<Rightarrow> u8) \<Rightarrow> u32 \<Rightarrow> u8 list option \<Rightarrow> u8 list option" where
  "copy_buffer junk n src = (case src of None \<Rightarrow> Some (new_buffer junk n) | Some s \<Rightarrow> buf_read 0 (unat n) s)"

definition ClothesIterator_assign :: "(nat \<Rightarrow> u8) \<Rightarrow> citer \<Rightarrow> citer \<Rightarrow> 'd clothes \<Rightarrow> citer option" where
  "ClothesIterator_assign junk another it c = do {
     let it = it\<lparr>ci_fs := ci_fs another, ci_block := ci_block another, ci_index := ci_index another,
                 ci_data_block := ci_data_block another, ci_data_index := ci_data_index another, ci_ok := ci_ok another\<rparr>;
     (if \<not> ci_fs another then Some it
      else do {
        p \<leftarrow> copy_buffer junk (cfs_blocksize c) (ci_parent another);
        d \<leftarrow> copy_buffer junk (cfs_blocksize c) (ci_data another);
        content \<leftarrow> ci_content another;
        x \<leftarrow> copy_buffer junk (cfs_blocksize c) content;
        Some (it\<lparr>ci_parent := Some p, ci_data := Some d, ci_content := Some (Some x)\<rparr>) }) }"

text \<open>The first entry of a metadata block: after the name for types \<open>ty\<close>, else after the identification.\<close>

definition entries_start :: "u8 list \<Rightarrow> bool \<Rightarrow> u32 option" where
  "entries_start data named =
     (if named then do {
        namelen \<leftarrow> dataToNum data (4 + 8) 4;
        Some (align4 (4 + 8 + 4 + namelen)) }
      else Some 4)"

text \<open>In a continuation block the position restarts at 0, the identification of the block.\<close>

definition ClothesIterator_getCurrent :: "citer \<Rightarrow> 'd clothes \<Rightarrow> (bool \<times> citer \<times> 'd clothes) option" where
  "ClothesIterator_getCurrent it c = do {
     parent \<leftarrow> ci_parent it;
     type \<leftarrow> dataToNum parent 2 1;
     (if type = 0 then Some (False, it, c)
      else do {
        start \<leftarrow> entries_start parent (type = ucast META_FILE \<or> type = ucast META_DIR);
        let p = 4 * ci_index it + start;
        (stop, p, it, c) \<leftarrow>
          (if p \<ge> ClothesFS_blockSize c - 4 then do {
             next_block \<leftarrow> dataToNum parent (unat (ClothesFS_blockSize c - 4)) 4;
             (if next_block = 0 then Some (True, p, it, c)
              else do {
                (ok, parent, c) \<leftarrow> ClothesFS_getBlock next_block parent c;
                let it = it\<lparr>ci_parent := Some parent\<rparr>;
                (if \<not> ok then Some (True, p, it, c) else Some (False, 0, it\<lparr>ci_index := 0\<rparr>, c)) }) }
           else Some (False, p, it, c));
        (if stop then Some (False, it, c)
         else do {
           parent \<leftarrow> ci_parent it;
           block \<leftarrow> dataToNum parent (unat p) 4;
           let it = it\<lparr>ci_block := block\<rparr>;
           (if block = 0 then Some (False, it, c)
            else do {
              data \<leftarrow> ci_data it;
              (ok, data, c) \<leftarrow> ClothesFS_getBlock block data c;
              Some (ok, it\<lparr>ci_data := Some data\<rparr>, c) }) }) }) }"

definition ClothesFS_list :: "(nat \<Rightarrow> u8) \<Rightarrow> u32 \<Rightarrow> 'd clothes \<Rightarrow> (citer \<times> 'd clothes) option" where
  "ClothesFS_list junk parent c = do {
     let it = ClothesIterator_new parent 0;
     (if parent = 0 then Some (it, c)
      else do {
        let it = it\<lparr>ci_data := Some (local_block junk c), ci_content := Some (Some (local_block junk c)), ci_fs := True\<rparr>;
        (ok, data, c) \<leftarrow> ClothesFS_getBlock parent (local_block junk c) c;
        let it = it\<lparr>ci_parent := Some data\<rparr>;
        (if \<not> ok then Some (it, c)
         else do {
           (ok, it, c) \<leftarrow> ClothesIterator_getCurrent it c;
           (if \<not> ok then Some (it, c) else Some (it\<lparr>ci_ok := True\<rparr>, c)) }) }) }"

definition ClothesIterator_next :: "citer \<Rightarrow> 'd clothes \<Rightarrow> (bool \<times> citer \<times> 'd clothes) option" where
  "ClothesIterator_next it c = do {
     (ok, it, c) \<leftarrow> ClothesIterator_getCurrent (it\<lparr>ci_index := ci_index it + 1\<rparr>) c;
     Some (ok, it\<lparr>ci_ok := ok, ci_pos := 0, ci_data_block := 0, ci_data_index := 0\<rparr>, c) }"

definition ClothesIterator_nameLen :: "citer \<Rightarrow> u32 option" where
  "ClothesIterator_nameLen it = (case ci_data it of None \<Rightarrow> Some 0 | Some d \<Rightarrow> dataToNum d 12 4)"

definition ClothesIterator_name :: "citer \<Rightarrow> name option" where
  "ClothesIterator_name it =
     (case ci_data it of
        None \<Rightarrow> Some []
      | Some d \<Rightarrow> do { namelen \<leftarrow> ClothesIterator_nameLen it; buf_read 16 (unat namelen) d })"

definition ClothesIterator_size :: "citer \<Rightarrow> u64 option" where
  "ClothesIterator_size it = (case ci_data it of None \<Rightarrow> Some 0 | Some d \<Rightarrow> map_option ucast (dataToNum d 4 8))"

definition ClothesIterator_type :: "citer \<Rightarrow> u8 option" where
  "ClothesIterator_type it =
     (case ci_data it of
        None \<Rightarrow> Some 0
      | Some d \<Rightarrow> do { t \<leftarrow> dataToNum d 2 1; Some (ClothesFS_baseType (ucast t)) })"

text \<open>
  \<^verbatim>\<open>read\<close>: the next payload block is looked up when the iterator is fresh or has reached the end of the current one;
  then bytes are copied up to the end of the block.  \<open>read_block\<close> is the lookup, with the result \<^term>\<open>False\<close> where \<^verbatim>\<open>read\<close>
  returns 0.
\<close>

definition read_block :: "citer \<Rightarrow> 'd clothes \<Rightarrow> (bool \<times> citer \<times> 'd clothes) option" where
  "read_block it c = do {
     data \<leftarrow> ci_data it;
     type \<leftarrow> dataToNum data 2 1;
     start \<leftarrow> entries_start data (type = ucast META_FILE);
     let p = 4 * ci_data_index it + start;
     (stop, p, it, c) \<leftarrow>
       (if p \<ge> ClothesFS_blockSize c - 4 then do {
          next_block \<leftarrow> dataToNum data (unat (ClothesFS_blockSize c - 4)) 4;
          (if next_block = 0 then Some (True, p, it, c)
           else do {
             (ok, data, c) \<leftarrow> ClothesFS_getBlock next_block data c;
             let it = it\<lparr>ci_data := Some data\<rparr>;
             (if \<not> ok then Some (True, p, it, c) else Some (False, 4, it\<lparr>ci_data_index := 0\<rparr>, c)) }) }
        else Some (False, p, it, c));
     (if stop then Some (False, it, c)
      else do {
        data \<leftarrow> ci_data it;
        block \<leftarrow> dataToNum data (unat p) 4;
        let it = it\<lparr>ci_data_block := block\<rparr>;
        (if block = 0 then Some (False, it, c)
         else do {
           content \<leftarrow> Option.bind (ci_content it) (\<lambda>x. x);
           (ok, content, c) \<leftarrow> ClothesFS_getBlock block content c;
           let it = it\<lparr>ci_content := Some (Some content)\<rparr>;
           (if \<not> ok then Some (False, it, c)
            else do {
              magic \<leftarrow> dataToNum content 0 2;
              used \<leftarrow> dataToNum content 2 1;
              (if magic \<noteq> 0x4242 \<or> used \<noteq> ucast PAYLOAD_USED then Some (False, it, c)
               else Some (True, it\<lparr>ci_pos := 4\<rparr>, c)) }) }) }) }"

definition ClothesIterator_read :: "u8 list \<Rightarrow> u64 \<Rightarrow> citer \<Rightarrow> 'd clothes \<Rightarrow> (u64 \<times> u8 list \<times> citer \<times> 'd clothes) option" where
  "ClothesIterator_read buf cnt it c = do {
     data \<leftarrow> ci_data it;
     type \<leftarrow> dataToNum data 2 1;
     (ok, it, c) \<leftarrow>
       (if (ci_pos it = 0 \<and> ci_data_block it = 0) \<or> ci_pos it \<ge> ucast (ClothesFS_blockSize c)
        then read_block it c else Some (True, it, c));
     (if \<not> ok then Some (0, buf, it, c)
      else do {
        let got = (if ci_pos it < ucast (ClothesFS_blockSize c) then min (ucast (ClothesFS_blockSize c) - ci_pos it) cnt else 0);
        content \<leftarrow> Option.bind (ci_content it) (\<lambda>x. x);
        bs \<leftarrow> buf_read (unat (ci_pos it)) (unat got) content;
        buf \<leftarrow> buf_write 0 bs buf;
        Some (got, buf, it\<lparr>ci_pos := ci_pos it + got\<rparr>, c) }) }"

text \<open>The loop of \<^verbatim>\<open>remove\<close>; it ends with the block that is freed last.\<close>

partial_function (option) remove_loop ::
  "(nat \<Rightarrow> u8) \<Rightarrow> u32 \<Rightarrow> u32 \<Rightarrow> citer \<Rightarrow> 'd clothes \<Rightarrow> (u32 \<times> citer \<times> 'd clothes) option" where
  "remove_loop junk p the_block it c = do {
     (stop, p, the_block, it, c) \<leftarrow>
       (if p \<ge> ClothesFS_blockSize c - 4 then do {
          (freed, c) \<leftarrow> ClothesFS_addFreeBlock junk the_block c;
          data \<leftarrow> ci_data it;
          next_block \<leftarrow> dataToNum data (unat (ClothesFS_blockSize c - 4)) 4;
          (if next_block = 0 then Some (True, p, the_block, it, c)
           else do {
             (ok, data, c) \<leftarrow> ClothesFS_getBlock next_block data c;
             let it = it\<lparr>ci_data := Some data\<rparr>;
             (if \<not> ok then Some (True, p, the_block, it, c)
              else Some (False, 4, next_block, it\<lparr>ci_data_index := 0\<rparr>, c)) }) }
        else Some (False, p, the_block, it, c));
     (if stop then Some (the_block, it, c)
      else do {
        data \<leftarrow> ci_data it;
        block \<leftarrow> dataToNum data (unat p) 4;
        let it = it\<lparr>ci_data_block := block\<rparr>;
        (if block = 0 then Some (the_block, it, c)
         else do {
           (freed, c) \<leftarrow> ClothesFS_addFreeBlock junk block c;
           remove_loop junk (p + 4) the_block it c }) }) }"

definition ClothesIterator_remove :: "(nat \<Rightarrow> u8) \<Rightarrow> citer \<Rightarrow> 'd clothes \<Rightarrow> (bool \<times> citer \<times> 'd clothes) option" where
  "ClothesIterator_remove junk it c =
     (case ci_data it of
        None \<Rightarrow> Some (False, it, c)
      | Some data \<Rightarrow> do {
          let it = it\<lparr>ci_pos := 0, ci_data_block := 0, ci_data_index := 0\<rparr>;
          type \<leftarrow> dataToNum data 2 1;
          start \<leftarrow> entries_start data (type = ucast META_FILE \<or> type = ucast META_DIR);
          (the_block, it, c) \<leftarrow> remove_loop junk (4 * ci_data_index it + start) (ci_block it) it c;
          (freed, c) \<leftarrow> ClothesFS_addFreeBlock junk the_block c;
          Some (True, it, c) })"

section \<open>The file system\<close>

text \<open>The object and the kernel state around it: the open files and the iterators on the heap.\<close>

record 'd clothes_fs =
  cf_clothes :: "'d clothes"
  cf_mountpoint :: name
  cf_opts :: name

record 'd clothes_state =
  cs_clothes :: "'d clothes"
  cs_table :: file_table
  cs_iters :: "nat \<rightharpoonup> citer"
  cs_fresh :: nat

definition ClothesFilesystem_new :: "u32 \<Rightarrow> u32 \<Rightarrow> 'd \<Rightarrow> 'd clothes_fs" where
  "ClothesFilesystem_new blocks sectors disc = \<lparr>cf_clothes = ClothesFS_new blocks sectors disc, cf_mountpoint = [], cf_opts = []\<rparr>"

definition ClothesFilesystem_copy :: "'d clothes_fs \<Rightarrow> 'd clothes_fs" where
  "ClothesFilesystem_copy fs = \<lparr>cf_clothes = cf_clothes fs, cf_mountpoint = cf_mountpoint fs, cf_opts = cf_mountpoint fs\<rparr>"

definition ClothesFilesystem_mount :: "name \<Rightarrow> name \<Rightarrow> 'd clothes_fs \<Rightarrow> 'd clothes_fs" where
  "ClothesFilesystem_mount mountpoint options fs = \<lparr>cf_clothes = cf_clothes fs, cf_mountpoint = mountpoint, cf_opts = options\<rparr>"

definition ClothesFilesystem_type :: name where
  "ClothesFilesystem_type = [67, 108, 111, 116, 104, 101, 115, 70, 83]"

definition ClothesFilesystem_setPhysical :: "(nat \<Rightarrow> u8) \<Rightarrow> 'd fsphys option \<Rightarrow> 'd clothes \<Rightarrow> 'd clothes option" where
  "ClothesFilesystem_setPhysical junk phys c = do {
     c \<leftarrow> ClothesFS_setPhysical phys c;
     (detected, c) \<leftarrow> ClothesFS_detect junk c;
     Some c }"

text \<open>
  \<^verbatim>\<open>findFile\<close> lists a directory (\<open>find_start\<close>) and walks it; at a directory on the way it starts again there with the
  next part of the path.  The temporary that \<^verbatim>\<open>list\<close> returns is destroyed after the assignment: for \<open>parent\<close> 0, where
  \<^verbatim>\<open>list\<close> returns before it sets \<^verbatim>\<open>m_content\<close>, that deletes an indeterminate pointer.  The local iterator of a call that
  goes on in a subdirectory is destroyed when that call returns; the destructor reads nothing but the iterator itself, so it
  stands before the recursion here.
\<close>

definition find_start :: "(nat \<Rightarrow> u8) \<Rightarrow> name \<Rightarrow> u32 \<Rightarrow> u32 \<Rightarrow> 'd clothes \<Rightarrow> (citer \<times> 'd clothes) option" where
  "find_start junk path part parent c =
     (if part > Filesystem_pathParts path then Some (ClothesIterator_new 0 0, c)
      else do {
        (l, c) \<leftarrow> ClothesFS_list junk parent c;
        it \<leftarrow> ClothesIterator_assign junk l (ClothesIterator_new 0 0) c;
        _ \<leftarrow> ClothesIterator_destroy l;
        Some (it, c) })"

partial_function (option) find_walk :: "(nat \<Rightarrow> u8) \<Rightarrow> name \<Rightarrow> u32 \<Rightarrow> citer \<Rightarrow> 'd clothes \<Rightarrow> (citer \<times> 'd clothes) option" where
  "find_walk junk path part it c =
     (if \<not> ci_ok it then Some (it, c)
      else do {
        n \<leftarrow> ClothesIterator_name it;
        t \<leftarrow> ClothesIterator_type it;
        let parts = Filesystem_pathParts path;
        (if n = Filesystem_pathPart path part \<and> (part = parts - 1 \<or> part = parts) then Some (it, c)
         else if n = Filesystem_pathPart path part \<and> part < parts - 1 then
           (if t AND META_DIR \<noteq> 0 then do {
              _ \<leftarrow> ClothesIterator_destroy it;
              (it, c) \<leftarrow> find_start junk path (part + 1) (ci_block it) c;
              find_walk junk path (part + 1) it c }
            else Some (it, c))
         else do {
           (ok, it, c) \<leftarrow> ClothesIterator_next it c;
           (if \<not> ok then Some (it, c) else find_walk junk path part it c) }) })"

definition ClothesFilesystem_findFile :: "(nat \<Rightarrow> u8) \<Rightarrow> name \<Rightarrow> u32 \<Rightarrow> u32 \<Rightarrow> 'd clothes \<Rightarrow> (citer \<times> 'd clothes) option" where
  "ClothesFilesystem_findFile junk path part parent c = do {
     (it, c) \<leftarrow> find_start junk path part parent c;
     find_walk junk path part it c }"

definition clothes_errno :: "int \<Rightarrow> 'd clothes_state \<Rightarrow> 'd clothes_state" where
  "clothes_errno e s = s\<lparr>cs_table := (cs_table s)\<lparr>ft_errno := e\<rparr>\<rparr>"

definition ClothesFilesystem_open ::
  "(nat \<Rightarrow> u8) \<Rightarrow> ptr \<Rightarrow> name \<Rightarrow> int \<Rightarrow> 'd clothes_state \<Rightarrow> (int \<times> 'd clothes_state) option" where
  "ClothesFilesystem_open junk this path flags s = do {
     (it, c) \<leftarrow> ClothesFilesystem_findFile junk path 0 1 (cs_clothes s);
     let s = s\<lparr>cs_clothes := c\<rparr>;
     _ \<leftarrow> ClothesIterator_destroy it;
     (if \<not> ci_ok it then Some (- 1, clothes_errno ENOENT s)
      else do {
        t \<leftarrow> ClothesIterator_type it;
        (if t AND META_FILE = 0 then Some (- 1, clothes_errno EPERM s)
         else do {
           data \<leftarrow> ClothesIterator_assign junk it (ClothesIterator_new 0 0) c;
           (res, t) \<leftarrow> Filesystem_mapfile ClothesFilesystem_type path this (Some (cs_fresh s)) (cs_table s);
           Some (res, s\<lparr>cs_table := t, cs_iters := (cs_iters s)(cs_fresh s \<mapsto> data), cs_fresh := Suc (cs_fresh s)\<rparr>) }) }) }"

text \<open>\<^verbatim>\<open>delete\<close> of an iterator runs its destructor.\<close>

definition delete_citer :: "nat \<Rightarrow> 'd clothes_state \<Rightarrow> 'd clothes_state option" where
  "delete_citer a s = do {
     it \<leftarrow> cs_iters s a;
     _ \<leftarrow> ClothesIterator_destroy it;
     Some (s\<lparr>cs_iters := (cs_iters s)(a := None)\<rparr>) }"

definition ClothesFilesystem_close :: "int \<Rightarrow> 'd clothes_state \<Rightarrow> (int \<times> 'd clothes_state) option" where
  "ClothesFilesystem_close fh s = do {
     data \<leftarrow> Filesystem_getCustom fh (cs_table s);
     s \<leftarrow> (case data of None \<Rightarrow> Some s | Some a \<Rightarrow> delete_citer a s);
     (ok, t) \<leftarrow> Filesystem_closefile fh (cs_table s);
     let s = s\<lparr>cs_table := t\<rparr>;
     (if \<not> ok then Some (- 1, clothes_errno EBADF s) else Some (0, s)) }"

definition ClothesFilesystem_read :: "int \<Rightarrow> u8 list \<Rightarrow> u32 \<Rightarrow> 'd clothes_state \<Rightarrow> (int \<times> u8 list \<times> 'd clothes_state) option" where
  "ClothesFilesystem_read fh buf count s = do {
     name \<leftarrow> Filesystem_getName fh (cs_table s);
     data \<leftarrow> Filesystem_getCustom fh (cs_table s);
     (case data of
        None \<Rightarrow> Some (- 1, buf, clothes_errno ENOENT s)
      | Some a \<Rightarrow> do {
          it \<leftarrow> cs_iters s a;
          (n, buf, it, c) \<leftarrow> ClothesIterator_read buf (ucast count) it (cs_clothes s);
          Some (sint (ucast n :: u32), buf, s\<lparr>cs_clothes := c, cs_iters := (cs_iters s)(a \<mapsto> it)\<rparr>) }) }"

text \<open>The operations that the file system refuses.\<close>

definition ClothesFilesystem_truncate :: "name \<Rightarrow> int \<Rightarrow> 'd clothes_state \<Rightarrow> int \<times> 'd clothes_state" where
  "ClothesFilesystem_truncate path len s = (- 1, clothes_errno EPERM s)"

definition ClothesFilesystem_chmod :: "name \<Rightarrow> int \<Rightarrow> 'd clothes_state \<Rightarrow> int \<times> 'd clothes_state" where
  "ClothesFilesystem_chmod path mode s = (- 1, clothes_errno EPERM s)"

definition ClothesFilesystem_getattr :: "name \<Rightarrow> int \<Rightarrow> 'd clothes_state \<Rightarrow> int \<times> 'd clothes_state" where
  "ClothesFilesystem_getattr path handle s = (- 1, clothes_errno EPERM s)"

definition ClothesFilesystem_fseek :: "int \<Rightarrow> int \<Rightarrow> int \<Rightarrow> int \<Rightarrow> 'd clothes_state \<Rightarrow> (int \<times> 'd clothes_state) option" where
  "ClothesFilesystem_fseek fd offs_hi offs_low orig s = do {
     name \<leftarrow> Filesystem_getName fd (cs_table s);
     Some (- 1, clothes_errno EBADF s) }"

definition ClothesFilesystem_write :: "int \<Rightarrow> u8 list \<Rightarrow> u32 \<Rightarrow> 'd clothes_state \<Rightarrow> int \<times> 'd clothes_state" where
  "ClothesFilesystem_write fh buf count s = (- 1, clothes_errno EPERM s)"

definition ClothesFilesystem_symlink :: "name \<Rightarrow> name \<Rightarrow> 'd clothes_state \<Rightarrow> int \<times> 'd clothes_state" where
  "ClothesFilesystem_symlink target linkpath s = (- 1, clothes_errno EPERM s)"

definition ClothesFilesystem_rename :: "name \<Rightarrow> name \<Rightarrow> 'd clothes_state \<Rightarrow> int \<times> 'd clothes_state" where
  "ClothesFilesystem_rename oldpath newpath s = (- 1, clothes_errno EPERM s)"

definition ClothesFilesystem_unlink :: "name \<Rightarrow> 'd clothes_state \<Rightarrow> int \<times> 'd clothes_state" where
  "ClothesFilesystem_unlink path s = (- 1, clothes_errno EPERM s)"

definition ClothesFilesystem_stat :: "int \<Rightarrow> 'd clothes_state \<Rightarrow> int \<times> 'd clothes_state" where
  "ClothesFilesystem_stat fd s = (- 1, s)"

definition ClothesFilesystem_flush :: "int \<Rightarrow> 'd clothes_state \<Rightarrow> int \<times> 'd clothes_state" where
  "ClothesFilesystem_flush fd s = (0, s)"

definition ClothesFilesystem_opendir :: "name \<Rightarrow> ptr" where
  "ClothesFilesystem_opendir name = nullptr"

definition ClothesFilesystem_readdir :: "ptr \<Rightarrow> ptr" where
  "ClothesFilesystem_readdir dir = nullptr"

definition ClothesFilesystem_closedir :: "ptr \<Rightarrow> int" where
  "ClothesFilesystem_closedir dir = - 1"

definition ClothesFilesystem_mkdir :: "name \<Rightarrow> int \<Rightarrow> 'd clothes_state \<Rightarrow> int \<times> 'd clothes_state" where
  "ClothesFilesystem_mkdir path mode s = (- 1, clothes_errno EPERM s)"

definition ClothesFilesystem_rmdir :: "name \<Rightarrow> 'd clothes_state \<Rightarrow> int \<times> 'd clothes_state" where
  "ClothesFilesystem_rmdir path s = (- 1, clothes_errno EPERM s)"

section \<open>Directories as lists of entries\<close>

definition block_name :: "u8 list \<Rightarrow> name" where
  "block_name b = slice 16 (unat (u32_at b 12)) b"

definition entries_of :: "u8 list \<Rightarrow> u32 list" where
  "entries_of b = takeWhile (\<lambda>e. e \<noteq> 0)
     (map (\<lambda>i. u32_at b (entry_start (unat (u32_at b 12)) + 4 * i)) [0..<capacity (unat (u32_at b 12))])"

lemma meta_rep_name: "meta_rep t nm es b \<Longrightarrow> block_name b = nm"
  using meta_rep_name_length(4) [of t nm es b] by (simp add: block_name_def meta_rep_def)

lemma meta_rep_entries:
  assumes "meta_rep t nm es b"
  shows "entries_of b = es"
proof -
  have n: "unat (u32_at b 12) = length nm"
    using meta_rep_name_length(4) [OF assms] assms by (simp add: meta_rep_def)
  have l: "length es \<le> capacity (length nm)" "\<forall>e \<in> set es. e \<noteq> 0"
    using assms by (auto simp: meta_rep_def)
  have "map (\<lambda>i. u32_at b (entry_start (length nm) + 4 * i)) [0..<capacity (length nm)] = es @ replicate (capacity (length nm) - length es) 0"
    using assms l(1) by (intro nth_equalityI) (auto simp: meta_rep_def nth_append)
  then have "entries_of b = takeWhile (\<lambda>e. e \<noteq> 0) (es @ replicate (capacity (length nm) - length es) 0)"
    by (simp add: entries_of_def n)
  also have "\<dots> = es"
    using l(2) by (cases "capacity (length nm) - length es") (auto simp: takeWhile_append2)
  finally show ?thesis .
qed

text \<open>Every entry of a directory is a directory or a file whose blocks are on the disc.\<close>

definition entry_ok :: "u8 list list \<Rightarrow> nat \<Rightarrow> bool" where
  "entry_ok D b \<longleftrightarrow> 0 < b \<and> b < length D \<and>
     ((\<exists>nm es. meta_rep META_DIR nm es (D ! b)) \<or> (\<exists>nm xs bs. file_on D b nm xs bs \<and> (\<forall>x \<in> set bs. 0 < x \<and> x < length D)))"

definition tree_ok :: "u8 list list \<Rightarrow> bool" where
  "tree_ok D \<longleftrightarrow> (\<forall>b nm es. 0 < b \<and> b < length D \<and> meta_rep META_DIR nm es (D ! b) \<longrightarrow> (\<forall>e \<in> set es. entry_ok D (unat e)))"

lemma entry_okI_dir: "meta_rep META_DIR nm es (D ! b) \<Longrightarrow> 0 < b \<Longrightarrow> b < length D \<Longrightarrow> entry_ok D b"
  by (auto simp: entry_ok_def)

lemma entry_okI_file:
  "file_on D b nm xs bs \<Longrightarrow> \<forall>x \<in> set bs. 0 < x \<and> x < length D \<Longrightarrow> 0 < b \<Longrightarrow> b < length D \<Longrightarrow> entry_ok D b"
  unfolding entry_ok_def by blast

lemma entry_ok_cases:
  assumes "entry_ok D b"
  obtains nm es where "meta_rep META_DIR nm es (D ! b)" "0 < b" "b < length D"
  | nm xs bs where "file_on D b nm xs bs" "\<forall>x \<in> set bs. 0 < x \<and> x < length D" "0 < b" "b < length D"
  using assms unfolding entry_ok_def by blast

lemma entry_ok_rep: "entry_ok D b \<Longrightarrow> \<exists>t nm es. meta_rep t nm es (D ! b) \<and> (t = META_FILE \<or> t = META_DIR)"
  unfolding entry_ok_def file_on_def by blast

definition citer_at :: "u8 list list \<Rightarrow> nat \<Rightarrow> u32 list \<Rightarrow> nat \<Rightarrow> citer \<Rightarrow> bool" where
  "citer_at D d es i it \<longleftrightarrow> ci_ok it \<and> ci_fs it \<and> i < length es \<and> ci_index it = of_nat i \<and> ci_block it = es ! i \<and>
     ci_parent it = Some (D ! d) \<and> length (D ! d) = 512 \<and> ci_data it = Some (D ! unat (es ! i)) \<and> (\<exists>x. ci_content it = Some (Some x) \<and> length x = 512) \<and>
     ci_pos it = 0 \<and> ci_data_block it = 0 \<and> ci_data_index it = 0"

lemma capacity_end: "entry_start n \<le> 508 \<Longrightarrow> entry_start n + 4 * capacity n = 508"
  using entry_start_bounds(4) [of n] unfolding capacity_def by presburger

lemma entries_start_rep:
  assumes "meta_rep t nm es b"
  shows "entries_start b True = Some (of_nat (entry_start (length nm)))"
  using meta_rep_name_length [OF assms] align4_name(2) [of "length nm"] by (simp add: entries_start_def)

context sector_device
begin

lemma getCurrent_on:
  assumes "clothes_on p ok disc c D" "d < length D" "meta_rep META_DIR dn es (D ! d)" "i \<le> length es"
    "\<And>e. e \<in> set es \<Longrightarrow> unat e < length D"
    "ci_parent it = Some (D ! d)" "ci_index it = of_nat i" "ci_data it = Some x" "length x = 512"
  obtains (entry) c' where "i < length es" "clothes_on p ok disc c' D"
    "ClothesIterator_getCurrent it c = Some (True, it\<lparr>ci_block := es ! i, ci_data := Some (D ! unat (es ! i))\<rparr>, c')"
  | (stop) it' where "i = length es" "ClothesIterator_getCurrent it c = Some (False, it', c)" "it' = it \<or> it' = it\<lparr>ci_block := 0\<rparr>"
proof -
  let ?b = "D ! d" and ?e = "entry_start (length dn)"
  let ?q = "4 * of_nat i + of_nat ?e :: u32"
  have b: "length ?b = 512" "length es \<le> capacity (length dn)" "0 \<notin> set es" "u32_at ?b 508 = 0"
    "\<And>j. j < capacity (length dn) \<Longrightarrow> u32_at ?b (?e + 4 * j) = (if j < length es then es ! j else 0)"
    using assms(3) by (auto simp: meta_rep_def)
  have e: "?e \<le> 508" "?e + 4 * capacity (length dn) = 508"
    using meta_rep_name_length(3) [OF assms(3)] capacity_end by auto
  have q: "?q = of_nat (?e + 4 * i)"
    by simp
  have "?e + 4 * i \<le> 508"
    using e b(2) assms(4) by linarith
  then have uq: "unat ?q = ?e + 4 * i"
    unfolding q by (intro unat_of_nat_u32) simp
  have ty: "dataToNum ?b 2 1 = Some (ucast META_DIR)" "entries_start ?b True = Some (of_nat ?e)"
    using meta_rep_bytes(5) [OF assms(3)] entries_start_rep [OF assms(3)] by auto
  have bs: "ClothesFS_blockSize c - 4 = 508"
    using clothes_on_blocksize [OF assms(1)] by (simp add: ClothesFS_blockSize_def)
  have n508: "unat (508 :: u32) = 508"
    by simp
  note gc = ClothesIterator_getCurrent_def Let_def bs assms(6,7)
  have md: "(ucast META_DIR :: u32) \<noteq> 0" "(ucast META_DIR :: u32) = ucast META_FILE \<or> (ucast META_DIR :: u32) = ucast META_DIR"
    by (simp_all add: META_DIR_def)
  show thesis
  proof (cases "i < length es")
    case True
    then have l: "?e + 4 * i + 4 \<le> 508" "i < capacity (length dn)"
      using capacity_slot [of i "length dn"] b(2) by auto
    then have g: "\<not> ?q \<ge> 508"
      using uq n508 by (simp add: word_le_nat_alt del: unat_numeral)
    have w: "u32_at ?b (?e + 4 * i) = es ! i" "es ! i \<noteq> 0" "unat (es ! i) < length D"
    proof -
      have "es ! i \<in> set es"
        using True by simp
      then show "es ! i \<noteq> 0" "unat (es ! i) < length D"
        using b(3) assms(5) by metis+
      show "u32_at ?b (?e + 4 * i) = es ! i"
        using b(5) l(2) True by simp
    qed
    obtain c' where c': "ClothesFS_getBlock (es ! i) x c = Some (True, D ! unat (es ! i), c')" "clothes_on p ok disc c' D"
      by (rule getBlock_on [OF assms(1) w(3) assms(9)])
    have d: "dataToNum ?b (?e + 4 * i) 4 = Some (es ! i)"
      using b(1) l(1) w(1) by (simp add: dataToNum_u32)
    have "ClothesIterator_getCurrent it c = Some (True, it\<lparr>ci_block := es ! i, ci_data := Some (D ! unat (es ! i))\<rparr>, c')"
      using ty g uq w d c'(1) md assms(8) by (simp add: gc)
    then show thesis
      by (rule entry [OF True c'(2)])
  next
    case False
    then have i: "i = length es"
      using assms(4) by simp
    show thesis
    proof (cases "i = capacity (length dn)")
      case True
      then have g: "?q \<ge> 508"
        using uq e n508 by (simp add: word_le_nat_alt del: unat_numeral)
      have z: "dataToNum ?b 508 4 = Some 0"
        using b(1,4) by (simp add: dataToNum_u32)
      have "ClothesIterator_getCurrent it c = Some (False, it, c)"
        using ty z g md by (simp add: gc)
      then show thesis
        by (rule stop [OF i]) simp
    next
      case False
      then have l: "?e + 4 * i + 4 \<le> 508" "i < capacity (length dn)"
        using capacity_slot [of i "length dn"] i b(2) by auto
      then have g: "\<not> ?q \<ge> 508"
        using uq n508 by (simp add: word_le_nat_alt del: unat_numeral)
      have z: "dataToNum ?b (?e + 4 * i) 4 = Some 0"
        using b(1,5) l i by (simp add: dataToNum_u32)
      have "ClothesIterator_getCurrent it c = Some (False, it\<lparr>ci_block := 0\<rparr>, c)"
        using ty z g uq md by (simp add: gc)
      then show thesis
        by (rule stop [OF i]) simp
    qed
  qed
qed

end

section \<open>Looking up a path\<close>

text \<open>
  What resolving a path means: \<open>path_lookup D d ns\<close> follows the names \<open>ns\<close> from the directory in block \<open>d\<close>, each name but
  the last to a directory, and gives the entry with the last name.  It says nothing of the code.
\<close>

definition entry_named :: "u8 list list \<Rightarrow> nat \<Rightarrow> name \<Rightarrow> u32 option" where
  "entry_named D d n = find (\<lambda>e. block_name (D ! unat e) = n) (entries_of (D ! d))"

fun path_lookup :: "u8 list list \<Rightarrow> nat \<Rightarrow> name list \<Rightarrow> u32 option" where
  "path_lookup D d [] = None"
| "path_lookup D d [n] = entry_named D d n"
| "path_lookup D d (n # m # ns) =
     (case entry_named D d n of
        None \<Rightarrow> None
      | Some e \<Rightarrow> if D ! unat e ! 2 = META_DIR then path_lookup D (unat e) (m # ns) else None)"

text \<open>
  What the code searches: \<open>resolve\<close> takes the first entry of the directory with the name of part number \<open>part\<close>.  It
  ends one part before the last if the path has more than one, and at an entry that is no directory.  The relation of the two is
  \<open>resolve_path_lookup\<close> below.
\<close>

function resolve :: "u8 list list \<Rightarrow> name \<Rightarrow> u32 \<Rightarrow> nat \<Rightarrow> u32 option" where
  "resolve D path part d =
     (case find (\<lambda>e. block_name (D ! unat e) = Filesystem_pathPart path part) (entries_of (D ! d)) of
        None \<Rightarrow> None
      | Some e \<Rightarrow>
          if part < Filesystem_pathParts path - 1 \<and> part < Filesystem_pathParts path \<and> D ! unat e ! 2 = META_DIR
          then resolve D path (part + 1) (unat e) else Some e)"
  by pat_completeness auto

lemma part_measure: "(k :: u32) < n \<Longrightarrow> unat n - unat (k + 1) < unat n - unat k"
proof -
  assume "k < n"
  then have l: "unat k < unat n"
    by (simp add: word_less_nat_alt)
  then have "unat k + 1 < 2 ^ 32"
    using unat_u32_less [of n] by simp
  then have "unat (k + 1) = unat k + 1"
    using unat_plus_eq [of k 1] by simp
  then show ?thesis
    using l by simp
qed

termination resolve
  by (relation "measure (\<lambda>(D, path, part, d). unat (Filesystem_pathParts path) - unat part)") (auto simp: part_measure)

declare resolve.simps [simp del]

context sector_device
begin

lemma next_on:
  assumes "clothes_on p ok disc c D" "d < length D" "meta_rep META_DIR dn es (D ! d)" "\<And>e. e \<in> set es \<Longrightarrow> unat e < length D"
    "citer_at D d es i it"
  obtains (entry) it' c' where "ClothesIterator_next it c = Some (True, it', c')" "citer_at D d es (Suc i) it'" "clothes_on p ok disc c' D"
  | (stop) it' where "Suc i = length es" "ClothesIterator_next it c = Some (False, it', c)" "\<not> ci_ok it'" "ci_content it' \<noteq> None"
proof -
  let ?it = "it\<lparr>ci_index := ci_index it + 1\<rparr>"
  have it: "ci_parent ?it = Some (D ! d)" "ci_index ?it = of_nat (Suc i)" "ci_data ?it = Some (D ! unat (es ! i))" "Suc i \<le> length es"
    "ci_fs it" "ci_content it \<noteq> None" "\<exists>x. ci_content it = Some (Some x) \<and> length x = 512" "i < length es"
    using assms(5) by (auto simp: citer_at_def)
  have l: "length (D ! unat (es ! i)) = 512"
    using block_length [OF assms(1)] assms(4) nth_mem [OF it(8)] by blast
  show thesis
  proof (rule getCurrent_on [OF assms(1,2,3) it(4) assms(4) it(1-3) l])
    fix c'
    assume a: "Suc i < length es" "clothes_on p ok disc c' D" "ClothesIterator_getCurrent ?it c =
        Some (True, ?it\<lparr>ci_block := es ! Suc i, ci_data := Some (D ! unat (es ! Suc i))\<rparr>, c')"
    let ?it' = "?it\<lparr>ci_block := es ! Suc i, ci_data := Some (D ! unat (es ! Suc i)), ci_ok := True, ci_pos := 0,
        ci_data_block := 0, ci_data_index := 0\<rparr>"
    have "ClothesIterator_next it c = Some (True, ?it', c')"
      using a(3) by (simp add: ClothesIterator_next_def)
    moreover have "citer_at D d es (Suc i) ?it'"
      using a(1) it meta_rep_length [OF assms(3)] by (simp add: citer_at_def)
    ultimately show thesis
      using a(2) by (rule entry)
  next
    fix it'
    assume a: "Suc i = length es" "ClothesIterator_getCurrent ?it c = Some (False, it', c)" "it' = ?it \<or> it' = ?it\<lparr>ci_block := 0\<rparr>"
    have "ClothesIterator_next it c = Some (False, it'\<lparr>ci_ok := False, ci_pos := 0, ci_data_block := 0, ci_data_index := 0\<rparr>, c)"
      using a(2) by (simp add: ClothesIterator_next_def)
    then show thesis
      by (rule stop [OF a(1)]) (use a(3) it(6) in auto)
  qed
qed

lemma find_start_on:
  assumes "clothes_on p ok disc c D" "unat d < length D" "d \<noteq> 0" "meta_rep META_DIR dn es (D ! unat d)" "\<And>e. e \<in> set es \<Longrightarrow> unat e < length D"
    "part \<le> Filesystem_pathParts path"
  obtains it c' where "find_start junk path part d c = Some (it, c')" "clothes_on p ok disc c' D" "ci_content it \<noteq> None"
    "if es = [] then \<not> ci_ok it else citer_at D (unat d) es 0 it"
proof -
  let ?lb = "local_block junk c"
  let ?it = "(ClothesIterator_new d 0)\<lparr>ci_data := Some ?lb, ci_content := Some (Some ?lb), ci_fs := True, ci_parent := Some (D ! unat d)\<rparr>"
  note result = that
  have l: "length ?lb = 512" "length (D ! unat d) = 512"
    using length_local_block [OF assms(1)] block_length [OF assms(1,2)] by auto
  obtain c1 where c1: "ClothesFS_getBlock d ?lb c = Some (True, D ! unat d, c1)" "clothes_on p ok disc c1 D"
    by (rule getBlock_on [OF assms(1,2) l(1)])
  have fin: thesis
    if a: "ClothesIterator_getCurrent ?it c1 = Some (okk, i1, c2)" "clothes_on p ok disc c2 D" "ci_fs i1" "ci_parent i1 = Some (D ! unat d)"
      "ci_data i1 = Some x" "length x = 512" "ci_content i1 = Some (Some ?lb)" "\<not> ci_ok i1" "ci_data_block i1 = 0" "ci_data_index i1 = 0"
      "okk \<longleftrightarrow> es \<noteq> []" "okk \<Longrightarrow> ci_index i1 = 0 \<and> ci_block i1 = es ! 0 \<and> x = D ! unat (es ! 0)" for okk i1 c2 x
  proof -
    have bs: "unat (cfs_blocksize c2) = 512"
      using clothes_on_blocksize [OF a(2)] by simp
    let ?j = "(ClothesIterator_new 0 0)\<lparr>ci_fs := True, ci_block := ci_block i1, ci_index := ci_index i1, ci_ok := okk,
      ci_parent := Some (D ! unat d), ci_data := Some x, ci_content := Some (Some ?lb)\<rparr>"
    have "ClothesFS_list junk d c = Some (if okk then i1\<lparr>ci_ok := True\<rparr> else i1, c2)"
      using c1(1) a(1) assms(3) by (simp add: ClothesFS_list_def Let_def)
    moreover have "ClothesIterator_assign junk (if okk then i1\<lparr>ci_ok := True\<rparr> else i1) (ClothesIterator_new 0 0) c2 = Some ?j"
      using a(3-10) bs l by (simp add: ClothesIterator_assign_def copy_buffer_def buf_read_def ClothesIterator_new_def)
    moreover have "ClothesIterator_destroy (if okk then i1\<lparr>ci_ok := True\<rparr> else i1) = Some ()"
      using a(7) by (simp add: ClothesIterator_destroy_def)
    ultimately have "find_start junk path part d c = Some (?j, c2)"
      using assms(6) by (simp add: find_start_def)
    then show thesis
      using a(2) by (rule result) (use a(11,12) l in \<open>auto simp: citer_at_def ClothesIterator_new_def\<close>)
  qed
  show thesis
  proof (rule getCurrent_on [OF c1(2) assms(2,4) le0 assms(5) _ _ _ l(1), of ?it])
    fix c'
    assume "0 < length es" "clothes_on p ok disc c' D"
      "ClothesIterator_getCurrent ?it c1 = Some (True, ?it\<lparr>ci_block := es ! 0, ci_data := Some (D ! unat (es ! 0))\<rparr>, c')"
    moreover from this have "length (D ! unat (es ! 0)) = 512"
      using block_length [OF assms(1)] assms(5) nth_mem by blast
    ultimately show thesis
      by (intro fin [of True "?it\<lparr>ci_block := es ! 0, ci_data := Some (D ! unat (es ! 0))\<rparr>" c']) (auto simp: ClothesIterator_new_def)
  next
    fix it'
    assume "0 = length es" "ClothesIterator_getCurrent ?it c1 = Some (False, it', c1)" "it' = ?it \<or> it' = ?it\<lparr>ci_block := 0\<rparr>"
    then show thesis
      using c1(2) l by (intro fin [of False it' c1]) (auto simp: ClothesIterator_new_def)
  qed (auto simp: ClothesIterator_new_def)
qed

end

lemma last_parts: "(k :: u32) \<le> n \<Longrightarrow> (k = n - 1 \<or> k = n) \<longleftrightarrow> \<not> (k < n - 1 \<and> k < n)"
proof (cases "n = 0")
  case False
  assume k: "k \<le> n"
  have "1 \<le> unat n"
    using False unat_gt_0 [of n] by simp
  then have "unat (n - 1) = unat n - 1"
    using unat_minus_eq [of 1 n] by simp
  then show ?thesis
    using k \<open>1 \<le> unat n\<close> by (auto simp: word_le_nat_alt word_less_nat_alt unsigned_word_eqI word_unat_eq_iff)
qed simp

lemma citer_at_name:
  assumes "citer_at D d es i it" "meta_rep t nm xs (D ! unat (es ! i))" "t = META_FILE \<or> t = META_DIR"
  shows "ClothesIterator_name it = Some (block_name (D ! unat (es ! i)))" "ClothesIterator_type it = Some t"
proof -
  let ?b = "D ! unat (es ! i)"
  have l: "length ?b = 512" "16 + length nm \<le> 512"
    using meta_rep_length [OF assms(2)] meta_rep_name_length(3) [OF assms(2)] entry_start_bounds(1) [of "length nm"] by auto
  show "ClothesIterator_name it = Some (block_name ?b)"
    using assms(1) l meta_rep_name_length(1,4) [OF assms(2)]
    by (simp add: citer_at_def ClothesIterator_name_def ClothesIterator_nameLen_def buf_read_slice meta_rep_name [OF assms(2)])
      (use assms(2) in \<open>simp add: meta_rep_def\<close>)
  have "ClothesFS_baseType (ucast (ucast t :: u32)) = t"
    using assms(3) by (auto simp: ClothesFS_baseType_def META_FILE_def META_DIR_def META_FILE_CONT_def META_DIR_CONT_def)
  then show "ClothesIterator_type it = Some t"
    using assms(1) meta_rep_bytes(5) [OF assms(2)] by (simp add: citer_at_def ClothesIterator_type_def)
qed

context sector_device
begin

lemma walk_to:
  assumes "clothes_on p ok disc c D" "d < length D" "meta_rep META_DIR dn es (D ! d)" "\<And>e. e \<in> set es \<Longrightarrow> entry_ok D (unat e)"
    "citer_at D d es i it" "part \<le> Filesystem_pathParts path"
  shows "case find (\<lambda>e. block_name (D ! unat e) = Filesystem_pathPart path part) (drop i es) of
      None \<Rightarrow> \<exists>it' c'. find_walk junk path part it c = Some (it', c') \<and> \<not> ci_ok it' \<and> ci_content it' \<noteq> None \<and> clothes_on p ok disc c' D
    | Some e \<Rightarrow> \<exists>j it' c'. find_walk junk path part it c = find_walk junk path part it' c' \<and> citer_at D d es j it' \<and> es ! j = e \<and> clothes_on p ok disc c' D"
  using assms(1,5)
proof (induction "length es - i" arbitrary: i it c)
  case 0
  then show ?case
    by (simp add: citer_at_def)
next
  case (Suc m)
  let ?P = "\<lambda>e. block_name (D ! unat e) = Filesystem_pathPart path part"
  have i: "i < length es" "ci_ok it"
    using Suc.prems(2) by (auto simp: citer_at_def)
  then have dr: "drop i es = es ! i # drop (Suc i) es"
    by (simp add: Cons_nth_drop_Suc)
  have el: "unat e < length D" if "e \<in> set es" for e
    using assms(4) [OF that] by (simp add: entry_ok_def)
  obtain t nm xs where t: "meta_rep t nm xs (D ! unat (es ! i))" "t = META_FILE \<or> t = META_DIR"
    using entry_ok_rep assms(4) [of "es ! i"] i(1) nth_mem by blast
  note nt = citer_at_name [OF Suc.prems(2) t]
  show ?case
  proof (cases "?P (es ! i)")
    case True
    then show ?thesis
      using Suc.prems dr by auto
  next
    case False
    have w: "find_walk junk path part it c = Option.bind (ClothesIterator_next it c)
        (\<lambda>(ok, it, c). if \<not> ok then Some (it, c) else find_walk junk path part it c)"
      using i(2) nt False by (subst find_walk.simps) (simp add: Let_def)
    have m: "m = length es - Suc i"
      using Suc.hyps(2) by simp
    show ?thesis
    proof (rule next_on [OF Suc.prems(1) assms(2,3) el Suc.prems(2)])
      fix it' c'
      assume a: "ClothesIterator_next it c = Some (True, it', c')" "citer_at D d es (Suc i) it'" "clothes_on p ok disc c' D"
      then have "find_walk junk path part it c = find_walk junk path part it' c'"
        using w by simp
      then show ?thesis
        using Suc.hyps(1) [OF m a(3,2)] dr False by (simp split: option.splits)
    next
      fix it'
      assume a: "Suc i = length es" "ClothesIterator_next it c = Some (False, it', c)" "\<not> ci_ok it'" "ci_content it' \<noteq> None"
      then show ?thesis
        using w dr False Suc.prems(1) by simp
    qed
  qed
qed

lemma findFile_on:
  assumes "tree_ok D" "clothes_on p ok disc c D" "unat d < length D" "d \<noteq> 0" "meta_rep META_DIR dn es (D ! unat d)"
    "part \<le> Filesystem_pathParts path"
  shows "\<exists>it c'. ClothesFilesystem_findFile junk path part d c = Some (it, c') \<and> clothes_on p ok disc c' D \<and> ci_content it \<noteq> None \<and>
    (case resolve D path part (unat d) of None \<Rightarrow> \<not> ci_ok it | Some e \<Rightarrow> entry_ok D (unat e) \<and> (\<exists>d' es' j. citer_at D d' es' j it \<and> es' ! j = e))"
  using assms(2-6)
proof (induction "unat (Filesystem_pathParts path) - unat part" arbitrary: part d dn es c rule: less_induct)
  case less
  let ?P = "\<lambda>e. block_name (D ! unat e) = Filesystem_pathPart path part"
  let ?more = "part < Filesystem_pathParts path - 1 \<and> part < Filesystem_pathParts path"
  have eo: "entry_ok D (unat e)" if "e \<in> set es" for e
  proof -
    have "0 < unat d"
      using less.prems(3) by (simp add: unat_gt_0)
    then show ?thesis
      using assms(1) less.prems(2,4) that unfolding tree_ok_def by blast
  qed
  then have el: "unat e < length D" if "e \<in> set es" for e
    using that by (auto simp: entry_ok_def)
  obtain it c1 where s: "find_start junk path part d c = Some (it, c1)" "clothes_on p ok disc c1 D" "ci_content it \<noteq> None"
    "if es = [] then \<not> ci_ok it else citer_at D (unat d) es 0 it"
    by (rule find_start_on [OF less.prems(1-4) el less.prems(5), of junk])
  have ff: "ClothesFilesystem_findFile junk path part d c = find_walk junk path part it c1"
    using s(1) by (simp add: ClothesFilesystem_findFile_def)
  have re: "resolve D path part (unat d) = (case find ?P es of None \<Rightarrow> None
      | Some e \<Rightarrow> if ?more \<and> D ! unat e ! 2 = META_DIR then resolve D path (part + 1) (unat e) else Some e)"
    by (simp add: resolve.simps [of D path part "unat d"] meta_rep_entries [OF less.prems(4)] split: option.split)
  show ?case
  proof (cases "es = []")
    case True
    then have "find_walk junk path part it c1 = Some (it, c1)"
      using s(4) by (simp add: find_walk.simps)
    then show ?thesis
      using s(2-4) True ff re by simp
  next
    case False
    then have at: "citer_at D (unat d) es 0 it"
      using s(4) by simp
    note w = walk_to [OF s(2) less.prems(2,4) eo at less.prems(5), of junk]
    show ?thesis
    proof (cases "find ?P es")
      case None
      then show ?thesis
        using w ff re by auto
    next
      case (Some e)
      obtain j it' c' where j: "find_walk junk path part it c1 = find_walk junk path part it' c'" "citer_at D (unat d) es j it'" "es ! j = e"
        "clothes_on p ok disc c' D"
        using w Some by auto
      have e: "e \<in> set es" "?P e"
        using Some by (auto simp: find_Some_iff)
      obtain t nm xs where t: "meta_rep t nm xs (D ! unat (es ! j))" "t = META_FILE \<or> t = META_DIR"
        using entry_ok_rep [OF eo [OF e(1)]] j(3) by blast
      note nt = citer_at_name [OF j(2) t]
      have ok: "ci_ok it'" "ci_block it' = e" "ci_content it' \<noteq> None"
        using j(2,3) by (auto simp: citer_at_def)
      have ty: "D ! unat e ! 2 = t" "t AND META_DIR \<noteq> 0 \<longleftrightarrow> t = META_DIR"
        using meta_rep_bytes(3) [OF t(1)] j(3) t(2) by (auto simp: META_FILE_def META_DIR_def)
      show ?thesis
      proof (cases "?more \<and> t = META_DIR")
        case False
        then have "find_walk junk path part it' c' = Some (it', c')"
          using ok(1) nt j(3) e(2) ty(2) last_parts [OF less.prems(5)] by (subst find_walk.simps) (auto simp: Let_def)
        then show ?thesis
          using ff j re Some False ty(1) eo [OF e(1)] ok(3) by auto
      next
        case True
        have n: "part + 1 \<le> Filesystem_pathParts path"
          using True by (metis inc_le)
        have "find_walk junk path part it' c' = ClothesFilesystem_findFile junk path (part + 1) e c'"
          using ok nt j(3) e(2) ty(2) last_parts [OF less.prems(5)] True
          by (subst find_walk.simps) (auto simp: Let_def ClothesFilesystem_findFile_def ClothesIterator_destroy_def)
        moreover have "unat (Filesystem_pathParts path) - unat (part + 1) < unat (Filesystem_pathParts path) - unat part"
          using True by (intro part_measure) simp
        moreover have "unat e < length D" "e \<noteq> 0"
          using eo [OF e(1)] by (auto simp: entry_ok_def)
        moreover have "meta_rep META_DIR nm xs (D ! unat e)"
          using t(1) True j(3) by simp
        ultimately show ?thesis
          using less.hyps [of "part + 1" c' e nm xs] j(1,4) n ff re Some True ty(1) by simp
      qed
    qed
  qed
qed

end

section \<open>Reading a file\<close>

text \<open>The bytes of the first payload block: the first 508 bytes of the file, filled up with zeros.\<close>

definition first_payload :: "u8 list list \<Rightarrow> nat \<Rightarrow> u8 list" where
  "first_payload D b = drop 4 (D ! unat (hd (entries_of (D ! b))))"

text \<open>The iterator has delivered \<open>k\<close> bytes of the first payload block of the file in block \<open>b\<close>.\<close>

definition creading :: "u8 list list \<Rightarrow> nat \<Rightarrow> nat \<Rightarrow> citer \<Rightarrow> bool" where
  "creading D b k it \<longleftrightarrow> k \<le> 508 \<and> ci_fs it \<and> ci_data it = Some (D ! b) \<and> ci_data_index it = 0 \<and>
     (\<exists>x. ci_content it = Some (Some x) \<and> length x = 512 \<and>
       (k = 0 \<and> ci_pos it = 0 \<and> ci_data_block it = 0 \<or> ci_pos it = of_nat (4 + k) \<and> drop 4 x = first_payload D b))"

definition blocks_on :: "u8 list list \<Rightarrow> nat list \<Rightarrow> bool" where
  "blocks_on D bs \<longleftrightarrow> length D < 2 ^ 32 \<and> (\<forall>x \<in> set bs. 0 < x \<and> x < length D)"

lemma file_first:
  assumes "file_on D b nm xs bs" "blocks_on D bs"
  obtains x where "hd (entries_of (D ! b)) = of_nat x" "unat (of_nat x :: u32) = x" "(of_nat x :: u32) \<noteq> 0" "x < length D"
    "D ! x = data_block (hd (file_blocks xs))" "u32_at (D ! b) (entry_start (length nm)) = of_nat x" "entry_start (length nm) + 4 \<le> 508"
    "first_payload D b = drop 4 (D ! x)"
proof -
  have m: "meta_rep META_FILE nm (map of_nat bs) (D ! b)" and bs: "bs \<noteq> []" "D ! (bs ! 0) = data_block (file_blocks xs ! 0)"
    using assms(1) by (auto simp: file_on_def)
  let ?x = "bs ! 0"
  have "0 < ?x" "?x < length D" "length D < 2 ^ 32"
    using assms(2) nth_mem [of 0 bs] bs(1) by (auto simp: blocks_on_def)
  then have x: "0 < ?x" "?x < length D" "unat (of_nat ?x :: u32) = ?x"
    using unat_of_nat_u32 [of ?x] by linarith+
  then have "(of_nat ?x :: u32) \<noteq> 0"
    by (metis less_irrefl unat_0)
  have c: "0 < capacity (length nm)"
    using m bs(1) by (auto simp: meta_rep_def)
  have "hd (entries_of (D ! b)) = of_nat ?x"
    using bs(1) by (simp add: meta_rep_entries [OF m] hd_map hd_conv_nth)
  moreover have "u32_at (D ! b) (entry_start (length nm)) = of_nat ?x"
    using m c bs(1) unfolding meta_rep_def by force
  moreover have "file_blocks xs ! 0 = hd (file_blocks xs)"
    by (simp add: hd_conv_nth)
  ultimately show thesis
    using x \<open>of_nat ?x \<noteq> 0\<close> capacity_slot [OF c] bs(2) by (intro that [of ?x]) (simp_all add: first_payload_def)
qed

lemma length_data_block: "x \<in> set (file_blocks xs) \<Longrightarrow> length x \<le> 508"
  by (induction xs rule: file_blocks.induct) (subst (asm) (2) file_blocks.simps, auto split: if_splits)

lemma first_payload_file:
  assumes "file_on D b nm xs bs" "blocks_on D bs"
  shows "first_payload D b = take 508 (xs @ replicate 508 0)" "length (first_payload D b) = 508"
proof -
  let ?h = "hd (file_blocks xs)"
  obtain x where x: "D ! x = data_block ?h" "first_payload D b = drop 4 (D ! x)"
    by (rule file_first [OF assms]) blast
  have "?h = take 508 xs"
    by (subst file_blocks.simps) auto
  then show "first_payload D b = take 508 (xs @ replicate 508 0)" "length (first_payload D b) = 508"
    using x by (auto simp: data_block_def min_def)
qed

context sector_device
begin

lemma read_block_on:
  assumes "clothes_on p ok disc c D" "file_on D b nm xs bs" "blocks_on D bs" "ci_data it = Some (D ! b)" "ci_data_index it = 0"
    "ci_content it = Some (Some y)" "length y = 512"
  obtains c' x n where "read_block it c = Some (True, it\<lparr>ci_data_block := n, ci_content := Some (Some x), ci_pos := 4\<rparr>, c')"
    "length x = 512" "drop 4 x = first_payload D b" "clothes_on p ok disc c' D"
proof -
  obtain x where x: "hd (entries_of (D ! b)) = of_nat x" "unat (of_nat x :: u32) = x" "(of_nat x :: u32) \<noteq> 0" "x < length D"
    "D ! x = data_block (hd (file_blocks xs))" "u32_at (D ! b) (entry_start (length nm)) = of_nat x" "entry_start (length nm) + 4 \<le> 508"
    "first_payload D b = drop 4 (D ! x)"
    by (rule file_first [OF assms(2,3)])
  have m: "meta_rep META_FILE nm (map of_nat bs) (D ! b)"
    using assms(2) by (simp add: file_on_def)
  have l: "length (D ! x) = 512" "length (D ! b) = 512"
    using block_length [OF assms(1) x(4)] meta_rep_length [OF m] by auto
  obtain c' where c': "ClothesFS_getBlock (of_nat x) y c = Some (True, D ! x, c')" "clothes_on p ok disc c' D"
    using getBlock_on [OF assms(1), of "of_nat x" y thesis] x(2,4) assms(7) by auto
  have ue: "unat (of_nat (entry_start (length nm)) :: u32) = entry_start (length nm)"
    using x(7) by (intro unat_of_nat_u32) simp
  have g: "\<not> (508 :: u32) \<le> of_nat (entry_start (length nm))"
    using ue x(7) by (simp add: word_le_nat_alt)
  have bs: "ClothesFS_blockSize c - 4 = 508"
    using clothes_on_blocksize [OF assms(1)] by (simp add: ClothesFS_blockSize_def)
  have ty: "dataToNum (D ! b) 2 1 = Some (ucast META_FILE)" "entries_start (D ! b) True = Some (of_nat (entry_start (length nm)))"
    "dataToNum (D ! b) (entry_start (length nm)) 4 = Some (of_nat x)"
    using meta_rep_bytes(5) [OF m] entries_start_rep [OF m] l(2) x(6,7) by (auto simp: dataToNum_u32)
  have mg: "dataToNum (D ! x) 0 2 = Some 0x4242" "dataToNum (D ! x) 2 1 = Some (ucast PAYLOAD_USED)"
    using l(1) x(5) by (simp_all add: dataToNum_le slice_def data_block_def PAYLOAD_USED_def)
  have "read_block it c = Some (True, it\<lparr>ci_data_block := of_nat x, ci_content := Some (Some (D ! x)), ci_pos := 4\<rparr>, c')"
    using ty mg g ue x(3) c'(1) assms(4-6) by (simp add: read_block_def Let_def bs)
  then show thesis
    by (rule that) (use x(8) l(1) c'(2) in auto)
qed

lemma read_on:
  assumes "clothes_on p ok disc c D" "file_on D b nm xs bs" "blocks_on D bs" "creading D b k it" "unat cnt \<le> length buf"
  defines "k' \<equiv> if k = 508 then 0 else k"
  defines "n \<equiv> min (508 - k') (unat cnt)"
  obtains it' c' buf' where "ClothesIterator_read buf cnt it c = Some (of_nat n, buf', it', c')"
    "buf_write 0 (take n (drop k' (first_payload D b))) buf = Some buf'" "creading D b (k' + n) it'" "clothes_on p ok disc c' D"
proof -
  note result = that
  obtain y where it: "k \<le> 508" "ci_fs it" "ci_data it = Some (D ! b)" "ci_data_index it = 0" "ci_content it = Some (Some y)" "length y = 512"
    "k = 0 \<and> ci_pos it = 0 \<and> ci_data_block it = 0 \<or> ci_pos it = of_nat (4 + k) \<and> drop 4 y = first_payload D b"
    using assms(4) by (auto simp: creading_def)
  have m: "meta_rep META_FILE nm (map of_nat bs) (D ! b)"
    using assms(2) by (simp add: file_on_def)
  have ty: "dataToNum (D ! b) 2 1 = Some (ucast META_FILE)"
    using meta_rep_bytes(5) [OF m] .
  let ?fresh = "ci_pos it = 0 \<and> ci_data_block it = 0 \<or> ci_pos it \<ge> 512"
  have u: "unat (of_nat (4 + j) :: u64) = 4 + j" if "j \<le> 508" for j
    using that by (simp add: unat_of_nat take_bit_nat_eq_self del: of_nat_add)
  have n512: "unat (512 :: u64) = 512"
    by simp
  have fr: "?fresh \<longleftrightarrow> k' = 0 \<and> (ci_pos it = 0 \<and> ci_data_block it = 0 \<or> k = 508)"
    using it(1,7) u [of k] n512 unfolding k'_def by (auto simp: word_le_nat_alt simp del: unat_numeral of_nat_add)
  obtain x i1 c1 where 1: "(if ?fresh then read_block it c else Some (True, it, c)) = Some (True, i1, c1)" "clothes_on p ok disc c1 D"
    "ci_pos i1 = of_nat (4 + k')" "ci_content i1 = Some (Some x)" "length x = 512" "drop 4 x = first_payload D b" "ci_fs i1"
    "ci_data i1 = Some (D ! b)" "ci_data_index i1 = 0"
  proof (cases ?fresh)
    case True
    then have "k' = 0"
      using fr by simp
    obtain c' x n where r: "read_block it c = Some (True, it\<lparr>ci_data_block := n, ci_content := Some (Some x), ci_pos := 4\<rparr>, c')"
      "length x = 512" "drop 4 x = first_payload D b" "clothes_on p ok disc c' D"
      by (rule read_block_on [OF assms(1-3) it(3-6)])
    have "(if ?fresh then read_block it c else Some (True, it, c)) =
        Some (True, it\<lparr>ci_data_block := n, ci_content := Some (Some x), ci_pos := 4\<rparr>, c')"
      by (simp only: True if_True r(1))
    then show thesis
      using r(4) by (rule that [where x = x]) (use \<open>k' = 0\<close> it(2-4) r(2,3) in auto)
  next
    case False
    then have "k \<noteq> 508" "ci_pos it = of_nat (4 + k)" "drop 4 y = first_payload D b"
      using fr it(7) unfolding k'_def by auto
    moreover have "(if ?fresh then read_block it c else Some (True, it, c)) = Some (True, it, c)"
      by (simp only: False if_False)
    ultimately show thesis
      using it assms(1) by (intro that [of it c y]) (simp_all add: k'_def)
  qed
  have k': "k' < 508"
    using it(1) by (simp add: k'_def)
  have bs: "ucast (ClothesFS_blockSize c') = (512 :: u64)" if "clothes_on p ok disc c' D" for c'
    using clothes_on_blocksize [OF that] by (simp add: ClothesFS_blockSize_def)
  have lt: "ci_pos i1 < 512"
    using 1(3) u [of k'] k' n512 by (simp add: word_less_nat_alt del: unat_numeral of_nat_add)
  have "unat (512 - ci_pos i1) = 508 - k'"
    using 1(3) u [of k'] k' n512 by (subst unat_minus_eq) (simp_all del: unat_numeral of_nat_add)
  then have un: "unat (min (512 - ci_pos i1) cnt) = n"
    by (simp add: n_def min_def word_le_nat_alt)
  then have en: "min (512 - ci_pos i1) cnt = of_nat n"
    by (metis of_nat_unat ucast_id)
  have nk: "k' + n \<le> 508" "n \<le> length buf"
    using k' assms(5) by (auto simp: n_def)
  have upos: "unat (ci_pos i1) = 4 + k'"
    using 1(3) u [of k'] k' by (simp del: of_nat_add)
  have sl: "buf_read (4 + k') n x = Some (take n (drop k' (first_payload D b)))"
    using nk(1) by (simp add: buf_read_def 1(5) 1(6) [symmetric] drop_drop add.commute)
  have ln: "length (take n (drop k' (first_payload D b))) = n"
    using first_payload_file(2) [OF assms(2,3)] nk(1) by simp
  obtain buf' where b': "buf_write 0 (take n (drop k' (first_payload D b))) buf = Some buf'"
    using ln nk(2) by (simp add: buf_write_def)
  have "ClothesIterator_read buf cnt it c = Some (of_nat n, buf', i1\<lparr>ci_pos := ci_pos i1 + of_nat n\<rparr>, c1)"
  proof -
    have "unat (of_nat n :: u64) = n"
      using un en by simp
    then show ?thesis
      using 1(1,4) it(3) ty upos sl b' lt en by (simp add: ClothesIterator_read_def Let_def bs [OF assms(1)] bs [OF 1(2)])
  qed
  moreover have "creading D b (k' + n) (i1\<lparr>ci_pos := ci_pos i1 + of_nat n\<rparr>)"
    using 1(3-9) nk(1) by (auto simp: creading_def)
  ultimately show thesis
    using b' 1(2) by (intro result)
qed

end

section \<open>The file system as a map from handles to positions in files\<close>

definition file_at :: "u8 list list \<Rightarrow> nat \<Rightarrow> bool" where
  "file_at D b \<longleftrightarrow> (\<exists>nm xs bs. file_on D b nm xs bs \<and> blocks_on D bs)"

definition creading_at :: "u8 list list \<Rightarrow> nat \<times> nat \<Rightarrow> citer \<Rightarrow> bool" where
  "creading_at D x it \<longleftrightarrow> creading D (fst x) (snd x) it \<and> file_at D (fst x)"

definition cinv ::
  "'d fsphys \<Rightarrow> ('d \<Rightarrow> bool) \<Rightarrow> ('d \<Rightarrow> u8 list list) \<Rightarrow> u8 list list \<Rightarrow> ptr \<Rightarrow> 'd clothes_state \<Rightarrow> (int \<rightharpoonup> nat \<times> nat) \<Rightarrow> bool" where
  "cinv p ok disc D this s M \<longleftrightarrow> clothes_on p ok disc (cs_clothes s) D \<and>
     open_objects (cs_table s) (cs_iters s) (cs_fresh s) this (creading_at D) M"

lemma cinvD:
  assumes "cinv p ok disc D this s M"
  shows "clothes_on p ok disc (cs_clothes s) D" "open_objects (cs_table s) (cs_iters s) (cs_fresh s) this (creading_at D) M"
  using assms by (simp_all add: cinv_def)

lemma cinv_errno [simp]: "cinv p ok disc D this (clothes_errno e s) M = cinv p ok disc D this s M"
  by (simp add: cinv_def clothes_errno_def)

definition croom :: "'d clothes_state \<Rightarrow> (int \<rightharpoonup> nat \<times> nat) \<Rightarrow> bool" where
  "croom s M \<longleftrightarrow> ft_handle (cs_table s) < INT_MAX \<and> Suc (card (dom M)) < 2 ^ 32"

text \<open>The root directory and everything below it is well-formed.\<close>

definition root_ok :: "u8 list list \<Rightarrow> bool" where
  "root_ok D \<longleftrightarrow> tree_ok D \<and> 1 < length D \<and> (\<exists>dn es. meta_rep META_DIR dn es (D ! 1))"

lemma clothes_close_ok:
  assumes "cinv p ok disc D this s M" "M h = Some x"
  shows "\<exists>s'. ClothesFilesystem_close h s = Some (0, s') \<and> cinv p ok disc D this s' (M(h := None))"
proof (rule open_objects_open [OF cinvD(2) [OF assms(1)] assms(2)])
  fix a it nm t'
  assume a: "Filesystem_getCustom h (cs_table s) = Some (Some a)" "cs_iters s a = Some it" "creading_at D x it"
    "Filesystem_closefile h (cs_table s) = Some (True, t')"
    "open_objects t' ((cs_iters s)(a := None)) (cs_fresh s) this (creading_at D) (M(h := None))"
  then have "ClothesIterator_destroy it = Some ()"
    by (auto simp: ClothesIterator_destroy_def creading_at_def creading_def)
  then show ?thesis
    using a cinvD(1) [OF assms(1)] by (simp add: cinv_def ClothesFilesystem_close_def delete_citer_def)
qed

lemma clothes_close_bad:
  assumes "cinv p ok disc D this s M" "M h = None"
  shows "\<exists>s'. ClothesFilesystem_close h s = Some (- 1, s') \<and> cinv p ok disc D this s' M \<and> ft_errno (cs_table s') = EBADF"
  by (rule open_objects_closed [OF cinvD(2) [OF assms(1)] assms(2)])
    (use cinvD(1) [OF assms(1)] in \<open>simp add: cinv_def ClothesFilesystem_close_def clothes_errno_def\<close>)

lemma entry_ok_file:
  assumes "entry_ok D b" "D ! b ! 2 = META_FILE" "length D < 2 ^ 32"
  shows "file_at D b"
proof -
  have "\<not> meta_rep META_DIR nm es (D ! b)" for nm es
    using assms(2) meta_rep_bytes(3) [of META_DIR nm es "D ! b"] by (auto simp: META_FILE_def META_DIR_def)
  then show ?thesis
    using assms(1,3) unfolding entry_ok_def file_at_def blocks_on_def by blast
qed

context sector_device
begin

lemma clothes_read_ok:
  assumes "cinv p ok disc D this s M" "M h = Some (b, k)" "unat cnt \<le> length buf"
  defines "k' \<equiv> if k = 508 then 0 else k"
  defines "n \<equiv> min (508 - k') (unat cnt)"
  shows "\<exists>s'. ClothesFilesystem_read h buf cnt s = Some (int n, take n (drop k' (first_payload D b)) @ drop n buf, s') \<and>
    cinv p ok disc D this s' (M(h \<mapsto> (b, k' + n)))"
proof -
  note inv = cinvD [OF assms(1)]
  obtain a it nm where o: "Filesystem_getCustom h (cs_table s) = Some (Some a)" "Filesystem_getName h (cs_table s) = Some nm" "cs_iters s a = Some it"
    "creading_at D (b, k) it" "\<And>it' x'. creading_at D x' it' \<Longrightarrow>
       open_objects (cs_table s) ((cs_iters s)(a \<mapsto> it')) (cs_fresh s) this (creading_at D) (M(h \<mapsto> x'))"
    by (rule open_objects_open [OF inv(2) assms(2)]) blast
  obtain fn xs bs where f: "file_on D b fn xs bs" "blocks_on D bs" "creading D b k it" "file_at D b"
    using o(4) by (auto simp: creading_at_def file_at_def)
  have cnt: "unat (ucast cnt :: u64) \<le> length buf"
    using assms(3) by simp
  obtain it' c' buf' where r: "ClothesIterator_read buf (ucast cnt) it (cs_clothes s) = Some (of_nat n, buf', it', c')"
    "buf_write 0 (take n (drop k' (first_payload D b))) buf = Some buf'" "creading D b (k' + n) it'" "clothes_on p ok disc c' D"
    using read_on [OF inv(1) f(1-3) cnt] unfolding k'_def n_def unat_widen by blast
  have "length (take n (drop k' (first_payload D b))) = n"
    using first_payload_file(2) [OF f(1,2)] by (simp add: n_def)
  then have b: "buf' = take n (drop k' (first_payload D b)) @ drop n buf"
    using r(2) by (auto simp: buf_write_def split: if_splits)
  have "n \<le> 508"
    by (simp add: n_def)
  then have s: "sint (ucast (of_nat n :: u64) :: u32) = int n"
    using sint_of_nat_31 [of n] by (simp add: unsigned_of_nat take_bit_nat_eq_self)
  let ?s = "s\<lparr>cs_clothes := c', cs_iters := (cs_iters s)(a \<mapsto> it')\<rparr>"
  have "ClothesFilesystem_read h buf cnt s = Some (int n, buf', ?s)"
    using o(1-3) r(1) s by (simp add: ClothesFilesystem_read_def)
  moreover have "cinv p ok disc D this ?s (M(h \<mapsto> (b, k' + n)))"
    using o(5) [of "(b, k' + n)" it'] r(3,4) f(4) by (simp add: cinv_def creading_at_def)
  ultimately show ?thesis
    using b by blast
qed

lemma clothes_open:
  assumes "cinv p ok disc D this s M" "root_ok D" "croom s M"
  shows "\<exists>r s'. ClothesFilesystem_open junk this path flags s = Some (r, s') \<and>
    (case resolve D path 0 1 of
       None \<Rightarrow> r = - 1 \<and> ft_errno (cs_table s') = ENOENT \<and> cinv p ok disc D this s' M
     | Some e \<Rightarrow>
         if D ! unat e ! 2 = META_FILE then 2 < r \<and> M r = None \<and> file_at D (unat e) \<and> cinv p ok disc D this s' (M(r \<mapsto> (unat e, 0)))
         else r = - 1 \<and> ft_errno (cs_table s') = EPERM \<and> cinv p ok disc D this s' M)"
proof -
  note inv = cinvD [OF assms(1)]
  obtain dn es where d: "tree_ok D" "unat (1 :: u32) < length D" "meta_rep META_DIR dn es (D ! unat (1 :: u32))"
    using assms(2) by (auto simp: root_ok_def)
  obtain it c' where f: "ClothesFilesystem_findFile junk path 0 1 (cs_clothes s) = Some (it, c')" "clothes_on p ok disc c' D" "ci_content it \<noteq> None"
    "case resolve D path 0 1 of None \<Rightarrow> \<not> ci_ok it | Some e \<Rightarrow> entry_ok D (unat e) \<and> (\<exists>d' es' j. citer_at D d' es' j it \<and> es' ! j = e)"
    using findFile_on [OF d(1) inv(1) d(2) _ d(3), of 0 path junk] by auto
  have de: "ClothesIterator_destroy it = Some ()"
    using f(3) by (auto simp: ClothesIterator_destroy_def)
  let ?s = "s\<lparr>cs_clothes := c'\<rparr>"
  have i': "cinv p ok disc D this ?s M"
    using inv(2) f(2) by (simp add: cinv_def)
  show ?thesis
  proof (cases "resolve D path 0 1")
    case None
    then have "ClothesFilesystem_open junk this path flags s = Some (- 1, clothes_errno ENOENT ?s)"
      using f(1,4) de by (simp add: ClothesFilesystem_open_def Let_def)
    then show ?thesis
      using None i' by (simp add: clothes_errno_def)
        (simp add: cinv_def)
  next
    case (Some e)
    then obtain d' es' j where e: "entry_ok D (unat e)" "citer_at D d' es' j it" "es' ! j = e"
      using f(4) by auto
    obtain t nm xs where t: "meta_rep t nm xs (D ! unat (es' ! j))" "t = META_FILE \<or> t = META_DIR"
      using entry_ok_rep [OF e(1)] e(3) by blast
    have ty: "ClothesIterator_type it = Some t" "ci_ok it" "D ! unat e ! 2 = t" "t AND META_FILE = 0 \<longleftrightarrow> t \<noteq> META_FILE"
      using citer_at_name(2) [OF e(2) t] meta_rep_bytes(3) [OF t(1)] e(2,3) t(2) by (auto simp: citer_at_def META_FILE_def META_DIR_def)
    show ?thesis
    proof (cases "t = META_FILE")
      case False
      then have "ClothesFilesystem_open junk this path flags s = Some (- 1, clothes_errno EPERM ?s)"
        using f(1) de ty by (simp add: ClothesFilesystem_open_def Let_def)
      then show ?thesis
        using Some False ty(3) i' by (simp add: clothes_errno_def) (simp add: cinv_def)
    next
      case True
      obtain x where x: "ci_content it = Some (Some x)" "length x = 512" "ci_fs it" "ci_data it = Some (D ! unat e)"
        "ci_parent it = Some (D ! d')" "length (D ! d') = 512" "ci_data_block it = 0" "ci_data_index it = 0"
        using e(2,3) by (auto simp: citer_at_def)
      have l: "length (D ! unat e) = 512"
        using meta_rep_length [OF t(1)] e(3) by simp
      have bs: "unat (cfs_blocksize c') = 512"
        using clothes_on_blocksize [OF f(2)] by simp
      obtain it' where it': "ClothesIterator_assign junk it (ClothesIterator_new 0 0) c' = Some it'" "creading D (unat e) 0 it'"
        using x l bs by (auto simp: ClothesIterator_assign_def copy_buffer_def buf_read_def creading_def ClothesIterator_new_def)
      have fa: "file_at D (unat e)"
        using entry_ok_file [OF e(1)] ty(3) True blocks_bound [OF f(2)] by simp
      have r: "creading_at D (unat e, 0) it'"
        using it'(2) fa by (simp add: creading_at_def)
      have rm: "ft_handle (cs_table s) < INT_MAX" "Suc (card (dom M)) < 2 ^ 32"
        using assms(3) by (auto simp: croom_def)
      obtain t' where "Filesystem_mapfile ClothesFilesystem_type path this (Some (cs_fresh s)) (cs_table s) = Some (ft_handle (cs_table s) + 1, t')"
        "2 < ft_handle (cs_table s) + 1" "M (ft_handle (cs_table s) + 1) = None"
        "open_objects t' ((cs_iters s)(cs_fresh s \<mapsto> it')) (Suc (cs_fresh s)) this (creading_at D) (M(ft_handle (cs_table s) + 1 \<mapsto> (unat e, 0)))"
        by (rule open_objects_mapfile [OF inv(2) rm r, of ClothesFilesystem_type path]) blast
      then show ?thesis
        using Some True f(1,2) de ty it'(1) fa by (simp add: ClothesFilesystem_open_def Let_def cinv_def)
    qed
  qed
qed

end

text \<open>\<^verbatim>\<open>ClothesFilesystem\<close> keeps the contract on handles.\<close>

interpretation cf: handle_opening "\<lambda>s M. cinv p ok disc D this s M \<and> sector_device p ok disc \<and> root_ok D" ClothesFilesystem_close
  "\<lambda>s. ft_errno (cs_table s)" "ClothesFilesystem_open junk this" croom
  for p ok disc D junk this
proof
  fix s and M :: "int \<rightharpoonup> nat \<times> nat" and h d
  assume "cinv p ok disc D this s M \<and> sector_device p ok disc \<and> root_ok D" "M h = Some d"
  then show "\<exists>s'. ClothesFilesystem_close h s = Some (0, s') \<and> cinv p ok disc D this s' (M(h := None)) \<and> sector_device p ok disc \<and> root_ok D"
    using clothes_close_ok by blast
next
  fix s and M :: "int \<rightharpoonup> nat \<times> nat" and h
  assume "cinv p ok disc D this s M \<and> sector_device p ok disc \<and> root_ok D" "M h = None"
  then show "\<exists>s'. ClothesFilesystem_close h s = Some (- 1, s') \<and> (cinv p ok disc D this s' M \<and> sector_device p ok disc \<and> root_ok D) \<and>
      ft_errno (cs_table s') = EBADF"
    using clothes_close_bad by blast
next
  fix s M path fl
  assume a: "cinv p ok disc D this s M \<and> sector_device p ok disc \<and> root_ok D" "croom s M"
  then obtain r s' where o: "ClothesFilesystem_open junk this path fl s = Some (r, s')"
    "case resolve D path 0 1 of
       None \<Rightarrow> r = - 1 \<and> ft_errno (cs_table s') = ENOENT \<and> cinv p ok disc D this s' M
     | Some e \<Rightarrow>
         if D ! unat e ! 2 = META_FILE then 2 < r \<and> M r = None \<and> file_at D (unat e) \<and> cinv p ok disc D this s' (M(r \<mapsto> (unat e, 0)))
         else r = - 1 \<and> ft_errno (cs_table s') = EPERM \<and> cinv p ok disc D this s' M"
    using sector_device.clothes_open [of p ok disc D this s M junk path fl] by blast
  then have "r = - 1 \<and> cinv p ok disc D this s' M \<and> ft_errno (cs_table s') \<in> {ENOENT, EPERM} \<or>
      r > 2 \<and> M r = None \<and> (\<exists>d. cinv p ok disc D this s' (M(r \<mapsto> d)))"
    by (cases "resolve D path 0 1") (auto split: if_splits)
  then show "\<exists>r s'. ClothesFilesystem_open junk this path fl s = Some (r, s') \<and>
    (r = - 1 \<and> (cinv p ok disc D this s' M \<and> sector_device p ok disc \<and> root_ok D) \<and> ft_errno (cs_table s') \<in> {ENOENT, EPERM} \<or>
     r > 2 \<and> M r = None \<and> (\<exists>d. cinv p ok disc D this s' (M(r \<mapsto> d)) \<and> sector_device p ok disc \<and> root_ok D))"
    using o(1) a by blast
qed

section \<open>A well-formed file system\<close>

text \<open>
  The chain of free blocks is \<open>fs\<close>, whose blocks are marked free, and the tree below the root is well-formed.  The marks keep
  apart the blocks of the tree and the free ones.
\<close>

definition fs_ok :: "u8 list list \<Rightarrow> nat list \<Rightarrow> bool" where
  "fs_ok D fs \<longleftrightarrow> free_list D fs \<and> root_ok D \<and> (\<forall>b \<in> set fs. slice 0 4 (D ! b) = [0x42, 0, META_FREE, 0])"

lemma data_block_mark: "slice 0 4 (data_block x) = [0x42, 0x42, 1, 0]"
  by (simp add: slice_def data_block_def)

lemma meta_rep_mark: "meta_rep t nm es b \<Longrightarrow> slice 0 4 b = [0x42, 0, t, 0]"
  by (simp add: meta_rep_def)

text \<open>A metadata block is neither free nor a payload block.\<close>

lemma marks_differ:
  assumes "fs_ok D fs" "meta_rep t nm es (D ! b)" "t = META_FILE \<or> t = META_DIR"
  shows "b \<notin> set fs" "D ! b \<noteq> data_block x"
  using assms meta_rep_mark [OF assms(2)] data_block_mark [of x]
  by (auto simp: fs_ok_def META_FREE_def META_FILE_def META_DIR_def)

lemma payload_not_free: "fs_ok D fs \<Longrightarrow> D ! b = data_block x \<Longrightarrow> b \<notin> set fs"
  using data_block_mark [of x] by (auto simp: fs_ok_def)

text \<open>An entry survives a change that affects only the header, free blocks and one directory, which stays one.\<close>

lemma entry_ok_frame:
  assumes "fs_ok D fs" "entry_ok D b" "length D' = length D" "meta_rep META_DIR dn es (D ! q)" "meta_rep META_DIR dn es' (D' ! q)"
    "\<And>j. 0 < j \<Longrightarrow> j \<noteq> q \<Longrightarrow> j \<notin> set fs \<Longrightarrow> D' ! j = D ! j"
  shows "entry_ok D' b" "block_name (D' ! b) = block_name (D ! b)"
proof -
  have b: "0 < b" "b < length D"
    using assms(2) by (auto simp: entry_ok_def)
  have "entry_ok D' b \<and> block_name (D' ! b) = block_name (D ! b)"
  proof (cases "b = q")
    case True
    then show ?thesis
      using b assms(3-5) meta_rep_name by (fastforce simp: entry_ok_def)
  next
    case False
    obtain t nm xs where t: "meta_rep t nm xs (D ! b)" "t = META_FILE \<or> t = META_DIR"
      using entry_ok_rep [OF assms(2)] by blast
    have e: "D' ! b = D ! b"
      using assms(6) b False marks_differ(1) [OF assms(1) t] by simp
    have fo: "file_on D' b nm ys bs" if f: "file_on D b nm ys bs" "\<forall>x \<in> set bs. 0 < x \<and> x < length D" for nm ys bs
    proof -
      have "D' ! (bs ! k) = D ! (bs ! k)" if k: "k < length bs" for k
      proof (rule assms(6))
        have d: "D ! (bs ! k) = data_block (file_blocks ys ! k)"
          using f(1) k by (simp add: file_on_def)
        show "0 < bs ! k" "bs ! k \<noteq> q" "bs ! k \<notin> set fs"
          using f(2) k d marks_differ(2) [OF assms(1,4)] payload_not_free [OF assms(1) d] by auto
      qed
      then show ?thesis
        using f(1) e by (simp add: file_on_def)
    qed
    have "entry_ok D' b"
    proof (rule entry_ok_cases [OF assms(2)])
      fix nm es
      assume "meta_rep META_DIR nm es (D ! b)"
      then show ?thesis
        using b e assms(3) by (intro entry_okI_dir) auto
    next
      fix nm xs bs
      assume "file_on D b nm xs bs" "\<forall>x \<in> set bs. 0 < x \<and> x < length D"
      then show ?thesis
        using b assms(3) fo by (intro entry_okI_file) auto
    qed
    then show ?thesis
      using e by simp
  qed
  then show "entry_ok D' b" "block_name (D' ! b) = block_name (D ! b)"
    by auto
qed

text \<open>A new entry in a directory: the file system stays well-formed.\<close>

lemma new_entry_fs_ok:
  assumes "fs_ok D (b # bs @ fs)" "free_list D' fs" "length D' = length D" "0 < q" "q < length D" "length D < 2 ^ 32"
    "meta_rep META_DIR dn es (D ! q)" "meta_rep META_DIR dn (es @ [of_nat b]) (D' ! q)"
    "\<And>j. j \<notin> {0, q, b} \<union> set bs \<Longrightarrow> D' ! j = D ! j"
    "file_on D' b nm xs bs \<or> meta_rep META_DIR nm [] (D' ! b) \<and> bs = []"
  shows "fs_ok D' fs"
proof -
  have dis: "distinct (b # bs @ fs)" "q \<notin> set (b # bs @ fs)"
    using assms(1) marks_differ(1) [OF assms(1,7)] by (auto simp: fs_ok_def free_list_def)
  have pos: "0 < x \<and> x < length D" if "x \<in> set (b # bs @ fs)" for x
    using assms(1) that free_list_blocks unfolding fs_ok_def by blast
  have fr: "D' ! j = D ! j" if "0 < j" "j \<noteq> q" "j \<notin> set (b # bs @ fs)" for j
    using assms(9) that by auto
  note old = entry_ok_frame(1) [OF assms(1) _ assms(3,7,8) fr]
  have ub: "unat (of_nat b :: u32) = b"
    using pos [of b] assms(6) by (intro unat_of_nat_u32) simp
  have new: "entry_ok D' b"
    using assms(3,10) pos by (auto intro: entry_okI_dir entry_okI_file)
  have "entry_ok D' (unat e)" if m: "0 < x" "x < length D'" "meta_rep META_DIR nm' es' (D' ! x)" "e \<in> set es'" for x nm' es' e
  proof (cases "x = q")
    case True
    then have "es' = es @ [of_nat b]"
      using meta_rep_entries [OF m(3)] meta_rep_entries [OF assms(8)] by simp
    moreover have "entry_ok D (unat e)" if "e \<in> set es"
      using assms(1,4,5,7) that unfolding fs_ok_def root_ok_def tree_ok_def by blast
    ultimately show ?thesis
      using m(4) old new ub by auto
  next
    case x: False
    show ?thesis
    proof (cases "x = b")
      case True
      have "\<not> file_on D' b nm xs bs"
        using m(3) True meta_rep_mark [OF m(3)] by (auto simp: file_on_def META_FILE_def META_DIR_def dest: meta_rep_mark)
      then have "es' = []"
        using assms(10) m(3) True meta_rep_entries by metis
      then show ?thesis
        using m(4) by simp
    next
      case False
      have "x \<notin> set bs"
      proof
        assume "x \<in> set bs"
        then obtain k where "k < length bs" "bs ! k = x"
          by (auto simp: in_set_conv_nth)
        moreover have "file_on D' b nm xs bs"
          using assms(10) \<open>x \<in> set bs\<close> by auto
        ultimately have "D' ! x = data_block (file_blocks xs ! k)"
          by (auto simp: file_on_def)
        then show False
          using meta_rep_mark [OF m(3)] by (simp add: data_block_mark)
      qed
      then have "D' ! x = D ! x"
        using assms(9) m(1) x False by simp
      then have "entry_ok D (unat e)"
        using assms(1,3) m unfolding fs_ok_def root_ok_def tree_ok_def by metis
      then show ?thesis
        by (rule old)
    qed
  qed
  then have t: "tree_ok D'"
    unfolding tree_ok_def by blast
  moreover have "\<exists>dn es. meta_rep META_DIR dn es (D' ! 1)"
  proof (cases "q = 1")
    case True
    then show ?thesis
      using assms(8) by blast
  next
    case False
    obtain dn1 es1 where r: "meta_rep META_DIR dn1 es1 (D ! 1)"
      using assms(1) by (auto simp: fs_ok_def root_ok_def)
    have "D' ! 1 = D ! 1"
      using False marks_differ(1) [OF assms(1) r] by (intro fr) auto
    then show ?thesis
      using r by auto
  qed
  moreover have "slice 0 4 (D' ! j) = [0x42, 0, META_FREE, 0]" if "j \<in> set fs" for j
  proof -
    have "D' ! j = D ! j"
      using that dis pos [of j] by (intro assms(9)) auto
    then show ?thesis
      using assms(1) that by (simp add: fs_ok_def)
  qed
  ultimately show ?thesis
    using assms(1-3) by (auto simp: fs_ok_def root_ok_def)
qed

lemma format_fs_ok:
  assumes "free_list D [2..<length D]" "3 \<le> length D" "meta_rep META_DIR [SLASH] [] (D ! 1)"
    "\<forall>b \<in> {2..<length D}. slice 0 4 (D ! b) = [0x42, 0, META_FREE, 0]"
  shows "fs_ok D [2..<length D]"
proof -
  have "es = []" if "0 < b" "b < length D" "meta_rep META_DIR nm es (D ! b)" for b nm es
  proof (cases "b = 1")
    case True
    then show ?thesis
      using meta_rep_entries [OF assms(3)] meta_rep_entries [OF that(3)] by simp
  next
    case False
    then have "slice 0 4 (D ! b) = [0x42, 0, META_FREE, 0]"
      using assms(4) that by auto
    then show ?thesis
      using meta_rep_mark [OF that(3)] by (simp add: META_FREE_def META_DIR_def)
  qed
  then have t: "tree_ok D"
    unfolding tree_ok_def by (metis empty_iff list.set(1))
  have "1 < length D"
    using assms(2) by simp
  then have "root_ok D"
    using t assms(3) unfolding root_ok_def by blast
  then show ?thesis
    using assms(1,4) by (simp add: fs_ok_def)
qed

lemma formatted_fs:
  obtains c D where "ram_clothes c D" "length D = 16" "fs_ok D [2..<16]" "meta_rep META_DIR [SLASH] [] (D ! 1)"
proof -
  obtain c D where "ram_clothes c D" "length D = 16" "free_list D [2..<16]" "meta_rep META_DIR [SLASH] [] (D ! 1)"
    "\<forall>b \<in> {2..<16}. slice 0 4 (D ! b) = [0x42, 0, META_FREE, 0]"
    using sector_device.format_on [OF ram_16 blank_ok, of "\<lambda>_. 0" "Some [99]"] by auto
  then show thesis
    using format_fs_ok [of D] by (intro that [of c D]) simp_all
qed

text \<open>Two paths with the same parts but the last are resolved alike.\<close>

lemma resolve_last_part:
  assumes "SLASH \<notin> set q" "SLASH \<notin> set q'" "length p + length q < 2 ^ 30" "length p + length q' < 2 ^ 30"
    "unat part < length (parts p)"
  shows "resolve D (p @ SLASH # q) part d = resolve D (p @ SLASH # q') part d"
proof -
  have k: "unat (Filesystem_pathParts (p @ SLASH # x)) = length (parts p)" "length (parts p) < 2 ^ 31"
    "\<And>i. unat i < length (parts p) \<Longrightarrow> Filesystem_pathPart (p @ SLASH # x) i = parts p ! unat i"
    if "SLASH \<notin> set x" "length p + length x < 2 ^ 30" for x
  proof -
    have ps: "parts (p @ SLASH # x) = parts p @ [x]"
      using that(1) by (simp add: parts_append parts_single)
    show "unat (Filesystem_pathParts (p @ SLASH # x)) = length (parts p)"
      using pathParts_count [of "p @ SLASH # x"] that(2) ps by simp
    have l: "length (parts p) \<le> Suc (length p)"
      by (simp add: length_parts)
    then show "length (parts p) < 2 ^ 31"
      using that(2) by simp
    show "Filesystem_pathPart (p @ SLASH # x) i = parts p ! unat i" if "unat i < length (parts p)" for i
      using pathPart_nth [of "p @ SLASH # x" i] ps that l \<open>length p + length x < 2 ^ 30\<close> by (simp add: nth_append)
  qed
  have e: "Filesystem_pathParts (p @ SLASH # q) = Filesystem_pathParts (p @ SLASH # q')"
    using k(1) [OF assms(1,3)] k(1) [OF assms(2,4)] by (simp add: word_unat_eq_iff)
  show ?thesis
    using assms(5)
  proof (induction "length (parts p) - unat part" arbitrary: part d rule: less_induct)
    case less
    have pp: "Filesystem_pathPart (p @ SLASH # q) part = Filesystem_pathPart (p @ SLASH # q') part"
      using k(3) [OF assms(1,3) less.prems] k(3) [OF assms(2,4) less.prems] by simp
    have "resolve D (p @ SLASH # q) (part + 1) d' = resolve D (p @ SLASH # q') (part + 1) d'"
      if l: "part < Filesystem_pathParts (p @ SLASH # q) - 1" "part < Filesystem_pathParts (p @ SLASH # q)" for d'
    proof -
      have "1 \<le> unat (Filesystem_pathParts (p @ SLASH # q))"
        using l(2) by (simp add: word_less_nat_alt)
      then have "unat part < length (parts p) - 1"
        using l(1) k(1) [OF assms(1,3)] by (simp add: word_less_nat_alt unat_minus_eq)
      moreover from this have "unat (part + 1) = unat part + 1"
        using k(2) [OF assms(1,3)] unat_plus_eq [of part 1] by simp
      ultimately show ?thesis
        by (intro less.hyps) auto
    qed
    then show ?case
      by (simp add: resolve.simps [of D "p @ SLASH # q"] resolve.simps [of D "p @ SLASH # q'"] pp e split: option.split)
  qed
qed

lemma find_snoc: "find P xs = None \<Longrightarrow> find P (xs @ [y]) = (if P y then Some y else None)"
  by (induction xs) (auto split: if_splits)

text \<open>A name without slash is looked up in the one directory.\<close>

lemma resolve_single:
  assumes "SLASH \<notin> set nm" "length nm < 2 ^ 31" "meta_rep META_DIR dn es (D ! d)"
  shows "resolve D nm 0 d = find (\<lambda>e. block_name (D ! unat e) = nm) es"
proof -
  have "Filesystem_pathParts nm = 0" "Filesystem_pathPart nm 0 = nm"
    using pathParts_count [of nm] pathPart_nth [of nm 0] parts_single [OF assms(1)] assms(2) by (simp_all add: unat_eq_zero)
  then show ?thesis
    by (simp add: resolve.simps [of D nm] meta_rep_entries [OF assms(3)] split: option.split)
qed

section \<open>What the search finds of a path\<close>

text \<open>The search on the list of names it looks at: like \<open>path_lookup\<close>, but a name on the way that is no directory ends it.\<close>

fun search_names :: "u8 list list \<Rightarrow> nat \<Rightarrow> name list \<Rightarrow> u32 option" where
  "search_names D d [] = None"
| "search_names D d [n] = entry_named D d n"
| "search_names D d (n # m # ns) =
     (case entry_named D d n of
        None \<Rightarrow> None
      | Some e \<Rightarrow> if D ! unat e ! 2 = META_DIR then search_names D (unat e) (m # ns) else Some e)"

definition all_but_last :: "name list \<Rightarrow> name list" where
  "all_but_last ns = (if length ns = 1 then ns else butlast ns)"

lemma all_but_last_Cons:
  "2 \<le> length ns \<Longrightarrow> all_but_last (n # ns) = n # all_but_last ns" "2 \<le> length ns \<Longrightarrow> all_but_last ns \<noteq> []"
  "length ns \<le> 1 \<Longrightarrow> all_but_last (n # ns) = [n]"
  by (cases ns; auto simp: all_but_last_def)+

lemma search_names_Cons:
  "ns \<noteq> [] \<Longrightarrow> search_names D d (n # ns) = (case entry_named D d n of
     None \<Rightarrow> None | Some e \<Rightarrow> if D ! unat e ! 2 = META_DIR then search_names D (unat e) ns else Some e)"
  by (cases ns) auto

lemma path_lookup_take:
  "0 < k \<Longrightarrow> path_lookup D d (take (Suc k) (n # m # ns)) = (case entry_named D d n of
     None \<Rightarrow> None | Some e \<Rightarrow> if D ! unat e ! 2 = META_DIR then path_lookup D (unat e) (take k (m # ns)) else None)"
  by (cases k) (auto split: option.split)

lemma search_names_Some:
  "search_names D d ns = Some e \<longleftrightarrow> path_lookup D d ns = Some e \<or>
     (\<exists>k. 0 < k \<and> k < length ns \<and> path_lookup D d (take k ns) = Some e \<and> D ! unat e ! 2 \<noteq> META_DIR)"
proof (induction D d ns rule: search_names.induct)
  case (3 D d n m ns)
  let ?q = "\<lambda>k. path_lookup D d (take k (n # m # ns)) = Some e \<and> D ! unat e ! 2 \<noteq> META_DIR"
  have split: "(\<exists>k. 0 < k \<and> k < length (n # m # ns) \<and> ?q k) \<longleftrightarrow>
      entry_named D d n = Some e \<and> D ! unat e ! 2 \<noteq> META_DIR \<or> (\<exists>k. 0 < k \<and> k < length (m # ns) \<and> ?q (Suc k))" (is "?l \<longleftrightarrow> ?r")
  proof
    assume ?l
    then obtain k where k: "0 < k" "k < length (n # m # ns)" "?q k"
      by blast
    then obtain j where j: "k = Suc j"
      using gr0_implies_Suc by blast
    show ?r
    proof (cases "j = 0")
      case True
      then show ?thesis
        using k(3) j by simp
    next
      case False
      then have "0 < j" "j < length (m # ns)" "?q (Suc j)"
        using k j by simp_all
      then show ?thesis
        by blast
    qed
  next
    assume ?r
    then show ?l
    proof
      assume "entry_named D d n = Some e \<and> D ! unat e ! 2 \<noteq> META_DIR"
      then have "?q 1"
        by simp
      then show ?l
        by (intro exI [of _ 1]) simp
    next
      assume "\<exists>k. 0 < k \<and> k < length (m # ns) \<and> ?q (Suc k)"
      then obtain k where "0 < k" "k < length (m # ns)" "?q (Suc k)"
        by blast
      then show ?l
        by (intro exI [of _ "Suc k"]) simp
    qed
  qed
  show ?case
  proof (cases "entry_named D d n")
    case None
    then show ?thesis
      unfolding split by (simp add: path_lookup_take del: take_Suc_Cons cong: conj_cong)
  next
    case (Some f)
    show ?thesis
    proof (cases "D ! unat f ! 2 = META_DIR")
      case True
      then show ?thesis
        using 3 [OF Some True] Some True unfolding split by (simp add: path_lookup_take del: take_Suc_Cons cong: conj_cong) auto
    next
      case False
      then show ?thesis
        using Some False unfolding split by (simp add: path_lookup_take del: take_Suc_Cons cong: conj_cong) auto
    qed
  qed
qed simp_all

lemma resolve_search:
  assumes "length path < 2 ^ 31" "unat part < length (parts path)"
  shows "resolve D path part d = search_names D d (all_but_last (drop (unat part) (parts path)))"
  using assms(2)
proof (induction "length (parts path) - unat part" arbitrary: part d rule: less_induct)
  case less
  let ?P = "parts path" and ?k = "unat part"
  have c: "unat (Filesystem_pathParts path) + 1 = length ?P" "length ?P \<le> 2 ^ 31"
    using pathParts_count [of path] length_filter_le [of "\<lambda>c. c = SLASH" path] assms(1) length_parts [of path] by (simp, linarith)
  have pp: "Filesystem_pathPart path part = ?P ! ?k"
    using pathPart_nth [of path part] assms(1) less.prems c(2) by simp
  have dr: "drop ?k ?P = ?P ! ?k # drop (Suc ?k) ?P"
    using less.prems by (simp add: Cons_nth_drop_Suc)
  have en: "find (\<lambda>e. block_name (D ! unat e) = Filesystem_pathPart path part) (entries_of (D ! d)) = entry_named D d (?P ! ?k)"
    by (simp add: entry_named_def pp)
  have more: "part < Filesystem_pathParts path - 1 \<and> part < Filesystem_pathParts path \<longleftrightarrow> Suc (Suc ?k) < length ?P"
  proof (cases "Filesystem_pathParts path = 0")
    case True
    then show ?thesis
      using c(1) by simp
  next
    case False
    then have "unat (Filesystem_pathParts path - 1) = unat (Filesystem_pathParts path) - 1"
      using unat_minus_eq [of 1 "Filesystem_pathParts path"] unat_gt_0 [of "Filesystem_pathParts path"] by simp
    then show ?thesis
      using c(1) by (auto simp: word_less_nat_alt)
  qed
  show ?case
  proof (cases "Suc (Suc ?k) < length ?P")
    case True
    then have l: "2 \<le> length (drop (Suc ?k) ?P)"
      by simp
    have k: "unat (part + 1) = Suc ?k"
      using unat_plus_eq [of part 1] True c(2) by simp
    have "resolve D path (part + 1) x = search_names D x (all_but_last (drop (Suc ?k) ?P))" for x
      using less.hyps [of "part + 1" x] True k by simp
    then show ?thesis
      using True more unfolding resolve.simps [of D path part d] en dr all_but_last_Cons(1) [OF l]
        search_names_Cons [OF all_but_last_Cons(2) [OF l]] by (simp split: option.split)
  next
    case False
    then have l: "length (drop (Suc ?k) ?P) \<le> 1"
      by simp
    have "resolve D path part d = entry_named D d (?P ! ?k)"
      using False more unfolding resolve.simps [of D path part d] en by (auto split: option.split)
    then show ?thesis
      unfolding dr all_but_last_Cons(3) [OF l] by simp
  qed
qed

context sector_device
begin

lemma setPhysical_on:
  assumes "ok d"
  obtains c where "ClothesFS_setPhysical (Some p) (ClothesFS_new blocks sectors d) = Some c" "clothes_on p ok disc c (disc d)"
    "cfs_phys c = Some p" "cfs_blocksize c = 512" "cfs_disc c = d"
proof -
  have n: "unat (fp_size p div 512) = length (disc d)" "length (disc d) < 2 ^ 32"
    using size_div [OF assms] size_less by (simp_all add: unat_div)
  then have "unat (ucast (fp_size p div 512) :: u32) = unat (of_nat (length (disc d)) :: u32)"
    by (simp only: unat_narrow unat_of_nat_u32)
  then have "(ucast (fp_size p div 512) :: u32) = of_nat (length (disc d))"
    by (rule unsigned_word_eqI)
  then show thesis
    using assms sectorSize
    by (intro that [of "(ClothesFS_new blocks sectors d)\<lparr>cfs_phys := Some p, cfs_blocks := of_nat (length (disc d)), cfs_block_in_sectors := 1\<rparr>"])
      (simp_all add: ClothesFS_setPhysical_def ClothesFS_new_def clothes_on_def)
qed

end

section \<open>Properties\<close>

text \<open>
  C29: \<^verbatim>\<open>format\<close> makes an empty file system.  After \<^verbatim>\<open>setPhysical\<close> with a working device of at least three blocks of
  512 bytes it succeeds; then block 1 is a directory named \<open>/\<close> without entries, the chain of free blocks is \<open>2, 3, \<dots>\<close> up to
  the last block, and the file system is well-formed.  A new \<^verbatim>\<open>ClothesFilesystem\<close> set up for the disc behind it, as at the next
  boot, recognises it (its \<^verbatim>\<open>setPhysical\<close> calls \<^verbatim>\<open>detect\<close>, which is true) and changes none of it.
\<close>

theorem format_makes_file_system:
  assumes "sector_device p ok disc" "ok d" "3 \<le> length (disc d)"
  shows "\<exists>c0 c1 D. ClothesFS_setPhysical (Some p) (ClothesFS_new blocks sectors d) = Some c0 \<and>
    ClothesFS_format junk volid c0 = Some (True, c1) \<and> clothes_on p ok disc c1 D \<and> length D = length (disc d) \<and>
    meta_rep META_DIR [SLASH] [] (D ! 1) \<and> fs_ok D [2..<length D] \<and>
    (\<exists>b0 b1. ClothesFS_setPhysical (Some p) (ClothesFS_new blocks' sectors' (cfs_disc c1)) = Some b0 \<and>
      ClothesFS_detect junk' b0 = Some (True, b1) \<and>
      ClothesFilesystem_setPhysical junk' (Some p) (ClothesFS_new blocks' sectors' (cfs_disc c1)) = Some b1 \<and> clothes_on p ok disc b1 D)"
proof -
  obtain c0 where c0: "ClothesFS_setPhysical (Some p) (ClothesFS_new blocks sectors d) = Some c0" "clothes_on p ok disc c0 (disc d)"
    "cfs_phys c0 = Some p" "cfs_blocksize c0 = 512" "cfs_disc c0 = d"
    by (rule sector_device.setPhysical_on [OF assms(1,2)])
  have d: "ok (cfs_disc c0)" "3 \<le> length (disc (cfs_disc c0))"
    using assms(2,3) c0(5) by simp_all
  obtain c1 D where f: "ClothesFS_format junk volid c0 = Some (True, c1)" "clothes_on p ok disc c1 D" "length D = length (disc d)"
    "free_list D [2..<length D]" "meta_rep META_DIR [SLASH] [] (D ! 1)" "slice 32 4 (D ! 0) = [0, 0x42, 0, 0x41]" "slice 36 2 (D ! 0) = num_bytes 2 512"
    "\<forall>b \<in> {2..<length D}. slice 0 4 (D ! b) = [0x42, 0, META_FREE, 0]"
    using sector_device.format_on [OF assms(1) c0(3,4) d(1) refl d(2), of junk volid] c0(5) by auto
  have "ok (cfs_disc c1)" "disc (cfs_disc c1) = D"
    using f(2) by (simp_all add: clothes_on_def)
  then obtain b0 where b0: "ClothesFS_setPhysical (Some p) (ClothesFS_new blocks' sectors' (cfs_disc c1)) = Some b0" "clothes_on p ok disc b0 D"
    using sector_device.setPhysical_on [OF assms(1)] by metis
  obtain b1 where b1: "ClothesFS_detect junk' b0 = Some (True, b1)" "clothes_on p ok disc b1 D"
    by (rule sector_device.detect_on [OF assms(1) b0(2) _ f(6,7), of junk']) (use f(3) assms(3) in auto)
  then have "ClothesFilesystem_setPhysical junk' (Some p) (ClothesFS_new blocks' sectors' (cfs_disc c1)) = Some b1"
    using b0(1) by (simp add: ClothesFilesystem_setPhysical_def)
  then show ?thesis
    using c0(1) f(1-3,5) b0(1) b1 format_fs_ok [OF f(4) _ f(5,8)] assms(3) by auto
qed

theorem format_makes_file_system_witness:
  "\<exists>c0 c D b. ClothesFS_setPhysical (Some (ram_disc 16)) (ClothesFS_new 0 0 (replicate 16 (replicate 512 9))) = Some c0 \<and>
    ClothesFS_format (\<lambda>_. 7) (Some [99]) c0 = Some (True, c) \<and> fs_ok D [2..<16] \<and>
    ClothesFilesystem_setPhysical (\<lambda>_. 8) (Some (ram_disc 16)) (ClothesFS_new 1 2 (cfs_disc c)) = Some b \<and> ram_clothes b D"
proof -
  have "ram_ok 16 (replicate 16 (replicate 512 9))"
    by (simp add: ram_ok_def)
  from format_makes_file_system [OF ram_16 this, of 0 0 "\<lambda>_. 7" "Some [99]" 1 2 "\<lambda>_. 8"] show ?thesis
    by (simp only: length_replicate) auto
qed

text \<open>
  C26: \<^verbatim>\<open>addFile\<close> and \<^verbatim>\<open>addDir\<close> keep the file system well-formed.  While the parent directory and the new file's metadata
  have room for their entries and enough blocks are free, \<^verbatim>\<open>addDir\<close> appends a new empty directory to its parent, and
  \<^verbatim>\<open>addFile\<close> a file whose metadata holds name, size and the numbers of the payload blocks, which hold the contents in order;
  the blocks come from the head of the chain of free blocks and no other block changes.
\<close>

theorem addFile_on_disc:
  assumes "sector_device p ok disc" "clothes_on p ok disc c D" "fs_ok D (b # bs @ fs)" "unat parent < length D" "parent \<noteq> 0"
    "meta_rep META_DIR dn es (D ! unat parent)" "length es < capacity (length dn)" "name_ok nm"
    "length bs = length (file_blocks xs)" "length bs \<le> capacity (length nm)" "length xs < 2 ^ 64"
  shows "(\<exists>c' D'. ClothesFS_addFile junk parent (Some nm) xs (of_nat (length xs)) c = Some (True, c') \<and> clothes_on p ok disc c' D' \<and>
      fs_ok D' fs \<and> meta_rep META_DIR dn (es @ [of_nat b]) (D' ! unat parent) \<and> file_on D' b nm xs bs \<and>
      length D' = length D \<and> (\<forall>j. j \<notin> {0, unat parent, b} \<union> set bs \<longrightarrow> D' ! j = D ! j)) \<and>
    (\<exists>c' D'. ClothesFS_addDir junk parent (Some nm) c = Some (True, c') \<and> clothes_on p ok disc c' D' \<and>
      fs_ok D' (bs @ fs) \<and> meta_rep META_DIR dn (es @ [of_nat b]) (D' ! unat parent) \<and> meta_rep META_DIR nm [] (D' ! b) \<and>
      length D' = length D \<and> (\<forall>j. j \<notin> {0, unat parent, b} \<longrightarrow> D' ! j = D ! j))"
proof -
  have fl: "free_list D (b # bs @ fs)" and np: "unat parent \<notin> set (b # bs @ fs)"
    using assms(3) marks_differ(1) [OF assms(3,6)] by (auto simp: fs_ok_def)
  have q: "0 < unat parent" "length D < 2 ^ 32"
    using assms(5) sector_device.blocks_bound [OF assms(1,2)] by (auto simp: unat_gt_0)
  obtain c1 D1 where 1: "ClothesFS_addFile junk parent (Some nm) xs (of_nat (length xs)) c = Some (True, c1)" "clothes_on p ok disc c1 D1"
    "length D1 = length D" "free_list D1 fs" "meta_rep META_DIR dn (es @ [of_nat b]) (D1 ! unat parent)" "file_on D1 b nm xs bs"
    "\<And>j. j \<notin> {0, unat parent, b} \<union> set bs \<Longrightarrow> D1 ! j = D ! j"
    using sector_device.addFile_on [OF assms(1,2,4,6,7) fl np assms(5,8-11), of junk] by blast
  obtain c2 D2 where 2: "ClothesFS_addDir junk parent (Some nm) c = Some (True, c2)" "clothes_on p ok disc c2 D2"
    "length D2 = length D" "free_list D2 (bs @ fs)" "meta_rep META_DIR dn (es @ [of_nat b]) (D2 ! unat parent)" "meta_rep META_DIR nm [] (D2 ! b)"
    "\<And>j. j \<notin> {0, unat parent, b} \<Longrightarrow> D2 ! j = D ! j"
    using sector_device.addDir_on [OF assms(1,2,4,6,7) fl np assms(5,8), of junk] by blast
  have "fs_ok D1 fs"
    by (rule new_entry_fs_ok [OF assms(3) 1(4,3) q(1) assms(4) q(2) assms(6) 1(5,7)]) (use 1(6) in auto)
  moreover have "fs_ok D2 (bs @ fs)"
    by (rule new_entry_fs_ok [where bs = "[]", OF _ 2(4,3) q(1) assms(4) q(2) assms(6) 2(5)]) (use assms(3) 2(6,7) in auto)
  ultimately show ?thesis
    using 1 2 by blast
qed

theorem addFile_on_disc_witness:
  "\<exists>c D c' D'. ram_clothes c D \<and> ClothesFS_addFile (\<lambda>_. 0) 1 (Some [97]) [1, 2, 3] 3 c = Some (True, c') \<and> ram_clothes c' D' \<and>
    fs_ok D' [4..<16] \<and> meta_rep META_DIR [SLASH] [2] (D' ! 1) \<and> file_on D' 2 [97] [1, 2, 3] [3]"
proof (rule formatted_fs)
  fix c D
  assume a: "ram_clothes c D" "length D = 16" "fs_ok D [2..<16]" "meta_rep META_DIR [SLASH] [] (D ! 1)"
  then have "fs_ok D (2 # [3] @ [4..<16])"
    by (simp add: upt_conv_Cons)
  with addFile_on_disc [OF ram_16 a(1), of 2 "[3]" "[4..<16]" 1 "[SLASH]" "[]" "[97]" "[1, 2, 3]" "\<lambda>_. 0"] a show ?thesis
    by (fastforce simp: capacity_def entry_start_def name_ok_def file_blocks.simps [of "[1, 2, 3]"])
qed

text \<open>
  C28: \<^verbatim>\<open>findFile\<close> returns for every path on a well-formed tree.  A path of one part (from \<open>part\<close> on) is
  resolved: the iterator stands on the entry that \<open>path_lookup\<close> gives, or is not \<^verbatim>\<open>ok\<close> if there is none.  Of a path
  of several parts it resolves all but the last, so that for \<^verbatim>\<open>a/b\<close> it stands on \<^verbatim>\<open>a\<close>, whether \<^verbatim>\<open>b\<close>
  exists or not.  Where these parts do not resolve, it stands on the entry of a proper prefix that is no directory, if there is one,
  and else is not \<^verbatim>\<open>ok\<close>.
\<close>

theorem findFile_resolves:
  assumes "sector_device p ok disc" "clothes_on p ok disc c D" "tree_ok D" "unat d < length D" "d \<noteq> 0"
    "meta_rep META_DIR dn es (D ! unat d)" "length path < 2 ^ 31" "drop (unat part) (parts path) = ns" "ns \<noteq> []"
    "looked = (if length ns = 1 then ns else butlast ns)"
  shows "\<exists>it c'. ClothesFilesystem_findFile junk path part d c = Some (it, c') \<and> clothes_on p ok disc c' D \<and>
    (case path_lookup D (unat d) looked of
       Some e \<Rightarrow> ci_ok it \<and> ci_block it = e \<and> ci_data it = Some (D ! unat e)
     | None \<Rightarrow>
         if \<exists>k e. 0 < k \<and> k < length looked \<and> path_lookup D (unat d) (take k looked) = Some e \<and> D ! unat e ! 2 \<noteq> META_DIR
         then ci_ok it \<and> ci_data it = Some (D ! unat (ci_block it)) \<and>
           (\<exists>k. 0 < k \<and> k < length looked \<and> path_lookup D (unat d) (take k looked) = Some (ci_block it) \<and> D ! unat (ci_block it) ! 2 \<noteq> META_DIR)
         else \<not> ci_ok it)"
proof -
  have k: "unat part < length (parts path)"
    using assms(8,9) by (metis drop_eq_Nil leI)
  then have "part \<le> Filesystem_pathParts path"
    using pathParts_count [of path] assms(7) by (simp add: word_le_nat_alt)
  from sector_device.findFile_on [OF assms(1,3,2,4-6) this, of junk]
  obtain it c' where f: "ClothesFilesystem_findFile junk path part d c = Some (it, c')" "clothes_on p ok disc c' D"
    "case resolve D path part (unat d) of None \<Rightarrow> \<not> ci_ok it | Some e \<Rightarrow> entry_ok D (unat e) \<and> (\<exists>d' es' j. citer_at D d' es' j it \<and> es' ! j = e)"
    by blast
  have r: "resolve D path part (unat d) = search_names D (unat d) looked"
    using resolve_search [OF assms(7) k] assms(8,10) by (simp add: all_but_last_def)
  have some: "ci_ok it \<and> ci_block it = e \<and> ci_data it = Some (D ! unat e)" if "search_names D (unat d) looked = Some e" for e
    using f(3) that unfolding r by (auto simp: citer_at_def)
  have none: "\<not> ci_ok it" if "search_names D (unat d) looked = None"
    using f(3) that unfolding r by simp
  let ?at = "\<lambda>k e. 0 < k \<and> k < length looked \<and> path_lookup D (unat d) (take k looked) = Some e \<and> D ! unat e ! 2 \<noteq> META_DIR"
  note ss = search_names_Some [of D "unat d" looked]
  have "case path_lookup D (unat d) looked of
       Some e \<Rightarrow> ci_ok it \<and> ci_block it = e \<and> ci_data it = Some (D ! unat e)
     | None \<Rightarrow> if \<exists>k e. ?at k e then ci_ok it \<and> ci_data it = Some (D ! unat (ci_block it)) \<and> (\<exists>k. ?at k (ci_block it)) else \<not> ci_ok it"
  proof (cases "path_lookup D (unat d) looked")
    case (Some e)
    then show ?thesis
      using some [of e] ss [of e] by simp
  next
    case None
    show ?thesis
    proof (cases "\<exists>k e. ?at k e")
      case True
      then obtain k e where ke: "?at k e"
        by blast
      then have "ci_ok it \<and> ci_block it = e \<and> ci_data it = Some (D ! unat e)"
        using ss [of e] by (intro some) blast
      with ke None True show ?thesis
        by auto
    next
      case False
      then have "search_names D (unat d) looked = None"
        using ss None by (metis not_None_eq option.distinct(1))
      then show ?thesis
        unfolding None if_not_P [OF False] by (simp add: none)
    qed
  qed
  then show ?thesis
    using f(1,2) by blast
qed

text \<open>A disc with a directory \<^verbatim>\<open>a\<close> and a file \<^verbatim>\<open>b\<close> in it.\<close>

lemma tree_example:
  obtains c D where "ram_clothes c D" "length D = 16" "fs_ok D [5..<16]" "meta_rep META_DIR [SLASH] [2] (D ! 1)"
    "meta_rep META_DIR [97] [3] (D ! 2)" "file_on D 3 [98] [1, 2, 3] [4]"
proof (rule formatted_fs)
  fix c D
  assume a: "ram_clothes c D" "length D = 16" "fs_ok D [2..<16]" "meta_rep META_DIR [SLASH] [] (D ! 1)"
  have n: "name_ok [97]" "name_ok [98]" "length [4 :: nat] = length (file_blocks [1, 2, 3])"
    "length [4 :: nat] \<le> capacity (length [98 :: u8])" "length ([] :: u32 list) < capacity (length [SLASH])"
    "length ([] :: u32 list) < capacity (length [97 :: u8])"
    by (simp_all add: name_ok_def entry_start_def capacity_def file_blocks.simps [of "[1, 2, 3]"])
  have f: "fs_ok D (2 # [] @ [3..<16])" "free_list D (2 # [3..<16])"
    using a(3) by (simp_all add: upt_conv_Cons fs_ok_def)
  obtain c1 D1 where 1: "ClothesFS_addDir (\<lambda>_. 0) 1 (Some [97]) c = Some (True, c1)" "ram_clothes c1 D1" "length D1 = 16"
    "free_list D1 [3..<16]" "meta_rep META_DIR [SLASH] [2] (D1 ! 1)" "meta_rep META_DIR [97] [] (D1 ! 2)" "\<forall>j. j \<notin> {0, 1, 2} \<longrightarrow> D1 ! j = D ! j"
    using sector_device.addDir_on [OF ram_16 a(1) _ _ n(5) f(2) _ _ n(1), of 1 "\<lambda>_. 0"] a(2,4) by auto
  have f1: "fs_ok D1 [3..<16]"
    by (rule new_entry_fs_ok [OF f(1) 1(4), of 1 "[SLASH]" "[]" "[97]" "[]"]) (use a 1 in simp_all)
  then have g: "fs_ok D1 (3 # [4] @ [5..<16])" "free_list D1 (3 # [4] @ [5..<16])"
    by (simp_all add: upt_conv_Cons fs_ok_def)
  obtain c2 D2 where 2: "ram_clothes c2 D2" "length D2 = 16" "free_list D2 [5..<16]" "meta_rep META_DIR [97] [3] (D2 ! 2)"
    "file_on D2 3 [98] [1, 2, 3] [4]" "\<forall>j. j \<notin> {0, 2, 3, 4} \<longrightarrow> D2 ! j = D1 ! j"
    using sector_device.addFile_on [OF ram_16 1(2) _ _ n(6) g(2) _ _ n(2,3,4), of 2 "\<lambda>_. 0"] 1(3,6) by auto
  have "fs_ok D2 [5..<16]"
    by (rule new_entry_fs_ok [OF g(1) 2(3), of 2 "[97]" "[]" "[98]" "[1, 2, 3]"]) (use 1 2 in simp_all)
  then show thesis
    using 2 1(5) by (intro that [of c2 D2]) simp_all
qed

theorem findFile_resolves_witness:
  "\<exists>c D it c'. ram_clothes c D \<and> path_lookup D 1 [[97], [98]] = Some 3 \<and>
    ClothesFilesystem_findFile (\<lambda>_. 0) [97, SLASH, 98] 0 1 c = Some (it, c') \<and> ci_ok it \<and> ci_block it = 2"
proof (rule tree_example)
  fix c D
  assume a: "ram_clothes c D" "length D = 16" "fs_ok D [5..<16]" "meta_rep META_DIR [SLASH] [2] (D ! 1)"
    "meta_rep META_DIR [97] [3] (D ! 2)" "file_on D 3 [98] [1, 2, 3] [4]"
  have t: "tree_ok D"
    using a(3) by (simp add: fs_ok_def root_ok_def)
  have n: "block_name (D ! 2) = [97]" "block_name (D ! 3) = [98]" "D ! 2 ! 2 = META_DIR"
    using meta_rep_name [OF a(5)] meta_rep_bytes(3) [OF a(5)] a(6) meta_rep_name by (auto simp: file_on_def)
  have e: "entry_named D 1 [97] = Some 2" "entry_named D 2 [98] = Some 3"
    using n meta_rep_entries [OF a(4)] meta_rep_entries [OF a(5)] by (simp_all add: entry_named_def)
  have p: "drop (unat (0 :: u32)) (parts [97, SLASH, 98]) = [[97], [98]]"
    by (simp add: SLASH_def)
  have "\<exists>it c'. ClothesFilesystem_findFile (\<lambda>_. 0) [97, SLASH, 98] 0 1 c = Some (it, c') \<and> ci_ok it \<and> ci_block it = 2"
    using findFile_resolves [OF ram_16 a(1) t _ _ _ _ p, of 1 "[SLASH]" "[2]" "[[97]]" "\<lambda>_. 0"] a(2,4) e(1) by auto
  moreover have "path_lookup D 1 [[97], [98]] = Some 3"
    using e n(3) by simp
  ultimately show ?thesis
    using a(1) by blast
qed

text \<open>
  The last part of a path is ignored if there is more than one: \<^verbatim>\<open>findFile\<close> stops one part early.  For
  \<open>p/q\<close> and \<open>p/q'\<close> it finds the same entry, or none, whatever \<open>q\<close> and \<open>q'\<close> are, so that no file below the root directory
  can be opened by its name.
\<close>

theorem last_part_ignored:
  assumes "sector_device p ok disc" "clothes_on p ok disc c D" "root_ok D" "SLASH \<notin> set q" "SLASH \<notin> set q'"
    "length path + length q < 2 ^ 30" "length path + length q' < 2 ^ 30"
  shows "\<exists>it c1 it' c2. ClothesFilesystem_findFile junk (path @ SLASH # q) 0 1 c = Some (it, c1) \<and>
    ClothesFilesystem_findFile junk (path @ SLASH # q') 0 1 c = Some (it', c2) \<and>
    (ci_ok it \<longleftrightarrow> ci_ok it') \<and> (ci_ok it \<longrightarrow> ci_block it = ci_block it' \<and> ci_data it = ci_data it')"
proof -
  have r: "resolve D (path @ SLASH # q) 0 1 = resolve D (path @ SLASH # q') 0 1"
    by (rule resolve_last_part) (use assms(4-7) in auto)
  obtain dn es where d: "tree_ok D" "unat (1 :: u32) < length D" "meta_rep META_DIR dn es (D ! unat (1 :: u32))"
    using assms(3) by (auto simp: root_ok_def)
  have "\<exists>it c'. ClothesFilesystem_findFile junk x 0 1 c = Some (it, c') \<and>
      (case resolve D x 0 1 of None \<Rightarrow> \<not> ci_ok it | Some e \<Rightarrow> ci_ok it \<and> ci_block it = e \<and> ci_data it = Some (D ! unat e))" for x
  proof -
    obtain it c' where f: "ClothesFilesystem_findFile junk x 0 1 c = Some (it, c')"
      "case resolve D x 0 1 of None \<Rightarrow> \<not> ci_ok it | Some e \<Rightarrow> entry_ok D (unat e) \<and> (\<exists>d' es' j. citer_at D d' es' j it \<and> es' ! j = e)"
      using sector_device.findFile_on [OF assms(1) d(1) assms(2) d(2) _ d(3), of 0 x junk] by auto
    then show ?thesis
      by (cases "resolve D x 0 1") (auto simp: citer_at_def)
  qed
  from this [of "path @ SLASH # q"] this [of "path @ SLASH # q'"] r show ?thesis
    by (cases "resolve D (path @ SLASH # q') 0 1") auto
qed

theorem last_part_ignored_witness:
  "\<exists>c D it c1. ram_clothes c D \<and> ClothesFilesystem_findFile (\<lambda>_. 0) [97, 47, 98] 0 1 c = Some (it, c1)"
proof (rule formatted_fs)
  fix c D
  assume a: "ram_clothes c D" "fs_ok D [2..<16]"
  have "root_ok D"
    using a(2) by (simp add: fs_ok_def)
  from last_part_ignored [OF ram_16 a(1) this, of "[98]" "[99]" "[97]" "\<lambda>_. 0"] a show ?thesis
    by (auto simp: SLASH_def)
qed

text \<open>
  C27: \<^verbatim>\<open>ClothesFilesystem\<close> refines a map from handles to positions.  \<^verbatim>\<open>open\<close> opens the file that \<open>resolve\<close> finds and fails with
  \<^verbatim>\<open>ENOENT\<close> when there is none and with \<^verbatim>\<open>EPERM\<close> for a directory; a handle just opened can be closed, which restores the
  map.  \<^verbatim>\<open>close\<close> removes a handle, or fails with \<^verbatim>\<open>EBADF\<close>.  \<^verbatim>\<open>read\<close> does not deliver the file: it gives the bytes
  of the first payload block only, beyond the size of the file, and starts over with the same block when it has delivered
  all 508.
\<close>

theorem clothes_handles:
  assumes "sector_device p ok disc" "cinv p ok disc D this s M" "root_ok D" "croom s M" "unat cnt \<le> length buf"
  shows "(\<exists>r s'. ClothesFilesystem_open junk this path flags s = Some (r, s') \<and>
      (case resolve D path 0 1 of
         None \<Rightarrow> r = - 1 \<and> ft_errno (cs_table s') = ENOENT \<and> cinv p ok disc D this s' M
       | Some e \<Rightarrow>
           if D ! unat e ! 2 = META_FILE
           then 2 < r \<and> M r = None \<and> cinv p ok disc D this s' (M(r \<mapsto> (unat e, 0))) \<and>
             (\<exists>s''. ClothesFilesystem_close r s' = Some (0, s'') \<and> cinv p ok disc D this s'' M)
           else r = - 1 \<and> ft_errno (cs_table s') = EPERM \<and> cinv p ok disc D this s' M)) \<and>
    (\<exists>r s'. ClothesFilesystem_close h s = Some (r, s') \<and> cinv p ok disc D this s' (M(h := None)) \<and> (r = 0 \<longleftrightarrow> M h \<noteq> None)) \<and>
    (\<forall>b k. M h = Some (b, k) \<longrightarrow>
      (let k' = if k = 508 then 0 else k; n = min (508 - k') (unat cnt) in
       \<exists>s'. ClothesFilesystem_read h buf cnt s = Some (int n, take n (drop k' (first_payload D b)) @ drop n buf, s') \<and>
         cinv p ok disc D this s' (M(h \<mapsto> (b, k' + n)))))"
proof (intro conjI)
  have inv: "cinv p ok disc D this s M \<and> sector_device p ok disc \<and> root_ok D"
    using assms by blast
  have oc: "\<exists>s''. ClothesFilesystem_close h s' = Some (0, s'') \<and> cinv p ok disc D this s'' M"
    if "ClothesFilesystem_open junk this path flags s = Some (h, s')" "2 < h" for h s'
    using cf.open_then_close [OF inv assms(4) that(1)] that(2) by auto
  show "\<exists>r s'. ClothesFilesystem_open junk this path flags s = Some (r, s') \<and>
      (case resolve D path 0 1 of
         None \<Rightarrow> r = - 1 \<and> ft_errno (cs_table s') = ENOENT \<and> cinv p ok disc D this s' M
       | Some e \<Rightarrow>
           if D ! unat e ! 2 = META_FILE
           then 2 < r \<and> M r = None \<and> cinv p ok disc D this s' (M(r \<mapsto> (unat e, 0))) \<and>
             (\<exists>s''. ClothesFilesystem_close r s' = Some (0, s'') \<and> cinv p ok disc D this s'' M)
           else r = - 1 \<and> ft_errno (cs_table s') = EPERM \<and> cinv p ok disc D this s' M)"
    using sector_device.clothes_open [OF assms(1-4), of junk path flags] oc
    by (cases "resolve D path 0 1") (fastforce split: if_splits simp del: not_None_eq split_paired_All)+
  show "\<exists>r s'. ClothesFilesystem_close h s = Some (r, s') \<and> cinv p ok disc D this s' (M(h := None)) \<and> (r = 0 \<longleftrightarrow> M h \<noteq> None)"
    using cf.close_never_stuck [OF inv, of h] by auto
  show "\<forall>b k. M h = Some (b, k) \<longrightarrow>
      (let k' = if k = 508 then 0 else k; n = min (508 - k') (unat cnt) in
       \<exists>s'. ClothesFilesystem_read h buf cnt s = Some (int n, take n (drop k' (first_payload D b)) @ drop n buf, s') \<and>
         cinv p ok disc D this s' (M(h \<mapsto> (b, k' + n))))"
    using sector_device.clothes_read_ok [OF assms(1,2) _ assms(5), of h] by (simp add: Let_def)
qed

text \<open>A file system object that has just been set up, with no file open.\<close>

definition no_files :: "'d clothes \<Rightarrow> 'd clothes_state" where
  "no_files c = \<lparr>cs_clothes = c, cs_table = Filesystem_table, cs_iters = Map.empty, cs_fresh = 0\<rparr>"

lemma no_files_inv: "clothes_on p ok disc c D \<Longrightarrow> cinv p ok disc D this (no_files c) Map.empty \<and> croom (no_files c) Map.empty"
  by (rule conjI, simp add: cinv_def no_files_def open_objects_new) (simp add: no_files_def croom_def Filesystem_table_def INT_MAX_def)

definition ram_state :: "u8 list list clothes \<Rightarrow> u8 list list clothes_state" where
  "ram_state c = \<lparr>cs_clothes = c, cs_table = Filesystem_table, cs_iters = Map.empty, cs_fresh = 0\<rparr>"

lemma ram_state_inv:
  "ram_clothes c D \<Longrightarrow> cinv (ram_disc 16) (ram_ok 16) (\<lambda>d. d) D this (ram_state c) Map.empty" "croom (ram_state c) Map.empty"
  by (simp add: cinv_def ram_state_def open_objects_new) (simp add: ram_state_def croom_def Filesystem_table_def INT_MAX_def)

theorem clothes_handles_witness:
  "\<exists>c D s'. ram_clothes c D \<and> ClothesFilesystem_open (\<lambda>_. 0) (Some 5) [97] 0 (ram_state c) = Some (- 1, s') \<and> ft_errno (cs_table s') = ENOENT"
proof (rule formatted_fs)
  fix c D
  assume a: "ram_clothes c D" "fs_ok D [2..<16]" "meta_rep META_DIR [SLASH] [] (D ! 1)"
  have r: "root_ok D"
    using a(2) by (simp add: fs_ok_def)
  have "resolve D [97] 0 1 = None"
    using resolve_single [OF _ _ a(3), of "[97]"] by (simp add: SLASH_def)
  with clothes_handles [OF ram_16 ram_state_inv(1) [OF a(1)] r ram_state_inv(2), where cnt = 0 and buf = "[]" and this = "Some 5"
      and junk = "\<lambda>_. 0" and path = "[97]" and flags = 0] a(1)
  have "\<exists>s'. ClothesFilesystem_open (\<lambda>_. 0) (Some 5) [97] 0 (ram_state c) = Some (- 1, s') \<and> ft_errno (cs_table s') = ENOENT"
    by auto
  with a(1) show ?thesis
    by blast
qed

text \<open>
  A read that delivers the first \<open>cnt\<close> bytes of the first payload block of a file with the contents \<open>xs\<close>, at most all 508:
  bytes of the file as far as it goes, and then the zeros the block is filled up with, which the count returned includes.
\<close>

definition padded :: "u8 list \<Rightarrow> nat \<Rightarrow> u8 list" where
  "padded xs n = take n xs @ replicate (n - length xs) 0"

definition reads_block :: "int \<Rightarrow> u8 list \<Rightarrow> u32 \<Rightarrow> u8 list \<Rightarrow> 'd clothes_state \<Rightarrow> 'd clothes_state \<Rightarrow> bool" where
  "reads_block h buf cnt xs s s' \<longleftrightarrow> (let n = min 508 (unat cnt) in
     ClothesFilesystem_read h buf cnt s = Some (int n, padded xs n @ drop n buf, s'))"

lemma padded_take: "n \<le> 508 \<Longrightarrow> take n (take 508 (xs @ replicate 508 0)) = padded xs n" "n \<le> 508 \<Longrightarrow> take n (xs @ replicate 508 0) = padded xs n"
  by (simp_all add: padded_def take_replicate min_def)

lemma store_and_read_on:
  assumes "sector_device p ok disc" "clothes_on p ok disc c D" "fs_ok D (b # bs @ fs)" "meta_rep META_DIR dn es (D ! 1)"
    "length es < capacity (length dn)" "name_ok nm" "SLASH \<notin> set nm" "\<forall>e \<in> set es. block_name (D ! unat e) \<noteq> nm"
    "length bs = length (file_blocks xs)" "length bs \<le> capacity (length nm)" "length xs < 2 ^ 64"
  shows "\<exists>c' D'. ClothesFS_addFile junk 1 (Some nm) xs (of_nat (length xs)) c = Some (True, c') \<and> clothes_on p ok disc c' D' \<and> fs_ok D' fs \<and> file_on D' b nm xs bs \<and>
    (\<forall>s M. cinv p ok disc D' this s M \<and> croom s M \<longrightarrow>
      (\<exists>h s'. ClothesFilesystem_open junk this nm flags s = Some (h, s') \<and> 2 < h \<and> M h = None \<and>
        (\<forall>buf cnt. unat cnt \<le> length buf \<longrightarrow>
          (\<exists>s''. reads_block h buf cnt xs s' s'' \<and> clothes_on p ok disc (cs_clothes s'') D' \<and>
            (\<forall>buf' cnt'. 508 \<le> unat cnt \<and> unat cnt' \<le> length buf' \<longrightarrow> (\<exists>s3. reads_block h buf' cnt' xs s'' s3))))))"
proof -
  have ro: "root_ok D" "1 < length D" "tree_ok D" "length D < 2 ^ 32"
    using assms(3) sector_device.blocks_bound [OF assms(1,2)] by (auto simp: fs_ok_def root_ok_def)
  have fl: "free_list D (b # bs @ fs)" and np: "unat (1 :: u32) \<notin> set (b # bs @ fs)"
    using assms(3) marks_differ(1) [OF assms(3,4)] by (auto simp: fs_ok_def)
  obtain c1 D1 where 1: "ClothesFS_addFile junk 1 (Some nm) xs (of_nat (length xs)) c = Some (True, c1)" "clothes_on p ok disc c1 D1"
    "length D1 = length D" "free_list D1 fs" "meta_rep META_DIR dn (es @ [of_nat b]) (D1 ! 1)" "file_on D1 b nm xs bs"
    "\<And>j. j \<notin> {0, 1, b} \<union> set bs \<Longrightarrow> D1 ! j = D ! j"
    using sector_device.addFile_on [OF assms(1,2) _ _ assms(5) fl np _ assms(6,9-11), of junk] ro(2) assms(4) by auto
  have ok: "fs_ok D1 fs"
    by (rule new_entry_fs_ok [OF assms(3) 1(4,3) _ ro(2,4) assms(4) 1(5,7)]) (use 1(6) in auto)
  have bb: "blocks_on D1 bs" "b < length D"
    using fl free_list_blocks [OF fl] ro(4) 1(3) by (auto simp: blocks_on_def)
  then have ub: "unat (of_nat b :: u32) = b"
    using ro(4) by (intro unat_of_nat_u32) simp
  have old: "block_name (D1 ! unat e) \<noteq> nm" if "e \<in> set es" for e
  proof -
    have "entry_ok D (unat e)"
      using ro(2,3) assms(4) that unfolding tree_ok_def by blast
    then have "block_name (D1 ! unat e) = block_name (D ! unat e)"
      by (rule entry_ok_frame(2) [OF assms(3) _ 1(3) assms(4) 1(5)]) (use 1(7) in auto)
    then show ?thesis
      using assms(8) that by simp
  qed
  have mb: "meta_rep META_FILE nm (map of_nat bs) (D1 ! b)"
    using 1(6) by (simp add: file_on_def)
  have "length nm < 2 ^ 31"
    using assms(6) entry_start_bounds(1) [of "length nm"] by (auto simp: name_ok_def)
  moreover have "find (\<lambda>e. block_name (D1 ! unat e) = nm) es = None"
    using old by (auto simp: find_None_iff)
  ultimately have rs: "resolve D1 nm 0 1 = Some (of_nat b)"
    using resolve_single [OF assms(7) _ 1(5)] ub meta_rep_name [OF mb] by (simp add: find_snoc)
  have "\<exists>h s'. ClothesFilesystem_open junk this nm flags s = Some (h, s') \<and> 2 < h \<and> M h = None \<and>
      (\<forall>buf cnt. unat cnt \<le> length buf \<longrightarrow>
        (\<exists>s''. reads_block h buf cnt xs s' s'' \<and> clothes_on p ok disc (cs_clothes s'') D1 \<and>
          (\<forall>buf' cnt'. 508 \<le> unat cnt \<and> unat cnt' \<le> length buf' \<longrightarrow> (\<exists>s3. reads_block h buf' cnt' xs s'' s3))))"
    if a: "cinv p ok disc D1 this s M" "croom s M" for s M
  proof -
    have r1: "root_ok D1"
      using ok by (simp add: fs_ok_def)
    obtain h s' where h: "ClothesFilesystem_open junk this nm flags s = Some (h, s')" "2 < h" "M h = None"
      "cinv p ok disc D1 this s' (M(h \<mapsto> (b, 0)))"
      using sector_device.clothes_open [OF assms(1) a(1) r1 a(2), of junk nm flags] rs ub meta_rep_bytes(3) [OF mb] by auto
    have fp: "take n (first_payload D1 b) = padded xs n" if "n \<le> 508" for n
      using padded_take(1) [OF that] first_payload_file(1) [OF 1(6) bb(1)] by simp
    have rd: "\<exists>s''. reads_block h buf cnt xs t s'' \<and> cinv p ok disc D1 this s'' (M(h \<mapsto> (b, min 508 (unat cnt))))"
      if "cinv p ok disc D1 this t (M(h \<mapsto> (b, k)))" "k = 0 \<or> k = 508" "unat cnt \<le> length buf" for t k buf and cnt :: u32
      using sector_device.clothes_read_ok [OF assms(1) that(1) _ that(3), of h b k] that(2) fp [of "min 508 (unat cnt)"]
      by (auto simp: reads_block_def Let_def)
    have "\<exists>s''. reads_block h buf cnt xs s' s'' \<and> clothes_on p ok disc (cs_clothes s'') D1 \<and>
        (\<forall>buf' cnt'. 508 \<le> unat cnt \<and> unat cnt' \<le> length buf' \<longrightarrow> (\<exists>s3. reads_block h buf' cnt' xs s'' s3))"
      if l: "unat cnt \<le> length buf" for buf cnt
    proof -
      obtain s'' where s'': "reads_block h buf cnt xs s' s''" "cinv p ok disc D1 this s'' (M(h \<mapsto> (b, min 508 (unat cnt))))"
        using rd [OF h(4) _ l] by blast
      have "\<exists>s3. reads_block h buf' cnt' xs s'' s3" if "508 \<le> unat cnt" "unat cnt' \<le> length buf'" for buf' and cnt' :: u32
        using rd [OF s''(2) _ that(2)] that(1) by auto
      then show ?thesis
        using s'' by (auto simp: cinv_def)
    qed
    then show ?thesis
      using h(1-3) by blast
  qed
  then show ?thesis
    using 1(1,2,6) ok by blast
qed

text \<open>
  C25: What \<^verbatim>\<open>addFile\<close> stores in the root directory under a new name is on the disc, with its length in the metadata, and can be
  opened by that name.  \<^verbatim>\<open>read\<close> does not use the length.  Asked for \<open>cnt\<close> bytes it reports the smaller of 508 and \<open>cnt\<close>:
  the contents up to there, and behind the end of a shorter file the zeros that fill its first payload block; of a longer file
  no byte after the first 508 is ever delivered, since the read that follows starts over at the first byte.
\<close>

theorem clothes_store_and_read:
  assumes "sector_device p ok disc" "clothes_on p ok disc c D" "fs_ok D (b # bs @ fs)" "meta_rep META_DIR dn es (D ! 1)"
    "length es < capacity (length dn)" "name_ok nm" "SLASH \<notin> set nm" "\<forall>e \<in> set es. block_name (D ! unat e) \<noteq> nm"
    "length bs = length (file_blocks xs)" "length bs \<le> capacity (length nm)" "length xs < 2 ^ 64"
  shows "\<exists>c' D'. ClothesFS_addFile junk 1 (Some nm) xs (of_nat (length xs)) c = Some (True, c') \<and> clothes_on p ok disc c' D' \<and>
    fs_ok D' fs \<and> file_on D' b nm xs bs \<and>
    (\<forall>s M. cinv p ok disc D' this s M \<and> croom s M \<longrightarrow>
      (\<exists>h s'. ClothesFilesystem_open junk this nm flags s = Some (h, s') \<and> 2 < h \<and> M h = None \<and>
        (\<forall>buf cnt. unat cnt \<le> length buf \<longrightarrow>
          (let n = min 508 (unat cnt) in \<exists>s''.
            ClothesFilesystem_read h buf cnt s' = Some (int n, take n xs @ replicate (n - length xs) 0 @ drop n buf, s'') \<and>
            clothes_on p ok disc (cs_clothes s'') D' \<and>
            (\<forall>buf' cnt'. 508 \<le> unat cnt \<and> unat cnt' \<le> length buf' \<longrightarrow>
              (let n' = min 508 (unat cnt') in \<exists>s3.
                ClothesFilesystem_read h buf' cnt' s'' = Some (int n', take n' xs @ replicate (n' - length xs) 0 @ drop n' buf', s3)))))))"
  using store_and_read_on [OF assms, of junk this flags] by (simp add: reads_block_def padded_def Let_def)

theorem clothes_store_and_read_witness:
  "\<exists>c c' D' h s' s''. ClothesFS_addFile (\<lambda>_. 0) 1 (Some [97]) [1, 2, 3] 3 c = Some (True, c') \<and> file_on D' 2 [97] [1, 2, 3] [3] \<and>
    ram_clothes c' D' \<and> ClothesFilesystem_open (\<lambda>_. 0) (Some 5) [97] 0 (ram_state c') = Some (h, s') \<and>
    ClothesFilesystem_read h [9, 9, 9, 9, 9] 4 s' = Some (4, [1, 2, 3, 0, 9], s'')"
proof (rule formatted_fs)
  fix c D
  assume a: "ram_clothes c D" "fs_ok D [2..<16]" "meta_rep META_DIR [SLASH] [] (D ! 1)"
  have "[2..<16] = 2 # [3] @ [4..<16]"
    by (simp add: upt_conv_Cons)
  then have f: "fs_ok D (2 # [3] @ [4..<16])"
    using a(2) by simp
  have n: "name_ok [97]" "SLASH \<notin> set [97]" "length [3 :: nat] = length (file_blocks [1, 2, 3])"
    "length [3 :: nat] \<le> capacity (length [97 :: u8])" "length ([] :: u32 list) < capacity (length [SLASH])"
    by (simp_all add: name_ok_def entry_start_def capacity_def SLASH_def file_blocks.simps [of "[1, 2, 3]"])
  obtain c' D' where 1: "ClothesFS_addFile (\<lambda>_. 0) 1 (Some [97]) [1, 2, 3] (of_nat (length [1, 2, 3 :: u8])) c = Some (True, c')"
    "ram_clothes c' D'" "file_on D' 2 [97] [1, 2, 3] [3]"
    "\<And>s M. cinv (ram_disc 16) (ram_ok 16) (\<lambda>d. d) D' (Some 5) s M \<Longrightarrow> croom s M \<Longrightarrow>
      \<exists>h s'. ClothesFilesystem_open (\<lambda>_. 0) (Some 5) [97] 0 s = Some (h, s') \<and>
        (\<forall>buf cnt. unat cnt \<le> length buf \<longrightarrow>
          (let n = min 508 (unat cnt) in
           \<exists>s''. ClothesFilesystem_read h buf cnt s' = Some (int n, take n [1, 2, 3] @ replicate (n - length [1, 2, 3 :: u8]) 0 @ drop n buf, s'')))"
    using clothes_store_and_read [OF ram_16 a(1) f a(3) n(5,1,2) _ n(3,4), where junk = "\<lambda>_. 0" and this = "Some 5" and flags = 0]
    by (simp add: Let_def) meson
  obtain h s' where 2: "ClothesFilesystem_open (\<lambda>_. 0) (Some 5) [97] 0 (ram_state c') = Some (h, s')"
    "\<forall>buf cnt. unat cnt \<le> length buf \<longrightarrow>
      (let n = min 508 (unat cnt) in
       \<exists>s''. ClothesFilesystem_read h buf cnt s' = Some (int n, take n [1, 2, 3] @ replicate (n - length [1, 2, 3 :: u8]) 0 @ drop n buf, s''))"
    using 1(4) [OF ram_state_inv(1) [OF 1(2)] ram_state_inv(2)] by blast
  have "\<exists>s''. ClothesFilesystem_read h [9, 9, 9, 9, 9] 4 s' = Some (4, [1, 2, 3, 0, 9], s'')"
    using 2(2) [rule_format, of 4 "[9, 9, 9, 9, 9]"] by (simp add: Let_def)
  moreover have "of_nat (length [1, 2, 3 :: u8]) = (3 :: u64)"
    by simp
  ultimately show ?thesis
    using 1(1-3) 2(1) by metis
qed

end
