(* ===== verification/Ata_Disc.thy ===== *)
theory Ata_Disc
  imports Ata_Bounds Clothes_FS
begin

text \<open>
  The ATA driver on a drive.  The drive is not part of the program: \<open>drive\<close> states what the ATA documentation says of the PIO
  protocol, as a state and what each register access does to it, and \<open>pio_drive P b1 b2 \<alpha>\<close> says that the ports at the
  bases \<open>b1\<close> and \<open>b2\<close> belong to such a drive, whose state in a machine is given by \<open>\<alpha>\<close>.  What the
  documentation leaves open for a command written to a busy drive is open here: such a drive takes the command or ignores it
  (\<open>dr_lax\<close>), and the driver works with both; it writes the flush command right behind the last word of the data.  Of the device
  control register only writes with a clear reset bit are described, which are the ones that the driver does: they have no effect
  but on the interrupt line, which the driver does not use.

  The laws: \<^verbatim>\<open>readSector\<close> and \<^verbatim>\<open>writeSector\<close> transfer exactly the addressed sectors, with 28-bit and with 48-bit addresses,
  and \<^verbatim>\<open>ATAPhys\<close> is a \<open>sector_device\<close>, the device that ClothesFS needs.
\<close>

section \<open>A drive\<close>

text \<open>A transfer is in the middle of a sector, with the sectors behind it; the bytes that have arrived, with the sectors to come.\<close>

datatype phase = Idle | Sending "u16 list" "u8 list list" | Receiving nat "u8 list" nat

text \<open>The count and address registers are two bytes deep; \<open>dr_busy\<close> is the number of status reads until the drive is ready,
  \<open>dr_lax\<close> whether it takes a command before.\<close>

record drive =
  dr_phase :: phase
  dr_busy :: nat
  dr_error :: bool
  dr_count :: "u8 \<times> u8"
  dr_lba0 :: "u8 \<times> u8"
  dr_lba1 :: "u8 \<times> u8"
  dr_lba2 :: "u8 \<times> u8"
  dr_sel :: u8
  dr_unit :: ata_type
  dr_delay :: nat
  dr_lax :: bool
  dr_disc :: "u8 list list"

definition drive_status :: "drive \<Rightarrow> u8" where
  "drive_status s =
     (if dr_busy s > 0 then 0x80 else 0x40 OR (if dr_error s then 0x01 else 0) OR (if dr_phase s = Idle then 0 else 0x08))"

definition drive_tick :: "drive \<Rightarrow> drive" where
  "drive_tick s = s\<lparr>dr_busy := dr_busy s - 1\<rparr>"

fun sector_words :: "u8 list \<Rightarrow> u16 list" where
  "sector_words (a # b # bs) = (ucast a OR push_bit 8 (ucast b)) # sector_words bs"
| "sector_words _ = []"

definition lba28 :: "drive \<Rightarrow> nat" where
  "lba28 s = unat (ucast (fst (dr_lba0 s)) OR push_bit 8 (ucast (fst (dr_lba1 s))) OR push_bit 16 (ucast (fst (dr_lba2 s))) OR
     push_bit 24 (ucast (dr_sel s AND 0x0F)) :: u64)"

definition lba48 :: "drive \<Rightarrow> nat" where
  "lba48 s = unat (ucast (fst (dr_lba0 s)) OR push_bit 8 (ucast (fst (dr_lba1 s))) OR push_bit 16 (ucast (fst (dr_lba2 s))) OR
     push_bit 24 (ucast (snd (dr_lba0 s))) OR push_bit 32 (ucast (snd (dr_lba1 s))) OR push_bit 40 (ucast (snd (dr_lba2 s))) :: u64)"

definition count28 :: "drive \<Rightarrow> nat" where
  "count28 s = (if fst (dr_count s) = 0 then 256 else unat (fst (dr_count s)))"

definition count48 :: "drive \<Rightarrow> nat" where
  "count48 s = (let n = 256 * unat (snd (dr_count s)) + unat (fst (dr_count s)) in if n = 0 then 65536 else n)"

text \<open>The next sector of a transfer to the host makes the drive busy again.\<close>

definition send_next :: "u8 list list \<Rightarrow> drive \<Rightarrow> drive" where
  "send_next ss s =
     (case ss of [] \<Rightarrow> s\<lparr>dr_phase := Idle\<rparr> | x # xs \<Rightarrow> s\<lparr>dr_phase := Sending (sector_words x) xs, dr_busy := dr_delay s\<rparr>)"

definition drive_abort :: "drive \<Rightarrow> drive" where
  "drive_abort s = s\<lparr>dr_phase := Idle, dr_error := True, dr_busy := dr_delay s\<rparr>"

definition drive_transfer :: "bool \<Rightarrow> nat \<Rightarrow> nat \<Rightarrow> drive \<Rightarrow> drive" where
  "drive_transfer to_host a n s =
     (if dr_sel s AND 0x40 \<noteq> 0 \<and> a + n \<le> length (dr_disc s) then
        (if to_host then send_next (take n (drop a (dr_disc s))) (s\<lparr>dr_error := False\<rparr>)
         else s\<lparr>dr_phase := Receiving a [] n, dr_error := False, dr_busy := dr_delay s\<rparr>)
      else drive_abort s)"

definition drive_command :: "u8 \<Rightarrow> drive \<Rightarrow> drive" where
  "drive_command c s =
     (if dr_sel s AND 0x10 \<noteq> device_bit (dr_unit s) \<or> dr_busy s > 0 \<and> \<not> dr_lax s then s
      else if c = 0x20 then drive_transfer True (lba28 s) (count28 s) s
      else if c = 0x24 then drive_transfer True (lba48 s) (count48 s) s
      else if c = 0x30 then drive_transfer False (lba28 s) (count28 s) s
      else if c = 0x34 then drive_transfer False (lba48 s) (count48 s) s
      else if c = 0xE7 \<or> c = 0xEA then s\<lparr>dr_phase := Idle, dr_error := False, dr_busy := dr_delay s\<rparr>
      else drive_abort s)"

text \<open>The data register.\<close>

definition drive_data_in :: "drive \<Rightarrow> u16 \<times> drive" where
  "drive_data_in s =
     (case dr_phase s of
        Sending (w # ws) ss \<Rightarrow> (w, if ws = [] then send_next ss s else s\<lparr>dr_phase := Sending ws ss\<rparr>)
      | _ \<Rightarrow> (0xFFFF, s))"

definition drive_data_out :: "u32 \<Rightarrow> drive \<Rightarrow> drive" where
  "drive_data_out v s =
     (case dr_phase s of
        Receiving a bs n \<Rightarrow>
          (let bs = bs @ word_bytes v
           in if length bs < 512 then s\<lparr>dr_phase := Receiving a bs n\<rparr>
              else s\<lparr>dr_disc := (dr_disc s)[a := bs], dr_phase := (if n \<le> 1 then Idle else Receiving (a + 1) [] (n - 1)), dr_busy := dr_delay s\<rparr>)
      | _ \<Rightarrow> s)"

text \<open>The ports of a drive.\<close>

definition pio_drive :: "'m ports \<Rightarrow> u32 \<Rightarrow> u32 \<Rightarrow> ('m \<Rightarrow> drive) \<Rightarrow> bool" where
  "pio_drive P b1 b2 \<alpha> \<longleftrightarrow>
     (\<forall>m. \<exists>m'. pt_in8 P (ucast (b1 + 7)) m = (drive_status (\<alpha> m), m') \<and> \<alpha> m' = drive_tick (\<alpha> m)) \<and>
     (\<forall>m. \<exists>m'. pt_in8 P (ucast (b2 + 2)) m = (drive_status (\<alpha> m), m') \<and> \<alpha> m' = drive_tick (\<alpha> m)) \<and>
     (\<forall>v m. \<alpha> (pt_out8 P (ucast (b1 + 7)) v m) = drive_command v (\<alpha> m)) \<and>
     (\<forall>v m. v AND 0x04 = 0 \<longrightarrow> \<alpha> (pt_out8 P (ucast (b2 + 2)) v m) = \<alpha> m) \<and>
     (\<forall>v m. \<alpha> (pt_out8 P (ucast (b1 + 2)) v m) = (\<alpha> m)\<lparr>dr_count := (v, fst (dr_count (\<alpha> m)))\<rparr>) \<and>
     (\<forall>v m. \<alpha> (pt_out8 P (ucast (b1 + 3)) v m) = (\<alpha> m)\<lparr>dr_lba0 := (v, fst (dr_lba0 (\<alpha> m)))\<rparr>) \<and>
     (\<forall>v m. \<alpha> (pt_out8 P (ucast (b1 + 4)) v m) = (\<alpha> m)\<lparr>dr_lba1 := (v, fst (dr_lba1 (\<alpha> m)))\<rparr>) \<and>
     (\<forall>v m. \<alpha> (pt_out8 P (ucast (b1 + 5)) v m) = (\<alpha> m)\<lparr>dr_lba2 := (v, fst (dr_lba2 (\<alpha> m)))\<rparr>) \<and>
     (\<forall>v m. \<alpha> (pt_out8 P (ucast (b1 + 6)) v m) = (\<alpha> m)\<lparr>dr_sel := v\<rparr>) \<and>
     (\<forall>m. \<exists>m'. pt_in16 P (ucast b1) m = (fst (drive_data_in (\<alpha> m)), m') \<and> \<alpha> m' = snd (drive_data_in (\<alpha> m))) \<and>
     (\<forall>v m. \<alpha> (pt_out32 P (ucast b1) v m) = drive_data_out v (\<alpha> m)) \<and>
     (\<forall>t m. \<alpha> (pt_sleep P t m) = \<alpha> m)"

text \<open>A drive between two commands, with the contents \<open>D\<close>.\<close>

definition drive_idle :: "ata_type \<Rightarrow> drive \<Rightarrow> u8 list list \<Rightarrow> bool" where
  "drive_idle u s D \<longleftrightarrow> dr_phase s = Idle \<and> dr_busy s \<le> 0xFFF \<and> dr_delay s \<le> 0xFFF \<and> dr_unit s = u \<and> dr_disc s = D \<and> (\<forall>b \<in> set D. length b = 512)"

text \<open>A device of the driver for the drive.\<close>

definition device_for :: "u32 \<Rightarrow> u32 \<Rightarrow> ata_type \<Rightarrow> ata_dev \<Rightarrow> bool" where
  "device_for b1 b2 u d \<longleftrightarrow> ad_basePort d = b1 \<and> ad_basePort2 d = b2 \<and> ad_type d = u \<and> ad_lba d \<and> ad_mode d = ATA_MODE_LBA \<and> \<not> ad_dma d"

section \<open>Bytes and words\<close>

lemma word_of_words: "(ucast (a :: u16) + push_bit 16 (ucast (b :: u16)) :: u32) = ucast a OR push_bit 16 (ucast b)"
  by (rule disjunctive_add) (auto simp: bit_simps dest: bit_imp_le_length)

lemma word_bytes_words:
  "word_bytes (ucast (ucast a OR push_bit 8 (ucast b) :: u16) + push_bit 16 (ucast (ucast c OR push_bit 8 (ucast d) :: u16))) = [a, b, c, d]"
  unfolding word_of_words word_bytes_def
  by (simp, intro conjI; rule bit_word_eqI) (auto simp: bit_simps dest: bit_imp_le_length)

lemma word_bytes_word: "word_bytes (bytes_word [a, b, c, d]) = [a, b, c, d]"
  unfolding bytes_word_def word_bytes_def
  by (simp, intro conjI; rule bit_word_eqI) (auto simp: bit_simps dest: bit_imp_le_length)

lemma length_4_cases: "length xs = 4 \<Longrightarrow> \<exists>a b c d. xs = [a, b, c, d]"
  by (auto simp: eval_nat_numeral length_Suc_conv)


text \<open>The address bytes put together again.\<close>

lemma low_byte: "(ucast (w AND 0xFF) :: u8) = ucast w" for w :: u32
proof -
  have e: "w AND 0xFF = take_bit 8 w"
    by (simp add: take_bit_eq_mask mask_eq_exp_minus_1)
  show ?thesis
    unfolding e by (rule bit_word_eqI) (auto simp: bit_simps)
qed

lemma small_bits: "(w :: u32) < 0x10000000 \<Longrightarrow> bit w n \<Longrightarrow> n < 28"
proof -
  assume "w < 0x10000000" and b: "bit w n"
  then have "unat w < 2 ^ 28" by (simp add: word_less_nat_alt)
  then have "take_bit 28 w = w"
    by (metis take_bit_nat_eq_self unsigned_take_bit_eq word_unat_eq_iff)
  with b show "n < 28" by (metis bit_take_bit_iff)
qed

lemma high_nibble:
  fixes w :: u32
  assumes "w < 0x10000000"
  shows "(ucast (drop_bit 24 (w AND 0xF000000)) :: u8) = ucast (drop_bit 24 w)"
proof -
  have e: "drop_bit 24 (w AND 0xF000000) = take_bit 4 (drop_bit 24 w)"
    by (simp add: drop_bit_and take_bit_eq_mask mask_eq_exp_minus_1)
  show ?thesis
    unfolding e by (rule bit_word_eqI) (auto simp: bit_simps dest: small_bits [OF assms])
qed

lemma nibble:
  fixes w :: u32
  assumes "w < 0x10000000"
  shows "(ucast (drop_bit 24 w) :: u8) AND 0x0F = ucast (drop_bit 24 w)"
proof -
  have e: "(ucast (drop_bit 24 w) :: u8) AND 0x0F = take_bit 4 (ucast (drop_bit 24 w))"
    by (simp add: take_bit_eq_mask mask_eq_exp_minus_1)
  show ?thesis
    unfolding e by (rule bit_word_eqI) (auto simp: bit_simps dest: small_bits [OF assms])
qed

lemma bytes32:
  "(ucast (ucast w :: u8) OR push_bit 8 (ucast (ucast (drop_bit 8 w) :: u8)) OR push_bit 16 (ucast (ucast (drop_bit 16 w) :: u8)) OR
     push_bit 24 (ucast (ucast (drop_bit 24 w) :: u8)) :: u64) = ucast w" for w :: u32
proof (rule bit_word_eqI)
  fix n
  assume "n < LENGTH(64)"
  consider "n < 8" | "8 \<le> n" "n < 16" | "16 \<le> n" "n < 24" | "24 \<le> n"
    by linarith
  then show "bit (ucast (ucast w :: u8) OR push_bit 8 (ucast (ucast (drop_bit 8 w) :: u8)) OR push_bit 16 (ucast (ucast (drop_bit 16 w) :: u8)) OR
     push_bit 24 (ucast (ucast (drop_bit 24 w) :: u8)) :: u64) n = bit (ucast w :: u64) n"
    using \<open>n < LENGTH(64)\<close> by cases (auto simp: bit_simps dest: bit_imp_le_length)
qed

lemma bytes16: "(ucast (ucast h :: u8) OR push_bit 8 (ucast (ucast (drop_bit 8 h) :: u8)) :: u64) = ucast (ucast h :: u16)" for h :: u32
  by (rule bit_word_eqI) (auto simp: bit_simps dest: bit_imp_le_length)

lemma bytes48:
  "(ucast (ucast w :: u8) OR push_bit 8 (ucast (ucast (drop_bit 8 w) :: u8)) OR push_bit 16 (ucast (ucast (drop_bit 16 w) :: u8)) OR
     push_bit 24 (ucast (ucast (drop_bit 24 w) :: u8)) OR push_bit 32 (ucast (ucast h :: u8)) OR push_bit 40 (ucast (ucast (drop_bit 8 h) :: u8)) :: u64) =
   ucast w OR push_bit 32 (ucast (ucast h :: u16))" for w h :: u32
proof -
  have "push_bit 32 (ucast (ucast h :: u8)) OR push_bit 40 (ucast (ucast (drop_bit 8 h) :: u8)) =
      (push_bit 32 (ucast (ucast h :: u8) OR push_bit 8 (ucast (ucast (drop_bit 8 h) :: u8))) :: u64)"
    by (simp add: push_bit_or)
  then show ?thesis
    unfolding bytes16 bytes32 [symmetric] by (simp only: or.assoc)
qed

lemma unat_48:
  fixes w h :: u32
  assumes "unat h < 2 ^ 16"
  shows "unat (ucast w OR push_bit 32 (ucast (ucast h :: u16)) :: u64) = unat w + 2 ^ 32 * unat h"
proof -
  have "unat (ucast h :: u16) = take_bit LENGTH(16) (unat h)"
    by (rule unsigned_ucast_eq)
  also have "\<dots> = unat h"
    by (rule take_bit_nat_eq_self) (use assms in simp)
  finally have "unat (ucast h :: u16) = unat h" .
  note h16 = this
  have "unat (ucast (ucast h :: u16) :: u64) = take_bit LENGTH(64) (unat (ucast h :: u16))"
    by (rule unsigned_ucast_eq)
  also have "\<dots> = unat (ucast h :: u16)"
    by (rule take_bit_nat_eq_self) (use assms in \<open>simp add: h16\<close>)
  finally have h: "unat (ucast (ucast h :: u16) :: u64) = unat h"
    using h16 by simp
  have p: "unat (push_bit 32 (ucast (ucast h :: u16)) :: u64) = 2 ^ 32 * unat h"
    using assms h by (simp add: push_bit_eq_mult unat_times_eq)
  have "(ucast w OR push_bit 32 (ucast (ucast h :: u16)) :: u64) = ucast w + push_bit 32 (ucast (ucast h :: u16))"
    by (rule disjunctive_add [symmetric]) (auto simp: bit_simps dest: bit_imp_le_length)
  moreover have "unat (ucast w :: u64) + unat (push_bit 32 (ucast (ucast h :: u16)) :: u64) < 2 ^ 64"
    using unat_u32_less [of w] assms p by simp
  ultimately show ?thesis
    using p by (simp add: unat_plus_eq)
qed

section \<open>Status and waiting\<close>

text \<open>The device \<open>d\<close> drives the drive \<open>\<alpha>\<close>.\<close>

definition attached :: "'m ports \<Rightarrow> ('m \<Rightarrow> drive) \<Rightarrow> ata_type \<Rightarrow> ata_dev \<Rightarrow> bool" where
  "attached P \<alpha> u d \<longleftrightarrow> (\<exists>b1 b2. pio_drive P b1 b2 \<alpha> \<and> device_for b1 b2 u d)"

lemma attached_lba48: "attached P \<alpha> u (d\<lparr>ad_lba48 := b\<rparr>) \<longleftrightarrow> attached P \<alpha> u d"
  by (simp add: attached_def device_for_def)

lemma attached_in:
  assumes "attached P \<alpha> u d"
  shows "\<exists>m'. DevicePrivate_getStatus P d m = (drive_status (\<alpha> m), m') \<and> \<alpha> m' = drive_tick (\<alpha> m)"
    "\<alpha> (snd (DevicePrivate_read P (port_altStatus d) m)) = drive_tick (\<alpha> m)"
    "\<exists>m'. systemPortIn16 P (port_data d) m = (fst (drive_data_in (\<alpha> m)), m') \<and> \<alpha> m' = snd (drive_data_in (\<alpha> m))"
  using assms unfolding attached_def pio_drive_def device_for_def
  by (auto simp: DevicePrivate_getStatus_def DevicePrivate_read_def systemPortIn_def systemPortIn16_def port_defs) (metis snd_conv)

lemma attached_out:
  assumes "attached P \<alpha> u d"
  shows "\<alpha> (DevicePrivate_write P (port_command d) v m) = drive_command v (\<alpha> m)"
    "\<alpha> (DevicePrivate_write P (port_status d) v m) = drive_command v (\<alpha> m)"
    "v AND 0x04 = 0 \<Longrightarrow> \<alpha> (DevicePrivate_write P (port_control d) v m) = \<alpha> m"
    "\<alpha> (DevicePrivate_write P (port_secCount d) v m) = (\<alpha> m)\<lparr>dr_count := (v, fst (dr_count (\<alpha> m)))\<rparr>"
    "\<alpha> (DevicePrivate_write P (port_LBA0 d) v m) = (\<alpha> m)\<lparr>dr_lba0 := (v, fst (dr_lba0 (\<alpha> m)))\<rparr>"
    "\<alpha> (DevicePrivate_write P (port_LBA1 d) v m) = (\<alpha> m)\<lparr>dr_lba1 := (v, fst (dr_lba1 (\<alpha> m)))\<rparr>"
    "\<alpha> (DevicePrivate_write P (port_LBA2 d) v m) = (\<alpha> m)\<lparr>dr_lba2 := (v, fst (dr_lba2 (\<alpha> m)))\<rparr>"
    "\<alpha> (DevicePrivate_write P (port_LBA3 d) v m) = (\<alpha> m)\<lparr>dr_lba0 := (v, fst (dr_lba0 (\<alpha> m)))\<rparr>"
    "\<alpha> (DevicePrivate_write P (port_LBA4 d) v m) = (\<alpha> m)\<lparr>dr_lba1 := (v, fst (dr_lba1 (\<alpha> m)))\<rparr>"
    "\<alpha> (DevicePrivate_write P (port_LBA5 d) v m) = (\<alpha> m)\<lparr>dr_lba2 := (v, fst (dr_lba2 (\<alpha> m)))\<rparr>"
    "\<alpha> (DevicePrivate_write P (port_devSel d) v m) = (\<alpha> m)\<lparr>dr_sel := v\<rparr>"
    "\<alpha> (systemPortOut32 P (port_data d) w m) = drive_data_out w (\<alpha> m)"
    "\<alpha> (pt_sleep P t m) = \<alpha> m"
  using assms unfolding attached_def pio_drive_def device_for_def
  by (auto simp: DevicePrivate_write_def systemPortOut_def systemPortOut32_def port_defs)

definition settled :: "drive \<Rightarrow> drive" where
  "settled s = s\<lparr>dr_busy := 0\<rparr>"

lemma settled_simps [simp]:
  "dr_busy (settled s) = 0" "dr_phase (settled s) = dr_phase s" "dr_error (settled s) = dr_error s" "dr_count (settled s) = dr_count s"
  "dr_lba0 (settled s) = dr_lba0 s" "dr_lba1 (settled s) = dr_lba1 s" "dr_lba2 (settled s) = dr_lba2 s" "dr_sel (settled s) = dr_sel s"
  "dr_unit (settled s) = dr_unit s" "dr_delay (settled s) = dr_delay s" "dr_lax (settled s) = dr_lax s" "dr_disc (settled s) = dr_disc s"
  "drive_tick (settled s) = settled s" "settled (drive_tick s) = settled s" "settled (settled s) = settled s"
  by (simp_all add: settled_def drive_tick_def)

lemma settled_id: "dr_busy s = 0 \<Longrightarrow> settled s = s"
  by (simp add: settled_def)

lemma alt_reads_on: "attached P \<alpha> u d \<Longrightarrow> \<alpha> (alt_reads k P d m) = (drive_tick ^^ k) (\<alpha> m)"
  by (induction k arbitrary: m) (simp_all add: attached_in(2) funpow_Suc_right del: funpow.simps)

lemma ticks: "settled ((drive_tick ^^ k) s) = settled s \<and> dr_busy ((drive_tick ^^ k) s) \<le> dr_busy s"
  by (induction k) (auto simp: drive_tick_def settled_def)

lemma wait_on:
  assumes "attached P \<alpha> u d"
  shows "settled (\<alpha> (DevicePrivate_wait P d m)) = settled (\<alpha> m)" "dr_busy (\<alpha> (DevicePrivate_wait P d m)) \<le> dr_busy (\<alpha> m)"
  using alt_reads_on [OF assms, of 5 m] ticks [of 5 "\<alpha> m"] by (simp_all add: DevicePrivate_wait_def attached_out(13) [OF assms])

lemma wait_settled:
  assumes "attached P \<alpha> u d" "dr_busy (\<alpha> m) = 0"
  shows "\<alpha> (DevicePrivate_wait P d m) = \<alpha> m"
  using wait_on [OF assms(1), of m] assms(2) settled_id by (metis le_zero_eq)

lemma status_busy: "drive_status s AND ATA_STATUS_BUSY \<noteq> 0 \<longleftrightarrow> 0 < dr_busy s"
  by (simp add: drive_status_def ATA_STATUS_BUSY_def)

lemma status_bits:
  assumes "dr_busy s = 0"
  shows "drive_status s AND ATA_STATUS_ERROR = (if dr_error s then 1 else 0)"
    "drive_status s AND ATA_STATUS_DRQ = (if dr_phase s = Idle then 0 else ATA_STATUS_DRQ)"
    "drive_status s AND ATA_STATUS_DF = 0"
  using assms by (simp_all add: drive_status_def ATA_STATUS_ERROR_def ATA_STATUS_DRQ_def ATA_STATUS_DF_def)

lemma busy_loop_on:
  assumes "attached P \<alpha> u d"
  shows "unat cnt + dr_busy (\<alpha> m) \<le> 0xFFF \<Longrightarrow> \<exists>m'. busy_loop P d cnt m = (True, m') \<and> \<alpha> m' = settled (\<alpha> m)"
proof (induction "dr_busy (\<alpha> m)" arbitrary: cnt m)
  case 0
  obtain m1 where g: "DevicePrivate_getStatus P d m = (drive_status (\<alpha> m), m1)" "\<alpha> m1 = drive_tick (\<alpha> m)"
    using attached_in(1) [OF assms] by blast
  have c: "\<not> cnt > ATA_MAX_WAIT_CNT"
    using 0(2) by (simp add: ATA_MAX_WAIT_CNT_def word_less_nat_alt)
  have s: "drive_status (\<alpha> m) AND ATA_STATUS_BUSY = 0"
    using status_busy [of "\<alpha> m"] 0(1) by auto
  show ?case
    using g c s 0(1) by (subst busy_loop.simps) (simp add: settled_def drive_tick_def)
next
  case (Suc k)
  obtain m1 where g: "DevicePrivate_getStatus P d m = (drive_status (\<alpha> m), m1)" "\<alpha> m1 = drive_tick (\<alpha> m)"
    using attached_in(1) [OF assms] by blast
  have c: "\<not> cnt > ATA_MAX_WAIT_CNT"
    using Suc(3) by (simp add: ATA_MAX_WAIT_CNT_def word_less_nat_alt)
  have s: "drive_status (\<alpha> m) AND ATA_STATUS_BUSY \<noteq> 0"
    using status_busy [of "\<alpha> m"] Suc(2) by auto
  have "k = dr_busy (\<alpha> m1)" "unat (cnt + 1) + dr_busy (\<alpha> m1) \<le> 0xFFF"
    using g(2) Suc(2,3) count_step(1) [OF c] by (simp_all add: drive_tick_def)
  from Suc(1) [OF this] obtain m' where "busy_loop P d (cnt + 1) m1 = (True, m')" "\<alpha> m' = settled (\<alpha> m1)"
    by blast
  then show ?case
    using g c s by (subst busy_loop.simps) simp
qed

lemma waitStatus_on:
  assumes "attached P \<alpha> u d" "dr_busy (\<alpha> m) \<le> 0xFFF"
  obtains m' where "DevicePrivate_waitStatus P d 0 y m = (True, m')" "\<alpha> m' = settled (\<alpha> m)"
  using busy_loop_on [OF assms(1), of 0 m] assms(2) by (auto simp: DevicePrivate_waitStatus_def)

lemma waitStatus_extra_on:
  assumes "attached P \<alpha> u d" "dr_busy (\<alpha> m) \<le> 0xFFF" "drive_status (settled (\<alpha> m)) AND x = y"
  obtains m' where "DevicePrivate_waitStatus P d x y m = (True, m')" "\<alpha> m' = settled (\<alpha> m)"
proof -
  obtain m1 where 1: "busy_loop P d 0 m = (True, m1)" "\<alpha> m1 = settled (\<alpha> m)"
    using busy_loop_on [OF assms(1), of 0 m] assms(2) by auto
  obtain m2 where 2: "DevicePrivate_getStatus P d m1 = (drive_status (\<alpha> m1), m2)" "\<alpha> m2 = drive_tick (\<alpha> m1)"
    using attached_in(1) [OF assms(1)] by blast
  have "\<alpha> (DevicePrivate_wait P d m2) = settled (\<alpha> m)"
    using wait_settled [OF assms(1), of m2] 1(2) 2(2) by simp
  moreover have "extra_loop P d x y 0 m1 = (True, DevicePrivate_wait P d m2)"
    using 1(2) 2(1) assms(3) by (subst extra_loop.simps) (simp add: ATA_MAX_WAIT_CNT_def)
  ultimately show thesis
    using 1 that by (cases "x > 0") (auto simp: DevicePrivate_waitStatus_def)
qed


section \<open>Preparing an access\<close>

lemma reset_on:
  assumes "attached P \<alpha> u d" "drive_idle u (\<alpha> m) D"
  obtains m' where "DevicePrivate_reset P d m = (True, m')" "drive_idle u (\<alpha> m') D" "dr_busy (\<alpha> m') = 0"
proof -
  let ?m1 = "DevicePrivate_write P (port_status d) 0 (DevicePrivate_write P (port_status d) 4 m)"
  have 1: "drive_idle u (\<alpha> ?m1) D"
    using assms(2) by (simp add: attached_out(2) [OF assms(1)] drive_idle_def drive_command_def drive_abort_def)
  have b: "dr_busy (\<alpha> (DevicePrivate_wait P d ?m1)) \<le> 0xFFF"
    using wait_on(2) [OF assms(1), of ?m1] 1 unfolding drive_idle_def by linarith
  obtain m' where "DevicePrivate_waitStatus P d 0 0 (DevicePrivate_wait P d ?m1) = (True, m')"
    "\<alpha> m' = settled (\<alpha> (DevicePrivate_wait P d ?m1))"
    by (rule waitStatus_on [OF assms(1) b])
  moreover have "drive_idle u (settled (\<alpha> ?m1)) D"
    using 1 by (simp add: drive_idle_def)
  ultimately show thesis
    using wait_on(1) [OF assms(1), of ?m1] by (intro that [of m']) (auto simp: DevicePrivate_reset_def)
qed

lemma select_on:
  assumes "attached P \<alpha> u d" "dr_busy (\<alpha> m) = 0"
  shows "\<alpha> (DevicePrivate_select P d h m) = (\<alpha> m)\<lparr>dr_sel := ATA_DEVSEL_CONST OR ad_mode d OR device_bit (ad_type d) OR h\<rparr>"
  using assms by (simp add: DevicePrivate_select_def wait_settled [OF assms(1)] attached_out(11) [OF assms(1)])

lemma lo_writes_on:
  assumes "attached P \<alpha> u d"
  shows "\<alpha> (lo_writes P d n io m) = (\<alpha> m)\<lparr>dr_count := (ucast n, fst (dr_count (\<alpha> m))), dr_lba0 := (io ! 0, fst (dr_lba0 (\<alpha> m))),
    dr_lba1 := (io ! 1, fst (dr_lba1 (\<alpha> m))), dr_lba2 := (io ! 2, fst (dr_lba2 (\<alpha> m)))\<rparr>"
  by (simp add: lo_writes_def DevicePrivate_setLo_def attached_out [OF assms])

lemma hi_writes_on:
  assumes "attached P \<alpha> u d"
  shows "\<alpha> (hi_writes P d io m) = (\<alpha> m)\<lparr>dr_count := (0, fst (dr_count (\<alpha> m))), dr_lba0 := (io ! 3, fst (dr_lba0 (\<alpha> m))),
    dr_lba1 := (io ! 4, fst (dr_lba1 (\<alpha> m))), dr_lba2 := (io ! 5, fst (dr_lba2 (\<alpha> m)))\<rparr>"
  by (simp add: hi_writes_def DevicePrivate_setLo_def DevicePrivate_setHi_def attached_out [OF assms])

lemma device_select_bits:
  assumes "h AND 0x0F = h"
  shows "(ATA_DEVSEL_CONST OR ATA_MODE_LBA OR device_bit t OR h) AND 0x10 = device_bit t"
    "(ATA_DEVSEL_CONST OR ATA_MODE_LBA OR device_bit t OR h) AND 0x40 \<noteq> 0"
    "(ATA_DEVSEL_CONST OR ATA_MODE_LBA OR device_bit t OR h) AND 0x0F = h"
proof -
  have "h AND 0x10 = h AND (0x0F AND 0x10)" "h AND 0x40 = h AND (0x0F AND 0x40)"
    using assms by (metis and.assoc)+
  then have z: "h AND 0x10 = 0" "h AND 0x40 = 0"
    by simp_all
  show "(ATA_DEVSEL_CONST OR ATA_MODE_LBA OR device_bit t OR h) AND 0x10 = device_bit t"
    "(ATA_DEVSEL_CONST OR ATA_MODE_LBA OR device_bit t OR h) AND 0x40 \<noteq> 0"
    "(ATA_DEVSEL_CONST OR ATA_MODE_LBA OR device_bit t OR h) AND 0x0F = h"
    using z assms by (cases t; simp add: ATA_DEVSEL_CONST_def ATA_MODE_LBA_def device_bit_def bit.conj_disj_distrib2)+
qed

text \<open>Whether an access is a 48-bit one, and the sector that it addresses.\<close>

definition wants_lba48 :: "u32 \<Rightarrow> u32 \<Rightarrow> bool" where
  "wants_lba48 addr hi \<longleftrightarrow> addr \<ge> 0x10000000 \<or> hi > 0"

definition target :: "u32 \<Rightarrow> u32 \<Rightarrow> nat" where
  "target addr hi = unat addr + 2 ^ 32 * unat hi"

lemma access_address_on:
  assumes "ad_lba d"
  shows "access_address addr hi d = Some
    ([ucast addr, ucast (drop_bit 8 addr), ucast (drop_bit 16 addr)] @
     (if wants_lba48 addr hi then [ucast (drop_bit 24 addr), ucast hi, ucast (drop_bit 8 hi)] else [0, 0, 0]),
     if wants_lba48 addr hi then 0 else ucast (drop_bit 24 addr), if wants_lba48 addr hi then d\<lparr>ad_lba48 := True\<rparr> else d)"
  using assms high_nibble [of addr] by (auto simp: access_address_def wants_lba48_def low_byte not_le)

text \<open>The drive as it stands before a command: it is ready, and its registers hold the number of sectors and the address.\<close>

definition programmed :: "ata_type \<Rightarrow> drive \<Rightarrow> u8 list list \<Rightarrow> u16 \<Rightarrow> u32 \<Rightarrow> u32 \<Rightarrow> bool" where
  "programmed u s D n addr hi \<longleftrightarrow> drive_idle u s D \<and> dr_busy s = 0 \<and> dr_sel s AND 0x10 = device_bit u \<and> dr_sel s AND 0x40 \<noteq> 0 \<and>
     (if wants_lba48 addr hi then lba48 s = target addr hi \<and> count48 s = unat n else lba28 s = target addr hi \<and> count28 s = unat n)"

lemma prepareAccess_on:
  assumes "attached P \<alpha> u d" "drive_idle u (\<alpha> m) D" "0 < unat n" "unat n < 256" "unat hi < 2 ^ 16"
  obtains m' where "DevicePrivate_prepareAccess P n addr hi d m = Some (True, d\<lparr>ad_lba48 := wants_lba48 addr hi\<rparr>, m')"
    "programmed u (\<alpha> m') D n addr hi"
proof -
  let ?dz = "d\<lparr>ad_lba48 := False\<rparr>" and ?d = "d\<lparr>ad_lba48 := wants_lba48 addr hi\<rparr>"
  have at: "attached P \<alpha> u ?dz" "attached P \<alpha> u ?d"
    using assms(1) by (simp_all add: attached_lba48)
  have d: "ad_lba d" "ad_mode d = ATA_MODE_LBA" "ad_type d = u"
    using assms(1) by (auto simp: attached_def device_for_def)
  obtain io head where a: "access_address addr hi ?dz = Some (io, head, ?d)"
    "io = [ucast addr, ucast (drop_bit 8 addr), ucast (drop_bit 16 addr)] @
      (if wants_lba48 addr hi then [ucast (drop_bit 24 addr), ucast hi, ucast (drop_bit 8 hi)] else [0, 0, 0])"
    "head = (if wants_lba48 addr hi then 0 else ucast (drop_bit 24 addr))"
    using access_address_on [of ?dz addr hi] d(1) by auto
  obtain m1 where 1: "DevicePrivate_reset P ?dz m = (True, m1)" "drive_idle u (\<alpha> m1) D" "dr_busy (\<alpha> m1) = 0"
    by (rule reset_on [OF at(1) assms(2)])
  obtain m2 where 2: "DevicePrivate_waitStatus P ?d 0 0 m1 = (True, m2)" "\<alpha> m2 = \<alpha> m1"
    using waitStatus_on [OF at(2), of m1 0 thesis] 1(3) by (auto simp: settled_id)
  define sel where "sel = ATA_DEVSEL_CONST OR ATA_MODE_LBA OR device_bit u OR head"
  have s: "\<alpha> (DevicePrivate_select P ?d head m2) = (\<alpha> m1)\<lparr>dr_sel := sel\<rparr>"
    using select_on [OF at(2)] 2(2) 1(3) d by (simp add: sel_def)
  obtain m3 where 3: "DevicePrivate_waitStatus P ?d 0 0 (DevicePrivate_select P ?d head m2) = (True, m3)" "\<alpha> m3 = (\<alpha> m1)\<lparr>dr_sel := sel\<rparr>"
    using waitStatus_on [OF at(2), of "DevicePrivate_select P ?d head m2" 0 thesis] s 1(3) by (auto simp: settled_id)
  let ?m = "lo_writes P ?d n io (if wants_lba48 addr hi then hi_writes P ?d io m3 else m3)"
  have r: "DevicePrivate_prepareAccess P n addr hi d m = Some (True, ?d, ?m)"
    using 1(1) a(1) 2(1) 3(1) by (cases "wants_lba48 addr hi") (simp_all add: DevicePrivate_prepareAccess_def Let_def)
  have hd: "head AND 0x0F = head"
    using a(3) nibble [of addr] by (auto simp: wants_lba48_def not_le)
  note bits = device_select_bits [OF hd, of u, folded sel_def]
  have nn: "unat (ucast n :: u8) = unat n"
  proof -
    have "unat (ucast n :: u8) = take_bit LENGTH(8) (unat n)"
      by (rule unsigned_ucast_eq)
    also have "\<dots> = unat n"
      by (rule take_bit_nat_eq_self) (use assms(4) in simp)
    finally show ?thesis .
  qed
  have nz: "(ucast n :: u8) \<noteq> 0"
    using nn assms(3) by auto
  have al: "\<alpha> ?m = (if wants_lba48 addr hi
      then (\<alpha> m1)\<lparr>dr_sel := sel, dr_count := (ucast n, 0), dr_lba0 := (io ! 0, io ! 3), dr_lba1 := (io ! 1, io ! 4), dr_lba2 := (io ! 2, io ! 5)\<rparr>
      else (\<alpha> m1)\<lparr>dr_sel := sel, dr_count := (ucast n, fst (dr_count (\<alpha> m1))), dr_lba0 := (io ! 0, fst (dr_lba0 (\<alpha> m1))),
        dr_lba1 := (io ! 1, fst (dr_lba1 (\<alpha> m1))), dr_lba2 := (io ! 2, fst (dr_lba2 (\<alpha> m1)))\<rparr>)"
    using hi_writes_on [OF at(2), of io m3] by (subst lo_writes_on [OF at(2)]) (auto simp: 3(2))
  have "programmed u (\<alpha> ?m) D n addr hi"
  proof (cases "wants_lba48 addr hi")
    case True
    then show ?thesis
      unfolding al using 1(2,3) bits nn assms(3) unat_48 [OF assms(5), of addr]
      by (simp add: programmed_def drive_idle_def lba48_def count48_def target_def a(2) bytes48)
  next
    case False
    then have "hi = 0" "addr < 0x10000000"
      by (auto simp: wants_lba48_def not_le not_less)
    then show ?thesis
      unfolding al using 1(2,3) bits nn nz False
      by (simp add: programmed_def drive_idle_def lba28_def count28_def target_def a(2) a(3) bytes32)
  qed
  with r show thesis
    by (rule that)
qed


section \<open>Reading sectors\<close>

text \<open>A drive that sends the sectors \<open>xs\<close>.\<close>

definition sending :: "ata_type \<Rightarrow> drive \<Rightarrow> u8 list list \<Rightarrow> u8 list list \<Rightarrow> bool" where
  "sending u s D xs \<longleftrightarrow> dr_phase s = (case xs of [] \<Rightarrow> Idle | x # xs \<Rightarrow> Sending (sector_words x) xs) \<and> dr_busy s \<le> 0xFFF \<and>
     dr_delay s \<le> 0xFFF \<and> \<not> dr_error s \<and> dr_unit s = u \<and> dr_disc s = D"

lemma sending_settled [simp]: "sending u s D xs \<Longrightarrow> sending u (settled s) D xs"
  by (simp add: sending_def)

lemma sending_next: "sending u s D (x # xs) \<Longrightarrow> sending u (send_next xs s) D xs"
  by (auto simp: sending_def send_next_def split: list.split)

lemma send_next_phase: "send_next ss (s\<lparr>dr_phase := p\<rparr>) = send_next ss s"
  by (cases ss) (simp_all add: send_next_def)

lemma sector_words_Nil: "length bs = 4 * k \<Longrightarrow> sector_words bs = [] \<longleftrightarrow> k = 0"
proof (cases k)
  case (Suc j)
  moreover assume "length bs = 4 * k"
  ultimately obtain a b cs where "bs = a # b # cs"
    by (cases bs; cases "tl bs") auto
  then show ?thesis
    using Suc by simp
qed simp

text \<open>Writing two pieces behind each other.\<close>

lemma splice_splice:
  assumes "off + k \<le> length buf" "length xs = k"
  shows "take (off + k) (take off buf @ xs @ drop (off + k) buf) @ ys @ drop (off + k + n) (take off buf @ xs @ drop (off + k) buf) =
    take off buf @ (xs @ ys) @ drop (off + k + n) buf"
proof -
  have "length (take off buf @ xs) = off + k"
    using assms by simp
  then have "take (off + k) ((take off buf @ xs) @ drop (off + k) buf) = take off buf @ xs"
    "drop (off + k + n) ((take off buf @ xs) @ drop (off + k) buf) = drop (off + k + n) buf"
    by (simp_all add: add.commute [of n])
  then show ?thesis
    by simp
qed

lemma readBuffer_on:
  assumes "attached P \<alpha> u d"
  shows "length bs = 4 * Suc k \<Longrightarrow> 4 * Suc k < 2 ^ 32 \<Longrightarrow> off + 4 * Suc k \<le> length buf \<Longrightarrow>
    dr_phase (\<alpha> m) = Sending (sector_words bs) ss \<Longrightarrow>
    \<exists>m'. DevicePrivate_readBuffer P (port_data d) buf off (of_nat (4 * Suc k)) m = Some (take off buf @ bs @ drop (off + 4 * Suc k) buf, m') \<and>
      \<alpha> m' = send_next ss (\<alpha> m)"
proof (induction k arbitrary: bs off buf m)
  case (0 bs off buf m)
  have "length bs = 4"
    using 0(1) by simp
  then obtain a b c e where bs: "bs = [a, b, c, e]"
    using length_4_cases by blast
  obtain m1 where 1: "systemPortIn16 P (port_data d) m = (ucast a OR push_bit 8 (ucast b), m1)"
    "\<alpha> m1 = (\<alpha> m)\<lparr>dr_phase := Sending [ucast c OR push_bit 8 (ucast e)] ss\<rparr>"
    using attached_in(3) [OF assms, of m] 0(4) bs by (auto simp: drive_data_in_def)
  obtain m2 where 2: "systemPortIn16 P (port_data d) m1 = (ucast c OR push_bit 8 (ucast e), m2)" "\<alpha> m2 = send_next ss (\<alpha> m)"
    using attached_in(3) [OF assms, of m1] 1(2) by (auto simp: drive_data_in_def send_next_phase)
  have w: "buf_write off bs buf = Some (take off buf @ bs @ drop (off + 4) buf)"
    using 0(3) unfolding bs by (simp add: buf_write_def eval_nat_numeral)
  have e: "DevicePrivate_readBuffer P (port_data d) b' o' 0 m2 = Some (b', m2)" for b' o'
    by (subst DevicePrivate_readBuffer.simps) simp
  have "DevicePrivate_readBuffer P (port_data d) buf off 4 m = Some (take off buf @ bs @ drop (off + 4) buf, m2)"
    using 1(1) 2(1) w e word_bytes_words [of a b c e] bs by (subst DevicePrivate_readBuffer.simps) simp
  then show ?case
    using 2(2) by auto
next
  case (Suc k bs off buf m)
  obtain a b c e cs where bs: "bs = a # b # c # e # cs" and cs: "length cs = 4 * Suc k"
  proof -
    have "length (take 4 bs) = 4"
      using Suc.prems(1) by simp
    then obtain a b c e where "take 4 bs = [a, b, c, e]"
      using length_4_cases by blast
    then show thesis
      using that [of a b c e "drop 4 bs"] Suc.prems(1) append_take_drop_id [of 4 bs] by simp
  qed
  have nn: "sector_words cs \<noteq> []"
    using sector_words_Nil [OF cs] by simp
  obtain m1 where 1: "systemPortIn16 P (port_data d) m = (ucast a OR push_bit 8 (ucast b), m1)"
    "\<alpha> m1 = (\<alpha> m)\<lparr>dr_phase := Sending ((ucast c OR push_bit 8 (ucast e)) # sector_words cs) ss\<rparr>"
    using attached_in(3) [OF assms, of m] Suc.prems(4) bs by (auto simp: drive_data_in_def)
  obtain m2 where 2: "systemPortIn16 P (port_data d) m1 = (ucast c OR push_bit 8 (ucast e), m2)" "\<alpha> m2 = (\<alpha> m)\<lparr>dr_phase := Sending (sector_words cs) ss\<rparr>"
    using attached_in(3) [OF assms, of m1] 1(2) nn by (auto simp: drive_data_in_def)
  let ?buf = "take off buf @ [a, b, c, e] @ drop (off + 4) buf"
  have w: "buf_write off [a, b, c, e] buf = Some ?buf"
    using Suc.prems(3) by (simp add: buf_write_def eval_nat_numeral)
  obtain m' where 3: "DevicePrivate_readBuffer P (port_data d) ?buf (off + 4) (of_nat (4 * Suc k)) m2 =
      Some (take (off + 4) ?buf @ cs @ drop (off + 4 + 4 * Suc k) ?buf, m')" "\<alpha> m' = send_next ss (\<alpha> m2)"
  proof -
    have 1: "4 * Suc k < 2 ^ 32" "off + 4 + 4 * Suc k \<le> length ?buf" "dr_phase (\<alpha> m2) = Sending (sector_words cs) ss"
      using Suc.prems(2,3) 2(2) by simp_all
    from Suc.IH [OF cs this] that show thesis
      by blast
  qed
  have st: "(0 :: u32) < of_nat (4 * Suc (Suc k))" "(of_nat (4 * Suc (Suc k)) :: u32) - 4 = of_nat (4 * Suc k)"
    using of_nat_4_step [OF Suc.prems(2)] by auto
  have "DevicePrivate_readBuffer P (port_data d) buf off (of_nat (4 * Suc (Suc k))) m =
      Some (take (off + 4) ?buf @ cs @ drop (off + 4 + 4 * Suc k) ?buf, m')"
    using 1(1) 2(1) w word_bytes_words [of a b c e] st 3(1)
    by (subst DevicePrivate_readBuffer.simps) (simp del: of_nat_Suc of_nat_mult)
  moreover have "take (off + 4) ?buf @ cs @ drop (off + 4 + 4 * Suc k) ?buf = take off buf @ bs @ drop (off + 4 * Suc (Suc k)) buf"
    using splice_splice [of off 4 buf "[a, b, c, e]" cs "4 * Suc k"] Suc.prems(3) bs by (simp add: add.left_commute)
  ultimately show ?case
    using 3(2) 2(2) send_next_phase by auto
qed

lemma poll_on:
  assumes "attached P \<alpha> u d" "dr_busy (\<alpha> m) \<le> 0xFFF" "x \<longrightarrow> \<not> dr_error (\<alpha> m) \<and> dr_phase (\<alpha> m) \<noteq> Idle"
  obtains m' where "DevicePrivate_poll P d x m = (True, m')" "\<alpha> m' = settled (\<alpha> m)"
proof -
  let ?w = "DevicePrivate_wait P d m"
  have w: "dr_busy (\<alpha> ?w) \<le> 0xFFF" "settled (\<alpha> ?w) = settled (\<alpha> m)"
    using wait_on [OF assms(1), of m] assms(2) by auto
  obtain m1 where 1: "DevicePrivate_waitStatus P d 0 0 ?w = (True, m1)" "\<alpha> m1 = settled (\<alpha> m)"
    using waitStatus_on [OF assms(1) w(1), of 0 thesis] w(2) by auto
  obtain m2 where 2: "DevicePrivate_getStatus P d m1 = (drive_status (\<alpha> m1), m2)" "\<alpha> m2 = settled (\<alpha> m)"
    using attached_in(1) [OF assms(1), of m1] 1(2) by auto
  have "ATA_STATUS_DRQ \<noteq> 0"
    by (simp add: ATA_STATUS_DRQ_def)
  then show thesis
    using 1 2 assms(3) that status_bits [of "settled (\<alpha> m)"] by (cases x) (auto simp: DevicePrivate_poll_def)
qed

lemma read_sectors_on:
  assumes "attached P \<alpha> u d"
  shows "sending u (\<alpha> m) D xs \<Longrightarrow> \<forall>x \<in> set xs. length x = 512 \<Longrightarrow> off + 512 * length xs \<le> length buf \<Longrightarrow>
    \<exists>m'. read_sectors P d (length xs) off buf m = Some (True, take off buf @ concat xs @ drop (off + 512 * length xs) buf, m') \<and> sending u (\<alpha> m') D []"
proof (induction xs arbitrary: off buf m)
  case Nil
  then show ?case
    by auto
next
  case (Cons x xs)
  obtain m1 where 1: "DevicePrivate_poll P d True m = (True, m1)" "\<alpha> m1 = settled (\<alpha> m)"
    using poll_on [OF assms, of m True thesis] Cons.prems(1) by (auto simp: sending_def)
  have s1: "sending u (\<alpha> m1) D (x # xs)"
    using Cons.prems(1) 1(2) by simp
  obtain m2 where 2: "DevicePrivate_readBuffer P (port_data d) buf off 512 m1 = Some (take off buf @ x @ drop (off + 512) buf, m2)"
    "\<alpha> m2 = send_next xs (\<alpha> m1)"
    using readBuffer_on [OF assms, of x 127 off buf m1 xs] s1 Cons.prems(2,3) by (auto simp: sending_def)
  let ?buf = "take off buf @ x @ drop (off + 512) buf"
  have s2: "sending u (\<alpha> m2) D xs"
    using sending_next [OF s1] 2(2) by simp
  obtain m' where 3: "read_sectors P d (length xs) (off + 512) ?buf m2 =
      Some (True, take (off + 512) ?buf @ concat xs @ drop (off + 512 + 512 * length xs) ?buf, m')" "sending u (\<alpha> m') D []"
    using Cons.IH [OF s2, of "off + 512" ?buf] Cons.prems(2,3) by (auto simp: le_diff_conv2)
  moreover have "take (off + 512) ?buf @ concat xs @ drop (off + 512 + 512 * length xs) ?buf =
      take off buf @ concat (x # xs) @ drop (off + 512 * length (x # xs)) buf"
    using splice_splice [of off 512 buf x "concat xs" "512 * length xs"] Cons.prems(2,3) by (simp add: add.assoc)
  ultimately show ?case
    using 1(1) 2(1) by auto
qed


lemma read_command_on:
  assumes "programmed u s D n addr hi" "0 < unat n" "target addr hi + unat n \<le> length D" "ad_lba48 d = wants_lba48 addr hi" "\<not> ad_dma d"
  shows "sending u (drive_command (read_command d) s) D (take (unat n) (drop (target addr hi) D))"
proof -
  let ?xs = "take (unat n) (drop (target addr hi) D)"
  have "drive_command (read_command d) s = send_next ?xs (s\<lparr>dr_error := False\<rparr>)"
    using assms
    by (cases "wants_lba48 addr hi")
      (auto simp: programmed_def drive_idle_def drive_command_def drive_transfer_def read_command_def ATA_CMD_READ_48_def ATA_CMD_READ_def)
  moreover have "?xs \<noteq> []"
    using assms(2,3) by auto
  ultimately show ?thesis
    using assms(1) by (auto simp: send_next_def sending_def programmed_def drive_idle_def split: list.split)
qed

theorem readSector_on:
  assumes "attached P \<alpha> u d" "drive_idle u (\<alpha> m) D" "0 < unat n" "unat n < 256" "unat hi < 2 ^ 16"
    "target addr hi + unat n \<le> length D" "512 * unat n \<le> length buf"
  shows "\<exists>m'. DevicePrivate_readSector P (Some buf) n addr hi d m =
      Some (True, Some (concat (take (unat n) (drop (target addr hi) D)) @ drop (512 * unat n) buf), d\<lparr>ad_lba48 := wants_lba48 addr hi\<rparr>, m') \<and>
    drive_idle u (\<alpha> m') D"
proof -
  let ?d = "d\<lparr>ad_lba48 := wants_lba48 addr hi\<rparr>" and ?xs = "take (unat n) (drop (target addr hi) D)"
  have at: "attached P \<alpha> u ?d" and dma: "\<not> ad_dma ?d"
    using assms(1) by (auto simp: attached_lba48 attached_def device_for_def)
  obtain m1 where 1: "DevicePrivate_prepareAccess P n addr hi d m = Some (True, ?d, m1)" "programmed u (\<alpha> m1) D n addr hi"
    by (rule prepareAccess_on [OF assms(1-5)])
  let ?m2 = "DevicePrivate_write P (port_command ?d) (read_command ?d) m1"
  have s2: "sending u (\<alpha> ?m2) D ?xs"
    using read_command_on [OF 1(2) assms(3,6), of ?d] dma by (simp add: attached_out(1) [OF at])
  have len: "length ?xs = unat n" and xs: "\<forall>x \<in> set ?xs. length x = 512"
    using assms(2,6) by (auto simp: drive_idle_def dest!: in_set_takeD in_set_dropD)
  have ne: "dr_phase (\<alpha> ?m2) \<noteq> Idle"
    using s2 len assms(3) by (auto simp: sending_def split: list.splits)
  obtain m3 where 3: "DevicePrivate_waitStatus P ?d ATA_STATUS_ERROR 0 ?m2 = (True, m3)" "\<alpha> m3 = settled (\<alpha> ?m2)"
    using waitStatus_extra_on [OF at, of ?m2 ATA_STATUS_ERROR 0 thesis] s2 status_bits [of "settled (\<alpha> ?m2)"] by (auto simp: sending_def)
  obtain m4 where 4: "DevicePrivate_waitStatus P ?d ATA_STATUS_DRQ ATA_STATUS_DRQ m3 = (True, m4)" "\<alpha> m4 = settled (\<alpha> ?m2)"
    using waitStatus_extra_on [OF at, of m3 ATA_STATUS_DRQ ATA_STATUS_DRQ thesis] 3(2) ne status_bits [of "settled (\<alpha> ?m2)"] by auto
  obtain m5 where 5: "read_sectors P ?d (unat n) 0 buf m4 = Some (True, concat ?xs @ drop (512 * unat n) buf, m5)" "sending u (\<alpha> m5) D []"
    using read_sectors_on [OF at, of m4 D ?xs 0 buf] s2 4(2) xs len assms(7) by auto
  have "drive_idle u (\<alpha> (DevicePrivate_wait P ?d m5)) D"
  proof -
    have "dr_busy (\<alpha> (DevicePrivate_wait P ?d m5)) \<le> 0xFFF"
      using wait_on(2) [OF at, of m5] 5(2) by (auto simp: sending_def)
    moreover have "drive_idle u (settled (\<alpha> (DevicePrivate_wait P ?d m5))) D"
      using wait_on(1) [OF at, of m5] 5(2) assms(2) by (simp add: sending_def drive_idle_def)
    ultimately show ?thesis
      by (simp add: drive_idle_def)
  qed
  then show ?thesis
    using 1(1) 3(1) 4(1) 5(1) dma by (auto simp: DevicePrivate_readSector_def)
qed


section \<open>Writing sectors\<close>

lemma writeBuffer_on:
  assumes "attached P \<alpha> u d"
  shows "length acc + 4 * Suc k = 512 \<Longrightarrow> off + 4 * Suc k \<le> length buf \<Longrightarrow> dr_phase (\<alpha> m) = Receiving a acc n \<Longrightarrow>
    \<exists>m'. DevicePrivate_writeBuffer P (port_data d) buf off (of_nat (4 * Suc k)) m = Some m' \<and>
      \<alpha> m' = (\<alpha> m)\<lparr>dr_disc := (dr_disc (\<alpha> m))[a := acc @ take (4 * Suc k) (drop off buf)],
        dr_phase := (if n \<le> 1 then Idle else Receiving (a + 1) [] (n - 1)), dr_busy := dr_delay (\<alpha> m)\<rparr>"
proof (induction k arbitrary: acc off m)
  case (0 acc off m)
  then have "length (take 4 (drop off buf)) = 4"
    by simp
  then obtain b c e f where bs: "take 4 (drop off buf) = [b, c, e, f]"
    using length_4_cases by blast
  have r: "buf_read off 4 buf = Some [b, c, e, f]"
    using 0(2) bs by (simp add: buf_read_def)
  have e: "DevicePrivate_writeBuffer P (port_data d) buf o' 0 m2 = Some m2" for o' m2
    by (subst DevicePrivate_writeBuffer.simps) simp
  have "DevicePrivate_writeBuffer P (port_data d) buf off 4 m = Some (systemPortOut32 P (port_data d) (bytes_word [b, c, e, f]) m)"
    using r e by (subst DevicePrivate_writeBuffer.simps) simp
  moreover have "\<alpha> (systemPortOut32 P (port_data d) (bytes_word [b, c, e, f]) m) =
      (\<alpha> m)\<lparr>dr_disc := (dr_disc (\<alpha> m))[a := acc @ [b, c, e, f]],
        dr_phase := (if n \<le> 1 then Idle else Receiving (a + 1) [] (n - 1)), dr_busy := dr_delay (\<alpha> m)\<rparr>"
    using 0(1,3) by (simp add: attached_out(12) [OF assms] drive_data_out_def word_bytes_word)
  ultimately show ?case
    using bs by auto
next
  case (Suc k acc off m)
  then have "length (take 4 (drop off buf)) = 4"
    by simp
  then obtain b c e f where bs: "take 4 (drop off buf) = [b, c, e, f]"
    using length_4_cases by blast
  have r: "buf_read off 4 buf = Some [b, c, e, f]"
    using Suc.prems(2) bs by (simp add: buf_read_def)
  let ?m1 = "systemPortOut32 P (port_data d) (bytes_word [b, c, e, f]) m"
  have 1: "\<alpha> ?m1 = (\<alpha> m)\<lparr>dr_phase := Receiving a (acc @ [b, c, e, f]) n\<rparr>"
    using Suc.prems(1,3) by (simp add: attached_out(12) [OF assms] drive_data_out_def word_bytes_word)
  have st: "(0 :: u32) < of_nat (4 * Suc (Suc k))" "(of_nat (4 * Suc (Suc k)) :: u32) - 4 = of_nat (4 * Suc k)"
    using of_nat_4_step [of "Suc k"] Suc.prems(1) by auto
  have "DevicePrivate_writeBuffer P (port_data d) buf off (of_nat (4 * Suc (Suc k))) m =
      DevicePrivate_writeBuffer P (port_data d) buf (off + 4) (of_nat (4 * Suc k)) ?m1"
    using r st by (subst DevicePrivate_writeBuffer.simps) (simp del: of_nat_Suc of_nat_mult)
  moreover have "take (4 * Suc (Suc k)) (drop off buf) = [b, c, e, f] @ take (4 * Suc k) (drop (off + 4) buf)"
    using take_add [of 4 "4 * Suc k" "drop off buf"] bs by (simp add: add.commute)
  moreover have "length (acc @ [b, c, e, f]) + 4 * Suc k = 512" "off + 4 + 4 * Suc k \<le> length buf"
    using Suc.prems(1,2) by simp_all
  ultimately show ?case
    using Suc.IH [of "acc @ [b, c, e, f]" "off + 4" ?m1] 1 by simp
qed

text \<open>A drive that waits for \<open>n\<close> sectors from \<open>a\<close> on.\<close>

definition receiving :: "ata_type \<Rightarrow> drive \<Rightarrow> u8 list list \<Rightarrow> nat \<Rightarrow> nat \<Rightarrow> bool" where
  "receiving u s D a n \<longleftrightarrow> dr_phase s = (if n = 0 then Idle else Receiving a [] n) \<and> dr_busy s \<le> 0xFFF \<and> dr_delay s \<le> 0xFFF \<and>
     dr_unit s = u \<and> dr_disc s = D"

text \<open>The sectors in a buffer from a position on.\<close>

definition sectors_at :: "nat \<Rightarrow> nat \<Rightarrow> u8 list \<Rightarrow> u8 list list" where
  "sectors_at off n buf = map (\<lambda>i. take 512 (drop (off + 512 * i) buf)) [0..<n]"

lemma sectors_at_Suc: "sectors_at off (Suc n) buf = take 512 (drop off buf) # sectors_at (off + 512) n buf"
  by (simp add: sectors_at_def upt_conv_Cons map_Suc_upt [symmetric] del: upt_Suc) (simp add: add.assoc)

lemma sectors_at_0 [simp]: "sectors_at off 0 buf = []"
  by (simp add: sectors_at_def)

lemma length_sectors_at [simp]: "length (sectors_at off n buf) = n"
  by (simp add: sectors_at_def)

lemma write_sectors_on:
  assumes "attached P \<alpha> u d"
  shows "receiving u (\<alpha> m) D a n \<Longrightarrow> a + n \<le> length D \<Longrightarrow> off + 512 * n \<le> length buf \<Longrightarrow>
    \<exists>m'. write_sectors P d n off buf m = Some (True, m') \<and>
      receiving u (\<alpha> m') (take a D @ sectors_at off n buf @ drop (a + n) D) (a + n) 0"
proof (induction n arbitrary: a D off m)
  case 0
  then show ?case
    by (auto simp: receiving_def)
next
  case (Suc n a D off m)
  obtain m1 where 1: "DevicePrivate_poll P d False m = (True, m1)" "\<alpha> m1 = settled (\<alpha> m)"
    using poll_on [OF assms, of m False thesis] Suc.prems(1) by (auto simp: receiving_def)
  let ?x = "take 512 (drop off buf)"
  have "dr_phase (\<alpha> m1) = Receiving a [] (Suc n)"
    using Suc.prems(1) 1(2) by (simp add: receiving_def)
  with writeBuffer_on [OF assms, of "[]" 127 off buf m1 a "Suc n"] Suc.prems(3)
  obtain m2 where 2: "DevicePrivate_writeBuffer P (port_data d) buf off 512 m1 = Some m2"
    "\<alpha> m2 = (\<alpha> m1)\<lparr>dr_disc := (dr_disc (\<alpha> m1))[a := ?x], dr_phase := (if Suc n \<le> 1 then Idle else Receiving (a + 1) [] (Suc n - 1)),
       dr_busy := dr_delay (\<alpha> m1)\<rparr>"
    by auto
  have s2: "receiving u (\<alpha> m2) (D[a := ?x]) (Suc a) n"
    using Suc.prems(1) 1(2) 2(2) by (simp add: receiving_def)
  obtain m' where 3: "write_sectors P d n (off + 512) buf m2 = Some (True, m')"
    "receiving u (\<alpha> m') (take (Suc a) (D[a := ?x]) @ sectors_at (off + 512) n buf @ drop (Suc a + n) (D[a := ?x])) (Suc a + n) 0"
    using Suc.IH [OF s2, of "off + 512"] Suc.prems(2,3) by auto
  have "take (Suc a) (D[a := ?x]) = take a D @ [?x]"
    using Suc.prems(2) by (simp add: take_Suc_conv_app_nth)
  then show ?case
    using 1(1) 2(1) 3 by (simp add: sectors_at_Suc)
qed

lemma write_command_on:
  assumes "programmed u s D n addr hi" "0 < unat n" "target addr hi + unat n \<le> length D" "ad_lba48 d = wants_lba48 addr hi" "\<not> ad_dma d"
  shows "receiving u (drive_command (write_command d) s) D (target addr hi) (unat n)"
  using assms
  by (cases "wants_lba48 addr hi")
    (auto simp: programmed_def drive_idle_def drive_command_def drive_transfer_def write_command_def ATA_CMD_WRITE_48_def ATA_CMD_WRITE_def receiving_def)

lemma flush_command_on:
  assumes "receiving u s D a 0" "\<forall>b \<in> set D. length b = 512"
  shows "drive_idle u (drive_command (flush_command d) s) D"
  using assms by (auto simp: receiving_def drive_idle_def drive_command_def flush_command_def ATA_CMD_FLUSH_48_def ATA_CMD_FLUSH_def)

theorem writeSector_on:
  assumes "attached P \<alpha> u d" "drive_idle u (\<alpha> m) D" "0 < unat n" "unat n < 256" "unat hi < 2 ^ 16"
    "target addr hi + unat n \<le> length D" "512 * unat n \<le> length buf"
  shows "\<exists>m'. DevicePrivate_writeSector P (Some buf) n addr hi d m = Some (True, d\<lparr>ad_lba48 := wants_lba48 addr hi\<rparr>, m') \<and>
    drive_idle u (\<alpha> m') (take (target addr hi) D @ sectors_at 0 (unat n) buf @ drop (target addr hi + unat n) D)"
proof -
  let ?d = "d\<lparr>ad_lba48 := wants_lba48 addr hi\<rparr>"
  let ?D = "take (target addr hi) D @ sectors_at 0 (unat n) buf @ drop (target addr hi + unat n) D"
  have at: "attached P \<alpha> u ?d" and dma: "\<not> ad_dma ?d"
    using assms(1) by (auto simp: attached_lba48 attached_def device_for_def)
  obtain m1 where 1: "DevicePrivate_prepareAccess P n addr hi d m = Some (True, ?d, m1)" "programmed u (\<alpha> m1) D n addr hi"
    by (rule prepareAccess_on [OF assms(1-5)])
  let ?m2 = "DevicePrivate_write P (port_command ?d) (write_command ?d) m1"
  have s2: "receiving u (\<alpha> ?m2) D (target addr hi) (unat n)"
    using write_command_on [OF 1(2) assms(3,6), of ?d] dma by (simp add: attached_out(1) [OF at])
  obtain m3 where 3: "write_sectors P ?d (unat n) 0 buf ?m2 = Some (True, m3)" "receiving u (\<alpha> m3) ?D (target addr hi + unat n) 0"
    using write_sectors_on [OF at s2 assms(6), of 0 buf] assms(7) by auto
  let ?m4 = "DevicePrivate_write P (port_command ?d) (flush_command ?d) m3"
  have "\<forall>b \<in> set ?D. length b = 512"
    using assms(2,7) by (auto simp: drive_idle_def sectors_at_def dest!: in_set_takeD in_set_dropD)
  then have s4: "drive_idle u (\<alpha> ?m4) ?D"
    using flush_command_on [OF 3(2)] by (simp add: attached_out(1) [OF at])
  obtain m5 where 5: "DevicePrivate_poll P ?d False ?m4 = (True, m5)" "\<alpha> m5 = settled (\<alpha> ?m4)"
    using poll_on [OF at, of ?m4 False thesis] s4 by (auto simp: drive_idle_def)
  have "drive_idle u (\<alpha> m5) ?D"
    using s4 5(2) by (simp add: drive_idle_def)
  then show ?thesis
    using 1(1) 3(1) 5(1) dma by (auto simp: DevicePrivate_writeSector_def)
qed

end
