(* ===== verification/Ata_Phys.thy ===== *)
theory Ata_Phys
  imports Ata_Disc
begin

text \<open>
  \<^verbatim>\<open>ATAPhys\<close> (\<^verbatim>\<open>src/ata.cpp\<close>), the ATA driver as the physical device of a file system.

  The laws: \<^verbatim>\<open>ATAPhys\<close> transfers the sectors at its position, although each access first reads sector 0 into a local array;
  with a drive behind its ports it is a \<open>sector_device\<close>, so that the laws of ClothesFS hold on it: a file that is stored
  on a formatted drive is read back.  \<open>lab_ports\<close> is a drive of 16 sectors at the usual ports of the first controller.
\<close>

section \<open>The device\<close>

definition ATAPhys :: "(nat \<Rightarrow> u8) \<Rightarrow> 'm ports \<Rightarrow> ptr \<Rightarrow> u64 \<Rightarrow> (ata \<times> 'm) fsphys" where
  "ATAPhys junk P dev sz =
     \<lparr>fp_read = \<lambda>buf sectors pos pos_hi (a, m). do {
        (ok, buffer, a, m) \<leftarrow> ATAPhys_read junk P dev (Some buf) sectors pos pos_hi a m;
        bs \<leftarrow> buffer;
        Some (ok, bs, (a, m)) },
      fp_write = \<lambda>buf sectors pos pos_hi (a, m). do {
        (ok, a, m) \<leftarrow> ATAPhys_write junk P dev (Some buf) sectors pos pos_hi a m;
        Some (ok, (a, m)) },
      fp_size = sz, fp_sectorSize = ATAPhys_sectorSize\<rparr>"

text \<open>The driver object with the flag of the last access of its device.\<close>

abbreviation last_access :: "nat \<Rightarrow> ata_dev \<Rightarrow> bool \<Rightarrow> ata \<Rightarrow> ata" where
  "last_access x d b a \<equiv> a\<lparr>at_devs := (at_devs a)(x \<mapsto> d\<lparr>ad_lba48 := b\<rparr>)\<rparr>"

lemma select_idle:
  assumes "attached P \<alpha> u d" "drive_idle u (\<alpha> m) D"
  shows "drive_idle u (\<alpha> (DevicePrivate_select P d h m)) D"
proof -
  let ?m1 = "DevicePrivate_write P (port_devSel d) (ATA_DEVSEL_CONST OR ad_mode d OR device_bit (ad_type d) OR h) m"
  have 1: "drive_idle u (\<alpha> ?m1) D"
    using assms(2) by (simp add: attached_out(11) [OF assms(1)] drive_idle_def)
  have 2: "dr_busy (\<alpha> (DevicePrivate_wait P d ?m1)) \<le> 0xFFF"
    using wait_on(2) [OF assms(1), of ?m1] 1 unfolding drive_idle_def by linarith
  have "drive_idle u (settled (\<alpha> (DevicePrivate_wait P d ?m1))) D"
    using 1 by (simp add: wait_on(1) [OF assms(1)] drive_idle_def)
  with 2 show ?thesis
    by (simp add: DevicePrivate_select_def drive_idle_def)
qed

lemma ATA_select_on:
  assumes "at_devs a x = Some d" "attached P \<alpha> u d" "drive_idle u (\<alpha> m) D" "D \<noteq> []"
  obtains m' where "ATA_select junk P (Some x) a m = Some (True, last_access x d False a, m')" "drive_idle u (\<alpha> m') D"
proof -
  have "1 \<le> length D"
    using assms(4) by (cases D) auto
  with readSector_on [OF assms(2) select_idle [OF assms(2,3)], of 1 0 0 "new_buffer junk 512" 0]
  obtain t m' where "DevicePrivate_readSector P (Some (new_buffer junk 512)) 1 0 0 d (DevicePrivate_select P d 0 m) =
      Some (True, t, d\<lparr>ad_lba48 := False\<rparr>, m')" "drive_idle u (\<alpha> m') D"
    by (auto simp: target_def wants_lba48_def new_buffer_def)
  with assms(1) show thesis
    by (intro that [of m']) (simp_all add: ATA_select_def)
qed

lemma narrow_count:
  assumes "unat (n :: u32) < 256"
  shows "unat (ucast n :: u16) = unat n"
proof -
  have "unat (ucast n :: u16) = take_bit LENGTH(16) (unat n)"
    by (rule unsigned_ucast_eq)
  also have "\<dots> = unat n"
    by (rule take_bit_nat_eq_self) (use assms in simp)
  finally show ?thesis .
qed

lemma ATAPhys_on:
  fixes n pos hi :: u32
  assumes "at_devs a x = Some d" "attached P \<alpha> u d" "drive_idle u (\<alpha> m) D" "0 < unat n" "unat n < 256" "unat hi < 2 ^ 16"
    "s = unat pos div 512 + 2 ^ 32 * unat hi" "s + unat n \<le> length D" "512 * unat n \<le> length buf"
  shows "\<exists>b m'. ATAPhys_read junk P (Some x) (Some buf) n pos hi a m =
        Some (True, Some (concat (take (unat n) (drop s D)) @ drop (512 * unat n) buf), last_access x d b a, m') \<and> drive_idle u (\<alpha> m') D"
    "\<exists>b m'. ATAPhys_write junk P (Some x) (Some buf) n pos hi a m = Some (True, last_access x d b a, m') \<and>
        drive_idle u (\<alpha> m') (take s D @ sectors_at 0 (unat n) buf @ drop (s + unat n) D)"
proof -
  have "D \<noteq> []"
    using assms(4,8) by auto
  then obtain m1 where 1: "ATA_select junk P (Some x) a m = Some (True, last_access x d False a, m1)" "drive_idle u (\<alpha> m1) D"
    using ATA_select_on [OF assms(1-3)] by blast
  have at: "attached P \<alpha> u (d\<lparr>ad_lba48 := False\<rparr>)"
    using assms(2) by (simp add: attached_lba48)
  have t: "target (pos div 512) hi = s"
    using assms(7) by (simp add: target_def unat_div)
  note n = narrow_count [OF assms(5)]
  have h: "0 < unat (ucast n :: u16)" "unat (ucast n :: u16) < 256" "target (pos div 512) hi + unat (ucast n :: u16) \<le> length D"
    "512 * unat (ucast n :: u16) \<le> length buf"
    unfolding n t using assms by simp_all
  from readSector_on [OF at 1(2) h(1,2) assms(6) h(3,4)] 1(1)
  show "\<exists>b m'. ATAPhys_read junk P (Some x) (Some buf) n pos hi a m =
        Some (True, Some (concat (take (unat n) (drop s D)) @ drop (512 * unat n) buf), last_access x d b a, m') \<and> drive_idle u (\<alpha> m') D"
    unfolding n t by (auto simp: ATAPhys_read_def ATA_read_def)
  from writeSector_on [OF at 1(2) h(1,2) assms(6) h(3,4)] 1(1)
  show "\<exists>b m'. ATAPhys_write junk P (Some x) (Some buf) n pos hi a m = Some (True, last_access x d b a, m') \<and>
        drive_idle u (\<alpha> m') (take s D @ sectors_at 0 (unat n) buf @ drop (s + unat n) D)"
    unfolding n t by (auto simp: ATAPhys_write_def ATA_write_def)
qed

section \<open>A device of sectors\<close>

text \<open>The device at \<open>x\<close> drives an idle drive, whose capacity it knows.\<close>

definition ata_ready :: "'m ports \<Rightarrow> nat \<Rightarrow> ata_type \<Rightarrow> ('m \<Rightarrow> drive) \<Rightarrow> u32 \<Rightarrow> ata \<times> 'm \<Rightarrow> bool" where
  "ata_ready P x u \<alpha> sz am \<longleftrightarrow>
     (\<exists>d. at_devs (fst am) x = Some d \<and> attached P \<alpha> u d) \<and> ATA_deviceSize (Some x) (fst am) = Some sz \<and>
     drive_idle u (\<alpha> (snd am)) (dr_disc (\<alpha> (snd am))) \<and> unat sz = 512 * length (dr_disc (\<alpha> (snd am)))"

lemma ata_ready_last_access:
  assumes "ata_ready P x u \<alpha> sz (a, m)" "at_devs a x = Some d" "drive_idle u (\<alpha> m') D" "length D = length (dr_disc (\<alpha> m))"
  shows "ata_ready P x u \<alpha> sz (last_access x d b a, m')" "dr_disc (\<alpha> m') = D"
proof -
  show D: "dr_disc (\<alpha> m') = D"
    using assms(3) by (simp add: drive_idle_def)
  show "ata_ready P x u \<alpha> sz (last_access x d b a, m')"
    using assms D by (auto simp: ata_ready_def attached_lba48 ATA_deviceSize_def DevicePrivate_size_def)
qed

lemma ATAPhys_sector_device: "sector_device (ATAPhys junk P (Some x) (ucast sz)) (ata_ready P x u \<alpha> sz) (\<lambda>am. dr_disc (\<alpha> (snd am)))"
proof (unfold_locales, goal_cases)
  case 1
  show ?case
    by (simp add: ATAPhys_def ATAPhys_sectorSize_def)
next
  case (2 am)
  then show ?case
    by (simp add: ATAPhys_def ata_ready_def unat_widen)
next
  case 3
  show ?case
    using unat_u32_less [of sz] by (simp add: ATAPhys_def unat_widen)
next
  case (4 am b)
  then show ?case
    by (auto simp: ata_ready_def drive_idle_def)
next
  case (5 am b buf)
  obtain a m where am: "am = (a, m)"
    by (cases am)
  let ?D = "dr_disc (\<alpha> m)"
  obtain d where d: "at_devs a x = Some d" "attached P \<alpha> u d" "drive_idle u (\<alpha> m) ?D" "unat sz = 512 * length ?D"
    using 5(1) am by (auto simp: ata_ready_def)
  have b: "b < length ?D" and l: "length (?D ! b) = 512"
    using 5(2) am d(3) by (auto simp: drive_idle_def)
  have "unat (of_nat (512 * b) :: u32) = 512 * b"
    by (rule unat_of_nat_u32) (use b d(4) unat_u32_less [of sz] in linarith)
  then have s: "b = unat (of_nat (512 * b) :: u32) div 512 + 2 ^ 32 * unat (0 :: u32)"
    by simp
  have "take 1 (drop b ?D) = [?D ! b]"
    using b by (simp add: take_Suc_conv_app_nth Cons_nth_drop_Suc [symmetric])
  with ATAPhys_on(1) [OF d(1-3), where n = 1 and hi = 0 and s = b and pos = "of_nat (512 * b)" and buf = buf and junk = junk] s b 5(3)
  obtain fl m' where r: "ATAPhys_read junk P (Some x) (Some buf) 1 (of_nat (512 * b)) 0 a m = Some (True, Some (?D ! b), last_access x d fl a, m')"
    "drive_idle u (\<alpha> m') ?D"
    by (auto simp del: of_nat_mult)
  show ?case
    using ata_ready_last_access [OF 5(1) [unfolded am] d(1) r(2) refl] r(1) by (auto simp: am ATAPhys_def simp del: of_nat_mult)
next
  case (6 am b bs)
  obtain a m where am: "am = (a, m)"
    by (cases am)
  let ?D = "dr_disc (\<alpha> m)"
  obtain d where d: "at_devs a x = Some d" "attached P \<alpha> u d" "drive_idle u (\<alpha> m) ?D" "unat sz = 512 * length ?D"
    using 6(1) am by (auto simp: ata_ready_def)
  have b: "b < length ?D"
    using 6(2) am by simp
  have "unat (of_nat (512 * b) :: u32) = 512 * b"
    by (rule unat_of_nat_u32) (use b d(4) unat_u32_less [of sz] in linarith)
  then have s: "b = unat (of_nat (512 * b) :: u32) div 512 + 2 ^ 32 * unat (0 :: u32)"
    by simp
  have "take b ?D @ sectors_at 0 1 bs @ drop (b + 1) ?D = ?D[b := bs]"
    using b 6(3) by (simp add: sectors_at_def upd_conv_take_nth_drop)
  with ATAPhys_on(2) [OF d(1-3), where n = 1 and hi = 0 and s = b and pos = "of_nat (512 * b)" and buf = bs and junk = junk] s b 6(3)
  obtain fl m' where r: "ATAPhys_write junk P (Some x) (Some bs) 1 (of_nat (512 * b)) 0 a m = Some (True, last_access x d fl a, m')"
    "drive_idle u (\<alpha> m') (?D[b := bs])"
    by (auto simp del: of_nat_mult)
  show ?case
    using ata_ready_last_access [OF 6(1) [unfolded am] d(1) r(2)] r(1) by (auto simp: am ATAPhys_def simp del: of_nat_mult)
qed

section \<open>A drive to try the laws on\<close>

definition lab_ports :: "drive ports" where
  "lab_ports =
     \<lparr>pt_in8 = \<lambda>p s. if p = 0x1F7 \<or> p = 0x3F6 then (drive_status s, drive_tick s) else (0xFF, s),
      pt_in16 = \<lambda>p s. if p = 0x1F0 then drive_data_in s else (0xFFFF, s),
      pt_in32 = \<lambda>p s. (0xFFFFFFFF, s),
      pt_out8 = \<lambda>p v s.
        if p = 0x1F7 then drive_command v s
        else if p = 0x1F2 then s\<lparr>dr_count := (v, fst (dr_count s))\<rparr>
        else if p = 0x1F3 then s\<lparr>dr_lba0 := (v, fst (dr_lba0 s))\<rparr>
        else if p = 0x1F4 then s\<lparr>dr_lba1 := (v, fst (dr_lba1 s))\<rparr>
        else if p = 0x1F5 then s\<lparr>dr_lba2 := (v, fst (dr_lba2 s))\<rparr>
        else if p = 0x1F6 then s\<lparr>dr_sel := v\<rparr> else s,
      pt_out16 = \<lambda>p v s. s,
      pt_out32 = \<lambda>p v s. if p = 0x1F0 then drive_data_out v s else s,
      pt_sleep = \<lambda>t s. s, pt_alloc = \<lambda>s. (None, s)\<rparr>"

lemma lab_pio_drive: "pio_drive lab_ports 0x1F0 0x3F4 (\<lambda>s. s)"
  by (simp add: pio_drive_def lab_ports_def)

definition lab_device :: ata_dev where
  "lab_device = DevicePrivate_new\<lparr>ad_basePort := 0x1F0, ad_basePort2 := 0x3F4, ad_size := 8192, ad_avail := True, ad_lba := True,
     ad_mode := ATA_MODE_LBA, ad_model := Some STORAGE_PATA\<rparr>"

definition lab_ata :: ata where
  "lab_ata = (ATA_new True 1)\<lparr>at_devs := [0 \<mapsto> lab_device]\<rparr>"

definition lab_drive :: "u8 list list \<Rightarrow> drive" where
  "lab_drive D = \<lparr>dr_phase = Idle, dr_busy = 3, dr_error = True, dr_count = (0, 0), dr_lba0 = (0, 0), dr_lba1 = (0, 0), dr_lba2 = (0, 0),
     dr_sel = 0, dr_unit = ATAMaster, dr_delay = 40, dr_lax = False, dr_disc = D\<rparr>"

lemma lab_attached:
  "at_devs lab_ata 0 = Some lab_device" "attached lab_ports (\<lambda>s. s) ATAMaster lab_device"
  "\<forall>b \<in> set D. length b = 512 \<Longrightarrow> drive_idle ATAMaster (lab_drive D) D"
  using lab_pio_drive
  by (auto simp: attached_def device_for_def lab_device_def lab_ata_def DevicePrivate_new_def lab_drive_def drive_idle_def)

interpretation lab: sector_device "ATAPhys (\<lambda>_. 0) lab_ports (Some 0) (ucast (8192 :: u32))"
  "ata_ready lab_ports 0 ATAMaster (\<lambda>s. s) 8192" "\<lambda>am. dr_disc (snd am)"
  using ATAPhys_sector_device [of "\<lambda>_. 0" lab_ports 0 8192 ATAMaster "\<lambda>s. s"] by simp

section \<open>The properties\<close>

text \<open>
  C32: The ATA driver transfers the addressed sectors.  With an idle drive of any timing up to 4095 status reads behind its
  ports, a device in LBA mode reads from 1 to 255 sectors into the front of the buffer and leaves the rest of the buffer
  alone, and writes exactly the addressed sectors; 28-bit and 48-bit addresses alike.  The sector that \<^verbatim>\<open>ATAPhys\<close> addresses is
  \<^verbatim>\<open>pos / 512\<close> with \<^verbatim>\<open>pos_hi\<close> above its 32 bits.
\<close>

theorem ATAPhys_transfers:
  fixes n pos hi :: u32
  assumes "at_devs a x = Some d" "attached P \<alpha> u d" "drive_idle u (\<alpha> m) D" "0 < unat n" "unat n < 256" "unat hi < 2 ^ 16"
    "s = unat pos div 512 + 2 ^ 32 * unat hi" "s + unat n \<le> length D" "512 * unat n \<le> length buf"
  shows "(\<exists>b m'. ATAPhys_read junk P (Some x) (Some buf) n pos hi a m =
        Some (True, Some (concat (take (unat n) (drop s D)) @ drop (512 * unat n) buf), last_access x d b a, m') \<and> drive_idle u (\<alpha> m') D) \<and>
    (\<exists>b m'. ATAPhys_write junk P (Some x) (Some buf) n pos hi a m = Some (True, last_access x d b a, m') \<and>
        drive_idle u (\<alpha> m') (take s D @ sectors_at 0 (unat n) buf @ drop (s + unat n) D))"
  using ATAPhys_on [OF assms] by blast

theorem ATAPhys_transfers_witness:
  "\<exists>b m'. ATAPhys_read (\<lambda>_. 0) lab_ports (Some 0) (Some (replicate 600 1)) 1 1024 0 lab_ata (lab_drive (replicate 16 (replicate 512 7))) =
    Some (True, Some (replicate 512 7 @ replicate 88 1), last_access 0 lab_device b lab_ata, m')"
proof -
  have e: "concat (take 1 (drop 2 (replicate 16 (replicate 512 (7 :: u8))))) @ drop 512 (replicate 600 (1 :: u8)) =
      replicate 512 7 @ replicate 88 1"
    by (simp only: drop_replicate take_replicate) simp
  have "\<forall>b \<in> set (replicate 16 (replicate 512 (7 :: u8))). length b = 512"
    by simp
  from ATAPhys_transfers [OF lab_attached(1,2) lab_attached(3) [OF this], where n = 1 and pos = 1024 and hi = 0 and s = 2
      and buf = "replicate 600 1" and junk = "\<lambda>_. 0"] e
  show ?thesis
    by auto
qed

text \<open>
  C31: ClothesFS works on the ATA driver.  On a drive of at least three sectors more than the payload blocks, \<^verbatim>\<open>setPhysical\<close> and \<^verbatim>\<open>format\<close>
  make a file system, \<^verbatim>\<open>addFile\<close> stores a file in its root directory, on the sectors of the drive, and \<^verbatim>\<open>open\<close>
  opens it by its name; every step returns, and the drive is idle again behind it.  \<^verbatim>\<open>read\<close>, asked for \<open>cnt\<close> bytes, reports
  the smaller of 508 and \<open>cnt\<close>: the contents up to there, and zeros behind the end of a shorter file, whose length
  it does not look at.  The bytes of a longer file after the first 508 are stored but not read: the next read starts over.
\<close>

theorem clothes_on_ata:
  assumes "at_devs a x = Some d" "attached P \<alpha> u d" "drive_idle u (\<alpha> m) D" "ad_size d = sz" "unat sz = 512 * length D"
    "name_ok nm" "SLASH \<notin> set nm" "length (file_blocks xs) \<le> capacity (length nm)" "length xs < 2 ^ 64" "3 + length (file_blocks xs) \<le> length D"
  shows "\<exists>c0 c1 c2 h s. ClothesFS_setPhysical (Some (ATAPhys junk P (Some x) (ucast sz))) (ClothesFS_new blocks sectors (a, m)) = Some c0 \<and>
    ClothesFS_format junk volid c0 = Some (True, c1) \<and>
    ClothesFS_addFile junk 1 (Some nm) xs (of_nat (length xs)) c1 = Some (True, c2) \<and>
    ClothesFilesystem_open junk this nm flags (no_files c2) = Some (h, s) \<and>
    file_on (dr_disc (\<alpha> (snd (cfs_disc c2)))) 2 nm xs [3..<3 + length (file_blocks xs)] \<and>
    (\<forall>buf cnt. unat cnt \<le> length buf \<longrightarrow>
      (let n = min 508 (unat cnt) in \<exists>s'.
        ClothesFilesystem_read h buf cnt s = Some (int n, take n xs @ replicate (n - length xs) 0 @ drop n buf, s') \<and>
        ata_ready P x u \<alpha> sz (cfs_disc (cs_clothes s')) \<and>
        (\<forall>buf' cnt'. 508 \<le> unat cnt \<and> unat cnt' \<le> length buf' \<longrightarrow>
          (let n' = min 508 (unat cnt') in \<exists>s3.
            ClothesFilesystem_read h buf' cnt' s' = Some (int n', take n' xs @ replicate (n' - length xs) 0 @ drop n' buf', s3)))))"
proof -
  let ?p = "ATAPhys junk P (Some x) (ucast sz)" and ?ok = "ata_ready P x u \<alpha> sz" and ?disc = "\<lambda>am. dr_disc (\<alpha> (snd am))"
  note dev = ATAPhys_sector_device [of junk P x sz u \<alpha>]
  have D: "dr_disc (\<alpha> m) = D"
    using assms(3) by (simp add: drive_idle_def)
  have r: "?ok (a, m)"
    using assms(1-5) D by (auto simp: ata_ready_def ATA_deviceSize_def DevicePrivate_size_def)
  obtain c0 where c0: "ClothesFS_setPhysical (Some ?p) (ClothesFS_new blocks sectors (a, m)) = Some c0"
    "cfs_phys c0 = Some ?p" "cfs_blocksize c0 = 512" "cfs_disc c0 = (a, m)"
    using sector_device.sectorSize [OF dev] by (auto simp: ClothesFS_setPhysical_def ClothesFS_new_def)
  have "?ok (cfs_disc c0)" "length (?disc (cfs_disc c0)) = length D" "3 \<le> length D"
    using r D c0(4) assms(10) by simp_all
  from sector_device.format_on [OF dev c0(2,3) this, of junk volid]
  obtain c1 D1 where c1: "ClothesFS_format junk volid c0 = Some (True, c1)" "clothes_on ?p ?ok ?disc c1 D1" "length D1 = length D"
    "free_list D1 [2..<length D]" "meta_rep META_DIR [SLASH] [] (D1 ! 1)" "\<forall>b \<in> {2..<length D}. slice 0 4 (D1 ! b) = [0x42, 0, META_FREE, 0]"
    by blast
  define n where "n = length (file_blocks xs)"
  obtain r where "length D = 3 + n + r"
    using assms(10) le_Suc_ex unfolding n_def by blast
  then have "[2..<length D] = 2 # [3..<3 + n] @ [3 + n..<length D]"
    using upt_add_eq_append [of 2 "3 + n" r] by (simp add: upt_conv_Cons)
  then have f: "fs_ok D1 (2 # [3..<3 + n] @ [3 + n..<length D])"
    using format_fs_ok [of D1] c1(3-6) \<open>3 \<le> length D\<close> by simp
  have len: "length [3..<3 + n] = length (file_blocks xs)" "length [3..<3 + n] \<le> capacity (length nm)"
    "length ([] :: u32 list) < capacity (length [SLASH])"
    using assms(8) by (simp_all add: n_def capacity_def entry_start_def)
  obtain c2 D2 where c2: "ClothesFS_addFile junk 1 (Some nm) xs (of_nat (length xs)) c1 = Some (True, c2)" "clothes_on ?p ?ok ?disc c2 D2"
    "file_on D2 2 nm xs [3..<3 + n]"
    "\<forall>s M. cinv ?p ?ok ?disc D2 this s M \<and> croom s M \<longrightarrow>
      (\<exists>h s'. ClothesFilesystem_open junk this nm flags s = Some (h, s') \<and> 2 < h \<and> M h = None \<and>
        (\<forall>buf cnt. unat cnt \<le> length buf \<longrightarrow>
          (\<exists>s''. reads_block h buf cnt xs s' s'' \<and> clothes_on ?p ?ok ?disc (cs_clothes s'') D2 \<and>
            (\<forall>buf' cnt'. 508 \<le> unat cnt \<and> unat cnt' \<le> length buf' \<longrightarrow> (\<exists>s3. reads_block h buf' cnt' xs s'' s3)))))"
    using store_and_read_on [OF dev c1(2) f c1(5) len(3) assms(6,7) _ len(1,2) assms(9), of junk this flags] by auto
  have on: "?ok (cfs_disc c)" "dr_disc (\<alpha> (snd (cfs_disc c))) = E" if "clothes_on ?p ?ok ?disc c E" for c E
    using that by (simp_all add: clothes_on_def)
  obtain h s' where h: "ClothesFilesystem_open junk this nm flags (no_files c2) = Some (h, s')"
    "\<forall>buf cnt. unat cnt \<le> length buf \<longrightarrow>
      (\<exists>s''. reads_block h buf cnt xs s' s'' \<and> clothes_on ?p ?ok ?disc (cs_clothes s'') D2 \<and>
        (\<forall>buf' cnt'. 508 \<le> unat cnt \<and> unat cnt' \<le> length buf' \<longrightarrow> (\<exists>s3. reads_block h buf' cnt' xs s'' s3)))"
    using c2(4) [rule_format, of "no_files c2" Map.empty] no_files_inv [OF c2(2), of this] by blast
  have "\<forall>buf cnt. unat cnt \<le> length buf \<longrightarrow>
      (\<exists>s''. reads_block h buf cnt xs s' s'' \<and> ?ok (cfs_disc (cs_clothes s'')) \<and>
        (\<forall>buf' cnt'. 508 \<le> unat cnt \<and> unat cnt' \<le> length buf' \<longrightarrow> (\<exists>s3. reads_block h buf' cnt' xs s'' s3)))"
    using h(2) on(1) by meson
  then show ?thesis
    using c0(1) c1(1) c2(1,3) h(1) on(2) [OF c2(2)]
    by (intro exI [of _ c0] exI [of _ c1] exI [of _ c2] exI [of _ h] exI [of _ s']) (simp add: n_def reads_block_def padded_def Let_def)
qed

theorem clothes_on_ata_witness:
  "\<exists>c0 c1 c2 h s s'. ClothesFS_setPhysical (Some (ATAPhys (\<lambda>_. 0) lab_ports (Some 0) 8192))
      (ClothesFS_new 0 0 (lab_ata, lab_drive (replicate 16 (replicate 512 7)))) = Some c0 \<and>
    ClothesFS_format (\<lambda>_. 0) (Some [99]) c0 = Some (True, c1) \<and> ClothesFS_addFile (\<lambda>_. 0) 1 (Some [97]) [1, 2, 3] 3 c1 = Some (True, c2) \<and>
    ClothesFilesystem_open (\<lambda>_. 0) (Some 5) [97] 0 (no_files c2) = Some (h, s) \<and> ClothesFilesystem_read h [9, 9, 9, 9, 9] 4 s = Some (4, [1, 2, 3, 0, 9], s')"
proof -
  have i: "drive_idle ATAMaster (lab_drive (replicate 16 (replicate 512 7))) (replicate 16 (replicate 512 7))"
    by (rule lab_attached(3)) simp
  have n: "name_ok [97]" "SLASH \<notin> set [97]" "length (file_blocks [1, 2, 3]) \<le> capacity (length [97 :: u8])"
    "length [1, 2, 3 :: u8] < 2 ^ 64" "3 + length (file_blocks [1, 2, 3]) \<le> length (replicate 16 (replicate 512 (7 :: u8)))"
    by (simp_all add: name_ok_def entry_start_def capacity_def SLASH_def file_blocks.simps [of "[1, 2, 3]"])
  have z: "ad_size lab_device = 8192" "unat (8192 :: u32) = 512 * length (replicate 16 (replicate 512 (7 :: u8)))"
    by (simp_all add: lab_device_def)
  from clothes_on_ata [OF lab_attached(1,2) i z n, where junk = "\<lambda>_. 0" and blocks = 0 and sectors = 0 and volid = "Some [99]" and this = "Some 5" and flags = 0]
  obtain c0 c1 c2 h s where 1: "ClothesFS_setPhysical (Some (ATAPhys (\<lambda>_. 0) lab_ports (Some 0) (ucast (8192 :: u32))))
      (ClothesFS_new 0 0 (lab_ata, lab_drive (replicate 16 (replicate 512 7)))) = Some c0"
    "ClothesFS_format (\<lambda>_. 0) (Some [99]) c0 = Some (True, c1)"
    "ClothesFS_addFile (\<lambda>_. 0) 1 (Some [97]) [1, 2, 3] (of_nat (length [1, 2, 3 :: u8])) c1 = Some (True, c2)"
    "ClothesFilesystem_open (\<lambda>_. 0) (Some 5) [97] 0 (no_files c2) = Some (h, s)"
    "\<forall>buf cnt. unat cnt \<le> length buf \<longrightarrow>
      (let n = min 508 (unat cnt) in \<exists>s'.
        ClothesFilesystem_read h buf cnt s = Some (int n, take n [1, 2, 3] @ replicate (n - length [1, 2, 3 :: u8]) 0 @ drop n buf, s'))"
    by (simp only: Let_def) meson
  then have "\<exists>s'. ClothesFilesystem_read h [9, 9, 9, 9, 9] 4 s = Some (4, [1, 2, 3, 0, 9], s')"
    using 1(5) [rule_format, of 4 "[9, 9, 9, 9, 9]"] by (simp add: Let_def)
  with 1(1-4) show ?thesis
    by auto
qed

end
