(* ===== verification/Text_Console.thy ===== *)
theory Text_Console
  imports Pci_Bus
begin

text \<open>
  The text console: \<^verbatim>\<open>src/video.cpp\<close>, \<^verbatim>\<open>inc/video.h\<close> and \<^verbatim>\<open>arch/x86/videox86.cpp\<close>, in text mode, that is without a
  configured framebuffer.

  A \<open>video\<close> is a \<^verbatim>\<open>VideoX86\<close> object together with the two static variables of the serial port.  The video memory is the list of the
  words from \<^verbatim>\<open>m_videomem\<close> on that may be accessed, more than the screen; outside of it an access has no defined result.  The
  font is not modelled but for whether there is one: \<^verbatim>\<open>adapt\<close> gets its size.  A string is the list of its bytes, up to the first zero byte
  or the end of the list; \<^term>\<open>None\<close> is \<^verbatim>\<open>nullptr\<close>.  The arguments of \<^verbatim>\<open>vprintf\<close> are words and pairs of words, as they lie on the
  stack of the i386, or strings.  \<^verbatim>\<open>Timer::wait\<close> lets time go by: \<open>pt_sleep\<close>.

  The laws: every operation keeps the cursor on the screen and stays in the video memory, if this holds one line more than the
  screen and a format has no tab; a number is printed with the digits that
  denote it; text appears at the cursor; at the last line the screen moves by two lines.
\<close>

section \<open>State and constants\<close>

definition VIDEO_COLOR_MASK :: u16 where "VIDEO_COLOR_MASK = 0x0700"
definition CHAR_LF :: u8 where "CHAR_LF = 0x0A"
definition CHAR_CR :: u8 where "CHAR_CR = 0x0D"
definition CHAR_TAB :: u8 where "CHAR_TAB = 0x09"
definition CHAR_BS :: u8 where "CHAR_BS = 0x08"
definition CHAR_EMPTY :: u16 where "CHAR_EMPTY = 0x20"
definition TAB_SIZE :: u32 where "TAB_SIZE = 8"
definition SCROLL_SIZE :: u32 where "SCROLL_SIZE = 1"
definition CURSOR_PORT :: u16 where "CURSOR_PORT = 0x3D4"
definition COM1 :: u16 where "COM1 = 0x3F8"

record video =
  vd_mem :: "u16 list option"
  vd_font :: bool
  vd_x :: u32
  vd_y :: u32
  vd_width :: u32
  vd_height :: u32
  vd_origin :: u32
  vd_uart_initted :: bool
  vd_uart_avail :: bool

definition Video_new :: video where
  "Video_new = \<lparr>vd_mem = None, vd_font = False, vd_x = 0, vd_y = 0, vd_width = 80, vd_height = 25, vd_origin = 0,
     vd_uart_initted = False, vd_uart_avail = False\<rparr>"

text \<open>The constructor of \<^verbatim>\<open>VideoX86\<close>; \<open>vga\<close> is the memory found at \<^verbatim>\<open>VIDEO_MEMORY_LOCATION\<close>.\<close>

definition VideoX86_new :: "u16 list \<Rightarrow> video" where
  "VideoX86_new vga = Video_new\<lparr>vd_mem := Some vga\<rparr>"

definition Video_width :: "video \<Rightarrow> u32" where "Video_width v = vd_width v"
definition Video_height :: "video \<Rightarrow> u32" where "Video_height v = vd_height v"
definition Video_size :: "video \<Rightarrow> u32" where "Video_size v = Video_width v * Video_height v"

definition Video_resize :: "u32 \<Rightarrow> u32 \<Rightarrow> video \<Rightarrow> video" where
  "Video_resize w h v = v\<lparr>vd_width := w, vd_height := h\<rparr>"

text \<open>\<open>fw\<close> and \<open>fh\<close> are the size of the font, which is 0 while no font is selected; the divisions are of type \<^verbatim>\<open>int\<close>.\<close>

definition Video_adapt :: "u8 \<Rightarrow> u8 \<Rightarrow> int \<Rightarrow> int \<Rightarrow> video \<Rightarrow> video option" where
  "Video_adapt fw fh w h v =
     (let v = (if vd_font v then v else v\<lparr>vd_font := True, vd_x := 0, vd_y := 0\<rparr>)
      in if fw = 0 \<or> fh = 0 then None
         else Some (Video_resize (word_of_int (sgn w * (\<bar>w\<bar> div uint fw))) (word_of_int (sgn h * (\<bar>h\<bar> div uint fh))) v))"

definition Video_setOrigin :: "video \<Rightarrow> video" where
  "Video_setOrigin v = v\<lparr>vd_origin := vd_x v\<rparr>"

section \<open>The video memory\<close>

definition vmem_put :: "u32 \<Rightarrow> u16 \<Rightarrow> video \<Rightarrow> video option" where
  "vmem_put off w v =
     (case vd_mem v of
        None \<Rightarrow> None
      | Some mem \<Rightarrow> if unat off < length mem then Some (v\<lparr>vd_mem := Some (mem[unat off := w])\<rparr>) else None)"

fun clear_loop :: "nat \<Rightarrow> u32 \<Rightarrow> video \<Rightarrow> video option" where
  "clear_loop 0 i v = Some v"
| "clear_loop (Suc k) i v = do { v \<leftarrow> vmem_put i (CHAR_EMPTY OR VIDEO_COLOR_MASK) v; clear_loop k (i + 1) v }"

definition Video_clear :: "video \<Rightarrow> video option" where
  "Video_clear v =
     (case vd_mem v of
        None \<Rightarrow> Some v
      | Some mem \<Rightarrow> do { v \<leftarrow> clear_loop (unat (Video_size v)) 0 v; Some (v\<lparr>vd_x := 0, vd_y := 0\<rparr>) })"

text \<open>\<^verbatim>\<open>Mem::copy\<close> of \<open>n\<close> words down to the start of the memory, and \<^verbatim>\<open>Mem::setw\<close> (see \<open>Kernel_String\<close>).\<close>

definition copy_words :: "nat \<Rightarrow> nat \<Rightarrow> u16 list \<Rightarrow> u16 list option" where
  "copy_words src n mem = (if src + n \<le> length mem then Some (take n (drop src mem) @ drop n mem) else None)"

definition set_words :: "nat \<Rightarrow> u16 \<Rightarrow> nat \<Rightarrow> u16 list \<Rightarrow> u16 list option" where
  "set_words off w n mem = (if off + n \<le> length mem then Some (take off mem @ replicate n w @ drop (off + n) mem) else None)"

text \<open>The offset of the source counts words, not bytes.\<close>

definition Video_scroll :: "video \<Rightarrow> video option" where
  "Video_scroll v =
     (case vd_mem v of
        None \<Rightarrow> Some v
      | Some mem \<Rightarrow> do {
          v \<leftarrow> (if vd_y v \<ge> vd_height v then do {
                  let ss = (vd_height v - 1) * vd_width v;
                  mem \<leftarrow> copy_words (unat (SCROLL_SIZE * vd_width v * 2)) (unat (ss * 2) div 2) mem;
                  mem \<leftarrow> set_words (unat ss) 0 (unat (vd_width v)) mem;
                  Some (v\<lparr>vd_mem := Some mem, vd_y := vd_height v - 2\<rparr>) }
                else Some v);
          let v = (if vd_x v \<ge> vd_width v then v\<lparr>vd_x := 0\<rparr> else v);
          Some (if vd_y v > vd_height v then v\<lparr>vd_y := vd_height v - 1\<rparr> else v) })"

section \<open>The cursor and the serial port\<close>

definition VideoX86_setCursor :: "'m ports \<Rightarrow> video \<Rightarrow> 'm \<Rightarrow> 'm" where
  "VideoX86_setCursor P v m =
     (let pos = vd_y v * vd_width v + vd_x v;
          m = pt_out8 P CURSOR_PORT 0x0F m;
          m = pt_out8 P (CURSOR_PORT + 1) (ucast (pos AND 0xFF)) m;
          m = pt_out8 P CURSOR_PORT 0x0E m
      in pt_out8 P (CURSOR_PORT + 1) (ucast (drop_bit 8 pos AND 0xFF)) m)"

definition uart_init :: "'m ports \<Rightarrow> video \<Rightarrow> 'm \<Rightarrow> video \<times> 'm" where
  "uart_init P v m =
     (let m = pt_out8 P (COM1 + 2) 0 m;
          m = pt_out8 P (COM1 + 3) 0x80 m;
          m = pt_out8 P (COM1 + 0) 1 m;
          m = pt_out8 P (COM1 + 1) 0 m;
          m = pt_out8 P (COM1 + 3) 3 m;
          m = pt_out8 P (COM1 + 4) 0 m;
          m = pt_out8 P (COM1 + 1) 1 m;
          (b, m) = pt_in8 P (COM1 + 5) m
      in (v\<lparr>vd_uart_initted := True, vd_uart_avail := b \<noteq> 0xFF\<rparr>, m))"

fun uart_wait :: "nat \<Rightarrow> 'm ports \<Rightarrow> 'm \<Rightarrow> 'm" where
  "uart_wait 0 P m = m"
| "uart_wait (Suc k) P m =
     (let (b, m) = pt_in8 P (COM1 + 5) m in if b AND 0x20 \<noteq> 0 then m else uart_wait k P (pt_sleep P 1 m))"

definition uart_putc :: "'m ports \<Rightarrow> u8 \<Rightarrow> video \<Rightarrow> 'm \<Rightarrow> 'm" where
  "uart_putc P c v m =
     (if \<not> vd_uart_initted v \<or> \<not> vd_uart_avail v then m else pt_out8 P COM1 c (uart_wait 128 P m))"

definition uart_putch :: "'m ports \<Rightarrow> u8 \<Rightarrow> video \<Rightarrow> 'm \<Rightarrow> video \<times> 'm" where
  "uart_putch P c v m =
     (let (v, m) = (if \<not> vd_uart_initted v then uart_init P v m else (v, m));
          m = uart_putc P c v m
      in (v, if c = CHAR_LF then uart_putc P CHAR_CR v m else m))"

fun uart_print :: "'m ports \<Rightarrow> u8 list \<Rightarrow> video \<Rightarrow> 'm \<Rightarrow> video \<times> 'm" where
  "uart_print P [] v m = (v, m)"
| "uart_print P (c # cs) v m = (if c = 0 then (v, m) else let (v, m) = uart_putch P c v m in uart_print P cs v m)"

definition VideoX86_putChDebug :: "'m ports \<Rightarrow> u8 \<Rightarrow> video \<Rightarrow> 'm \<Rightarrow> video \<times> 'm" where
  "VideoX86_putChDebug P c v m = uart_putch P c v m"

section \<open>Characters\<close>

text \<open>A character on the screen: \<^verbatim>\<open>char\<close> is signed, so that its sign runs into the colours.\<close>

definition cell :: "u8 \<Rightarrow> u16" where
  "cell c = scast c OR VIDEO_COLOR_MASK"

definition Video_putCh :: "'m ports \<Rightarrow> u8 \<Rightarrow> video \<Rightarrow> 'm \<Rightarrow> (video \<times> 'm) option" where
  "Video_putCh P c v m =
     (if c = CHAR_LF then do {
        v \<leftarrow> Video_scroll (v\<lparr>vd_y := vd_y v + 1, vd_x := 0, vd_origin := 0\<rparr>);
        Some (v, VideoX86_setCursor P v m) }
      else if c = CHAR_TAB then
        (let v = v\<lparr>vd_x := if vd_x v + TAB_SIZE < vd_width v then vd_x v + TAB_SIZE else vd_width v - 1\<rparr>
         in Some (v, VideoX86_setCursor P v m))
      else if c = CHAR_BS then do {
        let v = (if vd_x v > 0 \<and> vd_x v > vd_origin v then v\<lparr>vd_x := vd_x v - 1\<rparr> else v);
        v \<leftarrow> (if vd_mem v = None then Some v else vmem_put (vd_y v * vd_width v + vd_x v) 0 v);
        Some (v, VideoX86_setCursor P v m) }
      else do {
        v \<leftarrow> Video_scroll (if vd_x v \<ge> vd_width v then v\<lparr>vd_x := vd_x v - vd_width v, vd_y := vd_y v + 1\<rparr> else v);
        (if vd_mem v = None then Some (v, m)
         else do {
           v \<leftarrow> vmem_put (vd_y v * vd_width v + vd_x v) (cell c) v;
           let v = v\<lparr>vd_x := vd_x v + 1\<rparr>;
           Some (v, VideoX86_setCursor P v m) }) })"

definition VideoX86_putCh :: "'m ports \<Rightarrow> u8 \<Rightarrow> video \<Rightarrow> 'm \<Rightarrow> (video \<times> 'm) option" where
  "VideoX86_putCh P c v m =
     (let (v, m) = (if \<not> vd_uart_initted v then uart_init P v m else (v, m));
          m = uart_putc P c v m;
          m = (if c = CHAR_LF then uart_putc P CHAR_CR v m else m)
      in Video_putCh P c v m)"

definition Video_handleChar :: "'m ports \<Rightarrow> u8 \<Rightarrow> video \<Rightarrow> 'm \<Rightarrow> (video \<times> 'm) option" where
  "Video_handleChar P c v m =
     (if c = 0 then Some (v, m)
      else if c = CHAR_LF then VideoX86_putCh P c (v\<lparr>vd_x := 0, vd_y := vd_y v + 1\<rparr>) m
      else VideoX86_putCh P c v m)"

fun Video_print :: "'m ports \<Rightarrow> u8 list \<Rightarrow> video \<Rightarrow> 'm \<Rightarrow> (int \<times> video \<times> 'm) option" where
  "Video_print P [] v m = Some (0, v, m)"
| "Video_print P (c # cs) v m =
     (if c = 0 then Some (0, v, m)
      else do {
        (v, m) \<leftarrow> VideoX86_putCh P c v m;
        (n, v, m) \<leftarrow> Video_print P cs v m;
        Some (n + 1, v, m) })"

section \<open>Numbers\<close>

definition Video_print_prenull :: "'m ports \<Rightarrow> int \<Rightarrow> int \<Rightarrow> video \<Rightarrow> 'm \<Rightarrow> (int \<times> video \<times> 'm) option" where
  "Video_print_prenull P cnt fmtcnt v m =
     (if cnt < fmtcnt then Video_print P (replicate (nat (min 255 (fmtcnt - cnt))) 0x30) v m else Some (0, v, m))"

text \<open>The number of digits; a radix of 0 divides by zero, and with a radix of 1 the loop does not end.\<close>

partial_function (option) count_digits :: "nat \<Rightarrow> nat \<Rightarrow> nat \<Rightarrow> nat option" where
  "count_digits radix tmp l =
     (if tmp > 0 then if radix = 0 then None else count_digits radix (tmp div radix) (l + 1) else Some l)"

definition digit_char :: "nat \<Rightarrow> u8" where
  "digit_char k = (let t = of_nat k :: u8 in if sint t < 10 then 0x30 + t else 0x41 + (t - 10))"

fun fill_digits :: "nat \<Rightarrow> nat \<Rightarrow> nat \<Rightarrow> u8 list \<Rightarrow> u8 list" where
  "fill_digits radix 0 val s = s"
| "fill_digits radix (Suc l) val s = fill_digits radix l (val div radix) (digit_char (val mod radix) # s)"

definition print_zero :: "'m ports \<Rightarrow> int \<Rightarrow> video \<Rightarrow> 'm \<Rightarrow> (int \<times> video \<times> 'm) option" where
  "print_zero P fmtcnt v m = do {
     (n, v, m) \<leftarrow> Video_print_prenull P 1 fmtcnt v m;
     (v, m) \<leftarrow> VideoX86_putCh P 0x30 v m;
     Some (n + 1, v, m) }"

definition print_digits :: "'m ports \<Rightarrow> u8 list \<Rightarrow> int \<Rightarrow> video \<Rightarrow> 'm \<Rightarrow> (int \<times> video \<times> 'm) option" where
  "print_digits P s fmtcnt v m = do {
     (n, v, m) \<leftarrow> Video_print_prenull P (int (length s)) fmtcnt v m;
     (k, v, m) \<leftarrow> Video_print P s v m;
     Some (n + k, v, m) }"

text \<open>\<^verbatim>\<open>long\<close> has 32 bits; the negation of the least value overflows.\<close>

definition Video_print_l :: "'m ports \<Rightarrow> u32 \<Rightarrow> nat \<Rightarrow> int \<Rightarrow> video \<Rightarrow> 'm \<Rightarrow> (int \<times> video \<times> 'm) option" where
  "Video_print_l P val radix fmtcnt v m =
     (if val = 0 then print_zero P fmtcnt v m
      else if val = 0x80000000 then None
      else do {
        let n = (sint val < 0);
        let a = nat \<bar>sint val\<bar>;
        l \<leftarrow> count_digits radix a 0;
        let l = (if n then l + 1 else l);
        let l = (if l = 0 then 1 else l);
        (if l \<ge> 256 then None
         else do {
           let s = fill_digits radix l a [];
           print_digits P (if n then s[0 := 0x2D] else s) fmtcnt v m }) })"

definition Video_print_ull :: "'m ports \<Rightarrow> u64 \<Rightarrow> nat \<Rightarrow> int \<Rightarrow> video \<Rightarrow> 'm \<Rightarrow> (int \<times> video \<times> 'm) option" where
  "Video_print_ull P val radix fmtcnt v m =
     (if val = 0 then print_zero P fmtcnt v m
      else do {
        l \<leftarrow> count_digits radix (unat val) 0;
        let l = (if l = 0 then 1 else l);
        (if l + 1 \<ge> 256 then None else print_digits P (fill_digits radix l (unat val) []) fmtcnt v m) })"

section \<open>Formats\<close>

datatype va = VaWord u32 | VaLong u64 | VaText "u8 list option"

record fmt =
  fm_format :: bool
  fm_signed :: bool
  fm_l :: nat
  fm_cnt :: int
  fm_printed :: int
  fm_args :: "va list"

definition va_word :: "fmt \<Rightarrow> (u32 \<times> fmt) option" where
  "va_word f = (case fm_args f of VaWord w # as \<Rightarrow> Some (w, f\<lparr>fm_args := as\<rparr>) | _ \<Rightarrow> None)"

definition va_long :: "fmt \<Rightarrow> (u64 \<times> fmt) option" where
  "va_long f = (case fm_args f of VaLong w # as \<Rightarrow> Some (w, f\<lparr>fm_args := as\<rparr>) | _ \<Rightarrow> None)"

definition va_text :: "fmt \<Rightarrow> (u8 list \<times> fmt) option" where
  "va_text f = (case fm_args f of VaText (Some s) # as \<Rightarrow> Some (s, f\<lparr>fm_args := as\<rparr>) | _ \<Rightarrow> None)"

text \<open>The end of a conversion: what it printed is counted.\<close>

definition conv_done :: "fmt \<Rightarrow> int \<times> video \<times> 'm \<Rightarrow> (fmt \<times> video \<times> 'm) option" where
  "conv_done f r = (case r of (n, v, m) \<Rightarrow> Some (f\<lparr>fm_format := False, fm_printed := fm_printed f + n\<rparr>, v, m))"

text \<open>An unsigned number: \<^verbatim>\<open>%x\<close> and \<^verbatim>\<open>%u\<close>; a third \<^verbatim>\<open>l\<close> prints nothing.\<close>

definition conv_unsigned :: "'m ports \<Rightarrow> nat \<Rightarrow> fmt \<Rightarrow> video \<Rightarrow> 'm \<Rightarrow> (fmt \<times> video \<times> 'm) option" where
  "conv_unsigned P radix f v m =
     (if fm_l f \<le> 1 then do {
        (w, f) \<leftarrow> va_word f;
        r \<leftarrow> Video_print_ull P (ucast w) radix (fm_cnt f) v m;
        conv_done f r }
      else if fm_l f = 2 then do {
        (w, f) \<leftarrow> va_long f;
        r \<leftarrow> Video_print_ull P w radix (fm_cnt f) v m;
        conv_done f r }
      else conv_done f (0, v, m))"

definition format_step :: "'m ports \<Rightarrow> u8 \<Rightarrow> fmt \<Rightarrow> video \<Rightarrow> 'm \<Rightarrow> (fmt \<times> video \<times> 'm) option" where
  "format_step P c f v m =
     (if c = 0x25 then do {
        (v, m) \<leftarrow> VideoX86_putCh P 0x25 v m;
        conv_done f (1, v, m) }
      else if c = 0x73 then do {
        (s, f) \<leftarrow> va_text f;
        r \<leftarrow> Video_print P s v m;
        conv_done f r }
      else if c = 0x6C then Some (f\<lparr>fm_l := fm_l f + 1\<rparr>, v, m)
      else if c = 0x78 then conv_unsigned P 16 f v m
      else if c = 0x63 then do {
        (w, f) \<leftarrow> va_word f;
        (v, m) \<leftarrow> VideoX86_putCh P (ucast w) v m;
        conv_done f (1, v, m) }
      else if c = 0x64 then do {
        (w, f) \<leftarrow> va_word f;
        r \<leftarrow> (if \<not> fm_signed f then Video_print_ull P (ucast w) 10 (fm_cnt f) v m else Video_print_l P w 10 (fm_cnt f) v m);
        conv_done f r }
      else if c = 0x75 then conv_unsigned P 10 f v m
      else if 0x30 \<le> c \<and> c \<le> 0x39 then
        (let n = fm_cnt f * 10 + (uint c - 0x30) in if n < 2 ^ 31 then Some (f\<lparr>fm_cnt := n\<rparr>, v, m) else None)
      else Some (f, v, m))"

definition plain_step :: "'m ports \<Rightarrow> u8 \<Rightarrow> fmt \<Rightarrow> video \<Rightarrow> 'm \<Rightarrow> (fmt \<times> video \<times> 'm) option" where
  "plain_step P c f v m =
     (if c = 0x25 then Some (f\<lparr>fm_cnt := 0, fm_format := True, fm_signed := True, fm_l := 0\<rparr>, v, m)
      else if c = CHAR_CR then Some (f, v\<lparr>vd_x := 0\<rparr>, m)
      else if c = CHAR_LF then do {
        (v, m) \<leftarrow> VideoX86_putCh P c v m;
        Some (f\<lparr>fm_printed := fm_printed f + 1\<rparr>, v, m) }
      else if c = CHAR_BS then
        (if vd_x v = 0 \<and> vd_y v > 0 then Some (f, v\<lparr>vd_y := vd_y v - 1, vd_x := vd_width v - 1\<rparr>, m)
         else if vd_y v = 0 \<and> vd_x v = 0 then Some (f, v, m)
         else Some (f, v\<lparr>vd_x := vd_x v - 1\<rparr>, m))
      else if c = CHAR_TAB then Some (f, v\<lparr>vd_x := vd_x v + TAB_SIZE\<rparr>, m)
      else do {
        (v, m) \<leftarrow> VideoX86_putCh P c v m;
        Some (f\<lparr>fm_printed := fm_printed f + 1\<rparr>, v, m) })"

fun vprintf_loop :: "'m ports \<Rightarrow> u8 list \<Rightarrow> fmt \<Rightarrow> video \<Rightarrow> 'm \<Rightarrow> (fmt \<times> video \<times> 'm) option" where
  "vprintf_loop P [] f v m = Some (f, v, m)"
| "vprintf_loop P (c # cs) f v m =
     (if c = 0 then Some (f, v, m)
      else do {
        (f, v, m) \<leftarrow> (if fm_format f then format_step P c f v m else plain_step P c f v m);
        vprintf_loop P cs f v m })"

definition Video_vprintf :: "'m ports \<Rightarrow> u8 list \<Rightarrow> va list \<Rightarrow> video \<Rightarrow> 'm \<Rightarrow> (int \<times> video \<times> 'm) option" where
  "Video_vprintf P fmt al v m = do {
     (f, v, m) \<leftarrow> vprintf_loop P fmt
       \<lparr>fm_format = False, fm_signed = True, fm_l = 0, fm_cnt = 0, fm_printed = 0, fm_args = al\<rparr> v m;
     Some (fm_printed f, v, m) }"

definition Video_printf :: "'m ports \<Rightarrow> u8 list \<Rightarrow> va list \<Rightarrow> video \<Rightarrow> 'm \<Rightarrow> (int \<times> video \<times> 'm) option" where
  "Video_printf P fmt al v m = Video_vprintf P fmt al v m"

section \<open>The screen\<close>

text \<open>The video memory has a line behind the screen, which the copying in \<^verbatim>\<open>scroll\<close> reads.\<close>

definition screen :: "video \<Rightarrow> u16 list \<Rightarrow> bool" where
  "screen v mem \<longleftrightarrow> vd_mem v = Some mem \<and> length mem = (unat (vd_height v) + 1) * unat (vd_width v) \<and>
     2 \<le> unat (vd_height v) \<and> 0 < unat (vd_width v) \<and> (unat (vd_height v) + 1) * unat (vd_width v) < 2 ^ 30"

definition cursor_ok :: "video \<Rightarrow> bool" where
  "cursor_ok v \<longleftrightarrow> unat (vd_x v) \<le> unat (vd_width v) \<and> unat (vd_y v) < unat (vd_height v)"

definition console_ok :: "video \<Rightarrow> bool" where
  "console_ok v \<longleftrightarrow> (\<exists>mem. screen v mem) \<and> cursor_ok v"

definition cursor :: "video \<Rightarrow> nat" where
  "cursor v = unat (vd_y v) * unat (vd_width v) + unat (vd_x v)"

lemma screen_bounds:
  assumes "screen v mem"
  shows "unat (vd_width v) < 2 ^ 30" "unat (vd_height v) < 2 ^ 30"
proof -
  have "1 * unat (vd_width v) \<le> (unat (vd_height v) + 1) * unat (vd_width v)"
    by (rule mult_le_mono1) simp
  then show "unat (vd_width v) < 2 ^ 30"
    using assms by (simp add: screen_def)
  have "(unat (vd_height v) + 1) * 1 \<le> (unat (vd_height v) + 1) * unat (vd_width v)"
    by (rule mult_le_mono2) (use assms in \<open>simp add: screen_def Suc_leI\<close>)
  then show "unat (vd_height v) < 2 ^ 30"
    using assms by (simp add: screen_def)
qed

text \<open>A position on the screen or on the line behind it does not overflow.\<close>

lemma cursor_offset:
  assumes "screen v mem" "unat (vd_y v) \<le> unat (vd_height v)" "unat (vd_x v) < 2 ^ 30"
  shows "unat (vd_y v * vd_width v + vd_x v) = cursor v"
proof -
  have "unat (vd_y v) * unat (vd_width v) \<le> (unat (vd_height v) + 1) * unat (vd_width v)"
    by (rule mult_le_mono1) (use assms(2) in simp)
  then have 1: "unat (vd_y v) * unat (vd_width v) < 2 ^ 30"
    using assms(1) by (simp add: screen_def)
  then have "unat (vd_y v * vd_width v) = unat (vd_y v) * unat (vd_width v)"
    by (intro unat_times_eq) simp
  then show ?thesis
    using 1 assms(3) by (subst unat_plus_eq) (simp_all add: cursor_def)
qed

lemma cursor_less:
  assumes "screen v mem" "unat (vd_y v) < unat (vd_height v)" "unat (vd_x v) \<le> unat (vd_width v)"
  shows "cursor v < length mem"
proof -
  have "cursor v \<le> (unat (vd_y v) + 1) * unat (vd_width v)"
    using assms(3) by (simp add: cursor_def)
  also have "\<dots> < (unat (vd_height v) + 1) * unat (vd_width v)"
    by (rule mult_less_mono1) (use assms(1,2) in \<open>auto simp: screen_def\<close>)
  finally show ?thesis
    using assms(1) by (simp add: screen_def)
qed

lemma screen_cursor: "screen (v\<lparr>vd_x := a, vd_y := b\<rparr>) mem = screen v mem" "screen (v\<lparr>vd_x := a\<rparr>) mem = screen v mem"
  "screen (v\<lparr>vd_y := b\<rparr>) mem = screen v mem" "screen (v\<lparr>vd_origin := c\<rparr>) mem = screen v mem"
  by (simp_all add: screen_def)

text \<open>The screen behind \<^verbatim>\<open>scroll\<close>: all lines two up, the last one cleared.\<close>

definition scrolled :: "nat \<Rightarrow> nat \<Rightarrow> u16 list \<Rightarrow> u16 list" where
  "scrolled h w mem = drop (2 * w) mem @ replicate w 0 @ drop (h * w) mem"

lemma length_scrolled: "length mem = (h + 1) * w \<Longrightarrow> 1 \<le> h \<Longrightarrow> length (scrolled h w mem) = (h + 1) * w"
  by (simp add: scrolled_def algebra_simps)

lemma Video_scroll_keep:
  assumes "screen v mem" "vd_y v < vd_height v"
  shows "Video_scroll v = Some (if vd_x v \<ge> vd_width v then v\<lparr>vd_x := 0\<rparr> else v)"
  using assms by (auto simp: Video_scroll_def screen_def Let_def)

text \<open>The sizes that \<^verbatim>\<open>scroll\<close> computes do not overflow.\<close>

lemma scroll_sizes:
  assumes "screen v mem"
  shows "unat (vd_height v - 1) = unat (vd_height v) - 1" "unat (vd_height v - 2) = unat (vd_height v) - 2"
    "(unat (vd_height v) - 1) * unat (vd_width v) + 2 * unat (vd_width v) = (unat (vd_height v) + 1) * unat (vd_width v)"
    "(unat (vd_height v) - 1) * unat (vd_width v) + unat (vd_width v) = unat (vd_height v) * unat (vd_width v)"
    "unat ((vd_height v - 1) * vd_width v) = (unat (vd_height v) - 1) * unat (vd_width v)"
    "unat ((vd_height v - 1) * vd_width v * 2) = 2 * ((unat (vd_height v) - 1) * unat (vd_width v))"
    "unat (SCROLL_SIZE * vd_width v * 2) = 2 * unat (vd_width v)"
proof -
  define W H where "W = unat (vd_width v)" and "H = unat (vd_height v)"
  have g: "vd_mem v = Some mem" "length mem = (H + 1) * W" "2 \<le> H" "0 < W" "(H + 1) * W < 2 ^ 30"
    using assms(1) by (simp_all add: screen_def W_def H_def)
  have h1: "unat (vd_height v - 1) = H - 1" and h2: "unat (vd_height v - 2) = H - 2"
    using g(3) by (simp_all add: unat_minus_eq H_def)
  have b: "(H - 1) * W + 2 * W = (H + 1) * W" "(H - 1) * W + W = H * W"
    using g(3) by (auto simp: algebra_simps simp flip: add_mult_distrib intro!: arg_cong [where f = "\<lambda>k. k * W"])
  have ss: "unat ((vd_height v - 1) * vd_width v) = (H - 1) * W"
    using h1 b g(5) by (subst unat_times_eq) (simp_all add: W_def)
  have s2: "unat ((vd_height v - 1) * vd_width v * 2) = 2 * ((H - 1) * W)"
  proof -
    have "(H - 1) * W < 2 ^ 30"
      using b(1) g(5) by linarith
    then have "unat ((vd_height v - 1) * vd_width v) * unat (2 :: u32) < 2 ^ LENGTH(32)"
      by (simp add: ss mult.commute [of W])
    then show ?thesis
      by (subst unat_times_eq) (simp_all add: ss)
  qed
  have src: "unat (SCROLL_SIZE * vd_width v * 2) = 2 * W"
    using b g(5) by (simp add: SCROLL_SIZE_def W_def) (subst unat_times_eq, simp_all)
  note all = h1 h2 b ss s2 src
  show "unat (vd_height v - 1) = unat (vd_height v) - 1" "unat (vd_height v - 2) = unat (vd_height v) - 2"
    "(unat (vd_height v) - 1) * unat (vd_width v) + 2 * unat (vd_width v) = (unat (vd_height v) + 1) * unat (vd_width v)"
    "(unat (vd_height v) - 1) * unat (vd_width v) + unat (vd_width v) = unat (vd_height v) * unat (vd_width v)"
    "unat ((vd_height v - 1) * vd_width v) = (unat (vd_height v) - 1) * unat (vd_width v)"
    "unat ((vd_height v - 1) * vd_width v * 2) = 2 * ((unat (vd_height v) - 1) * unat (vd_width v))"
    "unat (SCROLL_SIZE * vd_width v * 2) = 2 * unat (vd_width v)"
    using all unfolding W_def H_def by blast+
qed

lemma Video_scroll_move:
  assumes "screen v mem" "vd_height v \<le> vd_y v"
  shows "Video_scroll v = Some (v\<lparr>vd_mem := Some (scrolled (unat (vd_height v)) (unat (vd_width v)) mem), vd_y := vd_height v - 2,
    vd_x := if vd_x v \<ge> vd_width v then 0 else vd_x v\<rparr>)"
proof -
  define W H where "W = unat (vd_width v)" and "H = unat (vd_height v)"
  have g: "vd_mem v = Some mem" "length mem = (H + 1) * W" "2 \<le> H" "0 < W" "(H + 1) * W < 2 ^ 30"
    using assms(1) by (simp_all add: screen_def W_def H_def)
  note sz = scroll_sizes [OF assms(1), folded W_def H_def]
  note h1 = sz(1) and h2 = sz(2) and b = sz(3,4) and ss = sz(5) and s2 = sz(6) and src = sz(7)
  have 1: "copy_words (2 * W) ((H - 1) * W) mem = Some (drop (2 * W) mem @ drop ((H - 1) * W) mem)"
    using g(2) b by (simp add: copy_words_def)
  define A B K where "A = drop (2 * W) mem" and "B = drop ((H - 1) * W) mem" and "K = (H - 1) * W"
  have "length A = K" "length B = 2 * W"
    using g(2) b(1) unfolding A_def B_def K_def length_drop by linarith+
  moreover have "drop W B = drop (H * W) mem"
    using b(2) by (simp add: B_def add.commute)
  ultimately have "set_words K 0 W (A @ B) = Some (scrolled H W mem)"
    by (simp add: set_words_def scrolled_def A_def [symmetric])
  then have "set_words ((H - 1) * W) 0 W (drop (2 * W) mem @ drop ((H - 1) * W) mem) = Some (scrolled H W mem)"
    by (simp only: A_def B_def K_def)
  moreover have "\<not> vd_height v < vd_height v - 2"
    using h2 by (simp add: word_less_nat_alt H_def)
  ultimately show ?thesis
    using g(1) assms(2) 1 by (simp add: Video_scroll_def Let_def ss s2 src W_def [symmetric] H_def [symmetric])
qed

lemma scroll_ok:
  assumes "screen v mem" "unat (vd_x v) \<le> unat (vd_width v)"
  obtains v' mem' where "Video_scroll v = Some v'" "screen v' mem'" "unat (vd_x v') < unat (vd_width v')" "unat (vd_y v') < unat (vd_height v')"
proof (cases "vd_y v < vd_height v")
  case True
  show thesis
    using Video_scroll_keep [OF assms(1) True] True assms
    by (intro that [of "if vd_x v \<ge> vd_width v then v\<lparr>vd_x := 0\<rparr> else v" mem])
      (auto simp: screen_cursor screen_def not_le word_less_nat_alt)
next
  case False
  then have "vd_height v \<le> vd_y v"
    by simp
  moreover have "unat (vd_height v - 2) = unat (vd_height v) - 2"
    using assms(1) by (simp add: unat_minus_eq screen_def)
  ultimately show thesis
    using Video_scroll_move [OF assms(1)] assms(1) length_scrolled [of mem "unat (vd_height v)" "unat (vd_width v)"]
    by (intro that) (assumption, auto simp: screen_def not_le word_less_nat_alt)
qed

section \<open>The cursor stays on the screen\<close>

lemma vmem_put_ok:
  assumes "screen v mem" "unat (vd_x v) \<le> unat (vd_width v)" "unat (vd_y v) < unat (vd_height v)"
  shows "vmem_put (vd_y v * vd_width v + vd_x v) w v = Some (v\<lparr>vd_mem := Some (mem[cursor v := w])\<rparr>)"
proof -
  have "unat (vd_y v * vd_width v + vd_x v) = cursor v"
    using cursor_offset [OF assms(1)] assms(2,3) screen_bounds(1) [OF assms(1)] by simp
  then show ?thesis
    using cursor_less [OF assms(1,3,2)] assms(1) by (simp add: vmem_put_def screen_def)
qed

lemma screen_update: "screen v mem \<Longrightarrow> length mem' = length mem \<Longrightarrow> screen (v\<lparr>vd_mem := Some mem'\<rparr>) mem'"
  by (simp add: screen_def)

lemma Video_putCh_ok:
  assumes "console_ok v"
  shows "\<exists>v' m'. Video_putCh P c v m = Some (v', m') \<and> console_ok v'"
proof -
  obtain mem where s: "screen v mem" and x: "unat (vd_x v) \<le> unat (vd_width v)" and y: "unat (vd_y v) < unat (vd_height v)"
    using assms by (auto simp: console_ok_def cursor_ok_def)
  note b = screen_bounds [OF s]
  consider "c = CHAR_LF" | "c = CHAR_TAB" | "c = CHAR_BS" | "c \<noteq> CHAR_LF" "c \<noteq> CHAR_TAB" "c \<noteq> CHAR_BS"
    by blast
  then show ?thesis
  proof cases
    case 1
    have "screen (v\<lparr>vd_y := vd_y v + 1, vd_x := 0, vd_origin := 0\<rparr>) mem"
      using s by (simp add: screen_def)
    then obtain v' mem' where "Video_scroll (v\<lparr>vd_y := vd_y v + 1, vd_x := 0, vd_origin := 0\<rparr>) = Some v'" "screen v' mem'"
      "unat (vd_x v') < unat (vd_width v')" "unat (vd_y v') < unat (vd_height v')"
      by (rule scroll_ok) simp
    then show ?thesis
      using 1 by (auto simp: Video_putCh_def console_ok_def cursor_ok_def)
  next
    case 2
    have "unat (vd_x v + TAB_SIZE) = unat (vd_x v) + 8"
      using x b(1) by (subst unat_plus_eq) (simp_all add: TAB_SIZE_def)
    moreover have "unat (vd_width v - 1) = unat (vd_width v) - 1"
      using s by (simp add: screen_def unat_minus_eq)
    ultimately show ?thesis
      using 2 s y by (auto simp: Video_putCh_def console_ok_def cursor_ok_def screen_cursor word_less_nat_alt CHAR_LF_def CHAR_TAB_def Let_def)
  next
    case 3
    define v1 where "v1 = (if vd_x v > 0 \<and> vd_x v > vd_origin v then v\<lparr>vd_x := vd_x v - 1\<rparr> else v)"
    have "vd_x v > 0 \<Longrightarrow> unat (vd_x v - 1) = unat (vd_x v) - 1"
      by (simp add: unat_minus_eq word_less_nat_alt)
    then have v1: "screen v1 mem" "unat (vd_x v1) \<le> unat (vd_width v1)" "unat (vd_y v1) < unat (vd_height v1)"
      using s x y by (auto simp: v1_def screen_cursor)
    have "vd_mem v1 = Some mem"
      using v1(1) by (simp add: screen_def)
    then have "Video_putCh P c v m = Some (v1\<lparr>vd_mem := Some (mem[cursor v1 := 0])\<rparr>, VideoX86_setCursor P (v1\<lparr>vd_mem := Some (mem[cursor v1 := 0])\<rparr>) m)"
      using 3 vmem_put_ok [OF v1, of 0] unfolding Video_putCh_def v1_def [symmetric] by (simp add: CHAR_LF_def CHAR_TAB_def CHAR_BS_def)
    moreover have "console_ok (v1\<lparr>vd_mem := Some (mem[cursor v1 := 0])\<rparr>)"
      using screen_update [OF v1(1), of "mem[cursor v1 := 0]"] v1(2,3) by (auto simp: console_ok_def cursor_ok_def)
    ultimately show ?thesis
      by blast
  next
    case 4
    define v0 where "v0 = (if vd_x v \<ge> vd_width v then v\<lparr>vd_x := vd_x v - vd_width v, vd_y := vd_y v + 1\<rparr> else v)"
    have "screen v0 mem" "unat (vd_x v0) \<le> unat (vd_width v0)"
      using s x by (auto simp: v0_def screen_cursor word_le_nat_alt unat_minus_eq)
    then obtain v1 mem1 where v1: "Video_scroll v0 = Some v1" "screen v1 mem1" "unat (vd_x v1) < unat (vd_width v1)" "unat (vd_y v1) < unat (vd_height v1)"
      by (rule scroll_ok)
    let ?v = "v1\<lparr>vd_mem := Some (mem1[cursor v1 := cell c]), vd_x := vd_x v1 + 1\<rparr>"
    have "unat (vd_x v1 + 1) = unat (vd_x v1) + 1"
      using v1(3) screen_bounds(1) [OF v1(2)] by (subst unat_plus_eq) simp_all
    then have "console_ok ?v"
      using v1(3,4) screen_update [OF v1(2), of "mem1[cursor v1 := cell c]"] by (auto simp: console_ok_def cursor_ok_def screen_cursor screen_def)
    moreover have "Video_putCh P c v m = Some (?v, VideoX86_setCursor P ?v m)"
      using 4 v1(1,2) vmem_put_ok [OF v1(2), of "cell c"] v1(3,4) unfolding Video_putCh_def v0_def [symmetric]
      by (simp add: screen_def Let_def)
    ultimately show ?thesis
      by blast
  qed
qed

text \<open>The serial port does not touch the screen.\<close>

lemma VideoX86_putCh_uart:
  "\<exists>b1 b2 m'. VideoX86_putCh P c v m = Video_putCh P c (v\<lparr>vd_uart_initted := b1, vd_uart_avail := b2\<rparr>) m'"
proof (cases "vd_uart_initted v")
  case True
  then have "v\<lparr>vd_uart_initted := True, vd_uart_avail := vd_uart_avail v\<rparr> = v"
    by (cases v) simp
  moreover have "VideoX86_putCh P c v m =
      Video_putCh P c v (if c = CHAR_LF then uart_putc P CHAR_CR v (uart_putc P c v m) else uart_putc P c v m)"
    using True by (simp add: VideoX86_putCh_def Let_def)
  ultimately show ?thesis
    by metis
next
  case False
  then show ?thesis
    by (auto simp: VideoX86_putCh_def uart_init_def Let_def split: prod.splits)
qed

lemma console_ok_uart: "console_ok (v\<lparr>vd_uart_initted := b1, vd_uart_avail := b2\<rparr>) = console_ok v"
  by (simp add: console_ok_def cursor_ok_def screen_def)

lemma putCh_ok:
  assumes "console_ok v"
  obtains v' m' where "VideoX86_putCh P c v m = Some (v', m')" "console_ok v'"
proof -
  obtain b1 b2 m1 where 1: "VideoX86_putCh P c v m = Video_putCh P c (v\<lparr>vd_uart_initted := b1, vd_uart_avail := b2\<rparr>) m1"
    using VideoX86_putCh_uart [of P c v m] by auto
  have "console_ok (v\<lparr>vd_uart_initted := b1, vd_uart_avail := b2\<rparr>)"
    using assms by (simp add: console_ok_uart)
  from Video_putCh_ok [OF this, of P c m1] that show thesis
    unfolding 1 by blast
qed

lemma print_ok: "console_ok v \<Longrightarrow> \<exists>n v' m'. Video_print P s v m = Some (n, v', m') \<and> console_ok v'"
proof (induction s arbitrary: v m)
  case (Cons c s)
  obtain v1 m1 where 1: "VideoX86_putCh P c v m = Some (v1, m1)" "console_ok v1"
    by (rule putCh_ok [OF Cons.prems])
  obtain n v2 m2 where "Video_print P s v1 m1 = Some (n, v2, m2)" "console_ok v2"
    using Cons.IH [OF 1(2)] by blast
  then show ?case
    using 1(1) Cons.prems by simp
qed simp

lemma handleChar_ok:
  assumes "console_ok v"
  shows "\<exists>v' m'. Video_handleChar P c v m = Some (v', m') \<and> console_ok v'"
proof (cases "c = CHAR_LF")
  case True
  obtain mem where s: "screen v mem" and y: "unat (vd_y v) < unat (vd_height v)"
    using assms by (auto simp: console_ok_def cursor_ok_def)
  obtain b1 b2 m1 where u: "VideoX86_putCh P c (v\<lparr>vd_x := 0, vd_y := vd_y v + 1\<rparr>) m =
      Video_putCh P c (v\<lparr>vd_x := 0, vd_y := vd_y v + 1, vd_uart_initted := b1, vd_uart_avail := b2\<rparr>) m1"
    using VideoX86_putCh_uart [of P c "v\<lparr>vd_x := 0, vd_y := vd_y v + 1\<rparr>" m] by auto
  let ?v = "v\<lparr>vd_uart_initted := b1, vd_uart_avail := b2, vd_y := 2 + vd_y v, vd_x := 0, vd_origin := 0\<rparr>"
  have "screen ?v mem"
    using s by (simp add: screen_def)
  then obtain v' mem' where "Video_scroll ?v = Some v'" "screen v' mem'" "unat (vd_x v') < unat (vd_width v')" "unat (vd_y v') < unat (vd_height v')"
    by (rule scroll_ok) simp
  then show ?thesis
    using True u by (auto simp: Video_handleChar_def Video_putCh_def console_ok_def cursor_ok_def CHAR_LF_def)
next
  case False
  obtain v' m' where "VideoX86_putCh P c v m = Some (v', m')" "console_ok v'"
    by (rule putCh_ok [OF assms])
  with False assms show ?thesis
    by (simp add: Video_handleChar_def)
qed

lemma clear_loop_ok:
  "vd_mem v = Some mem \<Longrightarrow> unat i + k \<le> length mem \<Longrightarrow> length mem < 2 ^ 30 \<Longrightarrow>
    \<exists>mem'. clear_loop k i v = Some (v\<lparr>vd_mem := Some mem'\<rparr>) \<and> length mem' = length mem \<and>
      mem' = take (unat i) mem @ replicate k (CHAR_EMPTY OR VIDEO_COLOR_MASK) @ drop (unat i + k) mem"
proof (induction k arbitrary: i v mem)
  case (Suc k)
  let ?e = "CHAR_EMPTY OR VIDEO_COLOR_MASK"
  have i: "unat (i + 1) = unat i + 1"
    using Suc.prems by (subst unat_plus_eq) simp_all
  have 1: "vmem_put i ?e v = Some (v\<lparr>vd_mem := Some (mem[unat i := ?e])\<rparr>)"
    using Suc.prems by (simp add: vmem_put_def)
  have "unat (i + 1) + k \<le> length (mem[unat i := ?e])" "length (mem[unat i := ?e]) < 2 ^ 30"
    using Suc.prems i by simp_all
  from Suc.IH [of "v\<lparr>vd_mem := Some (mem[unat i := ?e])\<rparr>" "mem[unat i := ?e]" "i + 1", OF _ this] 1
  show ?case
    using Suc.prems(2) by (simp add: i take_Suc_conv_app_nth)
qed simp

lemma clear_ok:
  assumes "console_ok v"
  shows "\<exists>v' mem'. Video_clear v = Some v' \<and> console_ok v' \<and> cursor v' = 0 \<and> vd_mem v' = Some mem' \<and>
    (\<forall>i < unat (vd_height v) * unat (vd_width v). mem' ! i = CHAR_EMPTY OR VIDEO_COLOR_MASK)"
proof -
  obtain mem where s: "screen v mem"
    using assms by (auto simp: console_ok_def)
  have le: "unat (vd_height v) * unat (vd_width v) \<le> (unat (vd_height v) + 1) * unat (vd_width v)"
    by (rule mult_le_mono1) simp
  then have "unat (Video_size v) = unat (vd_height v) * unat (vd_width v)"
    using s unfolding Video_size_def Video_width_def Video_height_def
    by (subst unat_times_eq) (auto simp: screen_def mult.commute)
  then obtain mem' where "clear_loop (unat (Video_size v)) 0 v = Some (v\<lparr>vd_mem := Some mem'\<rparr>)" "length mem' = length mem"
    "mem' = replicate (unat (vd_height v) * unat (vd_width v)) (CHAR_EMPTY OR VIDEO_COLOR_MASK) @ drop (unat (vd_height v) * unat (vd_width v)) mem"
    using clear_loop_ok [of v mem 0 "unat (Video_size v)"] s le by (auto simp: screen_def)
  then show ?thesis
    using s by (auto simp: Video_clear_def console_ok_def cursor_ok_def cursor_def screen_def nth_append)
qed

section \<open>The digits of a number\<close>

function radix_digits :: "nat \<Rightarrow> nat \<Rightarrow> u8 list" where
  "radix_digits r n = (if r < 2 \<or> n < r then [digit_char n] else radix_digits r (n div r) @ [digit_char (n mod r)])"
  by pat_completeness auto

termination radix_digits
  by (relation "measure snd") (auto intro: div_less_dividend)

declare radix_digits.simps [simp del]

definition char_value :: "u8 \<Rightarrow> nat" where
  "char_value c = (if 0x41 \<le> c then unat c - 55 else unat c - 48)"

definition text_value :: "nat \<Rightarrow> u8 list \<Rightarrow> nat" where
  "text_value r ds = foldl (\<lambda>a c. a * r + char_value c) 0 ds"

lemma digit_char_value: "k < 16 \<Longrightarrow> char_value (digit_char k) = k \<and> digit_char k \<noteq> 0 \<and> (k \<noteq> 0 \<longrightarrow> digit_char k \<noteq> 0x30)"
proof -
  assume "k < 16"
  then have "k \<in> {0, 1, 2, 3, 4, 5, 6, 7, 8, 9, 10, 11, 12, 13, 14, 15}"
    by simp presburger
  then show ?thesis
    by (auto simp: char_value_def digit_char_def Let_def)
qed

lemma radix_digits_value:
  assumes "2 \<le> r" "r \<le> 16"
  shows "text_value r (radix_digits r n) = n" "0 \<notin> set (radix_digits r n)" "0 < n \<Longrightarrow> hd (radix_digits r n) \<noteq> 0x30"
    "radix_digits r n \<noteq> []"
proof -
  have "text_value r (radix_digits r n) = n \<and> 0 \<notin> set (radix_digits r n) \<and> (0 < n \<longrightarrow> hd (radix_digits r n) \<noteq> 0x30) \<and> radix_digits r n \<noteq> []"
    using assms
  proof (induction r n rule: radix_digits.induct)
    case (1 r n)
    show ?case
    proof (cases "n < r")
      case True
      then show ?thesis
        using 1(2,3) digit_char_value [of n] by (subst (1 2 3 4) radix_digits.simps) (auto simp: text_value_def)
    next
      case False
      have e: "radix_digits r n = radix_digits r (n div r) @ [digit_char (n mod r)]"
        using False 1(2) by (subst radix_digits.simps) simp
      have d: "0 < n div r" "n mod r < 16"
        using False 1(2,3) by (auto simp: div_greater_zero_iff intro: order.strict_trans2 [OF mod_less_divisor])
      from 1(1) [OF _ 1(2,3)] False 1(2) d(1) digit_char_value [OF d(2)] show ?thesis
        unfolding e by (auto simp: text_value_def)
    qed
  qed
  then show "text_value r (radix_digits r n) = n" "0 \<notin> set (radix_digits r n)" "0 < n \<Longrightarrow> hd (radix_digits r n) \<noteq> 0x30"
    "radix_digits r n \<noteq> []"
    by auto
qed

lemma radix_digits_length: "2 \<le> r \<Longrightarrow> n < 2 ^ Suc k \<Longrightarrow> length (radix_digits r n) \<le> Suc k"
proof (induction r n arbitrary: k rule: radix_digits.induct)
  case (1 r n)
  show ?case
  proof (cases "n < r")
    case True
    then show ?thesis
      by (subst radix_digits.simps) simp
  next
    case False
    have h: "n div r \<le> n div 2"
      by (rule div_le_mono2) (use 1(2) in auto)
    obtain j where k: "k = Suc j"
    proof (cases k)
      case 0
      then show thesis
        using 1(2,3) False by simp
    qed (use that in simp)
    have "length (radix_digits r (n div r)) \<le> Suc j"
      by (rule 1(1)) (use False 1(2,3) h k in auto)
    then show ?thesis
      using False 1(2) k by (subst radix_digits.simps) simp
  qed
qed

lemma count_digits_eq: "2 \<le> r \<Longrightarrow> 0 < n \<Longrightarrow> count_digits r n l = Some (l + length (radix_digits r n))"
proof (induction r n arbitrary: l rule: radix_digits.induct)
  case (1 r n)
  show ?case
  proof (cases "n < r")
    case True
    then show ?thesis
      using 1(2,3) by (subst radix_digits.simps, subst count_digits.simps, subst count_digits.simps) simp
  next
    case False
    then have "count_digits r (n div r) (l + 1) = Some (l + 1 + length (radix_digits r (n div r)))"
      using 1(1) 1(2) by (simp add: div_greater_zero_iff)
    then show ?thesis
      using False 1(2,3) by (subst radix_digits.simps, subst count_digits.simps) simp
  qed
qed

lemma fill_digits_eq: "2 \<le> r \<Longrightarrow> fill_digits r (length (radix_digits r n)) n s = radix_digits r n @ s"
proof (induction r n arbitrary: s rule: radix_digits.induct)
  case (1 r n)
  then show ?case
    by (subst (1 2) radix_digits.simps) auto
qed

lemma fill_digits_more: "2 \<le> r \<Longrightarrow> fill_digits r (Suc (length (radix_digits r n))) n s = digit_char 0 # radix_digits r n @ s"
proof (induction r n arbitrary: s rule: radix_digits.induct)
  case (1 r n)
  show ?case
  proof (cases "n < r")
    case True
    then show ?thesis
      by (subst (1 2) radix_digits.simps) simp
  next
    case False
    have e: "radix_digits r n = radix_digits r (n div r) @ [digit_char (n mod r)]"
      using False 1(2) by (subst radix_digits.simps) simp
    show ?thesis
      unfolding e using 1(1) [OF _ 1(2)] False 1(2) by simp
  qed
qed

text \<open>Printing a text in two parts.\<close>

lemma print_append:
  "0 \<notin> set a \<Longrightarrow> Video_print P (a @ b) v m =
    do { (i, v, m) \<leftarrow> Video_print P a v m; (j, v, m) \<leftarrow> Video_print P b v m; Some (i + j, v, m) }"
proof (induction a arbitrary: v m)
  case Nil
  then show ?case
    by (cases "Video_print P b v m") auto
next
  case (Cons c a)
  then show ?case
    by (cases "VideoX86_putCh P c v m") (auto simp: Option.bind_assoc split: Option.bind_splits)
qed

definition padding :: "int \<Rightarrow> nat \<Rightarrow> u8 list" where
  "padding fmtcnt n = replicate (nat (min 255 (fmtcnt - int n))) 0x30"

lemma print_prenull_eq: "Video_print_prenull P (int n) fmtcnt v m = Video_print P (padding fmtcnt n) v m"
  by (simp add: Video_print_prenull_def padding_def)

lemma print_digits_eq: "print_digits P s fmtcnt v m = Video_print P (padding fmtcnt (length s) @ s) v m"
  by (subst print_append) (simp_all add: print_digits_def print_prenull_eq padding_def)

lemma print_zero_eq: "print_zero P fmtcnt v m = Video_print P (padding fmtcnt 1 @ [0x30]) v m"
  using print_prenull_eq [of P 1 fmtcnt v m]
  by (subst print_append) (auto simp: print_zero_def padding_def intro!: Option.bind_cong [OF refl] split: Option.bind_splits)

lemma print_ull_eq:
  assumes "2 \<le> r" "r \<le> 16"
  shows "Video_print_ull P val r fmtcnt v m =
    Video_print P (padding fmtcnt (length (radix_digits r (unat val))) @ radix_digits r (unat val)) v m"
proof (cases "val = 0")
  case True
  have "radix_digits r 0 = [0x30]"
    using assms by (subst radix_digits.simps) (simp add: digit_char_def)
  then show ?thesis
    using True by (simp add: Video_print_ull_def print_zero_eq)
next
  case False
  then have n: "0 < unat val"
    by (simp add: unat_gt_0)
  have "length (radix_digits r (unat val)) \<le> 64"
    using radix_digits_length [OF assms(1), of "unat val" 63] unat_u64_less [of val] by simp
  then show ?thesis
    using False count_digits_eq [OF assms(1) n, of 0] radix_digits_value(4) [OF assms, of "unat val"]
    by (simp add: Video_print_ull_def print_digits_eq fill_digits_eq [OF assms(1)])
qed

lemma print_l_eq:
  fixes r :: nat and w :: u32
  assumes "2 \<le> r" "r \<le> 16" "w \<noteq> 0x80000000"
  defines "ds \<equiv> (if sint w < 0 then [0x2D] else []) @ radix_digits r (nat \<bar>sint w\<bar>)"
  shows "Video_print_l P w r fmtcnt v m = Video_print P (padding fmtcnt (length ds) @ ds) v m"
proof (cases "w = 0")
  case True
  have "radix_digits r 0 = [0x30]"
    using assms by (subst radix_digits.simps) (simp add: digit_char_def)
  then show ?thesis
    using True by (simp add: ds_def Video_print_l_def print_zero_eq)
next
  case False
  let ?a = "nat \<bar>sint w\<bar>"
  have n: "0 < ?a"
    using False by (simp add: signed_eq_0_iff)
  have "- (2 ^ 31) \<le> sint w" "sint w < 2 ^ 31"
    using sint_ge [of w] sint_lt [of w] by simp_all
  then have "?a < 2 ^ Suc 32"
    by simp
  from radix_digits_length [OF assms(1) this] have l: "length (radix_digits r ?a) \<le> 33"
    by simp
  have ne: "radix_digits r ?a \<noteq> []"
    by (rule radix_digits_value(4) [OF assms(1,2)])
  show ?thesis
    using False assms(3) count_digits_eq [OF assms(1) n, of 0] l ne fill_digits_more [OF assms(1), of ?a "[]"] fill_digits_eq [OF assms(1), of ?a "[]"]
    by (cases "sint w < 0") (simp_all add: ds_def Video_print_l_def Let_def print_digits_eq)
qed

section \<open>Formats\<close>

text \<open>The arguments fit the conversions of a format, which has no tab outside of them (a tab moves the cursor off the screen).\<close>

definition fits_unsigned :: "nat \<Rightarrow> va list \<Rightarrow> (va list \<Rightarrow> bool) \<Rightarrow> bool" where
  "fits_unsigned l as k \<longleftrightarrow>
     (if l \<le> 1 then (case as of VaWord w # as \<Rightarrow> k as | _ \<Rightarrow> False)
      else if l = 2 then (case as of VaLong w # as \<Rightarrow> k as | _ \<Rightarrow> False) else k as)"

fun fits :: "u8 list \<Rightarrow> bool \<Rightarrow> nat \<Rightarrow> int \<Rightarrow> va list \<Rightarrow> bool" where
  "fits [] fm l cnt as = True"
| "fits (c # cs) fm l cnt as =
     (if c = 0 then True
      else if \<not> fm then (if c = 0x25 then fits cs True 0 0 as else c \<noteq> CHAR_TAB \<and> fits cs False l cnt as)
      else if c = 0x25 then fits cs False l cnt as
      else if c = 0x73 then (case as of VaText (Some s) # as \<Rightarrow> fits cs False l cnt as | _ \<Rightarrow> False)
      else if c = 0x6C then fits cs True (l + 1) cnt as
      else if c = 0x78 then fits_unsigned l as (fits cs False l cnt)
      else if c = 0x63 then (case as of VaWord w # as \<Rightarrow> fits cs False l cnt as | _ \<Rightarrow> False)
      else if c = 0x64 then (case as of VaWord w # as \<Rightarrow> w \<noteq> 0x80000000 \<and> fits cs False l cnt as | _ \<Rightarrow> False)
      else if c = 0x75 then fits_unsigned l as (fits cs False l cnt)
      else if 0x30 \<le> c \<and> c \<le> 0x39 then cnt * 10 + (uint c - 0x30) < 2 ^ 31 \<and> fits cs True l (cnt * 10 + (uint c - 0x30)) as
      else fits cs True l cnt as)"

abbreviation fits_fmt :: "u8 list \<Rightarrow> fmt \<Rightarrow> bool" where
  "fits_fmt cs f \<equiv> fits cs (fm_format f) (fm_l f) (fm_cnt f) (fm_args f)"

lemma print_number_ok:
  assumes "console_ok v" "2 \<le> r" "r \<le> 16"
  shows "\<exists>n v' m'. Video_print_ull P x r fmtcnt v m = Some (n, v', m') \<and> console_ok v'"
    "w \<noteq> 0x80000000 \<Longrightarrow> \<exists>n v' m'. Video_print_l P w r fmtcnt v m = Some (n, v', m') \<and> console_ok v'"
proof -
  show "\<exists>n v' m'. Video_print_ull P x r fmtcnt v m = Some (n, v', m') \<and> console_ok v'"
    unfolding print_ull_eq [OF assms(2,3)] by (rule print_ok [OF assms(1)])
  assume "w \<noteq> 0x80000000"
  then show "\<exists>n v' m'. Video_print_l P w r fmtcnt v m = Some (n, v', m') \<and> console_ok v'"
    by (subst print_l_eq [OF assms(2,3)], assumption) (rule print_ok [OF assms(1)])
qed

lemma conv_unsigned_ok:
  assumes "console_ok v" "fits_unsigned (fm_l f) (fm_args f) (fits cs False (fm_l f) (fm_cnt f))" "2 \<le> r" "r \<le> 16"
  shows "\<exists>f' v' m'. conv_unsigned P r f v m = Some (f', v', m') \<and> fits_fmt cs f' \<and> console_ok v'"
proof -
  have p: "\<exists>n v' m'. Video_print_ull P x r (fm_cnt f) v m = Some (n, v', m') \<and> console_ok v'" for x
    by (rule print_number_ok(1) [OF assms(1,3,4)])
  consider "fm_l f \<le> 1" | "fm_l f = 2" | "2 < fm_l f"
    by linarith
  then show ?thesis
  proof cases
    case 1
    then obtain w as where a: "fm_args f = VaWord w # as" "fits cs False (fm_l f) (fm_cnt f) as"
      using assms(2) by (auto simp: fits_unsigned_def split: list.splits va.splits)
    from p [of "ucast w"] a 1 show ?thesis
      by (auto simp: conv_unsigned_def va_word_def conv_done_def)
  next
    case 2
    then obtain w as where a: "fm_args f = VaLong w # as" "fits cs False (fm_l f) (fm_cnt f) as"
      using assms(2) by (auto simp: fits_unsigned_def split: list.splits va.splits)
    from p [of w] a 2 show ?thesis
      by (auto simp: conv_unsigned_def va_long_def conv_done_def)
  next
    case 3
    then show ?thesis
      using assms(1,2) by (auto simp: conv_unsigned_def conv_done_def fits_unsigned_def)
  qed
qed

lemma format_step_ok:
  assumes "console_ok v" "fits_fmt (c # cs) f" "fm_format f" "c \<noteq> 0"
  shows "\<exists>f' v' m'. format_step P c f v m = Some (f', v', m') \<and> fits_fmt cs f' \<and> console_ok v'"
proof -
  have put: "\<exists>v' m'. VideoX86_putCh P x v m = Some (v', m') \<and> console_ok v'" for x
    using putCh_ok [OF assms(1), of P x m] by blast
  consider "c = 0x25" | "c = 0x73" | "c = 0x6C" | "c = 0x78" | "c = 0x63" | "c = 0x64" | "c = 0x75"
    | "c \<notin> {0x25, 0x73, 0x6C, 0x78, 0x63, 0x64, 0x75}"
    by blast
  then show ?thesis
  proof cases
    case 1
    then show ?thesis
      using put [of "0x25"] assms(2,3) by (auto simp: format_step_def conv_done_def)
  next
    case 2
    then obtain s as where a: "fm_args f = VaText (Some s) # as" "fits cs False (fm_l f) (fm_cnt f) as"
      using assms(2,3) by (auto split: list.splits va.splits option.splits)
    from print_ok [OF assms(1), of P s m] a 2 show ?thesis
      by (auto simp: format_step_def va_text_def conv_done_def)
  next
    case 3
    then show ?thesis
      using assms by (auto simp: format_step_def)
  next
    case 4
    then show ?thesis
      using conv_unsigned_ok [OF assms(1), of f cs 16 P m] assms(2,3) by (simp add: format_step_def)
  next
    case 5
    then obtain w as where a: "fm_args f = VaWord w # as" "fits cs False (fm_l f) (fm_cnt f) as"
      using assms(2,3) by (auto split: list.splits va.splits)
    from put [of "ucast w"] a 5 show ?thesis
      by (auto simp: format_step_def va_word_def conv_done_def)
  next
    case 6
    then obtain w as where a: "fm_args f = VaWord w # as" "w \<noteq> 0x80000000" "fits cs False (fm_l f) (fm_cnt f) as"
      using assms(2,3) by (auto split: list.splits va.splits)
    from print_number_ok(2) [OF assms(1) _ _ a(2), of 10 P "fm_cnt f" m] print_number_ok(1) [OF assms(1), of 10 P "ucast w" "fm_cnt f" m] a 6
    show ?thesis
      by (auto simp: format_step_def va_word_def conv_done_def)
  next
    case 7
    then show ?thesis
      using conv_unsigned_ok [OF assms(1), of f cs 10 P m] assms(2,3) by (simp add: format_step_def)
  next
    case 8
    then show ?thesis
      using assms by (auto simp: format_step_def Let_def split: if_splits)
  qed
qed

lemma plain_step_ok:
  assumes "console_ok v" "fits_fmt (c # cs) f" "\<not> fm_format f" "c \<noteq> 0"
  shows "\<exists>f' v' m'. plain_step P c f v m = Some (f', v', m') \<and> fits_fmt cs f' \<and> console_ok v'"
proof -
  obtain v1 m1 where put: "VideoX86_putCh P c v m = Some (v1, m1)" "console_ok v1"
    by (rule putCh_ok [OF assms(1)])
  have x: "vd_x v \<noteq> 0 \<Longrightarrow> unat (vd_x v - 1) = unat (vd_x v) - 1" and y: "vd_y v > 0 \<Longrightarrow> unat (vd_y v - 1) = unat (vd_y v) - 1"
    by (simp_all add: unat_minus_eq word_less_nat_alt unat_gt_0 Suc_leI)
  have w: "console_ok v \<Longrightarrow> unat (vd_width v - 1) = unat (vd_width v) - 1"
    by (auto simp: console_ok_def screen_def unat_minus_eq)
  consider "c = 0x25" | "c = CHAR_CR" | "c = CHAR_BS" | "c \<notin> {0x25, CHAR_CR, CHAR_BS, CHAR_TAB}"
    using assms(2-4) by (auto simp: CHAR_TAB_def split: if_splits)
  then show ?thesis
  proof cases
    case 3
    have "console_ok v \<Longrightarrow> vd_x v = 0 \<Longrightarrow> vd_y v > 0 \<Longrightarrow> console_ok (v\<lparr>vd_y := vd_y v - 1, vd_x := vd_width v - 1\<rparr>)"
      "console_ok v \<Longrightarrow> vd_x v \<noteq> 0 \<Longrightarrow> console_ok (v\<lparr>vd_x := vd_x v - 1\<rparr>)"
      using x y w by (auto simp: console_ok_def cursor_ok_def screen_def word_less_nat_alt)
    then show ?thesis
      using 3 assms by (auto simp: plain_step_def CHAR_CR_def CHAR_LF_def CHAR_BS_def word_gt_0)
  qed (use assms put in \<open>auto simp: plain_step_def console_ok_def cursor_ok_def screen_cursor CHAR_CR_def CHAR_LF_def CHAR_BS_def\<close>)
qed

lemma vprintf_loop_ok:
  "console_ok v \<Longrightarrow> fits_fmt cs f \<Longrightarrow> \<exists>f' v' m'. vprintf_loop P cs f v m = Some (f', v', m') \<and> console_ok v'"
proof (induction cs arbitrary: f v m)
  case (Cons c cs)
  show ?case
  proof (cases "c = 0")
    case False
    obtain f1 v1 m1 where "(if fm_format f then format_step P c f v m else plain_step P c f v m) = Some (f1, v1, m1)"
      "fits_fmt cs f1" "console_ok v1"
      using format_step_ok [OF Cons.prems _ False, of P m] plain_step_ok [OF Cons.prems _ False, of P m] by (cases "fm_format f") auto
    with False Cons.IH [of v1 f1 m1] show ?thesis
      by simp
  qed (use Cons.prems in simp)
qed simp

section \<open>Text on the screen\<close>

lemma putCh_plain:
  assumes "screen v mem" "unat (vd_x v) < unat (vd_width v)" "unat (vd_y v) < unat (vd_height v)" "c \<notin> {CHAR_LF, CHAR_TAB, CHAR_BS}"
  obtains v' m' where "VideoX86_putCh P c v m = Some (v', m')" "screen v' (mem[cursor v := cell c])" "unat (vd_x v') = unat (vd_x v) + 1"
    "vd_y v' = vd_y v" "vd_width v' = vd_width v" "vd_height v' = vd_height v"
proof -
  obtain b1 b2 m1 where u: "VideoX86_putCh P c v m = Video_putCh P c (v\<lparr>vd_uart_initted := b1, vd_uart_avail := b2\<rparr>) m1"
    using VideoX86_putCh_uart [of P c v m] by auto
  let ?v = "v\<lparr>vd_uart_initted := b1, vd_uart_avail := b2\<rparr>"
  let ?w = "?v\<lparr>vd_mem := Some (mem[cursor v := cell c]), vd_x := vd_x v + 1\<rparr>"
  have s: "screen ?v mem" "unat (vd_x ?v) \<le> unat (vd_width ?v)" "unat (vd_y ?v) < unat (vd_height ?v)"
    using assms by (simp_all add: screen_def)
  have nw: "\<not> vd_width v \<le> vd_x v"
    using assms(2) by (simp add: word_le_nat_alt)
  then have sc: "Video_scroll ?v = Some ?v"
    using Video_scroll_keep [OF s(1)] assms(3) by (simp add: word_less_nat_alt)
  have "vd_mem v = Some mem"
    using assms(1) by (simp add: screen_def)
  moreover have "cursor ?v = cursor v"
    by (simp add: cursor_def)
  ultimately have "Video_putCh P c ?v m1 = Some (?w, VideoX86_setCursor P ?w m1)"
    using assms(4) nw sc vmem_put_ok [OF s, of "cell c"] by (simp add: Video_putCh_def Let_def)
  moreover have "screen ?w (mem[cursor v := cell c])"
    using assms(1) by (simp add: screen_def)
  moreover have "unat (vd_x v + 1) = unat (vd_x v) + 1"
    using assms(2) screen_bounds(1) [OF assms(1)] by (subst unat_plus_eq) simp_all
  ultimately show thesis
    using u that [of ?w] by simp
qed

definition control_chars :: "u8 set" where
  "control_chars = {0, CHAR_LF, CHAR_TAB, CHAR_BS}"

lemma print_plain:
  "screen v mem \<Longrightarrow> unat (vd_y v) < unat (vd_height v) \<Longrightarrow> unat (vd_x v) + length s \<le> unat (vd_width v) \<Longrightarrow> set s \<inter> control_chars = {} \<Longrightarrow>
    \<exists>v' m'. Video_print P s v m = Some (int (length s), v', m') \<and>
      screen v' (take (cursor v) mem @ map cell s @ drop (cursor v + length s) mem) \<and> cursor v' = cursor v + length s \<and> vd_y v' = vd_y v"
proof (induction s arbitrary: v mem m)
  case Nil
  then show ?case
    by simp
next
  case (Cons c s)
  have c: "c \<noteq> 0" "c \<notin> {CHAR_LF, CHAR_TAB, CHAR_BS}" and x: "unat (vd_x v) < unat (vd_width v)"
    using Cons.prems(3,4) by (auto simp: control_chars_def)
  obtain v1 m1 where 1: "VideoX86_putCh P c v m = Some (v1, m1)" "screen v1 (mem[cursor v := cell c])" "unat (vd_x v1) = unat (vd_x v) + 1"
    "vd_y v1 = vd_y v" "vd_width v1 = vd_width v" "vd_height v1 = vd_height v"
    by (rule putCh_plain [OF Cons.prems(1) x Cons.prems(2) c(2)])
  have cu: "cursor v1 = Suc (cursor v)"
    using 1(3-5) by (simp add: cursor_def)
  have "unat (vd_y v1) < unat (vd_height v1)" "unat (vd_x v1) + length s \<le> unat (vd_width v1)" "set s \<inter> control_chars = {}"
    using 1(3-6) Cons.prems(2-4) by auto
  from Cons.IH [OF 1(2) this, of m1] obtain v' m' where "Video_print P s v1 m1 = Some (int (length s), v', m')"
    "screen v' (take (cursor v1) (mem[cursor v := cell c]) @ map cell s @ drop (cursor v1 + length s) (mem[cursor v := cell c]))"
    "cursor v' = cursor v1 + length s" "vd_y v' = vd_y v1"
    by blast
  moreover have "cursor v < length mem"
    using cursor_less [OF Cons.prems(1,2)] x by simp
  ultimately show ?case
    using c(1) 1(1,4) by (simp add: cu take_Suc_conv_app_nth)
qed

text \<open>A line of the screen.\<close>

definition line :: "nat \<Rightarrow> nat \<Rightarrow> u16 list \<Rightarrow> u16 list" where
  "line w i mem = take w (drop (i * w) mem)"

lemma line_scrolled:
  assumes "length mem = (h + 1) * w" "2 \<le> h"
  shows "i + 1 < h \<Longrightarrow> line w i (scrolled h w mem) = line w (i + 2) mem" "line w (h - 1) (scrolled h w mem) = replicate w 0"
proof -
  have e: "(h - 1) * w + 2 * w = (h + 1) * w"
    using assms(2) by (simp flip: add_mult_distrib)
  then have l: "length (drop (2 * w) mem) = (h - 1) * w"
    using assms(1) by simp
  then show "line w (h - 1) (scrolled h w mem) = replicate w 0"
    by (simp add: line_def scrolled_def)
  assume "i + 1 < h"
  then have "(i + 1) * w \<le> (h - 1) * w"
    by (intro mult_le_mono1) simp
  then have "i * w + w \<le> length (drop (2 * w) mem)"
    using l by simp
  moreover have "drop (i * w) (drop (2 * w) mem) = drop ((i + 2) * w) mem"
    by (simp only: drop_drop add_mult_distrib)
  ultimately show "line w i (scrolled h w mem) = line w (i + 2) mem"
    unfolding line_def scrolled_def by (subst drop_append) (simp add: l)
qed

section \<open>The properties\<close>

definition demo_video :: video where
  "demo_video = VideoX86_new (replicate 2080 0)"

lemma demo_screen: "screen demo_video (replicate 2080 0)" "cursor_ok demo_video"
  by (simp_all add: demo_video_def VideoX86_new_def Video_new_def screen_def cursor_ok_def)

lemma demo_ok: "console_ok demo_video"
  using demo_screen by (auto simp: console_ok_def)

definition idle_ports :: "unit ports" where
  "idle_ports = \<lparr>pt_in8 = \<lambda>p m. (0xFF, m), pt_in16 = \<lambda>p m. (0xFFFF, m), pt_in32 = \<lambda>p m. (0xFFFFFFFF, m), pt_out8 = \<lambda>p v m. m,
     pt_out16 = \<lambda>p v m. m, pt_out32 = \<lambda>p v m. m, pt_sleep = \<lambda>t m. m, pt_alloc = \<lambda>m. (None, m)\<rparr>"

lemma setOrigin_ok: "console_ok v \<Longrightarrow> console_ok (Video_setOrigin v)"
  by (simp add: Video_setOrigin_def console_ok_def cursor_ok_def screen_cursor)

lemma printf_ok:
  assumes "console_ok v" "fits fmt False 0 0 al"
  shows "\<exists>n v' m'. Video_printf P fmt al v m = Some (n, v', m') \<and> console_ok v'"
  using vprintf_loop_ok [OF assms(1), of fmt "\<lparr>fm_format = False, fm_signed = True, fm_l = 0, fm_cnt = 0, fm_printed = 0, fm_args = al\<rparr>" P m] assms(2)
  by (auto simp: Video_printf_def Video_vprintf_def)

text \<open>Without the line behind the screen, \<^verbatim>\<open>scroll\<close> reads behind the video memory; and tabs in a format are not kept on the line.\<close>

lemma scroll_short:
  assumes "screen v mem" "length mem' = unat (vd_height v) * unat (vd_width v)"
  shows "VideoX86_putCh P CHAR_LF (v\<lparr>vd_mem := Some mem', vd_y := vd_height v - 1\<rparr>) m = None"
proof -
  note sz = scroll_sizes [OF assms(1)]
  let ?v = "v\<lparr>vd_mem := Some mem', vd_y := vd_height v - 1\<rparr>"
  obtain b1 b2 m1 where u: "VideoX86_putCh P CHAR_LF ?v m = Video_putCh P CHAR_LF (?v\<lparr>vd_uart_initted := b1, vd_uart_avail := b2\<rparr>) m1"
    using VideoX86_putCh_uart [of P CHAR_LF ?v m] by auto
  have "0 < unat (vd_width v)"
    using assms(1) by (simp add: screen_def)
  then have "\<not> 2 * unat (vd_width v) + (unat (vd_height v) - 1) * unat (vd_width v) \<le> length mem'"
    using sz(3) assms(2) by (simp add: algebra_simps)
  then have "copy_words (unat (SCROLL_SIZE * vd_width v * 2)) (unat ((vd_height v - 1) * vd_width v * 2) div 2) mem' = None"
    unfolding copy_words_def sz(6,7) by simp
  then show ?thesis
    unfolding u by (simp add: Video_putCh_def Video_scroll_def Let_def)
qed

lemma plain_tab: "plain_step P CHAR_TAB f v m = Some (f, v\<lparr>vd_x := vd_x v + TAB_SIZE\<rparr>, m)" "CHAR_TAB \<noteq> 0"
  by (simp_all add: plain_step_def CHAR_TAB_def CHAR_CR_def CHAR_LF_def CHAR_BS_def)

lemma vprintf_tabs:
  "\<not> fm_format f \<Longrightarrow> vprintf_loop P (replicate k CHAR_TAB) f v m = Some (f, v\<lparr>vd_x := vd_x v + of_nat k * TAB_SIZE\<rparr>, m)"
  by (induction k arbitrary: v) (simp_all add: plain_tab algebra_simps)

lemma tabs_off_screen:
  assumes "console_ok v" "k = unat (vd_width v) div 8 + 1"
  shows "Video_printf P (replicate k CHAR_TAB) [] v m = Some (0, v\<lparr>vd_x := vd_x v + of_nat k * TAB_SIZE\<rparr>, m)"
    "\<not> console_ok (v\<lparr>vd_x := vd_x v + of_nat k * TAB_SIZE\<rparr>)"
proof -
  show "Video_printf P (replicate k CHAR_TAB) [] v m = Some (0, v\<lparr>vd_x := vd_x v + of_nat k * TAB_SIZE\<rparr>, m)"
    by (simp add: Video_printf_def Video_vprintf_def vprintf_tabs)
  obtain mem where "screen v mem" "unat (vd_x v) \<le> unat (vd_width v)"
    using assms(1) by (auto simp: console_ok_def cursor_ok_def)
  then have w: "unat (vd_width v) < 2 ^ 30" "unat (vd_x v) < 2 ^ 30"
    using screen_bounds(1) by (blast intro: le_less_trans)+
  have k: "unat (vd_width v) < 8 * k" "8 * k \<le> unat (vd_width v) + 8"
    using assms(2) by simp_all
  have "unat (of_nat k * TAB_SIZE) = 8 * k"
    using k w(1) unat_of_nat_u32 [of "8 * k"] by (simp add: TAB_SIZE_def mult.commute)
  then have "unat (vd_x v + of_nat k * TAB_SIZE) = unat (vd_x v) + 8 * k"
    using k w by (subst unat_plus_eq) simp_all
  then show "\<not> console_ok (v\<lparr>vd_x := vd_x v + of_nat k * TAB_SIZE\<rparr>)"
    using k(1) by (simp add: console_ok_def cursor_ok_def)
qed

text \<open>
  C35: The console is well-formed: the cursor is on the screen, or behind the end of a line of it, and the video memory holds the
  screen and one line more.  Every character, clearing, any text and a format whose arguments fit and which has no tab of its own keep it
  so and have a defined result: all accesses are inside of the video memory.  Neither restriction can be dropped: with the
  screen alone in the video memory a line feed on the last line reads behind it, and a format of enough tabs leaves the cursor
  off the screen.
\<close>

theorem console_well_formed:
  assumes "console_ok v" "fits fmt False 0 0 al"
  shows "(\<exists>v' m'. VideoX86_putCh P c v m = Some (v', m') \<and> console_ok v') \<and>
    (\<exists>v' m'. Video_handleChar P c v m = Some (v', m') \<and> console_ok v') \<and>
    (\<exists>v'. Video_clear v = Some v' \<and> console_ok v') \<and>
    (\<exists>n v' m'. Video_print P s v m = Some (n, v', m') \<and> console_ok v') \<and>
    (\<exists>n v' m'. Video_printf P fmt al v m = Some (n, v', m') \<and> console_ok v') \<and> console_ok (Video_setOrigin v) \<and>
    (\<forall>mem. length mem = unat (vd_height v) * unat (vd_width v) \<longrightarrow>
      VideoX86_putCh P CHAR_LF (v\<lparr>vd_mem := Some mem, vd_y := vd_height v - 1\<rparr>) m = None) \<and>
    (\<exists>v'. Video_printf P (replicate (unat (vd_width v) div 8 + 1) CHAR_TAB) [] v m = Some (0, v', m) \<and> \<not> console_ok v')"
proof (intro conjI)
  show "\<exists>v' m'. VideoX86_putCh P c v m = Some (v', m') \<and> console_ok v'"
    using putCh_ok [OF assms(1), of P c m] by blast
  show "\<exists>v'. Video_clear v = Some v' \<and> console_ok v'"
    using clear_ok [OF assms(1)] by blast
  show "\<forall>mem. length mem = unat (vd_height v) * unat (vd_width v) \<longrightarrow>
      VideoX86_putCh P CHAR_LF (v\<lparr>vd_mem := Some mem, vd_y := vd_height v - 1\<rparr>) m = None"
  proof -
    obtain mem where m: "screen v mem"
      using assms(1) by (auto simp: console_ok_def)
    show ?thesis
      by (rule allI, rule impI, rule scroll_short [OF m])
  qed
  show "\<exists>v'. Video_printf P (replicate (unat (vd_width v) div 8 + 1) CHAR_TAB) [] v m = Some (0, v', m) \<and> \<not> console_ok v'"
    by (rule exI, rule conjI, rule tabs_off_screen(1) [OF assms(1) refl], rule tabs_off_screen(2) [OF assms(1) refl])
qed (rule handleChar_ok [OF assms(1)], rule print_ok [OF assms(1)], rule printf_ok [OF assms], rule setOrigin_ok [OF assms(1)])

theorem console_well_formed_witness:
  "\<exists>n v m. Video_printf idle_ports [0x61, 0x25, 0x64, 0x20, 0x25, 0x73, 0x0A] [VaWord 0xFFFFFFD6, VaText (Some [0x62])] demo_video () = Some (n, v, m) \<and>
     console_ok v"
proof -
  have "fits [0x61, 0x25, 0x64, 0x20, 0x25, 0x73, 0x0A] False 0 0 [VaWord 0xFFFFFFD6, VaText (Some [0x62])]"
    by (simp add: CHAR_TAB_def)
  with console_well_formed [OF demo_ok this, of idle_ports 0 "()" "[]"] show ?thesis
    by blast
qed

text \<open>
  C36: Numbers are printed by their digits.  For a radix from 2 to 16, \<^verbatim>\<open>print_ull\<close> and \<^verbatim>\<open>print_l\<close> print a text that denotes
  the number again, without leading zeros but for the padding, of which at most 255 are printed.  A minus sign comes behind the padding.
  The least \<^verbatim>\<open>long\<close> has no defined result.
\<close>

theorem numbers_roundtrip:
  assumes "2 \<le> r" "r \<le> 16"
  shows "(\<exists>ds. Video_print_ull P n r fmtcnt v m = Video_print P (padding fmtcnt (length ds) @ ds) v m \<and>
      text_value r ds = unat n \<and> (n \<noteq> 0 \<longrightarrow> hd ds \<noteq> 0x30)) \<and>
    (if w = 0x80000000 then Video_print_l P w r fmtcnt v m = None
     else \<exists>sg ds. Video_print_l P w r fmtcnt v m = Video_print P (padding fmtcnt (length (sg @ ds)) @ sg @ ds) v m \<and>
       sg = (if sint w < 0 then [0x2D] else []) \<and> (if sg = [] then 1 else - 1) * int (text_value r ds) = sint w \<and> (w \<noteq> 0 \<longrightarrow> hd ds \<noteq> 0x30))"
proof (intro conjI)
  note dv = radix_digits_value [OF assms]
  show "\<exists>ds. Video_print_ull P n r fmtcnt v m = Video_print P (padding fmtcnt (length ds) @ ds) v m \<and>
      text_value r ds = unat n \<and> (n \<noteq> 0 \<longrightarrow> hd ds \<noteq> 0x30)"
    using print_ull_eq [OF assms] dv(1,3) [of "unat n"] by (intro exI [of _ "radix_digits r (unat n)"]) (auto simp: unat_gt_0)
  have "w \<noteq> 0 \<Longrightarrow> 0 < nat \<bar>sint w\<bar>"
    by (simp add: signed_eq_0_iff)
  then show "if w = 0x80000000 then Video_print_l P w r fmtcnt v m = None
     else \<exists>sg ds. Video_print_l P w r fmtcnt v m = Video_print P (padding fmtcnt (length (sg @ ds)) @ sg @ ds) v m \<and>
       sg = (if sint w < 0 then [0x2D] else []) \<and> (if sg = [] then 1 else - 1) * int (text_value r ds) = sint w \<and> (w \<noteq> 0 \<longrightarrow> hd ds \<noteq> 0x30)"
    using print_l_eq [OF assms, of w P fmtcnt v m] dv(1,3) [of "nat \<bar>sint w\<bar>"]
    by (auto simp: Video_print_l_def intro!: exI [of _ "radix_digits r (nat \<bar>sint w\<bar>)"])
qed

theorem numbers_roundtrip_witness:
  "\<exists>ds. Video_print_ull idle_ports 0xBEEF 16 8 demo_video () = Video_print idle_ports (padding 8 (length ds) @ ds) demo_video () \<and>
     text_value 16 ds = 0xBEEF"
  using numbers_roundtrip [of 16 idle_ports "0xBEEF" 8 demo_video "()" 0] by auto

text \<open>
  C37: Text without control characters that fits on the line appears at the cursor, each character with its colours, and nothing else on the
  screen changes; the cursor moves behind it.
\<close>

theorem print_shows:
  assumes "screen v mem" "cursor_ok v" "unat (vd_x v) + length s \<le> unat (vd_width v)" "set s \<inter> control_chars = {}"
  shows "\<exists>v' m'. Video_print P s v m = Some (int (length s), v', m') \<and>
    vd_mem v' = Some (take (cursor v) mem @ map cell s @ drop (cursor v + length s) mem) \<and> cursor v' = cursor v + length s \<and> vd_y v' = vd_y v"
  using print_plain [OF assms(1) _ assms(3,4), of P m] assms(2) by (auto simp: cursor_ok_def screen_def)

theorem print_shows_witness:
  "\<exists>v m. Video_print idle_ports [0x48, 0x69] demo_video () = Some (2, v, m) \<and> vd_mem v = Some ([0x0748, 0x0769] @ replicate 2078 0)"
proof -
  have c: "cursor demo_video = 0" and d: "drop (0 + length [0x48, 0x69 :: u8]) (replicate 2080 (0 :: u16)) = replicate 2078 0"
    by (simp_all add: cursor_def demo_video_def VideoX86_new_def Video_new_def)
  have "unat (vd_x demo_video) + length [0x48, 0x69 :: u8] \<le> unat (vd_width demo_video)" "set [0x48, 0x69] \<inter> control_chars = {}"
    by (auto simp: demo_video_def VideoX86_new_def Video_new_def control_chars_def CHAR_LF_def CHAR_TAB_def CHAR_BS_def)
  from print_shows [OF demo_screen this, of idle_ports "()"] show ?thesis
    unfolding c d by (auto simp: cell_def VIDEO_COLOR_MASK_def)
qed

text \<open>
  The screen scrolls by two lines.  A line feed on the last line moves every line up by two, clears the last one and puts the cursor on the
  last line but one, which then shows what lay behind the screen in the video memory.
\<close>

theorem scroll_skips_line:
  assumes "screen v mem" "unat (vd_y v) = unat (vd_height v) - 1"
  defines "w \<equiv> unat (vd_width v)" and "h \<equiv> unat (vd_height v)"
  shows "\<exists>v' m' mem'. VideoX86_putCh P CHAR_LF v m = Some (v', m') \<and> vd_mem v' = Some mem' \<and> vd_x v' = 0 \<and> unat (vd_y v') = h - 2 \<and>
    (\<forall>i < h - 1. line w i mem' = line w (i + 2) mem) \<and> line w (h - 1) mem' = replicate w 0 \<and>
    line w (h - 2) mem' = drop (h * w) mem"
proof -
  obtain b1 b2 m1 where u: "VideoX86_putCh P CHAR_LF v m = Video_putCh P CHAR_LF (v\<lparr>vd_uart_initted := b1, vd_uart_avail := b2\<rparr>) m1"
    using VideoX86_putCh_uart [of P CHAR_LF v m] by auto
  let ?v = "v\<lparr>vd_uart_initted := b1, vd_uart_avail := b2, vd_y := vd_y v + 1, vd_x := 0, vd_origin := 0\<rparr>"
  have s: "screen ?v mem"
    using assms(1) by (simp add: screen_def)
  have g: "2 \<le> h" "length mem = (h + 1) * w" "0 < w"
    using assms(1) by (simp_all add: screen_def w_def h_def)
  have "unat (vd_y v + 1) = h"
    using g(1) assms(2) screen_bounds(2) [OF assms(1)] by (subst unat_plus_eq) (simp_all add: h_def)
  then have "vd_height ?v \<le> vd_y ?v"
    by (simp add: word_le_nat_alt h_def)
  from Video_scroll_move [OF s this] u obtain v' m' where "VideoX86_putCh P CHAR_LF v m = Some (v', m')"
    "vd_mem v' = Some (scrolled h w mem)" "vd_x v' = 0" "vd_y v' = vd_height v - 2"
    using g(3) by (auto simp: Video_putCh_def h_def w_def)
  moreover have "unat (vd_height v - 2) = h - 2"
    using g(1) by (simp add: h_def unat_minus_eq)
  moreover have "line w (h - 2) (scrolled h w mem) = drop (h * w) mem"
  proof -
    have "line w (h - 2) (scrolled h w mem) = line w (h - 2 + 2) mem"
      by (rule line_scrolled(1) [OF g(2,1)]) (use g(1) in simp)
    also have "h - 2 + 2 = h"
      using g(1) by simp
    finally show ?thesis
      using g(2) by (simp add: line_def)
  qed
  ultimately show ?thesis
    using line_scrolled [OF g(2,1)] by auto
qed

theorem scroll_skips_line_witness:
  "\<exists>v m. VideoX86_putCh idle_ports CHAR_LF (demo_video\<lparr>vd_y := 24\<rparr>) () = Some (v, m) \<and> unat (vd_y v) = 23"
proof -
  have "screen (demo_video\<lparr>vd_y := 24\<rparr>) (replicate 2080 0)"
    using demo_screen(1) by (simp add: screen_def)
  moreover have "unat (vd_y (demo_video\<lparr>vd_y := 24\<rparr>)) = unat (vd_height (demo_video\<lparr>vd_y := 24\<rparr>)) - 1"
    "unat (vd_height (demo_video\<lparr>vd_y := 24\<rparr>)) = 25"
    by (simp_all add: demo_video_def VideoX86_new_def Video_new_def)
  ultimately show ?thesis
    using scroll_skips_line [of "demo_video\<lparr>vd_y := 24\<rparr>" "replicate 2080 0" idle_ports "()"] by auto
qed

end
