(* ===== verification/Keyboard.thy ===== *)
theory Keyboard
  imports Text_Console Task_Sync
begin

text \<open>
  The keyboard: \<^verbatim>\<open>src/kb.cpp\<close>, \<^verbatim>\<open>arch/x86/kbx86.cpp\<close>, \<^verbatim>\<open>src/layout.cpp\<close> and the layouts of \<^verbatim>\<open>inc/kb\<close>.

  A \<open>keyboard\<close> holds the static variables of \<^verbatim>\<open>kbx86.cpp\<close> and the members of \<^verbatim>\<open>KB\<close>.  A string of a layout is the list of its bytes; the
  entries of the ring buffer are such strings, \<^term>\<open>None\<close> before the first key.  The interrupt routine runs to its end: if it waits for
  the spin lock, which the interrupted task holds, it does not return (\<^term>\<open>None\<close>).

  The laws: the ring buffer refines a queue of at most 31 keys, and loses all of them with the key after; \<^verbatim>\<open>MOD_ALT\<close> is never set.
\<close>

section \<open>Layouts\<close>

type_synonym key_layout = "u8 list option list"

datatype layout_code = LAYOUT_DEFAULT | LAYOUT_US | LAYOUT_FI

abbreviation key :: "u8 \<Rightarrow> u8 list option" where
  "key c \<equiv> Some [c]"

definition layout_us :: key_layout where
  "layout_us =
    [None, None, key 0x31, key 0x32, key 0x33, key 0x34, key 0x35, key 0x36, key 0x37, key 0x38, key 0x39, key 0x30,
     key 0x2D, key 0x3D, key 0x8, key 0x9, key 0x71, key 0x77, key 0x65, key 0x72, key 0x74, key 0x79, key 0x75, key 0x69,
     key 0x6F, key 0x70, key 0x5B, key 0x5D, key 0xA, None, key 0x61, key 0x73, key 0x64, key 0x66, key 0x67, key 0x68,
     key 0x6A, key 0x6B, key 0x6C, key 0x3B, key 0x27, key 0x60, None, None, key 0x7A, key 0x78, key 0x63, key 0x76,
     key 0x62, key 0x6E, key 0x6D, key 0x2C, key 0x2E, key 0x2F, None, key 0x2A, None, key 0x20, None, None,
     None, None, None, None, None, None, None, None, None, None, None, key 0x37,
     key 0x38, key 0x39, key 0x2D, key 0x34, key 0x35, key 0x36, key 0x2B, key 0x31, key 0x32, key 0x33, None, None,
     None, None, None, None, None, None, None, None, None, None, None, None]"

definition layout_us_up :: key_layout where
  "layout_us_up =
    [None, None, key 0x21, key 0x40, key 0x23, key 0x24, key 0x25, key 0x5E, key 0x26, key 0x2A, key 0x28, key 0x29,
     key 0x5F, key 0x2B, key 0x8, key 0x9, key 0x51, key 0x57, key 0x45, key 0x52, key 0x54, key 0x59, key 0x55, key 0x49,
     key 0x4F, key 0x50, key 0x7B, key 0x7D, key 0xA, None, key 0x41, key 0x53, key 0x44, key 0x46, key 0x47, key 0x48,
     key 0x4A, key 0x4B, key 0x4C, key 0x3A, key 0x22, key 0x60, None, None, key 0x5A, key 0x58, key 0x43, key 0x56,
     key 0x42, key 0x4E, key 0x4D, key 0x3C, key 0x3E, key 0x3F, None, key 0x2A, None, key 0x20, None, None,
     None, None, None, None, None, None, None, None, None, None, None, key 0x37,
     key 0x38, key 0x39, key 0x2D, key 0x34, key 0x35, key 0x36, key 0x2B, key 0x31, key 0x32, key 0x33, None, None,
     None, None, None, None, None, None, None, None, None, None, None, None]"

definition layout_fi :: key_layout where
  "layout_fi =
    [None, None, key 0x31, key 0x32, key 0x33, key 0x34, key 0x35, key 0x36, key 0x37, key 0x38, key 0x39, key 0x30,
     key 0x2B, key 0x60, key 0x8, key 0x9, key 0x71, key 0x77, key 0x65, key 0x72, key 0x74, key 0x79, key 0x75, key 0x69,
     key 0x6F, key 0x70, Some [0xC3, 0xA5], key 0x27, key 0xA, None, key 0x61, key 0x73, key 0x64, key 0x66, key 0x67, key 0x68,
     key 0x6A, key 0x6B, key 0x6C, Some [0xC3, 0xB6], Some [0xC3, 0xA4], None, None, None, key 0x7A, key 0x78, key 0x63, key 0x76,
     key 0x62, key 0x6E, key 0x6D, key 0x2C, key 0x2E, key 0x2D, None, key 0x2A, None, key 0x20, None, None,
     None, None, None, None, None, None, None, None, None, None, None, key 0x37,
     key 0x38, key 0x39, key 0x2D, key 0x34, key 0x35, key 0x36, key 0x2B, key 0x31, key 0x32, key 0x33, None, None,
     None, None, None, None, None, None, None, None, None, None, None, None]"

definition layout_fi_up :: key_layout where
  "layout_fi_up =
    [None, None, key 0x21, key 0x22, key 0x23, Some [0xC2, 0xA4], key 0x25, key 0x26, key 0x2F, key 0x28, key 0x29, key 0x3D,
     key 0x3F, key 0x60, key 0x8, key 0x9, key 0x51, key 0x57, key 0x45, key 0x52, key 0x54, key 0x59, key 0x55, key 0x49,
     key 0x4F, key 0x50, Some [0xC3, 0x85], key 0x5E, key 0xA, None, key 0x41, key 0x53, key 0x44, key 0x46, key 0x47, key 0x48,
     key 0x4A, key 0x4B, key 0x4C, Some [0xC3, 0x96], Some [0xC3, 0x84], None, None, None, key 0x5A, key 0x58, key 0x43, key 0x56,
     key 0x42, key 0x4E, key 0x4D, key 0x3B, key 0x3A, key 0x5F, None, key 0x2A, None, key 0x20, None, None,
     None, None, None, None, None, None, None, None, None, None, None, key 0x37,
     key 0x38, key 0x39, key 0x2D, key 0x34, key 0x35, key 0x36, key 0x2B, key 0x31, key 0x32, key 0x33, None, None,
     None, None, None, None, None, None, None, None, None, None, None, None]"

definition get_layout :: "layout_code \<Rightarrow> key_layout" where
  "get_layout lang = (case lang of LAYOUT_FI \<Rightarrow> layout_fi | _ \<Rightarrow> layout_us)"

definition get_layout_upcase :: "layout_code \<Rightarrow> key_layout" where
  "get_layout_upcase lang = (case lang of LAYOUT_FI \<Rightarrow> layout_fi_up | _ \<Rightarrow> layout_us_up)"

section \<open>Modifiers\<close>

definition KEY_LSHIFT :: u8 where "KEY_LSHIFT = 0x2A"
definition KEY_RSHIFT :: u8 where "KEY_RSHIFT = 0x36"
definition KEY_CTRL :: u8 where "KEY_CTRL = 0x1D"
definition KEY_ALT :: u8 where "KEY_ALT = 0x38"
definition KEY_RIGHT_MODIFIER :: u8 where "KEY_RIGHT_MODIFIER = 0x60"
definition KEY_RELEASE :: u8 where "KEY_RELEASE = 0x80"
definition MOD_SHIFT :: u8 where "MOD_SHIFT = 0x02"
definition MOD_CTRL :: u8 where "MOD_CTRL = 0x04"
definition MOD_ALT :: u8 where "MOD_ALT = 0x08"
definition MOD_ALTGR :: u8 where "MOD_ALTGR = 0x10"
definition MOD_RIGHT :: u8 where "MOD_RIGHT = 0x20"

lemmas key_defs = KEY_LSHIFT_def KEY_RSHIFT_def KEY_CTRL_def KEY_ALT_def KEY_RIGHT_MODIFIER_def KEY_RELEASE_def
lemmas mod_defs = MOD_SHIFT_def MOD_CTRL_def MOD_ALT_def MOD_ALTGR_def MOD_RIGHT_def

definition release_mods :: "u8 \<Rightarrow> u8 \<Rightarrow> u8" where
  "release_mods bcode mods =
     (let mods = (if bcode = KEY_LSHIFT then mods AND NOT MOD_SHIFT else mods);
          mods = (if bcode = KEY_RSHIFT then mods AND NOT MOD_SHIFT else mods);
          mods = (if bcode = KEY_CTRL then mods AND NOT MOD_CTRL else mods);
          mods = (if bcode = KEY_ALT then if mods AND MOD_RIGHT \<noteq> 0 then mods AND NOT MOD_ALTGR else mods AND NOT MOD_ALT else mods)
      in if bcode AND KEY_RIGHT_MODIFIER \<noteq> 0 then mods AND NOT MOD_RIGHT else mods)"

definition press_mods :: "u8 \<Rightarrow> u8 \<Rightarrow> u8" where
  "press_mods bcode mods =
     (let mods = (if bcode AND KEY_RIGHT_MODIFIER \<noteq> 0 then mods OR MOD_RIGHT else mods)
      in if bcode = KEY_LSHIFT then mods OR MOD_SHIFT
         else if bcode = KEY_RSHIFT then mods OR MOD_SHIFT
         else if bcode = KEY_CTRL then mods OR MOD_CTRL
         else if bcode = KEY_ALT then if mods AND MOD_RIGHT \<noteq> 0 then mods OR MOD_ALTGR else mods OR MOD_ALT
         else mods)"

text \<open>The modifiers after a scan code.\<close>

definition code_mods :: "u8 \<Rightarrow> u8 \<Rightarrow> u8" where
  "code_mods code mods =
     (if code AND KEY_RELEASE \<noteq> 0 then release_mods (code AND NOT KEY_RELEASE) mods else press_mods code mods)"

text \<open>How the bits of the modifiers lie.\<close>

lemma and_not_clear: "x AND z = 0 \<Longrightarrow> (x AND NOT y) AND z = 0" for x y z :: u8
proof -
  assume "x AND z = 0"
  moreover have "(x AND NOT y) AND z = (x AND z) AND NOT y"
    by (simp only: ac_simps)
  ultimately show ?thesis
    by simp
qed

lemma key_masks: "MOD_RIGHT AND MOD_ALT = 0" "MOD_SHIFT AND MOD_ALT = 0" "MOD_CTRL AND MOD_ALT = 0" "MOD_ALTGR AND MOD_ALT = 0"
    "KEY_ALT AND KEY_RIGHT_MODIFIER \<noteq> 0" "KEY_ALT \<noteq> KEY_LSHIFT" "KEY_ALT \<noteq> KEY_RSHIFT" "KEY_ALT \<noteq> KEY_CTRL" "KEY_ALT AND KEY_RELEASE = 0"
  by (simp_all add: key_defs mod_defs)

lemma or_and_distrib: "(x OR y) AND z = (x AND z) OR (y AND z)" for x y z :: u8
  by (rule bit.conj_disj_distrib2)

lemma set_mods: "(m OR MOD_RIGHT) AND MOD_RIGHT \<noteq> 0" "(m OR MOD_ALTGR) AND MOD_ALTGR \<noteq> 0" for m
  by (simp_all add: or_and_distrib mod_defs)

lemma release_no_alt: "m AND MOD_ALT = 0 \<Longrightarrow> release_mods c m AND MOD_ALT = 0"
  by (simp add: release_mods_def Let_def and_not_clear)

lemma press_alt: "press_mods KEY_ALT m = (m OR MOD_RIGHT) OR MOD_ALTGR" for m
  using set_mods(1) [of m] key_masks(5-8) by (simp add: press_mods_def Let_def)

lemma press_no_alt: "press_mods c m AND MOD_ALT = 0" if "m AND MOD_ALT = 0" for c m
  proof (cases "c = KEY_ALT")
    case True
    then show ?thesis
      using that key_masks by (simp add: press_alt or_and_distrib)
  next
    case False
    then show ?thesis
      using that key_masks(1-4) by (simp add: press_mods_def Let_def or_and_distrib)
  qed

section \<open>The keyboard\<close>

definition KEY_BUFFER_SIZE :: u32 where "KEY_BUFFER_SIZE = 32"
definition KEY_BUFFER_MASK :: u32 where "KEY_BUFFER_MASK = 31"

record keyboard =
  kb_reading :: bool
  kb_layout :: "key_layout option"
  kb_upcase :: "key_layout option"
  kb_mods :: u8
  kb_code :: layout_code
  kb_buffer :: "u8 list option list"
  kb_write :: u32
  kb_read :: u32
  kb_lock :: u32

definition KBX86_new :: keyboard where
  "KBX86_new = \<lparr>kb_reading = False, kb_layout = None, kb_upcase = None, kb_mods = 0, kb_code = LAYOUT_DEFAULT,
     kb_buffer = replicate 32 None, kb_write = 0, kb_read = 0, kb_lock = 0\<rparr>"

text \<open>\<^verbatim>\<open>lock\<close> tries until it gets the lock, which does not happen while the interrupted task holds it.\<close>

definition kb_locked :: "keyboard \<Rightarrow> keyboard option" where
  "kb_locked k = (case Spinlock_trylock (kb_lock k) of (True, l) \<Rightarrow> Some (k\<lparr>kb_lock := l\<rparr>) | _ \<Rightarrow> None)"

definition kb_unlocked :: "keyboard \<Rightarrow> keyboard" where
  "kb_unlocked k = k\<lparr>kb_lock := Spinlock_unlock (kb_lock k)\<rparr>"

definition KBX86_hasKey :: "keyboard \<Rightarrow> bool" where
  "KBX86_hasKey k \<longleftrightarrow> kb_write k \<noteq> kb_read k"

definition KBX86_getKey :: "keyboard \<Rightarrow> (u8 list option \<times> keyboard) option" where
  "KBX86_getKey k = do {
     k \<leftarrow> kb_locked k;
     (if kb_write k = kb_read k then Some (None, kb_unlocked k)
      else if unat (kb_read k) < length (kb_buffer k) then
        Some (kb_buffer k ! unat (kb_read k), kb_unlocked (k\<lparr>kb_read := (kb_read k + 1) AND KEY_BUFFER_MASK\<rparr>))
      else None) }"

text \<open>\<^verbatim>\<open>printf("%s", mapped)\<close>.\<close>

definition echo_key :: "'m ports \<Rightarrow> u8 list \<Rightarrow> video \<Rightarrow> 'm \<Rightarrow> (video \<times> 'm) option" where
  "echo_key P s v m = do { (n, v, m) \<leftarrow> Video_printf P [0x25, 0x73] [VaText (Some s)] v m; Some (v, m) }"

definition store_key :: "'m ports \<Rightarrow> u8 list \<Rightarrow> keyboard \<Rightarrow> video \<Rightarrow> 'm \<Rightarrow> (keyboard \<times> video \<times> 'm) option" where
  "store_key P s k v m = do {
     k \<leftarrow> kb_locked k;
     (v, m) \<leftarrow> echo_key P s v m;
     (if unat (kb_write k) < length (kb_buffer k) then
        Some (kb_unlocked (k\<lparr>kb_buffer := (kb_buffer k)[unat (kb_write k) := Some s], kb_write := (kb_write k + 1) AND KEY_BUFFER_MASK\<rparr>), v, m)
      else None) }"

definition with_layout :: "keyboard \<Rightarrow> keyboard" where
  "with_layout k =
     (case kb_layout k of
        Some _ \<Rightarrow> k
      | None \<Rightarrow> k\<lparr>kb_layout := Some (get_layout (kb_code k)), kb_upcase := Some (get_layout_upcase (kb_code k))\<rparr>)"

definition mapped_key :: "u8 \<Rightarrow> keyboard \<Rightarrow> u8 list option option" where
  "mapped_key bcode k = do {
     l \<leftarrow> (if kb_mods k AND MOD_SHIFT \<noteq> 0 then kb_upcase k else kb_layout k);
     (if unat bcode < length l then Some (l ! unat bcode) else None) }"

definition KBX86_run :: "'m ports \<Rightarrow> keyboard \<Rightarrow> video \<Rightarrow> 'm \<Rightarrow> (keyboard \<times> video \<times> 'm) option" where
  "KBX86_run P k v m =
     (let (code, m) = pt_in8 P 0x60 m; k = with_layout k
      in if code AND KEY_RELEASE \<noteq> 0 then
           Some (k\<lparr>kb_mods := release_mods (code AND NOT KEY_RELEASE) (kb_mods k)\<rparr>, v, m)
         else
           (let k = k\<lparr>kb_mods := press_mods code (kb_mods k)\<rparr>
            in if code < 0x60 then do {
                 mapped \<leftarrow> mapped_key code k;
                 (case mapped of None \<Rightarrow> Some (k, v, m) | Some s \<Rightarrow> store_key P s k v m) }
               else Some (k, v, m)))"

definition KB_handler :: "'m ports \<Rightarrow> keyboard option \<Rightarrow> video \<Rightarrow> 'm \<Rightarrow> (int \<times> keyboard option \<times> video \<times> 'm) option" where
  "KB_handler P kb v m =
     (case kb of
        None \<Rightarrow> Some (- 1, None, v, m)
      | Some k \<Rightarrow> do { (k, v, m) \<leftarrow> KBX86_run P k v m; Some (0, Some k, v, m) })"

definition KB_startReading :: "keyboard \<Rightarrow> video \<Rightarrow> keyboard \<times> video" where
  "KB_startReading k v = (k\<lparr>kb_reading := True\<rparr>, Video_setOrigin v)"

definition KB_stopReading :: "keyboard \<Rightarrow> keyboard" where
  "KB_stopReading k = k\<lparr>kb_reading := False\<rparr>"

section \<open>The ring buffer\<close>

definition kb_count :: "keyboard \<Rightarrow> nat" where
  "kb_count k = (unat (kb_write k) + 32 - unat (kb_read k)) mod 32"

text \<open>The keys that have not been read, in the order in which they came.\<close>

definition kb_queue :: "keyboard \<Rightarrow> u8 list option list" where
  "kb_queue k = map (\<lambda>i. kb_buffer k ! ((unat (kb_read k) + i) mod 32)) [0..<kb_count k]"

definition layout_ok :: "key_layout option \<Rightarrow> bool" where
  "layout_ok l \<longleftrightarrow> (case l of None \<Rightarrow> True | Some t \<Rightarrow> length t = 96)"

definition kb_ok :: "keyboard \<Rightarrow> bool" where
  "kb_ok k \<longleftrightarrow> length (kb_buffer k) = 32 \<and> unat (kb_write k) < 32 \<and> unat (kb_read k) < 32 \<and> kb_lock k = 0 \<and>
     layout_ok (kb_layout k) \<and> layout_ok (kb_upcase k) \<and> (kb_layout k = None \<longleftrightarrow> kb_upcase k = None)"

lemma next_index:
  assumes "unat (w :: u32) < 32"
  shows "unat ((w + 1) AND KEY_BUFFER_MASK) = (unat w + 1) mod 32"
proof -
  have "(w + 1) AND KEY_BUFFER_MASK = take_bit 5 (w + 1)"
    by (simp add: KEY_BUFFER_MASK_def take_bit_eq_mask mask_eq_exp_minus_1)
  moreover have "unat (w + 1) = unat w + 1"
    using assms by (subst unat_plus_eq) simp_all
  ultimately show ?thesis
    by (simp add: take_bit_eq_mod unat_mod)
qed

lemma ring_distance: "(w :: nat) < 32 \<Longrightarrow> r < 32 \<Longrightarrow> (w + 32 - r) mod 32 = (if r \<le> w then w - r else w + 32 - r)"
  by (auto simp: Nat.add_diff_assoc2 mod_if)

lemma ring_next: "(i :: nat) < 32 \<Longrightarrow> (i + 1) mod 32 = (if i = 31 then 0 else i + 1)"
  by auto

lemma kb_count_less: "kb_count k < 32"
  by (simp add: kb_count_def)

lemma kb_count_0: "kb_ok k \<Longrightarrow> kb_count k = 0 \<longleftrightarrow> kb_write k = kb_read k"
proof -
  assume "kb_ok k"
  then have "unat (kb_write k) < 32" "unat (kb_read k) < 32"
    by (simp_all add: kb_ok_def)
  then have "kb_count k = 0 \<longleftrightarrow> unat (kb_write k) = unat (kb_read k)"
    by (auto simp: kb_count_def ring_distance split: if_splits)
  then show ?thesis
    by (simp add: word_unat_eq_iff)
qed

lemma hasKey_ok: "kb_ok k \<Longrightarrow> KBX86_hasKey k \<longleftrightarrow> kb_queue k \<noteq> []"
  using kb_count_0 by (auto simp: KBX86_hasKey_def kb_queue_def)

lemma getKey_ok:
  assumes "kb_ok k"
  shows "\<exists>k'. KBX86_getKey k = Some (case kb_queue k of [] \<Rightarrow> None | s # _ \<Rightarrow> s, k') \<and> kb_ok k' \<and> kb_queue k' = tl (kb_queue k) \<and>
    kb_mods k' = kb_mods k"
proof (cases "kb_count k")
  case 0
  then show ?thesis
    using assms kb_count_0 [OF assms]
    by (simp add: KBX86_getKey_def kb_locked_def kb_unlocked_def Spinlock_trylock_def Spinlock_unlock_def kb_queue_def kb_ok_def kb_count_def)
next
  case (Suc n)
  let ?k = "k\<lparr>kb_lock := 0, kb_read := (kb_read k + 1) AND KEY_BUFFER_MASK\<rparr>"
  have r: "unat (kb_read ?k) = (unat (kb_read k) + 1) mod 32" and b: "unat (kb_write k) < 32" "unat (kb_read k) < 32"
    using assms next_index by (simp_all add: kb_ok_def)
  have "unat (kb_read ?k) < 32"
    using r by simp
  note ring_distance [OF b(1) this] ring_distance [OF b(1) b(2)]
  then have c: "kb_count ?k = n"
    using Suc b r unfolding kb_count_def by (cases "unat (kb_read k) = 31") (simp_all split: if_splits)
  have "kb_queue k = kb_buffer k ! unat (kb_read k) # kb_queue ?k"
    using b unfolding kb_queue_def Suc c r
    by (simp add: upt_conv_Cons map_Suc_upt [symmetric] mod_simps del: upt_Suc)
  moreover have "KBX86_getKey k = Some (kb_buffer k ! unat (kb_read k), ?k)"
    using assms Suc kb_count_0 [OF assms]
    by (auto simp: KBX86_getKey_def kb_locked_def kb_unlocked_def Spinlock_trylock_def Spinlock_unlock_def kb_ok_def)
  moreover have "kb_ok ?k"
    using assms r by (simp add: kb_ok_def)
  ultimately show ?thesis
    by simp
qed

lemma ring_push: "(w :: nat) < 32 \<Longrightarrow> r < 32 \<Longrightarrow>
  (if r \<le> (w + 1) mod 32 then (w + 1) mod 32 - r else (w + 1) mod 32 + 32 - r) = 
  (if (if r \<le> w then w - r else w + 32 - r) < 31 then (if r \<le> w then w - r else w + 32 - r) + 1 else 0)"
  by (cases "w = 31") (auto simp: mod_if)

lemma ring_end: "(w :: nat) < 32 \<Longrightarrow> r < 32 \<Longrightarrow> (r + (if r \<le> w then w - r else w + 32 - r)) mod 32 = w"
  by auto

lemma ring_before: "(w :: nat) < 32 \<Longrightarrow> r < 32 \<Longrightarrow> j < (if r \<le> w then w - r else w + 32 - r) \<Longrightarrow> (r + j) mod 32 \<noteq> w"
proof (cases "r + j < 32")
  case False
  assume "w < 32" "r < 32" "j < (if r \<le> w then w - r else w + 32 - r)"
  then have "r + j - 32 < w"
    using False by (auto split: if_splits)
  moreover have "(r + j) mod 32 = r + j - 32"
    using False \<open>r + j - 32 < w\<close> \<open>w < 32\<close> by (simp add: le_mod_geq)
  ultimately show ?thesis
    by simp
qed (auto split: if_splits)

lemma echo_ok:
  assumes "console_ok v"
  obtains v' m' where "echo_key P s v m = Some (v', m')" "console_ok v'"
proof -
  have "fits [0x25, 0x73] False 0 0 [VaText (Some s)]"
    by simp
  from printf_ok [OF assms this, of P m] that show thesis
    by (auto simp: echo_key_def)
qed

text \<open>A key that is stored: the buffer takes 31 keys, the one after empties it.\<close>

lemma store_key_ok:
  assumes "kb_ok k" "console_ok v"
  shows "\<exists>k' v' m'. store_key P s k v m = Some (k', v', m') \<and> kb_ok k' \<and> console_ok v' \<and> kb_mods k' = kb_mods k \<and>
    kb_queue k' = (if length (kb_queue k) < 31 then kb_queue k @ [Some s] else [])"
proof -
  obtain v' m' where e: "echo_key P s v m = Some (v', m')" "console_ok v'"
    by (rule echo_ok [OF assms(2)])
  let ?k = "k\<lparr>kb_lock := 0, kb_buffer := (kb_buffer k)[unat (kb_write k) := Some s], kb_write := (kb_write k + 1) AND KEY_BUFFER_MASK\<rparr>"
  have w: "unat (kb_write ?k) = (unat (kb_write k) + 1) mod 32" and b: "unat (kb_write k) < 32" "unat (kb_read k) < 32" "length (kb_buffer k) = 32"
    using assms(1) next_index by (simp_all add: kb_ok_def)
  have "store_key P s k v m = Some (?k, v', m')"
    using assms(1) e(1) b
    by (simp add: store_key_def kb_locked_def kb_unlocked_def Spinlock_trylock_def Spinlock_unlock_def kb_ok_def)
  moreover have "kb_ok ?k"
    using assms(1) w by (simp add: kb_ok_def)
  moreover have "kb_queue ?k = (if length (kb_queue k) < 31 then kb_queue k @ [Some s] else [])"
  proof -
    note d = ring_distance [OF b(1,2)]
    have "unat (kb_write ?k) < 32"
      using w by simp
    have "kb_read ?k = kb_read k"
      by simp
    note this ring_distance [OF \<open>unat (kb_write ?k) < 32\<close> b(2)]
    then have c: "kb_count ?k = (if kb_count k < 31 then kb_count k + 1 else 0)"
      using ring_push [OF b(1,2)] by (simp only: kb_count_def d w)
    have i: "(unat (kb_read k) + kb_count k) mod 32 = unat (kb_write k)"
      using ring_end [OF b(1,2)] by (simp only: kb_count_def d)
    have ne: "(unat (kb_read k) + j) mod 32 \<noteq> unat (kb_write k)" if "j < kb_count k" for j
      by (rule ring_before [OF b(1,2)]) (use that in \<open>simp only: kb_count_def d\<close>)
    have old: "map (\<lambda>i. kb_buffer ?k ! ((unat (kb_read ?k) + i) mod 32)) [0..<kb_count k] = kb_queue k"
      unfolding kb_queue_def by (rule map_cong [OF refl]) (simp add: nth_list_update_neq [OF ne [symmetric]])
    show ?thesis
    proof (cases "kb_count k < 31")
      case True
      then have "kb_queue ?k = map (\<lambda>i. kb_buffer ?k ! ((unat (kb_read ?k) + i) mod 32)) [0..<kb_count k] @ [Some s]"
        using c i b by (simp add: kb_queue_def)
      with True show ?thesis
        unfolding old by (simp add: kb_queue_def)
    next
      case False
      then show ?thesis
        using c by (simp add: kb_queue_def)
    qed
  qed
  ultimately show ?thesis
    using e(2) by auto
qed

lemma with_layout_ok:
  assumes "kb_ok k"
  shows "kb_ok (with_layout k)" "kb_queue (with_layout k) = kb_queue k" "kb_mods (with_layout k) = kb_mods k"
    "\<exists>l u. kb_layout (with_layout k) = Some l \<and> kb_upcase (with_layout k) = Some u \<and> length l = 96 \<and> length u = 96"
proof -
  have t: "length (get_layout c) = 96" "length (get_layout_upcase c) = 96" for c
    by (cases c; simp add: get_layout_def get_layout_upcase_def layout_us_def layout_us_up_def layout_fi_def layout_fi_up_def)+
  show "kb_ok (with_layout k)" "kb_queue (with_layout k) = kb_queue k" "kb_mods (with_layout k) = kb_mods k"
    using assms t by (auto simp: with_layout_def kb_ok_def layout_ok_def kb_queue_def kb_count_def split: option.splits)
  show "\<exists>l u. kb_layout (with_layout k) = Some l \<and> kb_upcase (with_layout k) = Some u \<and> length l = 96 \<and> length u = 96"
    using assms t by (auto simp: with_layout_def kb_ok_def layout_ok_def split: option.splits)
qed

lemma kb_mods_upd: "kb_ok (k\<lparr>kb_mods := x\<rparr>) = kb_ok k" "kb_queue (k\<lparr>kb_mods := x\<rparr>) = kb_queue k"
  by (simp_all add: kb_ok_def kb_queue_def kb_count_def)

text \<open>The key that a scan code gives: none for a release, for a modifier and for a key without a text.\<close>

definition key_of :: "u8 \<Rightarrow> keyboard \<Rightarrow> u8 list option" where
  "key_of code k =
     (if code AND KEY_RELEASE \<noteq> 0 \<or> \<not> code < 0x60 then None
      else (let k = with_layout k
            in the (if press_mods code (kb_mods k) AND MOD_SHIFT \<noteq> 0 then kb_upcase k else kb_layout k) ! unat code))"

lemma run_ok:
  assumes "kb_ok k" "console_ok v" "fst (pt_in8 P 0x60 m) = code"
  shows "\<exists>k' v' m'. KBX86_run P k v m = Some (k', v', m') \<and> kb_ok k' \<and> console_ok v' \<and> kb_mods k' = code_mods code (kb_mods k) \<and>
    kb_queue k' = (case key_of code k of None \<Rightarrow> kb_queue k | Some s \<Rightarrow> if length (kb_queue k) < 31 then kb_queue k @ [Some s] else [])"
proof -
  obtain m1 where m1: "pt_in8 P 0x60 m = (code, m1)"
    using assms(3) by (cases "pt_in8 P 0x60 m") auto
  note wl = with_layout_ok [OF assms(1)]
  obtain l u where lu: "kb_layout (with_layout k) = Some l" "kb_upcase (with_layout k) = Some u" "length l = 96" "length u = 96"
    using wl(4) by blast
  consider "code AND KEY_RELEASE \<noteq> 0" | "code AND KEY_RELEASE = 0" "\<not> code < 0x60" | "code AND KEY_RELEASE = 0" "code < 0x60"
    by blast
  then show ?thesis
  proof cases
    case 3
    let ?k = "(with_layout k)\<lparr>kb_mods := press_mods code (kb_mods k)\<rparr>"
    have c: "unat code < 96"
      using 3(2) by (simp add: word_less_nat_alt)
    have mk: "mapped_key code ?k = Some (key_of code k)"
      using 3 c lu wl(3) by (simp add: mapped_key_def key_of_def Let_def)
    have k: "kb_ok ?k" "kb_queue ?k = kb_queue k"
      using wl by (simp_all add: kb_mods_upd)
    show ?thesis
    proof (cases "key_of code k")
      case None
      then show ?thesis
        using 3 m1 mk k assms(2) wl(3) by (simp add: KBX86_run_def code_mods_def)
    next
      case (Some s)
      obtain k' v' m' where "store_key P s ?k v m1 = Some (k', v', m')" "kb_ok k'" "console_ok v'" "kb_mods k' = press_mods code (kb_mods k)"
        "kb_queue k' = (if length (kb_queue k) < 31 then kb_queue k @ [Some s] else [])"
        using store_key_ok [OF k(1) assms(2), of P s m1] k(2) by auto
      then show ?thesis
        using 3 m1 mk Some wl(3) by (simp add: KBX86_run_def code_mods_def)
    qed
  qed (use m1 wl assms(2) in \<open>auto simp: KBX86_run_def code_mods_def key_of_def kb_mods_upd\<close>)
qed

section \<open>The properties\<close>

lemma KBX86_new_ok: "kb_ok KBX86_new" "kb_queue KBX86_new = []"
  by (simp_all add: KBX86_new_def kb_ok_def layout_ok_def kb_queue_def kb_count_def)

text \<open>A port on which the keyboard gives one code.\<close>

definition key_ports :: "u8 ports" where
  "key_ports = \<lparr>pt_in8 = \<lambda>p m. (if p = 0x60 then m else 0xFF, m), pt_in16 = \<lambda>p m. (0xFFFF, m), pt_in32 = \<lambda>p m. (0xFFFFFFFF, m),
     pt_out8 = \<lambda>p v m. m, pt_out16 = \<lambda>p v m. m, pt_out32 = \<lambda>p v m. m, pt_sleep = \<lambda>t m. m, pt_alloc = \<lambda>m. (None, m)\<rparr>"

text \<open>
  C38: The keyboard is a queue of at most 31 keys.  The interrupt routine returns; it appends the text of the key for the
  scan code, if it has one, and echoes it on the console; a key for which there is no room empties the queue.  \<^verbatim>\<open>getKey\<close> takes the oldest key,
  \<^verbatim>\<open>hasKey\<close> tells whether there is one.  While \<^verbatim>\<open>getKey\<close> holds the lock, an interrupt with a key does not return.
\<close>

theorem keyboard_is_queue:
  assumes "kb_ok k" "console_ok v" "fst (pt_in8 P 0x60 m) = code"
  shows "(\<exists>k' v' m'. KBX86_run P k v m = Some (k', v', m') \<and> kb_ok k' \<and> console_ok v' \<and>
      kb_queue k' = (case key_of code k of None \<Rightarrow> kb_queue k
        | Some s \<Rightarrow> if length (kb_queue k) < 31 then kb_queue k @ [Some s] else [])) \<and>
    (\<exists>k'. KBX86_getKey k = Some (case kb_queue k of [] \<Rightarrow> None | s # _ \<Rightarrow> s, k') \<and> kb_ok k' \<and> kb_queue k' = tl (kb_queue k)) \<and>
    (KBX86_hasKey k \<longleftrightarrow> kb_queue k \<noteq> []) \<and>
    (\<forall>kh. kb_locked k = Some kh \<and> key_of code k \<noteq> None \<longrightarrow> KBX86_run P kh v m = None)"
proof (intro conjI)
  show "\<exists>k' v' m'. KBX86_run P k v m = Some (k', v', m') \<and> kb_ok k' \<and> console_ok v' \<and>
      kb_queue k' = (case key_of code k of None \<Rightarrow> kb_queue k
        | Some s \<Rightarrow> if length (kb_queue k) < 31 then kb_queue k @ [Some s] else [])"
    using run_ok [OF assms] by blast
  show "\<exists>k'. KBX86_getKey k = Some (case kb_queue k of [] \<Rightarrow> None | s # _ \<Rightarrow> s, k') \<and> kb_ok k' \<and> kb_queue k' = tl (kb_queue k)"
    using getKey_ok [OF assms(1)] by blast
  show "KBX86_hasKey k \<longleftrightarrow> kb_queue k \<noteq> []"
    by (rule hasKey_ok [OF assms(1)])
  show "\<forall>kh. kb_locked k = Some kh \<and> key_of code k \<noteq> None \<longrightarrow> KBX86_run P kh v m = None"
  proof (intro allI impI)
    fix kh
    assume a: "kb_locked k = Some kh \<and> key_of code k \<noteq> None"
    then have kh: "kh = k\<lparr>kb_lock := 1\<rparr>" and r: "code AND KEY_RELEASE = 0" "code < 0x60"
      using assms(1) by (auto simp: kb_locked_def kb_ok_def Spinlock_trylock_def key_of_def split: if_splits)
    have "store_key P s (k1\<lparr>kb_lock := 1, kb_mods := x\<rparr>) v m' = None" for s k1 x m'
      by (simp add: store_key_def kb_locked_def Spinlock_trylock_def)
    moreover have "with_layout kh = (with_layout k)\<lparr>kb_lock := 1\<rparr>"
      by (simp add: kh with_layout_def split: option.splits)
    moreover have "mapped_key code (((with_layout k)\<lparr>kb_lock := 1\<rparr>)\<lparr>kb_mods := press_mods code (kb_mods k)\<rparr>) = Some (key_of code k)"
    proof -
      obtain l u where "kb_layout (with_layout k) = Some l" "kb_upcase (with_layout k) = Some u" "length l = 96" "length u = 96"
        using with_layout_ok(4) [OF assms(1)] by blast
      moreover have "unat code < 96"
        using r(2) by (simp add: word_less_nat_alt)
      ultimately show ?thesis
        using r with_layout_ok(3) [OF assms(1)] by (simp add: mapped_key_def key_of_def Let_def)
    qed
    ultimately show "KBX86_run P kh v m = None"
      using a r assms(3) with_layout_ok(3) [OF assms(1)] by (cases "pt_in8 P 0x60 m") (auto simp: KBX86_run_def)
  qed
qed

theorem keyboard_is_queue_witness:
  "\<exists>k v m. KBX86_run key_ports KBX86_new demo_video 0x1E = Some (k, v, m) \<and> kb_queue k = [Some [0x61]]"
proof -
  have p: "fst (pt_in8 key_ports 0x60 0x1E) = 0x1E"
    by (simp add: key_ports_def)
  have "key_of 0x1E KBX86_new = Some [0x61]"
    by (simp add: key_of_def KBX86_new_def with_layout_def press_mods_def get_layout_def get_layout_upcase_def layout_us_def key_defs mod_defs Let_def)
  with keyboard_is_queue [OF KBX86_new_ok(1) demo_ok p] KBX86_new_ok(2) show ?thesis
    by auto
qed

text \<open>
  C39: \<^verbatim>\<open>MOD_ALT\<close> is never set.  The bits of \<^verbatim>\<open>KEY_RIGHT_MODIFIER\<close> are not a key but a mask that the code of the Alt key meets itself, so
  that a pressed Alt is always taken for AltGr; and a key released in between clears \<^verbatim>\<open>MOD_RIGHT\<close>, so that the release of
  Alt then leaves \<^verbatim>\<open>MOD_ALTGR\<close> set.
\<close>

theorem alt_is_altgr:
  "foldl (\<lambda>m c. code_mods c m) 0 codes AND MOD_ALT = 0 \<and>
   code_mods KEY_ALT mods AND MOD_ALTGR \<noteq> 0 \<and>
   foldl (\<lambda>m c. code_mods c m) 0 [KEY_ALT, 0x1E OR KEY_RELEASE, 0x20 OR KEY_RELEASE, KEY_ALT OR KEY_RELEASE] = MOD_ALTGR"
proof (intro conjI)
  have "code_mods c m AND MOD_ALT = 0" if "m AND MOD_ALT = 0" for c m
    using press_no_alt [OF that] release_no_alt [OF that] by (simp add: code_mods_def)
  then have "m AND MOD_ALT = 0 \<Longrightarrow> foldl (\<lambda>m c. code_mods c m) m codes AND MOD_ALT = 0" for m
    by (induction codes arbitrary: m) simp_all
  then show "foldl (\<lambda>m c. code_mods c m) 0 codes AND MOD_ALT = 0"
    by simp
  show "code_mods KEY_ALT mods AND MOD_ALTGR \<noteq> 0"
    using set_mods(2) key_masks(9) by (simp add: code_mods_def press_alt)
  show "foldl (\<lambda>m c. code_mods c m) 0 [KEY_ALT, 0x1E OR KEY_RELEASE, 0x20 OR KEY_RELEASE, KEY_ALT OR KEY_RELEASE] = MOD_ALTGR"
    by (simp add: code_mods_def press_mods_def release_mods_def Let_def key_defs mod_defs)
qed

end
