(* ===== verification/Spec2Isabelle.thy ===== *)
theory Spec2Isabelle
  imports Linked_List Bitmap Soft_Math Kernel_String Allocator Task_Sync Scheduler Paging_X86 Syscall_File Ata_Phys Keyboard
begin

text \<open>
  A verification development for the cxx-kernel operating system kernel, in its i386 configuration.

  \<^bold>\<open>The program.\<close>  The kernel boots from multiboot, sets up paging and a heap, starts a scheduler driven by
  the timer interrupt, finds discs over PCI and ATA, mounts file systems and runs applications that reach it through the system calls of a C library.
  The parts that carry its logic are: containers (\<^verbatim>\<open>List\<close>, \<^verbatim>\<open>Bits\<close>, \<^verbatim>\<open>String\<close>), the heap (\<^verbatim>\<open>MM\<close>) on top of
  paging, mutexes and wait lists on top of tasks, the process manager, and the file systems behind the virtual file
  system.  They call each other in that order: the heap takes pages from \<^verbatim>\<open>Paging::alloc\<close>, which marks frames in a
  \<^verbatim>\<open>Bits\<close>; a contended mutex queues its task and calls the scheduler; the scheduler rotates a \<^verbatim>\<open>List\<close> of tasks; the table of open files
  is a \<^verbatim>\<open>List\<close>; a system call asks the virtual file system for the owner of a path or a handle and calls its methods.

  \<^bold>\<open>Theories and sources\<close> (paths below \<^verbatim>\<open>src/\<close>).

  \<^item> \<open>Kernel_Prelude\<close>: machine words, pointers, undefined behaviour, generic lemmas.

  \<^item> \<open>Linked_List\<close>: \<^verbatim>\<open>src/list.cpp\<close>.  Nodes in a store by address, with the cache of freed nodes.  The queue
  and positional operations refine list operations; locales \<open>pointer_sequence\<close> and \<open>rotating_sequence\<close> are what the
  scheduler and the file table use.

  \<^item> \<open>Bitmap\<close>: \<^verbatim>\<open>src/bits.cpp\<close>.  A bitmap refines a set of frame numbers; \<^verbatim>\<open>findUnset\<close>.

  \<^item> \<open>Soft_Math\<close>: \<^verbatim>\<open>src/math.cpp\<close>.  Software division equals \<open>div\<close> and \<open>mod\<close>.

  \<^item> \<open>Kernel_String\<close>: \<^verbatim>\<open>src/string.cpp\<close>.  \<^verbatim>\<open>Mem\<close> over a byte store, \<^verbatim>\<open>String\<close> over buffers.

  \<^item> \<open>Allocator\<close>: \<^verbatim>\<open>src/mm.cpp\<close>.  The bump area and the tree of free blocks; blocks in use stay disjoint.

  \<^item> \<open>Task_Sync\<close>: \<^verbatim>\<open>src/waitlist.cpp\<close>, \<^verbatim>\<open>inc/mutex.hh\<close>.  Interleavings of lock and unlock are a step relation,
  in which \<^verbatim>\<open>reschedule\<close> may return to any task in it, blocked or not; mutual exclusion is an invariant of the runs that never
  resume a blocked task, and the first step that breaks it behind such a run resumes one.

  \<^item> \<open>Scheduler\<close>: \<^verbatim>\<open>src/processmanager.cpp\<close>, \<^verbatim>\<open>inc/task.h\<close>, \<^verbatim>\<open>src/timer.cpp\<close>.

  \<^item> \<open>Paging_X86\<close>: \<^verbatim>\<open>arch/x86/pagingx86.cpp\<close>, \<^verbatim>\<open>src/paging.cpp\<close>.  Page tables, frames and start-up, where
  every access to the bitmap before its buffer is set is a null dereference; locale \<open>frame_bitmap\<close> is what paging
  needs of the bitmap, interpreted by \<open>Bitmap\<close>.

  \<^item> \<open>Block_Device\<close>: \<^verbatim>\<open>src/storage.cpp\<close> and the interface of discs.

  \<^item> \<open>File_Table\<close>: \<^verbatim>\<open>src/fs/filesystem.cpp\<close>.  Open files as a map from handles; path splitting; locales \<open>handle_closing\<close> and
  \<open>handle_opening\<close> are the contract of a file system's handles, interpreted by \<open>Dev_FS\<close> and \<open>Ustar_FS\<close>.

  \<^item> \<open>Dev_FS\<close>: \<^verbatim>\<open>src/fs/devfs.cpp\<close>, \<^verbatim>\<open>arch/random.cpp\<close>.

  \<^item> \<open>Ustar_FS\<close>: \<^verbatim>\<open>src/fs/ustar.cpp\<close>.  Over a well-formed archive, the file system refines a map from handles to positions in members.

  \<^item> \<open>Vfs_Mounts\<close>: \<^verbatim>\<open>src/fs/vfs.cpp\<close>.

  \<^item> \<open>Syscall_File\<close>: \<^verbatim>\<open>libc/syscall_fileio.cpp\<close>.  The composition of the file components.

  \<^item> \<open>Clothes_Disc\<close>, \<open>Clothes_Laws\<close>, \<open>Clothes_FS\<close>: \<^verbatim>\<open>src/fs/clothesfs.cpp\<close>.  The disc format and the operations on blocks; their laws, with the
  locale \<open>sector_device\<close> for the device below; iterators, the file system's handles and the properties of \<^verbatim>\<open>format\<close>, \<^verbatim>\<open>addFile\<close>, \<^verbatim>\<open>open\<close>
  and \<^verbatim>\<open>read\<close>.  What a path means is \<open>path_lookup\<close>, which is independent of the code; what \<^verbatim>\<open>findFile\<close> searches is \<open>resolve\<close>, and the two
  differ for paths of more than one part.

  \<^item> \<open>Pci_Bus\<close>: \<^verbatim>\<open>src/pci.cpp\<close>, \<^verbatim>\<open>arch/x86/pcix86.cpp\<close>.  Port I/O as the record \<open>ports\<close> of functions on a machine state; configuration cycles
  and the walk over the bus, compared with the functions that are there (\<open>on_bus\<close>, \<open>first_from\<close>).

  \<^item> \<open>Ata_Driver\<close>, \<open>Ata_Bounds\<close>, \<open>Ata_Disc\<close>, \<open>Ata_Phys\<close>: \<^verbatim>\<open>src/ata.cpp\<close>.  The driver; what holds of it whatever the ports answer, above
  all that every access ends; what it does with a drive, stated from the ATA documentation, behind its ports; \<^verbatim>\<open>ATAPhys\<close>, which
  interprets \<open>sector_device\<close>, and with it ClothesFS on the driver.

  \<^item> \<open>Text_Console\<close>: \<^verbatim>\<open>src/video.cpp\<close>, \<^verbatim>\<open>arch/x86/videox86.cpp\<close>.  The console in text mode: it keeps the cursor on the screen, but for tabs
  in a format and provided that the video memory is one line larger than the screen, and prints numbers by the digits that denote them.

  \<^item> \<open>Keyboard\<close>: \<^verbatim>\<open>arch/x86/kbx86.cpp\<close>, \<^verbatim>\<open>src/kb.cpp\<close>.  The interrupt routine and the ring buffer, which refines a queue of 31 keys.

  This theory holds the property that joins the mutex with the scheduler.

  \<^bold>\<open>Conventions.\<close>  A class is a \<open>record\<close>, an operation a function from the old to the new state; objects behind pointers live in
  stores by address.  The result \<^term>\<open>None\<close> of an operation means that the code has no defined result: it dereferences \<^verbatim>\<open>nullptr\<close>,
  leaves an array, reads an indeterminate value or does not return.  Every statement that an operation works therefore states
  that it returns \<^term>\<open>Some\<close> result.  Integers keep their widths.  Loops that end by their own counters are \<open>fun\<close> or \<open>function\<close> with a
  termination proof; loops that follow pointers or poll are \<open>partial_function\<close> in the option monad.  No loop is cut off by fuel: the polling
  loops and the keyboard take the list of the values that will be seen, and give \<^term>\<open>None\<close> when that list is used up.
  Memory that the code does not initialise is an argument named \<open>junk\<close>.

  \<^bold>\<open>Bounds.\<close>  The tar file system is correct for discs of at most \<open>2 ^ 32 - 512\<close> bytes, the largest size that the ATA driver reports;
  lists and tables hold fewer than \<open>2 ^ 32\<close> elements, buffers fewer than \<open>2 ^ 31\<close> bytes, as 32-bit addresses require.
  An access of the ATA driver takes 1 to 255 sectors; the drive may stay busy for 4095 reads of its status, the limit of the driver's polling
  loops.  ClothesFS is used with blocks of one sector of 512 bytes, the size that \<^verbatim>\<open>format\<close> gives them.

  \<^bold>\<open>Not modelled.\<close>  Machine code and the devices that are only registers behind ports (interrupt tables, GDT, timer and
  clock chips, BIOS calls, VESA and Bochs video), the framebuffer and the fonts, with the console's output on them, the start-up code, the ARM and
  Linux ports, and \<^verbatim>\<open>libc/pthread\<close>.  The applications and \<^verbatim>\<open>3rdparty\<close> are not part of the kernel.
\<close>

section \<open>The mutex under the scheduler\<close>

text \<open>
  C40: The mutex is not safe under this scheduler.  There is a run of \<^verbatim>\<open>lock()\<close>, so far without a blocked task resumed, in which task
  \<open>t\<close> holds the mutex and task \<open>u\<close> sleeps inside \<^verbatim>\<open>lock()\<close>, blocked, waiting for \<^verbatim>\<open>reschedule()\<close> to return.  If the tasks before \<open>u\<close> in
  the task list are blocked too, \<^verbatim>\<open>schedule()\<close>, called by \<open>u\<close>, returns to \<open>u\<close> without changing any task: with this step, which
  resumes a blocked task, \<open>u\<close> leaves \<^verbatim>\<open>lock()\<close> and both tasks are past it.
\<close>

theorem mutex_unsafe_under_schedule:
  assumes "\<And>i. st_status (ts i) \<noteq> STATUS_BLOCKED" "t \<noteq> u"
    "sched_ready pm u tc (bs @ Some u # cs)" "\<forall>b \<in> set bs. blocked pm b \<and> b \<noteq> Some u"
  shows "\<exists>w. (sound_step BaseMutex_lock BaseMutex_unlock)\<^sup>*\<^sup>* (lock_start BaseMutex_new ts) w \<and>
    lw_pc w t = Critical \<and> lw_pc w u = Sleeping \<and> st_status (lw_tasks w u) = STATUS_BLOCKED \<and>
    (tk_status tc = st_status (lw_tasks w u) \<longrightarrow>
      (\<exists>pm'. ProcessManager_schedule pm = Some (Returned (Some u), pm') \<and> pm_store pm' = pm_store pm \<and> blocked pm' (Some u))) \<and>
    mutex_step BaseMutex_lock BaseMutex_unlock w (goto u Critical w) \<and> resumes_blocked w (goto u Critical w) \<and>
    lw_pc (goto u Critical w) t = Critical \<and> lw_pc (goto u Critical w) u = Critical \<and> \<not> mutex_exclusive (goto u Critical w)"
proof -
  obtain w where w: "(sound_step BaseMutex_lock BaseMutex_unlock)\<^sup>*\<^sup>* (lock_start BaseMutex_new ts) w"
    "lw_pc w t = Critical" "lw_pc w u = Sleeping" "st_status (lw_tasks w u) = STATUS_BLOCKED"
    by (rule run_contended [of ts t u]) (use assms(1,2) in auto)
  have "pm_store pm u = Some tc"
    using assms(3) by (simp add: sched_ready_def)
  then have "\<exists>pm'. ProcessManager_schedule pm = Some (Returned (Some u), pm') \<and> pm_store pm' = pm_store pm \<and> blocked pm' (Some u)"
    if "tk_status tc = STATUS_BLOCKED"
    using schedule_keeps_current [OF assms(3,4)] that by (auto simp: blocked_def pm_task_def)
  moreover have "mutex_step BaseMutex_lock BaseMutex_unlock w (goto u Critical w)"
    using w(3) by (rule mutex_step.wake)
  moreover have "resumes_blocked w (goto u Critical w)"
    using w(3,4) by (auto simp: resumes_blocked_def goto_def)
  ultimately show ?thesis
    using w assms(2) by (intro exI [of _ w]) (auto simp: goto_def mutex_exclusive_def)
qed

theorem mutex_unsafe_under_schedule_witness:
  "\<exists>w. (sound_step BaseMutex_lock BaseMutex_unlock)\<^sup>*\<^sup>* (lock_start BaseMutex_new idle_tasks) w \<and> lw_pc w 1 = Critical \<and> lw_pc w 2 = Sleeping \<and>
     (\<exists>pm'. ProcessManager_schedule (two_tasks STATUS_BLOCKED) = Some (Returned (Some 2), pm') \<and> blocked pm' (Some 2)) \<and>
     \<not> mutex_exclusive (goto 2 Critical w)"
proof -
  have "st_status (idle_tasks t) \<noteq> STATUS_BLOCKED" for t
    by (simp add: idle_tasks_def)
  moreover have "blocked (two_tasks STATUS_BLOCKED) (Some 1)"
    by (simp add: blocked_def pm_task_def two_tasks_def)
  moreover have "sched_ready (two_tasks STATUS_BLOCKED) 2 (Task_new\<lparr>tk_status := STATUS_BLOCKED, tk_slice := 3\<rparr>) ([Some 1] @ Some 2 # [])"
    using two_tasks_ready by simp
  ultimately show ?thesis
    using mutex_unsafe_under_schedule [of idle_tasks 1 2 "two_tasks STATUS_BLOCKED"
        "Task_new\<lparr>tk_status := STATUS_BLOCKED, tk_slice := 3\<rparr>" "[Some 1]" "[]"] by auto
qed

end
